(* ===== verification/Prelude.thy ===== *)
theory Prelude
  imports Main "HOL-Library.Word" "HOL-Library.Sublist"
begin

text \<open>
  Shared vocabulary of the development: machine integers, results, byte parsers,
  big-endian integers, and the interface every wire codec of the program satisfies.
  A Rust \<open>Result<T, E>\<close> is the sum \<open>'e + 't\<close> (\<open>Inl\<close> the error); a parser over an
  \<open>AsyncRead\<close> or a byte cursor takes the bytes still unread and returns the value together
  with the bytes left after it.
\<close>

section \<open>Machine integers and results\<close>

type_synonym u8 = "8 word"
type_synonym u16 = "16 word"
type_synonym u32 = "32 word"
type_synonym u64 = "64 word"
type_synonym u128 = "128 word"

type_synonym bytes = "u8 list"

named_theorems result_simps \<open>equations of the result combinators\<close>
named_theorems parser_simps \<open>equations of the byte parsers on inputs that are long enough\<close>

definition and_then :: "'e + 'a \<Rightarrow> ('a \<Rightarrow> 'e + 'b) \<Rightarrow> 'e + 'b" where
  "and_then r f = (case r of Inl e \<Rightarrow> Inl e | Inr x \<Rightarrow> f x)"

definition map_err :: "('e \<Rightarrow> 'f) \<Rightarrow> 'e + 'a \<Rightarrow> 'f + 'a" where
  "map_err g r = (case r of Inl e \<Rightarrow> Inl (g e) | Inr x \<Rightarrow> Inr x)"

definition ok_or :: "'e \<Rightarrow> 'a option \<Rightarrow> 'e + 'a" where
  "ok_or e v = (case v of None \<Rightarrow> Inl e | Some x \<Rightarrow> Inr x)"

definition ensure :: "bool \<Rightarrow> 'e \<Rightarrow> 'e + unit" where
  "ensure b e = (if b then Inr () else Inl e)"

fun is_ok :: "'e + 'a \<Rightarrow> bool" where
  "is_ok (Inl _) = False"
| "is_ok (Inr _) = True"

lemma and_then_simps [simp, result_simps]:
  "and_then (Inl e) f = Inl e"
  "and_then (Inr x) f = f x"
  by (simp_all add: and_then_def)

lemma map_err_simps [simp, result_simps]:
  "map_err g (Inl e) = Inl (g e)"
  "map_err g (Inr x) = Inr x"
  by (simp_all add: map_err_def)

lemma ok_or_simps [simp, result_simps]:
  "ok_or e None = Inl e"
  "ok_or e (Some x) = Inr x"
  by (simp_all add: ok_or_def)

lemma ensure_simps [simp, result_simps]:
  "ensure True e = Inr ()"
  "ensure False e = Inl e"
  by (simp_all add: ensure_def)

lemma and_then_eq_Inr [simp]:
  "and_then r f = Inr y \<longleftrightarrow> (\<exists>x. r = Inr x \<and> f x = Inr y)"
  by (cases r) auto

lemma and_then_eq_Inl:
  "and_then r f = Inl e \<longleftrightarrow> r = Inl e \<or> (\<exists>x. r = Inr x \<and> f x = Inl e)"
  by (cases r) auto

lemma map_err_eq_Inr [simp]: "map_err g r = Inr y \<longleftrightarrow> r = Inr y"
  by (cases r) auto

lemma ok_or_eq_Inr [simp]: "ok_or e v = Inr y \<longleftrightarrow> v = Some y"
  by (cases v) auto

lemma ensure_eq_Inr [simp]: "ensure b e = Inr u \<longleftrightarrow> b"
  by (simp add: ensure_def)

lemma ensure_eq_Inl [simp]: "ensure b e = Inl e' \<longleftrightarrow> \<not> b \<and> e' = e"
  by (auto simp: ensure_def)

lemma is_ok_iff: "is_ok r \<longleftrightarrow> (\<exists>x. r = Inr x)"
  by (cases r) auto

text \<open>
  \<open>iter.map(f).collect::<Result<Vec<_>, _>>()\<close>: the elements are tried in order and the
  first error wins.
\<close>

fun try_map :: "('a \<Rightarrow> 'e + 'b) \<Rightarrow> 'a list \<Rightarrow> 'e + 'b list" where
  "try_map f [] = Inr []"
| "try_map f (x # xs) = and_then (f x) (\<lambda>y. and_then (try_map f xs) (\<lambda>ys. Inr (y # ys)))"

lemma try_map_Inr_iff:
  "try_map f xs = Inr ys \<longleftrightarrow> list_all2 (\<lambda>x y. f x = Inr y) xs ys"
  by (induction xs arbitrary: ys) (auto simp: list_all2_Cons1)

lemma try_map_length: "try_map f xs = Inr ys \<Longrightarrow> length ys = length xs"
  by (simp add: try_map_Inr_iff list_all2_lengthD)

lemma try_map_set: "try_map f xs = Inr ys \<Longrightarrow> y \<in> set ys \<longleftrightarrow> (\<exists>x \<in> set xs. f x = Inr y)"
  by (induction xs arbitrary: ys) auto

lemma try_map_cong [fundef_cong]:
  "xs = ys \<Longrightarrow> (\<And>x. x \<in> set ys \<Longrightarrow> f x = g x) \<Longrightarrow> try_map f xs = try_map g ys"
proof (induction ys arbitrary: xs)
  case (Cons y ys)
  then have "try_map f ys = try_map g ys" by auto
  with Cons.prems show ?case by simp
qed simp

lemma try_map_Inr_total: "(\<And>x. x \<in> set xs \<Longrightarrow> f x = Inr (g x)) \<Longrightarrow> try_map f xs = Inr (map g xs)"
  by (induction xs) auto

lemma try_map_append:
  "try_map f (xs @ ys) = and_then (try_map f xs) (\<lambda>us. and_then (try_map f ys) (\<lambda>vs. Inr (us @ vs)))"
  by (induction xs) (auto simp: and_then_def split: sum.splits)

text \<open>The loop \<open>for x in xs { state = f(state, x)?; }\<close>.\<close>

fun try_fold :: "('s \<Rightarrow> 'a \<Rightarrow> 'e + 's) \<Rightarrow> 's \<Rightarrow> 'a list \<Rightarrow> 'e + 's" where
  "try_fold f s [] = Inr s"
| "try_fold f s (x # xs) = and_then (f s x) (\<lambda>s'. try_fold f s' xs)"

lemma try_fold_append: "try_fold f s (xs @ ys) = and_then (try_fold f s xs) (\<lambda>s'. try_fold f s' ys)"
  by (induction xs arbitrary: s) (auto simp: and_then_def split: sum.splits)

lemma try_fold_invariant:
  assumes "try_fold f s xs = Inr t" and "P s"
    and "\<And>s x s'. P s \<Longrightarrow> x \<in> set xs \<Longrightarrow> f s x = Inr s' \<Longrightarrow> P s'"
  shows "P t"
  using assms
proof (induction xs arbitrary: s)
  case (Cons x xs)
  from Cons.prems(1) obtain s' where s': "f s x = Inr s'" "try_fold f s' xs = Inr t" by auto
  have "P s'" by (rule Cons.prems(3) [OF Cons.prems(2) _ s'(1)]) simp
  show ?case
  proof (rule Cons.IH [OF s'(2) \<open>P s'\<close>])
    fix u x u'
    assume "P u" and "x \<in> set xs" and "f u x = Inr u'"
    then show "P u'" using Cons.prems(3) [of u x u'] by simp
  qed
qed simp

lemma try_fold_Inl: "try_fold f s xs = Inl e \<Longrightarrow> \<exists>s x. x \<in> set xs \<and> f s x = Inl e"
proof (induction xs arbitrary: s)
  case (Cons x xs)
  then consider "f s x = Inl e" | s' where "try_fold f s' xs = Inl e"
    by (auto simp: and_then_eq_Inl)
  then show ?case by cases (use Cons.IH in \<open>force+\<close>)
qed simp

lemma try_fold_union:
  assumes "try_fold f s xs = Inr t"
    and "\<And>s x s'. x \<in> set xs \<Longrightarrow> f s x = Inr s' \<Longrightarrow> set s' = set s \<union> G x"
  shows "set t = set s \<union> (\<Union>x \<in> set xs. G x)"
  using assms
proof (induction xs arbitrary: s)
  case (Cons x xs)
  from Cons.prems(1) obtain s' where s': "f s x = Inr s'" "try_fold f s' xs = Inr t" by auto
  have "set t = set s' \<union> (\<Union>x \<in> set xs. G x)"
    by (rule Cons.IH [OF s'(2)], rule Cons.prems(2)) auto
  with Cons.prems(2) [OF _ s'(1)] show ?case by auto
qed simp

section \<open>Big-endian integers\<close>

text \<open>\<open>uN::to_be_bytes\<close> and \<open>uN::from_be_bytes\<close>.\<close>

fun be_list :: "nat \<Rightarrow> nat \<Rightarrow> bytes" where
  "be_list 0 v = []"
| "be_list (Suc n) v = be_list n (v div 256) @ [of_nat (v mod 256)]"

definition be_nat :: "bytes \<Rightarrow> nat" where
  "be_nat bs = foldl (\<lambda>a b. a * 256 + unat b) 0 bs"

definition be_bytes :: "'a::len word \<Rightarrow> bytes" where
  "be_bytes w = be_list (LENGTH('a) div 8) (unat w)"

definition from_be :: "bytes \<Rightarrow> 'a::len word" where
  "from_be bs = of_nat (be_nat bs)"

lemma length_be_list [simp]: "length (be_list n v) = n"
  by (induction n arbitrary: v) auto

lemma length_be_bytes [simp]: "length (be_bytes (w :: 'a::len word)) = LENGTH('a) div 8"
  by (simp add: be_bytes_def)

lemma be_nat_Nil [simp]: "be_nat [] = 0"
  by (simp add: be_nat_def)

lemma be_nat_snoc: "be_nat (bs @ [b]) = be_nat bs * 256 + unat b"
  by (simp add: be_nat_def)

lemma unat_byte_less [simp]: "unat (b :: u8) < 256"
  using unsigned_less [of b] by simp

lemma digit_bound: "n < (p::nat) \<Longrightarrow> b < 256 \<Longrightarrow> n * 256 + b < 256 * p"
  by linarith

lemma be_nat_bound: "be_nat bs < 256 ^ length bs"
proof (induction bs rule: rev_induct)
  case (snoc b bs)
  from digit_bound [OF this unat_byte_less [of b]] show ?case by (simp add: be_nat_snoc)
qed simp

lemma be_nat_be_list: "be_nat (be_list n v) = v mod 256 ^ n"
proof (induction n arbitrary: v)
  case (Suc n)
  have "unat (of_nat (v mod 256) :: u8) = v mod 256"
    by (simp add: unat_of_nat)
  then show ?case
    by (simp add: be_nat_snoc Suc mod_mult2_eq mult.commute)
qed simp

lemma be_list_be_nat: "length bs = n \<Longrightarrow> be_list n (be_nat bs) = bs"
proof (induction bs arbitrary: n rule: rev_induct)
  case (snoc b bs)
  have "unat b < 256" by simp
  then show ?case using snoc by (auto simp: be_nat_snoc)
qed simp

lemma from_be_be_bytes [simp]:
  fixes w :: "'a::len word"
  assumes "8 dvd LENGTH('a)"
  shows "from_be (be_bytes w) = w"
proof -
  from assms obtain k where k: "LENGTH('a) = 8 * k" by (auto elim: dvdE)
  then have "(256::nat) ^ (LENGTH('a) div 8) = 2 ^ LENGTH('a)"
    by (simp add: power_mult)
  then show ?thesis
    by (simp add: from_be_def be_bytes_def be_nat_be_list)
qed

lemma be_bytes_from_be:
  assumes "8 * length bs = LENGTH('a::len)"
  shows "be_bytes (from_be bs :: 'a word) = bs"
proof -
  have "(256::nat) ^ length bs = 2 ^ LENGTH('a)"
    by (simp add: assms [symmetric] power_mult)
  with be_nat_bound [of bs] have "unat (of_nat (be_nat bs) :: 'a word) = be_nat bs"
    by (simp add: unat_of_nat)
  moreover have "LENGTH('a) div 8 = length bs" using assms by simp
  ultimately show ?thesis by (simp add: from_be_def be_bytes_def be_list_be_nat)
qed

section \<open>Byte parsers\<close>

text \<open>
  \<open>read_exact\<close> on a stream: the first argument is the error the caller reports when the
  bytes end early.
\<close>

definition read_exact :: "'e \<Rightarrow> nat \<Rightarrow> bytes \<Rightarrow> 'e + (bytes \<times> bytes)" where
  "read_exact eof n bs = (if n \<le> length bs then Inr (take n bs, drop n bs) else Inl eof)"

definition read_u8 :: "'e \<Rightarrow> bytes \<Rightarrow> 'e + (u8 \<times> bytes)" where
  "read_u8 eof bs = (case bs of [] \<Rightarrow> Inl eof | b # rest \<Rightarrow> Inr (b, rest))"

definition read_be :: "'e \<Rightarrow> bytes \<Rightarrow> 'e + ('a::len word \<times> bytes)" where
  "read_be eof bs =
     and_then (read_exact eof (LENGTH('a) div 8) bs) (\<lambda>(x, rest). Inr (from_be x, rest))"

lemma read_exact_append [simp, parser_simps]:
  "length xs = n \<Longrightarrow> read_exact eof n (xs @ rest) = Inr (xs, rest)"
  by (auto simp: read_exact_def)

lemma read_exact_Inr_iff:
  "read_exact eof n bs = Inr (x, rest) \<longleftrightarrow> bs = x @ rest \<and> length x = n"
  by (auto simp: read_exact_def)

lemma read_exact_Inl_iff: "read_exact eof n bs = Inl e \<longleftrightarrow> length bs < n \<and> e = eof"
  by (auto simp: read_exact_def)

lemma read_u8_simps [simp, parser_simps]:
  "read_u8 eof [] = Inl eof"
  "read_u8 eof (b # rest) = Inr (b, rest)"
  by (simp_all add: read_u8_def)

lemma read_u8_Inr_iff: "read_u8 eof bs = Inr (b, rest) \<longleftrightarrow> bs = b # rest"
  by (cases bs) auto

lemma read_be_append [parser_simps]:
  fixes w :: "'a::len word"
  assumes "8 dvd LENGTH('a)"
  shows "read_be eof (be_bytes w @ rest) = Inr (w, rest)"
  using assms by (simp add: read_be_def)

lemma read_be_u16 [simp]: "read_be eof (be_bytes (w :: u16) @ rest) = Inr (w, rest)"
  by (simp add: read_be_append)

lemma read_be_u32 [simp]: "read_be eof (be_bytes (w :: u32) @ rest) = Inr (w, rest)"
  by (simp add: read_be_append)

lemma read_be_u64 [simp]: "read_be eof (be_bytes (w :: u64) @ rest) = Inr (w, rest)"
  by (simp add: read_be_append)

text \<open>\<open>n\<close> values in a row, the first error wins.\<close>

fun read_many :: "(bytes \<Rightarrow> 'e + ('a \<times> bytes)) \<Rightarrow> nat \<Rightarrow> bytes \<Rightarrow> 'e + ('a list \<times> bytes)" where
  "read_many p 0 bs = Inr ([], bs)"
| "read_many p (Suc n) bs =
     and_then (p bs) (\<lambda>(x, bs'). and_then (read_many p n bs') (\<lambda>(xs, rest). Inr (x # xs, rest)))"

lemma read_many_length:
  "read_many p n bs = Inr (xs, rest) \<Longrightarrow> length xs = n"
  by (induction n arbitrary: bs xs rest) auto

section \<open>The interface of a wire codec\<close>

text \<open>
  Every wire format of the program is a fallible encoder and a decoder that leaves the bytes
  after the value unread. What a peer relies on is that a value the encoder accepted is
  decoded from the front of any longer input, up to the normal form the decoder produces (an
  address literal comes back in its canonical spelling).
\<close>

locale codec =
  fixes enc :: "'a \<Rightarrow> 'e + bytes"
    and dec :: "bytes \<Rightarrow> 'f + ('a \<times> bytes)"
    and norm :: "'a \<Rightarrow> 'a"
  assumes dec_enc: "enc x = Inr bs \<Longrightarrow> dec (bs @ rest) = Inr (norm x, rest)"
begin

lemma dec_enc_exact: "enc x = Inr bs \<Longrightarrow> dec bs = Inr (norm x, [])"
  using dec_enc [of x bs "[]"] by simp

lemma enc_prefix_free:
  assumes "enc x = Inr bs" and "enc y = Inr cs" and "bs @ r = cs @ s"
  shows "norm x = norm y \<and> r = s"
  using dec_enc [OF assms(1), of r] dec_enc [OF assms(2), of s] assms(3) by simp

lemma dec_stream:
  assumes "list_all2 (\<lambda>x bs. enc x = Inr bs) xs bss"
  shows "read_many dec (length xs) (concat bss @ rest) = Inr (map norm xs, rest)"
  using assms
proof (induction xs bss rule: list_all2_induct)
  case (Cons x xs bs bss)
  then show ?case using dec_enc [of x bs "concat bss @ rest"] by simp
qed simp

end

locale exact_codec = codec +
  assumes norm_id: "enc x = Inr bs \<Longrightarrow> norm x = x"
begin

lemma enc_injective: "enc x = Inr bs \<Longrightarrow> enc y = Inr bs \<Longrightarrow> x = y"
  using enc_prefix_free [of x bs y bs "[]" "[]"] norm_id by auto

lemma dec_enc_id: "enc x = Inr bs \<Longrightarrow> dec (bs @ rest) = Inr (x, rest)"
  by (simp add: dec_enc norm_id)

end

end
