(* ===== verification/Rust_Str.thy ===== *)
theory Rust_Str
  imports Prelude
begin

text \<open>
  What the program uses of Rust's \<open>str\<close>, \<open>String\<close> and integer parsing. A Rust string is
  its UTF-8 bytes, so a model string is a \<open>char list\<close> whose elements are those bytes:
  \<open>length\<close> is \<open>str::len\<close>, slices and searches are by byte offset.
\<close>

section \<open>Bytes of a string and UTF-8 validity\<close>

definition as_bytes :: "string \<Rightarrow> bytes" where
  "as_bytes s = map (\<lambda>c. of_nat (of_char c)) s"

definition bytes_chars :: "bytes \<Rightarrow> string" where
  "bytes_chars bs = map (\<lambda>b. char_of (unat b)) bs"

lemma of_char_less_256: "(of_char c :: nat) < 256"
  by (metis char_of_nat nat_of_char_less_256)

lemma as_bytes_bytes_chars [simp]: "as_bytes (bytes_chars bs) = bs"
proof -
  have "of_nat (of_char (char_of (unat b) :: char)) = b" for b :: u8
    using unat_byte_less [of b] by simp
  then show ?thesis by (simp add: as_bytes_def bytes_chars_def map_idI)
qed

lemma bytes_chars_as_bytes [simp]: "bytes_chars (as_bytes s) = s"
proof -
  have "char_of (unat (of_nat (of_char c) :: u8)) = c" for c :: char
    using of_char_less_256 [of c] by (simp add: unat_of_nat)
  then show ?thesis by (simp add: as_bytes_def bytes_chars_def map_idI)
qed

lemma length_as_bytes [simp]: "length (as_bytes s) = length s"
  by (simp add: as_bytes_def)

lemma length_bytes_chars [simp]: "length (bytes_chars bs) = length bs"
  by (simp add: bytes_chars_def)

lemma as_bytes_append [simp]: "as_bytes (s @ t) = as_bytes s @ as_bytes t"
  by (simp add: as_bytes_def)

lemma as_bytes_inject [simp]: "as_bytes s = as_bytes t \<longleftrightarrow> s = t"
  by (metis bytes_chars_as_bytes)

text \<open>
  The first encoded character of a byte string and the bytes after it, by the table of
  well-formed UTF-8 sequences that \<open>std::str::from_utf8\<close> checks.
\<close>

definition utf8_cont :: "u8 \<Rightarrow> bool" where
  "utf8_cont b \<longleftrightarrow> 0x80 \<le> b \<and> b \<le> 0xBF"

definition utf8_len :: "u8 \<Rightarrow> nat" where
  "utf8_len a =
     (if a \<le> 0x7F then 1 else if a < 0xC2 then 0 else if a \<le> 0xDF then 2
      else if a \<le> 0xEF then 3 else if a \<le> 0xF4 then 4 else 0)"

definition utf8_second :: "u8 \<Rightarrow> u8 \<Rightarrow> bool" where
  "utf8_second a b \<longleftrightarrow>
     (if a = 0xE0 then 0xA0 \<le> b \<and> b \<le> 0xBF
      else if a = 0xED then 0x80 \<le> b \<and> b \<le> 0x9F
      else if a = 0xF0 then 0x90 \<le> b \<and> b \<le> 0xBF
      else if a = 0xF4 then 0x80 \<le> b \<and> b \<le> 0x8F
      else utf8_cont b)"

fun utf8_tail :: "u8 \<Rightarrow> bytes \<Rightarrow> bool" where
  "utf8_tail a [] = True"
| "utf8_tail a (b # cs) = (utf8_second a b \<and> list_all utf8_cont cs)"

definition utf8_step :: "bytes \<Rightarrow> (bytes \<times> bytes) option" where
  "utf8_step bs =
     (case bs of
        [] \<Rightarrow> None
      | a # r \<Rightarrow>
          let n = utf8_len a in
          if n = 0 \<or> length bs < n \<or> \<not> utf8_tail a (take (n - 1) r) then None
          else Some (take n bs, drop n bs))"

lemma utf8_step_split: "utf8_step bs = Some (c, rest) \<Longrightarrow> bs = c @ rest \<and> c \<noteq> []"
  by (auto simp: utf8_step_def Let_def split: list.splits if_splits)

lemma utf8_step_append: "utf8_step bs = Some (c, rest) \<Longrightarrow> utf8_step (bs @ zs) = Some (c, rest @ zs)"
proof (cases bs)
  case (Cons a r)
  assume "utf8_step bs = Some (c, rest)"
  with Cons show ?thesis
    by (cases "utf8_len a") (auto simp: utf8_step_def Let_def split: if_splits)
qed (simp add: utf8_step_def)

lemma utf8_step_ascii [simp]: "b \<le> 0x7F \<Longrightarrow> utf8_step (b # bs) = Some ([b], bs)"
  by (simp add: utf8_step_def utf8_len_def)

function utf8_chars :: "bytes \<Rightarrow> bytes list option" where
  "utf8_chars bs =
     (if bs = [] then Some []
      else case utf8_step bs of
        None \<Rightarrow> None
      | Some (c, rest) \<Rightarrow> map_option (\<lambda>cs. c # cs) (utf8_chars rest))"
  by pat_completeness auto
termination
  by (relation "measure length") (auto dest: utf8_step_split)

declare utf8_chars.simps [simp del]

lemma utf8_chars_Nil [simp]: "utf8_chars [] = Some []"
  by (simp add: utf8_chars.simps)

lemma utf8_chars_concat: "utf8_chars bs = Some cs \<Longrightarrow> concat cs = bs"
proof (induction bs arbitrary: cs rule: utf8_chars.induct)
  case (1 bs)
  then show ?case
    by (subst (asm) (2) utf8_chars.simps)
      (auto split: if_splits option.splits dest!: utf8_step_split)
qed

lemma utf8_chars_append:
  "utf8_chars bs = Some cs \<Longrightarrow> utf8_chars zs = Some ds \<Longrightarrow> utf8_chars (bs @ zs) = Some (cs @ ds)"
proof (induction bs arbitrary: cs rule: utf8_chars.induct)
  case (1 bs)
  show ?case
  proof (cases "bs = []")
    case True
    with "1.prems" show ?thesis by simp
  next
    case False
    with "1.prems"(1) obtain c rest cs' where
      step: "utf8_step bs = Some (c, rest)" and cs: "cs = c # cs'" "utf8_chars rest = Some cs'"
      by (subst (asm) utf8_chars.simps) (auto split: option.splits)
    from "1.IH" [OF False step refl cs(2) "1.prems"(2)]
    have "utf8_chars (rest @ zs) = Some (cs' @ ds)" .
    with step False cs(1) show ?thesis
      by (subst utf8_chars.simps) (simp add: utf8_step_append)
  qed
qed

lemma utf8_chars_ascii: "(\<And>b. b \<in> set bs \<Longrightarrow> b \<le> 0x7F) \<Longrightarrow> utf8_chars bs = Some (map (\<lambda>b. [b]) bs)"
proof (induction bs)
  case (Cons b bs)
  then have "utf8_step (b # bs) = Some ([b], bs)" by simp
  with Cons show ?case by (subst utf8_chars.simps) simp
qed simp

definition utf8_valid :: "bytes \<Rightarrow> bool" where
  "utf8_valid bs \<longleftrightarrow> utf8_chars bs \<noteq> None"

definition from_utf8 :: "'e \<Rightarrow> bytes \<Rightarrow> 'e + string" where
  "from_utf8 e bs = (if utf8_valid bs then Inr (bytes_chars bs) else Inl e)"

text \<open>A Rust \<open>String\<close> always holds valid UTF-8.\<close>

definition is_str :: "string \<Rightarrow> bool" where
  "is_str s \<longleftrightarrow> utf8_valid (as_bytes s)"

lemma from_utf8_as_bytes [simp]: "is_str s \<Longrightarrow> from_utf8 e (as_bytes s) = Inr s"
  by (simp add: from_utf8_def is_str_def)

lemma from_utf8_is_str: "from_utf8 e bs = Inr s \<Longrightarrow> is_str s \<and> as_bytes s = bs"
  by (auto simp: from_utf8_def is_str_def split: if_splits)

lemma is_str_Nil [simp]: "is_str []"
  by (simp add: is_str_def utf8_valid_def as_bytes_def)

lemma is_str_append: "is_str s \<Longrightarrow> is_str t \<Longrightarrow> is_str (s @ t)"
  by (auto simp: is_str_def utf8_valid_def utf8_chars_append)

definition is_ascii :: "string \<Rightarrow> bool" where
  "is_ascii s \<longleftrightarrow> list_all (\<lambda>c. (of_char c :: nat) < 128) s"

lemma is_ascii_is_str: "is_ascii s \<Longrightarrow> is_str s"
proof -
  assume a: "is_ascii s"
  have "b \<le> 0x7F" if "b \<in> set (as_bytes s)" for b
  proof -
    from that obtain c where c: "c \<in> set s" "b = of_nat (of_char c)"
      by (auto simp: as_bytes_def)
    with a have "(of_char c :: nat) < 128" by (auto simp: is_ascii_def list_all_iff)
    with c(2) show ?thesis by (simp add: word_le_nat_alt unat_of_nat)
  qed
  then show ?thesis by (simp add: is_str_def utf8_valid_def utf8_chars_ascii)
qed

lemma is_ascii_Nil [simp]: "is_ascii []"
  by (simp add: is_ascii_def)

lemma is_ascii_Cons [simp]: "is_ascii (c # s) \<longleftrightarrow> (of_char c :: nat) < 128 \<and> is_ascii s"
  by (simp add: is_ascii_def)

lemma is_ascii_append [simp]: "is_ascii (s @ t) \<longleftrightarrow> is_ascii s \<and> is_ascii t"
  by (simp add: is_ascii_def)

section \<open>ASCII case, searching and splitting\<close>

definition ascii_lower :: "char \<Rightarrow> char" where
  "ascii_lower c =
     (let n = of_char c :: nat in if 65 \<le> n \<and> n \<le> 90 then char_of (n + 32) else c)"

definition to_ascii_lowercase :: "string \<Rightarrow> string" where
  "to_ascii_lowercase s = map ascii_lower s"

lemma ascii_lower_idem [simp]: "ascii_lower (ascii_lower c) = ascii_lower c"
  by (auto simp: ascii_lower_def Let_def)

lemma to_ascii_lowercase_idem [simp]:
  "to_ascii_lowercase (to_ascii_lowercase s) = to_ascii_lowercase s"
  by (simp add: to_ascii_lowercase_def)

lemma length_to_ascii_lowercase [simp]: "length (to_ascii_lowercase s) = length s"
  by (simp add: to_ascii_lowercase_def)

definition eq_ignore_ascii_case :: "string \<Rightarrow> string \<Rightarrow> bool" where
  "eq_ignore_ascii_case s t \<longleftrightarrow> to_ascii_lowercase s = to_ascii_lowercase t"

definition strip_prefix :: "string \<Rightarrow> string \<Rightarrow> string option" where
  "strip_prefix s p = (if prefix p s then Some (drop (length p) s) else None)"

lemma strip_prefix_append [simp]: "strip_prefix (p @ s) p = Some s"
  by (simp add: strip_prefix_def)

lemma strip_prefix_Some_iff: "strip_prefix s p = Some t \<longleftrightarrow> s = p @ t"
  by (auto simp: strip_prefix_def prefix_def)

text \<open>\<open>str::find\<close> with a predicate: the offset of the first matching character.\<close>

fun find_idx :: "('a \<Rightarrow> bool) \<Rightarrow> 'a list \<Rightarrow> nat option" where
  "find_idx p [] = None"
| "find_idx p (x # xs) = (if p x then Some 0 else map_option Suc (find_idx p xs))"

lemma find_idx_None: "find_idx p xs = None \<longleftrightarrow> (\<forall>x \<in> set xs. \<not> p x)"
  by (induction xs) auto

lemma find_idx_Some:
  "find_idx p xs = Some i \<Longrightarrow> i < length xs \<and> p (xs ! i) \<and> (\<forall>x \<in> set (take i xs). \<not> p x)"
  by (induction xs arbitrary: i) (auto split: if_splits)

lemma find_idx_append:
  "(\<And>x. x \<in> set xs \<Longrightarrow> \<not> p x) \<Longrightarrow> p y \<Longrightarrow> find_idx p (xs @ y # ys) = Some (length xs)"
  by (induction xs) auto

lemma find_idx_takeWhile: "find_idx p xs = Some i \<Longrightarrow> take i xs = takeWhile (\<lambda>x. \<not> p x) xs"
  by (induction xs arbitrary: i) (auto split: if_splits)

text \<open>\<open>split_once\<close> cuts at the first, \<open>rsplit_once\<close> at the last occurrence of a character.\<close>

definition split_once :: "char \<Rightarrow> string \<Rightarrow> (string \<times> string) option" where
  "split_once c s = map_option (\<lambda>i. (take i s, drop (Suc i) s)) (find_idx (\<lambda>x. x = c) s)"

definition rsplit_once :: "char \<Rightarrow> string \<Rightarrow> (string \<times> string) option" where
  "rsplit_once c s =
     map_option (\<lambda>(a, b). (rev b, rev a)) (split_once c (rev s))"

lemma split_once_append [simp]: "c \<notin> set a \<Longrightarrow> split_once c (a @ c # b) = Some (a, b)"
proof -
  assume "c \<notin> set a"
  then have "find_idx (\<lambda>x. x = c) (a @ c # b) = Some (length a)"
    by (intro find_idx_append) auto
  then show ?thesis by (simp add: split_once_def)
qed

lemma split_once_None: "c \<notin> set s \<Longrightarrow> split_once c s = None"
  by (auto simp: split_once_def find_idx_None)

lemma split_once_Some:
  "split_once c s = Some (a, b) \<Longrightarrow> s = a @ c # b \<and> c \<notin> set a"
proof -
  assume "split_once c s = Some (a, b)"
  then obtain i where i: "find_idx (\<lambda>x. x = c) s = Some i" "a = take i s" "b = drop (Suc i) s"
    by (auto simp: split_once_def)
  from find_idx_Some [OF i(1)] i(2,3) show ?thesis
    by (metis id_take_nth_drop)
qed

text \<open>\<open>str::split\<close> on a character: always at least one part.\<close>

fun split_on :: "char \<Rightarrow> string \<Rightarrow> string list" where
  "split_on c [] = [[]]"
| "split_on c (x # xs) =
     (if x = c then [] # split_on c xs
      else case split_on c xs of [] \<Rightarrow> [[x]] | p # ps \<Rightarrow> (x # p) # ps)"

lemma split_on_not_Nil [simp]: "split_on c s \<noteq> []"
  by (induction s) (auto split: list.splits)

lemma split_on_single: "c \<notin> set s \<Longrightarrow> split_on c s = [s]"
  by (induction s) auto

lemma split_on_snoc: "c \<notin> set a \<Longrightarrow> split_on c (a @ c # b) = a # split_on c b"
  by (induction a) auto

text \<open>\<open>str::trim_start_matches(c)\<close>, \<open>str::trim_end_matches(c)\<close> and \<open>str::replace\<close> of one ASCII character by another.\<close>

definition trim_start_matches :: "char \<Rightarrow> string \<Rightarrow> string" where
  "trim_start_matches c s = dropWhile (\<lambda>x. x = c) s"

definition trim_end_matches :: "char \<Rightarrow> string \<Rightarrow> string" where
  "trim_end_matches c s = rev (dropWhile (\<lambda>x. x = c) (rev s))"

definition replace_char :: "char \<Rightarrow> char \<Rightarrow> string \<Rightarrow> string" where
  "replace_char c d s = map (\<lambda>x. if x = c then d else x) s"

lemma trim_end_matches_snoc: "s \<noteq> [] \<Longrightarrow> last s \<noteq> c \<Longrightarrow> trim_end_matches c s = s"
  by (induction s rule: rev_induct) (simp_all add: trim_end_matches_def)

text \<open>\<open>str::lines\<close>: the line ends are dropped, with a carriage return before them.\<close>

definition strip_cr :: "string \<Rightarrow> string" where
  "strip_cr s = (if s \<noteq> [] \<and> last s = CHR 0x0D then butlast s else s)"

definition str_lines :: "string \<Rightarrow> string list" where
  "str_lines s =
     (let ps = split_on (CHR 0x0A) s in
      map strip_cr (butlast ps) @ (if last ps = [] then [] else [last ps]))"

section \<open>Decimal and hexadecimal integers\<close>

definition digit_char :: "nat \<Rightarrow> char" where
  "digit_char d = char_of (if d < 10 then 48 + d else 87 + d)"

text \<open>\<open>char::to_digit(radix)\<close> for radix 10 and 16.\<close>

definition to_digit :: "nat \<Rightarrow> char \<Rightarrow> nat option" where
  "to_digit radix c =
     (let n = of_char c :: nat;
          d = (if 48 \<le> n \<and> n \<le> 57 then n - 48
               else if 97 \<le> n \<and> n \<le> 122 then n - 87
               else if 65 \<le> n \<and> n \<le> 90 then n - 55
               else radix)
      in if d < radix then Some d else None)"

lemma to_digit_digit_char [simp]: "d < radix \<Longrightarrow> radix \<le> 36 \<Longrightarrow> to_digit radix (digit_char d) = Some d"
  by (auto simp: to_digit_def digit_char_def Let_def)

lemma digit_char_0: "digit_char 0 = CHR ''0''"
  by code_simp

fun show_nat :: "nat \<Rightarrow> string" where
  "show_nat n = (if n < 10 then [digit_char n] else show_nat (n div 10) @ [digit_char (n mod 10)])"

declare show_nat.simps [simp del]

fun parse_digits :: "nat \<Rightarrow> nat \<Rightarrow> nat \<Rightarrow> string \<Rightarrow> nat option" where
  "parse_digits radix lim acc [] = Some acc"
| "parse_digits radix lim acc (c # cs) =
     (case to_digit radix c of
        None \<Rightarrow> None
      | Some d \<Rightarrow>
          if acc * radix + d \<le> lim then parse_digits radix lim (acc * radix + d) cs else None)"

text \<open>
  \<open>uN::from_str_radix\<close>, and \<open>str::parse::<uN>\<close> for radix 10: an optional plus sign, at
  least one digit, no overflow.
\<close>

definition parse_uint :: "nat \<Rightarrow> nat \<Rightarrow> string \<Rightarrow> nat option" where
  "parse_uint radix lim s =
     (let ds = (case s of [] \<Rightarrow> [] | c # cs \<Rightarrow> if c = CHR ''+'' then cs else s)
      in if ds = [] then None else parse_digits radix lim 0 ds)"

lemma parse_digits_bound: "acc \<le> lim \<Longrightarrow> parse_digits radix lim acc s = Some n \<Longrightarrow> n \<le> lim"
  by (induction s arbitrary: acc) (auto split: option.splits if_splits)

lemma parse_uint_bound: "parse_uint radix lim s = Some n \<Longrightarrow> n \<le> lim"
  by (auto simp: parse_uint_def Let_def split: if_splits intro: parse_digits_bound [of 0])

lemma parse_digits_append:
  "parse_digits radix lim acc (s @ t) =
     Option.bind (parse_digits radix lim acc s) (\<lambda>a. parse_digits radix lim a t)"
  by (induction s arbitrary: acc) (auto split: option.splits)

lemma parse_digits_show_nat: "n \<le> lim \<Longrightarrow> parse_digits 10 lim 0 (show_nat n) = Some n"
proof (induction n rule: show_nat.induct)
  case (1 n)
  show ?case
  proof (cases "n < 10")
    case True
    with "1.prems" show ?thesis by (simp add: show_nat.simps)
  next
    case False
    have "n div 10 \<le> lim" using "1.prems" by (meson div_le_dividend le_trans)
    with "1.IH" False have "parse_digits 10 lim 0 (show_nat (n div 10)) = Some (n div 10)" by simp
    with False "1.prems" show ?thesis
      by (subst show_nat.simps) (simp add: parse_digits_append)
  qed
qed

lemma show_nat_digits: "c \<in> set (show_nat n) \<Longrightarrow> \<exists>d < 10. c = digit_char d"
proof (induction n rule: show_nat.induct)
  case (1 n)
  show ?case
  proof (cases "n < 10")
    case True
    with "1.prems" show ?thesis by (auto simp: show_nat.simps)
  next
    case False
    have "n mod 10 < 10" by simp
    moreover from "1.prems" False have "c \<in> set (show_nat (n div 10)) \<or> c = digit_char (n mod 10)"
      by (subst (asm) show_nat.simps) auto
    ultimately show ?thesis using "1.IH" [OF False] by blast
  qed
qed

lemma show_nat_not_Nil [simp]: "show_nat n \<noteq> []"
  by (subst show_nat.simps) simp

lemma digit_char_ascii: "d < 10 \<Longrightarrow> of_char (digit_char d) = 48 + d"
  by (simp add: digit_char_def)

lemma digit_char_neq:
  "d < 10 \<Longrightarrow> (of_char c :: nat) < 48 \<or> 57 < (of_char c :: nat) \<Longrightarrow> digit_char d \<noteq> c"
  using digit_char_ascii [of d] by auto

lemma show_nat_no_char:
  "(of_char c :: nat) < 48 \<or> 57 < (of_char c :: nat) \<Longrightarrow> c \<notin> set (show_nat n)"
  using show_nat_digits digit_char_neq by blast

lemma show_nat_ascii: "is_ascii (show_nat n)"
  unfolding is_ascii_def list_all_iff
proof
  fix c assume "c \<in> set (show_nat n)"
  then obtain d where "d < 10" "c = digit_char d" using show_nat_digits by blast
  then show "(of_char c :: nat) < 128" using digit_char_ascii [of d] by simp
qed

lemma parse_uint_show_nat [simp]: "n \<le> lim \<Longrightarrow> parse_uint 10 lim (show_nat n) = Some n"
proof -
  assume n: "n \<le> lim"
  have "CHR ''+'' \<notin> set (show_nat n)" by (rule show_nat_no_char) simp
  then have "(case show_nat n of [] \<Rightarrow> [] | c # cs \<Rightarrow> if c = CHR ''+'' then cs else show_nat n) = show_nat n"
    by (cases "show_nat n") auto
  then show ?thesis using n by (simp add: parse_uint_def parse_digits_show_nat)
qed

end
