(* ===== verification/Srs_Reader.thy ===== *)
theory Srs_Reader
  imports Rust_Str
begin

text \<open>
  The reader under the binary rule-set decoder (\<open>BinaryReader\<close> of \<open>srs.rs\<close>): bytes,
  booleans, big-endian integers, variable-length integers, and the counted collections.
  The cursor is the list of the bytes still unread.
\<close>

unbundle bit_operations_syntax

section \<open>Limits and errors\<close>

definition MAX_COLLECTION_SIZE :: nat where "MAX_COLLECTION_SIZE = 4000000"
definition MAX_RECURSION :: nat where "MAX_RECURSION = 64"
definition MAX_DECOMPRESSED_SIZE :: nat where "MAX_DECOMPRESSED_SIZE = 128 * 1024 * 1024"
definition MAX_DOMAIN_KEY :: nat where "MAX_DOMAIN_KEY = 4096"

datatype srs_error =
    TruncatedHeader | InvalidMagic | UnsupportedVersion u8
  | DecompressFailed | DecompressedTooLarge | TrailingData
  | UnexpectedEnd | InvalidBoolean u8 | VarintOverflow | CollectionTooLarge string
  | InvalidUtf8
  | NestingTooDeep | UnknownRuleType u8 | UnknownItem u8 | UnsupportedItem string
  | UnknownBinaryMode u8
  | UnsupportedMatcherVersion u8 | InvalidLeaves | InvalidBitmap | InvalidLabels
  | InvalidTree | InvalidChild | KeyTooLong | InvalidKeyUtf8
  | UnsupportedIpSetVersion u8 | IpSetTooLarge | InvalidIpv4Range | InvalidIpv6Range
  | InvalidAddressLength
  | AtRule nat srs_error

type_synonym 'a reader = "bytes \<Rightarrow> srs_error + ('a \<times> bytes)"

section \<open>Primitives\<close>

definition srs_u8 :: "u8 reader" where
  "srs_u8 bs = read_u8 UnexpectedEnd bs"

definition read_bool :: "bool reader" where
  "read_bool bs =
     and_then (srs_u8 bs) (\<lambda>(b, rest).
       if b = 0 then Inr (False, rest) else if b = 1 then Inr (True, rest) else Inl (InvalidBoolean b))"

definition read_be_u16 :: "u16 reader" where
  "read_be_u16 bs = read_be UnexpectedEnd bs"

definition read_be_u64 :: "u64 reader" where
  "read_be_u64 bs = read_be UnexpectedEnd bs"

text \<open>\<open>for shift in (0..70).step_by(7)\<close>: at most ten bytes.\<close>

fun uvarint_loop :: "nat list \<Rightarrow> u64 \<Rightarrow> u64 reader" where
  "uvarint_loop [] v bs = Inl VarintOverflow"
| "uvarint_loop (shift # shifts) v bs =
     and_then (srs_u8 bs) (\<lambda>(b, rest).
       if shift = 63 \<and> b > 1 then Inl VarintOverflow
       else let v = v OR push_bit shift (ucast (b AND 0x7F)) in
         if b < 0x80 then Inr (v, rest) else uvarint_loop shifts v rest)"

definition read_uvarint :: "u64 reader" where
  "read_uvarint bs = uvarint_loop (map (\<lambda>k. 7 * k) [0..<10]) 0 bs"

definition read_count :: "string \<Rightarrow> nat reader" where
  "read_count name bs =
     and_then (read_uvarint bs) (\<lambda>(count, rest).
       if unat count \<le> MAX_COLLECTION_SIZE then Inr (unat count, rest)
       else Inl (CollectionTooLarge name))"

text \<open>The limit as a comparison of words, which is how the evaluator computes it.\<close>

lemma within_limit: "unat (count :: u64) \<le> MAX_COLLECTION_SIZE \<longleftrightarrow> count \<le> 4000000"
  by (simp add: MAX_COLLECTION_SIZE_def word_le_nat_alt)

lemma read_count_code [code]:
  "read_count name bs =
     and_then (read_uvarint bs) (\<lambda>(count, rest).
       if count \<le> 4000000 then Inr (unat count, rest) else Inl (CollectionTooLarge name))"
  by (simp add: read_count_def within_limit)

definition read_bytes :: "bytes reader" where
  "read_bytes bs =
     and_then (read_count ''byte string'' bs) (\<lambda>(n, rest). read_exact UnexpectedEnd n rest)"

definition read_string :: "string reader" where
  "read_string bs =
     and_then (read_bytes bs) (\<lambda>(b, rest).
       and_then (from_utf8 InvalidUtf8 b) (\<lambda>s. Inr (s, rest)))"

definition read_strings :: "(string list) reader" where
  "read_strings bs = and_then (read_count ''string list'' bs) (\<lambda>(n, rest). read_many read_string n rest)"

definition read_u8s :: "(u8 list) reader" where
  "read_u8s bs = and_then (read_count ''byte list'' bs) (\<lambda>(n, rest). read_exact UnexpectedEnd n rest)"

definition read_u16s :: "(u16 list) reader" where
  "read_u16s bs = and_then (read_count ''uint16 list'' bs) (\<lambda>(n, rest). read_many read_be_u16 n rest)"

definition read_u64s :: "(u64 list) reader" where
  "read_u64s bs = and_then (read_count ''uint64 list'' bs) (\<lambda>(n, rest). read_many read_be_u64 n rest)"

section \<open>Readers consume\<close>

text \<open>A reader that succeeds has used up at least one byte of its input.\<close>

definition consumes :: "'a reader \<Rightarrow> bool" where
  "consumes p \<longleftrightarrow> (\<forall>bs x rest. p bs = Inr (x, rest) \<longrightarrow> length rest < length bs)"

lemma consumesD: "consumes p \<Longrightarrow> p bs = Inr (x, rest) \<Longrightarrow> length rest < length bs"
  by (auto simp: consumes_def)

lemma srs_u8_iff [simp]: "srs_u8 bs = Inr (b, rest) \<longleftrightarrow> bs = b # rest"
  by (simp add: srs_u8_def read_u8_Inr_iff)

lemma srs_u8_Cons [simp]: "srs_u8 (b # rest) = Inr (b, rest)"
  by simp

lemma uvarint_loop_consumes: "uvarint_loop ss v bs = Inr (x, rest) \<Longrightarrow> length rest < length bs"
  by (induction ss v bs rule: uvarint_loop.induct)
    (fastforce split: if_splits simp: Let_def)+

lemma read_exact_rest: "read_exact e n bs = Inr (x, rest) \<Longrightarrow> length rest \<le> length bs"
  by (auto simp: read_exact_Inr_iff)

lemma read_many_rest:
  assumes "\<And>bs x rest. p bs = Inr (x, rest) \<Longrightarrow> length rest \<le> length bs"
  shows "read_many p n bs = Inr (xs, rest) \<Longrightarrow> length rest \<le> length bs"
proof (induction n arbitrary: bs xs)
  case (Suc n)
  then show ?case by (auto dest!: assms) (metis le_trans)
qed simp

lemma read_be_rest: "read_be e bs = Inr (x, rest) \<Longrightarrow> length rest \<le> length bs"
  by (auto simp: read_be_def read_exact_Inr_iff)

lemma read_uvarint_consumes: "consumes read_uvarint"
  by (auto simp: consumes_def read_uvarint_def dest: uvarint_loop_consumes)

lemma read_count_consumes: "consumes (read_count name)"
  using read_uvarint_consumes
  by (fastforce simp: consumes_def read_count_def split: if_splits)

lemma counted_consumes:
  assumes "\<And>n bs x rest. q n bs = Inr (x, rest) \<Longrightarrow> length rest \<le> length bs"
  shows "consumes (\<lambda>bs. and_then (read_count name bs) (\<lambda>(n, rest). q n rest))"
  unfolding consumes_def
  by (auto dest!: assms consumesD [OF read_count_consumes])

lemma read_bytes_consumes: "consumes read_bytes"
  unfolding read_bytes_def [abs_def] by (rule counted_consumes) (rule read_exact_rest)

lemma read_string_consumes: "consumes read_string"
  by (auto simp: consumes_def read_string_def dest: consumesD [OF read_bytes_consumes])

lemma read_strings_consumes: "consumes read_strings"
  unfolding read_strings_def [abs_def]
  by (rule counted_consumes, erule read_many_rest [rotated])
    (auto dest: consumesD [OF read_string_consumes])

lemma read_u8s_consumes: "consumes read_u8s"
  unfolding read_u8s_def [abs_def] by (rule counted_consumes) (rule read_exact_rest)

lemma read_u16s_consumes: "consumes read_u16s"
  unfolding read_u16s_def [abs_def] read_be_u16_def [abs_def]
  by (rule counted_consumes, erule read_many_rest [rotated], rule read_be_rest)

lemma read_u64s_consumes: "consumes read_u64s"
  unfolding read_u64s_def [abs_def] read_be_u64_def [abs_def]
  by (rule counted_consumes, erule read_many_rest [rotated], rule read_be_rest)

section \<open>The encoder of variable-length integers\<close>

text \<open>\<open>push_uvarint\<close>, the writer of the format that the tests of the decoder use.\<close>

function push_uvarint :: "u64 \<Rightarrow> bytes" where
  "push_uvarint v =
     (if v \<ge> 0x80 then (ucast v OR 0x80) # push_uvarint (drop_bit 7 v) else [ucast v])"
  by pat_completeness auto
termination
proof (relation "measure unat")
  fix v :: u64
  assume "0x80 \<le> v"
  then have "0 < unat v" by (simp add: word_le_nat_alt)
  moreover have "unat (drop_bit 7 v) = unat v div 2 ^ 7"
    by (simp only: unat_drop_bit_eq) (simp only: drop_bit_eq_div)
  ultimately show "(drop_bit 7 v, v) \<in> measure unat" by simp
qed simp

declare push_uvarint.simps [simp del]

lemma mask7: "(0x7F :: 'a::len word) = mask 7"
  by (simp add: mask_eq_exp_minus_1)

lemma bit_0x80: "bit (0x80 :: 'a::len word) n \<longleftrightarrow> n = 7 \<and> 7 < LENGTH('a)"
proof -
  have "(0x80 :: 'a word) = push_bit 7 1" by (simp add: push_bit_eq_mult)
  then show ?thesis by (simp only: bit_push_bit_iff bit_1_iff possible_bit_word) auto
qed

lemma take_bit_7_small:
  assumes "unat (v :: 'a::len word) < 2 ^ 7"
  shows "take_bit 7 v = v"
  using assms by (simp only: word_unat_eq_iff unsigned_take_bit_eq take_bit_nat_eq_self)

lemma ucast_low7: "ucast ((ucast (v :: u64) :: u8) AND 0x7F) = v AND 0x7F"
  unfolding mask7 by (rule bit_word_eqI) (auto simp: bit_simps)

lemma uvarint_low_bits: "ucast (((ucast (v :: u64) :: u8) OR 0x80) AND 0x7F) = v AND 0x7F"
proof -
  have "((ucast v :: u8) OR 0x80) AND 0x7F = ucast v AND 0x7F"
    unfolding mask7
    by (rule bit_word_eqI) (auto simp only: bit_or_iff bit_and_iff bit_mask_iff bit_0x80)
  then show ?thesis by (simp only: ucast_low7)
qed

lemma uvarint_join:
  fixes v :: u64
  shows "push_bit s (v AND 0x7F) OR push_bit (7 + s) (drop_bit 7 v) = push_bit s v"
  unfolding mask7
proof (rule bit_word_eqI)
  fix n
  have "7 + (n - (7 + s)) = n - s" if "7 + s \<le> n" using that by simp
  then show "bit (push_bit s (v AND mask 7) OR push_bit (7 + s) (drop_bit 7 v)) n
      = bit (push_bit s v) n" if "n < LENGTH(64)"
    using that by (cases "7 + s \<le> n") (auto simp: bit_simps)
qed

lemma uvarint_small:
  fixes v :: u64
  assumes "v < 0x80"
  shows "ucast ((ucast v :: u8) AND 0x7F) = v" and "(ucast v :: u8) < 0x80"
proof -
  from assms have v: "unat v < 128" by (simp add: word_less_nat_alt)
  have u: "unat (ucast v :: u8) = unat v" using v by (simp add: unsigned_ucast_eq take_bit_eq_mod)
  show "(ucast v :: u8) < 0x80" using u v by (simp add: word_less_nat_alt)
  have "take_bit 7 v = v" using v by (simp add: take_bit_7_small)
  then have "v AND 0x7F = v" by (simp add: mask7 take_bit_eq_mask)
  then show "ucast ((ucast v :: u8) AND 0x7F) = v" by (simp only: ucast_low7)
qed

lemma not_less_bit7:
  assumes "bit (b :: u8) 7"
  shows "\<not> b < 0x80"
proof
  assume "b < 0x80"
  then have "unat b < 2 ^ 7" by (simp add: word_less_nat_alt)
  then have "take_bit 7 b = b" by (rule take_bit_7_small)
  with assms show False by (metis bit_take_bit_iff less_irrefl)
qed

lemma uvarint_loop_push:
  assumes "unat v < 2 ^ (64 - 7 * k)" and "k < 10"
  shows "uvarint_loop (map (\<lambda>k. 7 * k) [k..<10]) acc (push_uvarint v @ rest)
    = Inr (acc OR push_bit (7 * k) v, rest)"
  using assms
proof (induction v arbitrary: k acc rule: push_uvarint.induct)
  case (1 v)
  from "1.prems"(2) have upt: "[k..<10] = k # [Suc k..<10]" by (simp add: upt_conv_Cons)
  have nine: "unat v < 2" if "k = 9" using that "1.prems"(1) by simp
  show ?case
  proof (cases "v \<ge> 0x80")
    case True
    let ?b = "(ucast v :: u8) OR 0x80"
    have "k \<noteq> 9" using nine True by (auto simp: word_le_nat_alt)
    with "1.prems"(2) have k: "Suc k < 10" by simp
    have high: "\<not> ?b < 0x80"
      by (rule not_less_bit7) (simp add: bit_simps bit_0x80)
    have "unat (drop_bit 7 v) = unat v div 2 ^ 7"
      by (simp only: unat_drop_bit_eq) (simp only: drop_bit_eq_div)
    moreover have "64 - 7 * k = (64 - 7 * Suc k) + 7" using k by simp
    then have "(2::nat) ^ (64 - 7 * k) = 2 ^ (64 - 7 * Suc k) * 2 ^ 7"
      by (simp only: power_add)
    ultimately have "unat (drop_bit 7 v) < 2 ^ (64 - 7 * Suc k)"
      using "1.prems"(1) by (simp add: div_less_iff_less_mult)
    from "1.IH" [OF True this k, of "acc OR push_bit (7 * k) (v AND 0x7F)"]
    show ?thesis
      using True \<open>k \<noteq> 9\<close> high uvarint_join [of "7 * k" v]
      by (subst push_uvarint.simps) (simp add: upt uvarint_low_bits Let_def or.assoc)
  next
    case False
    then have "v < 0x80" by simp
    have "\<not> (ucast v :: u8) > 1" if "k = 9"
      using nine [OF that] by (simp add: word_less_nat_alt unsigned_ucast_eq take_bit_eq_mod)
    with False uvarint_small [OF \<open>v < 0x80\<close>] show ?thesis
      by (subst push_uvarint.simps) (auto simp: upt Let_def)
  qed
qed

lemma read_uvarint_push: "read_uvarint (push_uvarint v @ rest) = Inr (v, rest)"
proof -
  have "unat v < 2 ^ (64 - 7 * 0)" using unsigned_less [of v] by simp
  moreover have "0 OR push_bit (7 * 0) v = v" by simp
  ultimately show ?thesis
    using uvarint_loop_push [of v 0 0 rest] unfolding read_uvarint_def by (metis zero_less_numeral)
qed

interpretation uvarint: exact_codec
  "\<lambda>v. Inr (push_uvarint v) :: unit + bytes" read_uvarint "\<lambda>v. v"
  by unfold_locales (auto simp: read_uvarint_push)

lemma push_uvarint_inject: "push_uvarint v = push_uvarint w \<Longrightarrow> v = w"
  by (rule uvarint.enc_injective [OF refl]) simp

section \<open>Properties\<close>

text \<open>The variable-length integers of the binary format are decoded exactly, for every 64-bit
  value and whatever bytes follow, and no value is the encoding of another.\<close>

theorem uvarint_roundtrip:
  "read_uvarint (push_uvarint v @ rest) = Inr (v, rest)
    \<and> (push_uvarint v = push_uvarint w \<longleftrightarrow> v = w)"
  using read_uvarint_push push_uvarint_inject by blast

end
