(* ===== verification/Net_Addr.thy ===== *)
theory Net_Addr
  imports Rust_Str
begin

text \<open>
  The address types of \<open>std::net\<close> that the program relies on: \<open>IpAddr\<close> and \<open>SocketAddr\<close>
  with their \<open>FromStr\<close> parsers, the \<open>Display\<close> output of addresses, octets, the
  IPv4-mapped test and the address classes. An address is its 32 or 128 bit value.
\<close>

section \<open>Types\<close>

datatype ip_addr = IpV4 u32 | IpV6 u128

datatype socket_addr =
    SockV4 u32 u16
  | SockV6 u128 u16 (sock_flowinfo: u32) (sock_scope: u32)

definition new_socket_addr :: "ip_addr \<Rightarrow> u16 \<Rightarrow> socket_addr" where
  "new_socket_addr ip port = (case ip of IpV4 a \<Rightarrow> SockV4 a port | IpV6 a \<Rightarrow> SockV6 a port 0 0)"

fun sock_ip :: "socket_addr \<Rightarrow> ip_addr" where
  "sock_ip (SockV4 a _) = IpV4 a"
| "sock_ip (SockV6 a _ _ _) = IpV6 a"

fun sock_port :: "socket_addr \<Rightarrow> u16" where
  "sock_port (SockV4 _ p) = p"
| "sock_port (SockV6 _ p _ _) = p"

fun set_port :: "u16 \<Rightarrow> socket_addr \<Rightarrow> socket_addr" where
  "set_port q (SockV4 a _) = SockV4 a q"
| "set_port q (SockV6 a _ f s) = SockV6 a q f s"

fun is_ipv4 :: "ip_addr \<Rightarrow> bool" where
  "is_ipv4 (IpV4 _) = True"
| "is_ipv4 (IpV6 _) = False"

lemma sock_new [simp]:
  "sock_ip (new_socket_addr ip p) = ip"
  "sock_port (new_socket_addr ip p) = p"
  by (cases ip; simp add: new_socket_addr_def)+

lemma sock_set_port [simp]:
  "sock_ip (set_port q a) = sock_ip a"
  "sock_port (set_port q a) = q"
  by (cases a; simp)+

text \<open>\<open>Ipv6Addr::to_ipv4_mapped\<close>: the address is \<open>::ffff:a.b.c.d\<close>.\<close>

definition to_ipv4_mapped :: "u128 \<Rightarrow> u32 option" where
  "to_ipv4_mapped a = (if drop_bit 32 a = 0xFFFF then Some (ucast a) else None)"

text \<open>\<open>ip.is_loopback()\<close> and the unspecified addresses of either family.\<close>

definition v4_unspecified :: u32 where "v4_unspecified = 0"
definition v4_localhost :: u32 where "v4_localhost = 0x7F000001"
definition v4_broadcast :: u32 where "v4_broadcast = 0xFFFFFFFF"
definition v6_unspecified :: u128 where "v6_unspecified = 0"
definition v6_localhost :: u128 where "v6_localhost = 1"

fun is_loopback :: "ip_addr \<Rightarrow> bool" where
  "is_loopback (IpV4 a) = (drop_bit 24 a = 127)"
| "is_loopback (IpV6 a) = (a = 1)"

definition v4_is_private :: "u32 \<Rightarrow> bool" where
  "v4_is_private a \<longleftrightarrow>
     drop_bit 24 a = 10 \<or> drop_bit 20 a = 0xAC1 \<or> drop_bit 16 a = 0xC0A8"

definition v4_is_link_local :: "u32 \<Rightarrow> bool" where
  "v4_is_link_local a \<longleftrightarrow> drop_bit 16 a = 0xA9FE"

section \<open>Display\<close>

definition octet :: "nat \<Rightarrow> u32 \<Rightarrow> nat" where
  "octet k a = unat a div 256 ^ (3 - k) mod 256"

definition show_ipv4 :: "u32 \<Rightarrow> string" where
  "show_ipv4 a =
     show_nat (octet 0 a) @ ''.'' @ show_nat (octet 1 a) @ ''.'' @
     show_nat (octet 2 a) @ ''.'' @ show_nat (octet 3 a)"

definition segments :: "u128 \<Rightarrow> nat list" where
  "segments a = map (\<lambda>k. unat a div 65536 ^ (7 - k) mod 65536) [0..<8]"

fun show_hex :: "nat \<Rightarrow> string" where
  "show_hex n = (if n < 16 then [digit_char n] else show_hex (n div 16) @ [digit_char (n mod 16)])"

declare show_hex.simps [simp del]

fun join_sep :: "string \<Rightarrow> string list \<Rightarrow> string" where
  "join_sep sep [] = []"
| "join_sep sep [x] = x"
| "join_sep sep (x # y # zs) = x @ sep @ join_sep sep (y # zs)"

text \<open>The first longest run of zero segments, as a pair of start and length.\<close>

fun zero_span :: "nat \<Rightarrow> nat list \<Rightarrow> nat \<times> nat \<Rightarrow> nat \<times> nat \<Rightarrow> nat \<times> nat" where
  "zero_span i [] longest current = longest"
| "zero_span i (g # gs) longest current =
     (if g = 0 then
        let start = (if snd current = 0 then i else fst current);
            current' = (start, snd current + 1);
            longest' = (if snd longest < snd current' then current' else longest)
        in zero_span (Suc i) gs longest' current'
      else zero_span (Suc i) gs longest (0, 0))"

definition show_ipv6 :: "u128 \<Rightarrow> string" where
  "show_ipv6 a =
     (case to_ipv4_mapped a of
        Some v4 \<Rightarrow> ''::ffff:'' @ show_ipv4 v4
      | None \<Rightarrow>
          let gs = segments a; (start, len) = zero_span 0 gs (0, 0) (0, 0); hex = map show_hex in
          if 1 < len
          then join_sep '':'' (hex (take start gs)) @ ''::'' @ join_sep '':'' (hex (drop (start + len) gs))
          else join_sep '':'' (hex gs))"

fun show_ip :: "ip_addr \<Rightarrow> string" where
  "show_ip (IpV4 a) = show_ipv4 a"
| "show_ip (IpV6 a) = show_ipv6 a"

section \<open>Parsers\<close>

definition read_char :: "char \<Rightarrow> string \<Rightarrow> string option" where
  "read_char c s = (case s of [] \<Rightarrow> None | x # xs \<Rightarrow> if x = c then Some xs else None)"

text \<open>
  \<open>Parser::read_number\<close>: the radix, the largest number of digits, whether leading zeros are
  accepted, and the largest value of the type read.
\<close>

definition read_number :: "nat \<Rightarrow> nat option \<Rightarrow> bool \<Rightarrow> nat \<Rightarrow> string \<Rightarrow> (nat \<times> string) option" where
  "read_number radix max_digits zero_prefix lim s =
     (let ds = takeWhile (\<lambda>c. to_digit radix c \<noteq> None) s in
      if ds = [] \<or> (case max_digits of None \<Rightarrow> False | Some m \<Rightarrow> m < length ds)
         \<or> \<not> zero_prefix \<and> hd ds = CHR ''0'' \<and> 1 < length ds
      then None
      else map_option (\<lambda>n. (n, drop (length ds) s)) (parse_digits radix lim 0 ds))"

text \<open>\<open>read_separator\<close>: every item but the first is preceded by the separator.\<close>

definition read_sep :: "char \<Rightarrow> nat \<Rightarrow> (string \<Rightarrow> ('a \<times> string) option) \<Rightarrow> string \<Rightarrow> ('a \<times> string) option" where
  "read_sep c i p s =
     (if i = 0 then p s else case read_char c s of None \<Rightarrow> None | Some s' \<Rightarrow> p s')"

fun read_octets :: "nat \<Rightarrow> nat \<Rightarrow> string \<Rightarrow> (nat list \<times> string) option" where
  "read_octets i 0 s = Some ([], s)"
| "read_octets i (Suc n) s =
     (case read_sep (CHR ''.'') i (read_number 10 (Some 3) False 255) s of
        None \<Rightarrow> None
      | Some (v, s') \<Rightarrow> map_option (\<lambda>(vs, r). (v # vs, r)) (read_octets (Suc i) n s'))"

definition octets_value :: "nat \<Rightarrow> nat list \<Rightarrow> nat" where
  "octets_value base vs = foldl (\<lambda>a v. a * base + v) 0 vs"

definition read_ipv4 :: "string \<Rightarrow> (u32 \<times> string) option" where
  "read_ipv4 s = map_option (\<lambda>(vs, r). (of_nat (octets_value 256 vs), r)) (read_octets 0 4 s)"

text \<open>
  \<open>read_groups\<close>: the groups read, whether a dotted IPv4 tail ended them, and the rest. The
  first argument counts the groups still wanted.
\<close>

fun read_groups :: "nat \<Rightarrow> nat \<Rightarrow> string \<Rightarrow> nat list \<times> bool \<times> string" where
  "read_groups 0 i s = ([], False, s)"
| "read_groups (Suc n) i s =
     (case (if 0 < n then read_sep (CHR '':'') i read_ipv4 s else None) of
        Some (a, r) \<Rightarrow> ([unat a div 65536, unat a mod 65536], True, r)
      | None \<Rightarrow>
          (case read_sep (CHR '':'') i (read_number 16 (Some 4) True 65535) s of
             Some (g, r) \<Rightarrow> (let (gs, v4, r') = read_groups n (Suc i) r in (g # gs, v4, r'))
           | None \<Rightarrow> ([], False, s)))"

definition read_ipv6 :: "string \<Rightarrow> (u128 \<times> string) option" where
  "read_ipv6 s =
     (case read_groups 8 0 s of
        (hd_gs, hd_v4, r) \<Rightarrow>
          if length hd_gs = 8 then Some (of_nat (octets_value 65536 hd_gs), r)
          else if hd_v4 then None
          else case Option.bind (read_char (CHR '':'') r) (read_char (CHR '':'')) of
            None \<Rightarrow> None
          | Some r1 \<Rightarrow>
              (case read_groups (8 - (length hd_gs + 1)) 0 r1 of
                 (tl_gs, _, r2) \<Rightarrow>
                   Some (of_nat (octets_value 65536
                     (hd_gs @ replicate (8 - length hd_gs - length tl_gs) 0 @ tl_gs)), r2)))"

text \<open>\<open>str::parse::<IpAddr>()\<close>: the whole string has to be consumed.\<close>

definition parse_ip :: "string \<Rightarrow> ip_addr option" where
  "parse_ip s =
     (case read_ipv4 s of
        Some (a, r) \<Rightarrow> if r = [] then Some (IpV4 a) else None
      | None \<Rightarrow>
          (case read_ipv6 s of
             Some (a, r) \<Rightarrow> if r = [] then Some (IpV6 a) else None
           | None \<Rightarrow> None))"

definition read_port :: "string \<Rightarrow> (u16 \<times> string) option" where
  "read_port s =
     Option.bind (read_char (CHR '':'') s)
       (\<lambda>r. map_option (\<lambda>(n, r'). (of_nat n, r')) (read_number 10 None True 65535 r))"

definition read_scope :: "string \<Rightarrow> u32 \<times> string" where
  "read_scope s =
     (case read_char (CHR ''%'') s of
        None \<Rightarrow> (0, s)
      | Some r \<Rightarrow> (case read_number 10 None True 4294967295 r of
           None \<Rightarrow> (0, s) | Some (n, r') \<Rightarrow> (of_nat n, r')))"

definition read_sock_v4 :: "string \<Rightarrow> (socket_addr \<times> string) option" where
  "read_sock_v4 s =
     Option.bind (read_ipv4 s) (\<lambda>(a, r). map_option (\<lambda>(p, r'). (SockV4 a p, r')) (read_port r))"

definition read_sock_v6 :: "string \<Rightarrow> (socket_addr \<times> string) option" where
  "read_sock_v6 s =
     Option.bind (read_char (CHR ''['') s) (\<lambda>r0.
     Option.bind (read_ipv6 r0) (\<lambda>(a, r1).
     case read_scope r1 of (scope, r2) \<Rightarrow>
     Option.bind (read_char (CHR '']'') r2) (\<lambda>r3.
     map_option (\<lambda>(p, r4). (SockV6 a p 0 scope, r4)) (read_port r3))))"

definition parse_socket_addr :: "string \<Rightarrow> socket_addr option" where
  "parse_socket_addr s =
     (case (case read_sock_v4 s of Some x \<Rightarrow> Some x | None \<Rightarrow> read_sock_v6 s) of
        Some (a, r) \<Rightarrow> if r = [] then Some a else None
      | None \<Rightarrow> None)"

end
