(* ===== verification/Net_Roundtrip.thy ===== *)
theory Net_Roundtrip
  imports Net_Addr
begin

text \<open>
  The address printers and parsers of \<open>Net_Addr\<close> are inverse: the text of an address
  parses back to it. The program writes addresses into strings (the CIDR list of a binary
  rule-set, the host of a decoded SOCKS address) and parses them again later.
\<close>

section \<open>Numbers in front of a delimiter\<close>

definition stops_at :: "(char \<Rightarrow> bool) \<Rightarrow> string \<Rightarrow> bool" where
  "stops_at p s \<longleftrightarrow> (case s of [] \<Rightarrow> True | c # _ \<Rightarrow> \<not> p c)"

lemma stops_at_simps [simp]: "stops_at p []" "stops_at p (c # s) \<longleftrightarrow> \<not> p c"
  by (simp_all add: stops_at_def)

lemma takeWhile_stops_at:
  "list_all p xs \<Longrightarrow> stops_at p rest \<Longrightarrow> takeWhile p (xs @ rest) = xs"
  by (cases rest) (simp_all add: list_all_iff takeWhile_tail)

lemma read_number_append:
  assumes "list_all (\<lambda>c. to_digit radix c \<noteq> None) ds" and "ds \<noteq> []"
    and "stops_at (\<lambda>c. to_digit radix c \<noteq> None) rest"
    and "\<And>m. max_digits = Some m \<Longrightarrow> length ds \<le> m"
    and "zero_prefix \<or> hd ds \<noteq> CHR ''0'' \<or> length ds = 1"
    and "parse_digits radix lim 0 ds = Some n"
  shows "read_number radix max_digits zero_prefix lim (ds @ rest) = Some (n, rest)"
proof -
  have "takeWhile (\<lambda>c. to_digit radix c \<noteq> None) (ds @ rest) = ds"
    by (rule takeWhile_stops_at [OF assms(1,3)])
  moreover have "\<not> (case max_digits of None \<Rightarrow> False | Some m \<Rightarrow> m < length ds)"
    using assms(4) by (cases max_digits) fastforce+
  moreover have "\<not> (\<not> zero_prefix \<and> hd ds = CHR ''0'' \<and> 1 < length ds)"
    using assms(5) by auto
  ultimately show ?thesis
    using assms(2,6) by (simp add: read_number_def Let_def)
qed

lemma read_number_None: "stops_at (\<lambda>c. to_digit radix c \<noteq> None) s \<Longrightarrow> read_number radix m z lim s = None"
  by (cases s) (simp_all add: read_number_def)

lemma read_number_rest_suffix:
  "read_number radix m z lim s = Some (n, r) \<Longrightarrow> set r \<subseteq> set s"
  by (auto simp: read_number_def Let_def split: if_splits dest: in_set_dropD)

section \<open>Decimal octets\<close>

lemma hd_show_nat: "0 < n \<Longrightarrow> hd (show_nat n) \<noteq> CHR ''0''"
proof (induction n rule: show_nat.induct)
  case (1 n)
  show ?case
  proof (cases "n < 10")
    case True
    then have "(of_char (digit_char n) :: nat) = 48 + n" by (rule digit_char_ascii)
    then have "digit_char n \<noteq> CHR ''0''" using \<open>0 < n\<close> by auto
    with True show ?thesis by (simp add: show_nat.simps)
  next
    case False
    with "1.IH" have "hd (show_nat (n div 10)) \<noteq> CHR ''0''" by simp
    with False show ?thesis by (subst show_nat.simps) simp
  qed
qed

lemma show_nat_0: "show_nat 0 = [CHR ''0'']"
  by (simp add: show_nat.simps digit_char_0)

lemma length_show_nat: "n < 1000 \<Longrightarrow> length (show_nat n) \<le> 3"
  by (simp add: show_nat.simps)

lemma list_all_show_nat: "list_all (\<lambda>c. to_digit 10 c \<noteq> None) (show_nat n)"
  unfolding list_all_iff using show_nat_digits by fastforce

lemma read_octet:
  assumes "n \<le> 255" and "stops_at (\<lambda>c. to_digit 10 c \<noteq> None) rest"
  shows "read_number 10 (Some 3) False 255 (show_nat n @ rest) = Some (n, rest)"
proof (rule read_number_append)
  show "False \<or> hd (show_nat n) \<noteq> CHR ''0'' \<or> length (show_nat n) = 1"
    using hd_show_nat by (cases "n = 0") (auto simp: show_nat_0)
qed (use assms list_all_show_nat length_show_nat [of n] parse_digits_show_nat in auto)

lemma octet_le [simp]: "octet k a \<le> 255"
proof -
  have "octet k a < 256" by (simp add: octet_def)
  then show ?thesis by simp
qed

lemma div_mod_step: "(n::nat) div d div b * b + n div d mod b = n div d"
  by simp

lemma octets_value_octets: "octets_value 256 [octet 0 a, octet 1 a, octet 2 a, octet 3 a] = unat a"
proof -
  let ?v = "unat a"
  have "?v < 4294967296" using unsigned_less [of a] by simp
  then have v0: "?v div 16777216 mod 256 = ?v div 16777216" by simp
  have s1: "?v div 16777216 * 256 + ?v div 65536 mod 256 = ?v div 65536"
    using div_mod_step [of ?v 65536 256] by (simp flip: div_mult2_eq)
  have s2: "?v div 65536 * 256 + ?v div 256 mod 256 = ?v div 256"
    using div_mod_step [of ?v 256 256] by (simp flip: div_mult2_eq)
  have s3: "?v div 256 * 256 + ?v mod 256 = ?v" by simp
  show ?thesis by (simp add: octets_value_def octet_def v0 s1 s2 s3)
qed

lemma dot_no_digit [simp]: "to_digit 10 (CHR ''.'') = None"
  by (simp add: to_digit_def)

lemma read_char_Cons [simp]: "read_char c (x # xs) = (if x = c then Some xs else None)"
  by (simp add: read_char_def)

lemma read_char_Nil [simp]: "read_char c [] = None"
  by (simp add: read_char_def)

lemma read_ipv4_show_ipv4:
  assumes "stops_at (\<lambda>c. to_digit 10 c \<noteq> None) rest"
  shows "read_ipv4 (show_ipv4 a @ rest) = Some (a, rest)"
proof -
  have num: "read_number 10 (Some 3) False 255 (show_nat (octet k a) @ r) = Some (octet k a, r)"
    if "stops_at (\<lambda>c. to_digit 10 c \<noteq> None) r" for k r
    by (rule read_octet [OF octet_le that])
  have four: "(4::nat) = Suc (Suc (Suc (Suc 0)))" by simp
  have "read_octets 0 4 (show_ipv4 a @ rest) = Some ([octet 0 a, octet 1 a, octet 2 a, octet 3 a], rest)"
    unfolding four using assms by (simp add: read_sep_def show_ipv4_def num)
  then show ?thesis by (simp add: read_ipv4_def octets_value_octets [unfolded One_nat_def])
qed

theorem parse_show_ipv4 [simp]: "parse_ip (show_ipv4 a) = Some (IpV4 a)"
  using read_ipv4_show_ipv4 [of "[]" a] by (simp add: parse_ip_def)

lemma show_ipv4_ascii: "is_ascii (show_ipv4 a)"
  by (simp add: show_ipv4_def show_nat_ascii)

lemma show_ipv4_no_slash: "CHR ''/'' \<notin> set (show_ipv4 a)"
  by (simp add: show_ipv4_def show_nat_no_char)

section \<open>Hexadecimal groups\<close>

lemma show_hex_digits: "list_all (\<lambda>c. \<exists>d < 16. c = digit_char d) (show_hex n)"
proof (induction n rule: show_hex.induct)
  case (1 n)
  have "n mod 16 < 16" by simp
  then show ?case using 1 by (subst show_hex.simps) (auto intro: exI [of _ "n mod 16"])
qed

lemma show_hex_not_Nil [simp]: "show_hex n \<noteq> []"
  by (subst show_hex.simps) simp

lemma list_all_show_hex: "list_all (\<lambda>c. to_digit 16 c \<noteq> None) (show_hex n)"
  using show_hex_digits [of n] by (rule list.pred_mono_strong) auto

lemma parse_digits_show_hex: "n \<le> lim \<Longrightarrow> parse_digits 16 lim 0 (show_hex n) = Some n"
proof (induction n rule: show_hex.induct)
  case (1 n)
  show ?case
  proof (cases "n < 16")
    case True
    with "1.prems" show ?thesis by (simp add: show_hex.simps)
  next
    case False
    have "n div 16 \<le> lim" using "1.prems" by (meson div_le_dividend le_trans)
    with "1.IH" False have "parse_digits 16 lim 0 (show_hex (n div 16)) = Some (n div 16)" by simp
    with False "1.prems" show ?thesis
      by (subst show_hex.simps) (simp add: parse_digits_append)
  qed
qed

lemma length_show_hex: "n < 65536 \<Longrightarrow> length (show_hex n) \<le> 4"
  by (simp add: show_hex.simps)

lemma digit_char_cases:
  "d < 16 \<Longrightarrow> (of_char (digit_char d) :: nat) = (if d < 10 then 48 + d else 87 + d)"
  by (simp add: digit_char_def)

lemma show_hex_no_char:
  assumes "(of_char c :: nat) < 48 \<or> 57 < (of_char c :: nat) \<and> (of_char c :: nat) < 97"
  shows "c \<notin> set (show_hex n)"
proof
  assume "c \<in> set (show_hex n)"
  then obtain d where "d < 16" "c = digit_char d"
    using show_hex_digits [of n] by (auto simp: list_all_iff)
  with assms digit_char_cases [of d] show False by (auto split: if_splits)
qed

lemma show_hex_ascii: "is_ascii (show_hex n)"
  unfolding is_ascii_def list_all_iff
proof
  fix c assume "c \<in> set (show_hex n)"
  then obtain d where "d < 16" "c = digit_char d"
    using show_hex_digits [of n] by (auto simp: list_all_iff)
  then show "(of_char c :: nat) < 128" using digit_char_cases [of d] by simp
qed

lemma read_group:
  assumes "n < 65536" and "stops_at (\<lambda>c. to_digit 16 c \<noteq> None) rest"
  shows "read_number 16 (Some 4) True 65535 (show_hex n @ rest) = Some (n, rest)"
  by (rule read_number_append)
    (use assms list_all_show_hex length_show_hex [of n] parse_digits_show_hex in auto)

text \<open>Groups joined by colons; the first argument tells whether a group precedes them.\<close>

fun groups_text :: "nat \<Rightarrow> nat list \<Rightarrow> string" where
  "groups_text i [] = []"
| "groups_text i (g # gs) = (if i = 0 then [] else '':'') @ show_hex g @ groups_text (Suc i) gs"

lemma groups_text_Suc:
  "groups_text (Suc i) gs = (if gs = [] then [] else '':'' @ join_sep '':'' (map show_hex gs))"
proof (induction gs arbitrary: i)
  case (Cons g gs)
  then show ?case by (cases gs) auto
qed simp

lemma join_sep_Cons: "join_sep sep (x # xs) = x @ (if xs = [] then [] else sep @ join_sep sep xs)"
  by (cases xs) simp_all

lemma join_groups: "join_sep '':'' (map show_hex gs) = groups_text 0 gs"
  by (cases gs) (auto simp: groups_text_Suc join_sep_Cons)

lemma groups_text_no_char:
  "(of_char c :: nat) < 48 \<or> 58 < (of_char c :: nat) \<and> (of_char c :: nat) < 97 \<Longrightarrow>
   c \<notin> set (groups_text i gs)"
proof (induction gs arbitrary: i)
  case (Cons g gs)
  moreover have "c \<notin> set (show_hex g)" using Cons.prems by (intro show_hex_no_char) auto
  ultimately show ?case by auto
qed simp

lemma groups_text_ascii: "is_ascii (groups_text i gs)"
  by (induction gs arbitrary: i) (simp_all add: show_hex_ascii)

lemma read_octets_dot:
  "read_octets i (Suc n) s = Some (vs, r) \<Longrightarrow> 0 < i \<or> 0 < n \<Longrightarrow> CHR ''.'' \<in> set s"
proof (cases "i = 0")
  case True
  assume r: "read_octets i (Suc n) s = Some (vs, r)" and "0 < i \<or> 0 < n"
  with True obtain m where n: "n = Suc m" by (cases n) auto
  from r True obtain v s' vs' where s': "read_number 10 (Some 3) False 255 s = Some (v, s')"
      and rest: "read_octets 1 (Suc m) s' = Some (vs', r)"
    by (auto simp: n read_sep_def split: option.splits)
  from rest have "CHR ''.'' \<in> set s'"
    by (auto simp: read_sep_def read_char_def split: option.splits list.splits if_splits)
  with read_number_rest_suffix [OF s'] show ?thesis by auto
qed (auto simp: read_sep_def read_char_def split: option.splits list.splits if_splits)

lemma read_ipv4_no_dot: "CHR ''.'' \<notin> set s \<Longrightarrow> read_ipv4 s = None"
proof -
  assume nd: "CHR ''.'' \<notin> set s"
  have "read_octets 0 4 s = None"
  proof (rule ccontr)
    assume "read_octets 0 4 s \<noteq> None"
    then obtain vs r where "read_octets 0 (Suc 3) s = Some (vs, r)" by (auto simp: numeral_eq_Suc)
    from read_octets_dot [OF this] nd show False by simp
  qed
  then show ?thesis by (simp add: read_ipv4_def)
qed

lemma read_sep_ipv4_no_dot: "CHR ''.'' \<notin> set s \<Longrightarrow> read_sep (CHR '':'') i read_ipv4 s = None"
  by (cases s) (auto simp: read_sep_def read_ipv4_no_dot)

lemma colon_no_digit [simp]: "to_digit 16 (CHR '':'') = None"
  by (simp add: to_digit_def)

definition groups_end :: "string \<Rightarrow> bool" where
  "groups_end rest \<longleftrightarrow> CHR ''.'' \<notin> set rest \<and> (rest = [] \<or> (\<exists>r. rest = '':'' @ '':'' @ r))"

lemma read_groups_text:
  "list_all (\<lambda>g. g < 65536) gs \<Longrightarrow> length gs \<le> n \<Longrightarrow> groups_end rest \<Longrightarrow>
   read_groups n i (groups_text i gs @ rest) = (gs, False, rest)"
proof (induction gs arbitrary: n i)
  case Nil
  then have "read_sep (CHR '':'') i read_ipv4 rest = None"
    by (intro read_sep_ipv4_no_dot) (simp add: groups_end_def)
  moreover have "read_sep (CHR '':'') i (read_number 16 (Some 4) True 65535) rest = None"
    using Nil(3) by (auto simp: groups_end_def read_sep_def read_number_None)
  ultimately show ?case by (cases n) simp_all
next
  case (Cons g gs)
  then obtain m where n: "n = Suc m" by (cases n) auto
  let ?tail = "groups_text (Suc i) gs @ rest"
  let ?s = "groups_text i (g # gs) @ rest"
  have "CHR ''.'' \<notin> set ?s"
    using groups_text_no_char [of "CHR ''.''" i "g # gs"] Cons.prems(3) by (auto simp: groups_end_def)
  then have v4: "read_sep (CHR '':'') i read_ipv4 ?s = None" by (rule read_sep_ipv4_no_dot)
  have "stops_at (\<lambda>c. to_digit 16 c \<noteq> None) ?tail"
    using Cons.prems(3) by (cases gs) (auto simp: groups_end_def)
  with Cons.prems(1) have "read_number 16 (Some 4) True 65535 (show_hex g @ ?tail) = Some (g, ?tail)"
    by (intro read_group) auto
  then have "read_sep (CHR '':'') i (read_number 16 (Some 4) True 65535) ?s = Some (g, ?tail)"
    by (auto simp: read_sep_def)
  then show ?case using v4 Cons.IH [of m "Suc i"] Cons.prems by (auto simp: n)
qed

section \<open>The compressed spelling of an IPv6 address\<close>

definition zero_at :: "nat list \<Rightarrow> nat \<times> nat \<Rightarrow> bool" where
  "zero_at fs sp \<longleftrightarrow> fst sp + snd sp \<le> length fs \<and> (\<forall>k < snd sp. fs ! (fst sp + k) = 0)"

lemma zero_at_0 [simp]: "s \<le> length fs \<Longrightarrow> zero_at fs (s, 0)"
  by (simp add: zero_at_def)

lemma zero_span_sound:
  assumes "fs = pre @ gs" and "length pre = i" and "zero_at fs longest" and "zero_at fs cur"
    and "0 < snd cur \<Longrightarrow> fst cur + snd cur = i"
  shows "zero_at fs (zero_span i gs longest cur)"
  using assms
proof (induction gs arbitrary: pre i longest cur)
  case (Cons g gs)
  show ?case
  proof (cases "g = 0")
    case False
    then show ?thesis using Cons.prems Cons.IH [of "pre @ [g]" "Suc i" longest "(0, 0)"] by simp
  next
    case True
    let ?start = "if snd cur = 0 then i else fst cur"
    let ?cur = "(?start, snd cur + 1)"
    have nth: "fs ! i = 0" using Cons.prems(1,2) True by (simp add: nth_append)
    have stop: "?start + snd cur = i" using Cons.prems(5) by auto
    have z: "zero_at fs ?cur"
      unfolding zero_at_def
    proof (intro conjI allI impI)
      show "fst ?cur + snd ?cur \<le> length fs" using stop Cons.prems(1,2) by simp
      fix k assume "k < snd ?cur"
      then consider "k = snd cur" | "k < snd cur" by fastforce
      then show "fs ! (fst ?cur + k) = 0"
        using nth stop Cons.prems(4) by cases (auto simp: zero_at_def)
    qed
    then have l: "zero_at fs (if snd longest < snd ?cur then ?cur else longest)"
      using Cons.prems(3) by simp
    have "zero_at fs (zero_span (Suc i) gs (if snd longest < snd ?cur then ?cur else longest) ?cur)"
      by (rule Cons.IH [OF _ _ l z, of "pre @ [g]"]) (use Cons.prems(1,2) stop in auto)
    then show ?thesis using True by (simp only: zero_span.simps Let_def if_True fst_conv snd_conv simp_thms)
  qed
qed simp

lemma zero_at_split:
  assumes "zero_at fs (s, l)"
  shows "fs = take s fs @ replicate l 0 @ drop (s + l) fs"
proof -
  have "take l (drop s fs) = replicate l 0"
    using assms by (intro nth_equalityI) (auto simp: zero_at_def)
  moreover have "fs = take s fs @ take l (drop s fs) @ drop (s + l) fs"
    by (metis append_take_drop_id drop_drop add.commute)
  ultimately show ?thesis by simp
qed

lemma length_segments [simp]: "length (segments a) = 8"
  by (simp add: segments_def)

lemma segments_bound: "list_all (\<lambda>g. g < 65536) (segments a)"
  by (simp add: segments_def list_all_iff)

lemma octets_value_snoc: "octets_value b (vs @ [v]) = octets_value b vs * b + v"
  by (simp add: octets_value_def)

lemma digits_value:
  "octets_value b (map (\<lambda>k. v div b ^ (n - 1 - k) mod b) [0..<n]) = v mod b ^ n"
proof (induction n arbitrary: v)
  case 0
  show ?case by (simp add: octets_value_def)
next
  case (Suc n)
  have "v div b ^ (n - k) mod b = v div b div b ^ (n - 1 - k) mod b" if "k < n" for k
  proof -
    from that have "n - k = Suc (n - 1 - k)" by simp
    then show ?thesis by (simp add: div_mult2_eq)
  qed
  then have eq: "map (\<lambda>k. v div b ^ (n - k) mod b) [0..<n] = map (\<lambda>k. v div b div b ^ (n - 1 - k) mod b) [0..<n]"
    by (intro map_cong) auto
  have "octets_value b (map (\<lambda>k. v div b ^ (n - k) mod b) [0..<Suc n])
      = octets_value b (map (\<lambda>k. v div b ^ (n - k) mod b) [0..<n]) * b + v mod b"
    by (simp add: octets_value_snoc)
  also have "\<dots> = v div b mod b ^ n * b + v mod b" by (simp only: eq Suc)
  also have "\<dots> = v mod b ^ Suc n" by (simp add: mod_mult2_eq mult.commute)
  finally show ?case by simp
qed

lemma octets_value_segments: "octets_value 65536 (segments a) = unat a"
proof -
  have "unat a < 65536 ^ 8" using unsigned_less [of a] by simp
  then have "unat a mod 65536 ^ 8 = unat a" by (rule mod_less)
  moreover have "octets_value 65536 (segments a) = unat a mod 65536 ^ 8"
    using digits_value [of 65536 "unat a" 8] by (simp add: segments_def)
  ultimately show ?thesis by metis
qed

lemma read_groups_full:
  assumes "length gs = 8" and "list_all (\<lambda>g. g < 65536) gs"
  shows "read_ipv6 (groups_text 0 gs) = Some (of_nat (octets_value 65536 gs), [])"
  using read_groups_text [of gs 8 "[]" 0] assms by (simp add: read_ipv6_def groups_end_def)

lemma read_groups_compressed:
  assumes "length xs + length ys < 8" and "list_all (\<lambda>g. g < 65536) (xs @ ys)"
  shows "read_ipv6 (groups_text 0 xs @ ''::'' @ groups_text 0 ys)
    = Some (of_nat (octets_value 65536 (xs @ replicate (8 - length xs - length ys) 0 @ ys)), [])"
proof -
  have "groups_end (''::'' @ groups_text 0 ys)"
    using groups_text_no_char [of "CHR ''.''" 0 ys] by (auto simp: groups_end_def)
  then have "read_groups 8 0 (groups_text 0 xs @ ''::'' @ groups_text 0 ys)
      = (xs, False, ''::'' @ groups_text 0 ys)"
    using assms by (intro read_groups_text) auto
  moreover have "read_groups (8 - (length xs + 1)) 0 (groups_text 0 ys) = (ys, False, [])"
    using read_groups_text [of ys "8 - (length xs + 1)" "[]" 0] assms by (auto simp: groups_end_def)
  ultimately show ?thesis using assms(1) by (simp add: read_ipv6_def)
qed

lemma read_ipv4_None: "stops_at (\<lambda>c. to_digit 10 c \<noteq> None) s \<Longrightarrow> read_ipv4 s = None"
proof -
  assume st: "stops_at (\<lambda>c. to_digit 10 c \<noteq> None) s"
  have four: "(4::nat) = Suc 3" by simp
  have "read_octets 0 (Suc 3) s = None"
    unfolding read_octets.simps by (simp add: read_sep_def read_number_None [OF st])
  then have "read_octets 0 4 s = None" unfolding four .
  then show ?thesis by (simp add: read_ipv4_def)
qed

lemma read_ipv6_mapped: "read_ipv6 (''::ffff:'' @ show_ipv4 v) = Some (0xFFFF00000000 + ucast v, [])"
proof -
  have eight: "(8::nat) = Suc 7" "(7::nat) = Suc 6" "(6::nat) = Suc 5" by simp_all
  have v4: "read_ipv4 (show_ipv4 v) = Some (v, [])" using read_ipv4_show_ipv4 [of "[]" v] by simp
  let ?r = "CHR '':'' # show_ipv4 v"
  have "digit_char 15 = CHR ''f''" by code_simp
  then have h: "show_hex 65535 = ''ffff''" by (simp add: show_hex.simps)
  have g: "read_number 16 (Some 4) True 65535 (''ffff'' @ ?r) = Some (65535, ?r)"
    using read_group [of 65535 ?r] by (simp add: h)
  have n: "read_ipv4 (CHR ''f'' # s) = None" for s
    by (rule read_ipv4_None) (simp add: to_digit_def)
  have n2: "read_ipv4 (CHR '':'' # s) = None" for s
    by (rule read_ipv4_None) (simp add: to_digit_def)
  have c: "read_number 16 (Some 4) True 65535 (CHR '':'' # s) = None" for s
    by (rule read_number_None) simp
  have head: "read_groups 8 0 (''::ffff:'' @ show_ipv4 v) = ([], False, ''::ffff:'' @ show_ipv4 v)"
  proof -
    have "read_groups (Suc 7) 0 (''::ffff:'' @ show_ipv4 v) = ([], False, ''::ffff:'' @ show_ipv4 v)"
      unfolding read_groups.simps by (simp add: read_sep_def n2 c)
    then show ?thesis by (simp only: eight(1))
  qed
  have tail: "read_groups 7 0 (''ffff'' @ ?r) = ([65535, unat v div 65536, unat v mod 65536], True, [])"
  proof -
    have "read_groups (Suc (Suc 5)) 0 (''ffff'' @ ?r) = ([65535, unat v div 65536, unat v mod 65536], True, [])"
      unfolding read_groups.simps using g by (simp add: read_sep_def n v4)
    then show ?thesis by (simp only: eight(2,3))
  qed
  have "octets_value 65536 [0, 0, 0, 0, 0, 65535, unat v div 65536, unat v mod 65536]
      = 0xFFFF00000000 + unat v"
    by (simp add: octets_value_def)
  moreover have "replicate 5 (0::nat) = [0, 0, 0, 0, 0]" by (simp add: numeral_eq_Suc)
  ultimately show ?thesis using head tail
    by (simp add: read_ipv6_def)
qed

theorem read_show_ipv6: "read_ipv6 (show_ipv6 a) = Some (a, [])"
proof (cases "to_ipv4_mapped a")
  case (Some v)
  then have hi: "drop_bit 32 a = 0xFFFF" and v: "v = ucast a"
    by (auto simp: to_ipv4_mapped_def split: if_splits)
  have "take_bit 32 a = ucast v"
    unfolding v by (transfer, simp)
  then have "a = 0xFFFF00000000 + ucast v"
    using bits_ident [of 32 a] hi by simp
  with Some show ?thesis using read_ipv6_mapped [of v] by (simp add: show_ipv6_def)
next
  case None
  obtain s l where sp: "zero_span 0 (segments a) (0, 0) (0, 0) = (s, l)" by fastforce
  have z: "zero_at (segments a) (s, l)"
    using zero_span_sound [of "segments a" "[]" "segments a" 0 "(0, 0)" "(0, 0)"] sp by simp
  let ?xs = "take s (segments a)"
  let ?ys = "drop (s + l) (segments a)"
  have val: "of_nat (octets_value 65536 (segments a)) = a"
    by (simp add: octets_value_segments)
  show ?thesis
  proof (cases "1 < l")
    case True
    have len: "length ?xs + length ?ys < 8" and gap: "8 - length ?xs - length ?ys = l"
      using z True by (auto simp: zero_at_def)
    have "list_all (\<lambda>g. g < 65536) (?xs @ ?ys)"
      using segments_bound [of a] by (auto simp: list_all_iff dest: in_set_takeD in_set_dropD)
    from read_groups_compressed [OF len this]
    have "read_ipv6 (groups_text 0 ?xs @ ''::'' @ groups_text 0 ?ys) = Some (a, [])"
      unfolding gap zero_at_split [OF z, symmetric] val .
    moreover have "show_ipv6 a = groups_text 0 ?xs @ ''::'' @ groups_text 0 ?ys"
      using None True sp by (simp add: show_ipv6_def join_groups Let_def)
    ultimately show ?thesis by simp
  next
    case False
    then show ?thesis
      using None sp val read_groups_full [of "segments a"] segments_bound [of a]
      by (simp add: show_ipv6_def join_groups)
  qed
qed

text \<open>What the CIDR and SOCKS layers use: any address parses back from its text.\<close>

lemma zero_no_digit_prefix: "read_ipv4 (show_ipv6 a) = None"
proof (cases "to_ipv4_mapped a")
  case (Some v)
  then show ?thesis by (simp add: show_ipv6_def read_ipv4_None to_digit_def)
next
  case None
  have "CHR ''.'' \<notin> set (groups_text i gs)" for i gs
    by (rule groups_text_no_char) simp
  with None have "CHR ''.'' \<notin> set (show_ipv6 a)"
    by (auto simp: show_ipv6_def join_groups Let_def split: prod.splits)
  then show ?thesis by (rule read_ipv4_no_dot)
qed

theorem parse_show_ip [simp]: "parse_ip (show_ip ip) = Some ip"
proof (cases ip)
  case (IpV6 a)
  then show ?thesis using zero_no_digit_prefix [of a] read_show_ipv6 [of a]
    by (simp add: parse_ip_def)
qed simp

lemma show_ip_inject [simp]: "show_ip a = show_ip b \<longleftrightarrow> a = b"
  by (metis option.inject parse_show_ip)

lemma show_ip_no_slash: "CHR ''/'' \<notin> set (show_ip ip)"
proof (cases ip)
  case (IpV4 a)
  then show ?thesis by (simp add: show_ipv4_no_slash)
next
  case (IpV6 a)
  have "CHR ''/'' \<notin> set (groups_text i gs)" for i gs
    by (rule groups_text_no_char) simp
  with IpV6 show ?thesis
    by (auto simp: show_ipv6_def join_groups Let_def show_ipv4_no_slash split: option.splits prod.splits)
qed

lemma show_ip_is_str: "is_str (show_ip ip)"
proof (rule is_ascii_is_str, cases ip)
  case (IpV6 a)
  then show "is_ascii (show_ip ip)"
    by (auto simp: show_ipv6_def join_groups Let_def show_ipv4_ascii groups_text_ascii
        split: option.splits prod.splits)
qed (simp add: show_ipv4_ascii)

lemma show_ip_not_Nil [simp]: "show_ip ip \<noteq> []"
proof
  assume "show_ip ip = []"
  then have "parse_ip [] = Some ip" using parse_show_ip [of ip] by simp
  moreover have "read_groups 8 0 [] = ([], False, [])"
    using read_groups_text [of "[]" 8 "[]" 0] by (simp add: groups_end_def)
  then have "parse_ip [] = None"
    by (simp add: parse_ip_def read_ipv4_None read_ipv6_def)
  ultimately show False by simp
qed

end
