(* ===== verification/Config_Types.thy ===== *)
theory Config_Types
  imports Rust_Str
begin

text \<open>
  The typed configuration of \<open>config.rs\<close>, after decoding. A \<open>Listable\<close> is the list it
  wraps. JSON values keep their shape; the numbers in them are not inspected anywhere and
  are a type parameter.
\<close>

section \<open>JSON values\<close>

datatype 'n json =
    JNull
  | JBool bool
  | JNumber 'n
  | JString string
  | JArray "'n json list"
  | JObject "(string \<times> 'n json) list"

section \<open>Shared services\<close>

record log_config =
  log_disabled :: bool
  log_output :: string
  log_level :: string
  log_timestamp :: bool

datatype domain_strategy = AsIs | PreferIpv4 | PreferIpv6 | Ipv4Only | Ipv6Only

definition default_strategy :: domain_strategy where
  "default_strategy = AsIs"

record dns_server_config =
  dns_kind :: string
  dns_tag :: string
  dns_server :: string
  dns_server_port :: u16

record dns_config =
  dns_servers :: "dns_server_config list"
  dns_final_server :: string
  dns_strategy :: domain_strategy
  dns_disable_cache :: bool
  dns_disable_expire :: bool

record ntp_config =
  ntp_enabled :: bool
  ntp_server :: string
  ntp_server_port :: u16

record 'n raw_component =
  raw_kind :: string
  raw_tag :: string
  raw_options :: "(string \<times> 'n json) list"

definition options_value :: "'n raw_component \<Rightarrow> 'n json" where
  "options_value raw = JObject (raw_options raw)"

datatype domain_resolver_config = ResolverTag string | ResolverOptions string

fun resolver_config_server :: "domain_resolver_config \<Rightarrow> string" where
  "resolver_config_server (ResolverTag server) = server"
| "resolver_config_server (ResolverOptions server) = server"

section \<open>Route rules and rule-sets\<close>

record headless_fields =
  hf_kind :: string
  hf_mode :: string
  hf_network :: "string list"
  hf_domain :: "string list"
  hf_domain_suffix :: "string list"
  hf_domain_keyword :: "string list"
  hf_source_ip_cidr :: "string list"
  hf_ip_cidr :: "string list"
  hf_source_port :: "u16 list"
  hf_source_port_range :: "string list"
  hf_port :: "u16 list"
  hf_port_range :: "string list"
  hf_invert :: bool

text \<open>\<open>HeadlessRuleConfig\<close> nests itself in its field \<open>rules\<close>.\<close>

datatype headless_rule_config =
  HeadlessRuleConfig (hr_fields: headless_fields) (hr_rules: "headless_rule_config list")

definition default_headless_fields :: headless_fields where
  "default_headless_fields =
     \<lparr>hf_kind = [], hf_mode = [], hf_network = [], hf_domain = [], hf_domain_suffix = [],
      hf_domain_keyword = [], hf_source_ip_cidr = [], hf_ip_cidr = [], hf_source_port = [],
      hf_source_port_range = [], hf_port = [], hf_port_range = [], hf_invert = False\<rparr>"

record rule_set_source =
  rss_version :: u8
  rss_rules :: "headless_rule_config list"

record 'n rule_set_config =
  rsc_kind :: string
  rsc_tag :: string
  rsc_format :: string
  rsc_path :: string
  rsc_url :: string
  rsc_update_interval :: string
  rsc_download_detour :: string
  rsc_http_client :: "'n json option"
  rsc_rules :: "headless_rule_config list"

record route_rule_config =
  rr_inbound :: "string list"
  rr_network :: "string list"
  rr_auth_user :: "string list"
  rr_domain :: "string list"
  rr_domain_suffix :: "string list"
  rr_domain_keyword :: "string list"
  rr_source_ip_cidr :: "string list"
  rr_source_ip_is_private :: "bool option"
  rr_ip_cidr :: "string list"
  rr_ip_is_private :: "bool option"
  rr_source_port :: "u16 list"
  rr_source_port_range :: "string list"
  rr_port :: "u16 list"
  rr_port_range :: "string list"
  rr_rule_set :: "string list"
  rr_invert :: bool
  rr_action :: string
  rr_outbound :: string
  rr_override_address :: string
  rr_override_port :: u16
  rr_method :: string
  rr_no_drop :: bool

definition default_route_rule :: route_rule_config where
  "default_route_rule =
     \<lparr>rr_inbound = [], rr_network = [], rr_auth_user = [], rr_domain = [], rr_domain_suffix = [],
      rr_domain_keyword = [], rr_source_ip_cidr = [], rr_source_ip_is_private = None,
      rr_ip_cidr = [], rr_ip_is_private = None, rr_source_port = [], rr_source_port_range = [],
      rr_port = [], rr_port_range = [], rr_rule_set = [], rr_invert = False, rr_action = [],
      rr_outbound = [], rr_override_address = [], rr_override_port = 0, rr_method = [],
      rr_no_drop = False\<rparr>"

record 'n route_config =
  rc_default_domain_resolver :: "domain_resolver_config option"
  rc_rule_set :: "'n rule_set_config list"
  rc_rules :: "route_rule_config list"
  rc_final_outbound :: string

record 'n config =
  cfg_schema :: string
  cfg_log :: "log_config option"
  cfg_dns :: "dns_config option"
  cfg_ntp :: "ntp_config option"
  cfg_certificate_providers :: "'n raw_component list"
  cfg_inbounds :: "'n raw_component list"
  cfg_outbounds :: "'n raw_component list"
  cfg_route :: "'n route_config"

end
