(* ===== verification/Api_Core.thy ===== *)
theory Api_Core
  imports Net_Roundtrip Config_Types
begin

text \<open>
  The transport-neutral contracts of \<open>api.rs\<close>: addresses, sessions, the normalisation of
  transport peers, start stages, certificates, and the system dialer that resolves a
  destination and tries its addresses in order.
\<close>

section \<open>Addresses and sessions\<close>

record address =
  host :: string
  port :: u16

datatype address_error = EmptyHost

definition new_address :: "string \<Rightarrow> u16 \<Rightarrow> address_error + address" where
  "new_address h p = (if h = [] then Inl EmptyHost else Inr \<lparr>host = h, port = p\<rparr>)"

definition show_address :: "address \<Rightarrow> string" where
  "show_address a =
     (if CHR '':'' \<in> set (host a)
      then ''['' @ host a @ '']:'' @ show_nat (unat (port a))
      else host a @ '':'' @ show_nat (unat (port a)))"

datatype network = Tcp | Udp

record session =
  s_network :: network
  s_source :: "socket_addr option"
  s_destination :: address
  s_inbound :: string
  s_inbound_type :: string
  s_outbound :: "string option"
  s_user :: "string option"

fun normalize_socket_addr :: "socket_addr \<Rightarrow> socket_addr" where
  "normalize_socket_addr (SockV6 a p f s) =
     (case to_ipv4_mapped a of
        Some ip \<Rightarrow> new_socket_addr (IpV4 ip) p
      | None \<Rightarrow> SockV6 a p f s)"
| "normalize_socket_addr (SockV4 a p) = SockV4 a p"

definition session_inbound ::
    "network \<Rightarrow> socket_addr \<Rightarrow> address \<Rightarrow> string \<Rightarrow> string \<Rightarrow> string option \<Rightarrow> session" where
  "session_inbound net source destination inbound inbound_type user =
     \<lparr>s_network = net, s_source = Some source, s_destination = destination,
      s_inbound = inbound, s_inbound_type = inbound_type, s_outbound = None, s_user = user\<rparr>"

definition source_ip :: "session \<Rightarrow> ip_addr option" where
  "source_ip s = map_option sock_ip (map_option normalize_socket_addr (s_source s))"

definition session_outbound :: "address \<Rightarrow> session" where
  "session_outbound destination =
     \<lparr>s_network = Tcp, s_source = None, s_destination = destination,
      s_inbound = [], s_inbound_type = [], s_outbound = None, s_user = None\<rparr>"

lemma normalize_idem [simp]: "normalize_socket_addr (normalize_socket_addr a) = normalize_socket_addr a"
  by (cases a) (auto simp: new_socket_addr_def split: option.splits)

lemma normalize_port [simp]: "sock_port (normalize_socket_addr a) = sock_port a"
  by (cases a) (auto split: option.splits)

lemma normalize_not_mapped: "sock_ip (normalize_socket_addr a) = IpV6 ip \<Longrightarrow> to_ipv4_mapped ip = None"
  by (cases a) (auto split: option.splits)

lemma new_address_eq_Inr [simp]: "new_address h p = Inr a \<longleftrightarrow> h \<noteq> [] \<and> a = \<lparr>host = h, port = p\<rparr>"
  by (auto simp: new_address_def)

section \<open>Start stages\<close>

datatype start_stage = Initialize | Start | PostStart | Started

definition START_STAGES :: "start_stage list" where
  "START_STAGES = [Initialize, Start, PostStart, Started]"

text \<open>The derived \<open>Ord\<close>: the stages are ordered as they are declared.\<close>

fun stage_rank :: "start_stage \<Rightarrow> nat" where
  "stage_rank Initialize = 0"
| "stage_rank Start = 1"
| "stage_rank PostStart = 2"
| "stage_rank Started = 3"

lemma stage_rank_inject [simp]: "stage_rank a = stage_rank b \<longleftrightarrow> a = b"
  by (cases a; cases b) simp_all

instantiation start_stage :: linorder
begin

definition less_eq_start_stage :: "start_stage \<Rightarrow> start_stage \<Rightarrow> bool" where
  "less_eq_start_stage a b = (stage_rank a \<le> stage_rank b)"

definition less_start_stage :: "start_stage \<Rightarrow> start_stage \<Rightarrow> bool" where
  "less_start_stage a b = (stage_rank a < stage_rank b)"

instance
  by standard (auto simp: less_eq_start_stage_def less_start_stage_def)

end

lemma START_STAGES_complete: "stage \<in> set START_STAGES"
  by (cases stage) (simp_all add: START_STAGES_def)

lemma START_STAGES_increasing: "sorted_wrt (<) START_STAGES"
  by (simp add: START_STAGES_def less_start_stage_def)

section \<open>Certificates\<close>

record certificate =
  certificate_chain :: "bytes list"
  private_key :: bytes

datatype certificate_error = EmptyChain | EmptyPrivateKey

definition new_certificate :: "bytes list \<Rightarrow> bytes \<Rightarrow> certificate_error + certificate" where
  "new_certificate chain key =
     (if chain = [] then Inl EmptyChain
      else if key = [] then Inl EmptyPrivateKey
      else Inr \<lparr>certificate_chain = chain, private_key = key\<rparr>)"

section \<open>The system dialer\<close>

text \<open>
  The injected \<open>DomainResolver\<close> and the operating system's lookup and sockets are the
  environment of the dialer: what a call returns is a parameter.
\<close>

record 'io resolver =
  resolver_lookup :: "string option \<Rightarrow> string \<Rightarrow> domain_strategy \<Rightarrow> 'io + ip_addr list"
  resolver_contains_server :: "string \<Rightarrow> bool"

record 'io system_dialer =
  sd_resolver :: "'io resolver option"
  sd_resolver_server :: "string option"
  sd_strategy :: domain_strategy

definition new_system_dialer ::
    "'io resolver option \<Rightarrow> string option \<Rightarrow> domain_strategy \<Rightarrow> 'io system_dialer" where
  "new_system_dialer r server strategy =
     \<lparr>sd_resolver = r, sd_resolver_server = server, sd_strategy = strategy\<rparr>"

definition resolve ::
    "(string \<Rightarrow> u16 \<Rightarrow> 'io + socket_addr list) \<Rightarrow> 'io system_dialer \<Rightarrow> string \<Rightarrow> u16
       \<Rightarrow> 'io + socket_addr list" where
  "resolve lookup_host d h p =
     (case parse_ip h of
        Some ip \<Rightarrow> Inr [new_socket_addr ip p]
      | None \<Rightarrow>
          (case sd_resolver d of
             Some r \<Rightarrow>
               and_then (resolver_lookup r (sd_resolver_server d) h (sd_strategy d))
                 (\<lambda>ips. Inr (map (\<lambda>ip. new_socket_addr ip p) ips))
           | None \<Rightarrow> lookup_host h p))"

datatype 'io dial_error =
    SystemUdpUnsupported
  | DialIo 'io
  | DidNotResolve address

text \<open>
  The loop over the addresses. A connected stream whose \<open>set_nodelay\<close> fails ends the dial
  at once; a refused address is remembered and the next one is tried.
\<close>

fun try_connect ::
    "(socket_addr \<Rightarrow> 'io + 'st) \<Rightarrow> ('st \<Rightarrow> 'io + unit) \<Rightarrow> 'io option \<Rightarrow> socket_addr list
       \<Rightarrow> 'io option + ('io + 'st)" where
  "try_connect tcp nodelay err [] = Inl err"
| "try_connect tcp nodelay err (a # as) =
     (case tcp a of
        Inr st \<Rightarrow> (case nodelay st of Inl e \<Rightarrow> Inr (Inl e) | Inr _ \<Rightarrow> Inr (Inr st))
      | Inl e \<Rightarrow> try_connect tcp nodelay (Some e) as)"

definition system_connect ::
    "(string \<Rightarrow> u16 \<Rightarrow> 'io + socket_addr list) \<Rightarrow> (socket_addr \<Rightarrow> 'io + 'st) \<Rightarrow> ('st \<Rightarrow> 'io + unit)
       \<Rightarrow> 'io system_dialer \<Rightarrow> session \<Rightarrow> 'io dial_error + 'st" where
  "system_connect lookup_host tcp nodelay d s =
     and_then (ensure (s_network s = Tcp) SystemUdpUnsupported) (\<lambda>_.
     and_then (map_err DialIo (resolve lookup_host d (host (s_destination s)) (port (s_destination s))))
       (\<lambda>addrs.
          case try_connect tcp nodelay None addrs of
            Inr r \<Rightarrow> map_err DialIo r
          | Inl (Some e) \<Rightarrow> Inl (DialIo e)
          | Inl None \<Rightarrow> Inl (DidNotResolve (s_destination s))))"

lemma try_connect_first:
  assumes "list_all (\<lambda>a. \<not> is_ok (tcp a)) xs" and "tcp a = Inr st"
  shows "try_connect tcp nodelay err (xs @ a # ys)
    = Inr (case nodelay st of Inl e \<Rightarrow> Inl e | Inr _ \<Rightarrow> Inr st)"
  using assms by (induction xs arbitrary: err) (auto split: sum.splits)

lemma try_connect_none:
  "list_all (\<lambda>a. \<not> is_ok (tcp a)) xs \<Longrightarrow>
   try_connect tcp nodelay err xs
     = Inl (if xs = [] then err else Some (projl (tcp (last xs))))"
  by (induction xs arbitrary: err) (auto split: sum.splits)

text \<open>Only these two outcomes exist: some address was reached, or every one was refused.\<close>

lemma reachable_split:
  "(\<exists>pre a st post. xs = pre @ a # post \<and> list_all (\<lambda>a. \<not> is_ok (tcp a)) pre \<and> tcp a = Inr st)
   \<or> list_all (\<lambda>a. \<not> is_ok (tcp a)) xs"
proof (induction xs)
  case (Cons x xs)
  show ?case
  proof (cases "tcp x")
    case (Inr st)
    then have "x # xs = [] @ x # xs \<and> list_all (\<lambda>a. \<not> is_ok (tcp a)) [] \<and> tcp x = Inr st"
      by simp
    then show ?thesis by blast
  next
    case (Inl e)
    from Cons.IH show ?thesis
    proof
      assume "\<exists>pre a st post. xs = pre @ a # post \<and> list_all (\<lambda>a. \<not> is_ok (tcp a)) pre \<and> tcp a = Inr st"
      then obtain pre a st post where "xs = pre @ a # post" "list_all (\<lambda>a. \<not> is_ok (tcp a)) pre" "tcp a = Inr st"
        by blast
      then have "x # xs = (x # pre) @ a # post \<and> list_all (\<lambda>a. \<not> is_ok (tcp a)) (x # pre) \<and> tcp a = Inr st"
        using Inl by simp
      then show ?thesis by blast
    qed (use Inl in simp)
  qed
qed simp

section \<open>Properties\<close>

text \<open>Dialing a TCP destination connects to the first address that accepts, in the order of
  resolution, and uses no later one; when none accepts the error is that of the last address,
  and an empty resolution is reported as such.\<close>

theorem system_connect_first:
  assumes "s_network s = Tcp"
    and "resolve lookup_host d (host (s_destination s)) (port (s_destination s)) = Inr addrs"
  shows "system_connect lookup_host tcp nodelay d s =
    (case List.find (\<lambda>a. is_ok (tcp a)) addrs of
       Some a \<Rightarrow> map_err DialIo (and_then (tcp a) (\<lambda>st. and_then (nodelay st) (\<lambda>_. Inr st)))
     | None \<Rightarrow> Inl (if addrs = [] then DidNotResolve (s_destination s) else DialIo (projl (tcp (last addrs)))))"
proof (cases "List.find (\<lambda>a. is_ok (tcp a)) addrs")
  case None
  then have "list_all (\<lambda>a. \<not> is_ok (tcp a)) addrs" by (simp add: find_None_iff list_all_iff)
  then have "try_connect tcp nodelay None addrs
      = Inl (if addrs = [] then None else Some (projl (tcp (last addrs))))"
    by (rule try_connect_none)
  with None assms show ?thesis by (simp add: system_connect_def)
next
  case (Some a)
  then obtain i where i: "i < length addrs" "is_ok (tcp (addrs ! i))" "a = addrs ! i"
    "\<forall>j<i. \<not> is_ok (tcp (addrs ! j))" by (auto simp: find_Some_iff)
  then obtain st where st: "tcp a = Inr st" by (auto simp: is_ok_iff)
  have "list_all (\<lambda>a. \<not> is_ok (tcp a)) (take i addrs)"
    using i(1,4) by (auto simp: list_all_length)
  from try_connect_first [OF this st, of nodelay None "drop (Suc i) addrs"] i(1,3)
  have "try_connect tcp nodelay None addrs = Inr (case nodelay st of Inl e \<Rightarrow> Inl e | Inr _ \<Rightarrow> Inr st)"
    by (simp add: id_take_nth_drop [symmetric])
  with Some st assms show ?thesis by (cases "nodelay st") (simp_all add: system_connect_def)
qed

theorem system_connect_first_witness:
  "\<forall>lookup_host. system_connect lookup_host
      (\<lambda>a. if a = SockV4 0x01020304 80 then Inl ''refused'' else Inr a) (\<lambda>_. Inr ())
      (new_system_dialer None None AsIs) (session_outbound \<lparr>host = show_ip (IpV4 0x01020304), port = 80\<rparr>)
    = Inl (DialIo ''refused'')"
  (is "\<forall>lookup_host. system_connect _ _ _ ?d ?s = _")
proof
  fix lookup_host :: "string \<Rightarrow> u16 \<Rightarrow> string + socket_addr list"
  let ?tcp = "\<lambda>a. if a = SockV4 0x01020304 80 then Inl ''refused'' else Inr a"
  have resolved: "resolve lookup_host ?d (host (s_destination ?s)) (port (s_destination ?s))
      = Inr [SockV4 0x01020304 80]"
    by (simp add: resolve_def session_outbound_def new_socket_addr_def del: show_ip.simps)
  have "s_network ?s = Tcp" by (simp add: session_outbound_def)
  then show "system_connect lookup_host ?tcp (\<lambda>_. Inr ()) ?d ?s = Inl (DialIo ''refused'')"
    by (simp add: system_connect_first [OF _ resolved] del: show_ip.simps)
qed

end
