(* ===== verification/Cidr.thy ===== *)
theory Cidr
  imports Api_Core
begin

text \<open>
  The address and port conditions of a route rule (\<open>router.rs\<close>): CIDR blocks with their
  parser and membership test, port lists and ranges, and the private address classes.
\<close>

unbundle bit_operations_syntax

section \<open>CIDR blocks\<close>

record ip_cidr =
  cidr_network :: ip_addr
  cidr_prefix :: nat

datatype cidr_error = BadCidrPrefix string | BadCidrAddress string | InvalidCidrPrefix string

definition parse_cidr :: "string \<Rightarrow> cidr_error + ip_cidr" where
  "parse_cidr value =
     (let (addr, pre) = (case split_once (CHR ''/'') value of
            Some (a, p) \<Rightarrow> (a, Some (ok_or (BadCidrPrefix p) (parse_uint 10 255 p)))
          | None \<Rightarrow> (value, None))
      in and_then (case pre of None \<Rightarrow> Inr None | Some r \<Rightarrow> and_then r (\<lambda>n. Inr (Some n))) (\<lambda>pre.
         and_then (ok_or (BadCidrAddress addr) (parse_ip addr)) (\<lambda>net.
         let maximum = (if is_ipv4 net then 32 else 128);
             prefix_len = (case pre of None \<Rightarrow> maximum | Some n \<Rightarrow> n)
         in if prefix_len \<le> maximum
            then Inr \<lparr>cidr_network = net, cidr_prefix = prefix_len\<rparr>
            else Inl (InvalidCidrPrefix value))))"

definition net_mask :: "nat \<Rightarrow> 'a::len word" where
  "net_mask p = (if p = 0 then 0 else push_bit (LENGTH('a) - p) (- 1))"

definition cidr_contains :: "ip_cidr \<Rightarrow> ip_addr \<Rightarrow> bool" where
  "cidr_contains c a =
     (case (cidr_network c, a) of
        (IpV4 n, IpV4 x) \<Rightarrow> n AND net_mask (cidr_prefix c) = x AND net_mask (cidr_prefix c)
      | (IpV6 n, IpV6 x) \<Rightarrow> n AND net_mask (cidr_prefix c) = x AND net_mask (cidr_prefix c)
      | _ \<Rightarrow> False)"

definition ip_width :: "ip_addr \<Rightarrow> nat" where
  "ip_width ip = (if is_ipv4 ip then 32 else 128)"

definition cidr_wf :: "ip_cidr \<Rightarrow> bool" where
  "cidr_wf c \<longleftrightarrow> cidr_prefix c \<le> ip_width (cidr_network c)"

lemma parse_cidr_wf_lemma: "parse_cidr v = Inr c \<Longrightarrow> cidr_wf c"
  by (auto simp: parse_cidr_def cidr_wf_def ip_width_def Let_def split: prod.splits if_splits)

lemma and_high_mask: "(x :: 'a::len word) AND push_bit k (- 1) = push_bit k (drop_bit k x)"
  by (rule bit_word_eqI) (auto simp: bit_simps)

lemma unat_drop_bit_div: "unat (drop_bit k (x :: 'a::len word)) = unat x div 2 ^ k"
  by (simp only: unat_drop_bit_eq) (simp only: drop_bit_eq_div)

lemma masked_eq_iff:
  fixes x y :: "'a::len word"
  shows "x AND push_bit k (- 1) = y AND push_bit k (- 1) \<longleftrightarrow> unat x div 2 ^ k = unat y div 2 ^ k"
proof -
  have "push_bit k (drop_bit k x) = push_bit k (drop_bit k y) \<longleftrightarrow> drop_bit k x = drop_bit k y"
  proof
    assume "push_bit k (drop_bit k x) = push_bit k (drop_bit k y)"
    then have "drop_bit k (push_bit k (drop_bit k x)) = drop_bit k (push_bit k (drop_bit k y))" by simp
    moreover have "drop_bit k (push_bit k (drop_bit k z)) = drop_bit k z" for z :: "'a word"
      by (rule bit_word_eqI) (auto simp: bit_simps dest: bit_imp_le_length)
    ultimately show "drop_bit k x = drop_bit k y" by simp
  qed simp
  also have "\<dots> \<longleftrightarrow> unat x div 2 ^ k = unat y div 2 ^ k"
    by (simp only: word_unat_eq_iff unat_drop_bit_div)
  finally show ?thesis by (simp only: and_high_mask)
qed

lemmas masked_eq_iff' = masked_eq_iff [unfolded push_bit_minus_one_eq_not_mask]

lemma net_mask_shift: "p \<le> LENGTH('a) \<Longrightarrow> (net_mask p :: 'a::len word) = push_bit (LENGTH('a) - p) (- 1)"
  by (auto simp: net_mask_def intro!: bit_word_eqI simp: bit_simps)

text \<open>Membership is agreement of the leading bits, whatever host bits the network has.\<close>

lemma cidr_contains_v4:
  assumes "p \<le> 32"
  shows "cidr_contains \<lparr>cidr_network = IpV4 n, cidr_prefix = p\<rparr> (IpV4 x)
    \<longleftrightarrow> unat n div 2 ^ (32 - p) = unat x div 2 ^ (32 - p)"
  using assms by (simp add: cidr_contains_def net_mask_shift masked_eq_iff')

lemma cidr_contains_v6:
  assumes "p \<le> 128"
  shows "cidr_contains \<lparr>cidr_network = IpV6 n, cidr_prefix = p\<rparr> (IpV6 x)
    \<longleftrightarrow> unat n div 2 ^ (128 - p) = unat x div 2 ^ (128 - p)"
  using assms by (simp add: cidr_contains_def net_mask_shift masked_eq_iff')

lemma cidr_contains_family:
  "cidr_contains c a \<Longrightarrow> is_ipv4 (cidr_network c) = is_ipv4 a"
  by (cases "cidr_network c"; cases a) (simp_all add: cidr_contains_def)

definition cidr_text :: "ip_addr \<Rightarrow> nat \<Rightarrow> string" where
  "cidr_text net p = show_ip net @ ''/'' @ show_nat p"

lemma parse_cidr_text_lemma:
  assumes "p \<le> ip_width net"
  shows "parse_cidr (cidr_text net p) = Inr \<lparr>cidr_network = net, cidr_prefix = p\<rparr>"
proof -
  have "split_once (CHR ''/'') (cidr_text net p) = Some (show_ip net, show_nat p)"
    using split_once_append [of "CHR ''/''" "show_ip net" "show_nat p"] show_ip_no_slash [of net]
    by (simp add: cidr_text_def)
  moreover have "p \<le> 255" using assms by (simp add: ip_width_def split: if_splits)
  ultimately show ?thesis
    using assms by (auto simp: parse_cidr_def ip_width_def)
qed

lemma split_once_no_slash_ip: "split_once (CHR ''/'') (show_ip net) = None"
  by (simp add: split_once_None show_ip_no_slash)

lemma parse_cidr_host:
  "parse_cidr (show_ip net) = Inr \<lparr>cidr_network = net, cidr_prefix = ip_width net\<rparr>"
  by (simp add: parse_cidr_def split_once_no_slash_ip ip_width_def)

section \<open>Private addresses\<close>

definition is_private :: "ip_addr \<Rightarrow> bool" where
  "is_private a =
     (case a of
        IpV4 x \<Rightarrow>
          v4_is_private x \<or> is_loopback (IpV4 x) \<or> v4_is_link_local x
          \<or> x = v4_broadcast \<or> x = v4_unspecified
      | IpV6 x \<Rightarrow>
          is_loopback (IpV6 x) \<or> x = v6_unspecified
          \<or> x AND push_bit 121 (- 1) = 0xFC000000000000000000000000000000 AND push_bit 121 (- 1)
          \<or> x AND push_bit 118 (- 1) = 0xFE800000000000000000000000000000 AND push_bit 118 (- 1))"

text \<open>The same classes as a table of CIDR blocks.\<close>

definition private_blocks :: "ip_cidr list" where
  "private_blocks =
     [\<lparr>cidr_network = IpV4 0x0A000000, cidr_prefix = 8\<rparr>,
      \<lparr>cidr_network = IpV4 0xAC100000, cidr_prefix = 12\<rparr>,
      \<lparr>cidr_network = IpV4 0xC0A80000, cidr_prefix = 16\<rparr>,
      \<lparr>cidr_network = IpV4 0x7F000000, cidr_prefix = 8\<rparr>,
      \<lparr>cidr_network = IpV4 0xA9FE0000, cidr_prefix = 16\<rparr>,
      \<lparr>cidr_network = IpV4 0xFFFFFFFF, cidr_prefix = 32\<rparr>,
      \<lparr>cidr_network = IpV4 0, cidr_prefix = 32\<rparr>,
      \<lparr>cidr_network = IpV6 1, cidr_prefix = 128\<rparr>,
      \<lparr>cidr_network = IpV6 0, cidr_prefix = 128\<rparr>,
      \<lparr>cidr_network = IpV6 0xFC000000000000000000000000000000, cidr_prefix = 7\<rparr>,
      \<lparr>cidr_network = IpV6 0xFE800000000000000000000000000000, cidr_prefix = 10\<rparr>]"

lemma is_private_blocks: "is_private a \<longleftrightarrow> (\<exists>c \<in> set private_blocks. cidr_contains c a)"
proof (cases a)
  case (IpV4 x)
  then show ?thesis
    by (simp add: is_private_def private_blocks_def cidr_contains_v4 v4_is_private_def
        v4_is_link_local_def unat_drop_bit_div v4_broadcast_def v4_unspecified_def word_unat_eq_iff)
      (auto simp: cidr_contains_def)
next
  case (IpV6 x)
  then show ?thesis
    by (simp add: is_private_def private_blocks_def cidr_contains_v6 v6_unspecified_def masked_eq_iff')
      (auto simp: cidr_contains_def word_unat_eq_iff)
qed

section \<open>Ports\<close>

record port_matcher =
  pm_exact :: "u16 list"
  pm_ranges :: "(u16 \<times> u16) list"

datatype port_error = BadPortRange string | BadPort string

definition compile_port_range :: "string \<Rightarrow> port_error + (u16 \<times> u16)" where
  "compile_port_range txt =
     and_then (ok_or (BadPortRange txt) (split_once (CHR '':'') txt)) (\<lambda>(s, e).
     and_then (if s = [] then Inr 0 else ok_or (BadPort s) (map_option of_nat (parse_uint 10 65535 s))) (\<lambda>start.
     and_then (if e = [] then Inr (- 1) else ok_or (BadPort e) (map_option of_nat (parse_uint 10 65535 e))) (\<lambda>stop.
     and_then (ensure (start \<le> stop) (BadPortRange txt)) (\<lambda>_. Inr (start, stop)))))"

definition port_matcher_compile :: "u16 list \<Rightarrow> string list \<Rightarrow> port_error + port_matcher" where
  "port_matcher_compile exact ranges =
     and_then (try_map compile_port_range ranges) (\<lambda>rs. Inr \<lparr>pm_exact = exact, pm_ranges = rs\<rparr>)"

definition port_matcher_is_empty :: "port_matcher \<Rightarrow> bool" where
  "port_matcher_is_empty m \<longleftrightarrow> pm_exact m = [] \<and> pm_ranges m = []"

definition port_matcher_contains :: "port_matcher \<Rightarrow> u16 \<Rightarrow> bool" where
  "port_matcher_contains m p \<longleftrightarrow>
     p \<in> set (pm_exact m) \<or> (\<exists>(start, stop) \<in> set (pm_ranges m). start \<le> p \<and> p \<le> stop)"

lemma port_matcher_ranges_wf:
  "port_matcher_compile exact ranges = Inr m \<Longrightarrow> (start, stop) \<in> set (pm_ranges m) \<Longrightarrow> start \<le> stop"
  by (auto simp: port_matcher_compile_def try_map_Inr_iff list_all2_conv_all_nth in_set_conv_nth
      compile_port_range_def split: prod.splits)

section \<open>Properties\<close>

text \<open>The text \<open>address/prefix\<close> of any block parses to that block, and the parsed IPv4 block
  contains exactly the IPv4 addresses that agree with the network in the leading \<open>prefix\<close> bits
  (host bits in the written network are ignored, \<open>/0\<close> contains everything).\<close>

theorem cidr_text_contains_v4:
  assumes "p \<le> 32"
  shows "\<exists>c. parse_cidr (cidr_text (IpV4 n) p) = Inr c
    \<and> (\<forall>x. cidr_contains c (IpV4 x) \<longleftrightarrow> unat n div 2 ^ (32 - p) = unat x div 2 ^ (32 - p))
    \<and> (\<forall>y. \<not> cidr_contains c (IpV6 y))"
  using assms cidr_contains_v4 [OF assms]
  by (simp add: parse_cidr_text_lemma ip_width_def cidr_contains_def [of _ "IpV6 _"])

theorem cidr_text_contains_v4_witness:
  "\<exists>c. parse_cidr (cidr_text (IpV4 0x0A010203) 8) = Inr c
    \<and> (\<forall>x. cidr_contains c (IpV4 x) \<longleftrightarrow> 10 = unat x div 2 ^ 24)
    \<and> (\<forall>y. \<not> cidr_contains c (IpV6 y))"
  using cidr_text_contains_v4 [of 8 "0x0A010203"] by simp

text \<open>The private addresses are exactly the addresses of eleven blocks: RFC 1918, loopback,
  link-local, broadcast and the unspecified address for IPv4, and the loopback and unspecified
  address, \<open>fc00::/7\<close> and \<open>fe80::/10\<close> for IPv6.\<close>

theorem is_private_table: "is_private a \<longleftrightarrow> (\<exists>c \<in> set private_blocks. cidr_contains c a)"
  by (rule is_private_blocks)

end
