(* ===== verification/Rule_Matcher.thy ===== *)
theory Rule_Matcher
  imports Cidr
begin

text \<open>
  The conditions of a rule (\<open>RuleMatcher\<close> of \<open>router.rs\<close>): how a route rule and a headless
  rule are compiled, and when a compiled matcher accepts a session. Headless rules nest
  under logical rules.
\<close>

section \<open>Compiled rules\<close>

record rule_matcher =
  m_inbounds :: "string list"
  m_networks :: "network list"
  m_users :: "string list"
  m_domains :: "string list"
  m_domain_suffixes :: "string list"
  m_domain_keywords :: "string list"
  m_source_cidrs :: "ip_cidr list"
  m_source_private :: "bool option"
  m_destination_cidrs :: "ip_cidr list"
  m_destination_private :: "bool option"
  m_source_ports :: port_matcher
  m_destination_ports :: port_matcher
  m_rule_sets :: "string list"
  m_invert :: bool

datatype logical_mode = And | Or

datatype headless_rule =
    HDefault rule_matcher
  | HLogical logical_mode "headless_rule list" bool

datatype rule_error =
    UnsupportedNetwork string
  | CidrError cidr_error
  | PortError port_error
  | NoMatchConditions
  | EmptyLogicalRule
  | UnknownLogicalMode string
  | UnsupportedHeadlessType string

section \<open>Compilation\<close>

definition normalize_domains :: "string list \<Rightarrow> string list" where
  "normalize_domains values = map to_ascii_lowercase values"

definition compile_network :: "string \<Rightarrow> rule_error + network" where
  "compile_network v =
     (if v = ''tcp'' then Inr Tcp else if v = ''udp'' then Inr Udp else Inl (UnsupportedNetwork v))"

definition compile_networks :: "string list \<Rightarrow> rule_error + network list" where
  "compile_networks values = try_map compile_network values"

definition compile_cidrs :: "string list \<Rightarrow> rule_error + ip_cidr list" where
  "compile_cidrs values = try_map (\<lambda>v. map_err CidrError (parse_cidr v)) values"

definition compile_ports :: "u16 list \<Rightarrow> string list \<Rightarrow> rule_error + port_matcher" where
  "compile_ports exact ranges = map_err PortError (port_matcher_compile exact ranges)"

definition from_route :: "route_rule_config \<Rightarrow> rule_error + rule_matcher" where
  "from_route c =
     and_then (compile_networks (rr_network c)) (\<lambda>networks.
     and_then (compile_cidrs (rr_source_ip_cidr c)) (\<lambda>source_cidrs.
     and_then (compile_cidrs (rr_ip_cidr c)) (\<lambda>destination_cidrs.
     and_then (compile_ports (rr_source_port c) (rr_source_port_range c)) (\<lambda>source_ports.
     and_then (compile_ports (rr_port c) (rr_port_range c)) (\<lambda>destination_ports.
     Inr \<lparr>m_inbounds = rr_inbound c,
          m_networks = networks,
          m_users = rr_auth_user c,
          m_domains = normalize_domains (rr_domain c),
          m_domain_suffixes = normalize_domains (rr_domain_suffix c),
          m_domain_keywords = normalize_domains (rr_domain_keyword c),
          m_source_cidrs = source_cidrs,
          m_source_private = rr_source_ip_is_private c,
          m_destination_cidrs = destination_cidrs,
          m_destination_private = rr_ip_is_private c,
          m_source_ports = source_ports,
          m_destination_ports = destination_ports,
          m_rule_sets = rr_rule_set c,
          m_invert = rr_invert c\<rparr>)))))"

definition from_headless :: "headless_fields \<Rightarrow> rule_error + rule_matcher" where
  "from_headless c =
     and_then (compile_networks (hf_network c)) (\<lambda>networks.
     and_then (compile_cidrs (hf_source_ip_cidr c)) (\<lambda>source_cidrs.
     and_then (compile_cidrs (hf_ip_cidr c)) (\<lambda>destination_cidrs.
     and_then (compile_ports (hf_source_port c) (hf_source_port_range c)) (\<lambda>source_ports.
     and_then (compile_ports (hf_port c) (hf_port_range c)) (\<lambda>destination_ports.
     Inr \<lparr>m_inbounds = [],
          m_networks = networks,
          m_users = [],
          m_domains = normalize_domains (hf_domain c),
          m_domain_suffixes = normalize_domains (hf_domain_suffix c),
          m_domain_keywords = normalize_domains (hf_domain_keyword c),
          m_source_cidrs = source_cidrs,
          m_source_private = None,
          m_destination_cidrs = destination_cidrs,
          m_destination_private = None,
          m_source_ports = source_ports,
          m_destination_ports = destination_ports,
          m_rule_sets = [],
          m_invert = hf_invert c\<rparr>)))))"

definition matcher_is_empty :: "rule_matcher \<Rightarrow> bool" where
  "matcher_is_empty m \<longleftrightarrow>
     m_inbounds m = [] \<and> m_networks m = [] \<and> m_users m = [] \<and> m_domains m = []
     \<and> m_domain_suffixes m = [] \<and> m_domain_keywords m = [] \<and> m_source_cidrs m = []
     \<and> m_source_private m = None \<and> m_destination_cidrs m = [] \<and> m_destination_private m = None
     \<and> port_matcher_is_empty (m_source_ports m) \<and> port_matcher_is_empty (m_destination_ports m)
     \<and> m_rule_sets m = []"

definition is_default_kind :: "headless_fields \<Rightarrow> bool" where
  "is_default_kind c \<longleftrightarrow> hf_kind c = [] \<or> hf_kind c = ''default''"

definition compile_mode :: "string \<Rightarrow> rule_error + logical_mode" where
  "compile_mode m =
     (if m = ''and'' then Inr And else if m = ''or'' then Inr Or else Inl (UnknownLogicalMode m))"

fun headless_compile :: "headless_rule_config \<Rightarrow> rule_error + headless_rule" where
  "headless_compile (HeadlessRuleConfig c rules) =
     (if is_default_kind c then
        and_then (from_headless c) (\<lambda>m.
        and_then (ensure (\<not> matcher_is_empty m) NoMatchConditions) (\<lambda>_. Inr (HDefault m)))
      else if hf_kind c = ''logical'' then
        and_then (ensure (rules \<noteq> []) EmptyLogicalRule) (\<lambda>_.
        and_then (compile_mode (hf_mode c)) (\<lambda>mode.
        and_then (try_map headless_compile rules) (\<lambda>rs. Inr (HLogical mode rs (hf_invert c)))))
      else Inl (UnsupportedHeadlessType (hf_kind c)))"

section \<open>Matching\<close>

fun str_contains :: "string \<Rightarrow> string \<Rightarrow> bool" where
  "str_contains [] n = (n = [])"
| "str_contains (c # h) n = (prefix n (c # h) \<or> str_contains h n)"

definition suffix_matches :: "string \<Rightarrow> string \<Rightarrow> bool" where
  "suffix_matches h v \<longleftrightarrow>
     (if prefix ''.'' v then suffix v h else h = v \<or> suffix (CHR ''.'' # v) h)"

definition domain_matches :: "rule_matcher \<Rightarrow> string \<Rightarrow> bool" where
  "domain_matches m h \<longleftrightarrow>
     m_domains m = [] \<and> m_domain_suffixes m = [] \<and> m_domain_keywords m = []
     \<or> h \<in> set (m_domains m)
     \<or> (\<exists>v \<in> set (m_domain_suffixes m). suffix_matches h v)
     \<or> (\<exists>v \<in> set (m_domain_keywords m). str_contains h v)"

definition matches_base :: "rule_matcher \<Rightarrow> session \<Rightarrow> bool" where
  "matches_base m s =
     (let source = map_option normalize_socket_addr (s_source s);
          destination_ip = parse_ip (host (s_destination s));
          h = to_ascii_lowercase (host (s_destination s))
      in (m_inbounds m = [] \<or> s_inbound s \<in> set (m_inbounds m))
         \<and> (m_networks m = [] \<or> s_network s \<in> set (m_networks m))
         \<and> (m_users m = [] \<or> (\<exists>user \<in> set_option (s_user s). user \<in> set (m_users m)))
         \<and> domain_matches m h
         \<and> (m_source_cidrs m = []
            \<or> (\<exists>ip \<in> set_option (source_ip s). \<exists>c \<in> set (m_source_cidrs m). cidr_contains c ip))
         \<and> (case m_source_private m of None \<Rightarrow> True
            | Some expected \<Rightarrow> (\<exists>a \<in> set_option source. is_private (sock_ip a) = expected))
         \<and> (m_destination_cidrs m = []
            \<or> (\<exists>ip \<in> set_option destination_ip. \<exists>c \<in> set (m_destination_cidrs m). cidr_contains c ip))
         \<and> (case m_destination_private m of None \<Rightarrow> True
            | Some expected \<Rightarrow> (\<exists>ip \<in> set_option destination_ip. is_private ip = expected))
         \<and> (port_matcher_is_empty (m_source_ports m)
            \<or> (\<exists>a \<in> set_option source. port_matcher_contains (m_source_ports m) (sock_port a)))
         \<and> (port_matcher_is_empty (m_destination_ports m)
            \<or> port_matcher_contains (m_destination_ports m) (port (s_destination s))))"

definition matches_without_sets :: "rule_matcher \<Rightarrow> session \<Rightarrow> bool" where
  "matches_without_sets m s \<longleftrightarrow> matches_base m s \<noteq> m_invert m"

fun headless_matches :: "headless_rule \<Rightarrow> session \<Rightarrow> bool" where
  "headless_matches (HDefault m) s = matches_without_sets m s"
| "headless_matches (HLogical mode rules invert) s =
     ((case mode of
         And \<Rightarrow> list_all (\<lambda>r. headless_matches r s) rules
       | Or \<Rightarrow> list_ex (\<lambda>r. headless_matches r s) rules) \<noteq> invert)"

text \<open>A compiled rule-set is the list of its rules; it matches when one of them does.\<close>

type_synonym compiled_rule_set = "headless_rule list"

definition rule_set_matches :: "compiled_rule_set \<Rightarrow> session \<Rightarrow> bool" where
  "rule_set_matches rs s = list_ex (\<lambda>r. headless_matches r s) rs"

definition matcher_matches :: "rule_matcher \<Rightarrow> (string \<rightharpoonup> compiled_rule_set) \<Rightarrow> session \<Rightarrow> bool" where
  "matcher_matches m sets s =
     (let matched = matches_base m s;
          matched = (if m_rule_sets m = [] then matched
                     else matched \<and> (\<exists>tag \<in> set (m_rule_sets m).
                       \<exists>rs \<in> set_option (sets tag). rule_set_matches rs s))
      in matched \<noteq> m_invert m)"

section \<open>Suffixes are label suffixes\<close>

lemma split_on_append: "split_on c (a @ c # b) = split_on c a @ split_on c b"
  by (induction a) (auto split: list.splits)

lemma join_split: "join_sep [c] (split_on c s) = s"
proof (induction s)
  case (Cons x s)
  then show ?case by (cases "split_on c s") (auto simp: join_sep_Cons)
qed simp

lemma join_append: "xs \<noteq> [] \<Longrightarrow> ys \<noteq> [] \<Longrightarrow> join_sep sep (xs @ ys) = join_sep sep xs @ sep @ join_sep sep ys"
  by (induction xs) (auto simp: join_sep_Cons)

lemma split_on_inject: "split_on c a = split_on c b \<longleftrightarrow> a = b"
  by (metis join_split)

lemma dot_suffix_labels:
  "suffix (CHR ''.'' # v) h \<longleftrightarrow> strict_suffix (split_on (CHR ''.'') v) (split_on (CHR ''.'') h)"
proof
  assume "suffix (CHR ''.'' # v) h"
  then obtain p where "h = p @ CHR ''.'' # v" by (auto simp: suffix_def)
  then show "strict_suffix (split_on (CHR ''.'') v) (split_on (CHR ''.'') h)"
    by (auto simp: split_on_append strict_suffix_def suffix_def)
next
  assume "strict_suffix (split_on (CHR ''.'') v) (split_on (CHR ''.'') h)"
  then obtain xs where xs: "split_on (CHR ''.'') h = xs @ split_on (CHR ''.'') v" "xs \<noteq> []"
    by (auto simp: strict_suffix_def suffix_def)
  then have "h = join_sep ''.'' xs @ CHR ''.'' # v"
    using join_split [of "CHR ''.''" h] join_split [of "CHR ''.''" v]
      join_append [of xs "split_on (CHR ''.'') v" "''.''"] by simp
  then show "suffix (CHR ''.'' # v) h" by (auto simp: suffix_def)
qed

lemma suffix_matches_labels_lemma:
  "\<not> prefix ''.'' v \<Longrightarrow>
   suffix_matches h v \<longleftrightarrow> suffix (split_on (CHR ''.'') v) (split_on (CHR ''.'') h)"
  by (auto simp: suffix_matches_def dot_suffix_labels strict_suffix_def split_on_inject)

section \<open>A mapped source is its IPv4 source\<close>

definition normal_source :: "session \<Rightarrow> session" where
  "normal_source s = s\<lparr>s_source := map_option normalize_socket_addr (s_source s)\<rparr>"

lemma normal_source_simps [simp]:
  "s_source (normal_source s) = map_option normalize_socket_addr (s_source s)"
  "s_destination (normal_source s) = s_destination s"
  "s_network (normal_source s) = s_network s"
  "s_inbound (normal_source s) = s_inbound s"
  "s_user (normal_source s) = s_user s"
  by (simp_all add: normal_source_def)

lemma map_option_normalize [simp]:
  "map_option normalize_socket_addr (map_option normalize_socket_addr a)
    = map_option normalize_socket_addr a"
  by (cases a) simp_all

lemma source_ip_normal [simp]: "source_ip (normal_source s) = source_ip s"
  by (simp add: source_ip_def)

lemma matches_base_normal [simp]: "matches_base m (normal_source s) = matches_base m s"
  by (simp only: matches_base_def source_ip_normal normal_source_simps map_option_normalize)

lemma headless_matches_normal [simp]: "headless_matches r (normal_source s) = headless_matches r s"
proof (induction r)
  case (HLogical mode rules invert)
  then show ?case by (cases mode) (simp_all add: list_all_iff list_ex_iff)
qed (simp add: matches_without_sets_def)

lemma matcher_matches_normal: "matcher_matches m sets (normal_source s) = matcher_matches m sets s"
  by (simp add: matcher_matches_def rule_set_matches_def)

section \<open>A compiled condition accepts what its text says\<close>

lemma str_contains_iff: "str_contains h n \<longleftrightarrow> sublist n h"
  by (induction h) (auto simp: sublist_Cons_right)

lemma compiled_cidrs_contains:
  assumes "compile_cidrs texts = Inr cs"
  shows "(\<exists>c \<in> set cs. cidr_contains c a)
    \<longleftrightarrow> (\<exists>t \<in> set texts. \<exists>c. parse_cidr t = Inr c \<and> cidr_contains c a)"
  using try_map_set [OF assms [unfolded compile_cidrs_def]] by simp blast

text \<open>A compiled headless rule always has a condition, at every level of nesting.\<close>

fun conditions_ok :: "headless_rule \<Rightarrow> bool" where
  "conditions_ok (HDefault m) \<longleftrightarrow> \<not> matcher_is_empty m"
| "conditions_ok (HLogical mode rules invert) \<longleftrightarrow> rules \<noteq> [] \<and> list_all conditions_ok rules"

lemma headless_compile_ok: "headless_compile c = Inr r \<Longrightarrow> conditions_ok r"
proof (induction c arbitrary: r rule: headless_compile.induct)
  case (1 c rules)
  show ?case
  proof (cases "is_default_kind c")
    case True
    with "1.prems" show ?thesis by auto
  next
    case False
    with "1.prems" obtain mode rs where logical: "hf_kind c = ''logical''" "rules \<noteq> []"
      "try_map headless_compile rules = Inr rs" "r = HLogical mode rs (hf_invert c)"
      by (auto split: if_splits)
    have "conditions_ok x" if "x \<in> set rs" for x
    proof -
      from that logical(3) obtain y where "y \<in> set rules" "headless_compile y = Inr x"
        using try_map_set [of headless_compile rules rs x] by blast
      with "1.IH" False logical(1) show ?thesis by auto
    qed
    with logical show ?thesis by (auto simp: list_all_iff dest: try_map_length)
  qed
qed

section \<open>Properties\<close>

text \<open>A domain suffix without a leading dot matches a host exactly when the labels of the
  suffix are the last labels of the host: \<open>example.com\<close> matches itself and its subdomains but
  never \<open>badexample.com\<close>.\<close>

theorem suffix_matches_labels:
  assumes "\<not> prefix ''.'' v"
  shows "suffix_matches h v \<longleftrightarrow> suffix (split_on (CHR ''.'') v) (split_on (CHR ''.'') h)"
  by (rule suffix_matches_labels_lemma [OF assms])

theorem suffix_matches_labels_witness:
  "\<not> suffix_matches ''badexample.com'' ''example.com''"
  using suffix_matches_labels [of "''example.com''" "''badexample.com''"]
  by (simp add: suffix_def Cons_eq_append_conv)

text \<open>Rule matching depends on the peer only through its normalised address. A dual-stack
  listener that reports an IPv4 peer as an IPv4-mapped IPv6 address gets the same decision from
  every rule as the plain IPv4 peer.\<close>

theorem matches_mapped_source:
  assumes "s_source s = Some (SockV6 a p f scope)" and "to_ipv4_mapped a = Some ip"
  shows "matcher_matches m sets s = matcher_matches m sets (s\<lparr>s_source := Some (SockV4 ip p)\<rparr>)"
proof -
  have "normal_source s = normal_source (s\<lparr>s_source := Some (SockV4 ip p)\<rparr>)"
    using assms by (simp add: normal_source_def new_socket_addr_def)
  then show ?thesis by (metis matcher_matches_normal)
qed

theorem matches_mapped_source_witness:
  "\<forall>m. matcher_matches m (\<lambda>_. None)
      (session_inbound Tcp (SockV6 0xFFFF01020304 80 0 0) \<lparr>host = ''a.org'', port = 443\<rparr> ''in'' ''socks'' None)
    = matcher_matches m (\<lambda>_. None)
      (session_inbound Tcp (SockV4 0x01020304 80) \<lparr>host = ''a.org'', port = 443\<rparr> ''in'' ''socks'' None)"
  using matches_mapped_source
    [of "session_inbound Tcp (SockV6 0xFFFF01020304 80 0 0) \<lparr>host = ''a.org'', port = 443\<rparr> ''in'' ''socks'' None"
        "0xFFFF01020304" 80 0 0 "0x01020304" _ "\<lambda>_. None"]
  by (simp add: to_ipv4_mapped_def session_inbound_def)

end
