(* ===== verification/Srs_Domain.thy ===== *)
theory Srs_Domain
  imports Srs_Reader Rule_Matcher "HOL-Library.List_Lexorder" "HOL-Library.Char_ord"
begin

text \<open>
  The domain matcher of a binary rule-set (\<open>read_domain_matcher\<close> of \<open>srs.rs\<close>): a trie in
  a succinct level order, the keys on its paths, and the exact domains and sfx the keys
  stand for.
\<close>

section \<open>The trie\<close>

definition get_bit :: "u64 list \<Rightarrow> nat \<Rightarrow> bool option" where
  "get_bit ws i = (if i div 64 < length ws then Some (bit (ws ! (i div 64)) (i mod 64)) else None)"

text \<open>
  The inner loop reads the children of one node: a zero bit is a child with the next label,
  a one bit ends the node. The state is the bit index and the label index.
\<close>

function read_node ::
    "u64 list \<Rightarrow> bytes \<Rightarrow> (u8 \<times> nat) list \<Rightarrow> nat \<Rightarrow> nat \<Rightarrow> srs_error + ((u8 \<times> nat) list \<times> nat \<times> nat)" where
  "read_node bitmap labels node bit_index label_index =
     (case get_bit bitmap bit_index of
        None \<Rightarrow> Inl InvalidBitmap
      | Some True \<Rightarrow> Inr (node, Suc bit_index, label_index)
      | Some False \<Rightarrow>
          if label_index < length labels
          then read_node bitmap labels (node @ [(labels ! label_index, Suc label_index)])
                 (Suc bit_index) (Suc label_index)
          else Inl InvalidLabels)"
  by pat_completeness auto
termination
  by (relation "measure (\<lambda>(_, labels, _, _, i). length labels - i)") auto

declare read_node.simps [simp del]

fun read_nodes ::
    "u64 list \<Rightarrow> bytes \<Rightarrow> nat \<Rightarrow> nat \<Rightarrow> nat \<Rightarrow> srs_error + ((u8 \<times> nat) list list \<times> nat)" where
  "read_nodes bitmap labels 0 bit_index label_index = Inr ([], label_index)"
| "read_nodes bitmap labels (Suc n) bit_index label_index =
     and_then (read_node bitmap labels [] bit_index label_index) (\<lambda>(node, bit_index, label_index).
     and_then (read_nodes bitmap labels n bit_index label_index) (\<lambda>(nodes, label_index).
     Inr (node # nodes, label_index)))"

text \<open>
  The walk over the trie. It goes down only while the key is short enough, which bounds the
  recursion whatever the trie is.
\<close>

function collect_domain_keys ::
    "nat \<Rightarrow> (u8 \<times> nat) list list \<Rightarrow> u64 list \<Rightarrow> bytes \<Rightarrow> bytes list \<Rightarrow> srs_error + bytes list" where
  "collect_domain_keys node children leaves current keys =
     (if length current \<le> MAX_DOMAIN_KEY then
        try_fold
          (\<lambda>keys (label, child).
             if child < length children
             then collect_domain_keys child children leaves (current @ [label]) keys
             else Inl InvalidChild)
          (if get_bit leaves node = Some True then keys @ [current] else keys)
          (children ! node)
      else Inl KeyTooLong)"
  by pat_completeness auto
termination
  by (relation "measure (\<lambda>(_, _, _, current, _). Suc MAX_DOMAIN_KEY - length current)") auto

declare collect_domain_keys.simps [simp del]

definition read_trie :: "((u8 \<times> nat) list list \<times> u64 list) reader" where
  "read_trie bs =
     and_then (read_u64s bs) (\<lambda>(leaves, bs).
     and_then (read_u64s bs) (\<lambda>(label_bitmap, bs).
     and_then (read_bytes bs) (\<lambda>(labels, bs).
     let node_count = length labels + 1 in
     and_then (ensure (length leaves * 64 \<ge> node_count) InvalidLeaves) (\<lambda>_.
     and_then (read_nodes label_bitmap labels node_count 0 0) (\<lambda>(children, label_index).
     and_then (ensure (label_index = length labels) InvalidTree) (\<lambda>_.
     Inr ((children, leaves), bs)))))))"

section \<open>The trie is a tree over the labels\<close>

text \<open>
  The children of the nodes, in order, are the nodes after the root in order, each under the
  label of its own index.
\<close>

definition labelled_from :: "bytes \<Rightarrow> nat \<Rightarrow> nat \<Rightarrow> (u8 \<times> nat) list" where
  "labelled_from labels i j = map (\<lambda>k. (labels ! k, Suc k)) [i..<j]"

lemma labelled_append:
  "i \<le> j \<Longrightarrow> j \<le> k \<Longrightarrow> labelled_from labels i j @ labelled_from labels j k = labelled_from labels i k"
  using upt_add_eq_append [of i j "k - j"] by (simp add: labelled_from_def flip: map_append)

lemma read_node_bit:
  "get_bit bitmap b = None \<Longrightarrow> read_node bitmap labels node b i = Inl InvalidBitmap"
  "get_bit bitmap b = Some True \<Longrightarrow> read_node bitmap labels node b i = Inr (node, Suc b, i)"
  "get_bit bitmap b = Some False \<Longrightarrow> read_node bitmap labels node b i =
     (if i < length labels
      then read_node bitmap labels (node @ [(labels ! i, Suc i)]) (Suc b) (Suc i)
      else Inl InvalidLabels)"
  by (subst read_node.simps, simp)+

lemma read_node_labels:
  "read_node bitmap labels node b i = Inr (node', b', j) \<Longrightarrow> i \<le> length labels \<Longrightarrow>
   i \<le> j \<and> j \<le> length labels \<and> node' = node @ labelled_from labels i j"
proof (induction bitmap labels node b i rule: read_node.induct)
  case (1 bitmap labels node b i)
  consider "get_bit bitmap b = None" | "get_bit bitmap b = Some True" | (child) "get_bit bitmap b = Some False"
    by (cases "get_bit bitmap b") auto
  then show ?case
  proof cases
    case child
    with "1.prems"(1) have lt: "i < length labels"
      and rec: "read_node bitmap labels (node @ [(labels ! i, Suc i)]) (Suc b) (Suc i) = Inr (node', b', j)"
      by (simp_all add: read_node_bit split: if_splits)
    from "1.IH" [OF child _ lt rec] lt have IH: "Suc i \<le> j" "j \<le> length labels"
      "node' = (node @ [(labels ! i, Suc i)]) @ labelled_from labels (Suc i) j" by auto
    moreover have "labelled_from labels i j = (labels ! i, Suc i) # labelled_from labels (Suc i) j"
      using IH(1) by (simp add: labelled_from_def upt_conv_Cons)
    ultimately show ?thesis by simp
  qed (use "1.prems" in \<open>auto simp: read_node_bit labelled_from_def\<close>)
qed

lemma read_nodes_labels:
  "(read_nodes bitmap labels n b i :: srs_error + _) = Inr (nodes, j) \<Longrightarrow> i \<le> length labels \<Longrightarrow>
   length nodes = n \<and> i \<le> j \<and> j \<le> length labels \<and> concat nodes = labelled_from labels i j"
proof (induction n arbitrary: b i nodes)
  case 0
  then show ?case by (simp add: labelled_from_def)
next
  case (Suc n)
  from Suc.prems(1) obtain node b' k rest where
    node: "(read_node bitmap labels [] b i :: srs_error + _) = Inr (node, b', k)"
    and rest: "(read_nodes bitmap labels n b' k :: srs_error + _) = Inr (rest, j)"
    and nodes: "nodes = node # rest" by auto
  from read_node_labels [OF node Suc.prems(2)] have k: "i \<le> k" "k \<le> length labels"
    "node = labelled_from labels i k" by auto
  from Suc.IH [OF rest k(2)] k nodes show ?case by (auto simp: labelled_append)
qed

lemma read_trie_shape:
  assumes "read_trie bs = Inr ((children, leaves), rest)"
  obtains labels where "length children = Suc (length labels)"
    and "concat children = labelled_from labels 0 (length labels)"
    and "Suc (length labels) \<le> length leaves * 64"
  using assms by (auto simp: read_trie_def Let_def simp del: read_nodes.simps dest!: read_nodes_labels)

lemma read_trie_children:
  assumes "read_trie bs = Inr ((children, leaves), rest)" and "n < length children"
    and "(label, child) \<in> set (children ! n)"
  shows "child < length children"
proof -
  from read_trie_shape [OF assms(1)] obtain labels where
    labels: "length children = Suc (length labels)" "concat children = labelled_from labels 0 (length labels)" .
  from assms(2,3) have "(label, child) \<in> set (concat children)" by auto
  with labels show ?thesis by (auto simp: labelled_from_def)
qed

lemma read_trie_rest: "read_trie bs = Inr (x, rest) \<Longrightarrow> length rest < length bs"
  by (fastforce simp: read_trie_def Let_def
      dest!: consumesD [OF read_u64s_consumes] consumesD [OF read_bytes_consumes])

section \<open>The walk collects the accepted paths\<close>

inductive reaches :: "(u8 \<times> nat) list list \<Rightarrow> nat \<Rightarrow> bytes \<Rightarrow> nat \<Rightarrow> bool" for children where
  here: "reaches children n [] n"
| down: "(label, child) \<in> set (children ! n) \<Longrightarrow> reaches children child key m \<Longrightarrow>
    reaches children n (label # key) m"

inductive_cases reaches_NilE: "reaches children n [] m"
inductive_cases reaches_ConsE: "reaches children n (label # key) m"
inductive_simps reaches_Nil [simp]: "reaches children n [] m"
inductive_simps reaches_Cons [simp]: "reaches children n (label # key) m"

definition accepted :: "(u8 \<times> nat) list list \<Rightarrow> u64 list \<Rightarrow> nat \<Rightarrow> bytes set" where
  "accepted children leaves n = {key. \<exists>m. reaches children n key m \<and> get_bit leaves m = Some True}"

lemma accepted_unfold:
  "accepted children leaves n =
     (if get_bit leaves n = Some True then {[]} else {})
     \<union> (\<Union>(label, child) \<in> set (children ! n). (#) label ` accepted children leaves child)"
proof (rule set_eqI)
  fix key
  show "key \<in> accepted children leaves n \<longleftrightarrow> key \<in> (if get_bit leaves n = Some True then {[]} else {})
     \<union> (\<Union>(label, child) \<in> set (children ! n). (#) label ` accepted children leaves child)"
    by (cases key) (auto simp: accepted_def)
qed

lemma collect_keys_set:
  "collect_domain_keys n children leaves current keys = Inr out \<Longrightarrow>
   set out = set keys \<union> (@) current ` accepted children leaves n"
proof (induction n children leaves current keys arbitrary: out rule: collect_domain_keys.induct)
  case (1 n children leaves current keys)
  let ?keys = "if get_bit leaves n = Some True then keys @ [current] else keys"
  let ?G = "\<lambda>(label, child). (@) (current @ [label]) ` accepted children leaves child"
  from "1.prems" have short: "length current \<le> MAX_DOMAIN_KEY"
    and fold: "try_fold (\<lambda>keys (label, child). if child < length children
        then collect_domain_keys child children leaves (current @ [label]) keys
        else Inl InvalidChild) ?keys (children ! n) = Inr out"
    by (subst (asm) collect_domain_keys.simps, simp split: if_splits)+
  have "set out = set ?keys \<union> (\<Union>x \<in> set (children ! n). ?G x)"
    by (rule try_fold_union [OF fold]) (auto dest!: "1.IH" [OF short] split: if_splits)
  then show ?case
    by (subst accepted_unfold) (auto simp: image_Un image_UN image_image split_def split: if_splits)
qed

text \<open>On a trie that was read, the only failure of the walk is a key that is too long.\<close>

lemma collect_keys_error:
  assumes "collect_domain_keys n children leaves current keys = Inl e"
    and "read_trie bs = Inr ((children, leaves), rest)" and "n < length children"
  shows "e = KeyTooLong
    \<and> (\<exists>key m. reaches children n key m \<and> MAX_DOMAIN_KEY < length current + length key)"
  using assms
proof (induction n children leaves current keys rule: collect_domain_keys.induct)
  case (1 n children leaves current keys)
  show ?case
  proof (cases "length current \<le> MAX_DOMAIN_KEY")
    case False
    with "1.prems"(1) have "e = KeyTooLong" by (simp add: collect_domain_keys.simps)
    moreover have "reaches children n [] n" by simp
    ultimately show ?thesis using False by (metis add_0_right list.size(3) not_le)
  next
    case True
    with "1.prems"(1) obtain ks label child where child: "(label, child) \<in> set (children ! n)"
      and f: "(if child < length children
        then collect_domain_keys child children leaves (current @ [label]) ks
        else Inl InvalidChild) = Inl e"
      by (subst (asm) collect_domain_keys.simps) (fastforce dest!: try_fold_Inl)
    have lt: "child < length children" by (rule read_trie_children [OF "1.prems"(2,3) child])
    with f have "collect_domain_keys child children leaves (current @ [label]) ks = Inl e" by simp
    from "1.IH" [OF True lt this "1.prems"(2) lt] child obtain key m where
      "e = KeyTooLong" "reaches children child key m"
      "MAX_DOMAIN_KEY < length (current @ [label]) + length key" by blast
    with child show ?thesis by (intro conjI exI [of _ "label # key"] exI [of _ m]) auto
  qed
qed

section \<open>From keys to domains\<close>

definition key_text :: "bytes \<Rightarrow> srs_error + string" where
  "key_text key =
     (case utf8_chars key of
        None \<Rightarrow> Inl InvalidKeyUtf8
      | Some chars \<Rightarrow> Inr (bytes_chars (concat (rev chars))))"

record domain_sets =
  ds_exact :: "string set"
  ds_prefix :: "string set"
  ds_suffix :: "string set"

definition add_key :: "domain_sets \<Rightarrow> bytes \<Rightarrow> srs_error + domain_sets" where
  "add_key d key =
     and_then (key_text key) (\<lambda>reversed.
       case strip_prefix reversed [CHR 0x0D] of
         Some v \<Rightarrow> Inr (d\<lparr>ds_prefix := insert v (ds_prefix d)\<rparr>)
       | None \<Rightarrow>
           (case strip_prefix reversed [CHR 0x0A] of
              Some v \<Rightarrow> Inr (d\<lparr>ds_suffix := insert v (ds_suffix d)\<rparr>)
            | None \<Rightarrow> Inr (d\<lparr>ds_exact := insert reversed (ds_exact d)\<rparr>)))"

definition fold_prefix :: "string set \<times> string set \<Rightarrow> string \<Rightarrow> string set \<times> string set" where
  "fold_prefix es v =
     (case es of (exact, sfx) \<Rightarrow>
        case strip_prefix v ''.'' of
          Some root \<Rightarrow>
            if root \<in> exact then (exact - {root}, insert root sfx)
            else (exact, insert v sfx)
        | None \<Rightarrow> (exact, insert v sfx))"

text \<open>
  The parameter \<open>iter\<close> is the order in which the hash set of prefixes is walked; the code
  relies on nothing but that it lists the elements once each.
\<close>

definition dump_domain_keys ::
    "(string set \<Rightarrow> string list) \<Rightarrow> bytes list \<Rightarrow> srs_error + (string list \<times> string list)" where
  "dump_domain_keys iter keys =
     and_then (try_fold add_key \<lparr>ds_exact = {}, ds_prefix = {}, ds_suffix = {}\<rparr> keys) (\<lambda>d.
       let (exact, sfx) = foldl fold_prefix (ds_exact d, ds_suffix d) (iter (ds_prefix d))
       in Inr (sorted_list_of_set exact, sorted_list_of_set sfx))"

definition lists_sets :: "('a set \<Rightarrow> 'a list) \<Rightarrow> bool" where
  "lists_sets iter \<longleftrightarrow> (\<forall>A. finite A \<longrightarrow> set (iter A) = A \<and> distinct (iter A))"

definition read_domain_matcher ::
    "(string set \<Rightarrow> string list) \<Rightarrow> (string list \<times> string list) reader" where
  "read_domain_matcher iter bs =
     and_then (srs_u8 bs) (\<lambda>(set_version, bs).
     and_then (ensure (set_version = 0) (UnsupportedMatcherVersion set_version)) (\<lambda>_.
     and_then (read_trie bs) (\<lambda>((children, leaves), bs).
     and_then (collect_domain_keys 0 children leaves [] []) (\<lambda>keys.
     and_then (dump_domain_keys iter keys) (\<lambda>r. Inr (r, bs))))))"

lemma read_domain_matcher_consumes: "consumes (read_domain_matcher iter)"
  by (fastforce simp: consumes_def read_domain_matcher_def dest: read_trie_rest)

section \<open>What the dumped domains mean\<close>

text \<open>The outcome of the loop over the prefixes, whatever order it takes.\<close>

definition merged_exact :: "domain_sets \<Rightarrow> string set" where
  "merged_exact d = ds_exact d - {r. CHR ''.'' # r \<in> ds_prefix d}"

definition merged_suffix :: "domain_sets \<Rightarrow> string set" where
  "merged_suffix d = ds_suffix d
     \<union> {r \<in> ds_exact d. CHR ''.'' # r \<in> ds_prefix d}
     \<union> {v \<in> ds_prefix d. \<forall>r. v = CHR ''.'' # r \<longrightarrow> r \<notin> ds_exact d}"

lemma strip_dot: "strip_prefix v ''.'' = (case v of [] \<Rightarrow> None | c # r \<Rightarrow> if c = CHR ''.'' then Some r else None)"
  by (cases v) (auto simp: strip_prefix_def)

lemma fold_prefix_simps:
  "fold_prefix (E, S) (CHR ''.'' # r)
    = (if r \<in> E then (E - {r}, insert r S) else (E, insert (CHR ''.'' # r) S))"
  "\<nexists>r. v = CHR ''.'' # r \<Longrightarrow> fold_prefix (E, S) v = (E, insert v S)"
  by (auto simp: fold_prefix_def strip_dot split: list.splits)

lemma fold_prefixes:
  "distinct ps \<Longrightarrow> foldl fold_prefix (E, S) ps
    = (E - {r. CHR ''.'' # r \<in> set ps},
       S \<union> {r \<in> E. CHR ''.'' # r \<in> set ps} \<union> {v \<in> set ps. \<forall>r. v = CHR ''.'' # r \<longrightarrow> r \<notin> E})"
proof (induction ps rule: rev_induct)
  case (snoc v ps)
  let ?E = "E - {r. CHR ''.'' # r \<in> set ps}"
  let ?S = "S \<union> {r \<in> E. CHR ''.'' # r \<in> set ps} \<union> {v \<in> set ps. \<forall>r. v = CHR ''.'' # r \<longrightarrow> r \<notin> E}"
  from snoc have IH: "foldl fold_prefix (E, S) ps = (?E, ?S)" and new: "v \<notin> set ps" by auto
  show ?case
  proof (cases "\<exists>r. v = CHR ''.'' # r")
    case True
    then obtain r where v: "v = CHR ''.'' # r" ..
    with new have "r \<in> ?E \<longleftrightarrow> r \<in> E" by simp
    with IH v show ?thesis by (auto simp: fold_prefix_simps(1))
  next
    case False
    with IH show ?thesis by (auto simp: fold_prefix_simps(2))
  qed
qed simp

lemma dump_domain_keys_eq:
  assumes "lists_sets iter"
  shows "dump_domain_keys iter keys =
    and_then (try_fold add_key \<lparr>ds_exact = {}, ds_prefix = {}, ds_suffix = {}\<rparr> keys) (\<lambda>d.
      Inr (sorted_list_of_set (merged_exact d), sorted_list_of_set (merged_suffix d)))"
proof -
  have fin: "finite (ds_prefix d)"
    if "try_fold add_key \<lparr>ds_exact = {}, ds_prefix = {}, ds_suffix = {}\<rparr> keys = Inr d" for d
    using that by (rule try_fold_invariant) (auto simp: add_key_def split: option.splits)
  show ?thesis
  proof (cases "try_fold add_key \<lparr>ds_exact = {}, ds_prefix = {}, ds_suffix = {}\<rparr> keys")
    case (Inr d)
    from fin [OF Inr] assms have "set (iter (ds_prefix d)) = ds_prefix d" "distinct (iter (ds_prefix d))"
      by (auto simp: lists_sets_def)
    with Inr show ?thesis
      by (simp add: dump_domain_keys_def fold_prefixes merged_exact_def merged_suffix_def)
  qed (simp add: dump_domain_keys_def)
qed

text \<open>
  A host is matched by the dumped lists exactly when a stored key covers it, provided the
  keys are as the writer of the format makes them: a prefix key begins with a dot and an
  exact domain does not.
\<close>

definition keys_cover :: "domain_sets \<Rightarrow> string \<Rightarrow> bool" where
  "keys_cover d h \<longleftrightarrow> h \<in> ds_exact d \<or> (\<exists>v \<in> ds_prefix d. suffix v h) \<or> (\<exists>v \<in> ds_suffix d. suffix_matches h v)"

lemma suffix_matches_dot [simp]: "suffix_matches h (CHR ''.'' # r) \<longleftrightarrow> suffix (CHR ''.'' # r) h"
  by (simp add: suffix_matches_def)

lemma merged_cover:
  assumes "\<And>v. v \<in> ds_prefix d \<Longrightarrow> \<exists>r. v = CHR ''.'' # r"
    and "\<And>v. v \<in> ds_exact d \<Longrightarrow> \<not> prefix ''.'' v"
  shows "h \<in> merged_exact d \<or> (\<exists>v \<in> merged_suffix d. suffix_matches h v) \<longleftrightarrow> keys_cover d h"
proof
  have "prefix ''.'' v" if "v \<in> ds_prefix d" for v using assms(1) [OF that] by auto
  moreover assume "h \<in> merged_exact d \<or> (\<exists>v \<in> merged_suffix d. suffix_matches h v)"
  ultimately show "keys_cover d h"
    using assms(2)
    by (auto simp: keys_cover_def merged_exact_def merged_suffix_def suffix_matches_def split: if_splits)
next
  assume "keys_cover d h"
  then consider (exact) "h \<in> ds_exact d" | (pre) v where "v \<in> ds_prefix d" "suffix v h"
    | (suf) v where "v \<in> ds_suffix d" "suffix_matches h v"
    by (auto simp: keys_cover_def)
  then show "h \<in> merged_exact d \<or> (\<exists>v \<in> merged_suffix d. suffix_matches h v)"
  proof cases
    case exact
    show ?thesis
    proof (cases "CHR ''.'' # h \<in> ds_prefix d")
      case True
      with exact assms(2) [OF exact] have "h \<in> merged_suffix d" "suffix_matches h h"
        by (auto simp: merged_suffix_def suffix_matches_def)
      then show ?thesis by blast
    qed (use exact in \<open>simp add: merged_exact_def\<close>)
  next
    case pre
    with assms(1) obtain r where v: "v = CHR ''.'' # r" by blast
    show ?thesis
    proof (cases "r \<in> ds_exact d")
      case True
      with pre v assms(2) [OF True] have "r \<in> merged_suffix d" "suffix_matches h r"
        by (auto simp: merged_suffix_def suffix_matches_def)
      then show ?thesis by blast
    next
      case False
      with pre v have "v \<in> merged_suffix d" "suffix_matches h v" by (auto simp: merged_suffix_def)
      then show ?thesis by blast
    qed
  next
    case suf
    then show ?thesis by (auto simp: merged_suffix_def)
  qed
qed

section \<open>Properties\<close>

text \<open>C22: the keys read from the succinct trie of a domain matcher are exactly the paths from the root
  to a leaf node, and when they cannot be collected the only reason is a path longer than the
  4096 byte limit: on a trie that was read, the traversal terminates and never leaves it.\<close>

theorem collect_domain_keys_exact:
  assumes "read_trie bs = Inr ((children, leaves), rest)"
  shows "case collect_domain_keys 0 children leaves [] [] of
      Inr keys \<Rightarrow> set keys = {key. \<exists>m. reaches children 0 key m \<and> get_bit leaves m = Some True}
    | Inl e \<Rightarrow> e = KeyTooLong \<and> (\<exists>key m. reaches children 0 key m \<and> MAX_DOMAIN_KEY < length key)"
proof (cases "collect_domain_keys 0 children leaves [] []")
  case (Inl e)
  have "0 < length children" by (rule read_trie_shape [OF assms]) simp
  with collect_keys_error [OF Inl assms] Inl show ?thesis by simp
next
  case (Inr keys)
  then show ?thesis using collect_keys_set [OF Inr] by (simp add: accepted_def)
qed

theorem collect_domain_keys_exact_witness:
  "{key. \<exists>m. reaches [[(0x61, 1)], []] 0 key m \<and> get_bit [2] m = Some True} = {[0x61]}"
proof -
  have "read_trie [1, 0, 0, 0, 0, 0, 0, 0, 2, 1, 0, 0, 0, 0, 0, 0, 0, 6, 1, 0x61]
      = Inr (([[(0x61, 1)], []], [2]), [])" by code_simp
  note exact = collect_domain_keys_exact [OF this]
  have "collect_domain_keys 0 [[(0x61, 1)], []] [2] [] [] = Inr [[0x61]]" by code_simp
  with exact show ?thesis by (simp del: collect_domain_keys.simps)
qed

text \<open>The exact domains and suffixes of a domain matcher do not depend on the order in which the
  hash set of prefixes is iterated.\<close>

theorem dump_domain_keys_order:
  assumes "lists_sets iter" and "lists_sets iter'"
  shows "dump_domain_keys iter keys = dump_domain_keys iter' keys"
  using assms by (simp add: dump_domain_keys_eq)

theorem dump_domain_keys_order_witness:
  "dump_domain_keys (\<lambda>A. rev (sorted_list_of_set A)) [as_bytes ''moc''] = dump_domain_keys sorted_list_of_set [as_bytes ''moc'']"
  by (rule dump_domain_keys_order) (simp_all add: lists_sets_def)

text \<open>What a single key of the trie stands for: a prefix key covers every host that ends in it, a
  suffix key the hosts that match the suffix, any other key the host itself.\<close>

definition key_covers :: "string \<Rightarrow> string \<Rightarrow> bool" where
  "key_covers t h \<longleftrightarrow>
     (case t of
        [] \<Rightarrow> h = []
      | c # v \<Rightarrow> if c = CHR 0x0D then suffix v h else if c = CHR 0x0A then suffix_matches h v else h = t)"

lemma key_covers_iff:
  "key_covers t h \<longleftrightarrow>
     \<not> prefix [CHR 0x0D] t \<and> \<not> prefix [CHR 0x0A] t \<and> h = t
     \<or> (\<exists>v. t = CHR 0x0D # v \<and> suffix v h) \<or> (\<exists>v. t = CHR 0x0A # v \<and> suffix_matches h v)"
  by (auto simp: key_covers_def split: list.splits)

lemma strip_char: "strip_prefix t [c] = (if prefix [c] t then Some (tl t) else None)"
  by (cases t) (auto simp: strip_prefix_def)

lemma add_key_text:
  "key_text k = Inr t \<Longrightarrow> add_key d k = Inr
     (if prefix [CHR 0x0D] t then d\<lparr>ds_prefix := insert (tl t) (ds_prefix d)\<rparr>
      else if prefix [CHR 0x0A] t then d\<lparr>ds_suffix := insert (tl t) (ds_suffix d)\<rparr>
      else d\<lparr>ds_exact := insert t (ds_exact d)\<rparr>)"
  by (simp add: add_key_def strip_char)

lemma add_keys:
  "try_map key_text keys = Inr ts \<Longrightarrow>
   \<exists>d'. try_fold add_key d keys = Inr d'
    \<and> ds_exact d' = ds_exact d \<union> {t \<in> set ts. \<not> prefix [CHR 0x0D] t \<and> \<not> prefix [CHR 0x0A] t}
    \<and> ds_prefix d' = ds_prefix d \<union> {v. CHR 0x0D # v \<in> set ts}
    \<and> ds_suffix d' = ds_suffix d \<union> {v. CHR 0x0A # v \<in> set ts}"
proof (induction keys arbitrary: d ts)
  case (Cons k keys)
  from Cons.prems obtain t ts' where k: "key_text k = Inr t" and "try_map key_text keys = Inr ts'"
    and ts: "ts = t # ts'" by auto
  note IH = Cons.IH [OF this(2)]
  let ?d = "if prefix [CHR 0x0D] t then d\<lparr>ds_prefix := insert (tl t) (ds_prefix d)\<rparr>
      else if prefix [CHR 0x0A] t then d\<lparr>ds_suffix := insert (tl t) (ds_suffix d)\<rparr>
      else d\<lparr>ds_exact := insert t (ds_exact d)\<rparr>"
  from IH [of ?d] ts show ?case
    by (cases t) (auto simp: add_key_text [OF k] split: if_splits)
qed auto

text \<open>The domains and suffixes taken from the keys of a domain matcher mean what the keys mean.
  When the prefix keys start with a dot and the exact keys do not, as the writers of the format
  make them, the keys decode and a host matches the resulting domains or suffixes exactly when
  one of the keys covers it, although an exact domain and its dotted prefix are merged into one
  suffix.\<close>

theorem dump_domain_keys_cover:
  assumes "lists_sets iter" and "try_map key_text keys = Inr ts"
    and "\<forall>t \<in> set ts. prefix [CHR 0x0D, CHR ''.''] t \<or> prefix [CHR 0x0A] t
      \<or> \<not> prefix [CHR 0x0D] t \<and> \<not> prefix ''.'' t"
  shows "\<exists>domains sfx. dump_domain_keys iter keys = Inr (domains, sfx)
    \<and> (\<forall>h. h \<in> set domains \<or> (\<exists>v \<in> set sfx. suffix_matches h v) \<longleftrightarrow> (\<exists>t \<in> set ts. key_covers t h))"
proof -
  obtain d where d: "try_fold add_key \<lparr>ds_exact = {}, ds_prefix = {}, ds_suffix = {}\<rparr> keys = Inr d"
    and sets: "ds_exact d = {t \<in> set ts. \<not> prefix [CHR 0x0D] t \<and> \<not> prefix [CHR 0x0A] t}"
      "ds_prefix d = {v. CHR 0x0D # v \<in> set ts}" "ds_suffix d = {v. CHR 0x0A # v \<in> set ts}"
    using add_keys [OF assms(2), of "\<lparr>ds_exact = {}, ds_prefix = {}, ds_suffix = {}\<rparr>"] by auto
  have "finite {v. c # v \<in> set ts}" for c
    by (rule finite_subset [of _ "tl ` set ts"]) (auto intro: rev_image_eqI)
  then have fin: "finite (merged_exact d)" "finite (merged_suffix d)"
    by (auto simp: merged_exact_def merged_suffix_def sets)
  have "keys_cover d h \<longleftrightarrow> (\<exists>t \<in> set ts. key_covers t h)" for h
    unfolding keys_cover_def sets key_covers_iff by blast
  moreover have "h \<in> merged_exact d \<or> (\<exists>v \<in> merged_suffix d. suffix_matches h v) \<longleftrightarrow> keys_cover d h" for h
  proof (rule merged_cover)
    fix v
    assume "v \<in> ds_prefix d"
    then have "CHR 0x0D # v \<in> set ts" by (simp add: sets)
    from bspec [OF assms(3) this] show "\<exists>r. v = CHR ''.'' # r" by (cases v) auto
  next
    fix v
    assume "v \<in> ds_exact d"
    then have "v \<in> set ts" "\<not> prefix [CHR 0x0D] v" "\<not> prefix [CHR 0x0A] v" by (simp_all add: sets)
    with bspec [OF assms(3) this(1)] show "\<not> prefix ''.'' v" by (cases v) auto
  qed
  ultimately show ?thesis
    using dump_domain_keys_eq [OF assms(1), of keys] d fin by simp
qed

theorem dump_domain_keys_cover_witness:
  "\<exists>domains sfx. dump_domain_keys sorted_list_of_set [as_bytes ''gro.a'', as_bytes (''gro.a.'' @ [CHR 0x0D])]
      = Inr (domains, sfx)
    \<and> (\<forall>h. h \<in> set domains \<or> (\<exists>v \<in> set sfx. suffix_matches h v) \<longleftrightarrow> h = ''a.org'' \<or> suffix ''.a.org'' h)"
proof -
  let ?keys = "[as_bytes ''gro.a'', as_bytes (''gro.a.'' @ [CHR 0x0D])]"
  have "try_map key_text ?keys = Inr [''a.org'', CHR 0x0D # ''.a.org'']" by code_simp
  from dump_domain_keys_cover [OF _ this, of sorted_list_of_set] show ?thesis
    by (simp add: lists_sets_def key_covers_iff)
qed

end
