(* ===== verification/Srs_Ipset.thy ===== *)
theory Srs_Ipset
  imports Srs_Reader Rule_Matcher
begin

text \<open>
  The IP sets of a binary rule-set (\<open>read_ip_set\<close> of \<open>srs.rs\<close>): inclusive address ranges
  that are split into CIDR blocks. The code has the split twice, for \<open>u32\<close> and for \<open>u128\<close>;
  here it is one definition at any word length, used at both.
\<close>

section \<open>Splitting a range\<close>

definition trailing_zeros :: "'a::len word \<Rightarrow> nat" where
  "trailing_zeros w = length (takeWhile (\<lambda>i. \<not> bit w i) [0..<LENGTH('a)])"

definition block_end :: "'a::len word \<Rightarrow> nat \<Rightarrow> 'a word" where
  "block_end start host_bits =
     (if host_bits = LENGTH('a) then - 1 else start OR (push_bit host_bits 1 - 1))"

text \<open>
  The inner loop lowers \<open>host_bits\<close> until the block ends inside the range. It is entered
  with \<open>start \<le> end\<close> only, so that it stops at 0 at the latest (\<open>fit_bits_end\<close>).
\<close>

fun fit_bits :: "'a::len word \<Rightarrow> 'a word \<Rightarrow> nat \<Rightarrow> nat" where
  "fit_bits start stop 0 = 0"
| "fit_bits start stop (Suc k) =
     (if block_end start (Suc k) > stop then fit_bits start stop k else Suc k)"

lemma take_bit_trailing: "take_bit (trailing_zeros w) (w :: 'a::len word) = 0"
proof (rule bit_word_eqI)
  fix n
  have "\<not> bit w n" if n: "n < trailing_zeros w"
  proof -
    let ?p = "\<lambda>i. \<not> bit w i"
    let ?t = "takeWhile ?p [0..<LENGTH('a)]"
    have "?t ! n \<in> set ?t" using n by (intro nth_mem) (simp add: trailing_zeros_def)
    moreover have "?t ! n = n"
      using n takeWhile_nth [of n ?p "[0..<LENGTH('a)]"] length_takeWhile_le [of ?p "[0..<LENGTH('a)]"]
      by (simp add: trailing_zeros_def)
    ultimately show ?thesis by (auto dest: set_takeWhileD)
  qed
  then show "bit (take_bit (trailing_zeros w) w) n = bit 0 n" by (simp add: bit_take_bit_iff)
qed

lemma trailing_zeros_le: "trailing_zeros (w :: 'a::len word) \<le> LENGTH('a)"
  using length_takeWhile_le [of "\<lambda>i. \<not> bit w i" "[0..<LENGTH('a)]"] by (simp add: trailing_zeros_def)

definition aligned :: "'a::len word \<Rightarrow> nat \<Rightarrow> bool" where
  "aligned s k \<longleftrightarrow> k \<le> LENGTH('a) \<and> 2 ^ k dvd unat s"

lemma aligned_trailing:
  assumes "k \<le> trailing_zeros (w :: 'a::len word)"
  shows "aligned w k"
proof -
  have "unat (take_bit (trailing_zeros w) w) = 0" by (simp add: take_bit_trailing)
  then have "2 ^ trailing_zeros w dvd unat w"
    by (simp only: unsigned_take_bit_eq take_bit_eq_0_iff)
  then show ?thesis
    using assms trailing_zeros_le [of w] by (auto simp: aligned_def intro: power_le_dvd)
qed

lemma aligned_room:
  assumes "aligned (s :: 'a::len word) k"
  shows "unat s + 2 ^ k \<le> 2 ^ LENGTH('a)"
proof -
  from assms obtain m where m: "unat s = 2 ^ k * m" by (auto simp: aligned_def elim: dvdE)
  from assms have e: "(2::nat) ^ LENGTH('a) = 2 ^ k * 2 ^ (LENGTH('a) - k)"
    by (simp add: aligned_def flip: power_add)
  from unsigned_less [of s, where ?'a = nat] have "unat s < 2 ^ LENGTH('a)" by simp
  with m e have "m < 2 ^ (LENGTH('a) - k)" by simp
  then have "2 ^ k * Suc m \<le> (2::nat) ^ k * 2 ^ (LENGTH('a) - k)"
    by (intro mult_le_mono2) simp
  then show ?thesis using m e by simp
qed

lemma unat_block_end:
  assumes "aligned (s :: 'a::len word) k"
  shows "unat (block_end s k) = unat s + 2 ^ k - 1"
proof (cases "k = LENGTH('a)")
  case True
  with aligned_room [OF assms] have "unat s = 0" by simp
  with True show ?thesis by (simp add: block_end_def unsigned_minus_1_eq_mask mask_eq_exp_minus_1)
next
  case False
  from assms have "take_bit k (unat s) = 0" by (simp add: aligned_def take_bit_eq_0_iff)
  then have "unat s AND mask k = 0" by (simp add: take_bit_eq_mask)
  then have "unat s OR mask k = unat s + mask k" by (simp add: disjunctive_add_eq_or)
  moreover have "unat (mask k :: 'a word) = mask k"
    using assms by (intro bit_eqI) (auto simp: bit_simps aligned_def)
  then have "unat (s OR mask k) = unat s OR mask k" by (simp add: unsigned_or_eq)
  ultimately show ?thesis
    using False by (simp add: block_end_def mask_eq_exp_minus_1 push_bit_eq_mult)
qed

lemma block_end_ge: "aligned s k \<Longrightarrow> unat s \<le> unat (block_end s k)"
  by (simp add: unat_block_end Nat.le_diff_conv2 Suc_leI)

lemma fit_bits_le: "fit_bits s e k \<le> k"
  by (induction k) auto

lemma fit_bits_end:
  assumes "s \<le> e"
  shows "block_end s (fit_bits s e k) \<le> e"
  using assms by (induction k) (auto simp: block_end_def not_less)

lemma aligned_fit: "aligned s (fit_bits s e (trailing_zeros s))"
  by (rule aligned_trailing) (rule fit_bits_le)

lemma unat_Suc: "x \<noteq> - 1 \<Longrightarrow> unat (x + 1) = Suc (unat x)" for x :: "'a::len word"
  by (metis add.commute add_eq_0_iff unatSuc)

function range_blocks :: "'a::len word \<Rightarrow> 'a word \<Rightarrow> ('a word \<times> nat) list" where
  "range_blocks start stop =
     (let host_bits = fit_bits start stop (trailing_zeros start);
          e = block_end start host_bits
      in (start, host_bits) # (if e = - 1 \<or> e = stop then [] else range_blocks (e + 1) stop))"
  by pat_completeness auto

termination
proof (relation "measure (\<lambda>(s, _). 2 ^ LENGTH('a) - unat s)")
  fix s e :: "'a word" and k x
  assume k: "k = fit_bits s e (trailing_zeros s)" and x: "x = block_end s k"
    and "\<not> (x = - 1 \<or> x = e)"
  then have "unat (x + 1) = Suc (unat x)" by (simp add: unat_Suc)
  moreover have "unat s \<le> unat x"
    using block_end_ge [OF aligned_fit, of s e] k x by simp
  ultimately show "((x + 1, e), (s, e)) \<in> measure (\<lambda>(s, _). 2 ^ LENGTH('a) - unat s)"
    by (simp add: diff_less_mono2 le_imp_less_Suc)
qed simp

declare range_blocks.simps [simp del]

definition in_block :: "'a::len word \<times> nat \<Rightarrow> 'a word \<Rightarrow> bool" where
  "in_block b x \<longleftrightarrow> unat (fst b) div 2 ^ snd b = unat x div 2 ^ snd b"

lemma in_block_iff:
  assumes "aligned s k"
  shows "in_block (s, k) x \<longleftrightarrow> unat s \<le> unat x \<and> unat x \<le> unat (block_end s k)"
proof -
  from assms obtain m where m: "unat s = 2 ^ k * m" by (auto simp: aligned_def elim: dvdE)
  have "m = unat x div 2 ^ k \<longleftrightarrow> 2 ^ k * m \<le> unat x \<and> unat x < 2 ^ k * m + 2 ^ k"
    by (metis add.commute div_nat_eqI dividend_less_times_div mult.commute mult_Suc_right
        times_div_less_eq_dividend zero_less_numeral zero_less_power)
  moreover have "(a::nat) \<le> b + 2 ^ k - 1 \<longleftrightarrow> a < b + 2 ^ k" for a b
    by (metis Suc_pred' add_gr_0 less_Suc_eq_le zero_less_numeral zero_less_power)
  ultimately show ?thesis
    by (simp add: in_block_def unat_block_end [OF assms] m)
qed

text \<open>
  One round of the loop: an aligned block that ends inside the range, then the rest of the
  range, whose first address follows the block without wrap-around.
\<close>

lemma range_blocks_step:
  fixes s e :: "'a::len word"
  assumes "s \<le> e"
  obtains k where "aligned s k" "block_end s k \<le> e"
    and "range_blocks s e
      = (s, k) # (if block_end s k = e then [] else range_blocks (block_end s k + 1) e)"
    and "block_end s k \<noteq> e \<Longrightarrow> unat (block_end s k + 1) = Suc (unat (block_end s k))"
proof -
  let ?k = "fit_bits s e (trailing_zeros s)"
  let ?x = "block_end s ?k"
  have le: "?x \<le> e" by (rule fit_bits_end [OF assms])
  have top: "?x = e" if "?x = - 1" using le that by (metis antisym word_n1_ge)
  have "range_blocks s e = (s, ?k) # (if ?x = e then [] else range_blocks (?x + 1) e)"
    using top by (subst range_blocks.simps) (auto simp: Let_def)
  moreover have "unat (?x + 1) = Suc (unat ?x)" if "?x \<noteq> e"
    using top that by (auto intro: unat_Suc)
  ultimately show ?thesis using that [of ?k] aligned_fit [of s e] le by blast
qed

lemma range_blocks_induct [consumes 1, case_names block]:
  fixes s e :: "'a::len word"
  assumes "s \<le> e"
    and step: "\<And>s k. s \<le> e \<Longrightarrow> aligned s k \<Longrightarrow> block_end s k \<le> e \<Longrightarrow>
      range_blocks s e
        = (s, k) # (if block_end s k = e then [] else range_blocks (block_end s k + 1) e) \<Longrightarrow>
      (block_end s k \<noteq> e \<Longrightarrow> unat (block_end s k + 1) = Suc (unat (block_end s k))
        \<and> block_end s k + 1 \<le> e \<and> P (block_end s k + 1)) \<Longrightarrow> P s"
  shows "P s"
  using assms(1)
proof (induction "unat e - unat s" arbitrary: s rule: less_induct)
  case less
  from range_blocks_step [OF less.prems] obtain k where k: "aligned s k" "block_end s k \<le> e"
    "range_blocks s e = (s, k) # (if block_end s k = e then [] else range_blocks (block_end s k + 1) e)"
    "block_end s k \<noteq> e \<Longrightarrow> unat (block_end s k + 1) = Suc (unat (block_end s k))" by metis
  have "block_end s k + 1 \<le> e \<and> P (block_end s k + 1)" if ne: "block_end s k \<noteq> e"
  proof
    show le: "block_end s k + 1 \<le> e"
      using k(2) k(4) [OF ne] ne by (auto simp: word_le_nat_alt word_unat_eq_iff)
    show "P (block_end s k + 1)"
      using le k(4) [OF ne] block_end_ge [OF k(1)]
      by (intro less.hyps) (auto simp: word_le_nat_alt)
  qed
  with step [OF less.prems k(1-3)] k(4) show ?case by blast
qed

lemma range_blocks_aligned: "s \<le> e \<Longrightarrow> \<forall>(t, k) \<in> set (range_blocks s e). aligned t k"
proof (induction rule: range_blocks_induct)
  case (block s k)
  then show ?case by (cases "block_end s k = e") auto
qed

text \<open>The blocks cover exactly the range.\<close>

lemma range_blocks_cover:
  "s \<le> e \<Longrightarrow> (\<exists>b \<in> set (range_blocks s e). in_block b x) \<longleftrightarrow> s \<le> x \<and> x \<le> e"
proof (induction rule: range_blocks_induct)
  case (block s k)
  note inb = in_block_iff [OF block(2)]
  show ?case
  proof (cases "block_end s k = e")
    case True
    with block(4) inb show ?thesis by (simp add: word_le_nat_alt)
  next
    case False
    with block(5) have suc: "unat (block_end s k + 1) = Suc (unat (block_end s k))"
      and IH: "(\<exists>b \<in> set (range_blocks (block_end s k + 1) e). in_block b x)
        \<longleftrightarrow> block_end s k + 1 \<le> x \<and> x \<le> e" by auto
    have "(\<exists>b \<in> set (range_blocks s e). in_block b x)
        \<longleftrightarrow> in_block (s, k) x \<or> block_end s k + 1 \<le> x \<and> x \<le> e"
      using False by (simp add: block(4) IH)
    with inb [of x] suc block(3) block_end_ge [OF block(2)] show ?thesis
      by (auto simp: word_le_nat_alt)
  qed
qed

text \<open>The blocks are in increasing order and no address is in two of them.\<close>

definition before :: "'a::len word \<times> nat \<Rightarrow> 'a word \<times> nat \<Rightarrow> bool" where
  "before b c \<longleftrightarrow> (\<forall>x y. in_block b x \<longrightarrow> in_block c y \<longrightarrow> x < y)"

lemma range_blocks_sorted: "s \<le> e \<Longrightarrow> sorted_wrt before (range_blocks s e)"
proof (induction rule: range_blocks_induct)
  case (block s k)
  show ?case
  proof (cases "block_end s k = e")
    case False
    with block(5) have suc: "unat (block_end s k + 1) = Suc (unat (block_end s k))"
      and le: "block_end s k + 1 \<le> e"
      and IH: "sorted_wrt before (range_blocks (block_end s k + 1) e)" by auto
    have "before (s, k) c" if "c \<in> set (range_blocks (block_end s k + 1) e)" for c
      unfolding before_def
    proof (intro allI impI)
      fix x y
      assume x: "in_block (s, k) x" and "in_block c y"
      with that range_blocks_cover [OF le, of y] have "block_end s k + 1 \<le> y" by blast
      with x suc show "x < y"
        by (simp add: in_block_iff [OF block(2)] word_le_nat_alt word_less_nat_alt)
    qed
    with False IH show ?thesis by (simp add: block(4))
  qed (simp add: block)
qed

section \<open>Reading an IP set\<close>

definition append_ipv4_range :: "string list \<Rightarrow> u32 \<Rightarrow> u32 \<Rightarrow> string list" where
  "append_ipv4_range output start stop =
     output @ map (\<lambda>(s, k). cidr_text (IpV4 s) (32 - k)) (range_blocks start stop)"

definition append_ipv6_range :: "string list \<Rightarrow> u128 \<Rightarrow> u128 \<Rightarrow> string list" where
  "append_ipv6_range output start stop =
     output @ map (\<lambda>(s, k). cidr_text (IpV6 s) (128 - k)) (range_blocks start stop)"

definition read_ip_entry :: "string list \<Rightarrow> (string list) reader" where
  "read_ip_entry cidrs bs =
     and_then (read_bytes bs) (\<lambda>(lower, bs).
     and_then (read_bytes bs) (\<lambda>(upper, bs).
       if length lower = 4 \<and> length upper = 4 then
         and_then (ensure ((from_be lower :: u32) \<le> from_be upper) InvalidIpv4Range) (\<lambda>_.
         Inr (append_ipv4_range cidrs (from_be lower) (from_be upper), bs))
       else if length lower = 16 \<and> length upper = 16 then
         and_then (ensure ((from_be lower :: u128) \<le> from_be upper) InvalidIpv6Range) (\<lambda>_.
         Inr (append_ipv6_range cidrs (from_be lower) (from_be upper), bs))
       else Inl InvalidAddressLength))"

fun read_ip_entries :: "nat \<Rightarrow> string list \<Rightarrow> (string list) reader" where
  "read_ip_entries 0 cidrs bs = Inr (cidrs, bs)"
| "read_ip_entries (Suc n) cidrs bs =
     and_then (read_ip_entry cidrs bs) (\<lambda>(cidrs, bs). read_ip_entries n cidrs bs)"

definition read_ip_set :: "(string list) reader" where
  "read_ip_set bs =
     and_then (srs_u8 bs) (\<lambda>(version, bs).
     and_then (ensure (version = 1) (UnsupportedIpSetVersion version)) (\<lambda>_.
     and_then (read_be_u64 bs) (\<lambda>(count, bs).
     and_then (ensure (unat count \<le> MAX_COLLECTION_SIZE) IpSetTooLarge) (\<lambda>_.
     read_ip_entries (unat count) [] bs))))"

lemma read_ip_set_code [code]:
  "read_ip_set bs =
     and_then (srs_u8 bs) (\<lambda>(version, bs).
     and_then (ensure (version = 1) (UnsupportedIpSetVersion version)) (\<lambda>_.
     and_then (read_be_u64 bs) (\<lambda>(count, bs).
     and_then (ensure (count \<le> 4000000) IpSetTooLarge) (\<lambda>_.
     read_ip_entries (unat count) [] bs))))"
  by (simp add: read_ip_set_def within_limit)

lemma read_ip_entry_rest: "read_ip_entry c bs = Inr (x, rest) \<Longrightarrow> length rest \<le> length bs"
  by (auto simp: read_ip_entry_def split: if_splits dest!: consumesD [OF read_bytes_consumes])

lemma read_ip_entries_rest: "read_ip_entries n c bs = Inr (x, rest) \<Longrightarrow> length rest \<le> length bs"
proof (induction n arbitrary: c bs)
  case (Suc n)
  then show ?case by (auto dest!: read_ip_entry_rest) (metis le_trans)
qed simp

lemma read_ip_set_consumes: "consumes read_ip_set"
  by (auto simp: consumes_def read_ip_set_def read_be_u64_def
      dest!: read_ip_entries_rest read_be_rest)

section \<open>An IP set denotes the union of its ranges\<close>

text \<open>
  \<open>addr_range\<close> is what the writer of a set stores; \<open>in_range\<close> is the meaning of a range,
  within one address family.
\<close>

datatype addr_range = V4Range u32 u32 | V6Range u128 u128

fun range_wf :: "addr_range \<Rightarrow> bool" where
  "range_wf (V4Range a b) = (a \<le> b)"
| "range_wf (V6Range a b) = (a \<le> b)"

fun in_range :: "addr_range \<Rightarrow> ip_addr \<Rightarrow> bool" where
  "in_range (V4Range a b) (IpV4 x) = (a \<le> x \<and> x \<le> b)"
| "in_range (V6Range a b) (IpV6 x) = (a \<le> x \<and> x \<le> b)"
| "in_range _ _ = False"

fun range_cidrs :: "addr_range \<Rightarrow> ip_cidr list" where
  "range_cidrs (V4Range a b) =
     map (\<lambda>(s, k). \<lparr>cidr_network = IpV4 s, cidr_prefix = 32 - k\<rparr>) (range_blocks a b)"
| "range_cidrs (V6Range a b) =
     map (\<lambda>(s, k). \<lparr>cidr_network = IpV6 s, cidr_prefix = 128 - k\<rparr>) (range_blocks a b)"

definition cidr_string :: "ip_cidr \<Rightarrow> string" where
  "cidr_string c = cidr_text (cidr_network c) (cidr_prefix c)"

lemma block_cidr_v4:
  "aligned (s :: u32) k \<Longrightarrow> cidr_contains \<lparr>cidr_network = IpV4 s, cidr_prefix = 32 - k\<rparr> (IpV4 x)
    \<longleftrightarrow> in_block (s, k) x"
  by (simp add: cidr_contains_v4 in_block_def aligned_def)

lemma block_cidr_v6:
  "aligned (s :: u128) k \<Longrightarrow> cidr_contains \<lparr>cidr_network = IpV6 s, cidr_prefix = 128 - k\<rparr> (IpV6 x)
    \<longleftrightarrow> in_block (s, k) x"
  by (simp add: cidr_contains_v6 in_block_def aligned_def)

lemma cidr_contains_other:
  "\<not> cidr_contains \<lparr>cidr_network = IpV4 s, cidr_prefix = p\<rparr> (IpV6 y)"
  "\<not> cidr_contains \<lparr>cidr_network = IpV6 t, cidr_prefix = p\<rparr> (IpV4 x)"
  by (simp_all add: cidr_contains_def)

lemma range_cidrs_contains:
  assumes "range_wf r"
  shows "(\<exists>c \<in> set (range_cidrs r). cidr_contains c a) \<longleftrightarrow> in_range r a"
proof (cases r)
  case (V4Range l u)
  with assms have le: "l \<le> u" by simp
  show ?thesis
  proof (cases a)
    case (IpV4 x)
    have "(\<exists>c \<in> set (range_cidrs r). cidr_contains c a)
        \<longleftrightarrow> (\<exists>b \<in> set (range_blocks l u). in_block b x)"
      using V4Range IpV4 range_blocks_aligned [OF le] block_cidr_v4 by fastforce
    then show ?thesis using range_blocks_cover [OF le] V4Range IpV4 by simp
  qed (use V4Range cidr_contains_other in auto)
next
  case (V6Range l u)
  with assms have le: "l \<le> u" by simp
  show ?thesis
  proof (cases a)
    case (IpV6 x)
    have "(\<exists>c \<in> set (range_cidrs r). cidr_contains c a)
        \<longleftrightarrow> (\<exists>b \<in> set (range_blocks l u). in_block b x)"
      using V6Range IpV6 range_blocks_aligned [OF le] block_cidr_v6 by fastforce
    then show ?thesis using range_blocks_cover [OF le] V6Range IpV6 by simp
  qed (use V6Range cidr_contains_other in auto)
qed

lemma range_cidrs_wf: "c \<in> set (range_cidrs r) \<Longrightarrow> cidr_wf c"
  by (cases r) (auto simp: cidr_wf_def ip_width_def)

lemma compile_cidr_strings: "(\<And>c. c \<in> set cs \<Longrightarrow> cidr_wf c) \<Longrightarrow> compile_cidrs (map cidr_string cs) = Inr cs"
proof -
  assume wf: "\<And>c. c \<in> set cs \<Longrightarrow> cidr_wf c"
  have "map_err CidrError (parse_cidr (cidr_string c)) = Inr c" if "c \<in> set cs" for c
    using parse_cidr_text_lemma [of "cidr_prefix c" "cidr_network c"] wf [OF that]
    by (simp add: cidr_string_def cidr_wf_def)
  then show ?thesis
    by (simp add: compile_cidrs_def try_map_Inr_iff list_all2_conv_all_nth)
qed

text \<open>Every set that decodes is the texts of the blocks of well-formed ranges.\<close>

definition set_text :: "addr_range list \<Rightarrow> string list" where
  "set_text rs = map cidr_string (concat (map range_cidrs rs))"

lemma append_range_text:
  "append_ipv4_range cidrs a b = cidrs @ map cidr_string (range_cidrs (V4Range a b))"
  "append_ipv6_range cidrs c d = cidrs @ map cidr_string (range_cidrs (V6Range c d))"
  by (simp_all add: append_ipv4_range_def append_ipv6_range_def cidr_string_def split_def o_def)

lemma read_ip_entry_ranges:
  assumes "read_ip_entry cidrs bs = Inr (out, rest)"
  obtains r where "range_wf r" "out = cidrs @ map cidr_string (range_cidrs r)"
proof -
  from assms consider
      (v4) l u where "out = append_ipv4_range cidrs (from_be l) (from_be u)" "(from_be l :: u32) \<le> from_be u"
    | (v6) l u where "out = append_ipv6_range cidrs (from_be l) (from_be u)" "(from_be l :: u128) \<le> from_be u"
    by (auto simp: read_ip_entry_def split: if_splits)
  then show ?thesis
  proof cases
    case v4
    show ?thesis by (rule that [of "V4Range (from_be l) (from_be u)"]) (simp_all only: v4 append_range_text range_wf.simps)
  next
    case v6
    show ?thesis by (rule that [of "V6Range (from_be l) (from_be u)"]) (simp_all only: v6 append_range_text range_wf.simps)
  qed
qed

lemma read_ip_entries_ranges:
  "(read_ip_entries n cidrs bs :: srs_error + (string list \<times> bytes)) = Inr (out, rest) \<Longrightarrow>
   \<exists>rs. list_all range_wf rs \<and> length rs = n \<and> out = cidrs @ set_text rs"
proof (induction n arbitrary: cidrs bs)
  case 0
  then show ?case by (simp add: set_text_def)
next
  case (Suc n)
  from Suc.prems obtain mid bs' where
    1: "(read_ip_entry cidrs bs :: srs_error + (string list \<times> bytes)) = Inr (mid, bs')"
    "(read_ip_entries n mid bs' :: srs_error + (string list \<times> bytes)) = Inr (out, rest)" by auto
  obtain r where r: "range_wf r" "mid = cidrs @ map cidr_string (range_cidrs r)"
    by (rule read_ip_entry_ranges [OF 1(1)])
  from Suc.IH [OF 1(2)] obtain rs where "list_all range_wf rs" "length rs = n" "out = mid @ set_text rs"
    by blast
  with r show ?case by (intro exI [of _ "r # rs"]) (simp add: set_text_def)
qed

lemma read_ip_set_ranges:
  assumes "read_ip_set bs = Inr (out, rest)"
  obtains rs where "list_all range_wf rs" "out = set_text rs"
  using assms read_ip_entries_ranges [where cidrs = "[]"] by (fastforce simp: read_ip_set_def)

lemma set_text_compiles: "compile_cidrs (set_text rs) = Inr (concat (map range_cidrs rs))"
  unfolding set_text_def by (rule compile_cidr_strings) (auto dest: range_cidrs_wf)

lemma set_text_contains:
  assumes "list_all range_wf rs"
  shows "(\<exists>c \<in> set (concat (map range_cidrs rs)). cidr_contains c a) \<longleftrightarrow> (\<exists>r \<in> set rs. in_range r a)"
  using assms range_cidrs_contains by (fastforce simp: list_all_iff)

section \<open>The writer of an IP set\<close>

definition put_bytes :: "bytes \<Rightarrow> bytes" where
  "put_bytes b = push_uvarint (of_nat (length b)) @ b"

fun put_range :: "addr_range \<Rightarrow> bytes" where
  "put_range (V4Range a b) = put_bytes (be_bytes a) @ put_bytes (be_bytes b)"
| "put_range (V6Range a b) = put_bytes (be_bytes a) @ put_bytes (be_bytes b)"

definition put_ip_set :: "addr_range list \<Rightarrow> bytes" where
  "put_ip_set rs = 1 # be_bytes (of_nat (length rs) :: u64) @ concat (map put_range rs)"

lemma unat_of_nat_size: "n \<le> MAX_COLLECTION_SIZE \<Longrightarrow> unat (of_nat n :: u64) = n"
  by (simp add: MAX_COLLECTION_SIZE_def unat_of_nat)

lemma read_count_push [simp]:
  "n \<le> MAX_COLLECTION_SIZE \<Longrightarrow> read_count name (push_uvarint (of_nat n) @ rest) = Inr (n, rest)"
  by (simp add: read_count_def read_uvarint_push unat_of_nat_size)

lemma read_bytes_put [simp]:
  "length b \<le> MAX_COLLECTION_SIZE \<Longrightarrow> read_bytes (put_bytes b @ rest) = Inr (b, rest)"
  by (simp add: read_bytes_def put_bytes_def)

lemma read_ip_entry_put:
  "range_wf r \<Longrightarrow>
   read_ip_entry cidrs (put_range r @ rest) = Inr (cidrs @ map cidr_string (range_cidrs r), rest)"
  by (cases r)
    (simp_all add: read_ip_entry_def MAX_COLLECTION_SIZE_def append_range_text del: range_cidrs.simps)

lemma read_ip_entries_put:
  "list_all range_wf rs \<Longrightarrow>
   read_ip_entries (length rs) cidrs (concat (map put_range rs) @ rest) = Inr (cidrs @ set_text rs, rest)"
  by (induction rs arbitrary: cidrs) (simp_all add: read_ip_entry_put set_text_def)

lemma read_ip_set_put:
  assumes "list_all range_wf rs" and "length rs \<le> MAX_COLLECTION_SIZE"
  shows "read_ip_set (put_ip_set rs @ rest) = Inr (set_text rs, rest)"
  using assms read_ip_entries_put [of rs "[]" rest]
  by (simp add: read_ip_set_def put_ip_set_def read_be_u64_def unat_of_nat_size)

section \<open>Properties\<close>

text \<open>The decomposition of an address range into CIDR blocks is exact. The blocks cover the
  addresses from the first to the last one and no other, every block starts at a multiple of
  its size, and they come in increasing order without overlap.\<close>

theorem range_blocks_exact:
  fixes start stop :: "'a::len word"
  assumes "start \<le> stop"
  shows "(\<forall>x. (\<exists>b \<in> set (range_blocks start stop). in_block b x) \<longleftrightarrow> start \<le> x \<and> x \<le> stop)
    \<and> (\<forall>(t, k) \<in> set (range_blocks start stop). k \<le> LENGTH('a) \<and> 2 ^ k dvd unat t)
    \<and> sorted_wrt before (range_blocks start stop)"
  using range_blocks_cover [OF assms] range_blocks_aligned [OF assms] range_blocks_sorted [OF assms]
  by (auto simp: aligned_def)

theorem range_blocks_exact_witness:
  "(\<exists>b \<in> set (range_blocks 5 (9 :: u32)). in_block b 8)
    \<and> \<not> (\<exists>b \<in> set (range_blocks 5 (9 :: u32)). in_block b 10)"
  using range_blocks_exact [of 5 "9 :: u32"] by simp

text \<open>C2: an address set survives its binary form. Reading the bytes of any list of address ranges
  gives CIDR texts that the route compiler accepts, and the compiled blocks contain an address
  exactly when one of the ranges does.\<close>

theorem ip_set_exact:
  assumes "list_all range_wf rs" and "length rs \<le> MAX_COLLECTION_SIZE"
  shows "\<exists>texts cs. read_ip_set (put_ip_set rs @ rest) = Inr (texts, rest)
    \<and> compile_cidrs texts = Inr cs
    \<and> (\<forall>a. (\<exists>c \<in> set cs. cidr_contains c a) \<longleftrightarrow> (\<exists>r \<in> set rs. in_range r a))"
  using read_ip_set_put [OF assms] set_text_compiles [of rs] set_text_contains [OF assms(1)] by blast

theorem ip_set_exact_witness:
  "\<exists>texts cs. read_ip_set (put_ip_set [V4Range 5 9, V6Range 1 2] @ [7]) = Inr (texts, [7])
    \<and> compile_cidrs texts = Inr cs
    \<and> (\<forall>a. (\<exists>c \<in> set cs. cidr_contains c a) \<longleftrightarrow> (\<exists>r \<in> set [V4Range 5 9, V6Range 1 2]. in_range r a))"
  by (rule ip_set_exact) (simp_all add: MAX_COLLECTION_SIZE_def)

text \<open>Whatever bytes the decoder of address sets accepts, the CIDR texts it returns compile,
  and the compiled blocks describe a list of well-formed address ranges exactly.\<close>

theorem ip_set_sound:
  assumes "read_ip_set bs = Inr (texts, rest)"
  shows "\<exists>rs cs. list_all range_wf rs \<and> compile_cidrs texts = Inr cs
    \<and> (\<forall>a. (\<exists>c \<in> set cs. cidr_contains c a) \<longleftrightarrow> (\<exists>r \<in> set rs. in_range r a))"
proof -
  obtain rs where "list_all range_wf rs" "texts = set_text rs"
    by (rule read_ip_set_ranges [OF assms])
  then show ?thesis using set_text_compiles [of rs] set_text_contains [of rs] by blast
qed

theorem ip_set_sound_witness:
  "\<exists>rs cs. list_all range_wf rs \<and> compile_cidrs (set_text [V4Range 5 9]) = Inr cs
    \<and> (\<forall>a. (\<exists>c \<in> set cs. cidr_contains c a) \<longleftrightarrow> (\<exists>r \<in> set rs. in_range r a))"
  using ip_set_sound [OF read_ip_set_put [of "[V4Range 5 9]" "[]"]]
  by (simp add: MAX_COLLECTION_SIZE_def)

end
