(* ===== verification/Srs_Trie.thy ===== *)
theory Srs_Trie
  imports Srs_Domain Srs_Ipset
begin

text \<open>
  A reference writer of the domain matcher of a binary rule-set: a trie of the keys in level order, as bits for the leaves,
  bits for the shape, and labels. The reader finds exactly its words, and from them the domains and suffixes that were written.
\<close>

section \<open>Lists that are written\<close>

definition put_list :: "('a \<Rightarrow> bytes) \<Rightarrow> 'a list \<Rightarrow> bytes" where
  "put_list put xs = push_uvarint (of_nat (length xs)) @ concat (map put xs)"

lemma put_list_cong [fundef_cong]:
  "xs = ys \<Longrightarrow> (\<And>x. x \<in> set ys \<Longrightarrow> f x = g x) \<Longrightarrow> put_list f xs = put_list g ys"
  by (simp add: put_list_def cong: map_cong)

definition fits :: "'a list \<Rightarrow> bool" where "fits xs \<longleftrightarrow> length xs \<le> MAX_COLLECTION_SIZE"

lemma read_many_put:
  "(\<And>x rest. x \<in> set xs \<Longrightarrow> p (put x @ rest) = Inr (f x, rest)) \<Longrightarrow>
   read_many p (length xs) (concat (map put xs) @ rest) = Inr (map f xs, rest)"
  by (induction xs) simp_all

lemma read_u64s_put: "fits v \<Longrightarrow> read_u64s (put_list be_bytes v @ rest) = Inr (v, rest)"
  using read_many_put [where p = read_be_u64 and put = be_bytes and f = "\<lambda>s. s" and xs = v]
  by (simp add: read_u64s_def put_list_def fits_def read_be_u64_def)

section \<open>Bits\<close>

definition put_bits :: "bool list \<Rightarrow> u64 list" where
  "put_bits bs = map (\<lambda>k. horner_sum of_bool 2 (take 64 (drop (64 * k) bs))) [0..<(length bs + 63) div 64]"

lemma get_bit_put: "i < length bs \<Longrightarrow> get_bit (put_bits bs) i = Some (bs ! i)"
proof -
  assume i: "i < length bs"
  then have k: "i div 64 < (length bs + 63) div 64" by simp
  have split: "64 * (i div 64) + i mod 64 = i" by simp
  from i split have "i mod 64 < length bs - 64 * (i div 64)" by linarith
  then have "i mod 64 < length (take 64 (drop (64 * (i div 64)) bs))" by simp
  then have "bit (horner_sum of_bool 2 (take 64 (drop (64 * (i div 64)) bs)) :: u64) (i mod 64) = bs ! i"
    using i split by (simp add: bit_horner_sum_bit_word_iff)
  with k show ?thesis by (simp add: get_bit_def put_bits_def)
qed

lemma put_bits_length: "length bs \<le> length (put_bits bs) * 64" "length (put_bits bs) * 64 \<le> length bs + 63"
  by (simp_all add: put_bits_def)

section \<open>Tries\<close>

datatype dtrie = DNode (is_leaf: bool) (subtries: "(u8 \<times> dtrie) list")

lemma subtrie_size [termination_simp]: "p \<in> set ts \<Longrightarrow> size (snd p) < Suc (size_list (size_prod (\<lambda>_. 0) size) ts)"
  by (induction ts) auto

fun trie_words :: "dtrie \<Rightarrow> bytes set" where
  "trie_words (DNode l ts) = (if l then {[]} else {}) \<union> (\<Union>p \<in> set ts. (#) (fst p) ` trie_words (snd p))"

fun node_count :: "dtrie \<Rightarrow> nat" where
  "node_count (DNode l ts) = Suc (sum_list (map (\<lambda>p. node_count (snd p)) ts))"

fun trie_insert :: "bytes \<Rightarrow> dtrie \<Rightarrow> dtrie" where
  "trie_insert [] (DNode l ts) = DNode True ts"
| "trie_insert (c # key) (DNode l ts) =
     (if c \<in> fst ` set ts then DNode l (map (\<lambda>(d, t). (d, if d = c then trie_insert key t else t)) ts)
      else DNode l (ts @ [(c, trie_insert key (DNode False []))]))"

definition trie_of :: "bytes list \<Rightarrow> dtrie" where
  "trie_of keys = foldr trie_insert keys (DNode False [])"

text \<open>No path is longer than \<open>n\<close>.\<close>

fun within :: "nat \<Rightarrow> dtrie \<Rightarrow> bool" where
  "within 0 (DNode l ts) \<longleftrightarrow> ts = []"
| "within (Suc n) (DNode l ts) \<longleftrightarrow> (\<forall>p \<in> set ts. within n (snd p))"

lemma trie_words_insert: "trie_words (trie_insert key t) = insert key (trie_words t)"
proof (induction key arbitrary: t)
  case Nil
  show ?case by (cases t) auto
next
  case (Cons c key)
  obtain l ts where t: "t = DNode l ts" by (cases t)
  show ?case
  proof (cases "c \<in> fst ` set ts")
    case True
    then obtain u where u: "(c, u) \<in> set ts" by force
    let ?f = "\<lambda>(d, t). (d, if d = c then trie_insert key t else t)"
    have "(#) (fst (?f p)) ` trie_words (snd (?f p)) = (#) (fst p) ` trie_words (snd p) \<union> (if fst p = c then {c # key} else {})" for p
      by (cases p) (auto simp: Cons.IH)
    note step = this
    let ?g = "\<lambda>p. (#) (fst p) ` trie_words (snd p)" and ?h = "\<lambda>p. if fst p = c then {c # key} else {}"
    have "(\<Union>p \<in> set (map ?f ts). ?g p) = (\<Union>p \<in> set ts. ?g (?f p))" unfolding set_map by (rule SUP_image [unfolded comp_def])
    also have "\<dots> = (\<Union>p \<in> set ts. ?g p \<union> ?h p)" by (rule SUP_cong [OF refl]) (rule step)
    also have "\<dots> = (\<Union>p \<in> set ts. ?g p) \<union> (\<Union>p \<in> set ts. ?h p)" by (rule UN_Un_distrib)
    finally have "(\<Union>p \<in> set (map ?f ts). ?g p) = (\<Union>p \<in> set ts. ?g p) \<union> (\<Union>p \<in> set ts. ?h p)" .
    moreover from u have "(\<Union>p \<in> set ts. if fst p = c then {c # key} else {}) = {c # key}" by force
    ultimately have "(\<Union>p \<in> set (map ?f ts). (#) (fst p) ` trie_words (snd p))
        = insert (c # key) (\<Union>p \<in> set ts. (#) (fst p) ` trie_words (snd p))"
      by (simp only: Un_insert_right Un_empty_right)
    then show ?thesis unfolding t by (simp only: trie_insert.simps trie_words.simps True if_True Un_insert_right)
  next
    case False
    with Cons.IH [of "DNode False []"] show ?thesis by (simp add: t)
  qed
qed

lemma within_insert: "within n t \<Longrightarrow> length key \<le> n \<Longrightarrow> within n (trie_insert key t)"
proof (induction key arbitrary: n t)
  case Nil
  then show ?case by (cases t; cases n) simp_all
next
  case (Cons c key)
  obtain l ts where t: "t = DNode l ts" by (cases t)
  from Cons.prems(2) obtain k where n: "n = Suc k" "length key \<le> k" by (cases n) simp_all
  have new: "within k (trie_insert key (DNode False []))" by (rule Cons.IH) (use n(2) in \<open>cases k; simp\<close>)+
  have old: "within k u \<and> within k (trie_insert key u)" if "(d, u) \<in> set ts" for d u
    using Cons.prems(1) Cons.IH n that by (force simp: t)
  with new show ?case by (auto simp: t n(1) split: if_splits)
qed

lemma trie_words_of: "trie_words (trie_of keys) = set keys"
  by (induction keys) (simp_all add: trie_of_def trie_words_insert)

lemma within_of: "\<forall>key \<in> set keys. length key \<le> n \<Longrightarrow> within n (trie_of keys)"
  by (induction keys) (cases n, simp_all add: trie_of_def within_insert)

section \<open>Level order\<close>

function levels :: "dtrie list \<Rightarrow> dtrie list" where
  "levels q = (if q = [] then [] else q @ levels (map snd (concat (map subtries q))))"
  by pat_completeness auto
termination
proof (relation "measure (\<lambda>q. sum_list (map node_count q))", simp, simp only: in_measure)
  have "sum_list (map node_count (map snd (subtries t))) + 1 = node_count t" for t by (cases t) (simp add: comp_def)
  note one = this
  have "sum_list (map node_count (map snd (concat (map subtries q)))) + length q = sum_list (map node_count q)" for q
  proof (induction q)
    case (Cons t q)
    have "sum_list (map node_count (map snd (concat (map subtries (t # q)))))
        = sum_list (map node_count (map snd (subtries t))) + sum_list (map node_count (map snd (concat (map subtries q))))"
      by (simp only: list.map concat.simps map_append sum_list_append)
    with Cons one [of t] show ?case by (simp only: list.map sum_list.Cons list.size)
  qed simp
  then show "q \<noteq> [] \<Longrightarrow> sum_list (map node_count (map snd (concat (map subtries q)))) < sum_list (map node_count q)" for q
    by (metis length_greater_0_conv less_add_same_cancel1)
qed

declare levels.simps [simp del]

lemma levels_unfold: "levels q = q @ map snd (concat (map subtries (levels q)))"
proof (induction q rule: levels.induct)
  case (1 q)
  show ?case
  proof (cases "q = []")
    case True
    then show ?thesis by (simp add: levels.simps)
  next
    case False
    let ?q = "map snd (concat (map subtries q))"
    from False have "levels q = q @ levels ?q" by (simp add: levels.simps [of q])
    moreover have "levels ?q = ?q @ map snd (concat (map subtries (levels ?q)))" by (rule 1 [OF False])
    ultimately show ?thesis by (metis concat_append map_append)
  qed
qed

definition put_trie :: "dtrie \<Rightarrow> bytes" where
  "put_trie t =
     (let nodes = levels [t] in
      put_list be_bytes (put_bits (map is_leaf nodes))
      @ put_list be_bytes (put_bits (concat (map (\<lambda>n. replicate (length (subtries n)) False @ [True]) nodes)))
      @ put_bytes (map fst (concat (map subtries nodes))))"

section \<open>The written trie is read back\<close>

fun kids_from :: "bytes \<Rightarrow> nat \<Rightarrow> nat list \<Rightarrow> (u8 \<times> nat) list list" where
  "kids_from labels i [] = []"
| "kids_from labels i (c # cs) = labelled_from labels i (i + c) # kids_from labels (i + c) cs"

definition shape :: "nat list \<Rightarrow> bool list" where
  "shape cs = concat (map (\<lambda>c. replicate c False @ [True]) cs)"

lemma read_node_run:
  "\<forall>j < c. get_bit bitmap (b + j) = Some False \<Longrightarrow> get_bit bitmap (b + c) = Some True \<Longrightarrow> i + c \<le> length labels \<Longrightarrow>
    read_node bitmap labels node b i = Inr (node @ labelled_from labels i (i + c), Suc (b + c), i + c)"
proof (induction c arbitrary: node b i)
  case 0
  then show ?case by (simp add: read_node_bit labelled_from_def)
next
  case (Suc c)
  have "get_bit bitmap b = Some False" using Suc.prems(1) by force
  then have "read_node bitmap labels node b i = read_node bitmap labels (node @ [(labels ! i, Suc i)]) (Suc b) (Suc i)"
    using Suc.prems(3) by (simp add: read_node_bit(3))
  moreover have "\<forall>j < c. get_bit bitmap (Suc b + j) = Some False" using Suc.prems(1) by force
  then have "read_node bitmap labels (node @ [(labels ! i, Suc i)]) (Suc b) (Suc i)
      = Inr ((node @ [(labels ! i, Suc i)]) @ labelled_from labels (Suc i) (Suc i + c), Suc (Suc b + c), Suc i + c)"
    by (rule Suc.IH) (use Suc.prems(2,3) in simp_all)
  moreover have "labelled_from labels i (i + Suc c) = (labels ! i, Suc i) # labelled_from labels (Suc i) (Suc i + c)"
    by (simp add: labelled_from_def upt_conv_Cons del: upt_Suc)
  ultimately show ?case by simp
qed

lemma read_nodes_run:
  "\<forall>j < length (shape cs). get_bit bitmap (b + j) = Some (shape cs ! j) \<Longrightarrow> i + sum_list cs \<le> length labels \<Longrightarrow>
    read_nodes bitmap labels (length cs) b i = Inr (kids_from labels i cs, i + sum_list cs)"
proof (induction cs arbitrary: b i)
  case (Cons c cs)
  have shape: "shape (c # cs) = replicate c False @ True # shape cs" by (simp add: shape_def)
  have bit: "get_bit bitmap (b + j) = Some ((replicate c False @ True # shape cs) ! j)" if "j < Suc (c + length (shape cs))" for j
    using Cons.prems(1) that unfolding shape by simp
  have "\<forall>j < c. get_bit bitmap (b + j) = Some False" using bit by (simp add: nth_append)
  moreover have "get_bit bitmap (b + c) = Some True" using bit [of c] by (simp add: nth_append)
  ultimately have node: "read_node bitmap labels [] b i = Inr ([] @ labelled_from labels i (i + c), Suc (b + c), i + c)"
    by (rule read_node_run) (use Cons.prems(2) in simp)
  have "\<forall>j < length (shape cs). get_bit bitmap (Suc (b + c) + j) = Some (shape cs ! j)"
  proof (intro allI impI)
    fix j assume "j < length (shape cs)"
    with bit [of "Suc (c + j)"] show "get_bit bitmap (Suc (b + c) + j) = Some (shape cs ! j)" by (simp add: nth_append add.assoc)
  qed
  from Cons.IH [OF this, of "i + c"] Cons.prems(2) node show ?case by (simp add: add.assoc)
qed simp

definition trie_kids :: "dtrie \<Rightarrow> (u8 \<times> nat) list list" where
  "trie_kids t = (let nodes = levels [t] in
     kids_from (map fst (concat (map subtries nodes))) 0 (map (\<lambda>n. length (subtries n)) nodes))"

lemma levels_length: "length (levels [t]) = Suc (sum_list (map (\<lambda>n. length (subtries n)) (levels [t])))"
  by (subst (1) levels_unfold) (simp add: length_concat comp_def)

lemma shape_length: "length (shape cs) = sum_list cs + length cs"
  by (induction cs) (simp_all add: shape_def)

lemma read_trie_put:
  assumes "fits (levels [t])"
  shows "read_trie (put_trie t @ rest) = Inr ((trie_kids t, put_bits (map is_leaf (levels [t]))), rest)"
proof -
  let ?ns = "levels [t]" and ?cs = "map (\<lambda>n. length (subtries n)) (levels [t])"
  let ?labels = "map fst (concat (map subtries ?ns))"
  have labels: "length ?labels = sum_list ?cs" by (simp add: length_concat comp_def)
  with levels_length [of t] have count: "length ?ns = Suc (length ?labels)" by simp
  have shape: "concat (map (\<lambda>n. replicate (length (subtries n)) False @ [True]) ?ns) = shape ?cs" by (simp add: shape_def comp_def)
  have words: "length (put_bits bs) * 64 \<le> length bs + 63" for bs by (rule put_bits_length)
  have few: "length ?ns \<le> MAX_COLLECTION_SIZE" using assms by (simp add: fits_def)
  have "length (put_bits (map is_leaf ?ns)) \<le> MAX_COLLECTION_SIZE" using words [of "map is_leaf ?ns"] few by (simp add: MAX_COLLECTION_SIZE_def)
  then have leaves: "fits (put_bits (map is_leaf ?ns))" by (simp add: fits_def)
  have "length (put_bits (shape ?cs)) \<le> MAX_COLLECTION_SIZE"
    using words [of "shape ?cs"] few count labels by (simp add: MAX_COLLECTION_SIZE_def shape_length)
  then have bitmap: "fits (put_bits (shape ?cs))" by (simp add: fits_def)
  have bits: "\<forall>j < length (shape ?cs). get_bit (put_bits (shape ?cs)) (0 + j) = Some (shape ?cs ! j)" by (simp add: get_bit_put)
  have nodes: "read_nodes (put_bits (shape ?cs)) ?labels (length ?cs) 0 0 = Inr (trie_kids t, length ?labels)"
    using read_nodes_run [OF bits, of 0 ?labels] labels by (simp add: trie_kids_def Let_def)
  have n: "length ?labels \<le> MAX_COLLECTION_SIZE" using few count by simp
  have room: "length ?labels + 1 \<le> length (put_bits (map is_leaf ?ns)) * 64"
    using put_bits_length(1) [of "map is_leaf ?ns"] count by simp
  have size: "length ?cs = length ?labels + 1" using count by simp
  show ?thesis
    unfolding read_trie_def put_trie_def Let_def shape append_assoc read_u64s_put [OF leaves] and_then_simps prod.case
      read_u64s_put [OF bitmap] read_bytes_put [OF n]
    using nodes room unfolding size by (simp add: ensure_def)
qed

section \<open>Its paths are its words\<close>

lemma concat_nth: "n < length xss \<Longrightarrow> j < length (xss ! n) \<Longrightarrow>
    length (concat (take n xss)) + j < length (concat xss) \<and> concat xss ! (length (concat (take n xss)) + j) = xss ! n ! j"
proof -
  assume n: "n < length xss" and j: "j < length (xss ! n)"
  have "concat xss = concat (take n xss) @ xss ! n @ concat (drop (Suc n) xss)"
    using id_take_nth_drop [OF n] by (metis concat.simps(2) concat_append)
  with j show ?thesis by (simp add: nth_append)
qed

lemma kids_from_nth:
  "n < length cs \<Longrightarrow> kids_from labels i cs ! n = labelled_from labels (i + sum_list (take n cs)) (i + sum_list (take n cs) + cs ! n)"
  by (induction cs arbitrary: i n) (auto simp: nth_Cons add.assoc split: nat.splits)

lemma trie_kids_nth:
  assumes "n < length (levels [t])"
  shows "set (trie_kids t ! n) = (\<lambda>j. (fst (subtries (levels [t] ! n) ! j), Suc (length (concat (take n (map subtries (levels [t])))) + j)))
      ` {..<length (subtries (levels [t] ! n))}"
proof -
  let ?ns = "levels [t]" and ?subs = "map subtries (levels [t])"
  let ?off = "length (concat (take n ?subs))" and ?c = "length (subtries (?ns ! n))"
  have "sum_list (take n (map (\<lambda>n. length (subtries n)) ?ns)) = ?off" by (simp add: length_concat take_map comp_def)
  with assms have "trie_kids t ! n = labelled_from (map fst (concat ?subs)) ?off (?off + ?c)"
    by (simp add: trie_kids_def Let_def kids_from_nth)
  then have "set (trie_kids t ! n) = (\<lambda>k. (map fst (concat ?subs) ! k, Suc k)) ` {?off..<?off + ?c}" by (simp add: labelled_from_def)
  also have "{?off..<?off + ?c} = (\<lambda>j. ?off + j) ` {..<?c}" by (simp add: lessThan_atLeast0 add.commute)
  also have "(\<lambda>k. (map fst (concat ?subs) ! k, Suc k)) ` (\<lambda>j. ?off + j) ` {..<?c}
      = (\<lambda>j. (fst (subtries (?ns ! n) ! j), Suc (?off + j))) ` {..<?c}"
    unfolding image_image
  proof (rule image_cong [OF refl])
    fix j assume "j \<in> {..<?c}"
    then have "map fst (concat ?subs) ! (?off + j) = fst (subtries (?ns ! n) ! j)"
      using concat_nth [of n ?subs j] assms by simp
    then show "(map fst (concat ?subs) ! (?off + j), Suc (?off + j)) = (fst (subtries (?ns ! n) ! j), Suc (?off + j))" by simp
  qed
  finally show ?thesis .
qed

lemma levels_child:
  assumes "n < length (levels [t])" and "j < length (subtries (levels [t] ! n))"
  shows "Suc (length (concat (take n (map subtries (levels [t])))) + j) < length (levels [t])
    \<and> levels [t] ! Suc (length (concat (take n (map subtries (levels [t])))) + j) = snd (subtries (levels [t] ! n) ! j)"
proof -
  let ?ns = "levels [t]" and ?k = "length (concat (take n (map subtries (levels [t])))) + j"
  have ns: "?ns = t # map snd (concat (map subtries ?ns))" using levels_unfold [of "[t]"] by simp
  have k: "?k < length (concat (map subtries ?ns))" "concat (map subtries ?ns) ! ?k = subtries (?ns ! n) ! j"
    using concat_nth [of n "map subtries ?ns" j] assms by simp_all
  from arg_cong [OF ns, of length] k(1) have "Suc ?k < length ?ns" by simp
  moreover from arg_cong [OF ns, of "\<lambda>xs. xs ! Suc ?k"] k have "?ns ! Suc ?k = snd (subtries (?ns ! n) ! j)" by simp
  ultimately show ?thesis by blast
qed

lemma trie_kids_child:
  assumes "n < length (levels [t])" and "(label, child) \<in> set (trie_kids t ! n)"
  shows "child < length (levels [t])" and "(label, levels [t] ! child) \<in> set (subtries (levels [t] ! n))"
proof -
  from assms obtain j where j: "j < length (subtries (levels [t] ! n))" "label = fst (subtries (levels [t] ! n) ! j)"
    "child = Suc (length (concat (take n (map subtries (levels [t])))) + j)" by (auto simp: trie_kids_nth)
  note c = levels_child [OF assms(1) j(1)]
  from c j(3) show "child < length (levels [t])" by simp
  from c j have "(label, levels [t] ! child) = subtries (levels [t] ! n) ! j" by simp
  with j(1) show "(label, levels [t] ! child) \<in> set (subtries (levels [t] ! n))" by simp
qed

lemma trie_kids_ex:
  assumes "n < length (levels [t])" and "(label, u) \<in> set (subtries (levels [t] ! n))"
  shows "\<exists>child. (label, child) \<in> set (trie_kids t ! n) \<and> levels [t] ! child = u"
proof -
  from assms(2) obtain j where j: "j < length (subtries (levels [t] ! n))" "subtries (levels [t] ! n) ! j = (label, u)"
    by (auto simp: in_set_conv_nth)
  from levels_child [OF assms(1) j(1)] j assms(1) show ?thesis
    by (intro exI [of _ "Suc (length (concat (take n (map subtries (levels [t])))) + j)"]) (auto simp: trie_kids_nth image_iff)
qed

lemma accepted_trie:
  "n < length (levels [t]) \<Longrightarrow> accepted (trie_kids t) (put_bits (map is_leaf (levels [t]))) n = trie_words (levels [t] ! n)"
proof (induction "levels [t] ! n" arbitrary: n rule: trie_words.induct)
  case (1 l ts)
  let ?leaves = "put_bits (map is_leaf (levels [t]))"
  from "1.hyps"(2) have leaf: "is_leaf (levels [t] ! n) = l" and subs: "subtries (levels [t] ! n) = ts" by (metis dtrie.sel)+
  have bit: "get_bit ?leaves n = Some l" using "1.prems" leaf by (simp add: get_bit_put)
  have kid: "accepted (trie_kids t) ?leaves child = trie_words (levels [t] ! child)" if "(label, child) \<in> set (trie_kids t ! n)" for label child
    using "1.hyps"(1) [of "(label, levels [t] ! child)" child] trie_kids_child [OF "1.prems" that] by (simp add: subs)
  have "(\<Union>(label, child) \<in> set (trie_kids t ! n). (#) label ` accepted (trie_kids t) ?leaves child)
      = (\<Union>(label, child) \<in> set (trie_kids t ! n). (#) label ` trie_words (levels [t] ! child))"
    using kid by (intro SUP_cong) auto
  also have "\<dots> = (\<Union>p \<in> set ts. (#) (fst p) ` trie_words (snd p))"
  proof (intro equalityI subsetI)
    fix key assume "key \<in> (\<Union>(label, child) \<in> set (trie_kids t ! n). (#) label ` trie_words (levels [t] ! child))"
    then obtain label child where "(label, child) \<in> set (trie_kids t ! n)" "key \<in> (#) label ` trie_words (levels [t] ! child)" by blast
    with trie_kids_child(2) [OF "1.prems" this(1)] show "key \<in> (\<Union>p \<in> set ts. (#) (fst p) ` trie_words (snd p))"
      unfolding subs by force
  next
    fix key assume "key \<in> (\<Union>p \<in> set ts. (#) (fst p) ` trie_words (snd p))"
    then obtain label u where u: "(label, u) \<in> set ts" "key \<in> (#) label ` trie_words u" by force
    from trie_kids_ex [OF "1.prems", of label u] u(1) obtain child where
      "(label, child) \<in> set (trie_kids t ! n)" "levels [t] ! child = u" unfolding subs by blast
    with u(2) show "key \<in> (\<Union>(label, child) \<in> set (trie_kids t ! n). (#) label ` trie_words (levels [t] ! child))" by blast
  qed
  finally show ?case unfolding accepted_unfold [of _ _ n] "1.hyps"(2) [symmetric] trie_words.simps bit by simp
qed

lemma reaches_within:
  "reaches (trie_kids t) n key m \<Longrightarrow> n < length (levels [t]) \<Longrightarrow> within d (levels [t] ! n) \<Longrightarrow> length key \<le> d"
proof (induction arbitrary: d rule: reaches.induct)
  case (down label child n key m)
  note kid = trie_kids_child [OF down.prems(1) down.hyps(1)]
  obtain l ts where n: "levels [t] ! n = DNode l ts" by (cases "levels [t] ! n")
  from kid(2) n have "(label, levels [t] ! child) \<in> set ts" by simp
  with down.prems(2) n obtain k where "d = Suc k" "within k (levels [t] ! child)" by (cases d) force+
  with down.IH [OF kid(1)] show ?case by simp
qed simp

lemma collect_trie:
  assumes "fits (levels [trie_of keys])" and "\<forall>key \<in> set keys. length key \<le> MAX_DOMAIN_KEY"
  shows "\<exists>out. collect_domain_keys 0 (trie_kids (trie_of keys)) (put_bits (map is_leaf (levels [trie_of keys]))) [] [] = Inr out
    \<and> set out = set keys"
proof (cases "collect_domain_keys 0 (trie_kids (trie_of keys)) (put_bits (map is_leaf (levels [trie_of keys]))) [] []")
  let ?t = "trie_of keys"
  have first: "levels [?t] ! 0 = ?t" "0 < length (levels [?t])" by (subst levels_unfold, simp)+
  note read = read_trie_put [OF assms(1), of "[]"]
  {
    case (Inl e)
    have "0 < length (trie_kids ?t)" using read_trie_shape [OF read] by (metis zero_less_Suc)
    from collect_keys_error [OF Inl read this] obtain key m where "reaches (trie_kids ?t) 0 key m" "MAX_DOMAIN_KEY < length key" by auto
    with reaches_within [of ?t 0 key m MAX_DOMAIN_KEY] first within_of [OF assms(2)] show ?thesis by simp
  next
    case (Inr out)
    from collect_keys_set [OF Inr] accepted_trie [OF first(2)] first(1) trie_words_of [of keys] have "set out = set keys" by simp
    with Inr show ?thesis by blast
  }
qed

section \<open>The domain matcher\<close>

text \<open>
  A key is the text with its characters in reverse. An exact domain is written as it is, a suffix that begins with a dot behind a carriage
  return, any other suffix behind a line feed.
\<close>

definition put_key :: "string \<Rightarrow> bytes" where
  "put_key s = (case utf8_chars (as_bytes s) of Some cs \<Rightarrow> concat (rev cs) | None \<Rightarrow> [])"

definition domain_texts :: "string list \<Rightarrow> string list \<Rightarrow> string list" where
  "domain_texts exact sfx = exact @ map (\<lambda>v. (if prefix ''.'' v then CHR 0x0D else CHR 0x0A) # v) sfx"

definition put_domain_matcher :: "string list \<Rightarrow> string list \<Rightarrow> bytes" where
  "put_domain_matcher exact sfx = 0 # put_trie (trie_of (map put_key (domain_texts exact sfx)))"

text \<open>
  What is read back: each domain and suffix once, in order; where a domain and its dotted suffix are both there, the suffix without the dot
  instead of the two.
\<close>

definition read_exact_domains :: "string list \<Rightarrow> string list \<Rightarrow> string list" where
  "read_exact_domains exact sfx = sorted_list_of_set {d \<in> set exact. CHR ''.'' # d \<notin> set sfx}"

definition read_suffixes :: "string list \<Rightarrow> string list \<Rightarrow> string list" where
  "read_suffixes exact sfx = sorted_list_of_set
     ({v \<in> set sfx. \<forall>d. v = CHR ''.'' # d \<longrightarrow> d \<notin> set exact} \<union> {d \<in> set exact. CHR ''.'' # d \<in> set sfx})"

definition domains_ok :: "string list \<Rightarrow> string list \<Rightarrow> bool" where
  "domains_ok exact sfx \<longleftrightarrow>
     list_all (\<lambda>s. is_str s \<and> length s \<le> MAX_DOMAIN_KEY) (domain_texts exact sfx)
     \<and> list_all (\<lambda>d. \<not> prefix [CHR 0x0D] d \<and> \<not> prefix [CHR 0x0A] d) exact
     \<and> fits (levels [trie_of (map put_key (domain_texts exact sfx))])"

lemma utf8_step_self: "utf8_step bs = Some (c, rest) \<Longrightarrow> utf8_step c = Some (c, [])"
  by (auto simp: utf8_step_def Let_def take_Cons' split: list.splits if_splits)

lemma utf8_chars_self: "utf8_chars bs = Some cs \<Longrightarrow> c \<in> set cs \<Longrightarrow> utf8_chars c = Some [c]"
proof (induction bs arbitrary: cs rule: utf8_chars.induct)
  case (1 bs)
  show ?case
  proof (cases "bs = []")
    case True
    with "1.prems" show ?thesis by simp
  next
    case False
    with "1.prems"(1) obtain d rest ds where
      step: "utf8_step bs = Some (d, rest)" and cs: "cs = d # ds" "utf8_chars rest = Some ds"
      by (subst (asm) utf8_chars.simps) (auto split: option.splits)
    have "d \<noteq> []" using utf8_step_split [OF step] by simp
    then have "utf8_chars d = Some [d]" by (subst utf8_chars.simps) (simp add: utf8_step_self [OF step])
    with "1.IH" [OF False step refl cs(2)] "1.prems"(2) cs(1) show ?thesis by auto
  qed
qed

lemma utf8_chars_pieces: "\<forall>c \<in> set cs. utf8_chars c = Some [c] \<Longrightarrow> utf8_chars (concat cs) = Some cs"
proof (induction cs)
  case (Cons c cs)
  with utf8_chars_append [of c "[c]" "concat cs" cs] show ?case by simp
qed simp

lemma key_text_put:
  assumes "is_str s"
  shows "key_text (put_key s) = Inr s" and "length (put_key s) = length s"
proof -
  from assms obtain cs where cs: "utf8_chars (as_bytes s) = Some cs" by (auto simp: is_str_def utf8_valid_def)
  have "\<forall>c \<in> set (rev cs). utf8_chars c = Some [c]" using utf8_chars_self [OF cs] by simp
  from utf8_chars_pieces [OF this] have "utf8_chars (put_key s) = Some (rev cs)" by (simp add: put_key_def cs)
  with utf8_chars_concat [OF cs] show "key_text (put_key s) = Inr s" by (simp add: key_text_def)
  have "length (put_key s) = length (as_bytes s)"
    using arg_cong [OF utf8_chars_concat [OF cs], of length] by (simp add: put_key_def cs length_concat rev_map [symmetric] sum_list_rev)
  then show "length (put_key s) = length s" by simp
qed

lemma read_domain_matcher_put:
  assumes "domains_ok exact sfx" and "lists_sets iter"
  shows "read_domain_matcher iter (put_domain_matcher exact sfx @ rest) = Inr ((read_exact_domains exact sfx, read_suffixes exact sfx), rest)"
proof -
  let ?texts = "domain_texts exact sfx"
  let ?keys = "map put_key ?texts"
  from assms(1) have str: "\<And>s. s \<in> set ?texts \<Longrightarrow> is_str s" and short: "\<forall>key \<in> set ?keys. length key \<le> MAX_DOMAIN_KEY"
    and plain: "\<And>d. d \<in> set exact \<Longrightarrow> \<not> prefix [CHR 0x0D] d \<and> \<not> prefix [CHR 0x0A] d"
    and size: "fits (levels [trie_of ?keys])" by (auto simp: domains_ok_def list_all_iff key_text_put(2))
  from collect_trie [OF size short] obtain out where
    out: "collect_domain_keys 0 (trie_kids (trie_of ?keys)) (put_bits (map is_leaf (levels [trie_of ?keys]))) [] [] = Inr out"
      "set out = set ?keys" by blast
  have "key_text k = Inr (projr (key_text k))" if "k \<in> set out" for k
    using that out(2) key_text_put(1) [OF str] by auto
  then have texts: "try_map key_text out = Inr (map (\<lambda>k. projr (key_text k)) out)" by (rule try_map_Inr_total)
  have set_texts: "set (map (\<lambda>k. projr (key_text k)) out) = set ?texts"
    using out(2) key_text_put(1) [OF str] by (force simp: image_iff)
  from add_keys [OF texts, of "\<lparr>ds_exact = {}, ds_prefix = {}, ds_suffix = {}\<rparr>"] obtain d where
    d: "try_fold add_key \<lparr>ds_exact = {}, ds_prefix = {}, ds_suffix = {}\<rparr> out = Inr d"
      "ds_exact d = {t \<in> set ?texts. \<not> prefix [CHR 0x0D] t \<and> \<not> prefix [CHR 0x0A] t}"
      "ds_prefix d = {v. CHR 0x0D # v \<in> set ?texts}" "ds_suffix d = {v. CHR 0x0A # v \<in> set ?texts}"
    unfolding set_texts by auto
  have sets: "ds_exact d = set exact" "ds_prefix d = {v \<in> set sfx. prefix ''.'' v}" "ds_suffix d = {v \<in> set sfx. \<not> prefix ''.'' v}"
  proof -
    have "CHR 0x0D # v \<notin> set exact" "CHR 0x0A # v \<notin> set exact" for v
      using plain [of "CHR 0x0D # v"] plain [of "CHR 0x0A # v"] by auto
    then show "ds_exact d = set exact" "ds_prefix d = {v \<in> set sfx. prefix ''.'' v}" "ds_suffix d = {v \<in> set sfx. \<not> prefix ''.'' v}"
      unfolding d(2-4) domain_texts_def using plain by (auto split: if_splits)
  qed
  have dot: "prefix ''.'' v \<longleftrightarrow> (\<exists>r. v = CHR ''.'' # r)" for v by (cases v) auto
  have "merged_exact d = {d \<in> set exact. CHR ''.'' # d \<notin> set sfx}" by (auto simp: merged_exact_def sets)
  moreover have "merged_suffix d = {v \<in> set sfx. \<forall>d. v = CHR ''.'' # d \<longrightarrow> d \<notin> set exact} \<union> {d \<in> set exact. CHR ''.'' # d \<in> set sfx}"
    by (auto simp: merged_suffix_def sets dot)
  ultimately have "dump_domain_keys iter out = Inr (read_exact_domains exact sfx, read_suffixes exact sfx)"
    by (simp add: dump_domain_keys_eq [OF assms(2)] d(1) read_exact_domains_def read_suffixes_def)
  with out(1) show ?thesis
    by (simp add: read_domain_matcher_def put_domain_matcher_def read_trie_put [OF size] ensure_def)
qed

end
