(* ===== verification/Srs.thy ===== *)
theory Srs
  imports Srs_Trie
begin

text \<open>
  The binary rule-set decoder (\<open>srs.rs\<close>): the items of a default rule, logical rules nested
  to a bounded depth, and the whole file behind its header and its compressed body. The
  decompressor is a library and is the parameter \<open>inflate\<close>; \<open>iter\<close> is the iteration order
  of the hash set in the domain matcher.
\<close>

section \<open>Rules\<close>

abbreviation (input) "ITEM_QUERY_TYPE \<equiv> 0 :: u8"
abbreviation (input) "ITEM_NETWORK \<equiv> 1 :: u8"
abbreviation (input) "ITEM_DOMAIN \<equiv> 2 :: u8"
abbreviation (input) "ITEM_DOMAIN_KEYWORD \<equiv> 3 :: u8"
abbreviation (input) "ITEM_DOMAIN_REGEX \<equiv> 4 :: u8"
abbreviation (input) "ITEM_SOURCE_IP_CIDR \<equiv> 5 :: u8"
abbreviation (input) "ITEM_IP_CIDR \<equiv> 6 :: u8"
abbreviation (input) "ITEM_SOURCE_PORT \<equiv> 7 :: u8"
abbreviation (input) "ITEM_SOURCE_PORT_RANGE \<equiv> 8 :: u8"
abbreviation (input) "ITEM_PORT \<equiv> 9 :: u8"
abbreviation (input) "ITEM_PORT_RANGE \<equiv> 10 :: u8"
abbreviation (input) "ITEM_PROCESS_NAME \<equiv> 11 :: u8"
abbreviation (input) "ITEM_PROCESS_PATH \<equiv> 12 :: u8"
abbreviation (input) "ITEM_PACKAGE_NAME \<equiv> 13 :: u8"
abbreviation (input) "ITEM_WIFI_SSID \<equiv> 14 :: u8"
abbreviation (input) "ITEM_WIFI_BSSID \<equiv> 15 :: u8"
abbreviation (input) "ITEM_ADGUARD_DOMAIN \<equiv> 16 :: u8"
abbreviation (input) "ITEM_PROCESS_PATH_REGEX \<equiv> 17 :: u8"
abbreviation (input) "ITEM_NETWORK_TYPE \<equiv> 18 :: u8"
abbreviation (input) "ITEM_NETWORK_IS_EXPENSIVE \<equiv> 19 :: u8"
abbreviation (input) "ITEM_NETWORK_IS_CONSTRAINED \<equiv> 20 :: u8"
abbreviation (input) "ITEM_NETWORK_INTERFACE_ADDRESS \<equiv> 21 :: u8"
abbreviation (input) "ITEM_DEFAULT_INTERFACE_ADDRESS \<equiv> 22 :: u8"
abbreviation (input) "ITEM_PACKAGE_NAME_REGEX \<equiv> 23 :: u8"
abbreviation (input) "ITEM_FINAL \<equiv> 255 :: u8"

definition unsupported :: "string \<Rightarrow> srs_error + ('a \<times> bytes) \<Rightarrow> srs_error + 'b" where
  "unsupported name decoded = and_then decoded (\<lambda>_. Inl (UnsupportedItem name))"

text \<open>One turn of the item loop: the fields so far, and whether the final item was read.\<close>

definition store ::
    "srs_error + ('a \<times> bytes) \<Rightarrow> ('a \<Rightarrow> headless_fields) \<Rightarrow> srs_error + ((headless_fields \<times> bool) \<times> bytes)" where
  "store decoded upd = and_then decoded (\<lambda>(v, rest). Inr ((upd v, False), rest))"

definition read_item ::
    "(string set \<Rightarrow> string list) \<Rightarrow> headless_fields \<Rightarrow> (headless_fields \<times> bool) reader" where
  "read_item iter r bs = and_then (srs_u8 bs) (\<lambda>(item, bs).
     if item = ITEM_NETWORK then store (read_strings bs) (\<lambda>v. r\<lparr>hf_network := v\<rparr>)
     else if item = ITEM_DOMAIN then
       store (read_domain_matcher iter bs) (\<lambda>(d, s). r\<lparr>hf_domain := d, hf_domain_suffix := s\<rparr>)
     else if item = ITEM_DOMAIN_KEYWORD then store (read_strings bs) (\<lambda>v. r\<lparr>hf_domain_keyword := v\<rparr>)
     else if item = ITEM_SOURCE_IP_CIDR then store (read_ip_set bs) (\<lambda>v. r\<lparr>hf_source_ip_cidr := v\<rparr>)
     else if item = ITEM_IP_CIDR then store (read_ip_set bs) (\<lambda>v. r\<lparr>hf_ip_cidr := v\<rparr>)
     else if item = ITEM_SOURCE_PORT then store (read_u16s bs) (\<lambda>v. r\<lparr>hf_source_port := v\<rparr>)
     else if item = ITEM_SOURCE_PORT_RANGE then
       store (read_strings bs) (\<lambda>v. r\<lparr>hf_source_port_range := v\<rparr>)
     else if item = ITEM_PORT then store (read_u16s bs) (\<lambda>v. r\<lparr>hf_port := v\<rparr>)
     else if item = ITEM_PORT_RANGE then store (read_strings bs) (\<lambda>v. r\<lparr>hf_port_range := v\<rparr>)
     else if item = ITEM_FINAL then
       and_then (read_bool bs) (\<lambda>(b, rest). Inr ((r\<lparr>hf_invert := b\<rparr>, True), rest))
     else if item = ITEM_QUERY_TYPE then unsupported ''query_type'' (read_u16s bs)
     else if item = ITEM_DOMAIN_REGEX then unsupported ''domain_regex'' (read_strings bs)
     else if item = ITEM_PROCESS_NAME then unsupported ''process_name'' (read_strings bs)
     else if item = ITEM_PROCESS_PATH then unsupported ''process_path'' (read_strings bs)
     else if item = ITEM_PACKAGE_NAME then unsupported ''package_name'' (read_strings bs)
     else if item = ITEM_WIFI_SSID then unsupported ''wifi_ssid'' (read_strings bs)
     else if item = ITEM_WIFI_BSSID then unsupported ''wifi_bssid'' (read_strings bs)
     else if item = ITEM_PROCESS_PATH_REGEX then unsupported ''process_path_regex'' (read_strings bs)
     else if item = ITEM_PACKAGE_NAME_REGEX then unsupported ''package_name_regex'' (read_strings bs)
     else if item = ITEM_ADGUARD_DOMAIN then Inl (UnsupportedItem ''adguard_domain'')
     else if item = ITEM_NETWORK_TYPE then unsupported ''network_type'' (read_u8s bs)
     else if item = ITEM_NETWORK_IS_EXPENSIVE then Inl (UnsupportedItem ''network_is_expensive'')
     else if item = ITEM_NETWORK_IS_CONSTRAINED then Inl (UnsupportedItem ''network_is_constrained'')
     else if item = ITEM_NETWORK_INTERFACE_ADDRESS then
       Inl (UnsupportedItem ''network_interface_address'')
     else if item = ITEM_DEFAULT_INTERFACE_ADDRESS then
       Inl (UnsupportedItem ''default_interface_address'')
     else Inl (UnknownItem item))"

lemma store_rest:
  "store decoded upd = Inr (x, rest) \<Longrightarrow> \<exists>v. decoded = Inr (v, rest) \<and> x = (upd v, False)"
  by (auto simp: store_def)

lemma unsupported_not_Inr [simp]: "unsupported name decoded \<noteq> Inr x"
  by (cases decoded) (simp_all add: unsupported_def)

lemma read_bool_rest: "read_bool bs = Inr (x, rest) \<Longrightarrow> length rest < length bs"
  by (auto simp: read_bool_def split: if_splits)

lemma read_item_consumes: "read_item iter r bs = Inr (x, rest) \<Longrightarrow> length rest < length bs"
  by (auto simp: read_item_def split: if_splits
      dest!: store_rest read_bool_rest consumesD [OF read_strings_consumes]
        consumesD [OF read_u16s_consumes] consumesD [OF read_ip_set_consumes]
        consumesD [OF read_domain_matcher_consumes])

function read_default_from ::
    "(string set \<Rightarrow> string list) \<Rightarrow> headless_fields \<Rightarrow> headless_fields reader" where
  "read_default_from iter r bs =
     (case read_item iter r bs of
        Inl e \<Rightarrow> Inl e
      | Inr ((r', final), rest) \<Rightarrow>
          if final then Inr (r', rest) else read_default_from iter r' rest)"
  by pat_completeness auto
termination
  by (relation "measure (\<lambda>(_, _, bs). length bs)") (auto dest: read_item_consumes)

declare read_default_from.simps [simp del]

definition read_default_rule :: "(string set \<Rightarrow> string list) \<Rightarrow> headless_rule_config reader" where
  "read_default_rule iter bs =
     and_then (read_default_from iter default_headless_fields bs) (\<lambda>(r, rest).
     Inr (HeadlessRuleConfig r [], rest))"

definition binary_mode :: "u8 \<Rightarrow> srs_error + string" where
  "binary_mode m = (if m = 0 then Inr ''and'' else if m = 1 then Inr ''or'' else Inl (UnknownBinaryMode m))"

text \<open>The reader of the nested rules is \<open>read_rule\<close> one level deeper.\<close>

definition read_logical_rule :: "headless_rule_config reader \<Rightarrow> headless_rule_config reader" where
  "read_logical_rule nested bs =
     and_then (srs_u8 bs) (\<lambda>(m, bs).
     and_then (binary_mode m) (\<lambda>mode.
     and_then (read_count ''logical rule count'' bs) (\<lambda>(count, bs).
     and_then (read_many nested count bs) (\<lambda>(rules, bs).
     and_then (read_bool bs) (\<lambda>(invert, bs).
     Inr (HeadlessRuleConfig
            (default_headless_fields\<lparr>hf_kind := ''logical'', hf_mode := mode, hf_invert := invert\<rparr>)
            rules, bs))))))"

function read_rule :: "(string set \<Rightarrow> string list) \<Rightarrow> nat \<Rightarrow> headless_rule_config reader" where
  "read_rule iter depth bs =
     (if depth < MAX_RECURSION then
        and_then (srs_u8 bs) (\<lambda>(kind, bs).
          if kind = 0 then read_default_rule iter bs
          else if kind = 1 then read_logical_rule (\<lambda>bs. read_rule iter (depth + 1) bs) bs
          else Inl (UnknownRuleType kind))
      else Inl NestingTooDeep)"
  by pat_completeness auto
termination
  by (relation "measure (\<lambda>(_, depth, _). MAX_RECURSION - depth)") auto

declare read_rule.simps [simp del]

section \<open>The file\<close>

definition MAGIC :: bytes where "MAGIC = as_bytes ''SRS''"
definition CURRENT_VERSION :: u8 where "CURRENT_VERSION = 5"

fun read_rules :: "(string set \<Rightarrow> string list) \<Rightarrow> nat \<Rightarrow> nat \<Rightarrow> (headless_rule_config list) reader" where
  "read_rules iter index 0 bs = Inr ([], bs)"
| "read_rules iter index (Suc n) bs =
     and_then (map_err (AtRule index) (read_rule iter 0 bs)) (\<lambda>(r, bs).
     and_then (read_rules iter (Suc index) n bs) (\<lambda>(rs, bs). Inr (r # rs, bs)))"

definition srs_decode ::
    "(string set \<Rightarrow> string list) \<Rightarrow> (nat \<Rightarrow> bytes \<Rightarrow> bytes option) \<Rightarrow> bytes \<Rightarrow> srs_error + rule_set_source" where
  "srs_decode iter inflate input =
     and_then (ensure (length input \<ge> 4) TruncatedHeader) (\<lambda>_.
     and_then (ensure (take 3 input = MAGIC) InvalidMagic) (\<lambda>_.
     let version = input ! 3 in
     and_then (ensure (1 \<le> version \<and> version \<le> CURRENT_VERSION) (UnsupportedVersion version)) (\<lambda>_.
     and_then (ok_or DecompressFailed (inflate (MAX_DECOMPRESSED_SIZE + 1) (drop 4 input))) (\<lambda>decompressed.
     and_then (ensure (length decompressed \<le> MAX_DECOMPRESSED_SIZE) DecompressedTooLarge) (\<lambda>_.
     and_then (read_count ''rule count'' decompressed) (\<lambda>(count, bs).
     and_then (read_rules iter 0 count bs) (\<lambda>(rules, bs).
     and_then (ensure (bs = []) TrailingData) (\<lambda>_.
     Inr \<lparr>rss_version = version, rss_rules = rules\<rparr>))))))))"

section \<open>Nesting is bounded\<close>

fun rule_nesting :: "headless_rule_config \<Rightarrow> nat" where
  "rule_nesting (HeadlessRuleConfig f rules) = Suc (foldr max (map rule_nesting rules) 0)"

lemma foldr_max_le: "foldr max ns (0::nat) \<le> k \<longleftrightarrow> (\<forall>n \<in> set ns. n \<le> k)"
  by (induction ns) auto

lemma read_many_set:
  "read_many p n bs = Inr (xs, rest) \<Longrightarrow> x \<in> set xs \<Longrightarrow> \<exists>cs ds. p cs = Inr (x, ds)"
  by (induction n arbitrary: bs xs) (auto, blast)

lemma read_rule_nesting:
  "read_rule iter depth bs = Inr (r, rest) \<Longrightarrow> depth + rule_nesting r \<le> MAX_RECURSION"
proof (induction iter depth bs arbitrary: r rest rule: read_rule.induct)
  case (1 iter depth bs)
  from "1.prems" have d: "depth < MAX_RECURSION"
    by (subst (asm) read_rule.simps) (simp split: if_splits)
  from "1.prems" d consider (default) f where "r = HeadlessRuleConfig f []"
    | (logical) f rules n cs ds where "r = HeadlessRuleConfig f rules"
        "read_many (\<lambda>bs. read_rule iter (depth + 1) bs) n cs = Inr (rules, ds)"
    by (subst (asm) read_rule.simps)
      (auto simp: read_default_rule_def read_logical_rule_def split: if_splits)
  then show ?case
  proof cases
    case default
    with d show ?thesis by simp
  next
    case logical
    have "depth + 1 + rule_nesting x \<le> MAX_RECURSION" if "x \<in> set rules" for x
      using read_many_set [OF logical(2) that] "1.IH" [OF d, of 1] by auto
    then have "foldr max (map rule_nesting rules) 0 \<le> MAX_RECURSION - (depth + 1)"
      by (auto simp: foldr_max_le le_diff_conv2 d Suc_leI add.commute)
    with d logical(1) show ?thesis by simp
  qed
qed

section \<open>The writer of the format\<close>

text \<open>
  A reference writer of rule files: one constructor per item the decoder supports; \<open>DomainItem\<close> has the exact domains and the
  suffixes of a domain matcher. A later item of a kind replaces an earlier one.
\<close>

datatype srs_item =
    NetworkItem "string list" | DomainItem "string list" "string list" | KeywordItem "string list"
  | SourceCidrItem "addr_range list" | CidrItem "addr_range list"
  | SourcePortItem "u16 list" | SourcePortRangeItem "string list"
  | PortItem "u16 list" | PortRangeItem "string list"

datatype srs_rule = DefaultRule "srs_item list" bool | LogicalRule logical_mode "srs_rule list" bool

definition put_string :: "string \<Rightarrow> bytes" where "put_string s = put_bytes (as_bytes s)"

definition put_bool :: "bool \<Rightarrow> u8" where "put_bool b = (if b then 1 else 0)"

fun put_item :: "srs_item \<Rightarrow> bytes" where
  "put_item (NetworkItem v) = 1 # put_list put_string v"
| "put_item (DomainItem exact sfx) = 2 # put_domain_matcher exact sfx"
| "put_item (KeywordItem v) = 3 # put_list put_string v"
| "put_item (SourceCidrItem v) = 5 # put_ip_set v"
| "put_item (CidrItem v) = 6 # put_ip_set v"
| "put_item (SourcePortItem v) = 7 # put_list be_bytes v"
| "put_item (SourcePortRangeItem v) = 8 # put_list put_string v"
| "put_item (PortItem v) = 9 # put_list be_bytes v"
| "put_item (PortRangeItem v) = 10 # put_list put_string v"

fun put_rule :: "srs_rule \<Rightarrow> bytes" where
  "put_rule (DefaultRule items invert) =
     0 # concat (map put_item items) @ [255, put_bool invert]"
| "put_rule (LogicalRule mode rules invert) =
     1 # (case mode of And \<Rightarrow> 0 | Or \<Rightarrow> 1) # put_list put_rule rules @ [put_bool invert]"

fun set_item :: "headless_fields \<Rightarrow> srs_item \<Rightarrow> headless_fields" where
  "set_item r (NetworkItem v) = r\<lparr>hf_network := v\<rparr>"
| "set_item r (DomainItem exact sfx) =
     r\<lparr>hf_domain := read_exact_domains exact sfx, hf_domain_suffix := read_suffixes exact sfx\<rparr>"
| "set_item r (KeywordItem v) = r\<lparr>hf_domain_keyword := v\<rparr>"
| "set_item r (SourceCidrItem v) = r\<lparr>hf_source_ip_cidr := set_text v\<rparr>"
| "set_item r (CidrItem v) = r\<lparr>hf_ip_cidr := set_text v\<rparr>"
| "set_item r (SourcePortItem v) = r\<lparr>hf_source_port := v\<rparr>"
| "set_item r (SourcePortRangeItem v) = r\<lparr>hf_source_port_range := v\<rparr>"
| "set_item r (PortItem v) = r\<lparr>hf_port := v\<rparr>"
| "set_item r (PortRangeItem v) = r\<lparr>hf_port_range := v\<rparr>"

fun rule_config :: "srs_rule \<Rightarrow> headless_rule_config" where
  "rule_config (DefaultRule items invert) =
     HeadlessRuleConfig ((foldl set_item default_headless_fields items)\<lparr>hf_invert := invert\<rparr>) []"
| "rule_config (LogicalRule mode rules invert) =
     HeadlessRuleConfig
       (default_headless_fields\<lparr>hf_kind := ''logical'',
          hf_mode := (case mode of And \<Rightarrow> ''and'' | Or \<Rightarrow> ''or''), hf_invert := invert\<rparr>)
       (map rule_config rules)"

definition strings_ok :: "string list \<Rightarrow> bool" where
  "strings_ok v \<longleftrightarrow> fits v \<and> list_all (\<lambda>s. is_str s \<and> fits s) v"

fun item_ok :: "srs_item \<Rightarrow> bool" where
  "item_ok (NetworkItem v) = strings_ok v"
| "item_ok (DomainItem exact sfx) = domains_ok exact sfx"
| "item_ok (KeywordItem v) = strings_ok v"
| "item_ok (SourceCidrItem v) = (list_all range_wf v \<and> fits v)"
| "item_ok (CidrItem v) = (list_all range_wf v \<and> fits v)"
| "item_ok (SourcePortItem v) = fits v"
| "item_ok (SourcePortRangeItem v) = strings_ok v"
| "item_ok (PortItem v) = fits v"
| "item_ok (PortRangeItem v) = strings_ok v"

text \<open>\<open>rule_ok k r\<close>: every part fits its length field and the rules nest at most \<open>k\<close> deep.\<close>

fun rule_ok :: "nat \<Rightarrow> srs_rule \<Rightarrow> bool" where
  "rule_ok 0 r = False"
| "rule_ok (Suc k) (DefaultRule items invert) = list_all item_ok items"
| "rule_ok (Suc k) (LogicalRule mode rules invert) = (fits rules \<and> list_all (rule_ok k) rules)"

lemma read_string_put: "is_str s \<Longrightarrow> fits s \<Longrightarrow> read_string (put_string s @ rest) = Inr (s, rest)"
  by (simp add: read_string_def put_string_def fits_def)

lemma read_strings_put: "strings_ok v \<Longrightarrow> read_strings (put_list put_string v @ rest) = Inr (v, rest)"
  using read_many_put [where p = read_string and put = put_string and f = "\<lambda>s. s" and xs = v]
  by (simp add: read_strings_def put_list_def strings_ok_def fits_def list_all_iff read_string_put)

lemma read_u16s_put: "fits v \<Longrightarrow> read_u16s (put_list be_bytes v @ rest) = Inr (v, rest)"
  using read_many_put [where p = read_be_u16 and put = be_bytes and f = "\<lambda>s. s" and xs = v]
  by (simp add: read_u16s_def put_list_def fits_def read_be_u16_def)

lemma read_item_put: "item_ok it \<Longrightarrow> lists_sets iter \<Longrightarrow> read_item iter r (put_item it @ rest) = Inr ((set_item r it, False), rest)"
  by (cases it)
    (simp_all add: read_item_def store_def read_strings_put read_u16s_put read_ip_set_put read_domain_matcher_put fits_def)

lemma read_default_from_put:
  "list_all item_ok items \<Longrightarrow> lists_sets iter \<Longrightarrow>
   read_default_from iter r (concat (map put_item items) @ 255 # put_bool b # rest)
     = Inr ((foldl set_item r items)\<lparr>hf_invert := b\<rparr>, rest)"
proof (induction items arbitrary: r)
  case Nil
  show ?case by (subst read_default_from.simps) (simp add: read_item_def read_bool_def put_bool_def)
next
  case (Cons it items)
  then show ?case by (subst read_default_from.simps) (simp add: read_item_put)
qed

lemma read_logical_rule_put:
  assumes "\<And>r rest. r \<in> set rules \<Longrightarrow> nested (put_rule r @ rest) = Inr (rule_config r, rest)"
    and "fits rules"
  shows "read_logical_rule nested
      ((case mode of And \<Rightarrow> 0 | Or \<Rightarrow> 1) # put_list put_rule rules @ put_bool invert # rest)
    = Inr (rule_config (LogicalRule mode rules invert), rest)"
proof -
  have "read_many nested (length rules) (concat (map put_rule rules) @ xs)
      = Inr (map rule_config rules, xs)" for xs
    by (rule read_many_put) (rule assms(1))
  moreover have "read_bool (put_bool invert # rest) = Inr (invert, rest)"
    by (simp add: read_bool_def put_bool_def)
  moreover have "length rules \<le> MAX_COLLECTION_SIZE" using assms(2) by (simp add: fits_def)
  ultimately show ?thesis
    by (cases mode)
      (simp_all add: read_logical_rule_def binary_mode_def put_list_def del: and_then_eq_Inr)
qed

lemma read_rule_put_lemma:
  "rule_ok k r \<Longrightarrow> depth + k \<le> MAX_RECURSION \<Longrightarrow> lists_sets iter \<Longrightarrow>
   read_rule iter depth (put_rule r @ rest) = Inr (rule_config r, rest)"
proof (induction k r arbitrary: depth rest rule: rule_ok.induct)
  case (2 k items invert)
  then show ?case
    by (subst read_rule.simps) (simp add: read_default_rule_def read_default_from_put)
next
  case (3 k mode rules invert)
  have nested: "read_rule iter (depth + 1) (put_rule r @ rest) = Inr (rule_config r, rest)"
    if "r \<in> set rules" for r rest
    using "3.IH" [OF that] "3.prems" that by (simp add: list_all_iff)
  note logical = read_logical_rule_put [where rules = rules and nested = "read_rule iter (depth + 1)",
      OF nested, simplified]
  from "3.prems" have "fits rules" "depth < MAX_RECURSION" by simp_all
  then show ?case
    by (subst read_rule.simps) (simp add: logical)
qed simp

definition srs_file :: "(bytes \<Rightarrow> bytes) \<Rightarrow> u8 \<Rightarrow> srs_rule list \<Rightarrow> bytes" where
  "srs_file deflate version rules = MAGIC @ [version] @ deflate (put_list put_rule rules)"

lemma read_rules_put:
  "list_all (rule_ok MAX_RECURSION) rules \<Longrightarrow> lists_sets iter \<Longrightarrow>
   read_rules iter i (length rules) (concat (map put_rule rules) @ rest) = Inr (map rule_config rules, rest)"
  by (induction rules arbitrary: i) (simp_all add: read_rule_put_lemma [of MAX_RECURSION _ 0])

lemma srs_decode_file_lemma:
  assumes "list_all (rule_ok MAX_RECURSION) rules" and "fits rules"
    and "length (put_list put_rule rules) \<le> MAX_DECOMPRESSED_SIZE"
    and "1 \<le> version" and "version \<le> CURRENT_VERSION"
    and "\<And>n x. inflate n (deflate x) = Some (take n x)" and "lists_sets iter"
  shows "srs_decode iter inflate (srs_file deflate version rules)
    = Inr \<lparr>rss_version = version, rss_rules = map rule_config rules\<rparr>"
proof -
  have "length MAGIC = 3" by (simp add: MAGIC_def)
  then have "take 3 (srs_file deflate version rules) = MAGIC"
    "srs_file deflate version rules ! 3 = version"
    "drop 4 (srs_file deflate version rules) = deflate (put_list put_rule rules)"
    "length (srs_file deflate version rules) \<ge> 4"
    by (simp_all add: srs_file_def nth_append)
  moreover have "read_rules iter 0 (length rules) (concat (map put_rule rules)) = Inr (map rule_config rules, [])"
    using read_rules_put [OF assms(1,7), of 0 "[]"] by simp
  ultimately show ?thesis
    using assms(2-) by (simp add: srs_decode_def put_list_def fits_def)
qed

section \<open>Properties\<close>

lemma rule_ok_pos:
  "0 < k \<Longrightarrow> rule_ok k (DefaultRule items invert) \<longleftrightarrow> list_all item_ok items"
  "0 < k \<Longrightarrow> rule_ok k (LogicalRule mode rules invert) \<longleftrightarrow> fits rules \<and> list_all (rule_ok (k - 1)) rules"
  by (cases k; simp)+

text \<open>C15: A binary rule-set file decodes to the rules it was written from. For every list of rules
  nested at most 64 deep, with any of the items the decoder supports, domain matchers with their tries included, with collections within the limits
  and a supported version, the file made of the magic, the version and the compressed rules decodes to the configuration of those
  rules, provided the decompressor returns a prefix of what was compressed and a hash set lists its elements once each. The domains and suffixes of a
  matcher come back once each and in order; a domain whose dotted suffix is also there comes back with it as one suffix without the dot.\<close>

theorem srs_decode_file:
  assumes "list_all (rule_ok MAX_RECURSION) rules" and "fits rules"
    and "length (put_list put_rule rules) \<le> MAX_DECOMPRESSED_SIZE"
    and "1 \<le> version" and "version \<le> CURRENT_VERSION"
    and "\<And>n x. inflate n (deflate x) = Some (take n x)" and "lists_sets iter"
  shows "srs_decode iter inflate (srs_file deflate version rules)
    = Inr \<lparr>rss_version = version, rss_rules = map rule_config rules\<rparr>"
  by (rule srs_decode_file_lemma) (fact assms)+

lemma lists_sets_sorted: "lists_sets sorted_list_of_set"
  by (simp add: lists_sets_def)

text \<open>A rule on a port, and one with a domain matcher, in which a domain and its dotted suffix meet.\<close>

theorem srs_decode_file_witness:
  "srs_decode sorted_list_of_set (\<lambda>n x. Some (take n x))
      (srs_file (\<lambda>x. x) 3 [LogicalRule Or [DefaultRule [PortItem [443]] False] True,
        DefaultRule [DomainItem [''a.b'', ''b''] [''c'', ''.b'']] False])
    = Inr \<lparr>rss_version = 3, rss_rules = [HeadlessRuleConfig
        (default_headless_fields\<lparr>hf_kind := ''logical'', hf_mode := ''or'', hf_invert := True\<rparr>)
        [HeadlessRuleConfig (default_headless_fields\<lparr>hf_port := [443]\<rparr>) []],
      HeadlessRuleConfig (default_headless_fields\<lparr>hf_domain := [''a.b''], hf_domain_suffix := [''b'', ''c'']\<rparr>) []]\<rparr>"
proof -
  let ?exact = "[''a.b'', ''b'']" and ?sfx = "[''c'', ''.b'']"
  let ?rules = "[LogicalRule Or [DefaultRule [PortItem [443]] False] True, DefaultRule [DomainItem ?exact ?sfx] False]"
  have texts: "domain_texts ?exact ?sfx = [''a.b'', ''b'', CHR 0x0A # ''c'', CHR 0x0D # ''.b'']" by (simp add: domain_texts_def)
  have "list_all (\<lambda>s. is_str s \<and> length s \<le> MAX_DOMAIN_KEY) (domain_texts ?exact ?sfx)"
    unfolding texts by (auto simp: MAX_DOMAIN_KEY_def intro!: is_ascii_is_str)
  moreover have "length (levels [trie_of (map put_key (domain_texts ?exact ?sfx))]) \<le> 100" by code_simp
  then have "fits (levels [trie_of (map put_key (domain_texts ?exact ?sfx))])" by (simp add: fits_def MAX_COLLECTION_SIZE_def)
  ultimately have domains: "domains_ok ?exact ?sfx" by (simp add: domains_ok_def)
  have "{d \<in> set ?exact. CHR ''.'' # d \<notin> set ?sfx} = {''a.b''}" by auto
  then have exact: "read_exact_domains ?exact ?sfx = [''a.b'']" by (simp add: read_exact_domains_def)
  have "{v \<in> set ?sfx. \<forall>d. v = CHR ''.'' # d \<longrightarrow> d \<notin> set ?exact} \<union> {d \<in> set ?exact. CHR ''.'' # d \<in> set ?sfx} = {''b'', ''c''}" by auto
  moreover have "sorted_list_of_set {''b'', ''c''} = [''b'', ''c'']" by simp
  ultimately have sfx: "read_suffixes ?exact ?sfx = [''b'', ''c'']" by (simp only: read_suffixes_def)
  have "list_all (rule_ok MAX_RECURSION) ?rules"
    using domains by (simp add: rule_ok_pos MAX_RECURSION_def fits_def MAX_COLLECTION_SIZE_def)
  moreover have "length (put_list put_rule ?rules) \<le> 1000" by code_simp
  then have "length (put_list put_rule ?rules) \<le> MAX_DECOMPRESSED_SIZE"
    by (simp add: MAX_DECOMPRESSED_SIZE_def)
  ultimately show ?thesis
    using srs_decode_file [of ?rules 3 "\<lambda>n x. Some (take n x)" "\<lambda>x. x" sorted_list_of_set] exact sfx
    by (simp add: fits_def MAX_COLLECTION_SIZE_def CURRENT_VERSION_def default_headless_fields_def lists_sets_sorted)
qed

lemma read_rules_bounds:
  "read_rules iter i n bs = Inr (rules, rest) \<Longrightarrow>
   length rules = n \<and> (\<forall>r \<in> set rules. rule_nesting r \<le> MAX_RECURSION)"
proof (induction n arbitrary: i bs rules rest)
  case (Suc n)
  from Suc.prems obtain r bs' rs where r: "read_rule iter 0 bs = Inr (r, bs')"
    and "read_rules iter (Suc i) n bs' = Inr (rs, rest)" "rules = r # rs" by auto
  with Suc.IH [OF this(2)] read_rule_nesting [OF r] show ?case by auto
qed simp

text \<open>A decoded rule-set is bounded. Whatever the input bytes, a successful decode has a version
  between 1 and 5, at most four million rules and no rule nested deeper than 64 levels, so the
  recursive matcher over it cannot run away.\<close>

theorem srs_decode_bounds:
  assumes "srs_decode iter inflate input = Inr source"
  shows "1 \<le> rss_version source \<and> rss_version source \<le> 5
    \<and> length (rss_rules source) \<le> 4000000 \<and> (\<forall>r \<in> set (rss_rules source). rule_nesting r \<le> 64)"
proof -
  from assms obtain count bs rules rest where
    version: "1 \<le> rss_version source" "rss_version source \<le> CURRENT_VERSION"
    and count: "unat (count :: u64) \<le> MAX_COLLECTION_SIZE"
    and rules: "read_rules iter 0 (unat count) bs = Inr (rules, rest)" "rss_rules source = rules"
    by (auto simp: srs_decode_def Let_def read_count_def split: if_splits)
  with read_rules_bounds [OF rules(1)] show ?thesis
    by (simp add: CURRENT_VERSION_def MAX_COLLECTION_SIZE_def MAX_RECURSION_def)
qed

theorem srs_decode_bounds_witness:
  "\<exists>source. srs_decode sorted_list_of_set (\<lambda>n x. Some (take n x)) (MAGIC @ [1, 0]) = Inr source
    \<and> rss_version source \<le> 5 \<and> length (rss_rules source) \<le> 4000000"
proof -
  have "push_uvarint 0 = [0]" by code_simp
  then have "srs_decode sorted_list_of_set (\<lambda>n x. Some (take n x)) (MAGIC @ [1, 0])
      = Inr \<lparr>rss_version = 1, rss_rules = []\<rparr>"
    using srs_decode_file_lemma [of "[]" 1 "\<lambda>n x. Some (take n x)" "\<lambda>x. x" sorted_list_of_set]
    by (simp add: srs_file_def put_list_def fits_def MAX_DECOMPRESSED_SIZE_def CURRENT_VERSION_def lists_sets_sorted)
  from this and srs_decode_bounds [OF this] show ?thesis by blast
qed

end
