(* ===== verification/Duration.thy ===== *)
theory Duration
  imports Rust_Str
begin

text \<open>
  \<open>parse_duration\<close> of \<open>router.rs\<close>: a text such as \<open>1h30m\<close> is a sequence of numbers and
  units whose values are summed. The code computes with \<open>f64\<close>; its operations are a
  parameter, so nothing here depends on rounding. A \<open>Duration\<close> is its number of nanoseconds.
\<close>

record 'f float_ops =
  fl_parse :: "string \<Rightarrow> 'f option"
  fl_literal :: "string \<Rightarrow> 'f"
  fl_is_finite :: "'f \<Rightarrow> bool"
  fl_non_negative :: "'f \<Rightarrow> bool"
  fl_add :: "'f \<Rightarrow> 'f \<Rightarrow> 'f"
  fl_mul :: "'f \<Rightarrow> 'f \<Rightarrow> 'f"
  fl_duration :: "'f \<Rightarrow> nat option"

datatype duration_error =
    MissingUnit | MissingNumber | BadNumber string | InvalidNumber | UnknownUnit string | TooLarge

definition number_char :: "char \<Rightarrow> bool" where
  "number_char c \<longleftrightarrow> (48 \<le> (of_char c :: nat) \<and> (of_char c :: nat) \<le> 57) \<or> c = CHR ''.''"

definition multiplier :: "'f float_ops \<Rightarrow> string \<Rightarrow> 'f option" where
  "multiplier ops u =
     (let lit = fl_literal ops; mul = fl_mul ops in
      if u = ''ns'' then Some (lit ''1e-9'')
      else if u = ''us'' then Some (lit ''1e-6'')
      else if u = ''ms'' then Some (lit ''1e-3'')
      else if u = ''s'' then Some (lit ''1.0'')
      else if u = ''m'' then Some (lit ''60.0'')
      else if u = ''h'' then Some (mul (lit ''60.0'') (lit ''60.0''))
      else if u = ''d'' then Some (mul (mul (lit ''24.0'') (lit ''60.0'')) (lit ''60.0''))
      else None)"

function duration_loop :: "'f float_ops \<Rightarrow> 'f \<Rightarrow> string \<Rightarrow> duration_error + 'f" where
  "duration_loop ops seconds remaining =
     (if remaining = [] then Inr seconds
      else case find_idx (\<lambda>c. \<not> number_char c) remaining of
        None \<Rightarrow> Inl MissingUnit
      | Some number_end \<Rightarrow>
          if number_end = 0 then Inl MissingNumber
          else case fl_parse ops (take number_end remaining) of
            None \<Rightarrow> Inl (BadNumber (take number_end remaining))
          | Some number \<Rightarrow>
              if \<not> (fl_is_finite ops number \<and> fl_non_negative ops number) then Inl InvalidNumber
              else
                let rest = drop number_end remaining;
                    unit_end = (case find_idx number_char rest of Some i \<Rightarrow> i | None \<Rightarrow> length rest)
                in case multiplier ops (take unit_end rest) of
                     None \<Rightarrow> Inl (UnknownUnit (take unit_end rest))
                   | Some m \<Rightarrow>
                       duration_loop ops (fl_add ops seconds (fl_mul ops number m)) (drop unit_end rest))"
  by pat_completeness auto
termination
  by (relation "measure (\<lambda>(_, _, s). length s)") auto

declare duration_loop.simps [simp del]

definition parse_duration :: "'f float_ops \<Rightarrow> string \<Rightarrow> duration_error + nat" where
  "parse_duration ops value =
     and_then (duration_loop ops (fl_literal ops ''0f64'') value) (\<lambda>seconds.
     and_then (ensure (fl_is_finite ops seconds) TooLarge) (\<lambda>_.
     ok_or TooLarge (fl_duration ops seconds)))"

section \<open>The sum of its parts\<close>

definition segment_ok :: "'f float_ops \<Rightarrow> string \<times> string \<Rightarrow> bool" where
  "segment_ok ops nu \<longleftrightarrow>
     fst nu \<noteq> [] \<and> list_all number_char (fst nu) \<and> list_all (\<lambda>c. \<not> number_char c) (snd nu)
     \<and> (\<exists>n. fl_parse ops (fst nu) = Some n \<and> fl_is_finite ops n \<and> fl_non_negative ops n)
     \<and> multiplier ops (snd nu) \<noteq> None"

definition segment_value :: "'f float_ops \<Rightarrow> string \<times> string \<Rightarrow> 'f" where
  "segment_value ops nu = fl_mul ops (the (fl_parse ops (fst nu))) (the (multiplier ops (snd nu)))"

lemma multiplier_Nil [simp]: "multiplier ops [] = None"
  by (simp add: multiplier_def)

lemma find_idx_prefix:
  "list_all (\<lambda>c. \<not> p c) xs \<Longrightarrow> ys \<noteq> [] \<Longrightarrow> p (hd ys) \<Longrightarrow> find_idx p (xs @ ys) = Some (length xs)"
  by (induction xs) (cases ys, auto)

lemma duration_loop_segment:
  assumes "segment_ok ops (n, u)" and "rest = [] \<or> number_char (hd rest)"
  shows "duration_loop ops s (n @ u @ rest)
    = duration_loop ops (fl_add ops s (segment_value ops (n, u))) rest"
proof -
  from assms(1) have n: "n \<noteq> []" "list_all number_char n" and u: "list_all (\<lambda>c. \<not> number_char c) u"
    and m: "multiplier ops u \<noteq> None"
    and p: "\<exists>v. fl_parse ops n = Some v \<and> fl_is_finite ops v \<and> fl_non_negative ops v"
    by (simp_all add: segment_ok_def)
  from m have "u \<noteq> []" by auto
  then have 1: "find_idx (\<lambda>c. \<not> number_char c) (n @ u @ rest) = Some (length n)"
    using n u by (intro find_idx_prefix) (auto simp: list_all_iff hd_append)
  have 2: "(case find_idx number_char (u @ rest) of Some i \<Rightarrow> i | None \<Rightarrow> length (u @ rest)) = length u"
  proof (cases "rest = []")
    case True
    with u have "find_idx number_char u = None" by (simp add: find_idx_None list_all_iff)
    with True show ?thesis by simp
  next
    case False
    with u assms(2) show ?thesis by (simp add: find_idx_prefix)
  qed
  from n(1) m p 1 2 show ?thesis
    by (subst duration_loop.simps) (auto simp: segment_value_def Let_def)
qed

lemma duration_loop_segments:
  "list_all (segment_ok ops) segs \<Longrightarrow>
   duration_loop ops s (concat (map (\<lambda>(n, u). n @ u) segs))
     = Inr (foldl (\<lambda>a nu. fl_add ops a (segment_value ops nu)) s segs)"
proof (induction segs arbitrary: s)
  case Nil
  show ?case by (simp add: duration_loop.simps)
next
  case (Cons nu segs)
  obtain n u where nu: "nu = (n, u)" by (cases nu)
  have "concat (map (\<lambda>(n, u). n @ u) segs) = [] \<or> number_char (hd (concat (map (\<lambda>(n, u). n @ u) segs)))"
  proof (cases segs)
    case (Cons a list)
    with Cons.prems show ?thesis by (cases a; cases "fst a") (auto simp: segment_ok_def)
  qed simp
  with Cons nu show ?case by (simp add: duration_loop_segment)
qed

end
