(* ===== verification/Json_Ext.thy ===== *)
theory Json_Ext
  imports Rust_Str
begin

text \<open>
  JSON with comments (\<open>json.rs\<close>): \<open>strip_json_comments\<close> blanks every comment and keeps
  every other byte where it is, so that the decoder behind it reports the positions of the
  original text. The decoder is \<open>serde_json\<close> and is a parameter.
\<close>

datatype strip_state = Normal | InString | Escape | LineComment | BlockComment

datatype json_error = UnterminatedBlockComment | NotUtf8

definition b_quote :: u8 where "b_quote = 0x22"
definition b_slash :: u8 where "b_slash = 0x2F"
definition b_star :: u8 where "b_star = 0x2A"
definition b_backslash :: u8 where "b_backslash = 0x5C"
definition b_space :: u8 where "b_space = 0x20"
definition is_newline :: "u8 \<Rightarrow> bool" where "is_newline b \<longleftrightarrow> b = 0x0A \<or> b = 0x0D"

definition emit :: "bytes \<Rightarrow> bytes \<times> strip_state \<Rightarrow> bytes \<times> strip_state" where
  "emit out r = (out @ fst r, snd r)"

text \<open>One byte per step; a comment delimiter is two bytes and is consumed at once.\<close>

fun strip_loop :: "strip_state \<Rightarrow> bytes \<Rightarrow> bytes \<times> strip_state" where
  "strip_loop st [] = ([], st)"
| "strip_loop Normal (b # rest) =
     (if b = b_quote then emit [b] (strip_loop InString rest)
      else if b = b_slash \<and> rest \<noteq> [] \<and> hd rest = b_slash
        then emit [b_space, b_space] (strip_loop LineComment (tl rest))
      else if b = b_slash \<and> rest \<noteq> [] \<and> hd rest = b_star
        then emit [b_space, b_space] (strip_loop BlockComment (tl rest))
      else emit [b] (strip_loop Normal rest))"
| "strip_loop InString (b # rest) =
     emit [b] (strip_loop
       (if b = b_backslash then Escape else if b = b_quote then Normal else InString) rest)"
| "strip_loop Escape (b # rest) = emit [b] (strip_loop InString rest)"
| "strip_loop LineComment (b # rest) =
     (if is_newline b then emit [b] (strip_loop Normal rest)
      else emit [b_space] (strip_loop LineComment rest))"
| "strip_loop BlockComment (b # rest) =
     (if b = b_star \<and> rest \<noteq> [] \<and> hd rest = b_slash
        then emit [b_space, b_space] (strip_loop Normal (tl rest))
      else emit [if is_newline b then b else b_space] (strip_loop BlockComment rest))"

definition strip_json_comments :: "string \<Rightarrow> json_error + string" where
  "strip_json_comments input =
     (let (out, st) = strip_loop Normal (as_bytes input)
      in and_then (ensure (st \<noteq> BlockComment) UnterminatedBlockComment) (\<lambda>_.
         from_utf8 NotUtf8 out))"

datatype 'je extended_error = StripError json_error | DecodeError 'je

definition parse_extended_json ::
    "(string \<Rightarrow> 'je + 'a) \<Rightarrow> string \<Rightarrow> 'je extended_error + 'a" where
  "parse_extended_json from_str input =
     and_then (map_err StripError (strip_json_comments input)) (\<lambda>stripped.
     map_err DecodeError (from_str stripped))"

lemma emit_simps [simp]: "fst (emit out r) = out @ fst r" "snd (emit out r) = snd r"
  by (simp_all add: emit_def)

section \<open>Positions are kept\<close>

text \<open>Each byte is kept, or it is not a line break and is blanked.\<close>

definition blanks :: "u8 \<Rightarrow> u8 \<Rightarrow> bool" where
  "blanks b c \<longleftrightarrow> c = b \<or> c = b_space \<and> \<not> is_newline b"

lemma blanks_refl [simp]: "blanks b b"
  by (simp add: blanks_def)

lemma blanks_delimiters [simp]:
  "blanks b_slash b_space" "blanks b_star b_space" "\<not> is_newline b \<Longrightarrow> blanks b b_space"
  by (simp_all add: blanks_def is_newline_def b_slash_def b_star_def)

lemma list_all2_blanks_hd:
  assumes "rest \<noteq> []" and "blanks (hd rest) d" and "list_all2 blanks (tl rest) out"
  shows "list_all2 blanks rest (d # out)"
  using assms by (cases rest) simp_all

lemma strip_loop_blanks: "list_all2 blanks bs (fst (strip_loop st bs))"
  by (induction st bs rule: strip_loop.induct)
    (auto intro!: list_all2_blanks_hd)

lemma strip_loop_length: "length (fst (strip_loop st bs)) = length bs"
  using strip_loop_blanks by (metis list_all2_lengthD)

section \<open>The result is UTF-8\<close>

lemma utf8_step_cases:
  assumes "utf8_step bs = Some (c, rest)"
  obtains (ascii) b where "c = [b]" "b \<le> 0x7F"
    | (multi) "list_all (\<lambda>b. \<not> b \<le> 0x7F) c" "c \<noteq> []"
proof -
  from assms obtain a r where bs: "bs = a # r" by (cases bs) (auto simp: utf8_step_def)
  show thesis
  proof (cases "a \<le> 0x7F")
    case True
    with assms bs have "c = [a]" by simp
    with True ascii show ?thesis by blast
  next
    case False
    have cont: "\<not> b \<le> 0x7F" if "utf8_cont b" for b
      using that by (auto simp: utf8_cont_def word_le_nat_alt)
    have "\<not> b \<le> 0x7F" if "utf8_second a b" for b
      using that cont [of b] by (auto simp: utf8_second_def word_le_nat_alt split: if_splits)
    with cont have tail: "list_all (\<lambda>b. \<not> b \<le> 0x7F) cs" if "utf8_tail a cs" for cs
      using that by (cases cs) (auto simp: list_all_iff)
    from assms bs have "c = take (utf8_len a) (a # r)" "utf8_len a \<noteq> 0"
      "utf8_tail a (take (utf8_len a - 1) r)"
      by (auto simp: utf8_step_def Let_def split: if_splits)
    then have "c = a # take (utf8_len a - 1) r" by (cases "utf8_len a") auto
    with tail False \<open>utf8_tail a _\<close> have "list_all (\<lambda>b. \<not> b \<le> 0x7F) c" by simp
    with \<open>c = a # _\<close> multi show ?thesis by blast
  qed
qed

lemma utf8_valid_Nil [simp]: "utf8_valid []"
  by (simp add: utf8_valid_def)

lemma utf8_valid_step:
  "utf8_step bs = Some (c, rest) \<Longrightarrow> utf8_valid bs \<longleftrightarrow> utf8_valid rest"
  by (cases "bs = []") (auto simp: utf8_valid_def utf8_chars.simps [of bs] dest: utf8_step_split)

lemma utf8_valid_no_step: "utf8_step bs = None \<Longrightarrow> utf8_valid bs \<longleftrightarrow> bs = []"
  by (cases "bs = []") (auto simp: utf8_valid_def utf8_chars.simps [of bs])

lemma utf8_valid_ascii_Cons [simp]: "b \<le> 0x7F \<Longrightarrow> utf8_valid (b # bs) \<longleftrightarrow> utf8_valid bs"
  by (rule utf8_valid_step) simp

lemma utf8_valid_spaces [simp]: "utf8_valid (replicate n b_space @ bs) \<longleftrightarrow> utf8_valid bs"
  by (induction n) (simp_all add: b_space_def)

lemma utf8_valid_replace:
  assumes "utf8_step (c @ rest) = Some (c, rest)" and "utf8_valid out"
  shows "utf8_valid (c @ out)"
proof -
  from utf8_step_split [OF assms(1)] obtain a r where c: "c = a # r" by (cases c) auto
  with assms(1) have n: "take (utf8_len a) (c @ rest) = c" "utf8_len a \<le> length (c @ rest)"
    and tail: "utf8_len a \<noteq> 0" "utf8_tail a (take (utf8_len a - 1) (r @ rest))"
    by (auto simp: utf8_step_def Let_def split: if_splits)
  from n have "length c = utf8_len a" by (metis length_take min_absorb2)
  with c tail have "utf8_step c = Some (c, [])" by (simp add: utf8_step_def)
  from utf8_step_append [OF this, of out] have "utf8_step (c @ out) = Some (c, out)" by simp
  from utf8_valid_step [OF this] assms(2) show ?thesis by simp
qed

text \<open>The bytes of a character above ASCII are all copied or all blanked.\<close>

fun after_multi :: "strip_state \<Rightarrow> strip_state" where
  "after_multi Escape = InString"
| "after_multi st = st"

definition in_comment :: "strip_state \<Rightarrow> bool" where
  "in_comment st \<longleftrightarrow> st = LineComment \<or> st = BlockComment"

lemma above_ascii:
  assumes "\<not> (b :: u8) \<le> 0x7F"
  shows "b \<noteq> b_quote" "b \<noteq> b_slash" "b \<noteq> b_star" "b \<noteq> b_backslash" "\<not> is_newline b"
  using assms by (auto simp: b_quote_def b_slash_def b_star_def b_backslash_def is_newline_def)

lemma strip_loop_multi:
  assumes "list_all (\<lambda>b. \<not> b \<le> 0x7F) c" and "c \<noteq> []"
  shows "fst (strip_loop st (c @ rest))
    = (if in_comment st then replicate (length c) b_space else c)
      @ fst (strip_loop (after_multi st) rest)"
  using assms
proof (induction c arbitrary: st)
  case (Cons b c)
  then show ?case
    by (cases "c = []"; cases st) (simp_all add: above_ascii in_comment_def)
qed simp

lemma strip_loop_utf8: "utf8_valid bs \<Longrightarrow> utf8_valid (fst (strip_loop st bs))"
proof (induction bs arbitrary: st rule: length_induct)
  case (1 bs)
  note IH = "1.IH" [rule_format]
  show ?case
  proof (cases "utf8_step bs")
    case None
    with 1 show ?thesis by (simp add: utf8_valid_no_step)
  next
    case (Some cr)
    then obtain c rest where step: "utf8_step bs = Some (c, rest)" by (cases cr) auto
    from utf8_step_split [OF this] have bs: "bs = c @ rest" "c \<noteq> []" by auto
    from step "1.prems" have rest: "utf8_valid rest" by (simp add: utf8_valid_step)
    from step show ?thesis
    proof (cases rule: utf8_step_cases)
      case multi
      have "utf8_valid (fst (strip_loop (after_multi st) rest))"
        by (rule IH) (use bs rest in simp_all)
      then show ?thesis
        using utf8_valid_replace [of c rest] step bs multi
        by (simp add: strip_loop_multi)
    next
      case (ascii b)
      have *: "utf8_valid (fst (strip_loop st' rest))" for st'
        by (rule IH) (use bs ascii rest in simp_all)
      have **: "utf8_valid (fst (strip_loop st' (tl rest)))"
        if "rest \<noteq> []" "hd rest \<le> 0x7F" for st'
      proof -
        from that obtain d ds where d: "rest = d # ds" "d \<le> 0x7F" by (cases rest) auto
        show ?thesis by (rule IH) (use bs ascii d rest in simp_all)
      qed
      have low: "b_slash \<le> 0x7F" "b_star \<le> 0x7F" "b_space \<le> 0x7F"
        by (simp_all add: b_slash_def b_star_def b_space_def)
      show ?thesis
        using ascii bs * ** low by (cases st) simp_all
    qed
  qed
qed

lemma strip_json_comments_total:
  assumes "is_str input"
  shows "strip_json_comments input = Inl UnterminatedBlockComment
    \<and> snd (strip_loop Normal (as_bytes input)) = BlockComment
    \<or> (\<exists>out. strip_json_comments input = Inr out \<and> is_str out
        \<and> list_all2 blanks (as_bytes input) (as_bytes out))"
proof -
  have "utf8_valid (fst (strip_loop Normal (as_bytes input)))"
    using assms by (simp add: is_str_def strip_loop_utf8)
  then show ?thesis
    using strip_loop_blanks [of "as_bytes input" Normal]
    by (cases "strip_loop Normal (as_bytes input)")
      (auto simp: strip_json_comments_def from_utf8_def is_str_def ensure_def)
qed

section \<open>Stripping leaves no comment\<close>

definition settle :: "strip_state \<Rightarrow> strip_state" where
  "settle st = (if in_comment st then Normal else st)"

lemma strip_loop_hd:
  "rest \<noteq> [] \<Longrightarrow> fst (strip_loop Normal rest) \<noteq> []
    \<and> (hd (fst (strip_loop Normal rest)) = hd rest \<or> hd (fst (strip_loop Normal rest)) = b_space)"
  by (cases rest) auto

lemma strip_loop_idem:
  "strip_loop (settle st) (fst (strip_loop st bs))
    = (fst (strip_loop st bs), settle (snd (strip_loop st bs)))"
proof (induction st bs rule: strip_loop.induct)
  case (2 b rest)
  have sp: "b_space \<noteq> b_quote" "b_space \<noteq> b_slash" "b_space \<noteq> b_star" "b_slash \<noteq> b_quote"
    by (simp_all add: b_space_def b_quote_def b_slash_def b_star_def)
  show ?case
    using 2 sp strip_loop_hd [of rest]
    by (cases "rest = []") (auto simp: settle_def in_comment_def emit_def split: if_splits)
qed (auto simp: settle_def in_comment_def emit_def b_space_def b_quote_def b_slash_def is_newline_def
      split: if_splits)

lemma strip_json_comments_idem_lemma:
  assumes "strip_json_comments input = Inr out"
  shows "strip_json_comments out = Inr out"
proof -
  from assms have "as_bytes out = fst (strip_loop Normal (as_bytes input))"
    and "snd (strip_loop Normal (as_bytes input)) \<noteq> BlockComment" and str: "is_str out"
    by (auto simp: strip_json_comments_def split: prod.splits dest: from_utf8_is_str)
  with strip_loop_idem [of Normal "as_bytes input"]
  have "strip_loop Normal (as_bytes out)
      = (as_bytes out, settle (snd (strip_loop Normal (as_bytes input))))"
    by (simp add: settle_def in_comment_def)
  moreover have "settle st \<noteq> BlockComment" for st by (simp add: settle_def in_comment_def)
  ultimately show ?thesis using str by (simp add: strip_json_comments_def)
qed

text \<open>Text outside of comments and without a slash is untouched.\<close>

lemma strip_loop_no_slash:
  "b_slash \<notin> set bs \<Longrightarrow> \<not> in_comment st \<Longrightarrow>
   fst (strip_loop st bs) = bs \<and> \<not> in_comment (snd (strip_loop st bs))"
  by (induction st bs rule: strip_loop.induct) (auto simp: in_comment_def)

section \<open>Properties\<close>

text \<open>Stripping comments never moves or invents anything. For every UTF-8 input it either reports
  the unterminated block comment in which the input ends, or returns UTF-8 text of the same
  length in which every byte is the input byte at that position or a space in place of a byte
  that is not a line break, so error positions of the JSON parser stay valid.\<close>

theorem strip_json_comments_positions:
  assumes "is_str input"
  shows "strip_json_comments input = Inl UnterminatedBlockComment
      \<and> snd (strip_loop Normal (as_bytes input)) = BlockComment
    \<or> (\<exists>out. strip_json_comments input = Inr out \<and> is_str out \<and> length out = length input
        \<and> list_all2 (\<lambda>b c. c = b \<or> c = b_space \<and> \<not> is_newline b) (as_bytes input) (as_bytes out))"
proof -
  have "blanks = (\<lambda>b c. c = b \<or> c = b_space \<and> \<not> is_newline b)"
    by (simp add: fun_eq_iff blanks_def)
  with strip_json_comments_total [OF assms] show ?thesis
    by (metis list_all2_lengthD length_as_bytes)
qed

theorem strip_json_comments_positions_witness:
  "\<exists>out. strip_json_comments ''[1 // one'' = Inr out \<and> length out = 9"
proof -
  have "is_str ''[1 // one''" by (rule is_ascii_is_str) (simp add: is_ascii_def)
  moreover have "snd (strip_loop Normal (as_bytes ''[1 // one'')) \<noteq> BlockComment" by code_simp
  ultimately show ?thesis using strip_json_comments_positions [of "''[1 // one''"] by auto
qed

text \<open>Stripping comments is idempotent: its output has no comment left, so a second pass changes
  nothing.\<close>

theorem strip_json_comments_idem:
  assumes "strip_json_comments input = Inr out"
  shows "strip_json_comments out = Inr out"
  by (rule strip_json_comments_idem_lemma [OF assms])

theorem strip_json_comments_idem_witness:
  "strip_json_comments ''[1     /'' = Inr ''[1     /''"
  by (rule strip_json_comments_idem [of "''[1/**/ /''"]) code_simp

end
