(* ===== verification/Rule_Set.thy ===== *)
theory Rule_Set
  imports Srs Duration Json_Ext
begin

text \<open>
  Rule-sets (\<open>router.rs\<close>): their formats, how one is loaded from its configuration, and the
  two background services that keep a local file and a remote URL up to date. Files, the
  fetcher, the JSON decoder and the decompressor are the environment and are parameters.
\<close>

section \<open>Formats\<close>

datatype rule_set_format = Source | Binary

datatype 'je rule_set_error =
    InlineSpecifiesFormat
  | LocalPathEmpty | RemoteUrlEmpty | DownloadDetourUnsupported | HttpClientUnsupported
  | UpdateInterval duration_error | UpdateIntervalZero | NoFetcher
  | NotModifiedWithoutCopy | UnsupportedKind string
  | CannotInferFormat string | UnsupportedFormat string
  | SourceNotUtf8 | DecodeSource "'je extended_error" | DecodeBinary srs_error
  | UnsupportedRuleSetVersion u8 | CompileRule nat rule_error
  | RuleSetIo string

definition resolve_format :: "string \<Rightarrow> string \<Rightarrow> 'je rule_set_error + rule_set_format" where
  "resolve_format configured location =
     (if configured = ''source'' then Inr Source
      else if configured = ''binary'' then Inr Binary
      else if configured = [] then
        let path = to_ascii_lowercase (takeWhile (\<lambda>c. c \<noteq> CHR ''?'' \<and> c \<noteq> CHR ''#'') location)
        in if suffix ''.json'' path then Inr Source
           else if suffix ''.srs'' path then Inr Binary
           else Inl (CannotInferFormat location)
      else Inl (UnsupportedFormat configured))"

section \<open>Decoding and compiling\<close>

text \<open>A default rule without any condition is skipped, not refused.\<close>

fun compile_rules_from :: "nat \<Rightarrow> headless_rule_config list \<Rightarrow> (nat \<times> rule_error) + headless_rule list" where
  "compile_rules_from index [] = Inr []"
| "compile_rules_from index (r # rest) =
     (let keep = and_then (map_err (Pair index) (headless_compile r)) (\<lambda>h.
                 and_then (compile_rules_from (Suc index) rest) (\<lambda>hs. Inr (h # hs)))
      in if is_default_kind (hr_fields r) then
           case from_headless (hr_fields r) of
             Inl e \<Rightarrow> Inl (index, e)
           | Inr m \<Rightarrow> if matcher_is_empty m then compile_rules_from (Suc index) rest else keep
         else keep)"

definition compile_rule_set_rules :: "headless_rule_config list \<Rightarrow> 'je rule_set_error + compiled_rule_set" where
  "compile_rule_set_rules rules = map_err (\<lambda>(i, e). CompileRule i e) (compile_rules_from 0 rules)"

record 'je decoders =
  source_decoder :: "string \<Rightarrow> 'je + rule_set_source"
  inflater :: "nat \<Rightarrow> bytes \<Rightarrow> bytes option"
  set_order :: "string set \<Rightarrow> string list"

definition decode_rule_set :: "'je decoders \<Rightarrow> rule_set_format \<Rightarrow> bytes \<Rightarrow> 'je rule_set_error + rule_set_source" where
  "decode_rule_set d fmt content =
     (case fmt of
        Source \<Rightarrow>
          and_then (from_utf8 SourceNotUtf8 content) (\<lambda>text.
          map_err DecodeSource (parse_extended_json (source_decoder d) text))
      | Binary \<Rightarrow> map_err DecodeBinary (srs_decode (set_order d) (inflater d) content))"

definition decode_and_compile ::
    "'je decoders \<Rightarrow> rule_set_format \<Rightarrow> bytes \<Rightarrow> 'je rule_set_error + compiled_rule_set" where
  "decode_and_compile d fmt content =
     and_then (decode_rule_set d fmt content) (\<lambda>source.
     and_then (ensure (1 \<le> rss_version source \<and> rss_version source \<le> 5)
        (UnsupportedRuleSetVersion (rss_version source))) (\<lambda>_.
     compile_rule_set_rules (rss_rules source)))"

section \<open>Services\<close>

record file_fingerprint =
  fp_length :: u64
  fp_modified :: "nat option"
  fp_device :: u64
  fp_inode :: u64
  fp_changed_seconds :: int
  fp_changed_nanoseconds :: int

datatype fetch_result = NotModified | Modified bytes "string option"

text \<open>
  The services hold the cell of the rule-set they update. The tags of the sets are distinct,
  so that the cell is the entry of the tag in the map of all sets.
\<close>

datatype rule_set_service =
    LocalService (svc_tag: string) (svc_path: string) (svc_format: rule_set_format)
      (svc_fingerprint: file_fingerprint)
  | RemoteService (svc_tag: string) (svc_url: string) (svc_format: rule_set_format)
      (svc_interval: nat) (svc_etag: "string option")

type_synonym rule_sets = "string \<rightharpoonup> compiled_rule_set"

text \<open>
  What is outside at one instant, and at the instants of the calls that one load or one round makes: the file and its
  fingerprint may change between two calls, so that the order of the calls matters.
\<close>

record outside =
  read_file :: "string \<Rightarrow> string + bytes"
  fingerprint_of :: "string \<Rightarrow> string + file_fingerprint"
  fetch :: "string \<Rightarrow> string option \<Rightarrow> string + fetch_result"

type_synonym outsides = "nat \<Rightarrow> outside"

definition prepare_rule_set ::
    "'f float_ops \<Rightarrow> 'je decoders \<Rightarrow> outsides \<Rightarrow> bool \<Rightarrow> 'n rule_set_config
       \<Rightarrow> 'je rule_set_error + (compiled_rule_set \<times> rule_set_service option)" where
  "prepare_rule_set ops d env has_fetcher c =
     (if rsc_kind c = [] \<or> rsc_kind c = ''inline'' then
        and_then (ensure (rsc_format c = []) InlineSpecifiesFormat) (\<lambda>_.
        and_then (compile_rule_set_rules (rsc_rules c)) (\<lambda>rules. Inr (rules, None)))
      else if rsc_kind c = ''local'' then
        and_then (ensure (rsc_path c \<noteq> []) LocalPathEmpty) (\<lambda>_.
        and_then (resolve_format (rsc_format c) (rsc_path c)) (\<lambda>fmt.
        and_then (map_err RuleSetIo (read_file (env 0) (rsc_path c))) (\<lambda>content.
        and_then (decode_and_compile d fmt content) (\<lambda>rules.
        and_then (map_err RuleSetIo (fingerprint_of (env 1) (rsc_path c))) (\<lambda>fp.
        Inr (rules, Some (LocalService (rsc_tag c) (rsc_path c) fmt fp)))))))
      else if rsc_kind c = ''remote'' then
        and_then (ensure (rsc_url c \<noteq> []) RemoteUrlEmpty) (\<lambda>_.
        and_then (ensure (rsc_download_detour c = []) DownloadDetourUnsupported) (\<lambda>_.
        and_then (ensure (rsc_http_client c = None) HttpClientUnsupported) (\<lambda>_.
        and_then (resolve_format (rsc_format c) (rsc_url c)) (\<lambda>fmt.
        and_then
          (if rsc_update_interval c = [] then Inr (24 * 60 * 60 * 10 ^ 9)
           else map_err UpdateInterval (parse_duration ops (rsc_update_interval c))) (\<lambda>interval.
        and_then (ensure (interval \<noteq> 0) UpdateIntervalZero) (\<lambda>_.
        and_then (ensure has_fetcher NoFetcher) (\<lambda>_.
        and_then (map_err RuleSetIo (fetch (env 0) (rsc_url c) None)) (\<lambda>response.
          case response of
            NotModified \<Rightarrow> Inl NotModifiedWithoutCopy
          | Modified content etag \<Rightarrow>
              and_then (decode_and_compile d fmt content) (\<lambda>rules.
              Inr (rules, Some (RemoteService (rsc_tag c) (rsc_url c) fmt interval etag)))))))))))
      else Inl (UnsupportedKind (rsc_kind c)))"

section \<open>One round of a service\<close>

text \<open>
  The body of the loop of \<open>watch_local_rule_set\<close>: the new fingerprint is kept even when the
  file does not load, so that a broken file is not read again until it changes.
\<close>

definition local_round ::
    "'je decoders \<Rightarrow> outsides \<Rightarrow> string \<Rightarrow> string \<Rightarrow> rule_set_format \<Rightarrow> file_fingerprint \<Rightarrow> rule_sets
       \<Rightarrow> rule_sets \<times> file_fingerprint" where
  "local_round d env tag path fmt fp sets =
     (case fingerprint_of (env 0) path of
        Inl _ \<Rightarrow> (sets, fp)
      | Inr current \<Rightarrow>
          if current = fp then (sets, fp)
          else case and_then (map_err RuleSetIo (read_file (env 1) path)) (decode_and_compile d fmt) of
                 Inr rules \<Rightarrow> (sets(tag \<mapsto> rules), current)
               | Inl _ \<Rightarrow> (sets, current))"

text \<open>The body of the loop of \<open>update_remote_rule_set\<close>.\<close>

definition remote_round ::
    "'je decoders \<Rightarrow> outsides \<Rightarrow> string \<Rightarrow> string \<Rightarrow> rule_set_format \<Rightarrow> string option \<Rightarrow> rule_sets
       \<Rightarrow> rule_sets \<times> string option" where
  "remote_round d env tag url fmt etag sets =
     (case fetch (env 0) url etag of
        Inr NotModified \<Rightarrow> (sets, etag)
      | Inr (Modified content next_etag) \<Rightarrow>
          (case decode_and_compile d fmt content of
             Inr rules \<Rightarrow> (sets(tag \<mapsto> rules), next_etag)
           | Inl _ \<Rightarrow> (sets, etag))
      | Inl _ \<Rightarrow> (sets, etag))"

fun service_round :: "'je decoders \<Rightarrow> outsides \<Rightarrow> rule_set_service \<Rightarrow> rule_sets \<Rightarrow> rule_sets \<times> rule_set_service" where
  "service_round d env (LocalService tag path fmt fp) sets =
     (let (sets', fp') = local_round d env tag path fmt fp sets in (sets', LocalService tag path fmt fp'))"
| "service_round d env (RemoteService tag url fmt interval etag) sets =
     (let (sets', etag') = remote_round d env tag url fmt etag sets
      in (sets', RemoteService tag url fmt interval etag'))"

text \<open>The rounds of all services interleave; each round sees its own answers from outside.\<close>

inductive service_step ::
    "'je decoders \<Rightarrow> rule_sets \<times> rule_set_service list \<Rightarrow> rule_sets \<times> rule_set_service list \<Rightarrow> bool"
  for d where
  round: "i < length svcs \<Longrightarrow> service_round d env (svcs ! i) sets = (sets', svc')
    \<Longrightarrow> service_step d (sets, svcs) (sets', svcs[i := svc'])"

inductive_cases service_stepE: "service_step d (sets, svcs) (sets', svcs')"

section \<open>A snapshot is always a set that loaded\<close>

lemma service_round_static [simp]:
  "svc_tag (snd (service_round d env svc sets)) = svc_tag svc"
  "svc_format (snd (service_round d env svc sets)) = svc_format svc"
  by (cases svc; simp split: prod.splits)+

lemma service_round_sets:
  "fst (service_round d env svc sets) = sets
   \<or> (\<exists>content rules. decode_and_compile d (svc_format svc) content = Inr rules
        \<and> fst (service_round d env svc sets) = sets(svc_tag svc \<mapsto> rules))"
  by (cases svc)
    (auto simp: local_round_def remote_round_def split: sum.splits fetch_result.splits prod.splits)

text \<open>
  \<open>loads_as d svcs sets\<close>: every set a service owns holds the rules of some content that
  decoded and compiled under the format of the service.
\<close>

definition loads_as :: "'je decoders \<Rightarrow> rule_set_service list \<Rightarrow> rule_sets \<Rightarrow> bool" where
  "loads_as d svcs sets \<longleftrightarrow>
     (\<forall>svc \<in> set svcs. \<exists>content rules. sets (svc_tag svc) = Some rules
        \<and> decode_and_compile d (svc_format svc) content = Inr rules)"

lemma map_svc_update:
  assumes "i < length svcs" and "f x = f (svcs ! i)"
  shows "map f (svcs[i := x]) = map f svcs"
  using assms by (metis list_update_id map_update)

lemma loads_as_iff:
  "loads_as d svcs sets \<longleftrightarrow>
     (\<forall>(tag, fmt) \<in> set (map (\<lambda>s. (svc_tag s, svc_format s)) svcs). \<exists>content rules.
        sets tag = Some rules \<and> decode_and_compile d fmt content = Inr rules)"
  by (auto simp: loads_as_def)

lemma service_step_static:
  assumes "service_step d (sets, svcs) (sets', svcs')"
  shows "map (\<lambda>s. (svc_tag s, svc_format s)) svcs' = map (\<lambda>s. (svc_tag s, svc_format s)) svcs"
  using assms
proof (rule service_stepE)
  fix i env svc'
  assume round: "svcs' = svcs[i := svc']" "i < length svcs"
    "service_round d env (svcs ! i) sets = (sets', svc')"
  then have "svc_tag svc' = svc_tag (svcs ! i)" "svc_format svc' = svc_format (svcs ! i)"
    using service_round_static [of d env "svcs ! i" sets] by simp_all
  with round show ?thesis by (simp add: map_svc_update)
qed

lemma service_step_loads_as:
  assumes "service_step d (sets, svcs) (sets', svcs')" and "loads_as d svcs sets"
    and "distinct (map svc_tag svcs)"
  shows "loads_as d svcs' sets'"
  using assms(1)
proof (rule service_stepE)
  fix i env svc'
  assume round: "i < length svcs" "service_round d env (svcs ! i) sets = (sets', svc')"
  have "loads_as d svcs sets'"
    using service_round_sets [of d env "svcs ! i" sets] round(2)
  proof (elim disjE exE conjE)
    fix content rules
    assume c: "decode_and_compile d (svc_format (svcs ! i)) content = Inr rules"
      and s: "fst (service_round d env (svcs ! i) sets) = sets(svc_tag (svcs ! i) \<mapsto> rules)"
    have "svc = svcs ! i" if "svc \<in> set svcs" "svc_tag svc = svc_tag (svcs ! i)" for svc
      using that assms(3) round(1) nth_mem [of i svcs] by (auto simp: distinct_map inj_on_def)
    with c s round(2) assms(2) show ?thesis by (auto simp: loads_as_def)
  qed (use assms(2) round in simp)
  then show ?thesis by (simp add: loads_as_iff service_step_static [OF assms(1)])
qed

lemma service_steps_loads_as:
  assumes "(service_step d)\<^sup>*\<^sup>* (sets, svcs) (sets', svcs')" and "loads_as d svcs sets"
    and "distinct (map svc_tag svcs)"
  shows "loads_as d svcs' sets' \<and> map svc_tag svcs' = map svc_tag svcs"
  using assms
proof (induction "(sets', svcs')" arbitrary: sets' svcs' rule: rtranclp_induct)
  case (step y)
  obtain sets1 svcs1 where y: "y = (sets1, svcs1)" by (cases y)
  from step.hyps(3) [OF y step.prems] have IH: "loads_as d svcs1 sets1" "map svc_tag svcs1 = map svc_tag svcs"
    by simp_all
  from step.hyps(2) y have s: "service_step d (sets1, svcs1) (sets', svcs')" by simp
  have "map svc_tag svcs' = map svc_tag svcs1"
    using arg_cong [where f = "map fst", OF service_step_static [OF s]] by (simp add: o_def)
  with IH service_step_loads_as [OF s IH(1)] step.prems(2) show ?case by simp
qed auto

lemma service_step_other:
  assumes "service_step d (sets, svcs) (sets', svcs')" and "tag \<notin> svc_tag ` set svcs"
  shows "sets' tag = sets tag"
  using assms(1)
proof (rule service_stepE)
  fix i env svc'
  assume "i < length svcs" and "service_round d env (svcs ! i) sets = (sets', svc')"
  with service_round_sets [of d env "svcs ! i" sets] assms(2) nth_mem show ?thesis by fastforce
qed

lemma service_steps_other:
  assumes "(service_step d)\<^sup>*\<^sup>* (sets, svcs) (sets', svcs')" and "loads_as d svcs sets"
    and "distinct (map svc_tag svcs)" and "tag \<notin> svc_tag ` set svcs"
  shows "sets' tag = sets tag"
  using assms
proof (induction "(sets', svcs')" arbitrary: sets' svcs' rule: rtranclp_induct)
  case (step y)
  obtain sets1 svcs1 where y: "y = (sets1, svcs1)" by (cases y)
  from step.hyps(1) y service_steps_loads_as step.prems
  have "map svc_tag svcs1 = map svc_tag svcs" by blast
  then have "tag \<notin> svc_tag ` set svcs1" using step.prems(3) by (metis list.set_map)
  with step.hyps(2) y have "sets' tag = sets1 tag" by (auto dest: service_step_other)
  with step.hyps(3) [OF y] step.prems show ?case by simp
qed auto

section \<open>Initial loads\<close>

lemma modified_eq_Inr [simp]:
  "(case r of NotModified \<Rightarrow> Inl e | Modified c t \<Rightarrow> f c t) = Inr y
    \<longleftrightarrow> (\<exists>c t. r = Modified c t \<and> f c t = Inr y)"
  by (cases r) auto

lemma prepared_service:
  assumes "prepare_rule_set ops d env has_fetcher c = Inr (rules, Some svc)"
  shows "svc_tag svc = rsc_tag c"
    and "\<exists>content. decode_and_compile d (svc_format svc) content = Inr rules"
  using assms by (auto simp: prepare_rule_set_def split: if_splits)

text \<open>
  The content of a local set is read before its fingerprint is taken. A change between the
  two is never seen: the rounds compare against the fingerprint of the changed file.
\<close>

lemma local_load_race_lemma:
  assumes "prepare_rule_set ops d env has_fetcher c = Inr (rules, Some (LocalService tag path fmt fp))"
    and "fingerprint_of (later 0) path = fingerprint_of (env 1) path"
  shows "local_round d later tag path fmt fp sets = (sets, fp)"
  using assms
  by (auto simp: prepare_rule_set_def local_round_def split: if_splits)

section \<open>Compiling a rule-set skips exactly the empty default rules\<close>

definition skipped :: "headless_rule_config \<Rightarrow> bool" where
  "skipped r \<longleftrightarrow> is_default_kind (hr_fields r)
     \<and> (\<exists>m. from_headless (hr_fields r) = Inr m \<and> matcher_is_empty m)"

lemma compile_rules_from_filter_lemma:
  "compile_rules_from i rules = Inr hs \<longleftrightarrow>
   try_map headless_compile (filter (\<lambda>r. \<not> skipped r) rules) = Inr hs"
proof (induction rules arbitrary: i hs)
  case (Cons r rules)
  obtain f rs where r: "r = HeadlessRuleConfig f rs" by (cases r)
  show ?case
  proof (cases "is_default_kind f")
    case False
    with Cons r show ?thesis by (auto simp: skipped_def Let_def)
  next
    case True
    with Cons r show ?thesis
      by (cases "from_headless f") (auto simp: skipped_def Let_def)
  qed
qed simp

lemma remote_rounds:
  "foldl (\<lambda>(sets, svc) env. service_round d env svc sets) (sets, RemoteService tag url fmt interval etag) envs
      = (sets', svc') \<Longrightarrow>
   sets tag = Some rules \<Longrightarrow> decode_and_compile d fmt content = Inr rules \<Longrightarrow>
   \<exists>etag' content' rules'. svc' = RemoteService tag url fmt interval etag' \<and> sets' tag = Some rules'
     \<and> decode_and_compile d fmt content' = Inr rules'
     \<and> ((content', etag') = (content, etag)
        \<or> (\<exists>env \<in> set envs. \<exists>old. fetch (env 0) url old = Inr (Modified content' etag')))"
proof (induction envs arbitrary: sets etag rules content)
  case (Cons env envs)
  obtain sets1 etag1 where round: "remote_round d env tag url fmt etag sets = (sets1, etag1)"
    by (cases "remote_round d env tag url fmt etag sets")
  with Cons.prems(1) have run: "foldl (\<lambda>(sets, svc) env. service_round d env svc sets)
      (sets1, RemoteService tag url fmt interval etag1) envs = (sets', svc')" by simp
  consider "sets1 = sets" "etag1 = etag"
    | content1 rules1 where "fetch (env 0) url etag = Inr (Modified content1 etag1)"
      "decode_and_compile d fmt content1 = Inr rules1" "sets1 tag = Some rules1"
    using round by (auto simp: remote_round_def split: sum.splits fetch_result.splits)
  then show ?case
  proof cases
    case 1
    with Cons.prems(2,3) Cons.IH [OF run, of rules content] show ?thesis by fastforce
  next
    case 2
    from Cons.IH [OF run 2(3,2)] 2(1) show ?thesis by fastforce
  qed
qed auto

section \<open>Properties\<close>

text \<open>After any number of update rounds the rules of a remote rule-set are those of the response
  whose entity tag the service remembers and sends next. A "not modified" answer can therefore
  never confirm rules other than the installed ones, even when some responses in between were
  errors or did not decode.\<close>

theorem remote_etag_consistent:
  assumes "prepare_rule_set ops d env has_fetcher c = Inr (rules, Some (RemoteService tag url fmt interval etag))"
    and "foldl (\<lambda>(sets, svc) env. service_round d env svc sets)
      (sets(tag \<mapsto> rules), RemoteService tag url fmt interval etag) envs = (sets', svc')"
  shows "\<exists>etag' content' rules'. svc' = RemoteService tag url fmt interval etag' \<and> sets' tag = Some rules'
     \<and> decode_and_compile d fmt content' = Inr rules'
     \<and> (\<exists>e \<in> set (env # envs). \<exists>old. fetch (e 0) url old = Inr (Modified content' etag'))"
proof -
  from assms(1) obtain content where c: "fetch (env 0) url None = Inr (Modified content etag)"
    "decode_and_compile d fmt content = Inr rules"
    by (auto simp: prepare_rule_set_def split: if_splits)
  from remote_rounds [OF assms(2) _ c(2)] c(1) show ?thesis by fastforce
qed

text \<open>C27: A change of a local rule-set file right after its initial read is never loaded. The rules are those of
  the content at the first instant, the remembered fingerprint is that of the second; whatever the content is by
  then, as long as the file stays as the second instant found it, every round leaves the rules of the first
  installed.\<close>

theorem local_load_race:
  assumes "prepare_rule_set ops d env has_fetcher c = Inr (rules, Some (LocalService tag path fmt fp))"
    and "\<forall>e \<in> set envs. fingerprint_of (e 0) path = fingerprint_of (env 1) path"
  shows "(\<exists>content. read_file (env 0) path = Inr content \<and> decode_and_compile d fmt content = Inr rules)
    \<and> foldl (\<lambda>(sets, svc) env. service_round d env svc sets) (sets, LocalService tag path fmt fp) envs
      = (sets, LocalService tag path fmt fp)"
proof -
  have "foldl (\<lambda>(sets, svc) env. service_round d env svc sets) (sets, LocalService tag path fmt fp) envs
      = (sets, LocalService tag path fmt fp)"
    using assms(2) local_load_race_lemma [OF assms(1)] by (induction envs) auto
  moreover have "\<exists>content. read_file (env 0) path = Inr content \<and> decode_and_compile d fmt content = Inr rules"
    using assms(1) by (auto simp: prepare_rule_set_def split: if_splits)
  ultimately show ?thesis by blast
qed

text \<open>Loading a rule-set keeps exactly the rules that have conditions, in order. A rule without any
  condition is skipped; every other rule is compiled, and one that does not compile fails the
  whole set.\<close>

theorem compile_rule_set_rules_filter:
  "compile_rule_set_rules rules = Inr hs
    \<longleftrightarrow> try_map headless_compile (filter (\<lambda>r. \<not> skipped r) rules) = Inr hs"
  by (auto simp: compile_rule_set_rules_def compile_rules_from_filter_lemma)

text \<open>Every rule of a loaded rule-set has conditions. Whatever content the decoders accept, no
  compiled rule has a matcher without conditions or a logical node without operands, at any
  depth of nesting.\<close>

theorem loaded_rules_conditions:
  assumes "decode_and_compile d fmt content = Inr hs"
  shows "list_all conditions_ok hs"
proof -
  from assms obtain rules where "compile_rule_set_rules rules = (Inr hs :: 'a rule_set_error + _)"
    by (auto simp: decode_and_compile_def)
  then have "try_map headless_compile (filter (\<lambda>r. \<not> skipped r) rules) = Inr hs"
    by (auto simp: compile_rule_set_rules_def compile_rules_from_filter_lemma)
  then show ?thesis
    by (auto simp: list_all_iff dest: try_map_set headless_compile_ok)
qed

text \<open>A loader whose source decoder accepts every text as one rule on a domain.\<close>

definition sample_rules :: "headless_rule_config list" where
  "sample_rules = [HeadlessRuleConfig (default_headless_fields\<lparr>hf_domain := [''a.org'']\<rparr>) []]"

definition sample_decoders :: "unit decoders" where
  "sample_decoders =
     \<lparr>source_decoder = \<lambda>_. Inr \<lparr>rss_version = 1, rss_rules = sample_rules\<rparr>,
      inflater = \<lambda>n x. Some (take n x), set_order = sorted_list_of_set\<rparr>"

definition sample_file :: file_fingerprint where
  "sample_file = \<lparr>fp_length = 2, fp_modified = None, fp_device = 0, fp_inode = 1,
     fp_changed_seconds = 0, fp_changed_nanoseconds = 0\<rparr>"

definition sample_outside :: outsides where
  "sample_outside = (\<lambda>_.
     \<lparr>read_file = \<lambda>_. Inr (as_bytes ''{}''), fingerprint_of = \<lambda>_. Inr sample_file,
      fetch = \<lambda>_ _. Inr (Modified (as_bytes ''{}'') (Some ''v1''))\<rparr>)"

definition sample_floats :: "nat float_ops" where
  "sample_floats =
     \<lparr>fl_parse = \<lambda>_. Some 1, fl_literal = \<lambda>_. 1, fl_is_finite = \<lambda>_. True, fl_non_negative = \<lambda>_. True,
      fl_add = (+), fl_mul = (*), fl_duration = Some\<rparr>"

definition sample_set :: "string \<Rightarrow> unit rule_set_config" where
  "sample_set kind =
     \<lparr>rsc_kind = kind, rsc_tag = ''set'', rsc_format = ''source'', rsc_path = ''a.json'',
      rsc_url = ''u'', rsc_update_interval = [], rsc_download_detour = [], rsc_http_client = None,
      rsc_rules = sample_rules\<rparr>"

lemma sample_loads:
  "\<exists>rules. decode_and_compile sample_decoders Source (as_bytes ''{}'') = Inr rules"
proof -
  have "is_ok (decode_and_compile sample_decoders Source (as_bytes ''{}''))" by code_simp
  then show ?thesis by (simp add: is_ok_iff)
qed

lemma sample_prepared:
  "\<exists>rules. prepare_rule_set sample_floats sample_decoders sample_outside True (sample_set ''local'')
     = Inr (rules, Some (LocalService ''set'' ''a.json'' Source sample_file))"
  "\<exists>rules. prepare_rule_set sample_floats sample_decoders sample_outside True (sample_set ''remote'')
     = Inr (rules, Some (RemoteService ''set'' ''u'' Source (24 * 60 * 60 * 10 ^ 9) (Some ''v1'')))"
  using sample_loads
  by (auto simp: prepare_rule_set_def sample_set_def sample_outside_def resolve_format_def)

theorem loaded_rules_conditions_witness:
  "\<exists>rules. decode_and_compile sample_decoders Source (as_bytes ''{}'') = Inr rules
    \<and> list_all conditions_ok rules"
  using sample_loads loaded_rules_conditions by blast

theorem remote_etag_consistent_witness:
  "\<exists>rules sets' svc' etag'. prepare_rule_set sample_floats sample_decoders sample_outside True (sample_set ''remote'')
       = Inr (rules, Some (RemoteService ''set'' ''u'' Source (24 * 60 * 60 * 10 ^ 9) (Some ''v1'')))
    \<and> foldl (\<lambda>(sets, svc) env. service_round sample_decoders env svc sets)
        ([''set'' \<mapsto> rules], RemoteService ''set'' ''u'' Source (24 * 60 * 60 * 10 ^ 9) (Some ''v1''))
        [sample_outside] = (sets', svc')
    \<and> svc' = RemoteService ''set'' ''u'' Source (24 * 60 * 60 * 10 ^ 9) etag' \<and> sets' ''set'' \<noteq> None"
proof -
  obtain rules where r: "prepare_rule_set sample_floats sample_decoders sample_outside True (sample_set ''remote'')
     = Inr (rules, Some (RemoteService ''set'' ''u'' Source (24 * 60 * 60 * 10 ^ 9) (Some ''v1'')))"
    using sample_prepared(2) by blast
  obtain sets' svc' where run: "foldl (\<lambda>(sets, svc) env. service_round sample_decoders env svc sets)
      ([''set'' \<mapsto> rules], RemoteService ''set'' ''u'' Source (24 * 60 * 60 * 10 ^ 9) (Some ''v1''))
      [sample_outside] = (sets', svc')" by (cases rule: prod.exhaust)
  from remote_etag_consistent [OF r run] r run show ?thesis by blast
qed

text \<open>
  A file that is replaced between the two calls: the new content would load another set, but is never read.
\<close>

definition changed_file :: file_fingerprint where
  "changed_file = sample_file\<lparr>fp_inode := 2\<rparr>"

definition changed_outside :: outside where
  "changed_outside = (sample_outside 0)\<lparr>read_file := \<lambda>_. Inr (as_bytes ''[]''), fingerprint_of := \<lambda>_. Inr changed_file\<rparr>"

definition telling_decoders :: "unit decoders" where
  "telling_decoders = sample_decoders\<lparr>source_decoder := \<lambda>text.
     Inr \<lparr>rss_version = 1, rss_rules = (if text = ''[]'' then [] else sample_rules)\<rparr>\<rparr>"

lemma telling_loads:
  "\<exists>rule rules. decode_and_compile telling_decoders Source (as_bytes ''{}'') = Inr (rule # rules)"
  "decode_and_compile telling_decoders Source (as_bytes ''[]'') = Inr []"
proof -
  have "case decode_and_compile telling_decoders Source (as_bytes ''{}'') of Inr (_ # _) \<Rightarrow> True | _ \<Rightarrow> False" by code_simp
  then show "\<exists>rule rules. decode_and_compile telling_decoders Source (as_bytes ''{}'') = Inr (rule # rules)"
    by (auto split: sum.splits list.splits)
  have "case decode_and_compile telling_decoders Source (as_bytes ''[]'') of Inr [] \<Rightarrow> True | _ \<Rightarrow> False" by code_simp
  then show "decode_and_compile telling_decoders Source (as_bytes ''[]'') = Inr []" by (auto split: sum.splits list.splits)
qed

theorem local_load_race_witness:
  "\<exists>rules. prepare_rule_set sample_floats telling_decoders (sample_outside(1 := changed_outside)) True (sample_set ''local'')
       = Inr (rules, Some (LocalService ''set'' ''a.json'' Source changed_file))
    \<and> foldl (\<lambda>(sets, svc) env. service_round telling_decoders env svc sets)
        ([''set'' \<mapsto> rules], LocalService ''set'' ''a.json'' Source changed_file) [\<lambda>_. changed_outside, \<lambda>_. changed_outside]
      = ([''set'' \<mapsto> rules], LocalService ''set'' ''a.json'' Source changed_file)
    \<and> decode_and_compile telling_decoders Source (as_bytes ''[]'') \<noteq> Inr rules"
proof -
  obtain rule rules where "decode_and_compile telling_decoders Source (as_bytes ''{}'') = Inr (rule # rules)"
    using telling_loads(1) by blast
  then have r: "prepare_rule_set sample_floats telling_decoders (sample_outside(1 := changed_outside)) True (sample_set ''local'')
     = Inr (rule # rules, Some (LocalService ''set'' ''a.json'' Source changed_file))"
    by (simp add: prepare_rule_set_def sample_set_def sample_outside_def changed_outside_def resolve_format_def)
  have "\<forall>e \<in> set [\<lambda>_. changed_outside, \<lambda>_. changed_outside].
      fingerprint_of (e 0) ''a.json'' = fingerprint_of ((sample_outside(1 := changed_outside)) 1) ''a.json''" by simp
  from local_load_race [OF r this, of "[''set'' \<mapsto> rule # rules]"] r telling_loads(2) show ?thesis by auto
qed

end
