(* ===== verification/Router.thy ===== *)
theory Router
  imports Rule_Set
begin

text \<open>
  The router (\<open>router.rs\<close>): compiling route rules, building a router whose references all
  resolve, selecting the outbound of a session by the first decisive rule, and connecting.
  The outbounds are those of the outbound manager; \<open>get\<close> is its lookup.
\<close>

section \<open>Route rules\<close>

datatype rule_action =
    RouteOptions "string option" "u16 option"
  | Route string
  | Reject string

record compiled_rule =
  cr_matcher :: rule_matcher
  cr_action :: rule_action

datatype route_rule_error =
    MatcherError rule_error | NoConditions | RouteWithoutOutbound | EmptyRouteOptions
  | UnknownRejectMethod string | NoDropWithDrop | UnsupportedAction string

definition compile_action :: "route_rule_config \<Rightarrow> route_rule_error + rule_action" where
  "compile_action c =
     (if rr_action c = [] \<or> rr_action c = ''route'' then
        and_then (ensure (rr_outbound c \<noteq> []) RouteWithoutOutbound) (\<lambda>_. Inr (Route (rr_outbound c)))
      else if rr_action c = ''route-options'' then
        and_then (ensure (rr_override_address c \<noteq> [] \<or> rr_override_port c \<noteq> 0) EmptyRouteOptions) (\<lambda>_.
        Inr (RouteOptions
          (if rr_override_address c \<noteq> [] then Some (rr_override_address c) else None)
          (if rr_override_port c \<noteq> 0 then Some (rr_override_port c) else None)))
      else if rr_action c = ''reject'' then
        let meth = (if rr_method c = [] then ''default'' else rr_method c) in
        and_then (ensure (meth \<in> {''default'', ''drop'', ''reply''}) (UnknownRejectMethod meth)) (\<lambda>_.
        and_then (ensure (\<not> (meth = ''drop'' \<and> rr_no_drop c)) NoDropWithDrop) (\<lambda>_.
        Inr (Reject meth)))
      else Inl (UnsupportedAction (rr_action c)))"

definition compile_rule :: "route_rule_config \<Rightarrow> route_rule_error + compiled_rule" where
  "compile_rule c =
     and_then (map_err MatcherError (from_route c)) (\<lambda>m.
     and_then (ensure (\<not> matcher_is_empty m) NoConditions) (\<lambda>_.
     and_then (compile_action c) (\<lambda>a. Inr \<lparr>cr_matcher = m, cr_action = a\<rparr>)))"

section \<open>Building\<close>

record router =
  rt_final :: string
  rt_rules :: "compiled_rule list"
  rt_rule_sets :: rule_sets
  rt_services :: "rule_set_service list"
  rt_tasks :: "rule_set_service list"
  rt_cancelled :: bool
  rt_started :: bool

datatype 'je router_error =
    FinalEmpty | FinalNotFound string
  | RuleSetTagEmpty | DuplicateRuleSet string | LoadRuleSet string "'je rule_set_error"
  | CompileRouteRule nat route_rule_error | RuleSetNotFound string | RouteOutboundNotFound string

definition add_rule_set ::
    "'f float_ops \<Rightarrow> 'je decoders \<Rightarrow> (string \<Rightarrow> outsides) \<Rightarrow> bool
       \<Rightarrow> rule_sets \<times> rule_set_service list \<Rightarrow> 'n rule_set_config
       \<Rightarrow> 'je router_error + (rule_sets \<times> rule_set_service list)" where
  "add_rule_set ops d env has_fetcher st c =
     (case st of (sets, svcs) \<Rightarrow>
        and_then (ensure (rsc_tag c \<noteq> []) RuleSetTagEmpty) (\<lambda>_.
        and_then (ensure (sets (rsc_tag c) = None) (DuplicateRuleSet (rsc_tag c))) (\<lambda>_.
        and_then (map_err (LoadRuleSet (rsc_tag c))
          (prepare_rule_set ops d (env (rsc_tag c)) has_fetcher c)) (\<lambda>(compiled, service).
        Inr (sets(rsc_tag c \<mapsto> compiled),
             case service of None \<Rightarrow> svcs | Some s \<Rightarrow> svcs @ [s])))))"

definition check_action :: "(string \<Rightarrow> 'o option) \<Rightarrow> rule_action \<Rightarrow> 'je router_error + unit" where
  "check_action get a =
     (case a of
        Route outbound \<Rightarrow> ensure (get outbound \<noteq> None) (RouteOutboundNotFound outbound)
      | _ \<Rightarrow> Inr ())"

fun check_tags :: "rule_sets \<Rightarrow> string list \<Rightarrow> 'je router_error + unit" where
  "check_tags sets [] = Inr ()"
| "check_tags sets (tag # tags) =
     and_then (ensure (sets tag \<noteq> None) (RuleSetNotFound tag)) (\<lambda>_. check_tags sets tags)"

fun build_rules ::
    "(string \<Rightarrow> 'o option) \<Rightarrow> rule_sets \<Rightarrow> nat \<Rightarrow> route_rule_config list \<Rightarrow> 'je router_error + compiled_rule list" where
  "build_rules get sets index [] = Inr []"
| "build_rules get sets index (c # cs) =
     and_then (map_err (CompileRouteRule index) (compile_rule c)) (\<lambda>r.
     and_then (check_tags sets (m_rule_sets (cr_matcher r))) (\<lambda>_.
     and_then (check_action get (cr_action r)) (\<lambda>_.
     and_then (build_rules get sets (Suc index) cs) (\<lambda>rs. Inr (r # rs)))))"

definition build_with_fetcher ::
    "(string \<Rightarrow> 'o option) \<Rightarrow> 'f float_ops \<Rightarrow> 'je decoders \<Rightarrow> (string \<Rightarrow> outsides) \<Rightarrow> bool
       \<Rightarrow> 'n route_config \<Rightarrow> string \<Rightarrow> 'je router_error + router" where
  "build_with_fetcher get ops d env has_fetcher c default_outbound =
     (let final = (if rc_final_outbound c = [] then default_outbound else rc_final_outbound c) in
      and_then (ensure (final \<noteq> []) FinalEmpty) (\<lambda>_.
      and_then (ensure (get final \<noteq> None) (FinalNotFound final)) (\<lambda>_.
      and_then (try_fold (add_rule_set ops d env has_fetcher) (\<lambda>_. None, []) (rc_rule_set c)) (\<lambda>(sets, svcs).
      and_then (build_rules get sets 0 (rc_rules c)) (\<lambda>rules.
      Inr \<lparr>rt_final = final, rt_rules = rules, rt_rule_sets = sets, rt_services = svcs,
           rt_tasks = [], rt_cancelled = False, rt_started = False\<rparr>)))))"

definition router_start :: "router \<Rightarrow> router" where
  "router_start r =
     (if rt_started r then r
      else r\<lparr>rt_started := True, rt_tasks := rt_tasks r @ rt_services r\<rparr>)"

text \<open>\<open>joined\<close> tells whether a task ended without a panic.\<close>

definition router_close :: "(rule_set_service \<Rightarrow> bool) \<Rightarrow> router \<Rightarrow> bool \<times> router" where
  "router_close joined r =
     (list_all joined (rt_tasks r), r\<lparr>rt_cancelled := True, rt_tasks := []\<rparr>)"

section \<open>Selecting and connecting\<close>

datatype select_error = RejectedBy string

definition override :: "string option \<Rightarrow> u16 option \<Rightarrow> session \<Rightarrow> session" where
  "override a p s =
     (let d = s_destination s;
          d = (case a of Some h \<Rightarrow> d\<lparr>host := h\<rparr> | None \<Rightarrow> d);
          d = (case p of Some n \<Rightarrow> d\<lparr>port := n\<rparr> | None \<Rightarrow> d)
      in s\<lparr>s_destination := d\<rparr>)"

fun walk_rules ::
    "compiled_rule list \<Rightarrow> rule_sets \<Rightarrow> string \<Rightarrow> session \<Rightarrow> (select_error + string) \<times> session" where
  "walk_rules [] sets final s = (Inr final, s)"
| "walk_rules (r # rs) sets final s =
     (if \<not> matcher_matches (cr_matcher r) sets s then walk_rules rs sets final s
      else case cr_action r of
        RouteOptions a p \<Rightarrow> walk_rules rs sets final (override a p s)
      | Route outbound \<Rightarrow> (Inr outbound, s)
      | Reject meth \<Rightarrow> (Inl (RejectedBy meth), s))"

definition select :: "router \<Rightarrow> session \<Rightarrow> (select_error + string) \<times> session" where
  "select r s =
     walk_rules (rt_rules r) (rt_rule_sets r) (rt_final r)
       (s\<lparr>s_source := map_option normalize_socket_addr (s_source s)\<rparr>)"

datatype 'e connect_error = Selection select_error | OutboundMissing string | OutboundFailed 'e

text \<open>
  \<open>connect\<close> and \<open>connect_packet\<close> differ in the method they call on the outbound, which is
  the argument \<open>dial\<close>.
\<close>

definition router_connect ::
    "(string \<Rightarrow> 'o option) \<Rightarrow> ('o \<Rightarrow> session \<Rightarrow> 'e + 'st) \<Rightarrow> router \<Rightarrow> session
       \<Rightarrow> ('e connect_error + 'st) \<times> session" where
  "router_connect get dial r s =
     (let (tag, s) = (case s_outbound s of Some tag \<Rightarrow> (Inr tag, s) | None \<Rightarrow> select r s)
      in case tag of
           Inl e \<Rightarrow> (Inl (Selection e), s)
         | Inr tag \<Rightarrow>
             (case get tag of
                None \<Rightarrow> (Inl (OutboundMissing tag), s)
              | Some outbound \<Rightarrow>
                  let s = s\<lparr>s_outbound := Some tag\<rparr>
                  in (map_err OutboundFailed (dial outbound s), s)))"

section \<open>The rules as a relation\<close>

text \<open>
  \<open>passes\<close> says that no rule of a list decides: each one does not match or only changes the
  destination of the session. The first rule that matches otherwise decides.
\<close>

inductive passes :: "rule_sets \<Rightarrow> compiled_rule list \<Rightarrow> session \<Rightarrow> session \<Rightarrow> bool" for sets where
  none: "passes sets [] s s"
| skip: "\<not> matcher_matches (cr_matcher r) sets s \<Longrightarrow> passes sets rs s t \<Longrightarrow> passes sets (r # rs) s t"
| change: "matcher_matches (cr_matcher r) sets s \<Longrightarrow> cr_action r = RouteOptions a p \<Longrightarrow>
    passes sets rs (override a p s) t \<Longrightarrow> passes sets (r # rs) s t"

inductive_simps passes_simps [simp]:
  "passes sets [] s t"
  "passes sets (r # rs) s t"

inductive decides :: "rule_sets \<Rightarrow> compiled_rule list \<Rightarrow> string \<Rightarrow> session \<Rightarrow> select_error + string \<Rightarrow> session \<Rightarrow> bool"
  for sets rules final s where
  by_route: "rules = pre @ r # post \<Longrightarrow> passes sets pre s t \<Longrightarrow> matcher_matches (cr_matcher r) sets t \<Longrightarrow>
    cr_action r = Route tag \<Longrightarrow> decides sets rules final s (Inr tag) t"
| by_reject: "rules = pre @ r # post \<Longrightarrow> passes sets pre s t \<Longrightarrow> matcher_matches (cr_matcher r) sets t \<Longrightarrow>
    cr_action r = Reject meth \<Longrightarrow> decides sets rules final s (Inl (RejectedBy meth)) t"
| by_final: "passes sets rules s t \<Longrightarrow> decides sets rules final s (Inr final) t"

lemma walk_rules_passes:
  "passes sets pre s t \<Longrightarrow> walk_rules (pre @ rs) sets final s = walk_rules rs sets final t"
  by (induction rule: passes.induct) simp_all

lemma walk_rules_decides: "walk_rules rules sets final s = (res, t) \<Longrightarrow> decides sets rules final s res t"
proof (induction rules sets final s rule: walk_rules.induct)
  case (1 sets final s)
  then show ?case by (auto intro: decides.by_final)
next
  case (2 r rs sets final s)
  have shift: "decides sets (r # rs) final s res t"
    if "decides sets rs final u res t" and step: "\<And>pre v. passes sets pre u v \<Longrightarrow> passes sets (r # pre) s v" for u
    using that(1)
  proof cases
    case (by_route pre q post tag)
    with step [of pre t] show ?thesis by (auto intro: decides.by_route [where pre = "r # pre"])
  next
    case (by_reject pre q post meth)
    with step [of pre t] show ?thesis by (auto intro: decides.by_reject [where pre = "r # pre"])
  next
    case by_final
    with step [of rs t] show ?thesis by (auto intro: decides.by_final)
  qed
  show ?case
  proof (cases "matcher_matches (cr_matcher r) sets s")
    case False
    with 2 show ?thesis by (intro shift [of s]) auto
  next
    case True
    then show ?thesis
    proof (cases "cr_action r")
      case (RouteOptions a p)
      with 2 True show ?thesis by (intro shift [of "override a p s"]) auto
    next
      case (Route tag)
      with 2 True show ?thesis by (auto intro: decides.by_route [where pre = "[]"])
    next
      case (Reject meth)
      with 2 True show ?thesis by (auto intro: decides.by_reject [where pre = "[]"])
    qed
  qed
qed

lemma decides_walk_rules: "decides sets rules final s res t \<Longrightarrow> walk_rules rules sets final s = (res, t)"
  by (induction rule: decides.induct)
    (auto simp: walk_rules_passes dest: walk_rules_passes [where rs = "[]" and final = final])

lemma walk_rules_iff: "walk_rules rules sets final s = (res, t) \<longleftrightarrow> decides sets rules final s res t"
  using walk_rules_decides decides_walk_rules by blast

section \<open>Only the destination changes\<close>

definition same_origin :: "session \<Rightarrow> session \<Rightarrow> bool" where
  "same_origin s t \<longleftrightarrow>
     s_network t = s_network s \<and> s_inbound t = s_inbound s \<and> s_inbound_type t = s_inbound_type s
     \<and> s_user t = s_user s \<and> s_source t = s_source s \<and> s_outbound t = s_outbound s"

lemma override_origin [simp]: "same_origin s (override a p s)"
  by (simp add: same_origin_def override_def Let_def)

lemma walk_rules_origin: "same_origin s (snd (walk_rules rules sets final s))"
proof (induction rules sets final s rule: walk_rules.induct)
  case (2 r rs sets final s)
  then show ?case
    using override_origin [of s] by (auto simp: same_origin_def split: rule_action.splits)
qed (simp add: same_origin_def)

section \<open>A built router resolves\<close>

definition router_wf :: "(string \<Rightarrow> 'o option) \<Rightarrow> router \<Rightarrow> bool" where
  "router_wf get r \<longleftrightarrow>
     get (rt_final r) \<noteq> None
     \<and> (\<forall>c \<in> set (rt_rules r). \<not> matcher_is_empty (cr_matcher c)
          \<and> set (m_rule_sets (cr_matcher c)) \<subseteq> dom (rt_rule_sets r)
          \<and> (\<forall>tag. cr_action c = Route tag \<longrightarrow> get tag \<noteq> None))
     \<and> distinct (map svc_tag (rt_services r))
     \<and> set (map svc_tag (rt_services r)) \<subseteq> dom (rt_rule_sets r)"

lemma check_tags_ok: "check_tags sets tags = Inr u \<Longrightarrow> set tags \<subseteq> dom sets"
  by (induction tags) auto

lemma check_action_ok [simp]: "check_action get a = Inr u \<longleftrightarrow> (\<forall>tag. a = Route tag \<longrightarrow> get tag \<noteq> None)"
  by (cases a) (simp_all add: check_action_def)

lemma build_rules_ok:
  "(build_rules get sets i cs :: 'je router_error + compiled_rule list) = Inr rs \<Longrightarrow> r \<in> set rs \<Longrightarrow>
   \<not> matcher_is_empty (cr_matcher r) \<and> set (m_rule_sets (cr_matcher r)) \<subseteq> dom sets
   \<and> (\<forall>tag. cr_action r = Route tag \<longrightarrow> get tag \<noteq> None)"
proof (induction cs arbitrary: i rs)
  case (Cons c cs)
  from Cons.prems(1) obtain q qs where q: "compile_rule c = Inr q" "rs = q # qs"
    "(build_rules get sets (Suc i) cs :: 'je router_error + compiled_rule list) = Inr qs"
    "set (m_rule_sets (cr_matcher q)) \<subseteq> dom sets" "\<forall>tag. cr_action q = Route tag \<longrightarrow> get tag \<noteq> None"
    by (auto dest: check_tags_ok)
  from q(1) have "\<not> matcher_is_empty (cr_matcher q)" by (auto simp: compile_rule_def)
  with q Cons.prems(2) Cons.IH [OF q(3)] show ?case by auto
qed simp

definition services_ok :: "'je decoders \<Rightarrow> rule_sets \<times> rule_set_service list \<Rightarrow> bool" where
  "services_ok d st \<longleftrightarrow>
     (case st of (sets, svcs) \<Rightarrow>
        distinct (map svc_tag svcs) \<and> set (map svc_tag svcs) \<subseteq> dom sets \<and> loads_as d svcs sets)"

lemma add_rule_set_ok:
  assumes "services_ok d st" and "add_rule_set ops d env has_fetcher st c = Inr st'"
  shows "services_ok d st'"
proof -
  obtain sets svcs where st: "st = (sets, svcs)" by (cases st)
  with assms(2) obtain rules service where new: "sets (rsc_tag c) = None"
    and p: "prepare_rule_set ops d (env (rsc_tag c)) has_fetcher c = Inr (rules, service)"
    and st': "st' = (sets(rsc_tag c \<mapsto> rules), case service of None \<Rightarrow> svcs | Some s \<Rightarrow> svcs @ [s])"
    by (auto simp: add_rule_set_def)
  from assms(1) st new have old: "distinct (map svc_tag svcs)" "set (map svc_tag svcs) \<subseteq> dom sets"
    "loads_as d svcs sets" "rsc_tag c \<notin> set (map svc_tag svcs)"
    by (auto simp: services_ok_def)
  then have keep: "loads_as d svcs (sets(rsc_tag c \<mapsto> rules))"
    by (auto simp: loads_as_def image_iff)
  show ?thesis
  proof (cases service)
    case None
    with old keep st' show ?thesis by (auto simp: services_ok_def)
  next
    case (Some s)
    from prepared_service [OF p [unfolded Some]] old keep st' Some show ?thesis by (auto simp: services_ok_def loads_as_def)
  qed
qed

lemma build_services_ok:
  assumes "build_with_fetcher get ops d env has_fetcher c dflt = Inr r"
  shows "services_ok d (rt_rule_sets r, rt_services r)"
proof -
  from assms obtain sets svcs where
    "try_fold (add_rule_set ops d env has_fetcher) (\<lambda>_. None, []) (rc_rule_set c) = Inr (sets, svcs)"
    and r: "rt_rule_sets r = sets" "rt_services r = svcs"
    by (auto simp: build_with_fetcher_def Let_def)
  moreover have "services_ok d (\<lambda>_. None, [])" by (simp add: services_ok_def loads_as_def)
  ultimately have "services_ok d (sets, svcs)"
    by (rule_tac try_fold_invariant) (auto intro: add_rule_set_ok)
  with r show ?thesis by simp
qed

lemma build_router_wf_lemma:
  fixes d :: "'je decoders"
  assumes "build_with_fetcher get ops d env has_fetcher c dflt = Inr r"
  shows "router_wf get r"
proof -
  from assms obtain i where
    "(build_rules get (rt_rule_sets r) i (rc_rules c) :: 'je router_error + compiled_rule list)
      = Inr (rt_rules r)"
    "get (rt_final r) \<noteq> None"
    by (auto simp: build_with_fetcher_def Let_def)
  with build_rules_ok [OF this(1)] build_services_ok [OF assms] show ?thesis
    by (auto simp: router_wf_def services_ok_def)
qed

lemma walk_rules_exists:
  assumes "\<And>c tag. c \<in> set rules \<Longrightarrow> cr_action c = Route tag \<Longrightarrow> get tag \<noteq> None" and "get final \<noteq> None"
    and "walk_rules rules sets final s = (Inr tag, t)"
  shows "get tag \<noteq> None"
  using walk_rules_decides [OF assms(3)] assms(1,2) by cases auto

lemma select_exists:
  "router_wf get r \<Longrightarrow> select r s = (Inr tag, t) \<Longrightarrow> get tag \<noteq> None"
  unfolding select_def router_wf_def by (rule walk_rules_exists) auto

lemma router_wf_connect:
  assumes "router_wf get r" and "s_outbound s = None"
    and "router_connect get dial (r\<lparr>rt_rule_sets := sets\<rparr>) s = (res, t)"
  shows "(\<exists>meth. res = Inl (Selection (RejectedBy meth)))
    \<or> (\<exists>tag outbound. get tag = Some outbound \<and> s_outbound t = Some tag
        \<and> res = map_err OutboundFailed (dial outbound t))"
proof -
  obtain choice u where sel: "select (r\<lparr>rt_rule_sets := sets\<rparr>) s = (choice, u)"
    by (cases "select (r\<lparr>rt_rule_sets := sets\<rparr>) s")
  have exists: "get tag \<noteq> None" if "choice = Inr tag" for tag
  proof (rule walk_rules_exists)
    show "walk_rules (rt_rules r) sets (rt_final r) (normal_source s) = (Inr tag, u)"
      using sel that by (simp add: select_def normal_source_def)
  qed (use assms(1) in \<open>auto simp: router_wf_def\<close>)
  show ?thesis
  proof (cases choice)
    case (Inl e)
    then show ?thesis using assms(2,3) sel by (cases e) (auto simp: router_connect_def)
  next
    case (Inr tag)
    then show ?thesis using assms(2,3) sel exists by (auto simp: router_connect_def Let_def)
  qed
qed

section \<open>Properties\<close>

text \<open>C1: routing is first-match. The router answers with an outbound or a rejection exactly when
  some rule decides so after every earlier rule either did not match or only changed the
  destination, each rule being tested on the session as the earlier ones left it; when no rule
  decides, the answer is the final outbound.\<close>

theorem select_first_match:
  "select r s = (res, t) \<longleftrightarrow> decides (rt_rule_sets r) (rt_rules r) (rt_final r) (normal_source s) res t"
  by (simp add: select_def normal_source_def [symmetric] walk_rules_iff)

text \<open>Routing changes nothing of a session but its destination: peer (up to normalisation),
  network, inbound, user and outbound are those the inbound reported, so no rule can be
  influenced by an earlier one except through the destination.\<close>

theorem select_origin:
  "s_source (snd (select r s)) = map_option normalize_socket_addr (s_source s)
    \<and> s_network (snd (select r s)) = s_network s \<and> s_inbound (snd (select r s)) = s_inbound s
    \<and> s_user (snd (select r s)) = s_user s \<and> s_outbound (snd (select r s)) = s_outbound s"
  using walk_rules_origin [of "normal_source s" "rt_rules r" "rt_rule_sets r" "rt_final r"]
  by (simp add: select_def normal_source_def same_origin_def)

text \<open>C14: a router that was built is closed under its references, whatever its configuration: the
  final outbound and the outbound of every route rule exist, every rule has conditions, every
  rule-set a rule names is loaded, and no two update services own the same rule-set.\<close>

theorem build_router_wf:
  assumes "build_with_fetcher get ops d env has_fetcher c dflt = Inr r"
  shows "get (rt_final r) \<noteq> None
    \<and> (\<forall>rule \<in> set (rt_rules r). \<not> matcher_is_empty (cr_matcher rule)
        \<and> set (m_rule_sets (cr_matcher rule)) \<subseteq> dom (rt_rule_sets r)
        \<and> (\<forall>tag. cr_action rule = Route tag \<longrightarrow> get tag \<noteq> None))
    \<and> distinct (map svc_tag (rt_services r))
    \<and> set (map svc_tag (rt_services r)) \<subseteq> dom (rt_rule_sets r)"
  using build_router_wf_lemma [OF assms] by (simp add: router_wf_def)

text \<open>C13: while the update services run, the rule-sets stay consistent snapshots. After any
  interleaving of their rounds, with any answers from files and servers, every rule-set owned by
  a service holds the rules of some content that decoded and compiled completely, and every
  other rule-set is as it was built.\<close>

theorem rule_sets_consistent:
  assumes "build_with_fetcher get ops d env has_fetcher c dflt = Inr r"
    and "(service_step d)\<^sup>*\<^sup>* (rt_rule_sets r, rt_services r) (sets, svcs)"
  shows "(\<forall>svc \<in> set svcs. \<exists>content rules. sets (svc_tag svc) = Some rules
        \<and> decode_and_compile d (svc_format svc) content = Inr rules)
    \<and> map svc_tag svcs = map svc_tag (rt_services r)
    \<and> (\<forall>tag. tag \<notin> svc_tag ` set (rt_services r) \<longrightarrow> sets tag = rt_rule_sets r tag)
    \<and> dom sets = dom (rt_rule_sets r)"
proof -
  from build_services_ok [OF assms(1)]
  have ok: "loads_as d (rt_services r) (rt_rule_sets r)" "distinct (map svc_tag (rt_services r))"
    and own: "svc_tag ` set (rt_services r) \<subseteq> dom (rt_rule_sets r)"
    by (auto simp: services_ok_def)
  from service_steps_loads_as [OF assms(2) ok]
  have loads: "loads_as d svcs sets" and tags: "map svc_tag svcs = map svc_tag (rt_services r)" by simp_all
  then have owned: "svc_tag ` set svcs = svc_tag ` set (rt_services r)" by (metis list.set_map)
  have other: "sets tag = rt_rule_sets r tag" if "tag \<notin> svc_tag ` set (rt_services r)" for tag
    by (rule service_steps_other [OF assms(2) ok that])
  have own': "tag \<in> dom sets" if "tag \<in> svc_tag ` set svcs" for tag
  proof -
    from that obtain svc where "svc \<in> set svcs" "tag = svc_tag svc" by (rule imageE)
    moreover from this(1) loads obtain rules where "sets (svc_tag svc) = Some rules"
      unfolding loads_as_def by metis
    ultimately show ?thesis by auto
  qed
  have "dom sets = dom (rt_rule_sets r)"
  proof (rule set_eqI)
    fix tag
    show "tag \<in> dom sets \<longleftrightarrow> tag \<in> dom (rt_rule_sets r)"
    proof (cases "tag \<in> svc_tag ` set (rt_services r)")
      case True
      then have "tag \<in> dom sets" using own' owned by simp
      with True own show ?thesis by auto
    qed (simp add: other domIff)
  qed
  with loads tags other show ?thesis by (simp add: loads_as_def)
qed

text \<open>A connection through a built router never fails because its outbound is missing, whatever
  the update services have installed since, and a connection that an outbound accepted or
  refused is recorded under the tag of that outbound.\<close>

theorem connect_finds_outbound:
  assumes "build_with_fetcher get ops d env has_fetcher c dflt = Inr r" and "s_outbound s = None"
    and "router_connect get dial (r\<lparr>rt_rule_sets := sets\<rparr>) s = (res, t)"
  shows "(\<exists>meth. res = Inl (Selection (RejectedBy meth)))
    \<or> (\<exists>tag outbound. get tag = Some outbound \<and> s_outbound t = Some tag
        \<and> res = map_err OutboundFailed (dial outbound t))"
  by (rule router_wf_connect [OF build_router_wf_lemma [OF assms(1)] assms(2,3)])

definition sample_get :: "string \<Rightarrow> unit option" where
  "sample_get tag = (if tag = ''direct'' then Some () else None)"

definition sample_route :: "unit route_config" where
  "sample_route =
     \<lparr>rc_default_domain_resolver = None, rc_rule_set = [sample_set ''local''],
      rc_rules = [default_route_rule\<lparr>rr_rule_set := [''set''], rr_outbound := ''direct''\<rparr>],
      rc_final_outbound = ''direct''\<rparr>"

lemma sample_tag: "rsc_tag (sample_set kind) = ''set''"
  by (simp add: sample_set_def)

lemma sample_built:
  "\<exists>r. build_with_fetcher sample_get sample_floats sample_decoders (\<lambda>_. sample_outside) True sample_route []
      = Inr r
    \<and> rt_services r = [LocalService ''set'' ''a.json'' Source sample_file] \<and> length (rt_rules r) = 1"
proof -
  obtain rules where "prepare_rule_set sample_floats sample_decoders sample_outside True (sample_set ''local'')
      = Inr (rules, Some (LocalService ''set'' ''a.json'' Source sample_file))"
    using sample_prepared(1) by blast
  moreover obtain rule where "compile_rule (default_route_rule\<lparr>rr_rule_set := [''set''], rr_outbound := ''direct''\<rparr>)
      = Inr rule" "m_rule_sets (cr_matcher rule) = [''set'']" "cr_action rule = Route ''direct''"
    by (simp add: compile_rule_def from_route_def default_route_rule_def compile_networks_def
        compile_cidrs_def compile_ports_def port_matcher_compile_def matcher_is_empty_def compile_action_def)
  ultimately show ?thesis
    by (simp add: build_with_fetcher_def sample_route_def sample_get_def add_rule_set_def sample_tag
        check_action_def Let_def)
qed

theorem build_router_wf_witness:
  "\<exists>r. build_with_fetcher sample_get sample_floats sample_decoders (\<lambda>_. sample_outside) True sample_route []
      = Inr r \<and> sample_get (rt_final r) \<noteq> None
    \<and> (\<forall>rule \<in> set (rt_rules r). set (m_rule_sets (cr_matcher rule)) \<subseteq> dom (rt_rule_sets r))"
proof -
  obtain r where r: "build_with_fetcher sample_get sample_floats sample_decoders (\<lambda>_. sample_outside) True
      sample_route [] = Inr r" using sample_built by blast
  with build_router_wf [OF r] show ?thesis by blast
qed

theorem rule_sets_consistent_witness:
  "\<exists>r sets svcs. build_with_fetcher sample_get sample_floats sample_decoders (\<lambda>_. sample_outside) True sample_route []
      = Inr r
    \<and> service_step sample_decoders (rt_rule_sets r, rt_services r) (sets, svcs)
    \<and> dom sets = dom (rt_rule_sets r) \<and> map svc_tag svcs = [''set'']"
proof -
  obtain r where r: "build_with_fetcher sample_get sample_floats sample_decoders (\<lambda>_. sample_outside) True
      sample_route [] = Inr r" "rt_services r = [LocalService ''set'' ''a.json'' Source sample_file]"
    using sample_built by blast
  obtain sets svc where "service_round sample_decoders sample_outside (rt_services r ! 0) (rt_rule_sets r) = (sets, svc)"
    by (cases rule: prod.exhaust)
  then have step: "service_step sample_decoders (rt_rule_sets r, rt_services r) (sets, (rt_services r)[0 := svc])"
    by (rule service_step.round [rotated]) (simp add: r)
  from rule_sets_consistent [OF r(1) r_into_rtranclp, OF step]
  have "dom sets = dom (rt_rule_sets r)" "map svc_tag ((rt_services r)[0 := svc]) = [''set'']"
    by (simp_all add: r)
  with r(1) step show ?thesis by (intro exI conjI)
qed

theorem connect_finds_outbound_witness:
  "\<exists>r res t. build_with_fetcher sample_get sample_floats sample_decoders (\<lambda>_. sample_outside) True sample_route []
      = Inr r
    \<and> router_connect sample_get (\<lambda>_ _. Inr () :: unit + unit) (r\<lparr>rt_rule_sets := \<lambda>_. None\<rparr>)
        (session_outbound \<lparr>host = ''a.org'', port = 80\<rparr>) = (res, t)
    \<and> ((\<exists>meth. res = Inl (Selection (RejectedBy meth))) \<or> s_outbound t = Some ''direct'' \<and> res = Inr ())"
proof -
  obtain r where r: "build_with_fetcher sample_get sample_floats sample_decoders (\<lambda>_. sample_outside) True
      sample_route [] = Inr r" using sample_built by blast
  obtain res t where c: "router_connect sample_get (\<lambda>_ _. Inr () :: unit + unit) (r\<lparr>rt_rule_sets := \<lambda>_. None\<rparr>)
      (session_outbound \<lparr>host = ''a.org'', port = 80\<rparr>) = (res, t)" by (cases rule: prod.exhaust)
  from connect_finds_outbound [OF r _ c] r c show ?thesis
    by (auto simp: session_outbound_def sample_get_def split: if_splits)
qed

end
