(* ===== verification/Managers.thy ===== *)
theory Managers
  imports Api_Core
begin

text \<open>
  The managers of outbounds, inbounds and certificate providers (\<open>manager.rs\<close>,
  \<open>certificate.rs\<close>): registration under distinct tags, the order in which the components
  start and close, and the dependency order of the outbounds. The three registries satisfy
  one contract, the locale \<open>component_store\<close>.
\<close>

section \<open>Components\<close>

text \<open>
  What a manager sees of a component: its kind, its tag, and what \<open>start\<close>, \<open>close\<close> and
  \<open>dependencies\<close> answer. The last field is the rest of its interface. The calls a manager
  makes are recorded as events, in order.
\<close>

record ('e, 'i) component =
  comp_kind :: string
  comp_tag :: string
  comp_dependencies :: "string list"
  comp_start :: "start_stage \<Rightarrow> 'e option"
  comp_close :: "'e option"
  comp_interface :: 'i

datatype event = StartedAt string start_stage | ClosedAt string

datatype 'e manager_error =
    EmptyTag | DuplicateTag string
  | MissingDependency string string | CircularDependency "string list"
  | InconsistentMaps
  | StartFailed string string 'e | CloseFailed 'e
  | ProviderNotFound string | SubscribeFailed 'e

text \<open>The loop of every \<open>start\<close>: the first error ends it.\<close>

fun start_each :: "start_stage \<Rightarrow> ('e, 'i) component list \<Rightarrow> ('e manager_error + unit) \<times> event list" where
  "start_each stage [] = (Inr (), [])"
| "start_each stage (c # cs) =
     (case comp_start c stage of
        Some e \<Rightarrow> (Inl (StartFailed (comp_kind c) (comp_tag c) e), [StartedAt (comp_tag c) stage])
      | None \<Rightarrow>
          let (r, evs) = start_each stage cs in (r, StartedAt (comp_tag c) stage # evs))"

text \<open>The loop of every \<open>close\<close>: all components are closed and the first error is kept.\<close>

fun close_each :: "('e, 'i) component list \<Rightarrow> 'e option \<Rightarrow> 'e option \<times> event list" where
  "close_each [] first_error = (first_error, [])"
| "close_each (c # cs) first_error =
     (let first_error = (case comp_close c of
             Some e \<Rightarrow> (case first_error of None \<Rightarrow> Some e | Some f \<Rightarrow> Some f)
           | None \<Rightarrow> first_error);
          (r, evs) = close_each cs first_error
      in (r, ClosedAt (comp_tag c) # evs))"

definition close_result :: "'e option \<Rightarrow> 'e manager_error + unit" where
  "close_result err = (case err of None \<Rightarrow> Inr () | Some e \<Rightarrow> Inl (CloseFailed e))"

lemma close_each_events [simp]: "snd (close_each cs err) = map (\<lambda>c. ClosedAt (comp_tag c)) cs"
  by (induction cs arbitrary: err) (auto simp: Let_def split_def)

lemma close_each_error:
  "fst (close_each cs err) = (case err of Some e \<Rightarrow> Some e | None \<Rightarrow>
     (case List.find (\<lambda>c. comp_close c \<noteq> None) cs of Some c \<Rightarrow> comp_close c | None \<Rightarrow> None))"
  by (induction cs arbitrary: err) (auto simp: Let_def split_def split: option.splits)

lemma start_each_ok:
  "list_all (\<lambda>c. comp_start c stage = None) cs \<Longrightarrow>
   start_each stage cs = (Inr (), map (\<lambda>c. StartedAt (comp_tag c) stage) cs)"
  by (induction cs) auto

lemma start_each_fails:
  "list_all (\<lambda>c. comp_start c stage = None) pre \<Longrightarrow> comp_start c stage = Some e \<Longrightarrow>
   start_each stage (pre @ c # post)
     = (Inl (StartFailed (comp_kind c) (comp_tag c) e),
        map (\<lambda>c. StartedAt (comp_tag c) stage) (pre @ [c]))"
  by (induction pre) auto

section \<open>The contract of a registry\<close>

locale component_store =
  fixes emp :: 's
    and add :: "'s \<Rightarrow> ('e, 'i) component \<Rightarrow> 'e manager_error + 's"
    and get :: "'s \<Rightarrow> string \<Rightarrow> ('e, 'i) component option"
    and listing :: "'s \<Rightarrow> ('e, 'i) component list"
    and inv :: "'s \<Rightarrow> bool"
  assumes inv_emp: "inv emp"
    and inv_add: "inv s \<Longrightarrow> add s c = Inr s' \<Longrightarrow> inv s'"
    and get_emp: "get emp tag = None"
    and listing_emp: "listing emp = []"
    and add_ok: "inv s \<Longrightarrow> (\<exists>s'. add s c = Inr s') \<longleftrightarrow> comp_tag c \<noteq> [] \<and> get s (comp_tag c) = None"
    and get_add: "inv s \<Longrightarrow> add s c = Inr s' \<Longrightarrow>
      get s' tag = (if tag = comp_tag c then Some c else get s tag)"
    and listing_add: "inv s \<Longrightarrow> add s c = Inr s' \<Longrightarrow> listing s' = listing s @ [c]"
begin

lemma fold_inv: "try_fold add emp cs = Inr s \<Longrightarrow> inv s"
  by (rule try_fold_invariant [where P = inv], assumption, rule inv_emp) (rule inv_add)

lemma fold_listing_from:
  "try_fold add s cs = Inr t \<Longrightarrow> inv s \<Longrightarrow> listing t = listing s @ cs"
proof (induction cs arbitrary: s)
  case (Cons c cs)
  from Cons.prems(1) obtain u where u: "add s c = Inr u" "try_fold add u cs = Inr t" by auto
  with Cons.IH [OF u(2)] Cons.prems(2) show ?case by (simp add: listing_add inv_add)
qed simp

lemma fold_get_from:
  "try_fold add s cs = Inr t \<Longrightarrow> inv s \<Longrightarrow> get s tag = None \<or> tag \<notin> comp_tag ` set cs \<Longrightarrow>
   get t tag = (case get s tag of Some c \<Rightarrow> Some c | None \<Rightarrow> List.find (\<lambda>c. comp_tag c = tag) cs)"
proof (induction cs arbitrary: s)
  case (Cons c cs)
  from Cons.prems(1) obtain u where u: "add s c = Inr u" "try_fold add u cs = Inr t" by auto
  have g: "get u tag = (if tag = comp_tag c then Some c else get s tag)"
    by (rule get_add [OF Cons.prems(2) u(1)])
  have "tag \<notin> comp_tag ` set cs" if "tag = comp_tag c"
  proof
    assume "tag \<in> comp_tag ` set cs"
    then obtain pre d post where cs: "cs = pre @ d # post" "comp_tag d = tag"
      by (auto simp: in_set_conv_decomp)
    with u(2) obtain v w where v: "try_fold add u pre = Inr v" "add v d = Inr w"
      by (auto simp: try_fold_append)
    have "inv u" by (rule inv_add [OF Cons.prems(2) u(1)])
    have keep: "get y tag \<noteq> None" if "try_fold add x ds = Inr y" "inv x" "get x tag \<noteq> None" for x y ds
      using that
    proof (induction ds arbitrary: x)
      case (Cons a ds)
      then show ?case using inv_add get_add by (auto split: if_splits)
    qed simp
    have "inv v"
      by (rule try_fold_invariant [where P = inv, OF v(1) \<open>inv u\<close>]) (rule inv_add)
    from add_ok [OF this, of d] v(2) cs(2) have "get v tag = None" by auto
    with keep [OF v(1) \<open>inv u\<close>] g that show False by simp
  qed
  with Cons.IH [OF u(2) inv_add [OF Cons.prems(2) u(1)]] g Cons.prems(3) show ?case
    by (auto split: option.splits)
qed (simp split: option.splits)

lemma fold_listing: "try_fold add emp cs = Inr s \<Longrightarrow> listing s = cs"
  using fold_listing_from [of emp cs s] by (simp add: inv_emp listing_emp)

lemma fold_get: "try_fold add emp cs = Inr s \<Longrightarrow> get s tag = List.find (\<lambda>c. comp_tag c = tag) cs"
  using fold_get_from [of emp cs s tag] by (simp add: inv_emp get_emp)

lemma fold_ok_from:
  "inv s \<Longrightarrow> (\<exists>t. try_fold add s cs = Inr t) \<longleftrightarrow>
   distinct (map comp_tag cs) \<and> [] \<notin> comp_tag ` set cs \<and> (\<forall>c \<in> set cs. get s (comp_tag c) = None)"
proof (induction cs arbitrary: s)
  case (Cons c cs)
  show ?case
  proof (cases "\<exists>u. add s c = Inr u")
    case False
    then have "\<not> (comp_tag c \<noteq> [] \<and> get s (comp_tag c) = None)"
      using add_ok [OF Cons.prems, of c] by blast
    moreover from False have "\<nexists>t. try_fold add s (c # cs) = Inr t" by simp
    ultimately show ?thesis by auto
  next
    case True
    then obtain u where u: "add s c = Inr u" ..
    have "inv u" by (rule inv_add [OF Cons.prems u])
    from Cons.IH [OF this] u get_add [OF Cons.prems u] add_ok [OF Cons.prems, of c] show ?thesis
      by (auto simp: image_iff split: if_splits)
  qed
qed simp

lemma fold_ok: "(\<exists>s. try_fold add emp cs = Inr s) \<longleftrightarrow> distinct (map comp_tag cs) \<and> [] \<notin> comp_tag ` set cs"
  using fold_ok_from [OF inv_emp] by (simp add: get_emp)

end

section \<open>The three managers\<close>

type_synonym ('e, 'i) entries = "string \<rightharpoonup> ('e, 'i) component"

record ('e, 'i) outbound_manager =
  om_entries :: "('e, 'i) entries"
  om_insertion_order :: "string list"

definition om_new :: "('e, 'i) outbound_manager" where
  "om_new = \<lparr>om_entries = \<lambda>_. None, om_insertion_order = []\<rparr>"

definition om_add :: "('e, 'i) outbound_manager \<Rightarrow> ('e, 'i) component \<Rightarrow> 'e manager_error + ('e, 'i) outbound_manager" where
  "om_add m c =
     (let tag = comp_tag c in
      and_then (ensure (tag \<noteq> []) EmptyTag) (\<lambda>_.
      and_then (ensure (om_entries m tag = None) (DuplicateTag tag)) (\<lambda>_.
      Inr (m\<lparr>om_entries := (om_entries m)(tag \<mapsto> c),
             om_insertion_order := om_insertion_order m @ [tag]\<rparr>))))"

definition om_get :: "('e, 'i) outbound_manager \<Rightarrow> string \<Rightarrow> ('e, 'i) component option" where
  "om_get m tag = om_entries m tag"

record ('e, 'i) inbound_manager =
  im_entries :: "('e, 'i) entries"
  im_insertion_order :: "string list"

definition im_new :: "('e, 'i) inbound_manager" where
  "im_new = \<lparr>im_entries = \<lambda>_. None, im_insertion_order = []\<rparr>"

definition im_add :: "('e, 'i) inbound_manager \<Rightarrow> ('e, 'i) component \<Rightarrow> 'e manager_error + ('e, 'i) inbound_manager" where
  "im_add m c =
     (let tag = comp_tag c in
      and_then (ensure (tag \<noteq> []) EmptyTag) (\<lambda>_.
      and_then (ensure (im_entries m tag = None) (DuplicateTag tag)) (\<lambda>_.
      Inr (m\<lparr>im_entries := (im_entries m)(tag \<mapsto> c),
             im_insertion_order := im_insertion_order m @ [tag]\<rparr>))))"

definition im_get :: "('e, 'i) inbound_manager \<Rightarrow> string \<Rightarrow> ('e, 'i) component option" where
  "im_get m tag = im_entries m tag"

definition im_ordered :: "('e, 'i) inbound_manager \<Rightarrow> ('e, 'i) component list" where
  "im_ordered m = List.map_filter (im_entries m) (im_insertion_order m)"

definition im_start :: "start_stage \<Rightarrow> ('e, 'i) inbound_manager \<Rightarrow> ('e manager_error + unit) \<times> event list" where
  "im_start stage m = start_each stage (im_ordered m)"

definition im_close :: "('e, 'i) inbound_manager \<Rightarrow> ('e manager_error + unit) \<times> event list" where
  "im_close m = (let (err, evs) = close_each (rev (im_ordered m)) None in (close_result err, evs))"

record ('e, 'i) provider_manager =
  pm_ordered :: "('e, 'i) component list"
  pm_by_tag :: "('e, 'i) entries"

definition pm_new :: "('e, 'i) provider_manager" where
  "pm_new = \<lparr>pm_ordered = [], pm_by_tag = \<lambda>_. None\<rparr>"

definition pm_add :: "('e, 'i) provider_manager \<Rightarrow> ('e, 'i) component \<Rightarrow> 'e manager_error + ('e, 'i) provider_manager" where
  "pm_add m c =
     (let tag = comp_tag c in
      and_then (ensure (tag \<noteq> []) EmptyTag) (\<lambda>_.
      and_then (ensure (pm_by_tag m tag = None) (DuplicateTag tag)) (\<lambda>_.
      Inr (m\<lparr>pm_ordered := pm_ordered m @ [c], pm_by_tag := (pm_by_tag m)(tag \<mapsto> c)\<rparr>))))"

definition pm_get :: "('e, 'i) provider_manager \<Rightarrow> string \<Rightarrow> ('e, 'i) component option" where
  "pm_get m tag = pm_by_tag m tag"

definition pm_subscribe ::
    "('e, string \<Rightarrow> 'e + 'rx) provider_manager \<Rightarrow> string \<Rightarrow> string \<Rightarrow> 'e manager_error + 'rx" where
  "pm_subscribe m tag server_name =
     and_then (ok_or (ProviderNotFound tag) (pm_get m tag)) (\<lambda>p.
     map_err SubscribeFailed (comp_interface p server_name))"

definition pm_start :: "start_stage \<Rightarrow> ('e, 'i) provider_manager \<Rightarrow> ('e manager_error + unit) \<times> event list" where
  "pm_start stage m = start_each stage (pm_ordered m)"

definition pm_close :: "('e, 'i) provider_manager \<Rightarrow> ('e manager_error + unit) \<times> event list" where
  "pm_close m = (let (err, evs) = close_each (rev (pm_ordered m)) None in (close_result err, evs))"

subsection \<open>All three satisfy the contract\<close>

definition om_listing :: "('e, 'i) outbound_manager \<Rightarrow> ('e, 'i) component list" where
  "om_listing m = List.map_filter (om_entries m) (om_insertion_order m)"

text \<open>The two maps agree: the order lists the registered tags, each once.\<close>

definition maps_ok :: "('e, 'i) entries \<Rightarrow> string list \<Rightarrow> bool" where
  "maps_ok entries order \<longleftrightarrow> distinct order \<and> set order = dom entries
     \<and> (\<forall>tag c. entries tag = Some c \<longrightarrow> comp_tag c = tag)"

lemma map_filter_update:
  "tag \<notin> set order \<Longrightarrow> List.map_filter (entries(tag \<mapsto> c)) order = List.map_filter entries order"
  by (induction order) (auto split: option.splits)

lemma map_filter_snoc: "List.map_filter f (xs @ [x]) = List.map_filter f xs @ (case f x of None \<Rightarrow> [] | Some y \<Rightarrow> [y])"
  by (induction xs) (auto split: option.splits)

lemma maps_ok_add:
  assumes "maps_ok entries order" and "entries (comp_tag c) = None"
  shows "maps_ok (entries(comp_tag c \<mapsto> c)) (order @ [comp_tag c])"
    and "List.map_filter (entries(comp_tag c \<mapsto> c)) (order @ [comp_tag c])
      = List.map_filter entries order @ [c]"
proof -
  from assms have "comp_tag c \<notin> set order" by (auto simp: maps_ok_def)
  then show "maps_ok (entries(comp_tag c \<mapsto> c)) (order @ [comp_tag c])"
    and "List.map_filter (entries(comp_tag c \<mapsto> c)) (order @ [comp_tag c])
      = List.map_filter entries order @ [c]"
    using assms by (auto simp: maps_ok_def map_filter_update map_filter_snoc)
qed

lemma maps_ok_empty: "maps_ok (\<lambda>_. None) []"
  by (simp add: maps_ok_def)

interpretation om: component_store om_new om_add om_get om_listing
  "\<lambda>m. maps_ok (om_entries m) (om_insertion_order m)"
  by unfold_locales
    (auto simp: om_new_def om_add_def om_get_def om_listing_def Let_def maps_ok_empty maps_ok_add)

interpretation im: component_store im_new im_add im_get im_ordered
  "\<lambda>m. maps_ok (im_entries m) (im_insertion_order m)"
  by unfold_locales
    (auto simp: im_new_def im_add_def im_get_def im_ordered_def Let_def maps_ok_empty maps_ok_add)

interpretation pm: component_store pm_new pm_add pm_get pm_ordered "\<lambda>_. True"
  by unfold_locales (auto simp: pm_new_def pm_add_def pm_get_def Let_def)

section \<open>A component for examples\<close>

definition sample_component :: "string \<Rightarrow> string list \<Rightarrow> (unit, unit) component" where
  "sample_component tag dependencies =
     \<lparr>comp_kind = ''direct'', comp_tag = tag, comp_dependencies = dependencies,
      comp_start = \<lambda>_. None, comp_close = None, comp_interface = ()\<rparr>"

lemma sample_component_simps [simp]:
  "comp_tag (sample_component tag dependencies) = tag"
  "comp_dependencies (sample_component tag dependencies) = dependencies"
  by (simp_all add: sample_component_def)

section \<open>Properties\<close>

text \<open>Registering components with the outbound manager succeeds exactly when their tags are
  non-empty and pairwise different; then a lookup finds the component with the tag and nothing
  else, and the listing is the order of registration.\<close>

theorem outbound_registration:
  "((\<exists>m. try_fold om_add om_new cs = Inr m)
      \<longleftrightarrow> distinct (map comp_tag cs) \<and> [] \<notin> comp_tag ` set cs)
    \<and> (\<forall>m. try_fold om_add om_new cs = Inr m \<longrightarrow>
        om_insertion_order m = map comp_tag cs
        \<and> (\<forall>tag. om_get m tag = List.find (\<lambda>c. comp_tag c = tag) cs))"
proof (intro conjI allI impI om.fold_ok om.fold_get)
  fix m :: "('a, 'b) outbound_manager"
  assume fold: "try_fold om_add om_new cs = Inr m"
  have ok: "maps_ok (om_entries m) (om_insertion_order m)" by (rule om.fold_inv [OF fold])
  have "map comp_tag (List.map_filter (om_entries m) ts) = ts" if "set ts \<subseteq> dom (om_entries m)" for ts
    using that ok by (induction ts) (auto simp: maps_ok_def map_filter_simps)
  then have "map comp_tag (om_listing m) = om_insertion_order m"
    using ok by (simp add: om_listing_def maps_ok_def)
  then show "om_insertion_order m = map comp_tag cs" using om.fold_listing [OF fold] by simp
qed

theorem outbound_registration_witness:
  "\<exists>m. try_fold om_add om_new [sample_component ''a'' [], sample_component ''b'' []] = Inr m
    \<and> om_insertion_order m = [''a'', ''b''] \<and> om_get m ''b'' = Some (sample_component ''b'' [])"
proof -
  obtain m where m: "try_fold om_add om_new [sample_component ''a'' [], sample_component ''b'' []] = Inr m"
    using om.fold_ok [of "[sample_component ''a'' [], sample_component ''b'' []]"] by auto
  with conjunct2 [OF outbound_registration [of "[sample_component ''a'' [], sample_component ''b'' []]"],
      rule_format, OF m]
  show ?thesis by (intro exI [of _ m]) simp
qed

text \<open>Closing is thorough. Every component is closed, in the reverse of the start order, even
  after some of them failed, and the error reported is the one of the first that failed.\<close>

theorem close_thorough:
  "snd (im_close m) = map (\<lambda>c. ClosedAt (comp_tag c)) (rev (im_ordered m))
    \<and> fst (im_close m) = (case List.find (\<lambda>c. comp_close c \<noteq> None) (rev (im_ordered m)) of
        None \<Rightarrow> Inr ()
      | Some c \<Rightarrow> Inl (CloseFailed (the (comp_close c))))"
proof (cases "List.find (\<lambda>c. comp_close c \<noteq> None) (rev (im_ordered m))")
  case None
  then show ?thesis by (simp add: im_close_def case_prod_beta close_each_error close_result_def)
next
  case (Some c)
  then have "comp_close c \<noteq> None" by (auto simp only: find_Some_iff)
  with Some show ?thesis
    by (auto simp: im_close_def case_prod_beta close_each_error close_result_def)
qed

end
