(* ===== verification/Outbound_Order.thy ===== *)
theory Outbound_Order
  imports Managers
begin

text \<open>
  \<open>OutboundManager::ordered\<close> (\<open>manager.rs\<close>): repeated passes over the outbounds in
  insertion order, each pass taking those whose dependencies are resolved. The result is a
  topological order, and the two errors are reported exactly when there is none.
\<close>

section \<open>The algorithm\<close>

record ('e, 'i) order_state =
  os_remaining :: "string list"
  os_resolved :: "string list"
  os_result :: "('e, 'i) component list"
  os_progressed :: bool

fun check_dependencies :: "('e, 'i) entries \<Rightarrow> string \<Rightarrow> string list \<Rightarrow> 'e manager_error + unit" where
  "check_dependencies entries tag [] = Inr ()"
| "check_dependencies entries tag (d # ds) =
     and_then (ensure (entries d \<noteq> None) (MissingDependency d tag)) (\<lambda>_.
     check_dependencies entries tag ds)"

definition order_visit ::
    "('e, 'i) entries \<Rightarrow> ('e, 'i) order_state \<Rightarrow> string \<Rightarrow> 'e manager_error + ('e, 'i) order_state" where
  "order_visit entries st tag =
     (if tag \<notin> set (os_remaining st) then Inr st
      else and_then (ok_or InconsistentMaps (entries tag)) (\<lambda>c.
        and_then (check_dependencies entries tag (comp_dependencies c)) (\<lambda>_.
        if list_all (\<lambda>d. d \<in> set (os_resolved st)) (comp_dependencies c)
        then Inr (st\<lparr>os_remaining := removeAll tag (os_remaining st),
                     os_resolved := tag # os_resolved st,
                     os_result := os_result st @ [c], os_progressed := True\<rparr>)
        else Inr st)))"

definition order_pass ::
    "('e, 'i) entries \<Rightarrow> string list \<Rightarrow> ('e, 'i) order_state \<Rightarrow> 'e manager_error + ('e, 'i) order_state" where
  "order_pass entries order st = try_fold (order_visit entries) (st\<lparr>os_progressed := False\<rparr>) order"

lemma order_visit_shrinks:
  "order_visit entries st tag = Inr st' \<Longrightarrow>
   (os_progressed st \<longrightarrow> length (os_remaining st) < n) \<and> length (os_remaining st) \<le> n \<Longrightarrow>
   (os_progressed st' \<longrightarrow> length (os_remaining st') < n) \<and> length (os_remaining st') \<le> n"
  by (auto simp: order_visit_def dest!: length_removeAll_less split: if_splits)

lemma order_pass_shrinks:
  assumes "order_pass entries order st = Inr st'" and "os_progressed st'"
  shows "length (os_remaining st') < length (os_remaining st)"
proof -
  let ?n = "length (os_remaining st)"
  have "(os_progressed st' \<longrightarrow> length (os_remaining st') < ?n) \<and> length (os_remaining st') \<le> ?n"
    by (rule try_fold_invariant [OF assms(1) [unfolded order_pass_def]])
      (simp, rule order_visit_shrinks)
  with assms(2) show ?thesis by simp
qed

text \<open>\<open>while !remaining.is_empty()\<close>.\<close>

function order_loop ::
    "('e, 'i) entries \<Rightarrow> string list \<Rightarrow> ('e, 'i) order_state \<Rightarrow> 'e manager_error + ('e, 'i) component list" where
  "order_loop entries order st =
     (if os_remaining st = [] then Inr (os_result st)
      else case order_pass entries order st of
        Inl e \<Rightarrow> Inl e
      | Inr st' \<Rightarrow>
          if os_progressed st' then order_loop entries order st'
          else Inl (CircularDependency (os_remaining st')))"
  by pat_completeness auto
termination
  by (relation "measure (\<lambda>(_, _, st). length (os_remaining st))") (auto dest: order_pass_shrinks)

declare order_loop.simps [simp del]

definition om_ordered :: "('e, 'i) outbound_manager \<Rightarrow> 'e manager_error + ('e, 'i) component list" where
  "om_ordered m =
     order_loop (om_entries m) (om_insertion_order m)
       \<lparr>os_remaining = om_insertion_order m, os_resolved = [], os_result = [], os_progressed = False\<rparr>"

definition om_start :: "start_stage \<Rightarrow> ('e, 'i) outbound_manager \<Rightarrow> ('e manager_error + unit) \<times> event list" where
  "om_start stage m =
     (case om_ordered m of Inl e \<Rightarrow> (Inl e, []) | Inr cs \<Rightarrow> start_each stage cs)"

definition om_close :: "('e, 'i) outbound_manager \<Rightarrow> ('e manager_error + unit) \<times> event list" where
  "om_close m =
     (case om_ordered m of
        Inl e \<Rightarrow> (Inl e, [])
      | Inr cs \<Rightarrow> (let (err, evs) = close_each (rev cs) None in (close_result err, evs)))"

section \<open>Topological orders\<close>

text \<open>Every component comes after all its dependencies.\<close>

fun topological :: "string set \<Rightarrow> ('e, 'i) component list \<Rightarrow> bool" where
  "topological resolved [] = True"
| "topological resolved (c # cs) =
     (set (comp_dependencies c) \<subseteq> resolved \<and> topological (insert (comp_tag c) resolved) cs)"

lemma topological_snoc:
  "topological R (cs @ [c]) \<longleftrightarrow>
   topological R cs \<and> set (comp_dependencies c) \<subseteq> R \<union> comp_tag ` set cs"
  by (induction cs arbitrary: R) auto

lemma topological_before:
  "topological {} (pre @ c # post) \<Longrightarrow> d \<in> set (comp_dependencies c) \<Longrightarrow> d \<in> comp_tag ` set pre"
proof (induction post rule: rev_induct)
  case Nil
  then show ?case by (auto simp: topological_snoc)
next
  case (snoc x post)
  then show ?case using topological_snoc [of "{}" "pre @ c # post" x] by simp
qed

text \<open>
  A set of outbounds is stuck when each of them depends on one of them. The dependencies
  are complete when every dependency is registered.
\<close>

definition stuck :: "('e, 'i) entries \<Rightarrow> string set \<Rightarrow> bool" where
  "stuck entries R \<longleftrightarrow> R \<noteq> {} \<and> R \<subseteq> dom entries
     \<and> (\<forall>tag \<in> R. \<forall>c. entries tag = Some c \<longrightarrow> (\<exists>d \<in> set (comp_dependencies c). d \<in> R))"

definition complete_dependencies :: "('e, 'i) entries \<Rightarrow> bool" where
  "complete_dependencies entries \<longleftrightarrow>
     (\<forall>tag c. entries tag = Some c \<longrightarrow> set (comp_dependencies c) \<subseteq> dom entries)"

lemma stuck_no_topological:
  assumes "topological {} cs" and "comp_tag ` set cs = dom entries"
    and "\<forall>c \<in> set cs. entries (comp_tag c) = Some c" and "stuck entries R"
  shows False
proof -
  from assms(4) obtain tag where "tag \<in> R" "tag \<in> dom entries" unfolding stuck_def by blast
  then have "tag \<in> comp_tag ` set cs" using assms(2) by simp
  then obtain c where c: "c \<in> set cs" "comp_tag c \<in> R" using \<open>tag \<in> R\<close> by auto
  then obtain pre d post where cs: "cs = pre @ d # post" "comp_tag d \<in> R"
    and first: "\<forall>x \<in> set pre. comp_tag x \<notin> R"
    using split_list_first_prop [of cs "\<lambda>x. comp_tag x \<in> R"] by blast
  from assms(3,4) cs obtain e where "e \<in> set (comp_dependencies d)" "e \<in> R"
    by (force simp: stuck_def)
  with topological_before [of pre d post] assms(1) cs(1) first show False by auto
qed

section \<open>Correctness\<close>

lemma check_dependencies_iff [simp]:
  "check_dependencies entries tag ds = Inr u \<longleftrightarrow> set ds \<subseteq> dom entries"
  by (induction ds) auto

lemma check_dependencies_Inl:
  "check_dependencies entries tag ds = Inl e \<Longrightarrow> \<exists>d \<in> set ds. e = MissingDependency d tag \<and> entries d = None"
  by (induction ds) (auto simp: and_then_eq_Inl)

text \<open>What a pass keeps: the result is in topological order and partitions the tags.\<close>

definition order_inv :: "('e, 'i) entries \<Rightarrow> string list \<Rightarrow> ('e, 'i) order_state \<Rightarrow> bool" where
  "order_inv entries order st \<longleftrightarrow>
     topological {} (os_result st) \<and> set (os_resolved st) = comp_tag ` set (os_result st)
     \<and> distinct (map comp_tag (os_result st))
     \<and> (\<forall>c \<in> set (os_result st). entries (comp_tag c) = Some c)
     \<and> set (os_remaining st) \<inter> set (os_resolved st) = {}
     \<and> set (os_remaining st) \<union> set (os_resolved st) = set order"

lemma order_inv_progressed [simp]:
  "order_inv entries order (st\<lparr>os_progressed := b\<rparr>) = order_inv entries order st"
  by (simp add: order_inv_def)

lemma order_visit_inv:
  assumes ok: "maps_ok entries order" and inv: "order_inv entries order st"
    and visit: "order_visit entries st tag = Inr st'"
  shows "order_inv entries order st'"
proof (cases "st' = st")
  case False
  with visit obtain c where c: "entries tag = Some c" "tag \<in> set (os_remaining st)"
    "set (comp_dependencies c) \<subseteq> set (os_resolved st)"
    "st' = st\<lparr>os_remaining := removeAll tag (os_remaining st), os_resolved := tag # os_resolved st,
              os_result := os_result st @ [c], os_progressed := True\<rparr>"
    by (auto simp: order_visit_def list_all_iff split: if_splits)
  moreover from ok c(1) have "comp_tag c = tag" by (simp add: maps_ok_def)
  ultimately show ?thesis
    using inv by (auto simp: order_inv_def topological_snoc)
qed (use inv in simp)

lemma order_pass_inv:
  assumes "maps_ok entries order" and "order_inv entries order st"
    and "order_pass entries order st = Inr st'"
  shows "order_inv entries order st'"
  by (rule try_fold_invariant [OF assms(3) [unfolded order_pass_def]])
    (use assms(2) in simp, rule order_visit_inv [OF assms(1)])

text \<open>A pass without progress has looked at every remaining outbound in the same state.\<close>

lemma order_visit_progress:
  "order_visit entries st tag = Inr st' \<Longrightarrow> \<not> os_progressed st' \<Longrightarrow> st' = st \<and> \<not> os_progressed st"
  by (auto simp: order_visit_def split: if_splits)

lemma idle_pass:
  "try_fold (order_visit entries) st tags = Inr st' \<Longrightarrow> \<not> os_progressed st' \<Longrightarrow>
   st' = st \<and> \<not> os_progressed st \<and> (\<forall>tag \<in> set tags. order_visit entries st tag = Inr st)"
proof (induction tags arbitrary: st)
  case (Cons tag tags)
  from Cons.prems(1) obtain u where u: "order_visit entries st tag = Inr u"
    "try_fold (order_visit entries) u tags = Inr st'" by auto
  from Cons.IH [OF u(2) Cons.prems(2)] have 1: "st' = u" "\<not> os_progressed u"
    "\<forall>tag \<in> set tags. order_visit entries u tag = Inr u" by auto
  from order_visit_progress [OF u(1) 1(2)] 1 u(1) show ?case by auto
qed simp

lemma idle_pass_stuck:
  assumes ok: "maps_ok entries order" and inv: "order_inv entries order st"
    and pass: "order_pass entries order st = Inr st'" "\<not> os_progressed st'"
    and rest: "os_remaining st \<noteq> []"
  shows "stuck entries (set (os_remaining st'))" and "os_remaining st' = os_remaining st"
proof -
  let ?st = "st\<lparr>os_progressed := False\<rparr>"
  from idle_pass [OF pass(1) [unfolded order_pass_def] pass(2)]
  have st': "st' = ?st" and visit: "\<And>tag. tag \<in> set order \<Longrightarrow> order_visit entries ?st tag = Inr ?st"
    by auto
  from st' show "os_remaining st' = os_remaining st" by simp
  have sub: "set (os_remaining st) \<subseteq> set order" "set order = dom entries"
    using inv ok by (auto simp: order_inv_def maps_ok_def)
  have "\<exists>d \<in> set (comp_dependencies c). d \<in> set (os_remaining st)"
    if "tag \<in> set (os_remaining st)" "entries tag = Some c" for tag c
  proof -
    from that sub have "tag \<in> set order" by blast
    from visit [OF this] that have dom: "set (comp_dependencies c) \<subseteq> dom entries"
      and "\<not> set (comp_dependencies c) \<subseteq> set (os_resolved st)"
      by (auto simp: order_visit_def list_all_iff split: if_splits dest: arg_cong [where f = os_progressed])
    then obtain d where "d \<in> set (comp_dependencies c)" "d \<notin> set (os_resolved st)" "d \<in> dom entries"
      by blast
    with inv sub(2) show ?thesis by (auto simp: order_inv_def)
  qed
  with rest sub st' show "stuck entries (set (os_remaining st'))"
    by (auto simp: stuck_def)
qed

lemma order_visit_Inl:
  assumes "maps_ok entries order" and "order_visit entries st tag = Inl e" and "tag \<in> set order"
  shows "(\<exists>d t. e = MissingDependency d t) \<and> \<not> complete_dependencies entries"
proof -
  from assms(1,3) obtain c where c: "entries tag = Some c" by (auto simp: maps_ok_def)
  with assms(2) have "check_dependencies entries tag (comp_dependencies c) = Inl e"
    by (auto simp: order_visit_def and_then_eq_Inl split: if_splits)
  from check_dependencies_Inl [OF this] c show ?thesis
    by (auto simp: complete_dependencies_def)
qed

definition order_outcome :: "('e, 'i) entries \<Rightarrow> string list \<Rightarrow> 'e manager_error + ('e, 'i) component list \<Rightarrow> bool" where
  "order_outcome entries order res \<longleftrightarrow>
     (case res of
        Inr cs \<Rightarrow> topological {} cs \<and> distinct (map comp_tag cs) \<and> comp_tag ` set cs = set order
          \<and> (\<forall>c \<in> set cs. entries (comp_tag c) = Some c)
      | Inl (CircularDependency rest) \<Rightarrow> stuck entries (set rest)
      | Inl (MissingDependency d t) \<Rightarrow> \<not> complete_dependencies entries
      | Inl _ \<Rightarrow> False)"

lemma order_loop_outcome:
  "maps_ok entries order \<Longrightarrow> order_inv entries order st \<Longrightarrow>
   order_outcome entries order (order_loop entries order st)"
proof (induction entries order st rule: order_loop.induct)
  case (1 entries order st)
  show ?case
  proof (cases "os_remaining st = []")
    case True
    with "1.prems" show ?thesis
      by (auto simp: order_loop.simps [of entries order st] order_outcome_def order_inv_def)
  next
    case False
    show ?thesis
    proof (cases "order_pass entries order st")
      case (Inl e)
      then obtain s tag where "tag \<in> set order" "order_visit entries s tag = Inl e"
        unfolding order_pass_def by (blast dest: try_fold_Inl)
      from order_visit_Inl [OF "1.prems"(1) this(2,1)] False Inl show ?thesis
        by (auto simp: order_loop.simps [of entries order st] order_outcome_def)
    next
      case (Inr st')
      have inv': "order_inv entries order st'" by (rule order_pass_inv [OF "1.prems" Inr])
      show ?thesis
      proof (cases "os_progressed st'")
        case True
        with "1.IH" [OF False Inr True "1.prems"(1) inv'] False Inr show ?thesis
          by (simp add: order_loop.simps [of entries order st])
      next
        case idle: False
        with idle_pass_stuck(1) [OF "1.prems" Inr idle False] False Inr show ?thesis
          by (simp add: order_loop.simps [of entries order st] order_outcome_def)
      qed
    qed
  qed
qed

lemma om_ordered_outcome:
  assumes "maps_ok (om_entries m) (om_insertion_order m)"
  shows "order_outcome (om_entries m) (om_insertion_order m) (om_ordered m)"
  unfolding om_ordered_def
  by (rule order_loop_outcome [OF assms]) (simp add: order_inv_def)

text \<open>An order exists exactly when nothing is missing and nothing is stuck.\<close>

lemma topological_complete:
  assumes "topological {} cs" and "comp_tag ` set cs = dom entries"
    and "\<forall>c \<in> set cs. entries (comp_tag c) = Some c"
  shows "complete_dependencies entries"
  unfolding complete_dependencies_def
proof (intro allI impI)
  fix tag c
  assume c: "entries tag = Some c"
  then have "tag \<in> comp_tag ` set cs" using assms(2) by auto
  then obtain x where "x \<in> set cs" "comp_tag x = tag" by auto
  with assms(3) c have "c \<in> set cs" by auto
  then obtain pre post where cs: "cs = pre @ c # post" by (auto simp: in_set_conv_decomp)
  with topological_before [of pre c post] assms(1)
  have "set (comp_dependencies c) \<subseteq> comp_tag ` set cs" by auto
  then show "set (comp_dependencies c) \<subseteq> dom entries" using assms(2) by simp
qed

lemma om_ordered_iff_lemma:
  assumes ok: "maps_ok (om_entries m) (om_insertion_order m)"
  shows "(\<exists>cs. om_ordered m = Inr cs) \<longleftrightarrow>
    complete_dependencies (om_entries m) \<and> (\<nexists>R. stuck (om_entries m) R)"
proof
  assume "\<exists>cs. om_ordered m = Inr cs"
  then obtain cs where "om_ordered m = Inr cs" ..
  with om_ordered_outcome [OF ok] ok
  have cs: "topological {} cs" "comp_tag ` set cs = dom (om_entries m)"
    "\<forall>c \<in> set cs. om_entries m (comp_tag c) = Some c"
    by (auto simp: order_outcome_def maps_ok_def)
  with topological_complete [OF cs] stuck_no_topological [OF cs]
  show "complete_dependencies (om_entries m) \<and> (\<nexists>R. stuck (om_entries m) R)" by blast
next
  assume "complete_dependencies (om_entries m) \<and> (\<nexists>R. stuck (om_entries m) R)"
  with om_ordered_outcome [OF ok] show "\<exists>cs. om_ordered m = Inr cs"
    by (auto simp: order_outcome_def split: sum.splits manager_error.splits)
qed

section \<open>Properties\<close>

lemma registered_entries:
  assumes "try_fold om_add om_new cs = Inr m"
  shows "om_entries m tag = Some c \<longleftrightarrow> c \<in> set cs \<and> comp_tag c = tag"
    and "dom (om_entries m) = comp_tag ` set cs"
    and "set (om_insertion_order m) = comp_tag ` set cs"
proof -
  from om.fold_ok assms have "distinct (map comp_tag cs)" by blast
  then have inj: "inj_on comp_tag (set cs)" by (simp add: distinct_map)
  have get: "om_entries m tag = List.find (\<lambda>c. comp_tag c = tag) cs" for tag
    using om.fold_get [OF assms, of tag] by (simp add: om_get_def)
  show entry: "om_entries m tag = Some c \<longleftrightarrow> c \<in> set cs \<and> comp_tag c = tag" for tag c
  proof
    assume "om_entries m tag = Some c"
    then show "c \<in> set cs \<and> comp_tag c = tag" by (auto simp: get find_Some_iff)
  next
    assume c: "c \<in> set cs \<and> comp_tag c = tag"
    then obtain c' where "om_entries m tag = Some c'" by (cases "om_entries m tag") (auto simp: get find_None_iff)
    with c inj show "om_entries m tag = Some c" by (auto simp: get find_Some_iff inj_on_def)
  qed
  then show "dom (om_entries m) = comp_tag ` set cs" by (auto simp: dom_def)
  with om.fold_inv [OF assms] show "set (om_insertion_order m) = comp_tag ` set cs" by (simp add: maps_ok_def)
qed

text \<open>C3: the start order of the outbounds exists exactly when every dependency is registered and no
  non-empty set of outbounds waits for itself, that is, when the dependency graph has no cycle;
  it is then an enumeration of all outbounds in which each comes after its dependencies.\<close>

theorem om_ordered_exact:
  assumes "try_fold om_add om_new cs = Inr m"
  shows "((\<exists>order. om_ordered m = Inr order)
      \<longleftrightarrow> (\<forall>c \<in> set cs. set (comp_dependencies c) \<subseteq> comp_tag ` set cs)
        \<and> \<not> (\<exists>R. R \<noteq> {} \<and> R \<subseteq> comp_tag ` set cs
              \<and> (\<forall>c \<in> set cs. comp_tag c \<in> R \<longrightarrow> set (comp_dependencies c) \<inter> R \<noteq> {})))
    \<and> (\<forall>order. om_ordered m = Inr order \<longrightarrow> distinct order \<and> set order = set cs
        \<and> (\<forall>pre c post. order = pre @ c # post \<longrightarrow> set (comp_dependencies c) \<subseteq> comp_tag ` set pre))"
proof (intro conjI allI impI)
  note ok = om.fold_inv [OF assms] and entries = registered_entries [OF assms]
  have "complete_dependencies (om_entries m)
      \<longleftrightarrow> (\<forall>c \<in> set cs. set (comp_dependencies c) \<subseteq> comp_tag ` set cs)"
    by (auto simp: complete_dependencies_def entries)
  moreover have "stuck (om_entries m) R \<longleftrightarrow> R \<noteq> {} \<and> R \<subseteq> comp_tag ` set cs
      \<and> (\<forall>c \<in> set cs. comp_tag c \<in> R \<longrightarrow> set (comp_dependencies c) \<inter> R \<noteq> {})" for R
    unfolding stuck_def entries by blast
  ultimately show "(\<exists>order. om_ordered m = Inr order)
      \<longleftrightarrow> (\<forall>c \<in> set cs. set (comp_dependencies c) \<subseteq> comp_tag ` set cs)
        \<and> \<not> (\<exists>R. R \<noteq> {} \<and> R \<subseteq> comp_tag ` set cs
              \<and> (\<forall>c \<in> set cs. comp_tag c \<in> R \<longrightarrow> set (comp_dependencies c) \<inter> R \<noteq> {}))"
    using om_ordered_iff_lemma [OF ok] by simp
  fix order
  assume order: "om_ordered m = Inr order"
  from om_ordered_outcome [OF ok] order have topo: "topological {} order" "distinct (map comp_tag order)"
    "comp_tag ` set order = comp_tag ` set cs" "\<forall>c \<in> set order. c \<in> set cs"
    by (auto simp: order_outcome_def entries)
  then show "distinct order" by (simp add: distinct_map)
  from om.fold_ok assms have "inj_on comp_tag (set cs)" by (auto simp: distinct_map)
  with topo(3,4) show "set order = set cs" by (metis inj_on_image_eq_iff subsetI)
  fix pre c post
  assume "order = pre @ c # post"
  with topo(1) topological_before show "set (comp_dependencies c) \<subseteq> comp_tag ` set pre" by blast
qed

theorem om_ordered_exact_witness:
  "\<exists>m order. try_fold om_add om_new [sample_component ''a'' [''b''], sample_component ''b'' []] = Inr m
    \<and> om_ordered m = Inr order
    \<and> set order = {sample_component ''a'' [''b''], sample_component ''b'' []}
    \<and> (\<forall>pre c post. order = pre @ c # post \<longrightarrow> set (comp_dependencies c) \<subseteq> comp_tag ` set pre)"
proof -
  let ?cs = "[sample_component ''a'' [''b''], sample_component ''b'' []]"
  obtain m where m: "try_fold om_add om_new ?cs = Inr m"
    using om.fold_ok [of ?cs] by auto
  have "\<exists>order. om_ordered m = Inr order"
  proof (rule iffD2 [OF conjunct1 [OF om_ordered_exact [OF m]]], intro conjI notI)
    assume "\<exists>R. R \<noteq> {} \<and> R \<subseteq> comp_tag ` set ?cs
      \<and> (\<forall>c \<in> set ?cs. comp_tag c \<in> R \<longrightarrow> set (comp_dependencies c) \<inter> R \<noteq> {})"
    then obtain R where R: "R \<noteq> {}" "R \<subseteq> comp_tag ` set ?cs"
      and wait: "\<forall>c \<in> set ?cs. comp_tag c \<in> R \<longrightarrow> set (comp_dependencies c) \<inter> R \<noteq> {}" by (elim exE conjE)
    from wait have "''b'' \<notin> R \<and> (''a'' \<in> R \<longrightarrow> ''b'' \<in> R)" by auto
    moreover from R(2) have "R \<subseteq> {''a'', ''b''}" by simp
    ultimately show False using R(1) by blast
  qed simp
  then obtain order where order: "om_ordered m = Inr order" ..
  note exact = conjunct2 [OF om_ordered_exact [OF m], rule_format, OF order]
  from exact have "set order = {sample_component ''a'' [''b''], sample_component ''b'' []}" by simp
  moreover from exact have
    "\<forall>pre c post. order = pre @ c # post \<longrightarrow> set (comp_dependencies c) \<subseteq> comp_tag ` set pre"
    by (elim conjE)
  ultimately show ?thesis using m order by (intro exI conjI)
qed

text \<open>When there is no start order the error says why: either a named dependency of a named
  outbound is not registered, or the named outbounds wait for one another.\<close>

theorem om_ordered_error:
  assumes "try_fold om_add om_new cs = Inr m" and "om_ordered m = Inl e"
  shows "(\<exists>d tag. e = MissingDependency d tag) \<and> \<not> (\<forall>c \<in> set cs. set (comp_dependencies c) \<subseteq> comp_tag ` set cs)
    \<or> (\<exists>tags. e = CircularDependency tags \<and> tags \<noteq> []
        \<and> (\<forall>tag \<in> set tags. \<exists>c \<in> set cs. comp_tag c = tag \<and> set (comp_dependencies c) \<inter> set tags \<noteq> {}))"
proof -
  note ok = om.fold_inv [OF assms(1)] and entries = registered_entries [OF assms(1)]
  from om_ordered_outcome [OF ok] assms(2) consider
      d tag where "e = MissingDependency d tag" "\<not> complete_dependencies (om_entries m)"
    | tags where "e = CircularDependency tags" "stuck (om_entries m) (set tags)"
    by (cases e) (auto simp: order_outcome_def)
  then show ?thesis
  proof cases
    case 1
    then show ?thesis by (auto simp: complete_dependencies_def entries)
  next
    case 2
    have "\<exists>c \<in> set cs. comp_tag c = tag \<and> set (comp_dependencies c) \<inter> set tags \<noteq> {}"
      if tag: "tag \<in> set tags" for tag
    proof -
      from 2(2) tag have "tag \<in> dom (om_entries m)" by (auto simp: stuck_def)
      then obtain c where c: "om_entries m tag = Some c" by auto
      with 2(2) tag have "set (comp_dependencies c) \<inter> set tags \<noteq> {}" by (auto simp: stuck_def)
      with c show ?thesis by (auto simp: entries)
    qed
    moreover from 2(2) have "tags \<noteq> []" by (auto simp: stuck_def)
    ultimately show ?thesis using 2(1) by blast
  qed
qed

theorem om_ordered_error_witness:
  "\<exists>m e. try_fold om_add om_new [sample_component ''a'' [''b''], sample_component ''b'' [''a'']] = Inr m
    \<and> om_ordered m = Inl e \<and> (\<exists>tags. e = CircularDependency tags \<and> tags \<noteq> [])"
proof -
  let ?cs = "[sample_component ''a'' [''b''], sample_component ''b'' [''a'']]"
  obtain m where m: "try_fold om_add om_new ?cs = Inr m"
    using om.fold_ok [of ?cs] by auto
  have "stuck (om_entries m) {''a'', ''b''}"
    unfolding stuck_def registered_entries [OF m] by (simp add: conj_disj_distribR all_conj_distrib imp_conjL ball_Un)
  with om_ordered_iff_lemma [OF om.fold_inv [OF m]] obtain e where e: "om_ordered m = Inl e"
    by (cases "om_ordered m") auto
  have "\<forall>c \<in> set ?cs. set (comp_dependencies c) \<subseteq> comp_tag ` set ?cs"
    by simp
  with om_ordered_error [OF m e] have "\<exists>tags. e = CircularDependency tags \<and> tags \<noteq> []" by blast
  with m e show ?thesis by blast
qed

end
