(* ===== verification/Ntp.thy ===== *)
theory Ntp
  imports Api_Core
begin

text \<open>
  The NTP client (\<open>ntp.rs\<close>): the conversions between system time and NTP timestamps, one
  query, and the loop over the addresses of the server. The clock and the socket are
  parameters. The \<open>i128\<close> values stay far below their bound (\<open>ntp_timestamp_bound\<close>), so they
  are integers here; division truncates towards zero as in Rust.
\<close>

unbundle bit_operations_syntax

definition NTP_PORT :: u16 where "NTP_PORT = 123"
definition NTP_UNIX_EPOCH_DELTA :: int where "NTP_UNIX_EPOCH_DELTA = 2208988800"
definition NANOS_PER_SECOND :: int where "NANOS_PER_SECOND = 1000000000"

text \<open>
  A \<open>SystemTime\<close> is the time since the Unix epoch, as whole seconds and nanoseconds, or a
  time before it.
\<close>

datatype system_time = SinceEpoch (st_secs: nat) (st_nanos: nat) | BeforeEpoch

definition system_time_wf :: "system_time \<Rightarrow> bool" where
  "system_time_wf t \<longleftrightarrow>
     (case t of SinceEpoch s n \<Rightarrow> s < 2 ^ 64 \<and> n < 1000000000 | BeforeEpoch \<Rightarrow> True)"

datatype 'io ntp_error =
    NtpServerEmpty | NtpIo 'io | ClockBeforeEpoch | InvalidTimestamp | TimestampOverflow | EraOverflow
  | InvalidMode | Unsynchronized | NtpTimedOut | NtpDidNotResolve string

definition unix_nanos :: "system_time \<Rightarrow> 'io ntp_error + int" where
  "unix_nanos t =
     (case t of
        BeforeEpoch \<Rightarrow> Inl ClockBeforeEpoch
      | SinceEpoch s n \<Rightarrow> Inr (int s * NANOS_PER_SECOND + int n))"

definition ntp_timestamp :: "bytes \<Rightarrow> 'io ntp_error + int" where
  "ntp_timestamp input =
     and_then (ensure (length input = 8) InvalidTimestamp) (\<lambda>_.
       let seconds = (from_be (take 4 input) :: u32); fraction = (from_be (drop 4 input) :: u32)
       in Inr ((uint seconds - NTP_UNIX_EPOCH_DELTA) * NANOS_PER_SECOND
               + drop_bit 32 (uint fraction * NANOS_PER_SECOND)))"

text \<open>
  The checked addition overflows \<open>u64\<close>, the conversion overflows \<open>u32\<close>. The shift by 32
  does not: the nanoseconds are below \<open>2 ^ 30\<close>.
\<close>

definition system_time_to_ntp :: "system_time \<Rightarrow> 'io ntp_error + bytes" where
  "system_time_to_ntp t =
     (case t of
        BeforeEpoch \<Rightarrow> Inl ClockBeforeEpoch
      | SinceEpoch s n \<Rightarrow>
          let seconds = s + nat NTP_UNIX_EPOCH_DELTA in
          and_then (ensure (seconds < 2 ^ 64) TimestampOverflow) (\<lambda>_.
          and_then (ensure (seconds < 2 ^ 32) EraOverflow) (\<lambda>_.
          let fraction = push_bit 32 n div nat NANOS_PER_SECOND in
          Inr (be_bytes (of_nat seconds :: u32) @ be_bytes (of_nat fraction :: u32)))))"

text \<open>\<open>/\<close> on \<open>i128\<close>.\<close>

definition half :: "int \<Rightarrow> int" where
  "half x = (if 0 \<le> x then x div 2 else - (- x div 2))"

definition ntp_request :: "bytes \<Rightarrow> bytes" where
  "ntp_request transmit = 0x23 # replicate 39 0 @ transmit"

text \<open>
  What the outside answers to one query: the local clock before the request and after the
  response, and the exchange over the socket. \<open>recv\<close> fills the front of a zeroed buffer of
  48 bytes; a longer datagram is cut.
\<close>

record 'io ntp_outside =
  clock_send :: system_time
  clock_receive :: system_time
  bind_connect :: "socket_addr \<Rightarrow> socket_addr \<Rightarrow> 'io option"
  send_datagram :: "bytes \<Rightarrow> 'io option"
  recv_datagram :: "('io + bytes) option"

definition ntp_buffer :: "bytes \<Rightarrow> bytes" where
  "ntp_buffer data = take 48 (data @ replicate 48 0)"

definition ntp_query :: "'io ntp_outside \<Rightarrow> socket_addr \<Rightarrow> 'io ntp_error + int" where
  "ntp_query env server =
     (let bind_address =
            new_socket_addr (if is_ipv4 (sock_ip server) then IpV4 v4_unspecified else IpV6 v6_unspecified) 0
      in case bind_connect env bind_address server of
        Some e \<Rightarrow> Inl (NtpIo e)
      | None \<Rightarrow>
        and_then (unix_nanos (clock_send env)) (\<lambda>client_send.
        and_then (system_time_to_ntp (clock_send env)) (\<lambda>transmit.
        case send_datagram env (ntp_request transmit) of
          Some e \<Rightarrow> Inl (NtpIo e)
        | None \<Rightarrow>
          and_then (case recv_datagram env of
              None \<Rightarrow> Inl NtpTimedOut
            | Some r \<Rightarrow> map_err NtpIo r) (\<lambda>data.
          let response = ntp_buffer data in
          and_then (unix_nanos (clock_receive env)) (\<lambda>client_receive.
          and_then (ensure (response ! 0 AND 7 = 4) InvalidMode) (\<lambda>_.
          and_then (ensure (response ! 1 \<noteq> 0) Unsynchronized) (\<lambda>_.
          and_then (ntp_timestamp (take 8 (drop 32 response))) (\<lambda>server_receive.
          and_then (ntp_timestamp (take 8 (drop 40 response))) (\<lambda>server_send.
          Inr (half ((server_receive - client_send) + (server_send - client_receive))))))))))))"

fun query_each ::
    "(socket_addr \<Rightarrow> 'io ntp_error + int) \<Rightarrow> 'io ntp_error option \<Rightarrow> socket_addr list \<Rightarrow> 'io ntp_error option + int" where
  "query_each query last_error [] = Inl last_error"
| "query_each query last_error (a # as) =
     (case query a of Inr offset \<Rightarrow> Inr offset | Inl e \<Rightarrow> query_each query (Some e) as)"

definition synchronize ::
    "(string \<Rightarrow> u16 \<Rightarrow> 'io + socket_addr list) \<Rightarrow> (socket_addr \<Rightarrow> 'io ntp_outside) \<Rightarrow> ntp_config
       \<Rightarrow> 'io system_dialer \<Rightarrow> 'io ntp_error + int" where
  "synchronize lookup_host env c dialer =
     and_then (ensure (ntp_server c \<noteq> []) NtpServerEmpty) (\<lambda>_.
     let server_port = (if ntp_server_port c = 0 then NTP_PORT else ntp_server_port c) in
     and_then (map_err NtpIo (resolve lookup_host dialer (ntp_server c) server_port)) (\<lambda>addresses.
     case query_each (\<lambda>a. ntp_query (env a) a) None addresses of
       Inr offset \<Rightarrow> Inr offset
     | Inl (Some e) \<Rightarrow> Inl e
     | Inl None \<Rightarrow> Inl (NtpDidNotResolve (ntp_server c))))"

section \<open>Conversions\<close>

lemma from_be_u32 [simp]: "from_be (be_bytes (w :: u32)) = w"
  by simp

lemma system_time_to_ntp_ok_lemma:
  "(\<exists>b. system_time_to_ntp (SinceEpoch s n) = (Inr b :: 'io ntp_error + bytes)) \<longleftrightarrow> s + 2208988800 < 2 ^ 32"
  by (auto simp: system_time_to_ntp_def NTP_UNIX_EPOCH_DELTA_def Let_def)

text \<open>Going through the wire format loses less than a nanosecond, downwards.\<close>

lemma fraction_roundtrip:
  fixes n :: nat
  assumes "n < 1000000000"
  defines "f \<equiv> n * 2 ^ 32 div 1000000000"
  shows "f < 2 ^ 32" and "f * 1000000000 div 2 ^ 32 \<le> n" and "n \<le> f * 1000000000 div 2 ^ 32 + 1"
proof -
  have up: "f * 1000000000 \<le> n * 2 ^ 32" unfolding f_def by (rule div_times_less_eq_dividend)
  have low: "n * 2 ^ 32 < f * 1000000000 + 1000000000"
    unfolding f_def using mod_less_divisor [of 1000000000 "n * 2 ^ 32"] div_mult_mod_eq [of "n * 2 ^ 32" 1000000000]
    by linarith
  from up assms(1) show "f < 2 ^ 32" by simp
  from up show "f * 1000000000 div 2 ^ 32 \<le> n"
    using div_le_mono [OF up, of "2 ^ 32"] by simp
  from low have "n * 2 ^ 32 < f * 1000000000 + 2 ^ 32" by simp
  then have "n * 2 ^ 32 div 2 ^ 32 \<le> (f * 1000000000 + 2 ^ 32) div 2 ^ 32"
    by (intro div_le_mono) simp
  then show "n \<le> f * 1000000000 div 2 ^ 32 + 1" by simp
qed

lemma ntp_timestamp_be:
  "ntp_timestamp (be_bytes (s :: u32) @ be_bytes (f :: u32))
    = Inr ((int (unat s) - NTP_UNIX_EPOCH_DELTA) * NANOS_PER_SECOND
           + int (unat f * 1000000000 div 2 ^ 32))"
proof -
  have split: "take 4 (be_bytes s @ be_bytes f) = be_bytes s" "drop 4 (be_bytes s @ be_bytes f) = be_bytes f"
    "length (be_bytes s @ be_bytes f) = 8"
    by simp_all
  have "drop_bit 32 (uint f * 1000000000) = int (unat f * 1000000000 div 2 ^ 32)"
    by (simp only: drop_bit_eq_div of_nat_div of_nat_mult of_nat_power uint_nat) simp
  then show ?thesis
    unfolding ntp_timestamp_def split Let_def from_be_u32 NANOS_PER_SECOND_def
    by (simp only: ensure_simps and_then_simps uint_nat simp_thms)
qed

lemma ntp_roundtrip_lemma:
  assumes "system_time_to_ntp (SinceEpoch s n) = (Inr b :: 'io ntp_error + bytes)" and "n < 1000000000"
  obtains d where "ntp_timestamp b = (Inr (int s * NANOS_PER_SECOND + int n - d) :: 'io ntp_error + int)"
    and "0 \<le> d" and "d \<le> 1"
proof -
  let ?f = "n * 2 ^ 32 div 1000000000"
  note f = fraction_roundtrip [OF assms(2)]
  from assms(1) have s: "s + 2208988800 < 2 ^ 32"
    and b: "b = be_bytes (of_nat (s + 2208988800) :: u32) @ be_bytes (of_nat ?f :: u32)"
    by (auto simp: system_time_to_ntp_def NTP_UNIX_EPOCH_DELTA_def NANOS_PER_SECOND_def Let_def push_bit_eq_mult)
  have "unat (of_nat (s + 2208988800) :: u32) = s + 2208988800"
    using s by (simp only: unat_of_nat) simp
  moreover have "unat (of_nat ?f :: u32) = ?f"
    using f(1) by (simp only: unat_of_nat) simp
  ultimately have "ntp_timestamp b = (Inr (int s * NANOS_PER_SECOND + int (?f * 1000000000 div 2 ^ 32)) :: 'io ntp_error + int)"
    unfolding b ntp_timestamp_be by (simp add: NTP_UNIX_EPOCH_DELTA_def)
  then show ?thesis
    using that [of "int n - int (?f * 1000000000 div 2 ^ 32)"] f(2,3) by simp
qed

lemma timestamp_arith:
  fixes a d f :: int
  assumes "0 \<le> d" "d \<le> f * 1000000000" "a < 4294967296" "f < 4294967296" "0 \<le> a" "0 \<le> f"
  shows "\<bar>(a - 2208988800) * 1000000000 + d\<bar> < 9223372036854775808"
  using assms by simp

text \<open>A timestamp is far inside \<open>i128\<close>.\<close>

lemma ntp_timestamp_bound:
  assumes "ntp_timestamp b = (Inr t :: 'io ntp_error + int)"
  shows "\<bar>t\<bar> < 2 ^ 63"
proof -
  from assms obtain s f :: u32 where
    "t = (uint s - 2208988800) * 1000000000 + drop_bit 32 (uint f * 1000000000)"
    by (auto simp: ntp_timestamp_def Let_def NTP_UNIX_EPOCH_DELTA_def NANOS_PER_SECOND_def)
  moreover have "drop_bit 32 (uint f * 1000000000) \<le> uint f * 1000000000"
    using zdiv_mono2 [of "uint f * 1000000000" 1 "2 ^ 32"] by (simp add: drop_bit_eq_div)
  ultimately have "\<bar>t\<bar> < 9223372036854775808"
    using timestamp_arith [of "drop_bit 32 (uint f * 1000000000)" "uint f" "uint s"]
      unsigned_less [of s, where ?'a = int] unsigned_less [of f, where ?'a = int] by simp
  then show ?thesis by simp
qed

lemma half_double [simp]: "half (2 * x) = x"
  using nonzero_mult_div_cancel_left [of 2 "- x"] by (simp add: half_def)

lemma query_each_first:
  assumes "list_all (\<lambda>a. \<not> is_ok (query a)) pre" and "query a = Inr offset"
  shows "query_each query err (pre @ a # post) = Inr offset"
  using assms by (induction pre arbitrary: err) (auto split: sum.splits)

end
