(* ===== verification/Registry.thy ===== *)
theory Registry
  imports Router Outbound_Order Ntp
begin

text \<open>
  The protocol registry (\<open>registry.rs\<close>): factories by component type. A factory decodes its
  options and calls the constructor of the protocol; both are arguments of the registration.
\<close>

record ('e, 'io, 'o, 'rx) outbound_context =
  oc_outbounds :: "('e, 'o) outbound_manager"
  oc_system_dialer :: "'io system_dialer"
  oc_certificate_providers :: "('e, string \<Rightarrow> 'e + 'rx) provider_manager"

record ('e, 'io, 'rx) inbound_context =
  ic_router :: router
  ic_system_dialer :: "'io system_dialer"
  ic_certificate_providers :: "('e, string \<Rightarrow> 'e + 'rx) provider_manager"

type_synonym ('ctx, 'n, 'e, 'i) factory = "'ctx \<Rightarrow> string \<Rightarrow> 'n json \<Rightarrow> 'e + ('e, 'i) component"

record ('n, 'e, 'io, 'o, 'i, 'rx) registry =
  rg_certificate_provider :: "string \<rightharpoonup> ('io system_dialer, 'n, 'e, string \<Rightarrow> 'e + 'rx) factory"
  rg_outbound :: "string \<rightharpoonup> (('e, 'io, 'o, 'rx) outbound_context, 'n, 'e, 'o) factory"
  rg_inbound :: "string \<rightharpoonup> (('e, 'io, 'rx) inbound_context, 'n, 'e, 'i) factory"

datatype 'e registry_error =
    AlreadyRegistered string
  | UnknownProviderType string | UnknownOutboundType string | UnknownInboundType string
  | FactoryFailed 'e

definition registry_new :: "('n, 'e, 'io, 'o, 'i, 'rx) registry" where
  "registry_new = \<lparr>rg_certificate_provider = \<lambda>_. None, rg_outbound = \<lambda>_. None, rg_inbound = \<lambda>_. None\<rparr>"

text \<open>The closure every registration stores.\<close>

definition typed_factory ::
    "('n json \<Rightarrow> 'e + 'c) \<Rightarrow> ('ctx \<Rightarrow> string \<Rightarrow> 'c \<Rightarrow> 'e + ('e, 'i) component) \<Rightarrow> ('ctx, 'n, 'e, 'i) factory" where
  "typed_factory decode constructor ctx tag raw = and_then (decode raw) (constructor ctx tag)"

definition register_certificate_provider ::
    "string \<Rightarrow> ('n json \<Rightarrow> 'e + 'c) \<Rightarrow> ('io system_dialer \<Rightarrow> string \<Rightarrow> 'c \<Rightarrow> 'e + ('e, string \<Rightarrow> 'e + 'rx) component)
       \<Rightarrow> ('n, 'e, 'io, 'o, 'i, 'rx) registry \<Rightarrow> 'e registry_error + ('n, 'e, 'io, 'o, 'i, 'rx) registry" where
  "register_certificate_provider kind decode constructor r =
     and_then (ensure (rg_certificate_provider r kind = None) (AlreadyRegistered kind)) (\<lambda>_.
     Inr (r\<lparr>rg_certificate_provider := (rg_certificate_provider r)(kind \<mapsto> typed_factory decode constructor)\<rparr>))"

definition register_outbound ::
    "string \<Rightarrow> ('n json \<Rightarrow> 'e + 'c) \<Rightarrow> (('e, 'io, 'o, 'rx) outbound_context \<Rightarrow> string \<Rightarrow> 'c \<Rightarrow> 'e + ('e, 'o) component)
       \<Rightarrow> ('n, 'e, 'io, 'o, 'i, 'rx) registry \<Rightarrow> 'e registry_error + ('n, 'e, 'io, 'o, 'i, 'rx) registry" where
  "register_outbound kind decode constructor r =
     and_then (ensure (rg_outbound r kind = None) (AlreadyRegistered kind)) (\<lambda>_.
     Inr (r\<lparr>rg_outbound := (rg_outbound r)(kind \<mapsto> typed_factory decode constructor)\<rparr>))"

definition register_inbound ::
    "string \<Rightarrow> ('n json \<Rightarrow> 'e + 'c) \<Rightarrow> (('e, 'io, 'rx) inbound_context \<Rightarrow> string \<Rightarrow> 'c \<Rightarrow> 'e + ('e, 'i) component)
       \<Rightarrow> ('n, 'e, 'io, 'o, 'i, 'rx) registry \<Rightarrow> 'e registry_error + ('n, 'e, 'io, 'o, 'i, 'rx) registry" where
  "register_inbound kind decode constructor r =
     and_then (ensure (rg_inbound r kind = None) (AlreadyRegistered kind)) (\<lambda>_.
     Inr (r\<lparr>rg_inbound := (rg_inbound r)(kind \<mapsto> typed_factory decode constructor)\<rparr>))"

definition create_certificate_provider ::
    "('n, 'e, 'io, 'o, 'i, 'rx) registry \<Rightarrow> 'io system_dialer \<Rightarrow> string \<Rightarrow> string \<Rightarrow> 'n json
       \<Rightarrow> 'e registry_error + ('e, string \<Rightarrow> 'e + 'rx) component" where
  "create_certificate_provider r ctx kind tag options =
     and_then (ok_or (UnknownProviderType kind) (rg_certificate_provider r kind)) (\<lambda>f.
     map_err FactoryFailed (f ctx tag options))"

definition create_outbound ::
    "('n, 'e, 'io, 'o, 'i, 'rx) registry \<Rightarrow> ('e, 'io, 'o, 'rx) outbound_context \<Rightarrow> string \<Rightarrow> string \<Rightarrow> 'n json
       \<Rightarrow> 'e registry_error + ('e, 'o) component" where
  "create_outbound r ctx kind tag options =
     and_then (ok_or (UnknownOutboundType kind) (rg_outbound r kind)) (\<lambda>f.
     map_err FactoryFailed (f ctx tag options))"

definition create_inbound ::
    "('n, 'e, 'io, 'o, 'i, 'rx) registry \<Rightarrow> ('e, 'io, 'rx) inbound_context \<Rightarrow> string \<Rightarrow> string \<Rightarrow> 'n json
       \<Rightarrow> 'e registry_error + ('e, 'i) component" where
  "create_inbound r ctx kind tag options =
     and_then (ok_or (UnknownInboundType kind) (rg_inbound r kind)) (\<lambda>f.
     map_err FactoryFailed (f ctx tag options))"

text \<open>
  A type is registered once; what is created under it later goes through the registered
  decoder and constructor, and the other types are untouched.
\<close>

lemma register_create_outbound:
  assumes "register_outbound kind decode constructor r = Inr r'"
  shows "create_outbound r' ctx k tag options =
    (if k = kind then map_err FactoryFailed (and_then (decode options) (constructor ctx tag))
     else create_outbound r ctx k tag options)"
    and "register_outbound kind decode' constructor' r' = Inl (AlreadyRegistered kind)"
  using assms by (auto simp: register_outbound_def create_outbound_def typed_factory_def)

end
