(* ===== verification/Engine.thy ===== *)
theory Engine
  imports Registry
begin

text \<open>
  The engine (\<open>engine.rs\<close>): building every component from the configuration, in dependency
  order, starting them stage by stage, and shutting down. Calls on components are recorded as
  events.
\<close>

section \<open>Building\<close>

record ('e, 'i, 'o, 'rx) engine =
  en_outbounds :: "('e, 'o) outbound_manager"
  en_inbounds :: "('e, 'i) inbound_manager"
  en_certificate_providers :: "('e, string \<Rightarrow> 'e + 'rx) provider_manager"
  en_router :: router
  en_ntp_offset_nanos :: "int option"

datatype ('e, 'je) engine_error =
    ResolverRequired | DefaultServerNotFound string
  | CreateProvider string "'e registry_error" | CreateOutbound string "'e registry_error"
  | CreateInbound string "'e registry_error"
  | ManagerError "'e manager_error" | RouterError "'je router_error" | TaskPanicked

definition component_tag :: "string \<Rightarrow> string \<Rightarrow> nat \<Rightarrow> string" where
  "component_tag tag kind index = (if tag = [] then kind @ ''-'' @ show_nat index else tag)"

text \<open>Everything outside of the engine's own code.\<close>

record ('io, 'f, 'je) services =
  sv_resolver :: "'io resolver option"
  sv_lookup_host :: "string \<Rightarrow> u16 \<Rightarrow> 'io + socket_addr list"
  sv_ntp :: "socket_addr \<Rightarrow> 'io ntp_outside"
  sv_float :: "'f float_ops"
  sv_decoders :: "'je decoders"
  sv_outside :: "string \<Rightarrow> outsides"
  sv_fetcher :: bool

definition check_resolver ::
    "'io resolver option \<Rightarrow> string option \<Rightarrow> ('e, 'je) engine_error + unit" where
  "check_resolver resolver server =
     (case server of
        None \<Rightarrow> Inr ()
      | Some s \<Rightarrow>
          and_then (ok_or ResolverRequired resolver) (\<lambda>r.
          ensure (resolver_contains_server r s) (DefaultServerNotFound s)))"

definition engine_dialer :: "('io, 'f, 'je) services \<Rightarrow> 'n config \<Rightarrow> 'io system_dialer" where
  "engine_dialer sv c =
     new_system_dialer (sv_resolver sv)
       (map_option resolver_config_server (rc_default_domain_resolver (cfg_route c)))
       (case cfg_dns c of Some dns \<Rightarrow> dns_strategy dns | None \<Rightarrow> default_strategy)"

text \<open>A failed synchronisation is logged and the engine goes on without an offset.\<close>

definition ntp_offset :: "('io, 'f, 'je) services \<Rightarrow> 'n config \<Rightarrow> 'io system_dialer \<Rightarrow> int option" where
  "ntp_offset sv c dialer =
     (case cfg_ntp c of
        Some ntp \<Rightarrow>
          if ntp_enabled ntp then
            (case synchronize (sv_lookup_host sv) (sv_ntp sv) ntp dialer of Inr offset \<Rightarrow> Some offset | Inl _ \<Rightarrow> None)
          else None
      | None \<Rightarrow> None)"

definition add_provider ::
    "('n, 'e, 'io, 'o, 'i, 'rx) registry \<Rightarrow> 'io system_dialer
       \<Rightarrow> ('e, string \<Rightarrow> 'e + 'rx) provider_manager \<Rightarrow> nat \<times> 'n raw_component
       \<Rightarrow> ('e, 'je) engine_error + ('e, string \<Rightarrow> 'e + 'rx) provider_manager" where
  "add_provider rg dialer m = (\<lambda>(index, raw).
     and_then (map_err (CreateProvider (raw_kind raw))
       (create_certificate_provider rg dialer (raw_kind raw)
          (component_tag (raw_tag raw) (raw_kind raw) index) (options_value raw))) (\<lambda>p.
     map_err ManagerError (pm_add m p)))"

definition add_outbound ::
    "('n, 'e, 'io, 'o, 'i, 'rx) registry \<Rightarrow> 'io system_dialer \<Rightarrow> ('e, string \<Rightarrow> 'e + 'rx) provider_manager
       \<Rightarrow> ('e, 'o) outbound_manager \<Rightarrow> nat \<times> 'n raw_component
       \<Rightarrow> ('e, 'je) engine_error + ('e, 'o) outbound_manager" where
  "add_outbound rg dialer providers m = (\<lambda>(index, raw).
     and_then (map_err (CreateOutbound (raw_kind raw))
       (create_outbound rg
          \<lparr>oc_outbounds = m, oc_system_dialer = dialer, oc_certificate_providers = providers\<rparr>
          (raw_kind raw) (component_tag (raw_tag raw) (raw_kind raw) index) (options_value raw))) (\<lambda>ob.
     map_err ManagerError (om_add m ob)))"

definition add_inbound ::
    "('n, 'e, 'io, 'o, 'i, 'rx) registry \<Rightarrow> 'io system_dialer \<Rightarrow> ('e, string \<Rightarrow> 'e + 'rx) provider_manager
       \<Rightarrow> router \<Rightarrow> ('e, 'i) inbound_manager \<Rightarrow> nat \<times> 'n raw_component
       \<Rightarrow> ('e, 'je) engine_error + ('e, 'i) inbound_manager" where
  "add_inbound rg dialer providers rt m = (\<lambda>(index, raw).
     and_then (map_err (CreateInbound (raw_kind raw))
       (create_inbound rg
          \<lparr>ic_router = rt, ic_system_dialer = dialer, ic_certificate_providers = providers\<rparr>
          (raw_kind raw) (component_tag (raw_tag raw) (raw_kind raw) index) (options_value raw))) (\<lambda>i.
     map_err ManagerError (im_add m i)))"

definition new_with_services ::
    "('io, 'f, 'je) services \<Rightarrow> 'n config \<Rightarrow> ('n, 'e, 'io, 'o, 'i, 'rx) registry
       \<Rightarrow> ('e, 'je) engine_error + ('e, 'i, 'o, 'rx) engine" where
  "new_with_services sv c rg =
     (let default_outbound =
            (case cfg_outbounds c of [] \<Rightarrow> [] | raw # _ \<Rightarrow> component_tag (raw_tag raw) (raw_kind raw) 0);
          resolver_server = map_option resolver_config_server (rc_default_domain_resolver (cfg_route c))
      in and_then (check_resolver (sv_resolver sv) resolver_server) (\<lambda>_.
         let dialer = engine_dialer sv c; offset = ntp_offset sv c dialer in
         and_then (try_fold (add_provider rg dialer) pm_new (List.enumerate 0 (cfg_certificate_providers c))) (\<lambda>providers.
         and_then (try_fold (add_outbound rg dialer providers) om_new (List.enumerate 0 (cfg_outbounds c))) (\<lambda>outbounds.
         and_then (map_err ManagerError (om_ordered outbounds)) (\<lambda>_.
         and_then (map_err RouterError
           (build_with_fetcher (om_get outbounds) (sv_float sv) (sv_decoders sv) (sv_outside sv)
              (sv_fetcher sv) (cfg_route c) default_outbound)) (\<lambda>rt.
         and_then (try_fold (add_inbound rg dialer providers rt) im_new (List.enumerate 0 (cfg_inbounds c))) (\<lambda>inbounds.
         Inr \<lparr>en_outbounds = outbounds, en_inbounds = inbounds, en_certificate_providers = providers,
              en_router = rt, en_ntp_offset_nanos = offset\<rparr>)))))))"

section \<open>Starting and shutting down\<close>

datatype engine_event =
    RouterStarted | RouterClosed
  | ProviderEvent event | OutboundEvent event | InboundEvent event

text \<open>Every part is closed; the results are looked at afterwards, in this order.\<close>

definition engine_shutdown ::
    "(rule_set_service \<Rightarrow> bool) \<Rightarrow> ('e, 'i, 'o, 'rx) engine
       \<Rightarrow> (('e, 'je) engine_error + unit) \<times> ('e, 'i, 'o, 'rx) engine \<times> engine_event list" where
  "engine_shutdown joined en =
     (let (inbound_result, evs1) = im_close (en_inbounds en);
          (router_ok, rt) = router_close joined (en_router en);
          (outbound_result, evs2) = om_close (en_outbounds en);
          (provider_result, evs3) = pm_close (en_certificate_providers en)
      in (and_then (map_err ManagerError inbound_result) (\<lambda>_.
          and_then (ensure router_ok TaskPanicked) (\<lambda>_.
          and_then (map_err ManagerError outbound_result) (\<lambda>_.
          map_err ManagerError provider_result))),
          en\<lparr>en_router := rt\<rparr>,
          map InboundEvent evs1 @ [RouterClosed] @ map OutboundEvent evs2 @ map ProviderEvent evs3))"

definition stage_steps ::
    "('e, 'i, 'o, 'rx) engine \<Rightarrow> start_stage \<Rightarrow> (('e manager_error + unit) \<times> engine_event list) list" where
  "stage_steps en stage =
     [map_prod id (map ProviderEvent) (pm_start stage (en_certificate_providers en)),
      map_prod id (map OutboundEvent) (om_start stage (en_outbounds en)),
      map_prod id (map InboundEvent) (im_start stage (en_inbounds en))]"

text \<open>The steps run in order until one fails; then the engine shuts down and the error is returned.\<close>

fun run_steps ::
    "(rule_set_service \<Rightarrow> bool) \<Rightarrow> ('e, 'i, 'o, 'rx) engine \<Rightarrow> (('e manager_error + unit) \<times> engine_event list) list
       \<Rightarrow> (('e, 'je) engine_error + unit) \<times> ('e, 'i, 'o, 'rx) engine \<times> engine_event list" where
  "run_steps joined en [] = (Inr (), en, [])"
| "run_steps joined en ((res, evs) # steps) =
     (case res of
        Inl e \<Rightarrow>
          let (_, en', evs') = (engine_shutdown joined en ::
                (('e, 'je) engine_error + unit) \<times> ('e, 'i, 'o, 'rx) engine \<times> engine_event list)
          in (Inl (ManagerError e), en', evs @ evs')
      | Inr _ \<Rightarrow> let (r, en', evs') = run_steps joined en steps in (r, en', evs @ evs'))"

definition engine_start ::
    "(rule_set_service \<Rightarrow> bool) \<Rightarrow> ('e, 'i, 'o, 'rx) engine
       \<Rightarrow> (('e, 'je) engine_error + unit) \<times> ('e, 'i, 'o, 'rx) engine \<times> engine_event list" where
  "engine_start joined en =
     (let en = en\<lparr>en_router := router_start (en_router en)\<rparr>;
          (r, en', evs) = run_steps joined en (concat (map (stage_steps en) START_STAGES))
      in (r, en', RouterStarted # evs))"

definition inbound_addr :: "('i \<Rightarrow> socket_addr option) \<Rightarrow> ('e, 'i, 'o, 'rx) engine \<Rightarrow> string \<Rightarrow> socket_addr option" where
  "inbound_addr local_addr en tag =
     (case im_get (en_inbounds en) tag of None \<Rightarrow> None | Some c \<Rightarrow> local_addr (comp_interface c))"

section \<open>The engine that was built\<close>

lemma om_maps_ok:
  assumes "try_fold (add_outbound rg dialer providers) om_new raws = Inr m"
  shows "maps_ok (om_entries m) (om_insertion_order m)"
  using assms
  by (rule try_fold_invariant [where P = "\<lambda>m. maps_ok (om_entries m) (om_insertion_order m)"])
    (use om.inv_emp in simp, auto simp: add_outbound_def intro: om.inv_add split: prod.splits)

lemma engine_parts:
  assumes "(new_with_services sv c rg :: ('e, 'je) engine_error + ('e, 'i, 'o, 'rx) engine) = Inr en"
  obtains cs where "om_ordered (en_outbounds en) = Inr cs"
    and "maps_ok (om_entries (en_outbounds en)) (om_insertion_order (en_outbounds en))"
    and "router_wf (om_get (en_outbounds en)) (en_router en)"
  using assms
  by (auto simp: new_with_services_def Let_def dest!: om_maps_ok build_router_wf_lemma)

section \<open>What start and shutdown do\<close>

definition closes :: "(event \<Rightarrow> engine_event) \<Rightarrow> ('e, 'i) component list \<Rightarrow> engine_event list" where
  "closes f cs = map (\<lambda>c. f (ClosedAt (comp_tag c))) cs"

definition starts :: "(event \<Rightarrow> engine_event) \<Rightarrow> start_stage \<Rightarrow> ('e, 'i) component list \<Rightarrow> engine_event list" where
  "starts f stage cs = map (\<lambda>c. f (StartedAt (comp_tag c) stage)) cs"

lemma shutdown_events:
  assumes "om_ordered (en_outbounds en) = Inr cs"
  shows "snd (snd (engine_shutdown joined en)) =
    closes InboundEvent (rev (im_ordered (en_inbounds en))) @ [RouterClosed]
    @ closes OutboundEvent (rev cs)
    @ closes ProviderEvent (rev (pm_ordered (en_certificate_providers en)))"
  using assms
  by (simp add: engine_shutdown_def im_close_def om_close_def pm_close_def router_close_def
      split_def Let_def closes_def)

definition starts_ok :: "start_stage \<Rightarrow> ('e, 'i) component list \<Rightarrow> bool" where
  "starts_ok stage cs \<longleftrightarrow> list_all (\<lambda>c. comp_start c stage = None) cs"

lemma stage_steps_ok:
  assumes "om_ordered (en_outbounds en) = Inr cs"
    and "starts_ok stage (pm_ordered (en_certificate_providers en))"
    and "starts_ok stage cs" and "starts_ok stage (im_ordered (en_inbounds en))"
  shows "stage_steps en stage =
    [(Inr (), starts ProviderEvent stage (pm_ordered (en_certificate_providers en))),
     (Inr (), starts OutboundEvent stage cs),
     (Inr (), starts InboundEvent stage (im_ordered (en_inbounds en)))]"
  using assms
  by (simp add: stage_steps_def pm_start_def om_start_def im_start_def start_each_ok starts_ok_def
      starts_def o_def)

lemma run_steps_ok:
  "list_all (\<lambda>s. fst s = Inr ()) steps \<Longrightarrow>
   run_steps joined en steps = (Inr (), en, concat (map snd steps))"
  by (induction steps) auto

lemma run_steps_fails:
  assumes "list_all (\<lambda>s. fst s = Inr ()) pre"
  shows "run_steps joined en (pre @ (Inl e, evs) # post)
    = ((Inl (ManagerError e) :: ('e, 'je) engine_error + unit),
       fst (snd (engine_shutdown joined en :: (('e, 'je) engine_error + unit) \<times> _)),
       concat (map snd pre) @ evs @ snd (snd (engine_shutdown joined en :: (('e, 'je) engine_error + unit) \<times> _)))"
  using assms by (induction pre) (auto simp: split_def Let_def)

lemma run_steps_error:
  "run_steps joined en steps = (Inl (e :: ('e, 'je) engine_error), en', evs) \<Longrightarrow>
   \<exists>pre. evs = pre @ snd (snd (engine_shutdown joined en :: (('e, 'je) engine_error + unit) \<times> _))
     \<and> en' = fst (snd (engine_shutdown joined en :: (('e, 'je) engine_error + unit) \<times> _))"
proof (induction steps arbitrary: evs)
  case (Cons step steps)
  obtain res evs0 where step: "step = (res, evs0)" by (cases step)
  show ?case
  proof (cases res)
    case (Inl e')
    with Cons.prems step show ?thesis by (auto simp: split_def Let_def)
  next
    case (Inr u)
    with Cons.prems step obtain evs1 where "run_steps joined en steps = (Inl e, en', evs1)" "evs = evs0 @ evs1"
      by (auto split: prod.splits)
    with Cons.IH [OF this(1)] show ?thesis by fastforce
  qed
qed simp

lemma shutdown_router:
  "fst (snd (engine_shutdown joined en)) =
     en\<lparr>en_router := (en_router en)\<lparr>rt_cancelled := True, rt_tasks := []\<rparr>\<rparr>"
  by (simp add: engine_shutdown_def router_close_def split_def Let_def)

lemma engine_order:
  assumes "(new_with_services sv c rg :: ('e, 'je) engine_error + ('e, 'i, 'o, 'rx) engine) = Inr en"
  obtains cs where "om_ordered (en_outbounds en) = Inr cs" and "topological {} cs"
    and "\<forall>o' \<in> set cs. om_get (en_outbounds en) (comp_tag o') = Some o'"
    and "comp_tag ` set cs = dom (om_get (en_outbounds en))"
proof -
  obtain cs where cs: "om_ordered (en_outbounds en) = Inr cs"
    and ok: "maps_ok (om_entries (en_outbounds en)) (om_insertion_order (en_outbounds en))"
    using engine_parts [OF assms] by metis
  from om_ordered_outcome [OF ok] cs ok have "topological {} cs"
    and "\<forall>o' \<in> set cs. om_entries (en_outbounds en) (comp_tag o') = Some o'"
    and "comp_tag ` set cs = dom (om_entries (en_outbounds en))"
    by (auto simp: order_outcome_def maps_ok_def)
  with that [OF cs] show thesis by (simp add: om_get_def [abs_def])
qed

section \<open>Properties\<close>

text \<open>C5: starting an engine whose components all start runs the four stages in order; in each stage
  all certificate providers start before all outbounds, every outbound after its dependencies,
  and all outbounds before all inbounds, so nothing accepts a connection before what it routes
  to is up.\<close>

theorem engine_start_order:
  assumes "(new_with_services sv c rg :: ('e, 'je) engine_error + ('e, 'i, 'o, 'rx) engine) = Inr en"
    and "\<forall>stage. starts_ok stage (pm_ordered (en_certificate_providers en))
      \<and> starts_ok stage (im_ordered (en_inbounds en))"
    and "\<forall>stage tag ob. om_get (en_outbounds en) tag = Some ob \<longrightarrow> comp_start ob stage = None"
  shows "\<exists>order. om_ordered (en_outbounds en) = Inr order \<and> topological {} order
    \<and> engine_start joined en = (Inr () :: ('e, 'je) engine_error + unit,
        en\<lparr>en_router := router_start (en_router en)\<rparr>,
        RouterStarted # concat (map (\<lambda>stage.
          starts ProviderEvent stage (pm_ordered (en_certificate_providers en))
          @ starts OutboundEvent stage order
          @ starts InboundEvent stage (im_ordered (en_inbounds en)))
          [Initialize, Start, PostStart, Started]))"
proof -
  obtain order where order: "om_ordered (en_outbounds en) = Inr order" "topological {} order"
    "\<forall>ob \<in> set order. om_get (en_outbounds en) (comp_tag ob) = Some ob"
    by (rule engine_order [OF assms(1)])
  let ?en = "en\<lparr>en_router := router_start (en_router en)\<rparr>"
  from order(3) assms(3) have "starts_ok stage order" for stage
    by (auto simp: starts_ok_def list_all_iff)
  with order(1) assms(2) have steps: "stage_steps ?en stage =
     [(Inr (), starts ProviderEvent stage (pm_ordered (en_certificate_providers en))),
      (Inr (), starts OutboundEvent stage order),
      (Inr (), starts InboundEvent stage (im_ordered (en_inbounds en)))]" for stage
    by (simp add: stage_steps_ok)
  have "list_all (\<lambda>s. fst s = Inr ()) (concat (map (stage_steps ?en) START_STAGES))"
    by (simp add: START_STAGES_def steps)
  from run_steps_ok [OF this, of joined ?en] order(1,2) show ?thesis
    by (simp add: engine_start_def Let_def START_STAGES_def steps)
qed

text \<open>C4: a failed start leaves nothing running. Whatever component fails in whatever stage, the
  engine closes all inbounds, then the router with its update services, then all outbounds in
  the reverse of the dependency order, then all certificate providers, before the error is
  returned.\<close>

theorem engine_start_rollback:
  assumes "(new_with_services sv c rg :: ('e, 'je) engine_error + ('e, 'i, 'o, 'rx) engine) = Inr en"
    and "engine_start joined en = (Inl (e :: ('e, 'je) engine_error), en', evs)"
  shows "\<exists>order pre. om_ordered (en_outbounds en) = Inr order
    \<and> evs = pre @ closes InboundEvent (rev (im_ordered (en_inbounds en))) @ [RouterClosed]
        @ closes OutboundEvent (rev order)
        @ closes ProviderEvent (rev (pm_ordered (en_certificate_providers en)))
    \<and> rt_cancelled (en_router en') \<and> rt_tasks (en_router en') = []"
proof -
  obtain order where order: "om_ordered (en_outbounds en) = Inr order"
    by (rule engine_order [OF assms(1)])
  let ?en = "en\<lparr>en_router := router_start (en_router en)\<rparr>"
  from assms(2) obtain evs0 where run: "run_steps joined ?en (concat (map (stage_steps ?en) START_STAGES))
      = (Inl e, en', evs0)" and evs: "evs = RouterStarted # evs0"
    by (auto simp: engine_start_def Let_def split: prod.splits)
  obtain pre where pre: "evs0 = pre @ snd (snd (engine_shutdown joined ?en :: (('e, 'je) engine_error + unit) \<times> _))"
    and en': "en' = fst (snd (engine_shutdown joined ?en :: (('e, 'je) engine_error + unit) \<times> _))"
    using run_steps_error [OF run] by blast
  have "snd (snd (engine_shutdown joined ?en :: (('e, 'je) engine_error + unit) \<times> _)) =
      closes InboundEvent (rev (im_ordered (en_inbounds en))) @ [RouterClosed]
      @ closes OutboundEvent (rev order)
      @ closes ProviderEvent (rev (pm_ordered (en_certificate_providers en)))"
    using shutdown_events [of ?en order joined] order by simp
  with pre evs have "evs = (RouterStarted # pre) @ closes InboundEvent (rev (im_ordered (en_inbounds en)))
      @ [RouterClosed] @ closes OutboundEvent (rev order)
      @ closes ProviderEvent (rev (pm_ordered (en_certificate_providers en)))" by simp
  moreover have "rt_cancelled (en_router en')" "rt_tasks (en_router en') = []"
    by (simp_all add: en' shutdown_router)
  ultimately show ?thesis using order by blast
qed

text \<open>C12: an engine that was built routes every connection. Its final outbound is the configured one
  or else the first outbound, and a session that arrives without a chosen outbound is rejected
  by a rule or handed to an outbound of the engine, whatever rule-sets are installed by then.\<close>

theorem engine_routes:
  assumes "(new_with_services sv c rg :: ('e, 'je) engine_error + ('e, 'i, 'o, 'rx) engine) = Inr en"
    and "s_outbound s = None"
    and "router_connect (om_get (en_outbounds en)) dial ((en_router en)\<lparr>rt_rule_sets := sets\<rparr>) s = (res, t)"
  shows "((\<exists>meth. res = Inl (Selection (RejectedBy meth)))
      \<or> (\<exists>tag outbound. om_get (en_outbounds en) tag = Some outbound \<and> s_outbound t = Some tag
          \<and> res = map_err OutboundFailed (dial outbound t)))
    \<and> rt_final (en_router en) = (if rc_final_outbound (cfg_route c) \<noteq> [] then rc_final_outbound (cfg_route c)
        else component_tag (raw_tag (hd (cfg_outbounds c))) (raw_kind (hd (cfg_outbounds c))) 0)"
proof -
  have "router_wf (om_get (en_outbounds en)) (en_router en)"
    using engine_parts [OF assms(1)] by metis
  moreover have "rt_final (en_router en) = (if rc_final_outbound (cfg_route c) \<noteq> [] then rc_final_outbound (cfg_route c)
        else component_tag (raw_tag (hd (cfg_outbounds c))) (raw_kind (hd (cfg_outbounds c))) 0)"
    using assms(1)
    by (auto simp: new_with_services_def build_with_fetcher_def Let_def split: list.splits if_splits)
  ultimately show ?thesis using router_wf_connect [OF _ assms(2,3)] by blast
qed

definition sample_services :: "(unit, nat, unit) services" where
  "sample_services =
     \<lparr>sv_resolver = None, sv_lookup_host = \<lambda>_ _. Inr [], sv_ntp = \<lambda>_.
        \<lparr>clock_send = BeforeEpoch, clock_receive = BeforeEpoch, bind_connect = \<lambda>_ _. None,
         send_datagram = \<lambda>_. None, recv_datagram = None\<rparr>,
      sv_float = sample_floats, sv_decoders = sample_decoders, sv_outside = \<lambda>_. sample_outside,
      sv_fetcher = False\<rparr>"

definition sample_config :: "unit config" where
  "sample_config =
     \<lparr>cfg_schema = [], cfg_log = None, cfg_dns = None, cfg_ntp = None, cfg_certificate_providers = [],
      cfg_inbounds = [], cfg_outbounds = [\<lparr>raw_kind = ''direct'', raw_tag = [], raw_options = []\<rparr>],
      cfg_route = \<lparr>rc_default_domain_resolver = None, rc_rule_set = [], rc_rules = [], rc_final_outbound = []\<rparr>\<rparr>"

definition sample_registry :: "bool \<Rightarrow> (unit, unit, unit, unit, unit, unit) registry" where
  "sample_registry fails = registry_new\<lparr>rg_outbound :=
     [''direct'' \<mapsto> typed_factory (\<lambda>_. Inr ()) (\<lambda>_ tag _. Inr ((sample_component tag [])
        \<lparr>comp_start := \<lambda>stage. if fails \<and> stage = PostStart then Some () else None\<rparr>))]\<rparr>"

definition sample_engine :: "bool \<Rightarrow> (unit, unit) engine_error + (unit, unit, unit, unit) engine" where
  "sample_engine fails = new_with_services sample_services sample_config (sample_registry fails)"

lemma sample_engine_check:
  "case sample_engine False of Inl _ \<Rightarrow> False | Inr en \<Rightarrow>
     map comp_tag (pm_ordered (en_certificate_providers en)) = []
     \<and> map comp_tag (im_ordered (en_inbounds en)) = []
     \<and> (case om_ordered (en_outbounds en) of Inl _ \<Rightarrow> False | Inr cs \<Rightarrow>
          list_all (\<lambda>c. list_all (\<lambda>stage. Option.is_none (comp_start c stage)) START_STAGES) cs)"
  "case sample_engine True of Inl _ \<Rightarrow> False | Inr en \<Rightarrow>
     \<not> is_ok (fst (engine_start (\<lambda>_. True) en :: ((unit, unit) engine_error + unit) \<times> _))"
  by code_simp+

lemma sample_engine_started:
  obtains en where "sample_engine False = Inr en" and "pm_ordered (en_certificate_providers en) = []"
    and "im_ordered (en_inbounds en) = []"
    and "\<forall>stage tag ob. om_get (en_outbounds en) tag = Some ob \<longrightarrow> comp_start ob stage = None"
proof -
  from sample_engine_check(1) obtain en cs where en: "sample_engine False = Inr en"
    "pm_ordered (en_certificate_providers en) = []" "im_ordered (en_inbounds en) = []"
    and cs: "om_ordered (en_outbounds en) = Inr cs"
    and starts: "list_all (\<lambda>c. list_all (\<lambda>stage. Option.is_none (comp_start c stage)) START_STAGES) cs"
    by (auto split: sum.splits)
  have start: "comp_start c stage = None" if "c \<in> set cs" for c stage
    using starts that START_STAGES_complete [of stage] by (auto simp: list_all_iff Option.is_none_def)
  obtain cs' where "om_ordered (en_outbounds en) = Inr cs'"
    "\<forall>ob \<in> set cs'. om_get (en_outbounds en) (comp_tag ob) = Some ob"
    "comp_tag ` set cs' = dom (om_get (en_outbounds en))"
    by (rule engine_order [OF en(1) [unfolded sample_engine_def]])
  with cs have own: "\<forall>ob \<in> set cs. om_get (en_outbounds en) (comp_tag ob) = Some ob"
    "comp_tag ` set cs = dom (om_get (en_outbounds en))" by simp_all
  have "comp_start ob stage = None" if ob: "om_get (en_outbounds en) tag = Some ob" for stage tag ob
  proof -
    from ob own(2) obtain c where "c \<in> set cs" "comp_tag c = tag" by (metis domI imageE)
    with own(1) ob start show ?thesis by fastforce
  qed
  with that en show thesis by blast
qed

theorem engine_start_order_witness:
  "\<exists>en order en' evs. sample_engine False = Inr en \<and> om_ordered (en_outbounds en) = Inr order
    \<and> engine_start (\<lambda>_. True) en = (Inr () :: (unit, unit) engine_error + unit, en', evs)
    \<and> evs = RouterStarted # starts OutboundEvent Initialize order @ starts OutboundEvent Start order
        @ starts OutboundEvent PostStart order @ starts OutboundEvent Started order"
proof -
  obtain en where en: "sample_engine False = Inr en" "pm_ordered (en_certificate_providers en) = []"
    "im_ordered (en_inbounds en) = []"
    "\<forall>stage tag ob. om_get (en_outbounds en) tag = Some ob \<longrightarrow> comp_start ob stage = None"
    by (rule sample_engine_started)
  from engine_start_order [OF en(1) [unfolded sample_engine_def] _ en(4), of "\<lambda>_. True"] en(2,3)
  obtain order where "om_ordered (en_outbounds en) = Inr order"
    "engine_start (\<lambda>_. True) en = (Inr () :: (unit, unit) engine_error + unit,
      en\<lparr>en_router := router_start (en_router en)\<rparr>,
      RouterStarted # starts OutboundEvent Initialize order @ starts OutboundEvent Start order
        @ starts OutboundEvent PostStart order @ starts OutboundEvent Started order)"
    by (auto simp: starts_ok_def starts_def)
  with en(1) show ?thesis by blast
qed

theorem engine_start_rollback_witness:
  "\<exists>en e en' evs order. sample_engine True = Inr en
    \<and> engine_start (\<lambda>_. True) en = (Inl (e :: (unit, unit) engine_error), en', evs)
    \<and> om_ordered (en_outbounds en) = Inr order
    \<and> set (closes OutboundEvent (rev order)) \<subseteq> set evs \<and> rt_cancelled (en_router en')"
proof -
  from sample_engine_check(2) obtain en e en' evs where en: "sample_engine True = Inr en"
    and start: "engine_start (\<lambda>_. True) en = (Inl (e :: (unit, unit) engine_error), en', evs)"
    by (cases "sample_engine True"; cases "engine_start (\<lambda>_. True) (projr (sample_engine True)) ::
        ((unit, unit) engine_error + unit) \<times> _"; auto; metis is_ok.elims(3))
  from engine_start_rollback [OF en [unfolded sample_engine_def] start] en start show ?thesis by auto
qed

theorem engine_routes_witness:
  "\<exists>en res t. sample_engine False = Inr en
    \<and> router_connect (om_get (en_outbounds en)) (\<lambda>_ _. Inr () :: unit + unit)
        ((en_router en)\<lparr>rt_rule_sets := \<lambda>_. None\<rparr>) (session_outbound \<lparr>host = ''a.org'', port = 80\<rparr>) = (res, t)
    \<and> rt_final (en_router en) = ''direct-0''"
proof -
  obtain en where en: "sample_engine False = Inr en" by (rule sample_engine_started)
  obtain res t where c: "router_connect (om_get (en_outbounds en)) (\<lambda>_ _. Inr () :: unit + unit)
      ((en_router en)\<lparr>rt_rule_sets := \<lambda>_. None\<rparr>) (session_outbound \<lparr>host = ''a.org'', port = 80\<rparr>) = (res, t)"
    by (cases rule: prod.exhaust)
  have "component_tag [] ''direct'' 0 = ''direct-0''" by code_simp
  with engine_routes [OF en [unfolded sample_engine_def] _ c] en c show ?thesis
    by (auto simp: session_outbound_def sample_config_def)
qed

end
