(* ===== verification/Listen.thy ===== *)
theory Listen
  imports Api_Core
begin

text \<open>
  Inbound listeners (\<open>listen.rs\<close>): the addresses a listen option stands for, and binding all
  of them to one port. The socket calls are parameters.
\<close>

datatype 'io listen_error =
    PortConflict u16 u16 | BadListenAddress string | BindFailed socket_addr 'io | LocalAddrFailed 'io

definition listen_addresses :: "string \<Rightarrow> u16 \<Rightarrow> 'io listen_error + socket_addr list" where
  "listen_addresses h p =
     and_then
       (case parse_socket_addr h of
          Some a \<Rightarrow>
            and_then (ensure (p = 0 \<or> p = sock_port a) (PortConflict p (sock_port a))) (\<lambda>_.
            Inr (sock_ip a, sock_port a))
        | None \<Rightarrow> and_then (ok_or (BadListenAddress h) (parse_ip h)) (\<lambda>ip. Inr (ip, p)))
       (\<lambda>(ip, p).
          Inr ([new_socket_addr ip p] @
            (if ip = IpV6 v6_unspecified then [new_socket_addr (IpV4 v4_unspecified) p]
             else if is_loopback ip \<and> \<not> is_ipv4 ip then [new_socket_addr (IpV4 v4_localhost) p]
             else [])))"

text \<open>
  The operating system: what binding an address answers (the listener with its own address)
  and whether an error says that the address is in use.
\<close>

record ('io, 'l) socket_api =
  bind_listener :: "socket_addr \<Rightarrow> 'io + 'l"
  listener_addr :: "'l \<Rightarrow> 'io + socket_addr"
  addr_in_use :: "'io \<Rightarrow> bool"

fun bind_each ::
    "('io, 'l) socket_api \<Rightarrow> bool \<Rightarrow> bool \<Rightarrow> nat \<Rightarrow> u16 \<Rightarrow> socket_addr list \<Rightarrow> 'io listen_error + 'l list" where
  "bind_each api wildcard ephemeral index assigned [] = Inr []"
| "bind_each api wildcard ephemeral index assigned (a # as) =
     (let a = (if index > 0 \<and> ephemeral then set_port assigned a else a) in
      case bind_listener api a of
        Inl e \<Rightarrow>
          if index > 0 \<and> wildcard \<and> addr_in_use api e
          then bind_each api wildcard ephemeral (Suc index) assigned as
          else Inl (BindFailed a e)
      | Inr l \<Rightarrow>
          and_then
            (if index = 0 \<and> ephemeral
             then and_then (map_err LocalAddrFailed (listener_addr api l)) (\<lambda>own. Inr (sock_port own))
             else Inr assigned)
            (\<lambda>assigned.
             and_then (bind_each api wildcard ephemeral (Suc index) assigned as) (\<lambda>ls. Inr (l # ls))))"

definition bind_tcp_listeners :: "('io, 'l) socket_api \<Rightarrow> string \<Rightarrow> u16 \<Rightarrow> 'io listen_error + 'l list" where
  "bind_tcp_listeners api h p =
     and_then (listen_addresses h p) (\<lambda>addrs.
     let wildcard = (sock_ip (hd addrs) = IpV6 v6_unspecified);
         ephemeral = (sock_port (hd addrs) = 0)
     in bind_each api wildcard ephemeral 0 (sock_port (hd addrs)) addrs)"

section \<open>One port for all\<close>

lemma listen_addresses_shape:
  "listen_addresses h p = Inr addrs \<Longrightarrow>
   addrs \<noteq> [] \<and> length addrs \<le> 2 \<and> (\<forall>a \<in> set addrs. sock_port a = sock_port (hd addrs))
   \<and> (\<forall>a \<in> set (tl addrs). is_ipv4 (sock_ip a) \<and> \<not> is_ipv4 (sock_ip (hd addrs)))"
  by (auto simp: listen_addresses_def split: option.splits if_splits)

text \<open>
  \<open>honest\<close> is what the code relies on: a listener reports the address it was bound to, or,
  for port 0, the same address with a port chosen by the system.
\<close>

definition honest :: "('io, 'l) socket_api \<Rightarrow> bool" where
  "honest api \<longleftrightarrow> (\<forall>a l own. bind_listener api a = Inr l \<longrightarrow> listener_addr api l = Inr own \<longrightarrow>
     sock_ip own = sock_ip a \<and> (sock_port a \<noteq> 0 \<longrightarrow> sock_port own = sock_port a) \<and> sock_port own \<noteq> 0)"

lemma bind_each_later:
  assumes "honest api" and "bind_each api w e (Suc i) q as = Inr ls" and "q \<noteq> 0"
    and "\<forall>a \<in> set as. e \<or> sock_port a = q"
    and "l \<in> set ls" and "listener_addr api l = Inr own"
  shows "sock_port own = q"
  using assms(2,4,5)
proof (induction as arbitrary: i ls)
  case (Cons a as)
  let ?a = "if e then set_port q a else a"
  have port: "sock_port ?a = q" using Cons.prems(2) by auto
  show ?case
  proof (cases "bind_listener api ?a")
    case (Inl x)
    with Cons show ?thesis by (auto simp: Let_def split: if_splits)
  next
    case (Inr m)
    with Cons.prems(1) obtain ms where ms: "ls = m # ms" "bind_each api w e (Suc (Suc i)) q as = Inr ms"
      by (auto simp: Let_def)
    show ?thesis
    proof (cases "l = m")
      case True
      with Inr assms(1,3,6) port show ?thesis by (auto simp: honest_def)
    next
      case False
      with Cons.IH [OF ms(2)] Cons.prems ms(1) show ?thesis by simp
    qed
  qed
qed simp

lemma bind_tcp_listeners_port_lemma:
  assumes "honest api" and "bind_tcp_listeners api h p = Inr ls"
    and "l \<in> set ls" and "listener_addr api l = Inr own"
    and "l' \<in> set ls" and "listener_addr api l' = Inr own'"
  shows "sock_port own = sock_port own'"
proof -
  from assms(2) obtain addrs where addrs: "(listen_addresses h p :: 'a listen_error + _) = Inr addrs"
    and bound: "bind_each api (sock_ip (hd addrs) = IpV6 v6_unspecified) (sock_port (hd addrs) = 0) 0
        (sock_port (hd addrs)) addrs = Inr ls"
    by (auto simp: bind_tcp_listeners_def Let_def)
  note shape = listen_addresses_shape [OF addrs]
  then obtain a as where as: "addrs = a # as" by (meson list.exhaust)
  with shape have ports: "\<forall>b \<in> set as. sock_port b = sock_port a"
    by (metis list.sel(1) list.set_intros(2))
  from as bound obtain m ms q where m: "bind_listener api a = Inr m" "ls = m # ms"
    and rest: "bind_each api (sock_ip a = IpV6 v6_unspecified) (sock_port a = 0) (Suc 0) q as = Inr ms"
    and q: "if sock_port a = 0 then (\<exists>own. listener_addr api m = Inr own \<and> q = sock_port own) else q = sock_port a"
    by (auto simp: Let_def split: sum.splits if_splits)
  have q0: "q \<noteq> 0" using q m(1) assms(1) by (auto simp: honest_def split: if_splits)
  have "sock_port x = q" if "k \<in> set ls" "listener_addr api k = Inr x" for k x
  proof (cases "k = m")
    case True
    with that q m(1) assms(1) show ?thesis by (auto simp: honest_def split: if_splits)
  next
    case False
    then show ?thesis
      using bind_each_later [OF assms(1) rest q0 _ _ that(2)] that(1) m(2) ports q by (auto split: if_splits)
  qed
  from this [OF assms(3,4)] this [OF assms(5,6)] show ?thesis by simp
qed

section \<open>Properties\<close>

text \<open>All TCP listeners of an inbound share one port. With an ephemeral port the port chosen for
  the first listener is reused for its IPv4 companion, provided the sockets report the address
  they were bound to.\<close>

theorem bind_tcp_listeners_port:
  assumes "honest api" and "bind_tcp_listeners api h p = Inr ls"
    and "l \<in> set ls" and "listener_addr api l = Inr own"
    and "l' \<in> set ls" and "listener_addr api l' = Inr own'"
  shows "sock_port own = sock_port own'"
  by (rule bind_tcp_listeners_port_lemma [OF assms])

definition sample_sockets :: "(unit, socket_addr) socket_api" where
  "sample_sockets = \<lparr>bind_listener = Inr, listener_addr = \<lambda>a. Inr (if sock_port a = 0 then set_port 4000 a else a),
     addr_in_use = \<lambda>_. False\<rparr>"

lemma sample_honest: "honest sample_sockets"
  by (simp add: honest_def sample_sockets_def)

theorem bind_tcp_listeners_port_witness:
  "\<exists>ls. bind_tcp_listeners sample_sockets (show_ip (IpV6 1)) 0 = Inr ls \<and> length ls = 2
    \<and> (\<forall>l \<in> set ls. \<forall>l' \<in> set ls. \<forall>own own'. listener_addr sample_sockets l = Inr own
         \<longrightarrow> listener_addr sample_sockets l' = Inr own' \<longrightarrow> sock_port own = sock_port own')"
proof -
  have "to_ipv4_mapped 1 = None" by (simp add: to_ipv4_mapped_def)
  moreover have "CHR ''['' \<notin> set (groups_text i gs)" for i gs by (rule groups_text_no_char) simp
  ultimately have "CHR ''['' \<notin> set (show_ipv6 1)"
    by (auto simp: show_ipv6_def join_groups Let_def split: prod.splits)
  then have "read_char (CHR ''['') (show_ipv6 1) = None"
    by (cases "show_ipv6 1") auto
  then have "parse_socket_addr (show_ip (IpV6 1)) = None"
    by (simp add: parse_socket_addr_def read_sock_v4_def read_sock_v6_def zero_no_digit_prefix)
  then obtain ls where ls: "bind_tcp_listeners sample_sockets (show_ip (IpV6 1)) 0 = Inr ls" "length ls = 2"
    by (simp add: bind_tcp_listeners_def listen_addresses_def sample_sockets_def v6_unspecified_def
        new_socket_addr_def del: show_ip.simps)
  with bind_tcp_listeners_port [OF sample_honest ls(1)] show ?thesis by blast
qed

end
