(* ===== verification/Buffer_Pool.thy ===== *)
theory Buffer_Pool
  imports Api_Core
begin

text \<open>
  The shared pool of packet buffers (\<open>buffer.rs\<close>) and the packets that give their buffer back
  (\<open>api.rs\<close>). A \<open>Vec<u8>\<close> is its content and its capacity, which is never below its length.
\<close>

record vec =
  v_data :: bytes
  v_capacity :: nat

definition vec_wf :: "vec \<Rightarrow> bool" where
  "vec_wf v \<longleftrightarrow> length (v_data v) \<le> v_capacity v"

definition UDP_BUFFER_SIZE :: nat where "UDP_BUFFER_SIZE = 65535"
definition MAX_RETAINED_BUFFERS :: nat where "MAX_RETAINED_BUFFERS = 256"

text \<open>The allocator may round a capacity up; \<open>grow\<close> is what it answers.\<close>

definition vec_resize :: "(nat \<Rightarrow> nat) \<Rightarrow> nat \<Rightarrow> u8 \<Rightarrow> vec \<Rightarrow> vec" where
  "vec_resize grow n x v =
     \<lparr>v_data = take n (v_data v) @ replicate (n - length (v_data v)) x,
      v_capacity = (if n \<le> v_capacity v then v_capacity v else max n (grow n))\<rparr>"

definition vec_truncate :: "nat \<Rightarrow> vec \<Rightarrow> vec" where
  "vec_truncate n v = v\<lparr>v_data := take n (v_data v)\<rparr>"

definition vec_clear :: "vec \<Rightarrow> vec" where
  "vec_clear v = v\<lparr>v_data := []\<rparr>"

text \<open>The pool is a stack; its top is the last element.\<close>

type_synonym pool = "vec list"

definition pool_acquire :: "(nat \<Rightarrow> nat) \<Rightarrow> pool \<Rightarrow> vec \<times> pool" where
  "pool_acquire grow p =
     (let (v, p) =
            (if p = []
             then (\<lparr>v_data = replicate UDP_BUFFER_SIZE 0, v_capacity = max UDP_BUFFER_SIZE (grow UDP_BUFFER_SIZE)\<rparr>, [])
             else (last p, butlast p))
      in (vec_resize grow UDP_BUFFER_SIZE 0 v, p))"

definition pool_recycle :: "vec \<Rightarrow> pool \<Rightarrow> pool" where
  "pool_recycle v p =
     (if v_capacity v < UDP_BUFFER_SIZE then p
      else if length p < MAX_RETAINED_BUFFERS then p @ [vec_clear v] else p)"

definition pool_available :: "pool \<Rightarrow> nat" where
  "pool_available p = length p"

section \<open>Packets\<close>

record packet =
  pk_data :: vec
  pk_destination :: address
  pk_pooled :: bool

definition packet_new :: "vec \<Rightarrow> address \<Rightarrow> packet" where
  "packet_new data destination = \<lparr>pk_data = data, pk_destination = destination, pk_pooled = False\<rparr>"

definition packet_from_pool :: "vec \<Rightarrow> nat \<Rightarrow> address \<Rightarrow> packet" where
  "packet_from_pool data n destination =
     \<lparr>pk_data = vec_truncate n data, pk_destination = destination, pk_pooled = True\<rparr>"

definition take_data :: "packet \<Rightarrow> vec \<times> packet" where
  "take_data p = (pk_data p, p\<lparr>pk_pooled := False, pk_data := \<lparr>v_data = [], v_capacity = 0\<rparr>\<rparr>)"

definition packet_clone :: "packet \<Rightarrow> packet" where
  "packet_clone p =
     packet_new \<lparr>v_data = v_data (pk_data p), v_capacity = length (v_data (pk_data p))\<rparr> (pk_destination p)"

definition packet_eq :: "packet \<Rightarrow> packet \<Rightarrow> bool" where
  "packet_eq p q \<longleftrightarrow> v_data (pk_data p) = v_data (pk_data q) \<and> pk_destination p = pk_destination q"

definition packet_drop :: "packet \<Rightarrow> pool \<Rightarrow> pool" where
  "packet_drop p pool = (if pk_pooled p then pool_recycle (pk_data p) pool else pool)"

section \<open>What the pool keeps\<close>

definition pool_wf :: "pool \<Rightarrow> bool" where
  "pool_wf p \<longleftrightarrow> length p \<le> MAX_RETAINED_BUFFERS
     \<and> list_all (\<lambda>v. v_data v = [] \<and> UDP_BUFFER_SIZE \<le> v_capacity v) p"

lemma pool_wf_empty: "pool_wf []"
  by (simp add: pool_wf_def)

lemma pool_recycle_wf: "pool_wf p \<Longrightarrow> pool_wf (pool_recycle v p)"
  by (auto simp: pool_wf_def pool_recycle_def vec_clear_def)

lemma packet_drop_wf: "pool_wf p \<Longrightarrow> pool_wf (packet_drop q p)"
  by (simp add: packet_drop_def pool_recycle_wf)

lemma pool_acquire_wf_lemma:
  assumes "pool_wf p" and "pool_acquire grow p = (v, p')"
  shows "pool_wf p' \<and> vec_wf v \<and> v_data v = replicate UDP_BUFFER_SIZE 0"
proof (cases "p = []")
  case True
  with assms show ?thesis
    by (auto simp: pool_acquire_def vec_resize_def pool_wf_def vec_wf_def)
next
  case False
  then obtain q x where p: "p = q @ [x]" by (cases p rule: rev_cases) auto
  with assms show ?thesis
    by (auto simp: pool_acquire_def vec_resize_def vec_wf_def pool_wf_def)
qed

text \<open>
  The life of the pool: buffers are acquired, filled by a receive, wrapped into packets, and
  packets are dropped, cloned or emptied, in any order.
\<close>

inductive pool_step :: "pool \<times> packet list \<Rightarrow> pool \<times> packet list \<Rightarrow> bool" where
  receive: "pool_acquire grow p = (v, p') \<Longrightarrow> length data = length (v_data v) \<Longrightarrow> n \<le> length data \<Longrightarrow>
    pool_step (p, ps) (p', packet_from_pool (v\<lparr>v_data := data\<rparr>) n dest # ps)"
| clone: "q \<in> set ps \<Longrightarrow> pool_step (p, ps) (p, packet_clone q # ps)"
| taken: "i < length ps \<Longrightarrow> pool_step (p, ps) (p, ps[i := snd (take_data (ps ! i))])"
| drop: "i < length ps \<Longrightarrow> pool_step (p, ps) (packet_drop (ps ! i) p, take i ps @ drop (Suc i) ps)"

lemma pool_step_wf: "pool_step s t \<Longrightarrow> pool_wf (fst s) \<Longrightarrow> pool_wf (fst t)"
  by (induction rule: pool_step.induct) (auto simp: packet_drop_wf dest: pool_acquire_wf_lemma)

lemma pool_steps_wf: "pool_step\<^sup>*\<^sup>* s t \<Longrightarrow> pool_wf (fst s) \<Longrightarrow> pool_wf (fst t)"
  by (induction rule: rtranclp_induct) (auto dest: pool_step_wf)

text \<open>Dropping a pooled packet makes its buffer the next one acquired.\<close>

lemma recycle_acquire:
  assumes "UDP_BUFFER_SIZE \<le> v_capacity v" and "length p < MAX_RETAINED_BUFFERS"
  shows "pool_acquire grow (pool_recycle v p)
    = (\<lparr>v_data = replicate UDP_BUFFER_SIZE 0, v_capacity = v_capacity v\<rparr>, p)"
  using assms by (simp add: pool_acquire_def pool_recycle_def vec_resize_def vec_clear_def)

lemma packet_clone_eq: "packet_eq (packet_clone p) p \<and> \<not> pk_pooled (packet_clone p)"
  by (simp add: packet_eq_def packet_clone_def packet_new_def)

section \<open>Properties\<close>

text \<open>A pooled buffer never carries the bytes of an earlier packet. After any run of receiving,
  cloning, taking and dropping packets, the next buffer handed out is 65535 zero bytes, and the
  pool keeps at most 256 empty buffers.\<close>

theorem pool_buffers_clean:
  assumes "pool_step\<^sup>*\<^sup>* ([], []) (p, ps)" and "pool_acquire grow p = (v, p')"
  shows "v_data v = replicate 65535 0 \<and> length p \<le> 256 \<and> (\<forall>b \<in> set p. v_data b = [])"
proof -
  have "pool_wf p" using pool_steps_wf [OF assms(1)] by (simp add: pool_wf_empty)
  with pool_acquire_wf_lemma [OF this assms(2)] show ?thesis
    by (simp add: pool_wf_def UDP_BUFFER_SIZE_def MAX_RETAINED_BUFFERS_def list_all_iff)
qed

theorem pool_buffers_clean_witness:
  "\<exists>p v p'. pool_step\<^sup>*\<^sup>* ([], []) (p, []) \<and> length p = 1 \<and> pool_acquire id p = (v, p')
    \<and> v_data v = replicate 65535 0"
proof -
  let ?dest = "\<lparr>host = ''a.org'', port = 53\<rparr>"
  let ?v = "\<lparr>v_data = replicate UDP_BUFFER_SIZE (7 :: u8), v_capacity = UDP_BUFFER_SIZE\<rparr>"
  have acq: "pool_acquire id [] = (\<lparr>v_data = replicate UDP_BUFFER_SIZE 0, v_capacity = UDP_BUFFER_SIZE\<rparr>, [])"
    by (simp add: pool_acquire_def vec_resize_def)
  have "pool_step ([], []) ([], [packet_from_pool ?v 5 ?dest])"
    using pool_step.receive [OF acq, of "replicate UDP_BUFFER_SIZE 7" 5 "[]" ?dest]
    by (simp add: UDP_BUFFER_SIZE_def)
  moreover have "pool_step ([], [packet_from_pool ?v 5 ?dest]) (packet_drop (packet_from_pool ?v 5 ?dest) [], [])"
    using pool_step.drop [of 0 "[packet_from_pool ?v 5 ?dest]" "[]"] by simp
  ultimately have run: "pool_step\<^sup>*\<^sup>* ([], []) (packet_drop (packet_from_pool ?v 5 ?dest) [], [])" by simp
  have one: "length (packet_drop (packet_from_pool ?v 5 ?dest) []) = 1"
    by (simp add: packet_drop_def packet_from_pool_def pool_recycle_def vec_truncate_def
        MAX_RETAINED_BUFFERS_def)
  obtain v p' where "pool_acquire id (packet_drop (packet_from_pool ?v 5 ?dest) []) = (v, p')"
    by (cases rule: prod.exhaust)
  from pool_buffers_clean [OF run this] this run one show ?thesis by blast
qed

end
