(* ===== verification/Socks.thy ===== *)
theory Socks
  imports Listen Buffer_Pool Router
begin

text \<open>
  The SOCKS5 inbound (\<open>socks.rs\<close>): the address format, the handshake of a connection, the
  replies, the UDP relay with its pinned peer, and the life cycle of the listener. A stream is
  the list of bytes still to be read; what is written to it is returned.
\<close>

section \<open>Addresses\<close>

datatype socks_error =
    SocksEof | UnsupportedVersion u8 | NoAuthNotOffered | InvalidRequest
  | UnsupportedAddressType u8 | DomainNotUtf8 | EmptyDomain | HostTooLong
  | UnsupportedCommand u8
  | MissingAddress | TruncatedIpv4 | TruncatedIpv6 | TruncatedDomainLength | TruncatedDomain | MissingPort
  | TruncatedDatagram | ReservedNotZero | Fragmented
  | PeerUnknown | SocksIo string

definition new_addr :: "string \<Rightarrow> u16 \<Rightarrow> socks_error + address" where
  "new_addr h p = map_err (\<lambda>_. EmptyDomain) (new_address h p)"

definition read_socks_address :: "u8 \<Rightarrow> bytes \<Rightarrow> socks_error + (address \<times> bytes)" where
  "read_socks_address address_type bs =
     and_then
       (if address_type = 1 then
          and_then (read_exact SocksEof 4 bs) (\<lambda>(b, bs). Inr (show_ip (IpV4 (from_be b)), bs))
        else if address_type = 3 then
          and_then (read_u8 SocksEof bs) (\<lambda>(n, bs).
          and_then (read_exact SocksEof (unat n) bs) (\<lambda>(b, bs).
          and_then (from_utf8 DomainNotUtf8 b) (\<lambda>h. Inr (h, bs))))
        else if address_type = 4 then
          and_then (read_exact SocksEof 16 bs) (\<lambda>(b, bs). Inr (show_ip (IpV6 (from_be b)), bs))
        else Inl (UnsupportedAddressType address_type))
       (\<lambda>(h, bs).
        and_then (read_be SocksEof bs) (\<lambda>(p, bs).
        and_then (new_addr h p) (\<lambda>a. Inr (a, bs))))"

definition encode_address :: "address \<Rightarrow> socks_error + bytes" where
  "encode_address a =
     and_then
       (case parse_ip (host a) of
          Some (IpV4 ip) \<Rightarrow> Inr (1 # be_bytes ip)
        | Some (IpV6 ip) \<Rightarrow> Inr (4 # be_bytes ip)
        | None \<Rightarrow>
            and_then (ensure (length (host a) \<le> 255) HostTooLong) (\<lambda>_.
            Inr ([3, of_nat (length (host a))] @ as_bytes (host a))))
       (\<lambda>out. Inr (out @ be_bytes (port a)))"

text \<open>\<open>decode_address\<close> on the slice of a datagram returns the number of bytes it used.\<close>

definition decode_address :: "bytes \<Rightarrow> socks_error + (address \<times> nat)" where
  "decode_address input =
     and_then (ensure (input \<noteq> []) MissingAddress) (\<lambda>_.
     and_then
       (if input ! 0 = 1 then
          and_then (ensure (length input \<ge> 7) TruncatedIpv4) (\<lambda>_.
          Inr (show_ip (IpV4 (from_be (take 4 (drop 1 input)))), 5))
        else if input ! 0 = 4 then
          and_then (ensure (length input \<ge> 19) TruncatedIpv6) (\<lambda>_.
          Inr (show_ip (IpV6 (from_be (take 16 (drop 1 input)))), 17))
        else if input ! 0 = 3 then
          and_then (ensure (length input \<ge> 2) TruncatedDomainLength) (\<lambda>_.
          let n = unat (input ! 1) in
          and_then (ensure (length input \<ge> 2 + n + 2) TruncatedDomain) (\<lambda>_.
          and_then (from_utf8 DomainNotUtf8 (take n (drop 2 input))) (\<lambda>h. Inr (h, 2 + n))))
        else Inl (UnsupportedAddressType (input ! 0)))
       (\<lambda>(h, address_len).
        and_then (ensure (length input \<ge> address_len + 2) MissingPort) (\<lambda>_.
        and_then (new_addr h (from_be (take 2 (drop address_len input)))) (\<lambda>a.
        Inr (a, address_len + 2)))))"

definition decode_rest :: "bytes \<Rightarrow> socks_error + (address \<times> bytes)" where
  "decode_rest input = and_then (decode_address input) (\<lambda>(a, n). Inr (a, drop n input))"

text \<open>An address literal comes back in its canonical spelling, a domain as it is.\<close>

definition canonical :: "address \<Rightarrow> address" where
  "canonical a = (case parse_ip (host a) of Some ip \<Rightarrow> a\<lparr>host := show_ip ip\<rparr> | None \<Rightarrow> a)"

definition address_ok :: "address \<Rightarrow> bool" where
  "address_ok a \<longleftrightarrow> host a \<noteq> [] \<and> is_str (host a)"

lemma canonical_idem [simp]: "canonical (canonical a) = canonical a"
  by (simp add: canonical_def split: option.splits)

definition encode_ok :: "address \<Rightarrow> socks_error + bytes" where
  "encode_ok a = (if address_ok a then encode_address a else Inl EmptyDomain)"

lemma new_addr_show [simp]: "new_addr (show_ip ip) p = Inr \<lparr>host = show_ip ip, port = p\<rparr>"
  by (simp add: new_addr_def new_address_def)

lemma new_addr_ok: "h \<noteq> [] \<Longrightarrow> new_addr h p = Inr \<lparr>host = h, port = p\<rparr>"
  by (simp add: new_addr_def new_address_def)

lemma new_addr_host: "h \<noteq> [] \<Longrightarrow> new_addr h (port a) = Inr (a\<lparr>host := h\<rparr>)"
  by (simp add: new_addr_def new_address_def)

lemma show_not_Nil [simp]: "show_ipv4 x \<noteq> []" "show_ipv6 y \<noteq> []"
  using show_ip_not_Nil [of "IpV4 x"] show_ip_not_Nil [of "IpV6 y"] by simp_all

lemma length_be_u16 [simp]: "length (be_bytes (p :: u16)) = 2"
  by simp

lemma from_be_u128 [simp]: "from_be (be_bytes (w :: u128)) = w"
  by simp

lemma from_be_u32' [simp]: "from_be (be_bytes (w :: u32)) = w"
  by simp

lemma from_be_u16 [simp]: "from_be (be_bytes (w :: u16)) = w"
  by simp

lemma unat_length_byte: "n \<le> 255 \<Longrightarrow> unat (of_nat n :: u8) = n"
  by (simp add: unat_of_nat)

lemma encode_cases:
  assumes "encode_address a = Inr bs"
  obtains (v4) ip where "parse_ip (host a) = Some (IpV4 ip)" "bs = 1 # be_bytes ip @ be_bytes (port a)"
    | (v6) ip where "parse_ip (host a) = Some (IpV6 ip)" "bs = 4 # be_bytes ip @ be_bytes (port a)"
    | (domain) "parse_ip (host a) = None" "length (host a) \<le> 255"
        "bs = 3 # of_nat (length (host a)) # as_bytes (host a) @ be_bytes (port a)"
  using assms by (auto simp: encode_address_def split: option.splits ip_addr.splits)

lemma decode_encode:
  assumes "address_ok a" and "encode_address a = (Inr bs :: socks_error + bytes)"
  shows "decode_address (bs @ rest) = (Inr (canonical a, length bs) :: socks_error + _)"
  using assms(2)
proof (cases rule: encode_cases)
  case (v4 ip)
  have "take 4 (drop 1 (bs @ rest)) = be_bytes ip" "take 2 (drop 5 (bs @ rest)) = be_bytes (port a)"
    "(bs @ rest) ! 0 = 1" "length (bs @ rest) \<ge> 7" "length bs = 7"
    using v4(2) by simp_all
  with v4(1) show ?thesis by (simp add: decode_address_def canonical_def v4(2) new_addr_host)
next
  case (v6 ip)
  have "take 16 (drop 1 (bs @ rest)) = be_bytes ip" "take 2 (drop 17 (bs @ rest)) = be_bytes (port a)"
    "(bs @ rest) ! 0 = 4" "length (bs @ rest) \<ge> 19" "length bs = 19"
    using v6(2) by simp_all
  with v6(1) show ?thesis by (simp add: decode_address_def canonical_def v6(2) new_addr_host)
next
  case domain
  let ?n = "length (host a)"
  have n: "unat ((bs @ rest) ! 1) = ?n" using domain unat_length_byte [OF domain(2)] by simp
  have "take ?n (drop 2 (bs @ rest)) = as_bytes (host a)"
    "take 2 (drop (2 + ?n) (bs @ rest)) = be_bytes (port a)"
    "(bs @ rest) ! 0 = 3" "length (bs @ rest) \<ge> 2 + ?n + 2" "length bs = 4 + ?n" "bs @ rest \<noteq> []"
    using domain(3) by simp_all
  with n assms(1) domain(1) show ?thesis
    by (simp add: decode_address_def canonical_def Let_def address_ok_def new_addr_ok)
qed

lemma read_encode:
  assumes "address_ok a" and "encode_address a = (Inr bs :: socks_error + bytes)"
  shows "read_socks_address (hd bs) (tl bs @ rest) = (Inr (canonical a, rest) :: socks_error + _)"
  using assms(2)
proof (cases rule: encode_cases)
  case (v4 ip)
  then show ?thesis by (simp add: read_socks_address_def canonical_def new_addr_host)
next
  case (v6 ip)
  then show ?thesis by (simp add: read_socks_address_def canonical_def new_addr_host)
next
  case domain
  with assms(1) unat_length_byte [OF domain(2)] show ?thesis
    by (simp add: read_socks_address_def canonical_def address_ok_def new_addr_ok)
qed

interpretation socks_address: codec encode_ok decode_rest canonical
  by unfold_locales (auto simp: encode_ok_def decode_rest_def decode_encode split: if_splits)

section \<open>The handshake\<close>

datatype command = Connect | UdpAssociate

text \<open>
  \<open>handle_connection\<close> up to the command: what was written so far, and the command with its
  destination and the unread bytes. \<open>unspecified_address\<close> is the bound address of a refusal.
\<close>

definition unspecified_address :: "socket_addr \<Rightarrow> socket_addr" where
  "unspecified_address source =
     (case source of
        SockV4 _ _ \<Rightarrow> new_socket_addr (IpV4 v4_unspecified) 0
      | SockV6 _ _ _ _ \<Rightarrow> new_socket_addr (IpV6 v6_unspecified) 0)"

definition reply :: "u8 \<Rightarrow> socket_addr \<Rightarrow> socks_error + bytes" where
  "reply status bound =
     and_then (new_addr (show_ip (sock_ip bound)) (sock_port bound)) (\<lambda>a.
     and_then (encode_address a) (\<lambda>out. Inr ([5, status, 0] @ out)))"

definition read_greeting :: "bytes \<Rightarrow> socks_error + bytes" where
  "read_greeting bs =
     and_then (read_exact SocksEof 2 bs) (\<lambda>(greeting, bs).
     and_then (ensure (greeting ! 0 = 5) (UnsupportedVersion (greeting ! 0))) (\<lambda>_.
     and_then (read_exact SocksEof (unat (greeting ! 1)) bs) (\<lambda>(methods, bs).
     and_then (ensure (0 \<in> set methods) NoAuthNotOffered) (\<lambda>_. Inr bs))))"

definition read_request :: "bytes \<Rightarrow> socks_error + (u8 \<times> address \<times> bytes)" where
  "read_request bs =
     and_then (read_exact SocksEof 4 bs) (\<lambda>(request, bs).
     and_then (ensure (request ! 0 = 5 \<and> request ! 2 = 0) InvalidRequest) (\<lambda>_.
     and_then (read_socks_address (request ! 3) bs) (\<lambda>(destination, bs).
     Inr (request ! 1, destination, bs))))"

definition handshake ::
    "socket_addr \<Rightarrow> bytes \<Rightarrow> bytes \<times> (socks_error + (command \<times> address \<times> bytes))" where
  "handshake source bs =
     (case read_greeting bs of
        Inl e \<Rightarrow> ([], Inl e)
      | Inr bs \<Rightarrow>
          (case read_request bs of
             Inl e \<Rightarrow> ([5, 0], Inl e)
           | Inr (cmd, destination, bs) \<Rightarrow>
               if cmd = 1 then ([5, 0], Inr (Connect, destination, bs))
               else if cmd = 3 then ([5, 0], Inr (UdpAssociate, destination, bs))
               else ([5, 0] @ (case reply 7 (unspecified_address source) :: socks_error + bytes of
                                 Inr r \<Rightarrow> r | Inl _ \<Rightarrow> []),
                     Inl (UnsupportedCommand cmd))))"

text \<open>
  \<open>handle_connect\<close>: the reply that is written before the relay starts, or after the router
  refused. \<open>outcome\<close> is what the router answered.
\<close>

definition handle_connect ::
    "socket_addr \<Rightarrow> string \<Rightarrow> (session \<Rightarrow> 'e + 'st) \<Rightarrow> address \<Rightarrow> bytes \<times> (('e + socks_error) + 'st)" where
  "handle_connect source tag connect destination =
     (case connect (session_inbound Tcp source destination tag ''socks'' None) of
        Inr outbound \<Rightarrow>
          (case reply 0 (unspecified_address source) of
             Inr r \<Rightarrow> (r, Inr outbound)
           | Inl e \<Rightarrow> ([], Inl (Inr e)))
      | Inl e \<Rightarrow> ([5, 1, 0, 1, 0, 0, 0, 0, 0, 0], Inl (Inl e)))"

definition client_hello :: "u8 list \<Rightarrow> u8 \<Rightarrow> bytes \<Rightarrow> bytes" where
  "client_hello methods cmd encoded =
     [5, of_nat (length methods)] @ methods @ [5, cmd, 0] @ encoded"

lemma read_greeting_hello:
  assumes "length methods \<le> 255" and "0 \<in> set methods"
  shows "read_greeting ([5, of_nat (length methods)] @ methods @ rest) = Inr rest"
proof -
  have "read_exact SocksEof 2 ([5, of_nat (length methods)] @ methods @ rest)
      = Inr ([5, of_nat (length methods)], methods @ rest)" by (rule read_exact_append) simp
  with assms unat_length_byte [OF assms(1)] show ?thesis by (simp add: read_greeting_def)
qed

lemma read_request_hello:
  assumes "address_ok a" and "encode_address a = (Inr enc :: socks_error + bytes)"
  shows "read_request ([5, cmd, 0] @ enc @ rest) = (Inr (cmd, canonical a, rest) :: socks_error + _)"
proof -
  from assms(2) have "enc \<noteq> []" by (cases rule: encode_cases) simp_all
  then have enc: "enc = hd enc # tl enc" by simp
  have "read_exact SocksEof 4 ([5, cmd, 0, hd enc] @ tl enc @ rest)
      = (Inr ([5, cmd, 0, hd enc], tl enc @ rest) :: socks_error + _)"
    by (rule read_exact_append) simp
  moreover have "[5, cmd, 0] @ enc @ rest = [5, cmd, 0, hd enc] @ tl enc @ rest"
    by (subst enc) simp
  ultimately show ?thesis
    using read_encode [OF assms, of rest] by (simp only: read_request_def) simp
qed

lemma handshake_hello_lemma:
  assumes "length methods \<le> 255" and "0 \<in> set methods"
    and "address_ok a" and "encode_address a = (Inr enc :: socks_error + bytes)"
    and "cmd = 1 \<or> cmd = 3"
  shows "handshake source (client_hello methods cmd enc @ rest)
    = ([5, 0], Inr (if cmd = 1 then Connect else UdpAssociate, canonical a, rest) :: socks_error + _)"
proof -
  have hello: "client_hello methods cmd enc @ rest
      = [5, of_nat (length methods)] @ methods @ ([5, cmd, 0] @ enc @ rest)"
    by (simp add: client_hello_def)
  show ?thesis
    unfolding handshake_def hello read_greeting_hello [OF assms(1,2)]
    using assms(5) read_request_hello [OF assms(3,4)] by (auto simp del: append.simps)
qed

section \<open>The UDP relay\<close>

record socks_packet_connection =
  spc_control_source_ip :: ip_addr
  spc_peer :: "socket_addr option"

definition socks_send ::
    "(bytes \<Rightarrow> socket_addr \<Rightarrow> string option) \<Rightarrow> socks_packet_connection \<Rightarrow> packet \<Rightarrow> socks_error + unit" where
  "socks_send send_to c p =
     and_then (ok_or PeerUnknown (spc_peer c)) (\<lambda>peer.
     and_then (encode_address (pk_destination p)) (\<lambda>a.
     case send_to ([0, 0, 0] @ a @ v_data (pk_data p)) peer of
       None \<Rightarrow> Inr ()
     | Some e \<Rightarrow> Inl (SocksIo e)))"

text \<open>What one datagram from an accepted source is turned into: destination and payload.\<close>

definition parse_datagram :: "bytes \<Rightarrow> socks_error + (address \<times> bytes)" where
  "parse_datagram d =
     and_then (ensure (length d \<ge> 4) TruncatedDatagram) (\<lambda>_.
     and_then (ensure (take 2 d = [0, 0]) ReservedNotZero) (\<lambda>_.
     and_then (ensure (d ! 2 = 0) Fragmented) (\<lambda>_.
     and_then (decode_address (drop 3 d)) (\<lambda>(destination, consumed).
     Inr (destination, drop (3 + consumed) d)))))"

text \<open>
  \<open>recv\<close> over the datagrams that arrive, each with its source; None is a socket error. It
  returns None while it still waits. A datagram is received into a buffer of the pool, its
  payload is moved to the front.
\<close>

fun socks_recv ::
    "socks_packet_connection \<Rightarrow> (string + (bytes \<times> socket_addr)) list
       \<Rightarrow> ((socks_error + (address \<times> bytes)) \<times> socks_packet_connection \<times> (string + (bytes \<times> socket_addr)) list) option" where
  "socks_recv c [] = None"
| "socks_recv c (Inl e # ds) = Some (Inl (SocksIo e), c, ds)"
| "socks_recv c (Inr (d, source) # ds) =
     (if sock_ip source \<noteq> spc_control_source_ip c then socks_recv c ds
      else if spc_peer c \<noteq> None \<and> spc_peer c \<noteq> Some source then socks_recv c ds
      else case parse_datagram (take UDP_BUFFER_SIZE d) of
        Inl e \<Rightarrow> Some (Inl e, c, ds)
      | Inr p \<Rightarrow> Some (Inr p, c\<lparr>spc_peer := Some source\<rparr>, ds))"

definition accepts :: "socks_packet_connection \<Rightarrow> socket_addr \<Rightarrow> bool" where
  "accepts c source \<longleftrightarrow> sock_ip source = spc_control_source_ip c \<and> (spc_peer c = None \<or> spc_peer c = Some source)"

lemma socks_recv_skip:
  "\<not> accepts c source \<Longrightarrow> socks_recv c (Inr (d, source) # ds) = socks_recv c ds"
  by (auto simp: accepts_def)

lemma socks_recv_peer:
  "socks_recv c ds = Some (res, c', rest) \<Longrightarrow>
   spc_control_source_ip c' = spc_control_source_ip c
   \<and> (spc_peer c \<noteq> None \<longrightarrow> spc_peer c' = spc_peer c)
   \<and> (is_ok res \<longrightarrow> (\<exists>source d. spc_peer c' = Some source \<and> accepts c source \<and> Inr (d, source) \<in> set ds
        \<and> parse_datagram (take UDP_BUFFER_SIZE d) = res))"
  by (induction c ds arbitrary: res rule: socks_recv.induct)
    (auto simp: accepts_def split: if_splits sum.splits)

lemma parse_datagram_put:
  assumes "address_ok a" and "encode_address a = (Inr enc :: socks_error + bytes)"
  shows "parse_datagram ([0, 0, 0] @ enc @ payload) = (Inr (canonical a, payload) :: socks_error + _)"
proof -
  from assms(2) have "enc \<noteq> []" by (cases rule: encode_cases) simp_all
  then have "length ([0, 0, 0] @ enc @ payload) \<ge> 4" by (cases enc) simp_all
  then show ?thesis
    using decode_encode [OF assms, of payload] by (simp add: parse_datagram_def numeral_3_eq_3)
qed

section \<open>Life cycle\<close>

record socks_inbound =
  si_tag :: string
  si_listen :: string
  si_listen_port :: u16
  si_running :: bool
  si_local_addr :: "socket_addr option"

definition default_listen :: string where "default_listen = ''127.0.0.1''"

definition socks_start ::
    "('io, 'l) socket_api \<Rightarrow> start_stage \<Rightarrow> socks_inbound \<Rightarrow> ('io listen_error + unit) \<times> socks_inbound" where
  "socks_start api stage s =
     (if stage \<noteq> Start \<or> si_running s then (Inr (), s)
      else case bind_tcp_listeners api (si_listen s) (si_listen_port s) of
        Inl e \<Rightarrow> (Inl e, s)
      | Inr listeners \<Rightarrow>
          (case map_err LocalAddrFailed (listener_addr api (hd listeners)) of
             Inl e \<Rightarrow> (Inl e, s)
           | Inr own \<Rightarrow> (Inr (), s\<lparr>si_local_addr := Some own, si_running := True\<rparr>)))"

definition socks_close :: "socks_inbound \<Rightarrow> socks_inbound" where
  "socks_close s = s\<lparr>si_running := False\<rparr>"

section \<open>Properties\<close>

text \<open>C23: the SOCKS5 address codec is exact. What \<open>encode_address\<close> writes is read back by the decoder
  of datagrams and by the reader of requests, with the following bytes untouched, as the same
  address up to the canonical text of an IP literal; a datagram made of it carries its payload
  unchanged.\<close>

theorem socks_address_roundtrip:
  assumes "host a \<noteq> []" and "is_str (host a)" and "encode_address a = Inr bs"
  shows "decode_address (bs @ rest) = Inr (canonical a, length bs)
    \<and> read_socks_address (hd bs) (tl bs @ rest) = Inr (canonical a, rest)
    \<and> parse_datagram ([0, 0, 0] @ bs @ rest) = Inr (canonical a, rest)"
proof -
  from assms(1,2) have "address_ok a" by (simp add: address_ok_def)
  from decode_encode [OF this assms(3)] read_encode [OF this assms(3)] parse_datagram_put [OF this assms(3)]
  show ?thesis by blast
qed

theorem socks_address_roundtrip_witness:
  "\<exists>bs. encode_address \<lparr>host = show_ip (IpV4 0x01020304), port = 53\<rparr> = Inr bs
    \<and> parse_datagram ([0, 0, 0] @ bs @ [1, 2, 3]) = Inr (\<lparr>host = show_ip (IpV4 0x01020304), port = 53\<rparr>, [1, 2, 3])"
proof -
  let ?a = "\<lparr>host = show_ip (IpV4 0x01020304), port = 53\<rparr>"
  have enc: "encode_address ?a = Inr (1 # be_bytes (0x01020304 :: u32) @ be_bytes (53 :: u16))"
    by (simp add: encode_address_def del: show_ip.simps)
  have "canonical ?a = ?a" by (simp add: canonical_def del: show_ip.simps)
  with socks_address_roundtrip [OF _ _ enc, of "[1, 2, 3]"] enc show ?thesis
    by (simp add: show_ip_is_str del: show_ip.simps append.simps)
qed

text \<open>The handshake accepts every well-formed client. Whatever authentication methods a client
  offers besides "none", its CONNECT or UDP ASSOCIATE request to an encoded address is answered
  with method 0 and understood with exactly that address, and the bytes after it are left for
  the relay.\<close>

theorem handshake_hello:
  assumes "length methods \<le> 255" and "0 \<in> set methods"
    and "address_ok a" and "encode_address a = Inr enc" and "cmd = 1 \<or> cmd = 3"
  shows "handshake source ([5, of_nat (length methods)] @ methods @ [5, cmd, 0] @ enc @ rest)
    = ([5, 0], Inr (if cmd = 1 then Connect else UdpAssociate, canonical a, rest))"
  using handshake_hello_lemma [OF assms, of source rest] by (simp add: client_hello_def)

theorem handshake_hello_witness:
  "handshake (SockV4 1 2) ([5, 2, 0, 2, 5, 1, 0, 1, 0, 0, 0, 7, 0, 80] @ [9])
    = ([5, 0], Inr (Connect, \<lparr>host = show_ip (IpV4 7), port = 80\<rparr>, [9]))"
proof -
  let ?a = "\<lparr>host = show_ip (IpV4 7), port = 80\<rparr>"
  have "be_bytes (7 :: u32) = [0, 0, 0, 7]" "be_bytes (80 :: u16) = [0, 80]" by code_simp+
  then have enc: "encode_address ?a = Inr [1, 0, 0, 0, 7, 0, 80]"
    by (simp add: encode_address_def del: show_ip.simps)
  have "canonical ?a = ?a" by (simp add: canonical_def del: show_ip.simps)
  moreover have "address_ok ?a" by (simp add: address_ok_def show_ip_is_str del: show_ip.simps)
  ultimately show ?thesis
    using handshake_hello [OF _ _ _ enc, of "[0, 2]" 1 "SockV4 1 2" "[9]"] by (simp del: show_ip.simps)
qed

text \<open>A UDP association belongs to one client. A datagram is delivered only when it comes from the
  IP address of the control connection, and after the first one only from the very socket that
  sent it; datagrams of anyone else are skipped without changing the association.\<close>

theorem socks_recv_pinned:
  assumes "socks_recv c ds = Some (Inr p, c', rest)"
  shows "\<exists>source d. Inr (d, source) \<in> set ds \<and> sock_ip source = spc_control_source_ip c
    \<and> (spc_peer c = None \<or> spc_peer c = Some source) \<and> spc_peer c' = Some source
    \<and> spc_control_source_ip c' = spc_control_source_ip c \<and> parse_datagram (take 65535 d) = Inr p"
  using socks_recv_peer [OF assms] by (auto simp: accepts_def UDP_BUFFER_SIZE_def)

theorem socks_recv_pinned_witness:
  "\<exists>source d. Inr (d, source) \<in> set [(Inr ([0], SockV4 9 9) :: string + (bytes \<times> socket_addr)), Inr ([0, 0, 0, 1, 0, 0, 0, 7, 0, 80, 5], SockV4 1 2)]
    \<and> sock_ip source = IpV4 1
    \<and> parse_datagram (take 65535 d) = Inr (\<lparr>host = show_ip (IpV4 7), port = 80\<rparr>, [5])"
proof -
  let ?c = "\<lparr>spc_control_source_ip = IpV4 1, spc_peer = None\<rparr>"
  let ?d = "[0, 0, 0, 1, 0, 0, 0, 7, 0, 80, 5]"
  let ?ds = "[(Inr ([0], SockV4 9 9) :: string + (bytes \<times> socket_addr)), Inr (?d, SockV4 1 2)]"
  have bytes: "be_bytes (7 :: u32) = [0, 0, 0, 7]" "be_bytes (80 :: u16) = [0, 80]" by code_simp+
  let ?a = "\<lparr>host = show_ip (IpV4 7), port = 80\<rparr>"
  have "encode_address ?a = (Inr [1, 0, 0, 0, 7, 0, 80] :: socks_error + bytes)"
    by (simp add: encode_address_def bytes del: show_ip.simps)
  moreover have "address_ok ?a" by (simp add: address_ok_def show_ip_is_str del: show_ip.simps)
  moreover have "canonical ?a = ?a" by (simp add: canonical_def del: show_ip.simps)
  ultimately have "parse_datagram (take UDP_BUFFER_SIZE ?d) = Inr (?a, [5])"
    using parse_datagram_put [of ?a "[1, 0, 0, 0, 7, 0, 80]" "[5]"]
    by (simp add: UDP_BUFFER_SIZE_def del: show_ip.simps)
  then have "socks_recv ?c ?ds = Some (Inr (?a, [5]), ?c\<lparr>spc_peer := Some (SockV4 1 2)\<rparr>, [])"
    by (simp del: show_ip.simps)
  from socks_recv_pinned [OF this] show ?thesis
    by (simp only: socks_packet_connection.simps) blast
qed

end
