(* ===== verification/Direct.thy ===== *)
theory Direct
  imports Buffer_Pool Registry
begin

text \<open>
  The two built-in outbounds (\<open>direct.rs\<close>, \<open>block.rs\<close>): direct connections and datagrams
  over the sockets of the host, and the outbound that refuses everything.
\<close>

section \<open>Direct\<close>

record 'io direct_outbound =
  do_tag :: string
  do_dialer :: "'io system_dialer"

definition direct_connect ::
    "(string \<Rightarrow> u16 \<Rightarrow> 'io + socket_addr list) \<Rightarrow> (socket_addr \<Rightarrow> 'io + 'st) \<Rightarrow> ('st \<Rightarrow> 'io + unit)
       \<Rightarrow> 'io direct_outbound \<Rightarrow> session \<Rightarrow> 'io dial_error + 'st" where
  "direct_connect lookup_host tcp nodelay o' s = system_connect lookup_host tcp nodelay (do_dialer o') s"

record ('io, 's) direct_packet_connection =
  dpc_ipv4 :: 's
  dpc_ipv6 :: "'s option"
  dpc_dialer :: "'io system_dialer"

definition bind_ipv4 :: string where "bind_ipv4 = ''0.0.0.0:0''"
definition bind_ipv6 :: string where "bind_ipv6 = ''[::]:0''"

text \<open>The IPv4 socket is required, the IPv6 socket is used when it can be bound.\<close>

definition direct_connect_packet ::
    "(string \<Rightarrow> 'io + 's) \<Rightarrow> 'io direct_outbound \<Rightarrow> 'io + ('io, 's) direct_packet_connection" where
  "direct_connect_packet bind o' =
     and_then (bind bind_ipv4) (\<lambda>ipv4.
     Inr \<lparr>dpc_ipv4 = ipv4,
          dpc_ipv6 = (case bind bind_ipv6 of Inr s \<Rightarrow> Some s | Inl _ \<Rightarrow> None),
          dpc_dialer = do_dialer o'\<rparr>)"

text \<open>
  The loop over the addresses of \<open>send\<close>. The calls on the sockets are recorded: which socket
  sent to which address.
\<close>

fun send_each ::
    "('s \<Rightarrow> socket_addr \<Rightarrow> 'io option) \<Rightarrow> ('io, 's) direct_packet_connection \<Rightarrow> 'io option \<Rightarrow> socket_addr list
       \<Rightarrow> ('io option + unit) \<times> ('s \<times> socket_addr) list" where
  "send_each send_to c last_error [] = (Inl last_error, [])"
| "send_each send_to c last_error (a # as) =
     (let socket = (if is_ipv4 (sock_ip a) then Some (dpc_ipv4 c) else dpc_ipv6 c) in
      case socket of
        None \<Rightarrow> send_each send_to c last_error as
      | Some s \<Rightarrow>
          (case send_to s a of
             None \<Rightarrow> (Inr (), [(s, a)])
           | Some e \<Rightarrow> let (r, calls) = send_each send_to c (Some e) as in (r, (s, a) # calls)))"

definition direct_send ::
    "(string \<Rightarrow> u16 \<Rightarrow> 'io + socket_addr list) \<Rightarrow> ('s \<Rightarrow> socket_addr \<Rightarrow> bytes \<Rightarrow> 'io option)
       \<Rightarrow> ('io, 's) direct_packet_connection \<Rightarrow> packet \<Rightarrow> ('io dial_error + unit) \<times> ('s \<times> socket_addr) list" where
  "direct_send lookup_host send_to c p =
     (case resolve lookup_host (dpc_dialer c) (host (pk_destination p)) (port (pk_destination p)) of
        Inl e \<Rightarrow> (Inl (DialIo e), [])
      | Inr addrs \<Rightarrow>
          let (r, calls) = send_each (\<lambda>s a. send_to s a (v_data (pk_data p))) c None addrs
          in (case r of
                Inr _ \<Rightarrow> Inr ()
              | Inl (Some e) \<Rightarrow> Inl (DialIo e)
              | Inl None \<Rightarrow> Inl (DidNotResolve (pk_destination p)),
              calls))"

text \<open>
  \<open>recv\<close>: one datagram from either socket, received into a buffer of the pool (a second
  buffer, acquired for the other socket, goes back). The source becomes the destination of
  the packet, an IPv4-mapped address as its IPv4 address.
\<close>

definition packet_source :: "socket_addr \<Rightarrow> address_error + address" where
  "packet_source source =
     (let ip = (case sock_ip source of
            IpV6 ip \<Rightarrow> (case to_ipv4_mapped ip of Some v4 \<Rightarrow> IpV4 v4 | None \<Rightarrow> IpV6 ip)
          | ip \<Rightarrow> ip)
      in new_address (show_ip ip) (sock_port source))"

definition fill :: "bytes \<Rightarrow> vec \<Rightarrow> vec" where
  "fill data v = v\<lparr>v_data := data @ drop (length data) (v_data v)\<rparr>"

definition direct_recv ::
    "(nat \<Rightarrow> nat) \<Rightarrow> bool \<Rightarrow> 'io + (bytes \<times> socket_addr) \<Rightarrow> pool \<Rightarrow> (('io + address_error) + packet) \<times> pool" where
  "direct_recv grow two_sockets received pool =
     (let (buffer, pool) = pool_acquire grow pool;
          (other, pool) = (if two_sockets
             then (let (b, p) = pool_acquire grow pool in (Some b, p)) else (None, pool));
          pool = (case other of Some b \<Rightarrow> pool_recycle b pool | None \<Rightarrow> pool)
      in case received of
           Inl e \<Rightarrow> (Inl (Inl e), pool_recycle buffer pool)
         | Inr (data, source) \<Rightarrow>
             let data = take UDP_BUFFER_SIZE data in
             (case packet_source source of
                Inl e \<Rightarrow> (Inl (Inr e), pool_recycle buffer pool)
              | Inr destination \<Rightarrow>
                  (Inr (packet_from_pool (fill data buffer) (length data) destination), pool)))"

lemma send_each_sockets:
  "(s, a) \<in> set (snd (send_each send_to c err as)) \<Longrightarrow>
   a \<in> set as \<and> (if is_ipv4 (sock_ip a) then s = dpc_ipv4 c else dpc_ipv6 c = Some s)"
proof (induction as arbitrary: err)
  case (Cons b as)
  show ?case
  proof (cases "if is_ipv4 (sock_ip b) then Some (dpc_ipv4 c) else dpc_ipv6 c")
    case None
    with Cons show ?thesis by (auto simp: Let_def)
  next
    case (Some t)
    with Cons show ?thesis
      by (cases "send_to t b") (auto simp: Let_def split_def split: if_splits)
  qed
qed simp

lemma packet_source_eq:
  "packet_source source
    = Inr \<lparr>host = show_ip (sock_ip (normalize_socket_addr source)), port = sock_port source\<rparr>"
  by (cases source) (auto simp: packet_source_def new_address_def split: option.splits)

lemma direct_recv_ok_lemma:
  assumes "pool_wf pool"
  shows "pool_wf (snd (direct_recv grow two received pool))"
    and "fst (direct_recv grow two received pool) = Inr p \<Longrightarrow>
      \<exists>data source. received = Inr (data, source) \<and> v_data (pk_data p) = take UDP_BUFFER_SIZE data
        \<and> pk_pooled p \<and> pk_destination p
            = \<lparr>host = show_ip (sock_ip (normalize_socket_addr source)), port = sock_port source\<rparr>"
proof -
  obtain b p1 where b: "pool_acquire grow pool = (b, p1)" by (cases "pool_acquire grow pool")
  obtain b2 p2 where b2: "pool_acquire grow p1 = (b2, p2)" by (cases "pool_acquire grow p1")
  from pool_acquire_wf_lemma [OF assms b] have wf: "pool_wf p1" by simp
  with pool_acquire_wf_lemma [OF wf b2] have "pool_wf p2" by simp
  with wf b b2 show "pool_wf (snd (direct_recv grow two received pool))"
    by (auto simp: direct_recv_def Let_def packet_source_eq pool_recycle_wf split: sum.splits)
  assume "fst (direct_recv grow two received pool) = Inr p"
  with b b2 show "\<exists>data source. received = Inr (data, source) \<and> v_data (pk_data p) = take UDP_BUFFER_SIZE data
        \<and> pk_pooled p \<and> pk_destination p
            = \<lparr>host = show_ip (sock_ip (normalize_socket_addr source)), port = sock_port source\<rparr>"
    by (cases two)
      (auto simp: direct_recv_def Let_def packet_source_eq packet_from_pool_def vec_truncate_def fill_def
        split: sum.splits)
qed

section \<open>Block\<close>

datatype block_error = ConnectionBlocked string | PacketBlocked string

definition block_connect :: "string \<Rightarrow> session \<Rightarrow> block_error + 'st" where
  "block_connect tag s = Inl (ConnectionBlocked tag)"

definition block_connect_packet :: "string \<Rightarrow> session \<Rightarrow> block_error + 'pc" where
  "block_connect_packet tag s = Inl (PacketBlocked tag)"

end
