(* ===== verification/Connection_Tasks.thy ===== *)
theory Connection_Tasks
  imports Main
begin

text \<open>
  The group of connection tasks (\<open>tasks.rs\<close>): a counter of active tasks and a \<open>Notify\<close>.
  Each atomic operation is a step; the steps of all tasks and of all callers of \<open>join\<close>
  interleave freely. A \<open>Notified\<close> future sees every \<open>notify_waiters\<close> after its creation: it
  remembers the number of notifications so far, and it is ready once that has grown.
\<close>

datatype task = TaskRunning | TaskDecremented | TaskGone

text \<open>
  \<open>join\<close>: before the loop body, with a future but before the load of the counter, awaiting,
  and returned.
\<close>

datatype joiner = LoopTop | Created nat | Awaiting nat | Returned

record group =
  g_active :: nat
  g_notified :: nat
  g_tasks :: "task list"
  g_joiners :: "joiner list"

definition group_new :: group where
  "group_new = \<lparr>g_active = 0, g_notified = 0, g_tasks = [], g_joiners = []\<rparr>"

inductive group_step :: "group \<Rightarrow> group \<Rightarrow> bool" where
  spawn: "group_step g (g\<lparr>g_active := Suc (g_active g), g_tasks := g_tasks g @ [TaskRunning]\<rparr>)"
| decrement: "i < length (g_tasks g) \<Longrightarrow> g_tasks g ! i = TaskRunning \<Longrightarrow>
    group_step g (g\<lparr>g_active := g_active g - 1, g_tasks := (g_tasks g)[i := TaskDecremented]\<rparr>)"
| notify: "i < length (g_tasks g) \<Longrightarrow> g_tasks g ! i = TaskDecremented \<Longrightarrow>
    group_step g (g\<lparr>g_notified := Suc (g_notified g), g_tasks := (g_tasks g)[i := TaskGone]\<rparr>)"
| call_join: "group_step g (g\<lparr>g_joiners := g_joiners g @ [LoopTop]\<rparr>)"
| create: "j < length (g_joiners g) \<Longrightarrow> g_joiners g ! j = LoopTop \<Longrightarrow>
    group_step g (g\<lparr>g_joiners := (g_joiners g)[j := Created (g_notified g)]\<rparr>)"
| load_zero: "j < length (g_joiners g) \<Longrightarrow> g_joiners g ! j = Created k \<Longrightarrow> g_active g = 0 \<Longrightarrow>
    group_step g (g\<lparr>g_joiners := (g_joiners g)[j := Returned]\<rparr>)"
| load_busy: "j < length (g_joiners g) \<Longrightarrow> g_joiners g ! j = Created k \<Longrightarrow> g_active g \<noteq> 0 \<Longrightarrow>
    group_step g (g\<lparr>g_joiners := (g_joiners g)[j := Awaiting k]\<rparr>)"
| wake: "j < length (g_joiners g) \<Longrightarrow> g_joiners g ! j = Awaiting k \<Longrightarrow> k < g_notified g \<Longrightarrow>
    group_step g (g\<lparr>g_joiners := (g_joiners g)[j := LoopTop]\<rparr>)"

definition reachable :: "group \<Rightarrow> bool" where
  "reachable g \<longleftrightarrow> group_step\<^sup>*\<^sup>* group_new g"

section \<open>No wake-up is lost\<close>

definition pending :: "group \<Rightarrow> bool" where
  "pending g \<longleftrightarrow> TaskDecremented \<in> set (g_tasks g)"

text \<open>
  The counter counts the running tasks, and a caller that waits for a notification it has not
  seen waits for a task that is still running or about to notify.
\<close>

definition group_inv :: "group \<Rightarrow> bool" where
  "group_inv g \<longleftrightarrow>
     g_active g = length (filter (\<lambda>t. t = TaskRunning) (g_tasks g))
     \<and> (\<forall>k. Created k \<in> set (g_joiners g) \<longrightarrow> k \<le> g_notified g)
     \<and> (\<forall>k. Awaiting k \<in> set (g_joiners g) \<longrightarrow> k \<le> g_notified g
          \<and> (k = g_notified g \<longrightarrow> g_active g \<noteq> 0 \<or> pending g))"

lemma filter_update:
  assumes "i < length ts"
  shows "filter P (ts[i := t]) = filter P (take i ts) @ filter P [t] @ filter P (drop (Suc i) ts)"
    and "filter P ts = filter P (take i ts) @ filter P [ts ! i] @ filter P (drop (Suc i) ts)"
proof -
  show "filter P (ts[i := t]) = filter P (take i ts) @ filter P [t] @ filter P (drop (Suc i) ts)"
    using assms by (simp add: upd_conv_take_nth_drop)
  from assms have "ts = take i ts @ [ts ! i] @ drop (Suc i) ts" by (simp add: id_take_nth_drop [symmetric])
  then show "filter P ts = filter P (take i ts) @ filter P [ts ! i] @ filter P (drop (Suc i) ts)"
    by (metis filter_append)
qed

lemma filter_update_running:
  "i < length ts \<Longrightarrow> ts ! i = TaskRunning \<Longrightarrow> t \<noteq> TaskRunning \<Longrightarrow>
   length (filter (\<lambda>t. t = TaskRunning) (ts[i := t])) = length (filter (\<lambda>t. t = TaskRunning) ts) - 1"
  by (simp add: filter_update [where P = "\<lambda>t. t = TaskRunning"])

lemma filter_update_other:
  "i < length ts \<Longrightarrow> ts ! i \<noteq> TaskRunning \<Longrightarrow> t \<noteq> TaskRunning \<Longrightarrow>
   filter (\<lambda>t. t = TaskRunning) (ts[i := t]) = filter (\<lambda>t. t = TaskRunning) ts"
  using filter_update(1) [of i ts "\<lambda>t. t = TaskRunning" t] filter_update(2) [of i ts "\<lambda>t. t = TaskRunning"]
  by simp

lemma group_inv_new: "group_inv group_new"
  by (simp add: group_inv_def group_new_def)

lemma in_update: "x \<in> set (xs[j := y]) \<Longrightarrow> x = y \<or> x \<in> set xs"
  using set_update_subset_insert [of xs j y] by blast

lemma group_step_inv: "group_step g h \<Longrightarrow> group_inv g \<Longrightarrow> group_inv h"
proof (induction rule: group_step.induct)
  case (spawn g)
  then show ?case by (auto simp: group_inv_def pending_def)
next
  case (decrement i g)
  have "TaskDecremented \<in> set ((g_tasks g)[i := TaskDecremented])"
    using decrement.hyps(1) by (simp add: set_update_memI)
  with decrement show ?case
    by (auto simp: group_inv_def pending_def filter_update_running)
next
  case (notify i g)
  then show ?case
    by (auto simp: group_inv_def pending_def filter_update_other)
next
  case (call_join g)
  then show ?case by (auto simp: group_inv_def pending_def)
next
  case (create j g)
  then show ?case by (auto simp: group_inv_def pending_def dest!: in_update)
next
  case (load_zero j g k)
  then show ?case by (auto simp: group_inv_def pending_def dest!: in_update)
next
  case (load_busy j g k)
  from load_busy.hyps(1,2) have "Created k \<in> set (g_joiners g)" by (metis nth_mem)
  with load_busy show ?case by (auto simp: group_inv_def pending_def dest!: in_update)
next
  case (wake j g k)
  then show ?case by (auto simp: group_inv_def pending_def dest!: in_update)
qed

lemma reachable_inv: "reachable g \<Longrightarrow> group_inv g"
  unfolding reachable_def
  by (induction rule: rtranclp_induct) (auto intro: group_inv_new group_step_inv)

lemma active_zero_iff:
  "group_inv g \<Longrightarrow> g_active g = 0 \<longleftrightarrow> TaskRunning \<notin> set (g_tasks g)"
  by (auto simp: group_inv_def filter_empty_conv)

text \<open>
  A caller of \<open>join\<close> that has not returned can take its next step, unless some task has not
  ended yet.
\<close>

definition joiner_enabled :: "group \<Rightarrow> nat \<Rightarrow> bool" where
  "joiner_enabled g j \<longleftrightarrow>
     (\<exists>s. s \<noteq> g_joiners g ! j \<and> group_step g (g\<lparr>g_joiners := (g_joiners g)[j := s]\<rparr>))"

lemma join_progress_lemma:
  assumes "reachable g" and "j < length (g_joiners g)" and "g_joiners g ! j \<noteq> Returned"
    and "\<forall>t \<in> set (g_tasks g). t = TaskGone"
  shows "joiner_enabled g j"
proof -
  note inv = reachable_inv [OF assms(1)]
  have quiet: "g_active g = 0" "\<not> pending g"
    using assms(4) active_zero_iff [OF inv] by (auto simp: pending_def)
  show ?thesis
  proof (cases "g_joiners g ! j")
    case LoopTop
    from create [OF assms(2) this] LoopTop show ?thesis unfolding joiner_enabled_def by force
  next
    case (Created k)
    from load_zero [OF assms(2) this quiet(1)] Created show ?thesis unfolding joiner_enabled_def by force
  next
    case (Awaiting k)
    then have "Awaiting k \<in> set (g_joiners g)" using assms(2) by (metis nth_mem)
    with inv quiet have "k < g_notified g" by (auto simp: group_inv_def le_less)
    from wake [OF assms(2) Awaiting this] Awaiting show ?thesis unfolding joiner_enabled_def by force
  qed (use assms(3) in simp)
qed

text \<open>\<open>join\<close> returns only at a moment when no task is running.\<close>

lemma join_returns_idle_lemma:
  assumes "reachable g" and "group_step g h" and "j < length (g_joiners g)"
    and "g_joiners g ! j \<noteq> Returned" and "g_joiners h ! j = Returned"
  shows "TaskRunning \<notin> set (g_tasks g)"
proof -
  from assms(2,3,4,5) have "g_active g = 0"
    by (induction rule: group_step.induct) (auto simp: nth_append nth_list_update split: if_splits)
  then show ?thesis using active_zero_iff [OF reachable_inv [OF assms(1)]] by simp
qed

section \<open>Properties\<close>

text \<open>C6: no wake-up is lost. In every reachable interleaving, once all connection tasks are gone
  every caller of \<open>join\<close> can return by at most three steps of its own, even when the last
  notification was sent between its check of the counter and its wait.\<close>

theorem join_completes:
  assumes "reachable g" and "j < length (g_joiners g)" and "\<forall>t \<in> set (g_tasks g). t = TaskGone"
  shows "\<exists>n \<le> 3. \<exists>h. (group_step ^^ n) g h \<and> g_joiners h ! j = Returned \<and> g_tasks h = g_tasks g"
proof -
  from reachable_inv [OF assms(1)] have inv: "group_inv g" .
  have idle: "g_active g = 0" using active_zero_iff [OF inv] assms(3) by auto
  have last: "group_step (g\<lparr>g_joiners := (g_joiners g)[j := Created k]\<rparr>) (g\<lparr>g_joiners := (g_joiners g)[j := Returned]\<rparr>)" for k
    using group_step.load_zero [of j "g\<lparr>g_joiners := (g_joiners g)[j := Created k]\<rparr>" k] assms(2) idle by simp
  have top: "group_step (g\<lparr>g_joiners := (g_joiners g)[j := LoopTop]\<rparr>)
      (g\<lparr>g_joiners := (g_joiners g)[j := Created (g_notified g)]\<rparr>)"
    using group_step.create [of j "g\<lparr>g_joiners := (g_joiners g)[j := LoopTop]\<rparr>"] assms(2) by simp
  have same: "g\<lparr>g_joiners := (g_joiners g)[j := s]\<rparr> = g" if "g_joiners g ! j = s" for s
    using that by (metis group.surjective group.update_convs(4) list_update_id)
  let ?done = "g\<lparr>g_joiners := (g_joiners g)[j := Returned]\<rparr>"
  have "\<exists>n \<le> 3. (group_step ^^ n) g ?done"
  proof (cases "g_joiners g ! j")
    case LoopTop
    have "(group_step ^^ 2) g ?done"
      using top last [of "g_notified g"] same [OF LoopTop] by (auto simp: numeral_2_eq_2)
    then show ?thesis by (intro exI [of _ 2]) simp
  next
    case (Created k)
    then have "group_step g ?done" using last [of k] same by simp
    then have "(group_step ^^ 1) g ?done" by (simp only: relpowp_1)
    then show ?thesis by (intro exI [of _ 1] conjI) simp_all
  next
    case (Awaiting k)
    with assms(2) have "Awaiting k \<in> set (g_joiners g)" by (metis nth_mem)
    with inv idle assms(3) have "k < g_notified g" by (fastforce simp: group_inv_def pending_def)
    then have "group_step g (g\<lparr>g_joiners := (g_joiners g)[j := LoopTop]\<rparr>)"
      using group_step.wake [of j g k] assms(2) Awaiting by simp
    then have "(group_step ^^ 3) g ?done" using top last [of "g_notified g"]
      by (auto simp: numeral_3_eq_3)
    then show ?thesis by (intro exI [of _ 3]) simp
  next
    case Returned
    then have "(group_step ^^ 0) g ?done" using same by simp
    then show ?thesis by (intro exI [of _ 0]) simp
  qed
  with assms(2) show ?thesis by fastforce
qed

text \<open>\<open>join\<close> returns only when the group is idle: at the step at which a call returns, no task
  that was spawned is still running its future.\<close>

theorem join_returns_idle:
  assumes "reachable g" and "group_step g h" and "j < length (g_joiners g)"
    and "g_joiners g ! j \<noteq> Returned" and "g_joiners h ! j = Returned"
  shows "TaskRunning \<notin> set (g_tasks g)"
  by (rule join_returns_idle_lemma [OF assms])

theorem join_returns_idle_witness:
  "\<exists>g h. reachable g \<and> group_step g h \<and> g_joiners h ! 0 = Returned \<and> TaskRunning \<notin> set (g_tasks g)"
proof -
  let ?g = "\<lparr>g_active = 0, g_notified = 0, g_tasks = [], g_joiners = [Created 0]\<rparr>"
  let ?h = "\<lparr>g_active = 0, g_notified = 0, g_tasks = [], g_joiners = [Returned]\<rparr>"
  have "group_step group_new \<lparr>g_active = 0, g_notified = 0, g_tasks = [], g_joiners = [LoopTop]\<rparr>"
    using group_step.call_join [of group_new] by (simp add: group_new_def)
  moreover have "group_step \<lparr>g_active = 0, g_notified = 0, g_tasks = [], g_joiners = [LoopTop]\<rparr> ?g"
    using group_step.create [of 0 "\<lparr>g_active = 0, g_notified = 0, g_tasks = [], g_joiners = [LoopTop]\<rparr>"] by simp
  ultimately have reach: "reachable ?g"
    unfolding reachable_def by (rule rtranclp.rtrancl_into_rtrancl [OF r_into_rtranclp])
  have step: "group_step ?g ?h" using group_step.load_zero [of 0 ?g 0] by simp
  from join_returns_idle [OF reach step, of 0] have "TaskRunning \<notin> set (g_tasks ?g)" by simp
  with reach step show ?thesis by (intro exI [of _ ?g] exI [of _ ?h]) simp
qed

theorem join_completes_witness:
  "\<exists>n \<le> 3. \<exists>h. (group_step ^^ n) \<lparr>g_active = 0, g_notified = 0, g_tasks = [], g_joiners = [LoopTop]\<rparr> h
    \<and> g_joiners h ! 0 = Returned \<and> g_tasks h = []"
proof -
  have "group_step group_new \<lparr>g_active = 0, g_notified = 0, g_tasks = [], g_joiners = [LoopTop]\<rparr>"
    using group_step.call_join [of group_new] by (simp add: group_new_def)
  then have "reachable \<lparr>g_active = 0, g_notified = 0, g_tasks = [], g_joiners = [LoopTop]\<rparr>"
    unfolding reachable_def by (rule r_into_rtranclp)
  from join_completes [OF this, of 0] show ?thesis by simp
qed

end
