(* ===== verification/Rust_Text.thy ===== *)
theory Rust_Text
  imports Rust_Str Net_Roundtrip
begin

text \<open>
  More of Rust's \<open>str\<close> and slices, as the HTTP client and the command line use them: searching
  for a substring, splitting at one, Unicode white space, and hexadecimal numbers read back.
\<close>

lemma and_then_cong [fundef_cong]:
  "r = r' \<Longrightarrow> (\<And>x. r' = Inr x \<Longrightarrow> f x = g x) \<Longrightarrow> and_then r f = and_then r' g"
  by (cases r') auto

section \<open>Substrings\<close>

text \<open>
  \<open>windows(n).position(|w| w == p)\<close> on bytes and \<open>str::find(p)\<close> on strings: the offset of the
  first occurrence.
\<close>

fun find_sub :: "'a list \<Rightarrow> 'a list \<Rightarrow> nat option" where
  "find_sub p [] = (if p = [] then Some 0 else None)"
| "find_sub p (x # xs) = (if prefix p (x # xs) then Some 0 else map_option Suc (find_sub p xs))"

lemma find_sub_Some:
  "find_sub p xs = Some i \<Longrightarrow> i + length p \<le> length xs \<and> prefix p (drop i xs)"
proof (induction xs arbitrary: i)
  case (Cons x xs)
  then show ?case by (auto simp: prefix_length_le split: if_splits dest: prefix_length_le)
qed (simp split: if_splits)

lemma find_sub_shrinks [termination_simp]:
  "find_sub p xs = Some i \<Longrightarrow> p \<noteq> [] \<Longrightarrow> length xs - (i + length p) < length xs"
  using find_sub_Some [of p xs i] by (cases xs) auto

text \<open>The first element of the pattern does not occur before the place where it is put.\<close>

lemma find_sub_append:
  "p \<noteq> [] \<Longrightarrow> hd p \<notin> set xs \<Longrightarrow> find_sub p (xs @ p @ ys) = Some (length xs)"
proof (induction xs)
  case Nil
  then show ?case by (cases p) auto
next
  case (Cons x xs)
  from Cons.prems have "\<not> prefix p (x # xs @ p @ ys)" by (cases p) auto
  with Cons show ?case by simp
qed

lemma find_sub_absent: "p \<noteq> [] \<Longrightarrow> hd p \<notin> set xs \<Longrightarrow> find_sub p xs = None"
proof (induction xs)
  case (Cons x xs)
  then have "\<not> prefix p (x # xs)" by (cases p) auto
  with Cons show ?case by simp
qed simp

lemma find_sub_extend: "find_sub p xs = Some i \<Longrightarrow> find_sub p (xs @ ys) = Some i"
proof (induction xs arbitrary: i)
  case Nil
  then show ?case by (cases ys) (auto split: if_splits)
next
  case (Cons x xs)
  show ?case
  proof (cases "prefix p (x # xs)")
    case True
    with Cons.prems show ?thesis by (simp add: prefix_prefix [of p "x # xs" ys, simplified])
  next
    case False
    with Cons.prems obtain j where j: "find_sub p xs = Some j" "i = Suc j" by auto
    from find_sub_Some [OF j(1)] have "length p \<le> length (x # xs)" by simp
    with False have "\<not> prefix p ((x # xs) @ ys)"
      by (metis append_eq_append_conv_if prefix_def take_is_prefix)
    with Cons.IH [OF j(1)] j(2) show ?thesis by simp
  qed
qed

lemma find_sub_shorten:
  assumes "find_sub p (xs @ ys) = Some i" and "i + length p \<le> length xs"
  shows "find_sub p xs = Some i"
  using assms
proof (induction xs arbitrary: i)
  case Nil
  then show ?case by (cases ys) (auto split: if_splits)
next
  case (Cons x xs)
  show ?case
  proof (cases "prefix p ((x # xs) @ ys)")
    case True
    with Cons.prems have "i = 0" by simp
    with True Cons.prems(2) have "prefix p (x # xs)"
      by (metis add_0 prefix_length_prefix prefixI)
    with \<open>i = 0\<close> show ?thesis by simp
  next
    case False
    with Cons.prems(1) obtain j where j: "find_sub p (xs @ ys) = Some j" "i = Suc j" by auto
    from False have "\<not> prefix p (x # xs)" by (metis prefix_prefix)
    with Cons.IH [OF j(1)] Cons.prems(2) j(2) show ?thesis by simp
  qed
qed

text \<open>\<open>str::split\<close> on a substring; the program only splits at \<open>"\r\n"\<close>.\<close>

definition crlf :: string where
  "crlf = [CHR 0x0D, CHR 0x0A]"

lemma crlf_simps [simp]: "crlf \<noteq> []" "hd crlf = CHR 0x0D" "length crlf = 2"
  by (simp_all add: crlf_def)

function split_crlf :: "string \<Rightarrow> string list" where
  "split_crlf s =
     (case find_sub crlf s of
        None \<Rightarrow> [s]
      | Some i \<Rightarrow> take i s # split_crlf (drop (i + 2) s))"
  by pat_completeness auto
termination
  by (relation "measure length") (auto dest: find_sub_shrinks)

declare split_crlf.simps [simp del]

lemma split_crlf_last: "CHR 0x0D \<notin> set s \<Longrightarrow> split_crlf s = [s]"
  by (simp add: split_crlf.simps find_sub_absent)

lemma split_crlf_line: "CHR 0x0D \<notin> set s \<Longrightarrow> split_crlf (s @ crlf @ t) = s # split_crlf t"
  by (subst split_crlf.simps) (simp add: find_sub_append)

text \<open>Lines that hold no carriage return are cut apart exactly where they were joined.\<close>

lemma split_crlf_join:
  "xs \<noteq> [] \<Longrightarrow> \<forall>x \<in> set xs. CHR 0x0D \<notin> set x \<Longrightarrow> split_crlf (join_sep crlf xs) = xs"
  by (induction xs) (auto simp: join_sep_Cons split_crlf_last split_crlf_line)

section \<open>White space\<close>

text \<open>The characters of the Unicode property \<open>White_Space\<close>, in UTF-8.\<close>

definition ws_chars :: "string list" where
  "ws_chars = map (\<lambda>c. [c]) [CHR 0x09, CHR 0x0A, CHR 0x0B, CHR 0x0C, CHR 0x0D, CHR 0x20]
     @ [[CHR 0xC2, CHR 0x85], [CHR 0xC2, CHR 0xA0], [CHR 0xE1, CHR 0x9A, CHR 0x80]]
     @ map (\<lambda>c. [CHR 0xE2, CHR 0x80, c])
         [CHR 0x80, CHR 0x81, CHR 0x82, CHR 0x83, CHR 0x84, CHR 0x85, CHR 0x86, CHR 0x87, CHR 0x88,
          CHR 0x89, CHR 0x8A, CHR 0xA8, CHR 0xA9, CHR 0xAF]
     @ [[CHR 0xE2, CHR 0x81, CHR 0x9F], [CHR 0xE3, CHR 0x80, CHR 0x80]]"

text \<open>An ASCII character from \<open>!\<close> up is no white space and neither starts nor ends one.\<close>

definition graphic :: "char \<Rightarrow> bool" where
  "graphic c \<longleftrightarrow> (33 :: nat) \<le> of_char c \<and> (of_char c :: nat) < 128"

lemma ws_chars_ends: "list_all (\<lambda>w. w \<noteq> [] \<and> \<not> graphic (hd w) \<and> \<not> graphic (last w)) ws_chars"
  by code_simp

lemma ws_chars_not_Nil: "w \<in> set ws_chars \<Longrightarrow> w \<noteq> []"
  using ws_chars_ends by (auto simp: list_all_iff)

lemma find_in_set: "find p xs = Some x \<Longrightarrow> x \<in> set xs \<and> p x"
  by (auto simp: find_Some_iff)

lemma ws_prefix_shrinks [termination_simp]:
  "find (\<lambda>w. prefix w s) ws_chars = Some w \<Longrightarrow> length s - length w < length s"
proof -
  assume "find (\<lambda>w. prefix w s) ws_chars = Some w"
  then have "w \<noteq> []" "prefix w s" using find_in_set ws_chars_not_Nil by fast+
  then show ?thesis by (cases s) auto
qed

lemma ws_suffix_shrinks [termination_simp]:
  "find (\<lambda>w. suffix w s) ws_chars = Some w \<Longrightarrow> length s - length w < length s"
proof -
  assume "find (\<lambda>w. suffix w s) ws_chars = Some w"
  then have "w \<noteq> []" "suffix w s" using find_in_set ws_chars_not_Nil by fast+
  then show ?thesis by (cases s) auto
qed

function trim_start :: "string \<Rightarrow> string" where
  "trim_start s =
     (case find (\<lambda>w. prefix w s) ws_chars of None \<Rightarrow> s | Some w \<Rightarrow> trim_start (drop (length w) s))"
  by pat_completeness auto
termination
  by (relation "measure length") (auto dest: ws_prefix_shrinks)

function trim_end :: "string \<Rightarrow> string" where
  "trim_end s =
     (case find (\<lambda>w. suffix w s) ws_chars of
        None \<Rightarrow> s
      | Some w \<Rightarrow> trim_end (take (length s - length w) s))"
  by pat_completeness auto
termination
  by (relation "measure length") (auto simp: min_def dest: ws_suffix_shrinks)

declare trim_start.simps [simp del] trim_end.simps [simp del]

definition trim :: "string \<Rightarrow> string" where
  "trim s = trim_end (trim_start s)"

text \<open>\<open>split_whitespace\<close>: the non-empty pieces between white space.\<close>

function words_from :: "string \<Rightarrow> string \<Rightarrow> string list" where
  "words_from acc s =
     (case s of
        [] \<Rightarrow> if acc = [] then [] else [acc]
      | c # cs \<Rightarrow>
          (case find (\<lambda>w. prefix w s) ws_chars of
             Some w \<Rightarrow> (if acc = [] then [] else [acc]) @ words_from [] (drop (length w) s)
           | None \<Rightarrow> words_from (acc @ [c]) cs))"
  by pat_completeness auto
termination
  by (relation "measure (\<lambda>(_, s). length s)")
    (auto dest: ws_prefix_shrinks)

declare words_from.simps [simp del]

definition split_whitespace :: "string \<Rightarrow> string list" where
  "split_whitespace s = words_from [] s"

lemma find_ws_graphic: "graphic c \<Longrightarrow> find (\<lambda>w. prefix w (c # s)) ws_chars = None"
  using ws_chars_ends by (auto simp: find_None_iff list_all_iff prefix_Cons)

lemma find_ws_graphic_end: "graphic c \<Longrightarrow> find (\<lambda>w. suffix w (s @ [c])) ws_chars = None"
  using ws_chars_ends by (fastforce simp: find_None_iff list_all_iff)

lemma find_ws_space: "find (\<lambda>w. prefix w (CHR '' '' # s)) ws_chars = Some '' ''"
  by (simp add: ws_chars_def)

lemma trim_start_space [simp]: "trim_start (CHR '' '' # s) = trim_start s"
  by (subst trim_start.simps) (simp add: find_ws_space)

lemma trim_start_graphic: "graphic c \<Longrightarrow> trim_start (c # s) = c # s"
  by (subst trim_start.simps) (simp add: find_ws_graphic)

lemma trim_end_graphic: "graphic c \<Longrightarrow> trim_end (s @ [c]) = s @ [c]"
  by (subst trim_end.simps) (simp only: find_ws_graphic_end option.case)

lemma trim_ends_Nil [simp]: "trim_start [] = []" "trim_end [] = []"
  by (subst trim_start.simps trim_end.simps, simp add: ws_chars_def)+

lemma trim_graphic: "\<forall>c \<in> set s. graphic c \<Longrightarrow> trim s = s"
proof -
  assume g: "\<forall>c \<in> set s. graphic c"
  have "trim_start s = s"
    using g by (cases s) (simp_all add: trim_start_graphic)
  moreover have "trim_end s = s"
    using g by (cases s rule: rev_cases) (simp_all add: trim_end_graphic)
  ultimately show ?thesis by (simp add: trim_def)
qed

lemma words_from_graphic:
  "\<forall>c \<in> set w. graphic c \<Longrightarrow> words_from acc (w @ s) = words_from (acc @ w) s"
proof (induction w arbitrary: acc)
  case (Cons c w)
  then have "words_from acc (c # w @ s) = words_from (acc @ [c]) (w @ s)"
    by (subst words_from.simps) (simp add: find_ws_graphic)
  with Cons show ?case by simp
qed simp

lemma words_from_space: "acc \<noteq> [] \<Longrightarrow> words_from acc (CHR '' '' # s) = acc # words_from [] s"
  by (subst words_from.simps) (simp add: find_ws_space)

lemma split_whitespace_word:
  "w \<noteq> [] \<Longrightarrow> \<forall>c \<in> set w. graphic c \<Longrightarrow> split_whitespace (w @ CHR '' '' # s) = w # split_whitespace s"
  by (simp add: split_whitespace_def words_from_graphic words_from_space)

lemma split_whitespace_one:
  "w \<noteq> [] \<Longrightarrow> \<forall>c \<in> set w. graphic c \<Longrightarrow> split_whitespace w = [w]"
  using words_from_graphic [of w "[]" "[]"]
  by (simp add: split_whitespace_def words_from.simps [of w "[]"])

lemma show_nat_graphic: "\<forall>c \<in> set (show_nat n). graphic c"
proof
  fix c assume "c \<in> set (show_nat n)"
  then obtain d where "d < 10" "c = digit_char d" using show_nat_digits by blast
  then show "graphic c" by (simp add: graphic_def digit_char_ascii)
qed

section \<open>Hexadecimal numbers\<close>

lemma show_hex_graphic: "c \<in> set (show_hex n) \<Longrightarrow> graphic c \<and> c \<notin> {CHR ''+'', CHR '';'', CHR 0x0D}"
proof -
  assume "c \<in> set (show_hex n)"
  then obtain d where "d < 16" "c = digit_char d" using show_hex_digits [of n] by (auto simp: list_all_iff)
  then have "(of_char c :: nat) = (if d < 10 then 48 + d else 87 + d)" by (simp add: digit_char_def)
  with \<open>d < 16\<close> show ?thesis by (auto simp: graphic_def split: if_splits)
qed

lemma parse_uint_show_hex [simp]: "n \<le> lim \<Longrightarrow> parse_uint 16 lim (show_hex n) = Some n"
proof -
  assume n: "n \<le> lim"
  have "CHR ''+'' \<notin> set (show_hex n)" using show_hex_graphic by blast
  then have "(case show_hex n of [] \<Rightarrow> [] | c # cs \<Rightarrow> if c = CHR ''+'' then cs else show_hex n) = show_hex n"
    by (cases "show_hex n") auto
  then show ?thesis using n by (simp add: parse_uint_def parse_digits_show_hex)
qed

lemma is_ascii_graphic: "\<forall>c \<in> set s. graphic c \<Longrightarrow> is_ascii s"
  by (simp add: is_ascii_def list_all_iff graphic_def)

lemma show_hex_is_ascii: "is_ascii (show_hex n)"
  using show_hex_graphic by (blast intro: is_ascii_graphic)

end
