(* ===== verification/Config_Loader.thy ===== *)
theory Config_Loader
  imports Rust_Text "HOL-Library.List_Lexorder" "HOL-Library.Char_ord" "HOL-Library.Product_Lexorder"
begin

text \<open>
  The command line of the program and the loading of its configuration (\<open>config_loader.rs\<close>): which
  files a command names, in which order they are read, and how their JSON values are merged. The
  file system, the JSON parser and the decoding of the merged value are parameters.
\<close>

section \<open>Arguments\<close>

datatype cli_error =
    MissingCommand | UnknownGenerate string | UnexpectedAfterGenerate
  | MissingValue string | UnknownOption string | UnexpectedArgument string

record config_sources =
  files :: "string list"
  directories :: "string list"

datatype cli_action = Run config_sources | Help | Version | GenerateRealityKeypair

definition finish_args :: "config_sources \<Rightarrow> string option \<Rightarrow> cli_action" where
  "finish_args src bare =
     (let fs = files src @ (case bare of None \<Rightarrow> [] | Some p \<Rightarrow> [p]) in
      Run (src\<lparr>files := (if fs = [] \<and> directories src = [] then [''config.json''] else fs)\<rparr>))"

text \<open>The loop over the arguments, with the files, the directories and the bare path so far.\<close>

function parse_from :: "config_sources \<Rightarrow> string option \<Rightarrow> string list \<Rightarrow> cli_error + cli_action" where
  "parse_from src bare [] = Inr (finish_args src bare)"
| "parse_from src bare (arg # rest) =
     (if arg = ''run'' then parse_from src bare rest
      else if arg = ''generate'' then
        (case rest of
           [] \<Rightarrow> Inl MissingCommand
         | command # after \<Rightarrow>
             and_then (ensure (command = ''reality-keypair'') (UnknownGenerate command)) (\<lambda>_.
             and_then (ensure (after = []) UnexpectedAfterGenerate) (\<lambda>_. Inr GenerateRealityKeypair)))
      else if arg = ''-h'' \<or> arg = ''--help'' then Inr Help
      else if arg = ''-v'' \<or> arg = ''--version'' then Inr Version
      else if arg = ''-c'' \<or> arg = ''--config'' then
        (case rest of
           [] \<Rightarrow> Inl (MissingValue arg)
         | value # after \<Rightarrow> parse_from (src\<lparr>files := files src @ [value]\<rparr>) bare after)
      else if arg = ''-C'' \<or> arg = ''--config-directory'' then
        (case rest of
           [] \<Rightarrow> Inl (MissingValue arg)
         | value # after \<Rightarrow> parse_from (src\<lparr>directories := directories src @ [value]\<rparr>) bare after)
      else if prefix ''--config='' arg then
        parse_from (src\<lparr>files := files src @ [drop (length ''--config='') arg]\<rparr>) bare rest
      else if prefix ''--config-directory='' arg then
        parse_from (src\<lparr>directories := directories src @ [drop (length ''--config-directory='') arg]\<rparr>) bare rest
      else if prefix ''-'' arg then Inl (UnknownOption arg)
      else if bare = None \<and> files src = [] \<and> directories src = [] then parse_from src (Some arg) rest
      else Inl (UnexpectedArgument arg))"
  by pat_completeness auto
termination
  by (relation "measure (\<lambda>(_, _, args). length args)") auto

declare parse_from.simps [simp del]

definition parse_args :: "string list \<Rightarrow> cli_error + cli_action" where
  "parse_args args = parse_from \<lparr>files = [], directories = []\<rparr> None args"

section \<open>Paths\<close>

text \<open>
  The order of \<open>Path\<close> on Unix is that of the components, not of the text: repeated separators
  and inner dots do not count. A component is its class and, for a name, its bytes.
\<close>

fun name_component :: "string \<Rightarrow> nat \<times> string" where
  "name_component s = (if s = ''.'' then (1, []) else if s = ''..'' then (2, []) else (3, s))"

definition path_components :: "string \<Rightarrow> (nat \<times> string) list" where
  "path_components p =
     (let parts = filter (\<lambda>s. s \<noteq> []) (split_on (CHR ''/'') p);
          inner = filter (\<lambda>s. s \<noteq> ''.'') in
      if prefix ''/'' p then (0, []) # map name_component (inner parts)
      else map name_component (take 1 parts @ inner (drop 1 parts)))"

text \<open>\<open>Path::extension\<close> of the last component: what follows its last dot, unless that is its first.\<close>

definition path_extension :: "string \<Rightarrow> string option" where
  "path_extension p =
     (case rev (path_components p) of
        (c, n) # _ \<Rightarrow>
          if c = 3 then
            (case rsplit_once (CHR ''.'') n of
               None \<Rightarrow> None
             | Some (stem, ext) \<Rightarrow> if stem = [] then None else Some ext)
          else None
      | [] \<Rightarrow> None)"

datatype merge_error = NonObjectIntoObject | AtField string merge_error

datatype 'io load_error =
    ReadDirectory string 'io | ReadConfig string 'io | DecodeConfig string
  | NoConfigFiles | MergeConfig string merge_error | DecodeMerged

text \<open>A directory entry: its path, and whether it is a regular file (or the error of asking).\<close>

record 'io config_files =
  cf_entries :: "string \<Rightarrow> 'io + (string \<times> ('io + bool)) list"
  cf_read :: "string \<Rightarrow> 'io + string"

definition pick_entry :: "string list \<Rightarrow> string \<times> ('io + bool) \<Rightarrow> 'io load_error + string list" where
  "pick_entry paths = (\<lambda>(path, is_file).
     and_then (map_err (ReadDirectory path) is_file) (\<lambda>b.
     Inr (if b \<and> path_extension path = Some ''json'' then paths @ [path] else paths)))"

definition collect_paths :: "'io config_files \<Rightarrow> config_sources \<Rightarrow> 'io load_error + string list" where
  "collect_paths fs src =
     and_then (try_fold (\<lambda>paths d.
         and_then (map_err (ReadDirectory d) (cf_entries fs d)) (\<lambda>entries. try_fold pick_entry paths entries))
       (files src) (directories src)) (\<lambda>paths.
     Inr (sort_key path_components paths))"

section \<open>Merging\<close>

text \<open>
  A JSON value of serde\_json; the entries of an object are kept in the order of their keys, as its
  tree map does. A number is its text.
\<close>

datatype json = JNull | JBool bool | JNumber string | JString string
  | JArray "json list" | JObject "(string \<times> json) list"

definition object_insert :: "string \<Rightarrow> json \<Rightarrow> (string \<times> json) list \<Rightarrow> (string \<times> json) list" where
  "object_insert k v es = filter (\<lambda>e. fst e < k) es @ (k, v) # filter (\<lambda>e. k < fst e) es"

fun merge_value :: "json \<Rightarrow> json \<Rightarrow> merge_error + json"
  and merge_entries :: "(string \<times> json) list \<Rightarrow> (string \<times> json) list \<Rightarrow> merge_error + (string \<times> json) list" where
  "merge_value src dst =
     (if src = JNull then Inr dst
      else if dst = JNull then Inr src
      else case dst of
        JArray ds \<Rightarrow> Inr (JArray (ds @ (case src of JArray ss \<Rightarrow> ss | _ \<Rightarrow> [src])))
      | JObject ds \<Rightarrow>
          (case src of
             JObject ss \<Rightarrow> and_then (merge_entries ss ds) (\<lambda>es. Inr (JObject es))
           | _ \<Rightarrow> Inl NonObjectIntoObject)
      | _ \<Rightarrow> Inr dst)"
| "merge_entries [] ds = Inr ds"
| "merge_entries ((k, v) # ss) ds =
     and_then (case map_of ds k of
         Some d \<Rightarrow> map_err (AtField k) (merge_value v d)
       | None \<Rightarrow> Inr v) (\<lambda>x.
     merge_entries ss (object_insert k x (filter (\<lambda>e. fst e \<noteq> k) ds)))"

declare merge_value.simps [simp del]

definition merge_step ::
    "'io config_files \<Rightarrow> (string \<Rightarrow> json option) \<Rightarrow> json option \<Rightarrow> string \<Rightarrow> 'io load_error + json option" where
  "merge_step fs parse merged path =
     and_then (map_err (ReadConfig path) (cf_read fs path)) (\<lambda>content.
     and_then (ok_or (DecodeConfig path) (parse content)) (\<lambda>src.
     case merged of
       Some dst \<Rightarrow> and_then (map_err (MergeConfig path) (merge_value src dst)) (\<lambda>v. Inr (Some v))
     | None \<Rightarrow> Inr (Some src)))"

text \<open>\<open>load\<close>: the parser of extended JSON and the decoding of the typed configuration are parameters.\<close>

definition load_config ::
    "'io config_files \<Rightarrow> (string \<Rightarrow> json option) \<Rightarrow> (json \<Rightarrow> 'c option) \<Rightarrow> config_sources
       \<Rightarrow> 'io load_error + ('c \<times> string list)" where
  "load_config fs parse decode src =
     and_then (collect_paths fs src) (\<lambda>paths.
     and_then (ensure (paths \<noteq> []) NoConfigFiles) (\<lambda>_.
     and_then (try_fold (merge_step fs parse) None paths) (\<lambda>merged.
     and_then (ok_or DecodeMerged (Option.bind merged decode)) (\<lambda>c. Inr (c, paths)))))"

section \<open>Lemmas on merging\<close>

lemma map_of_filter_key: "map_of (filter (\<lambda>e. P (fst e)) es) k = (if P k then map_of es k else None)"
  by (induction es) auto

lemma map_of_object_insert: "map_of (object_insert k v es) x = (if x = k then Some v else map_of es x)"
  using map_of_filter_key [of "\<lambda>y. y < k" es x] map_of_filter_key [of "\<lambda>y. k < y" es x]
  by (cases x k rule: linorder_cases) (auto simp: object_insert_def map_add_def split: option.splits)

lemma merge_entries_lookup:
  "merge_entries ss ds = Inr es \<Longrightarrow> distinct (map fst ss) \<Longrightarrow>
    (case map_of ss k of
       None \<Rightarrow> map_of es k = map_of ds k
     | Some v \<Rightarrow> (case map_of ds k of
           None \<Rightarrow> map_of es k = Some v
         | Some d \<Rightarrow> (\<exists>x. merge_value v d = Inr x \<and> map_of es k = Some x)))"
proof (induction ss arbitrary: ds)
  case (Cons e ss)
  obtain k' v where e: "e = (k', v)" by force
  from Cons.prems e obtain x where x: "(case map_of ds k' of Some d \<Rightarrow> map_err (AtField k') (merge_value v d) | None \<Rightarrow> Inr v) = Inr x"
    and rec: "merge_entries ss (object_insert k' x (filter (\<lambda>e. fst e \<noteq> k') ds)) = Inr es" by auto
  have dist: "distinct (map fst ss)" and fresh: "map_of ss k' = None"
    using Cons.prems(2) e by (auto simp: map_of_eq_None_iff)
  have look: "map_of (object_insert k' x (filter (\<lambda>e. fst e \<noteq> k') ds)) y = (if y = k' then Some x else map_of ds y)" for y
    using map_of_filter_key [of "\<lambda>y. y \<noteq> k'" ds y] by (simp add: map_of_object_insert)
  show ?case
  proof (cases "k = k'")
    case True
    with Cons.IH [OF rec dist] fresh look x show ?thesis by (cases "map_of ds k'") (auto simp: e)
  next
    case False
    with Cons.IH [OF rec dist] look show ?thesis by (auto simp: e split: option.splits)
  qed
qed simp

lemma merge_objects: "merge_value (JObject ss) (JObject ds) = and_then (merge_entries ss ds) (\<lambda>es. Inr (JObject es))"
  by (simp add: merge_value.simps)

lemma merge_arrays: "merge_value (JArray ss) (JArray ds) = Inr (JArray (ds @ ss))"
  by (simp add: merge_value.simps)

text \<open>The elements a configuration file contributes to the array at a key.\<close>

definition array_at :: "string \<Rightarrow> (string \<times> json) list \<Rightarrow> json list" where
  "array_at k es = (case map_of es k of Some (JArray xs) \<Rightarrow> xs | _ \<Rightarrow> [])"

definition array_or_absent :: "string \<Rightarrow> (string \<times> json) list \<Rightarrow> bool" where
  "array_or_absent k es \<longleftrightarrow> map_of es k = None \<or> (\<exists>xs. map_of es k = Some (JArray xs))"

definition appended :: "string \<Rightarrow> (string \<times> json) list list \<Rightarrow> json option" where
  "appended k docs =
     (if list_all (\<lambda>es. map_of es k = None) docs then None else Some (JArray (concat (map (array_at k) docs))))"

lemma merge_entries_appended:
  assumes "merge_entries ss ds = Inr es" and "distinct (map fst ss)" and "array_or_absent k ss"
    and "map_of ds k = appended k docs"
  shows "map_of es k = appended k (docs @ [ss])"
proof (cases "map_of ss k")
  case None
  with merge_entries_lookup [OF assms(1,2), of k] assms(4) show ?thesis by (simp add: appended_def array_at_def)
next
  case (Some v)
  with assms(3) obtain xs where v: "v = JArray xs" by (auto simp: array_or_absent_def)
  show ?thesis
  proof (cases "map_of ds k")
    case None
    with assms(4) have "list_all (\<lambda>es. map_of es k = None) docs" by (simp add: appended_def split: if_splits)
    then have "concat (map (array_at k) docs) = []" by (auto simp: list_all_iff array_at_def)
    with merge_entries_lookup [OF assms(1,2), of k] Some None v show ?thesis by (simp add: appended_def array_at_def)
  next
    case d: (Some d)
    with assms(4) have "d = JArray (concat (map (array_at k) docs))" by (simp add: appended_def split: if_splits)
    with merge_entries_lookup [OF assms(1,2), of k] Some d v show ?thesis
      by (simp add: merge_arrays appended_def array_at_def)
  qed
qed

lemma merge_steps_appended:
  assumes "\<forall>p \<in> set paths. \<exists>content. cf_read fs p = Inr content \<and> parse content = Some (JObject (doc p))
      \<and> distinct (map fst (doc p)) \<and> array_or_absent k (doc p)"
    and "try_fold (merge_step fs parse) None paths = Inr merged" and "paths \<noteq> []"
  shows "\<exists>es. merged = Some (JObject es) \<and> map_of es k = appended k (map doc paths)"
  using assms
proof (induction paths arbitrary: merged rule: rev_induct)
  case (snoc p paths)
  from snoc.prems(1) obtain content where c: "cf_read fs p = Inr content" "parse content = Some (JObject (doc p))"
    "distinct (map fst (doc p))" "array_or_absent k (doc p)" by auto
  from snoc.prems(2) obtain m where m: "try_fold (merge_step fs parse) None paths = Inr m"
    "merge_step fs parse m p = Inr merged" by (auto simp: try_fold_append)
  show ?case
  proof (cases "paths = []")
    case True
    with m c have "merged = Some (JObject (doc p))" by (simp add: merge_step_def)
    with True c(4) show ?thesis
      by (auto simp: appended_def array_at_def array_or_absent_def)
  next
    case False
    with snoc.IH [OF _ m(1)] snoc.prems(1) obtain ds where ds: "m = Some (JObject ds)"
      "map_of ds k = appended k (map doc paths)" by auto
    with m(2) c obtain es where "merged = Some (JObject es)" "merge_entries (doc p) ds = Inr es"
      by (auto simp: merge_step_def merge_objects)
    with merge_entries_appended [OF _ c(3,4) ds(2)] show ?thesis by simp
  qed
qed simp

section \<open>Properties\<close>

text \<open>Configuration files are merged in the order of their paths. When every file is an object, what
  the program loads has at each key that holds an array (or nothing) in all files the concatenation of
  these arrays, in the order of the paths; a key that no file has stays absent.\<close>

theorem load_appends_arrays:
  assumes "load_config fs parse decode src = Inr (c, paths)"
    and "\<forall>p \<in> set paths. \<exists>content. cf_read fs p = Inr content \<and> parse content = Some (JObject (doc p))
      \<and> distinct (map fst (doc p)) \<and> (map_of (doc p) k = None \<or> (\<exists>xs. map_of (doc p) k = Some (JArray xs)))"
  shows "sorted (map path_components paths) \<and> (\<exists>es. decode (JObject es) = Some c
    \<and> map_of es k = (if \<forall>p \<in> set paths. map_of (doc p) k = None then None
        else Some (JArray (concat (map (\<lambda>p. case map_of (doc p) k of Some (JArray xs) \<Rightarrow> xs | _ \<Rightarrow> []) paths)))))"
proof -
  from assms(1) obtain merged where ps: "collect_paths fs src = Inr paths" "paths \<noteq> []"
    and m: "try_fold (merge_step fs parse) None paths = Inr merged" "Option.bind merged decode = Some c"
    by (auto simp: load_config_def)
  from ps(1) have "sorted (map path_components paths)" by (auto simp: collect_paths_def)
  moreover from assms(2) have "\<forall>p \<in> set paths. \<exists>content. cf_read fs p = Inr content \<and> parse content = Some (JObject (doc p))
      \<and> distinct (map fst (doc p)) \<and> array_or_absent k (doc p)" by (simp add: array_or_absent_def)
  from merge_steps_appended [OF this m(1) ps(2)] obtain es where
    es: "merged = Some (JObject es)" "map_of es k = appended k (map doc paths)" by blast
  have "appended k (map doc paths) = (if \<forall>p \<in> set paths. map_of (doc p) k = None then None
      else Some (JArray (concat (map (\<lambda>p. case map_of (doc p) k of Some (JArray xs) \<Rightarrow> xs | _ \<Rightarrow> []) paths))))"
    by (simp add: appended_def list_all_iff array_at_def comp_def)
  with es m(2) have "decode (JObject es) = Some c \<and> map_of es k = (if \<forall>p \<in> set paths. map_of (doc p) k = None then None
      else Some (JArray (concat (map (\<lambda>p. case map_of (doc p) k of Some (JArray xs) \<Rightarrow> xs | _ \<Rightarrow> []) paths))))"
    by simp
  ultimately show ?thesis by blast
qed

theorem load_appends_arrays_witness:
  "\<exists>c. load_config \<lparr>cf_entries = \<lambda>_. Inl (), cf_read = Inr\<rparr>
      (\<lambda>s. Some (JObject [(''in'', JArray [JString s])])) Some \<lparr>files = [''b'', ''a''], directories = []\<rparr> = Inr (c, [''a'', ''b''])
    \<and> (\<exists>es. c = JObject es \<and> map_of es ''in'' = Some (JArray [JString ''a'', JString ''b'']))"
proof -
  let ?fs = "\<lparr>cf_entries = \<lambda>_. Inl (), cf_read = Inr\<rparr> :: unit config_files"
  let ?doc = "\<lambda>s :: string. [(''in'', JArray [JString s])]"
  let ?parse = "\<lambda>s. Some (JObject (?doc s))"
  let ?src = "\<lparr>files = [''b'', ''a''], directories = []\<rparr>"
  have comps: "path_components ''a'' = [(3, ''a'')]" "path_components ''b'' = [(3, ''b'')]" by code_simp+
  have order: "\<not> [(3 :: nat, ''b'')] \<le> [(3, ''a'')]" by code_simp
  have "collect_paths ?fs ?src = (Inr [''a'', ''b''] :: unit load_error + _)"
    using order by (simp add: collect_paths_def comps)
  moreover have "merge_value (JObject (?doc t)) (JObject (?doc s)) = Inr (JObject [(''in'', JArray [JString s, JString t])])" for s t
    by (simp add: merge_objects merge_arrays object_insert_def)
  ultimately obtain c where c: "load_config ?fs ?parse Some ?src = Inr (c, [''a'', ''b''])"
    by (simp add: load_config_def merge_step_def)
  have "\<forall>p \<in> set [''a'', ''b'']. \<exists>content. cf_read ?fs p = Inr content \<and> ?parse content = Some (JObject (?doc p))
      \<and> distinct (map fst (?doc p)) \<and> (map_of (?doc p) ''in'' = None \<or> (\<exists>xs. map_of (?doc p) ''in'' = Some (JArray xs)))"
    by simp
  from load_appends_arrays [OF c this] c show ?thesis by auto
qed

end
