(* ===== verification/Http_Message.thy ===== *)
theory Http_Message
  imports Rust_Text
begin

text \<open>
  The HTTP messages of the rule-set client (\<open>rule_set_fetcher.rs\<close> of the command line): how a
  request is written, and how the bytes a server sent until it closed the connection become a
  status, headers and a body, with the three framings of a body.
\<close>

section \<open>Limits and errors\<close>

definition MAX_RESPONSE_SIZE :: nat where
  "MAX_RESPONSE_SIZE = 128 * 1024 * 1024"

definition USIZE_MAX :: nat where
  "USIZE_MAX = 2 ^ 64 - 1"

lemma MAX_RESPONSE_SIZE_less: "MAX_RESPONSE_SIZE + 2 \<le> USIZE_MAX"
  by (simp add: MAX_RESPONSE_SIZE_def USIZE_MAX_def)

datatype http_error =
    InvalidMethod | InvalidHeader
  | ConnectFailed string | TlsFailed string | TransferFailed string
  | ResponseTooLarge | NoHeaderEnd | HeadersTooLarge | HeadersNotUtf8
  | MissingStatusLine | MissingVersion | UnsupportedVersion | MissingStatus | BadStatus
  | BadHeaderLine string | BadContentLength | TruncatedBody
  | InvalidChunked | ChunkLineNotUtf8 | BadChunkSize | TruncatedChunked
  | TimedOut
  | SchemeUnsupported | HostEmpty | UserinfoUnsupported | BadBrackets | NeedsBrackets | BadUrlPort
  | BadTargetCharacter | BadLocation | MissingLocation | TooManyRedirects | BadEtag
  | HttpStatus u16
  | Panicked

section \<open>Chunked bodies\<close>

text \<open>
  \<open>decode_chunked\<close>. \<open>size + 2\<close> is an addition of \<open>usize\<close>: where it overflows the thread panics
  (a build without overflow checks panics at the slice \<open>size..size + 2\<close> that follows).
\<close>

definition CRLF :: bytes where
  "CRLF = [13, 10]"

lemma CRLF_simps [simp]: "CRLF \<noteq> []" "hd CRLF = 13" "length CRLF = 2"
  by (simp_all add: CRLF_def)

lemma CRLF_as_bytes: "as_bytes crlf = CRLF"
  by (simp add: CRLF_def crlf_def as_bytes_def)

function decode_chunks :: "bytes \<Rightarrow> bytes \<Rightarrow> http_error + bytes" where
  "decode_chunks out remaining =
     (case find_sub CRLF remaining of
        None \<Rightarrow> Inl InvalidChunked
      | Some line_end \<Rightarrow>
          and_then (from_utf8 ChunkLineNotUtf8 (take line_end remaining)) (\<lambda>line.
          and_then (ok_or BadChunkSize (parse_uint 16 USIZE_MAX (hd (split_on (CHR '';'') line)))) (\<lambda>size.
          let rest = drop (line_end + 2) remaining in
          if size = 0 then Inr out
          else if USIZE_MAX < size + 2 then Inl Panicked
          else
            and_then (ensure (size + 2 \<le> length rest \<and> take 2 (drop size rest) = CRLF) TruncatedChunked) (\<lambda>_.
            and_then (ensure (min (length out + size) USIZE_MAX \<le> MAX_RESPONSE_SIZE) ResponseTooLarge) (\<lambda>_.
            decode_chunks (out @ take size rest) (drop (size + 2) rest))))))"
  by pat_completeness auto
termination
proof (relation "measure (\<lambda>(_, r). length r)")
  fix out remaining :: bytes and line_end line size rest u v
  assume "find_sub CRLF remaining = Some line_end" and "rest = drop (line_end + 2) remaining"
  with find_sub_shrinks [of CRLF remaining line_end]
  show "((out @ take size rest, drop (size + 2) rest), out, remaining)
      \<in> measure (\<lambda>(_, r). length r)"
    by simp
qed simp

declare decode_chunks.simps [simp del]

definition decode_chunked :: "bytes \<Rightarrow> http_error + bytes" where
  "decode_chunked input = decode_chunks [] input"

section \<open>Responses\<close>

record http_response =
  hr_status :: u16
  hr_headers :: "string \<rightharpoonup> string"
  hr_body :: bytes

text \<open>The loop over the header lines: a later header of the same name replaces an earlier one.\<close>

definition insert_header :: "(string \<rightharpoonup> string) \<Rightarrow> string \<Rightarrow> http_error + (string \<rightharpoonup> string)" where
  "insert_header headers line =
     (case split_once (CHR '':'') line of
        None \<Rightarrow> Inl (BadHeaderLine line)
      | Some (name, value) \<Rightarrow> Inr (headers(to_ascii_lowercase (trim name) \<mapsto> trim value)))"

definition read_status_line :: "string \<Rightarrow> http_error + u16" where
  "read_status_line line =
     (case split_whitespace line of
        [] \<Rightarrow> Inl MissingVersion
      | version # parts \<Rightarrow>
          and_then (ensure (prefix ''HTTP/1.'' version) UnsupportedVersion) (\<lambda>_.
          case parts of
            [] \<Rightarrow> Inl MissingStatus
          | status # _ \<Rightarrow> map_err (\<lambda>_. BadStatus) (ok_or () (map_option of_nat (parse_uint 10 65535 status)))))"

definition frame_body :: "bool \<Rightarrow> (string \<rightharpoonup> string) \<Rightarrow> bytes \<Rightarrow> http_error + bytes" where
  "frame_body head_request headers body =
     (if head_request then Inr []
      else if (case headers ''transfer-encoding'' of
                 None \<Rightarrow> False
               | Some v \<Rightarrow> list_ex (\<lambda>item. trim item = ''chunked'') (split_on (CHR '','') v))
      then decode_chunked body
      else case headers ''content-length'' of
        Some l \<Rightarrow>
          and_then (ok_or BadContentLength (parse_uint 10 USIZE_MAX l)) (\<lambda>n.
          and_then (ensure (n \<le> length body) TruncatedBody) (\<lambda>_. Inr (take n body)))
      | None \<Rightarrow> Inr body)"

definition parse_response :: "bytes \<Rightarrow> bool \<Rightarrow> http_error + http_response" where
  "parse_response bs head_request =
     and_then (ok_or NoHeaderEnd (find_sub (CRLF @ CRLF) bs)) (\<lambda>header_end.
     and_then (ensure (header_end \<le> 64 * 1024) HeadersTooLarge) (\<lambda>_.
     let body = drop (header_end + 4) bs in
     and_then (from_utf8 HeadersNotUtf8 (take header_end bs)) (\<lambda>header_text.
     case split_crlf header_text of
       [] \<Rightarrow> Inl MissingStatusLine
     | status_line # lines \<Rightarrow>
         and_then (read_status_line status_line) (\<lambda>status.
         and_then (try_fold insert_header Map.empty lines) (\<lambda>headers.
         and_then (frame_body head_request headers body) (\<lambda>content.
         Inr \<lparr>hr_status = status, hr_headers = headers, hr_body = content\<rparr>))))))"

definition response_header :: "http_response \<Rightarrow> string \<Rightarrow> string option" where
  "response_header r name = hr_headers r (to_ascii_lowercase name)"

section \<open>Requests\<close>

record parsed_url =
  pu_https :: bool
  pu_scheme :: string
  pu_authority :: string
  pu_host :: string
  pu_port :: u16
  pu_host_header :: string
  pu_target :: string

type_synonym header_list = "(string \<times> string) list"

definition is_ascii_uppercase :: "char \<Rightarrow> bool" where
  "is_ascii_uppercase c \<longleftrightarrow> (65 :: nat) \<le> of_char c \<and> (of_char c :: nat) \<le> 90"

definition is_ascii_alphanumeric :: "char \<Rightarrow> bool" where
  "is_ascii_alphanumeric c \<longleftrightarrow> is_ascii_uppercase c
     \<or> (97 :: nat) \<le> of_char c \<and> (of_char c :: nat) \<le> 122
     \<or> (48 :: nat) \<le> of_char c \<and> (of_char c :: nat) \<le> 57"

definition no_crlf :: "string \<Rightarrow> bool" where
  "no_crlf s \<longleftrightarrow> list_all (\<lambda>c. c \<noteq> CHR 0x0D \<and> c \<noteq> CHR 0x0A) s"

definition method_ok :: "string \<Rightarrow> bool" where
  "method_ok m \<longleftrightarrow> m \<noteq> [] \<and> list_all (\<lambda>c. is_ascii_uppercase c \<or> c = CHR ''-'') m"

definition header_ok :: "string \<times> string \<Rightarrow> bool" where
  "header_ok h \<longleftrightarrow> fst h \<noteq> [] \<and> list_all (\<lambda>c. is_ascii_alphanumeric c \<or> c = CHR ''-'') (fst h)
     \<and> no_crlf (snd h)"

definition has_header :: "header_list \<Rightarrow> string \<Rightarrow> bool" where
  "has_header hs name \<longleftrightarrow> list_ex (\<lambda>(n, v). eq_ignore_ascii_case n name) hs"

text \<open>
  The head of the request. The version of the package is a constant of the build; it is that of
  the workspace in \<open>Cargo.toml\<close>.
\<close>

definition CARGO_PKG_VERSION :: string where
  "CARGO_PKG_VERSION = ''1.1.0''"

definition request_head :: "parsed_url \<Rightarrow> string \<Rightarrow> header_list \<Rightarrow> bytes \<Rightarrow> string" where
  "request_head url meth hs body =
     meth @ '' '' @ pu_target url @ '' HTTP/1.1'' @ crlf @ ''Host: '' @ pu_host_header url @ crlf
     @ ''Connection: close'' @ crlf
     @ (if has_header hs ''user-agent'' then [] else ''User-Agent: sing-box-rs/'' @ CARGO_PKG_VERSION @ crlf)
     @ concat (map (\<lambda>(name, value). name @ '': '' @ value @ crlf) hs)
     @ (if (body \<noteq> [] \<or> meth \<in> {''POST'', ''PUT'', ''PATCH''}) \<and> \<not> has_header hs ''content-length''
        then ''Content-Length: '' @ show_nat (length body) @ crlf else [])
     @ crlf"

text \<open>
  \<open>HttpClient::request\<close>. Connecting, the TLS handshake, and the exchange on the stream are the
  operating system and rustls: \<open>connect\<close> says whether a connection to the server is made, and
  \<open>exchange\<close> what the server sends back on it, up to its end or an error of the transport.
\<close>

record http_net =
  net_connect :: "bool \<Rightarrow> string \<Rightarrow> u16 \<Rightarrow> http_error + unit"
  net_exchange :: "bool \<Rightarrow> string \<Rightarrow> u16 \<Rightarrow> bytes \<Rightarrow> http_error + bytes"

definition http_request_to ::
    "http_net \<Rightarrow> parsed_url \<Rightarrow> string \<Rightarrow> header_list \<Rightarrow> bytes \<Rightarrow> http_error + http_response" where
  "http_request_to net url meth hs body =
     and_then (ensure (method_ok meth) InvalidMethod) (\<lambda>_.
     and_then (ensure (list_all header_ok hs) InvalidHeader) (\<lambda>_.
     and_then (net_connect net (pu_https url) (pu_host url) (pu_port url)) (\<lambda>_.
     and_then (net_exchange net (pu_https url) (pu_host url) (pu_port url)
         (as_bytes (request_head url meth hs body) @ body)) (\<lambda>sent.
     let bs = take (MAX_RESPONSE_SIZE + 1) sent in
     and_then (ensure (length bs \<le> MAX_RESPONSE_SIZE) ResponseTooLarge) (\<lambda>_.
     parse_response bs (meth = ''HEAD''))))))"

section \<open>Framing is undone\<close>

text \<open>
  What a server writes for one chunk, with a chunk extension, and for a whole chunked body. An
  extension is empty or begins with a semicolon.
\<close>

definition put_chunk :: "string \<times> bytes \<Rightarrow> bytes" where
  "put_chunk = (\<lambda>(ext, c). as_bytes (show_hex (length c) @ ext) @ CRLF @ c @ CRLF)"

definition put_chunks :: "(string \<times> bytes) list \<Rightarrow> bytes" where
  "put_chunks cs = concat (map put_chunk cs) @ [48] @ CRLF"

definition extension_ok :: "string \<Rightarrow> bool" where
  "extension_ok ext \<longleftrightarrow> is_str ext \<and> CHR 0x0D \<notin> set ext \<and> (ext = [] \<or> hd ext = CHR '';'')"

lemma as_bytes_CR: "13 \<in> set (as_bytes s) \<longleftrightarrow> CHR 0x0D \<in> set s"
proof -
  have "13 = (of_nat (of_char c) :: u8) \<longleftrightarrow> c = CHR 0x0D" for c
  proof
    assume "13 = (of_nat (of_char c) :: u8)"
    then have "unat (of_nat (of_char c) :: u8) = 13" by simp
    then have "(of_char c :: nat) = 13" using of_char_less_256 [of c] by (simp add: unat_of_nat)
    then have "of_char c = (of_char (CHR 0x0D) :: nat)" by simp
    then show "c = CHR 0x0D" by (simp only: of_char_eq_iff)
  qed simp
  then show ?thesis by (force simp: as_bytes_def)
qed

lemma find_CRLF_line: "CHR 0x0D \<notin> set s \<Longrightarrow> find_sub CRLF (as_bytes s @ CRLF @ rest) = Some (length s)"
  using find_sub_append [of CRLF "as_bytes s" rest] as_bytes_CR [of s] by (simp add: as_bytes_def)

lemma chunk_size_text:
  "extension_ok ext \<Longrightarrow> hd (split_on (CHR '';'') (show_hex n @ ext)) = show_hex n"
proof -
  assume ext: "extension_ok ext"
  have s: "CHR '';'' \<notin> set (show_hex n)" using show_hex_graphic by blast
  have "split_on c (a @ c # b) = a # split_on c b" if "c \<notin> set a" for a b c
    using that by (induction a) auto
  with ext s show ?thesis by (cases ext) (auto simp: extension_ok_def split_on_single)
qed

lemma chunk_line:
  assumes "extension_ok ext"
  shows "find_sub CRLF (as_bytes (show_hex n @ ext) @ CRLF @ rest) = Some (length (show_hex n @ ext))"
    and "from_utf8 e (as_bytes (show_hex n @ ext)) = Inr (show_hex n @ ext)"
proof -
  have "CHR 0x0D \<notin> set (show_hex n @ ext)"
    using assms show_hex_graphic by (auto simp: extension_ok_def)
  then show "find_sub CRLF (as_bytes (show_hex n @ ext) @ CRLF @ rest) = Some (length (show_hex n @ ext))"
    by (rule find_CRLF_line)
  have "is_str (show_hex n @ ext)"
    using assms is_str_append [OF is_ascii_is_str [OF show_hex_is_ascii]] by (simp add: extension_ok_def)
  then show "from_utf8 e (as_bytes (show_hex n @ ext)) = Inr (show_hex n @ ext)" by (rule from_utf8_as_bytes)
qed

lemma decode_chunks_put:
  assumes "extension_ok ext" and "c \<noteq> []" and "length out + length c \<le> MAX_RESPONSE_SIZE"
  shows "decode_chunks out (put_chunk (ext, c) @ rest) = decode_chunks (out @ c) rest"
proof -
  have n: "length c \<le> USIZE_MAX" "\<not> USIZE_MAX < length c + 2" "min (length out + length c) USIZE_MAX \<le> MAX_RESPONSE_SIZE"
    using assms(3) MAX_RESPONSE_SIZE_less by simp_all
  let ?line = "show_hex (length c) @ ext"
  have "put_chunk (ext, c) @ rest = as_bytes ?line @ CRLF @ c @ CRLF @ rest" by (simp add: put_chunk_def)
  moreover have "drop (length ?line + 2) (as_bytes ?line @ CRLF @ c @ CRLF @ rest) = c @ CRLF @ rest"
    by simp
  moreover have "decode_chunks out (as_bytes ?line @ CRLF @ c @ CRLF @ rest) = decode_chunks (out @ c) rest"
    by (subst decode_chunks.simps)
      (use assms n in \<open>simp add: chunk_line chunk_size_text del: as_bytes_append append_assoc\<close>)
  ultimately show ?thesis by simp
qed

lemma decode_chunks_last: "decode_chunks out ([48] @ CRLF @ rest) = Inr out"
proof -
  have zero: "as_bytes ''0'' = [48]" by (simp add: as_bytes_def)
  have "find_sub CRLF ([48] @ CRLF @ rest) = Some 1"
    using find_CRLF_line [of "''0''" rest] by (simp only: zero) simp
  moreover have "from_utf8 ChunkLineNotUtf8 [48] = Inr ''0''"
    using from_utf8_as_bytes [OF is_ascii_is_str, of "''0''" ChunkLineNotUtf8] by (simp only: zero) simp
  moreover have "parse_uint 16 USIZE_MAX ''0'' = Some 0"
    using parse_uint_show_hex [of 0 USIZE_MAX] by (simp add: show_hex.simps digit_char_0)
  ultimately show ?thesis by (subst decode_chunks.simps) simp
qed

lemma decode_chunks_all:
  assumes "\<forall>(ext, c) \<in> set cs. extension_ok ext \<and> c \<noteq> []"
    and "length out + length (concat (map snd cs)) \<le> MAX_RESPONSE_SIZE"
  shows "decode_chunks out (put_chunks cs @ rest) = Inr (out @ concat (map snd cs))"
  using assms
proof (induction cs arbitrary: out)
  case Nil
  show ?case using decode_chunks_last [of out rest] by (simp add: put_chunks_def)
next
  case (Cons x cs)
  obtain ext c where x: "x = (ext, c)" by force
  have "decode_chunks out (put_chunks (x # cs) @ rest) = decode_chunks (out @ c) (put_chunks cs @ rest)"
    using Cons.prems decode_chunks_put [of ext c out "put_chunks cs @ rest"] x by (simp add: put_chunks_def)
  also have "\<dots> = Inr ((out @ c) @ concat (map snd cs))"
    using Cons.prems x by (intro Cons.IH) simp_all
  finally show ?case using x by simp
qed

lemma decode_chunks_bound:
  "decode_chunks out remaining = Inr body \<Longrightarrow> length out \<le> MAX_RESPONSE_SIZE \<Longrightarrow>
    length body \<le> MAX_RESPONSE_SIZE \<and> length body \<le> length out + length remaining"
proof (induction out remaining rule: decode_chunks.induct)
  case (1 out remaining)
  from "1.prems"(1) obtain line_end line size where
    line: "find_sub CRLF remaining = Some line_end"
      "from_utf8 ChunkLineNotUtf8 (take line_end remaining) = Inr line"
      "parse_uint 16 USIZE_MAX (hd (split_on (CHR '';'') line)) = Some size"
    by (subst (asm) decode_chunks.simps) (auto split: option.splits)
  let ?rest = "drop (line_end + 2) remaining"
  show ?case
  proof (cases "size = 0")
    case True
    with "1.prems" line show ?thesis by (subst (asm) decode_chunks.simps) simp
  next
    case False
    with "1.prems"(1) line have
      ok: "size + 2 \<le> length ?rest" "take 2 (drop size ?rest) = CRLF" "\<not> USIZE_MAX < size + 2"
        "min (length out + size) USIZE_MAX \<le> MAX_RESPONSE_SIZE"
        "decode_chunks (out @ take size ?rest) (drop (size + 2) ?rest) = Inr body"
      by (subst (asm) decode_chunks.simps; simp add: Let_def split: if_splits)+
    from ok(4) MAX_RESPONSE_SIZE_less have "length out + size \<le> MAX_RESPONSE_SIZE" by linarith
    with ok "1.IH" [OF line(1) _ _ refl False] line False
    have "length body \<le> MAX_RESPONSE_SIZE \<and> length body \<le> length (out @ take size ?rest) + length (drop (size + 2) ?rest)"
      by simp
    with ok(1) show ?thesis by auto
  qed
qed

section \<open>A request head is a list of lines\<close>

lemma split_crlf_concat:
  "\<forall>l \<in> set ls. CHR 0x0D \<notin> set l \<Longrightarrow> split_crlf (concat (map (\<lambda>l. l @ crlf) ls) @ s) = ls @ split_crlf s"
  by (induction ls) (simp_all add: split_crlf_line)

definition request_lines :: "parsed_url \<Rightarrow> string \<Rightarrow> header_list \<Rightarrow> bytes \<Rightarrow> string list" where
  "request_lines url meth hs body =
     [meth @ '' '' @ pu_target url @ '' HTTP/1.1'', ''Host: '' @ pu_host_header url, ''Connection: close'']
     @ (if has_header hs ''user-agent'' then [] else [''User-Agent: sing-box-rs/'' @ CARGO_PKG_VERSION])
     @ map (\<lambda>(name, value). name @ '': '' @ value) hs
     @ (if (body \<noteq> [] \<or> meth \<in> {''POST'', ''PUT'', ''PATCH''}) \<and> \<not> has_header hs ''content-length''
        then [''Content-Length: '' @ show_nat (length body)] else [])"

lemma request_head_lines:
  "request_head url meth hs body = concat (map (\<lambda>l. l @ crlf) (request_lines url meth hs body @ [[]]))"
  by (simp add: request_head_def request_lines_def comp_def case_prod_unfold)

lemma no_crlf_CR: "no_crlf s \<Longrightarrow> CHR 0x0D \<notin> set s"
  by (auto simp: no_crlf_def list_all_iff)

lemma token_CR: "list_all (\<lambda>c. is_ascii_alphanumeric c \<or> c = CHR ''-'') s \<Longrightarrow> CHR 0x0D \<notin> set s"
  by (auto simp: list_all_iff is_ascii_alphanumeric_def is_ascii_uppercase_def)

lemma method_CR: "method_ok m \<Longrightarrow> CHR 0x0D \<notin> set m"
  by (auto simp: method_ok_def list_all_iff is_ascii_uppercase_def)

lemma request_lines_CR:
  assumes "method_ok meth" and "list_all header_ok hs" and "no_crlf (pu_target url)"
    and "no_crlf (pu_host_header url)"
  shows "\<forall>l \<in> set (request_lines url meth hs body). CHR 0x0D \<notin> set l"
proof -
  have "CHR 0x0D \<notin> set (show_nat n)" for n by (rule show_nat_no_char) simp
  moreover have "\<forall>(name, value) \<in> set hs. CHR 0x0D \<notin> set name \<and> CHR 0x0D \<notin> set value"
    using assms(2) by (auto simp: list_all_iff header_ok_def no_crlf_CR token_CR dest: token_CR)
  ultimately show ?thesis
    using assms by (auto simp: request_lines_def CARGO_PKG_VERSION_def no_crlf_CR method_CR)
qed

lemma request_head_split:
  assumes "method_ok meth" and "list_all header_ok hs" and "no_crlf (pu_target url)"
    and "no_crlf (pu_host_header url)"
  shows "split_crlf (request_head url meth hs body) = request_lines url meth hs body @ [[], []]"
  using split_crlf_concat [of "request_lines url meth hs body @ [[]]" "[]"] request_lines_CR [OF assms]
  by (simp add: request_head_lines split_crlf_last)

section \<open>A response is read as it was written\<close>

definition header_line :: "string \<times> string \<Rightarrow> string" where
  "header_line = (\<lambda>(name, value). name @ '': '' @ value)"

definition response_lines :: "nat \<Rightarrow> string \<Rightarrow> header_list \<Rightarrow> string list" where
  "response_lines status reason hs = (''HTTP/1.1 '' @ show_nat status @ '' '' @ reason) # map header_line hs"

definition put_head :: "nat \<Rightarrow> string \<Rightarrow> header_list \<Rightarrow> string" where
  "put_head status reason hs = join_sep crlf (response_lines status reason hs)"

definition header_map :: "header_list \<Rightarrow> string \<rightharpoonup> string" where
  "header_map hs = foldl (\<lambda>m (name, value). m(to_ascii_lowercase name \<mapsto> value)) Map.empty hs"

definition line_text :: "string \<Rightarrow> bool" where
  "line_text s \<longleftrightarrow> is_str s \<and> CHR 0x0D \<notin> set s"

definition header_wf :: "string \<times> string \<Rightarrow> bool" where
  "header_wf h \<longleftrightarrow> line_text (fst h) \<and> CHR '':'' \<notin> set (fst h) \<and> trim (fst h) = fst h
     \<and> line_text (snd h) \<and> trim (snd h) = snd h"

definition head_wf :: "nat \<Rightarrow> string \<Rightarrow> header_list \<Rightarrow> bool" where
  "head_wf status reason hs \<longleftrightarrow> status \<le> 65535 \<and> line_text reason \<and> list_all header_wf hs
     \<and> length (put_head status reason hs) \<le> 64 * 1024"

text \<open>The bytes after the head, for the three ways a server can delimit a body.\<close>

definition framing :: "(string \<rightharpoonup> string) \<Rightarrow> bytes \<Rightarrow> bytes \<Rightarrow> bool" where
  "framing headers content wire \<longleftrightarrow>
     headers ''transfer-encoding'' = None \<and> headers ''content-length'' = None \<and> wire = content
   \<or> headers ''transfer-encoding'' = None \<and> headers ''content-length'' = Some (show_nat (length content))
       \<and> length content \<le> USIZE_MAX \<and> prefix content wire
   \<or> headers ''transfer-encoding'' = Some ''chunked'' \<and> length content \<le> MAX_RESPONSE_SIZE
       \<and> (\<exists>cs rest. (\<forall>(ext, c) \<in> set cs. extension_ok ext \<and> c \<noteq> []) \<and> content = concat (map snd cs)
            \<and> wire = put_chunks cs @ rest)"

lemma frame_body_framing: "framing headers content wire \<Longrightarrow> frame_body False headers wire = Inr content"
proof -
  have te: "list_ex (\<lambda>item. trim item = ''chunked'') (split_on (CHR '','') ''chunked'')"
    by (simp add: trim_graphic graphic_def)
  assume "framing headers content wire"
  then show ?thesis
    using te
    by (auto simp: framing_def frame_body_def decode_chunked_def prefix_def
        decode_chunks_all [where out = "[]", simplified])
qed

lemma find_sub_past:
  "p \<noteq> [] \<Longrightarrow> hd p \<notin> set xs \<Longrightarrow> find_sub p (xs @ ys) = map_option ((+) (length xs)) (find_sub p ys)"
proof (induction xs)
  case Nil
  show ?case by (simp add: option.map_ident_strong)
next
  case (Cons x xs)
  then have "\<not> prefix p (x # xs @ ys)" by (cases p) auto
  with Cons show ?case by (simp add: option.map_comp comp_def)
qed

lemma find_blank_line:
  assumes "ls \<noteq> []" and "\<forall>l \<in> set ls. l \<noteq> [] \<and> CHR 0x0D \<notin> set l"
  shows "find_sub (CRLF @ CRLF) (as_bytes (join_sep crlf ls) @ CRLF @ CRLF @ rest)
    = Some (length (join_sep crlf ls))"
  using assms
proof (induction ls rule: list_nonempty_induct)
  case (single l)
  with find_sub_append [of "CRLF @ CRLF" "as_bytes l" rest] as_bytes_CR [of l] show ?case by simp
next
  case (cons l ls)
  let ?j = "join_sep crlf ls"
  obtain c cs where c: "?j = c # cs" and "c \<noteq> CHR 0x0D"
    using cons by (cases ls; cases "hd ls") (auto simp: join_sep_Cons)
  then have "13 \<notin> set (as_bytes [c])" using as_bytes_CR [of "[c]"] by auto
  then have b: "of_nat (of_char c) \<noteq> (13 :: u8)" by (simp add: as_bytes_def)
  have l: "13 \<notin> set (as_bytes l)" using cons.prems as_bytes_CR [of l] by simp
  have "as_bytes (join_sep crlf (l # ls)) = as_bytes l @ CRLF @ as_bytes ?j"
    using cons.hyps by (simp add: join_sep_Cons CRLF_as_bytes)
  moreover have "find_sub (CRLF @ CRLF) (CRLF @ as_bytes ?j @ CRLF @ CRLF @ rest) = Some (2 + length ?j)"
    using cons.IH cons.prems b by (simp add: c as_bytes_def CRLF_def)
  ultimately show ?case
    using find_sub_past [of "CRLF @ CRLF" "as_bytes l"] l cons.hyps by (simp add: join_sep_Cons)
qed

lemma insert_header_line:
  "header_wf h \<Longrightarrow> insert_header m (header_line h) = Inr (m(to_ascii_lowercase (fst h) \<mapsto> snd h))"
  by (cases h) (auto simp: header_wf_def insert_header_def header_line_def trim_def)

lemma insert_header_lines:
  "list_all header_wf hs \<Longrightarrow> try_fold insert_header m (map header_line hs)
    = Inr (foldl (\<lambda>m (name, value). m(to_ascii_lowercase name \<mapsto> value)) m hs)"
  by (induction hs arbitrary: m) (simp_all add: insert_header_line case_prod_unfold)

lemma read_status_line_put:
  "status \<le> 65535 \<Longrightarrow> read_status_line (''HTTP/1.1 '' @ show_nat status @ '' '' @ reason) = Inr (of_nat status)"
proof -
  assume "status \<le> 65535"
  moreover have "split_whitespace (''HTTP/1.1 '' @ show_nat status @ '' '' @ reason)
      = ''HTTP/1.1'' # show_nat status # split_whitespace reason"
    using split_whitespace_word [of "''HTTP/1.1''" "show_nat status @ '' '' @ reason"]
      split_whitespace_word [of "show_nat status" reason] show_nat_graphic [of status]
    by (simp add: graphic_def)
  ultimately show ?thesis by (simp add: read_status_line_def)
qed

lemma response_lines_text:
  "line_text reason \<Longrightarrow> list_all header_wf hs \<Longrightarrow> l \<in> set (response_lines status reason hs) \<Longrightarrow> line_text l \<and> l \<noteq> []"
proof -
  have "line_text (show_nat status)"
    by (auto simp: line_text_def is_ascii_is_str show_nat_ascii show_nat_no_char)
  moreover have "line_text s" if "s \<in> {''HTTP/1.1 '', '' '', '': ''}" for s
    using that by (auto simp: line_text_def intro: is_ascii_is_str)
  moreover have "line_text (s @ t)" if "line_text s" "line_text t" for s t
    using that by (auto simp: line_text_def is_str_append)
  ultimately have cat: "line_text (''HTTP/1.1 '' @ show_nat status @ '' '' @ r)" "line_text (n @ '': '' @ r)"
    if "line_text r" "line_text n" for r n
    using that by (metis insertCI)+
  assume "line_text reason" "list_all header_wf hs" "l \<in> set (response_lines status reason hs)"
  then show ?thesis
    using cat by (auto simp: response_lines_def header_line_def header_wf_def list_all_iff)
qed

lemma join_crlf_is_str: "(\<And>l. l \<in> set ls \<Longrightarrow> is_str l) \<Longrightarrow> is_str (join_sep crlf ls)"
proof (induction ls)
  case (Cons l ls)
  have "is_str crlf" by (rule is_ascii_is_str) (simp add: crlf_def)
  with Cons show ?case by (auto simp: join_sep_Cons intro!: is_str_append)
qed simp

lemma parse_response_put:
  assumes "head_wf status reason hs"
  shows "parse_response (as_bytes (put_head status reason hs) @ CRLF @ CRLF @ wire) head
    = and_then (frame_body head (header_map hs) wire) (\<lambda>content.
        Inr \<lparr>hr_status = of_nat status, hr_headers = header_map hs, hr_body = content\<rparr>)"
proof -
  let ?h = "put_head status reason hs" and ?ls = "response_lines status reason hs"
  have ls: "\<forall>l \<in> set ?ls. line_text l \<and> l \<noteq> []" "?ls \<noteq> []"
    using assms response_lines_text by (auto simp: head_wf_def) (simp add: response_lines_def)
  then have "find_sub (CRLF @ CRLF) (as_bytes ?h @ CRLF @ CRLF @ wire) = Some (length ?h)"
    unfolding put_head_def by (intro find_blank_line) (auto simp: line_text_def)
  moreover have "from_utf8 HeadersNotUtf8 (as_bytes ?h) = Inr ?h"
    using ls by (auto simp: put_head_def line_text_def intro!: from_utf8_as_bytes join_crlf_is_str)
  moreover have "split_crlf ?h = ?ls"
    unfolding put_head_def using ls by (intro split_crlf_join) (auto simp: line_text_def)
  moreover have "drop (length ?h + 4) (as_bytes ?h @ CRLF @ CRLF @ wire) = wire" by simp
  ultimately show ?thesis
    using assms unfolding parse_response_def
    by (simp add: head_wf_def Let_def response_lines_def read_status_line_put [simplified] insert_header_lines
        header_map_def)
qed

section \<open>Properties\<close>

text \<open>C21: a response is read exactly as the server wrote it. Whatever the status, the reason and the
  headers, with a body delimited by the end of the connection, by \<open>Content-Length\<close>, or in chunks of
  any sizes with any extensions, the status, every header (a repeated name keeps its last value)
  and the body are recovered; the answer to a HEAD request has no body.\<close>

theorem response_roundtrip:
  assumes "head_wf status reason hs" and "framing (header_map hs) content wire"
  shows "parse_response (as_bytes (put_head status reason hs) @ CRLF @ CRLF @ wire) head
    = Inr \<lparr>hr_status = of_nat status, hr_headers = header_map hs, hr_body = (if head then [] else content)\<rparr>"
  using parse_response_put [OF assms(1), of wire head] frame_body_framing [OF assms(2)]
  by (cases head) (simp_all add: frame_body_def)

theorem response_roundtrip_witness:
  "parse_response (as_bytes (put_head 200 ''OK'' [(''ETag'', ''v1''), (''Transfer-Encoding'', ''chunked'')])
      @ CRLF @ CRLF @ put_chunks [('';x=1'', [7, 8]), ([], [9])]) False
    = Inr \<lparr>hr_status = 200, hr_headers = [''etag'' \<mapsto> ''v1'', ''transfer-encoding'' \<mapsto> ''chunked''],
        hr_body = [7, 8, 9]\<rparr>"
proof -
  let ?hs = "[(''ETag'', ''v1''), (''Transfer-Encoding'', ''chunked'')]"
  have lower: "to_ascii_lowercase ''ETag'' = ''etag''"
    "to_ascii_lowercase ''Transfer-Encoding'' = ''transfer-encoding''" by code_simp+
  have hm: "header_map ?hs = [''etag'' \<mapsto> ''v1'', ''transfer-encoding'' \<mapsto> ''chunked'']"
    unfolding header_map_def using lower by simp
  have "show_nat 200 = ''200''" by code_simp
  then have "length (put_head 200 ''OK'' ?hs) \<le> 64 * 1024"
    by (simp add: put_head_def response_lines_def header_line_def crlf_def)
  moreover have "list_all header_wf ?hs" "line_text ''OK''"
    by (auto simp: header_wf_def line_text_def trim_graphic graphic_def intro: is_ascii_is_str)
  ultimately have wf: "head_wf 200 ''OK'' ?hs" by (simp add: head_wf_def)
  have "extension_ok '';x=1''" "extension_ok []"
    by (auto simp: extension_ok_def intro: is_ascii_is_str)
  then have "framing (header_map ?hs) [7, 8, 9] (put_chunks [('';x=1'', [7, 8]), ([], [9])])"
    unfolding framing_def hm
    by (intro disjI2) (auto simp: MAX_RESPONSE_SIZE_def intro!: exI [of _ "[('';x=1'', [7, 8]), ([], [9])]"])
  from response_roundtrip [OF wf this, of False] hm show ?thesis by simp
qed

text \<open>A chunked body never grows past 128 MiB nor past what was received, whatever sizes the
  server announces.\<close>

theorem chunked_body_bounded:
  assumes "decode_chunked input = Inr body"
  shows "length body \<le> 128 * 1024 * 1024 \<and> length body \<le> length input"
  using decode_chunks_bound [of "[]" input body] assms
  by (simp add: decode_chunked_def MAX_RESPONSE_SIZE_def)

theorem chunked_body_bounded_witness:
  "decode_chunked (put_chunks [([], [1, 2])]) = Inr [1, 2] \<and> length [1, 2 :: u8] \<le> length (put_chunks [([], [1, 2])])"
proof -
  have "decode_chunked (put_chunks [([], [1, 2])]) = Inr [1, 2]"
    using decode_chunks_all [of "[([], [1, 2])]" "[]" "[]"]
    by (simp add: decode_chunked_def extension_ok_def MAX_RESPONSE_SIZE_def)
  with chunked_body_bounded [OF this] show ?thesis by blast
qed

text \<open>An announced chunk size of \<open>ffffffffffffffff\<close> makes the decoder panic instead of reporting an
  error: the sum of the size and the two bytes of the line end leaves \<open>usize\<close> before the length
  of the response is checked.\<close>

theorem chunk_size_overflow:
  "decode_chunked (as_bytes ''ffffffffffffffff'' @ CRLF @ rest) = Inl Panicked"
proof -
  let ?t = "''ffffffffffffffff''"
  have "is_str ?t" by (rule is_ascii_is_str) simp
  moreover have "parse_uint 16 USIZE_MAX ?t = Some USIZE_MAX"
    by (simp add: parse_uint_def to_digit_def USIZE_MAX_def)
  moreover have "USIZE_MAX \<noteq> 0" "hd (split_on (CHR '';'') ?t) = ?t" by (simp_all add: USIZE_MAX_def)
  moreover have "find_sub CRLF (as_bytes ?t @ CRLF @ rest) = Some 16"
    using find_CRLF_line [of ?t rest] by simp
  moreover have "take 16 (as_bytes ?t @ CRLF @ rest) = as_bytes ?t" by simp
  ultimately show ?thesis
    unfolding decode_chunked_def by (subst decode_chunks.simps) simp
qed

end
