(* ===== verification/Http_Fetch.thy ===== *)
theory Http_Fetch
  imports Http_Message Rule_Set
begin

text \<open>
  The rule-set client above the messages (\<open>rule_set_fetcher.rs\<close>): URLs, the resolution of a
  redirect against the URL it came from, and fetching with an entity tag through at most five
  redirects.
\<close>

section \<open>URLs\<close>

definition parse_port :: "string \<Rightarrow> http_error + u16" where
  "parse_port s = ok_or BadUrlPort (map_option of_nat (parse_uint 10 65535 s))"

definition parse_authority :: "string \<Rightarrow> u16 \<Rightarrow> http_error + (string \<times> u16)" where
  "parse_authority authority default_port =
     (case strip_prefix authority ''['' of
        Some bracketed \<Rightarrow>
          (case split_once (CHR '']'') bracketed of
             None \<Rightarrow> Inl BadBrackets
           | Some (h, sfx) \<Rightarrow>
               and_then (if sfx = [] then Inr default_port
                 else and_then (ok_or BadBrackets (strip_prefix sfx '':'')) parse_port) (\<lambda>p.
               and_then (ensure (h \<noteq> []) HostEmpty) (\<lambda>_. Inr (h, p))))
      | None \<Rightarrow>
          and_then (ensure (length (filter (\<lambda>c. c = CHR '':'') authority) \<le> 1) NeedsBrackets) (\<lambda>_.
          case rsplit_once (CHR '':'') authority of
            Some (h, p) \<Rightarrow>
              and_then (ensure (h \<noteq> []) HostEmpty) (\<lambda>_.
              and_then (parse_port p) (\<lambda>port. Inr (h, port)))
          | None \<Rightarrow> Inr (authority, default_port)))"

definition authority_host :: "string \<Rightarrow> string" where
  "authority_host h = (if CHR '':'' \<in> set h then ''['' @ h @ '']'' else h)"

definition url_scheme :: "string \<Rightarrow> http_error + (bool \<times> string \<times> string \<times> u16)" where
  "url_scheme value =
     (case strip_prefix value ''https://'' of
        Some rest \<Rightarrow> Inr (True, ''https'', rest, 443)
      | None \<Rightarrow>
          (case strip_prefix value ''http://'' of
             Some rest \<Rightarrow> Inr (False, ''http'', rest, 80)
           | None \<Rightarrow> Inl SchemeUnsupported))"

definition url_target :: "string \<Rightarrow> string" where
  "url_target text =
     (let target = (case find_idx (\<lambda>c. c = CHR ''#'') text of None \<Rightarrow> text | Some fragment \<Rightarrow> take fragment text)
      in if target = [] then ''/'' else if prefix ''?'' target then ''/'' @ target else target)"

definition parse_url :: "string \<Rightarrow> http_error + parsed_url" where
  "parse_url value =
     and_then (url_scheme value) (\<lambda>(https, scheme, rest, default_port).
     let authority_end = (case find_idx (\<lambda>c. c \<in> {CHR ''/'', CHR ''?'', CHR ''#''}) rest of
                            None \<Rightarrow> length rest | Some i \<Rightarrow> i);
         authority = take authority_end rest in
     and_then (ensure (authority \<noteq> []) HostEmpty) (\<lambda>_.
     and_then (ensure (CHR ''@'' \<notin> set authority) UserinfoUnsupported) (\<lambda>_.
     and_then (parse_authority authority default_port) (\<lambda>(h, p).
     let target = url_target (drop authority_end rest) in
     and_then (ensure (list_all (\<lambda>c. c \<notin> {CHR 0x0D, CHR 0x0A, CHR '' ''}) target) BadTargetCharacter) (\<lambda>_.
     Inr \<lparr>pu_https = https, pu_scheme = scheme, pu_authority = authority, pu_host = h, pu_port = p,
       pu_host_header = (if p = default_port then authority_host h
                         else authority_host h @ '':'' @ show_nat (unat p)),
       pu_target = target\<rparr>)))))"

text \<open>\<open>ParsedUrl::resolve\<close>: the URL a \<open>Location\<close> header names.\<close>

definition trim_end_slashes :: "string \<Rightarrow> string" where
  "trim_end_slashes s = rev (dropWhile (\<lambda>c. c = CHR ''/'') (rev s))"

definition resolve_location :: "parsed_url \<Rightarrow> string \<Rightarrow> http_error + string" where
  "resolve_location url location =
     and_then (ensure (no_crlf location) BadLocation) (\<lambda>_.
     if prefix ''http://'' location \<or> prefix ''https://'' location then Inr location
     else case strip_prefix location ''//'' of
       Some rest \<Rightarrow> Inr (pu_scheme url @ ''://'' @ rest)
     | None \<Rightarrow>
         if prefix ''/'' location then Inr (pu_scheme url @ ''://'' @ pu_authority url @ location)
         else
           let base = hd (split_on (CHR ''?'') (pu_target url));
               directory = (case rsplit_once (CHR ''/'') base of
                              None \<Rightarrow> ''/'' | Some (d, _) \<Rightarrow> if d = [] then ''/'' else d)
           in Inr (pu_scheme url @ ''://'' @ pu_authority url @ trim_end_slashes directory @ ''/'' @ location))"

section \<open>Requests\<close>

record http_request =
  hq_method :: string
  hq_url :: string
  hq_headers :: header_list
  hq_body :: bytes

text \<open>
  \<open>tokio::time::timeout\<close>: whether the sixty seconds suffice is decided outside.
\<close>

definition within_timeout :: "bool \<Rightarrow> http_error + 'a \<Rightarrow> http_error + 'a" where
  "within_timeout in_time r = (if in_time then r else Inl TimedOut)"

definition http_execute :: "http_net \<Rightarrow> bool \<Rightarrow> http_request \<Rightarrow> http_error + http_response" where
  "http_execute net in_time req =
     and_then (parse_url (hq_url req)) (\<lambda>url.
     within_timeout in_time (http_request_to net url (hq_method req) (hq_headers req) (hq_body req)))"

section \<open>Fetching through redirects\<close>

definition MAX_REDIRECTS :: nat where
  "MAX_REDIRECTS = 5"

definition fetch_headers :: "string option \<Rightarrow> http_error + header_list" where
  "fetch_headers etag =
     and_then (case etag of
         None \<Rightarrow> Inr []
       | Some tag \<Rightarrow> and_then (ensure (no_crlf tag) BadEtag) (\<lambda>_. Inr [(''If-None-Match'', tag)])) (\<lambda>headers.
     Inr (headers @ [(''Accept'', ''application/octet-stream, application/json'')]))"

text \<open>
  \<open>HttpRuleSetFetcher::fetch_inner\<close>; the first argument is the number of redirects still
  allowed, \<open>MAX_REDIRECTS - redirects\<close>.
\<close>

fun fetch_from :: "http_net \<Rightarrow> nat \<Rightarrow> string \<Rightarrow> string option \<Rightarrow> http_error + fetch_result" where
  "fetch_from net left current_url etag =
     and_then (parse_url current_url) (\<lambda>url.
     and_then (fetch_headers etag) (\<lambda>headers.
     and_then (http_request_to net url ''GET'' headers []) (\<lambda>response.
     if hr_status response = 200 then Inr (Modified (hr_body response) (response_header response ''etag''))
     else if hr_status response = 304 then Inr NotModified
     else if hr_status response \<in> {301, 302, 303, 307, 308} then
       (case left of
          0 \<Rightarrow> Inl TooManyRedirects
        | Suc left' \<Rightarrow>
            and_then (ok_or MissingLocation (response_header response ''location'')) (\<lambda>location.
            and_then (resolve_location url location) (\<lambda>next_url. fetch_from net left' next_url etag)))
     else Inl (HttpStatus (hr_status response)))))"

declare fetch_from.simps [simp del]

definition fetch_rule_set :: "http_net \<Rightarrow> bool \<Rightarrow> string \<Rightarrow> string option \<Rightarrow> http_error + fetch_result" where
  "fetch_rule_set net in_time url etag = within_timeout in_time (fetch_from net MAX_REDIRECTS url etag)"

section \<open>A URL is parsed into what it was built of\<close>

definition put_authority :: "string \<Rightarrow> u16 option \<Rightarrow> string" where
  "put_authority h p = authority_host h @ (case p of None \<Rightarrow> [] | Some p \<Rightarrow> '':'' @ show_nat (unat p))"

definition put_url :: "bool \<Rightarrow> string \<Rightarrow> u16 option \<Rightarrow> string \<Rightarrow> string option \<Rightarrow> string" where
  "put_url https h p target fragment =
     (if https then ''https://'' else ''http://'') @ put_authority h p @ target
     @ (case fragment of None \<Rightarrow> [] | Some f \<Rightarrow> ''#'' @ f)"

definition host_ok :: "string \<Rightarrow> bool" where
  "host_ok h \<longleftrightarrow> h \<noteq> [] \<and> list_all (\<lambda>c. c \<notin> set ''/?#@[]'') h"

definition target_ok :: "string \<Rightarrow> bool" where
  "target_ok t \<longleftrightarrow> (t = [] \<or> hd t = CHR ''/'' \<or> hd t = CHR ''?'')
     \<and> list_all (\<lambda>c. c \<notin> {CHR ''#'', CHR 0x0D, CHR 0x0A, CHR '' ''}) t"

lemma parse_port_show [simp]: "parse_port (show_nat (unat (p :: u16))) = Inr p"
proof -
  have "unat p < 65536" using unsigned_less [of p] by simp
  then show ?thesis by (simp add: parse_port_def)
qed

lemma show_nat_chars: "c \<in> set ''/?#@[]:'' \<Longrightarrow> c \<notin> set (show_nat n)"
  by (rule show_nat_no_char) auto

lemma rsplit_once_append: "c \<notin> set b \<Longrightarrow> rsplit_once c (a @ c # b) = Some (a, b)"
  by (simp add: rsplit_once_def)

lemma rsplit_once_absent: "c \<notin> set a \<Longrightarrow> rsplit_once c a = None"
  by (simp add: rsplit_once_def split_once_None)

lemma strip_bracket: "c \<noteq> CHR ''['' \<Longrightarrow> strip_prefix (c # s) ''['' = None"
  by (simp add: strip_prefix_def)

lemma parse_authority_put:
  assumes "host_ok h"
  shows "parse_authority (put_authority h p) default_port = Inr (h, case p of None \<Rightarrow> default_port | Some p \<Rightarrow> p)"
proof (cases "CHR '':'' \<in> set h")
  case True
  let ?s = "case p of None \<Rightarrow> [] | Some p \<Rightarrow> '':'' @ show_nat (unat p)"
  have "CHR '']'' \<notin> set h" using assms by (auto simp: host_ok_def list_all_iff)
  then have "split_once (CHR '']'') (h @ '']'' @ ?s) = Some (h, ?s)" by simp
  moreover have "strip_prefix (put_authority h p) ''['' = Some (h @ '']'' @ ?s)"
    using True by (simp add: strip_prefix_Some_iff put_authority_def authority_host_def)
  ultimately show ?thesis using assms
    by (cases p) (simp_all add: parse_authority_def host_ok_def strip_prefix_def)
next
  case False
  obtain c cs where h: "h = c # cs" "c \<noteq> CHR ''[''"
    using assms by (cases h) (auto simp: host_ok_def)
  have colons: "filter (\<lambda>c. c = CHR '':'') h = []" "filter (\<lambda>c. c = CHR '':'') (show_nat n) = []" for n
    using False show_nat_chars [of "CHR '':''" n] by (auto simp: filter_empty_conv)
  have "strip_prefix (put_authority h p) ''['' = None"
    using False h by (simp add: put_authority_def authority_host_def strip_bracket)
  moreover have "rsplit_once (CHR '':'') (put_authority h p)
      = (case p of None \<Rightarrow> None | Some p \<Rightarrow> Some (h, show_nat (unat p)))"
    using False show_nat_chars [of "CHR '':''"]
    by (cases p) (simp_all add: put_authority_def authority_host_def rsplit_once_append rsplit_once_absent)
  moreover have "length (filter (\<lambda>c. c = CHR '':'') (put_authority h p)) \<le> 1"
    using False colons by (cases p) (simp_all add: put_authority_def authority_host_def)
  ultimately show ?thesis using False assms
    by (cases p) (simp_all add: parse_authority_def put_authority_def authority_host_def host_ok_def)
qed

lemma put_authority_chars:
  assumes "host_ok h" and "c \<in> set ''/?#@''"
  shows "c \<notin> set (put_authority h p)"
  using assms show_nat_chars [of c]
  by (cases p) (auto simp: put_authority_def authority_host_def host_ok_def list_all_iff)

lemma put_authority_not_Nil: "host_ok h \<Longrightarrow> put_authority h p \<noteq> []"
  by (simp add: put_authority_def authority_host_def host_ok_def)

text \<open>Where the authority ends.\<close>

definition stops_authority :: "string \<Rightarrow> bool" where
  "stops_authority s \<longleftrightarrow> stops_at (\<lambda>c. c \<notin> {CHR ''/'', CHR ''?'', CHR ''#''}) s"

lemma authority_end:
  assumes "\<forall>c \<in> set a. c \<notin> {CHR ''/'', CHR ''?'', CHR ''#''}" and "stops_authority s"
  shows "(case find_idx (\<lambda>c. c \<in> {CHR ''/'', CHR ''?'', CHR ''#''}) (a @ s) of
            None \<Rightarrow> length (a @ s) | Some i \<Rightarrow> i) = length a"
proof (cases s)
  case Nil
  with assms(1) have "find_idx (\<lambda>c. c \<in> {CHR ''/'', CHR ''?'', CHR ''#''}) (a @ s) = None"
    by (auto simp: find_idx_None)
  with Nil show ?thesis by simp
next
  case (Cons c cs)
  with assms(2) have "c \<in> {CHR ''/'', CHR ''?'', CHR ''#''}" by (simp add: stops_authority_def)
  with assms(1) Cons find_idx_append [of a "\<lambda>c. c \<in> {CHR ''/'', CHR ''?'', CHR ''#''}" c cs]
  show ?thesis by simp
qed

lemma parse_url_scheme:
  assumes "\<forall>c \<in> set a. c \<notin> {CHR ''/'', CHR ''?'', CHR ''#''}" and "stops_authority s"
    and "url_scheme value = Inr (https, scheme, a @ s, default_port)"
  shows "parse_url value =
     and_then (ensure (a \<noteq> []) HostEmpty) (\<lambda>_.
     and_then (ensure (CHR ''@'' \<notin> set a) UserinfoUnsupported) (\<lambda>_.
     and_then (parse_authority a default_port) (\<lambda>(h, p).
     and_then (ensure (list_all (\<lambda>c. c \<notin> {CHR 0x0D, CHR 0x0A, CHR '' ''}) (url_target s)) BadTargetCharacter) (\<lambda>_.
     Inr \<lparr>pu_https = https, pu_scheme = scheme, pu_authority = a, pu_host = h, pu_port = p,
       pu_host_header = (if p = default_port then authority_host h
                         else authority_host h @ '':'' @ show_nat (unat p)),
       pu_target = url_target s\<rparr>))))"
proof -
  have a: "take (length a) (a @ s) = a" "drop (length a) (a @ s) = s" by simp_all
  show ?thesis
    unfolding parse_url_def assms(3)
    by (simp only: and_then_simps prod.case Let_def authority_end [OF assms(1,2)] a)
qed

lemma url_target_put:
  assumes "target_ok t"
  shows "url_target (t @ (case fragment of None \<Rightarrow> [] | Some f \<Rightarrow> ''#'' @ f))
    = (if t = [] then ''/'' else if prefix ''?'' t then ''/'' @ t else t)"
proof -
  have t: "\<forall>c \<in> set t. c \<noteq> CHR ''#''" using assms by (auto simp: target_ok_def list_all_iff)
  then have "find_idx (\<lambda>c. c = CHR ''#'') (t @ (case fragment of None \<Rightarrow> [] | Some f \<Rightarrow> ''#'' @ f))
      = (case fragment of None \<Rightarrow> None | Some f \<Rightarrow> Some (length t))"
    by (cases fragment) (auto simp: find_idx_None intro!: find_idx_append)
  then show ?thesis by (cases fragment) (simp_all add: url_target_def)
qed

lemma parse_url_put:
  assumes "host_ok h" and "target_ok t"
  shows "parse_url (put_url https h p t fragment) = Inr \<lparr>pu_https = https,
    pu_scheme = (if https then ''https'' else ''http''), pu_authority = put_authority h p, pu_host = h,
    pu_port = (case p of None \<Rightarrow> if https then 443 else 80 | Some p \<Rightarrow> p),
    pu_host_header = put_authority h (if p = Some (if https then 443 else 80) then None else p),
    pu_target = (if t = [] then ''/'' else if prefix ''?'' t then ''/'' @ t else t)\<rparr>"
proof -
  let ?s = "t @ (case fragment of None \<Rightarrow> [] | Some f \<Rightarrow> ''#'' @ f)"
  have a: "\<forall>c \<in> set (put_authority h p). c \<notin> {CHR ''/'', CHR ''?'', CHR ''#''}"
    using put_authority_chars [OF assms(1)] by fastforce
  have s: "stops_authority ?s"
    using assms(2) by (cases t; cases fragment) (auto simp: stops_authority_def target_ok_def)
  have sch: "url_scheme (put_url https h p t fragment)
      = Inr (https, if https then ''https'' else ''http'', put_authority h p @ ?s, if https then 443 else 80)"
    by (simp add: url_scheme_def put_url_def strip_prefix_def)
  have "list_all (\<lambda>c. c \<notin> {CHR 0x0D, CHR 0x0A, CHR '' ''}) (url_target ?s)"
    using assms(2) by (auto simp: url_target_put [OF assms(2)] target_ok_def list_all_iff)
  then show ?thesis
    using put_authority_not_Nil [OF assms(1), of p] put_authority_chars [OF assms(1), of "CHR ''@''" p]
    unfolding parse_url_scheme [OF a s sch] url_target_put [OF assms(2), of fragment, symmetric]
    by (simp only: parse_authority_put [OF assms(1)] and_then_simps ensure_simps prod.case simp_thms
        set_simps insert_iff refl if_True) (cases p; simp add: put_authority_def)
qed

section \<open>What a parsed URL says about its text\<close>

lemma no_crlf_iff: "no_crlf s \<longleftrightarrow> CHR 0x0D \<notin> set s \<and> CHR 0x0A \<notin> set s"
  by (induction s) (auto simp: no_crlf_def)

definition scheme_text :: "bool \<Rightarrow> string" where
  "scheme_text https = (if https then ''https'' else ''http'')"

definition scheme_port :: "bool \<Rightarrow> u16" where
  "scheme_port https = (if https then 443 else 80)"

lemma url_scheme_put: "url_scheme (scheme_text https @ ''://'' @ rest) = Inr (https, scheme_text https, rest, scheme_port https)"
  by (simp add: url_scheme_def scheme_text_def scheme_port_def strip_prefix_def)

lemma url_scheme_Inr:
  "url_scheme value = Inr (https, scheme, rest, dp)
    \<Longrightarrow> value = scheme_text https @ ''://'' @ rest \<and> scheme = scheme_text https \<and> dp = scheme_port https"
  by (auto simp: url_scheme_def scheme_text_def scheme_port_def strip_prefix_Some_iff split: option.splits)

text \<open>
  Two URLs that differ only behind the authority have the same origin. The target of a parsed URL
  begins with a slash.
\<close>

definition url_of :: "bool \<Rightarrow> string \<Rightarrow> string \<Rightarrow> string" where
  "url_of https a t = scheme_text https @ ''://'' @ a @ t"

definition origin :: "parsed_url \<Rightarrow> bool \<times> string \<times> string \<times> u16 \<times> string" where
  "origin url = (pu_https url, pu_authority url, pu_host url, pu_port url, pu_host_header url)"

lemma find_idx_length: "(case find_idx p xs of None \<Rightarrow> length xs | Some i \<Rightarrow> i) = length (takeWhile (\<lambda>x. \<not> p x) xs)"
  by (induction xs) (auto split: option.splits)

lemma stops_at_dropWhile: "stops_at p (dropWhile p xs)"
  by (induction xs) auto

lemma parse_url_cases:
  assumes "parse_url value = Inr url"
  obtains s where "value = url_of (pu_https url) (pu_authority url) s" and "stops_authority s"
    and "\<forall>c \<in> set (pu_authority url). c \<notin> {CHR ''/'', CHR ''?'', CHR ''#''}"
    and "pu_scheme url = scheme_text (pu_https url)"
    and "parse_authority (pu_authority url) (scheme_port (pu_https url)) = Inr (pu_host url, pu_port url)"
    and "pu_target url = url_target s" and "no_crlf (pu_target url)"
    and "pu_host_header url = (if pu_port url = scheme_port (pu_https url) then authority_host (pu_host url)
           else authority_host (pu_host url) @ '':'' @ show_nat (unat (pu_port url)))"
proof -
  let ?d = "\<lambda>c. c \<in> {CHR ''/'', CHR ''?'', CHR ''#''}"
  from assms obtain https scheme rest dp where sch: "url_scheme value = Inr (https, scheme, rest, dp)"
    by (auto simp: parse_url_def)
  define a where "a = takeWhile (\<lambda>c. \<not> ?d c) rest"
  define s where "s = dropWhile (\<lambda>c. \<not> ?d c) rest"
  have split: "rest = a @ s" by (simp add: a_def s_def)
  have ok: "\<forall>c \<in> set a. \<not> ?d c" "stops_authority s"
    using stops_at_dropWhile [of "\<lambda>c. \<not> ?d c" rest]
    by (auto simp: a_def s_def stops_authority_def dest: set_takeWhileD)
  note parts = parse_url_scheme [OF ok sch [unfolded split]]
  from assms obtain h p where hp: "parse_authority a dp = Inr (h, p)"
    and target: "list_all (\<lambda>c. c \<notin> {CHR 0x0D, CHR 0x0A, CHR '' ''}) (url_target s)"
    and url: "url = \<lparr>pu_https = https, pu_scheme = scheme, pu_authority = a, pu_host = h, pu_port = p,
      pu_host_header = (if p = dp then authority_host h else authority_host h @ '':'' @ show_nat (unat p)),
      pu_target = url_target s\<rparr>"
    unfolding parts by (simp only: and_then_eq_Inr ensure_eq_Inr sum.inject split_paired_Ex prod.case) metis
  have spelling: "value = scheme_text https @ ''://'' @ a @ s" "scheme = scheme_text https" "dp = scheme_port https"
    using url_scheme_Inr [OF sch] split by simp_all
  have "no_crlf (url_target s)" using target by (simp add: no_crlf_iff list_all_iff) blast
  with spelling hp ok show ?thesis by (intro that [of s]) (simp_all add: url url_of_def)
qed

lemma parse_url_same_origin:
  assumes "parse_url value = Inr url" and "stops_authority t"
    and "parse_url (url_of (pu_https url) (pu_authority url) t) = Inr url'"
  shows "origin url' = origin url"
proof -
  from assms(1) obtain s where
    u: "\<forall>c \<in> set (pu_authority url). c \<notin> {CHR ''/'', CHR ''?'', CHR ''#''}"
      "parse_authority (pu_authority url) (scheme_port (pu_https url)) = Inr (pu_host url, pu_port url)"
      "pu_host_header url = (if pu_port url = scheme_port (pu_https url) then authority_host (pu_host url)
           else authority_host (pu_host url) @ '':'' @ show_nat (unat (pu_port url)))"
    by (rule parse_url_cases)
  have "url_scheme (url_of (pu_https url) (pu_authority url) t)
      = Inr (pu_https url, scheme_text (pu_https url), pu_authority url @ t, scheme_port (pu_https url))"
    by (simp only: url_of_def url_scheme_put)
  from assms(3) [unfolded parse_url_scheme [OF u(1) assms(2) this]] u(2,3)
  show ?thesis by (auto simp: origin_def)
qed

lemma stops_authority_slash: "stops_authority (CHR ''/'' # t)"
  by (simp add: stops_authority_def)

lemma stops_authority_trim:
  assumes "d = [] \<or> hd d = CHR ''/''"
  shows "stops_authority (trim_end_slashes d @ CHR ''/'' # t)"
proof (cases "trim_end_slashes d")
  case (Cons c cs)
  have "d = trim_end_slashes d @ rev (takeWhile (\<lambda>c. c = CHR ''/'') (rev d))"
    by (simp add: trim_end_slashes_def flip: rev_append)
  with Cons assms have "c = CHR ''/''" by (metis append_Cons list.distinct(1) list.sel(1))
  with Cons show ?thesis by (simp add: stops_authority_slash)
qed (simp add: stops_authority_slash)

text \<open>A location that is not absolute is resolved to a URL of the same origin.\<close>

definition absolute :: "string \<Rightarrow> bool" where
  "absolute location \<longleftrightarrow> prefix ''http://'' location \<or> prefix ''https://'' location \<or> prefix ''//'' location"

lemma url_target_slash: "stops_authority s \<Longrightarrow> \<exists>t. url_target s = CHR ''/'' # t"
  by (cases s) (auto simp: url_target_def stops_authority_def Let_def prefix_Cons split: option.splits)

lemma rsplit_once_Some: "rsplit_once c s = Some (a, b) \<Longrightarrow> s = a @ c # b"
proof -
  assume "rsplit_once c s = Some (a, b)"
  then have "split_once c (rev s) = Some (rev b, rev a)" by (auto simp: rsplit_once_def)
  from split_once_Some [OF this] have "rev s = rev b @ c # rev a" by simp
  then have "rev (rev s) = rev (rev b @ c # rev a)" by simp
  then show ?thesis by simp
qed

lemma resolve_location_relative:
  assumes "parse_url value = Inr url" and "\<not> absolute location" and "resolve_location url location = Inr v"
  obtains t where "v = url_of (pu_https url) (pu_authority url) t" and "stops_authority t"
    and "no_crlf t"
proof -
  from assms(1) obtain s where s: "stops_authority s" "pu_target url = url_target s"
    "no_crlf (pu_target url)" "pu_scheme url = scheme_text (pu_https url)"
    by (rule parse_url_cases)
  have loc: "no_crlf location" using assms(3) by (auto simp: resolve_location_def)
  have rel: "\<not> prefix ''http://'' location" "\<not> prefix ''https://'' location" "strip_prefix location ''//'' = None"
    using assms(2) by (auto simp: absolute_def strip_prefix_def)
  show ?thesis
  proof (cases "prefix ''/'' location")
    case True
    then have "stops_authority location" by (auto simp: prefix_def stops_authority_slash)
    with assms(3) rel s(4) loc True show ?thesis
      by (intro that [of location]) (auto simp: resolve_location_def url_of_def)
  next
    case False
    define base where "base = hd (split_on (CHR ''?'') (pu_target url))"
    define d where "d = (case rsplit_once (CHR ''/'') base of None \<Rightarrow> ''/'' | Some (d, _) \<Rightarrow> if d = [] then ''/'' else d)"
    from url_target_slash [OF s(1)] s(2) obtain t where t: "pu_target url = CHR ''/'' # t" by auto
    have hd_split: "prefix (hd (split_on c u)) u" for c u
      by (induction u) (auto split: list.splits)
    have base: "prefix base (pu_target url)" "hd base = CHR ''/''"
      using hd_split [of "CHR ''?''" "pu_target url"] by (simp_all add: base_def) (simp add: t split: list.splits)
    have d: "hd d = CHR ''/''" "set d \<subseteq> insert (CHR ''/'') (set base)"
      using base(2) by (auto simp: d_def hd_append split: option.splits if_splits dest!: rsplit_once_Some)
    have "set base \<subseteq> set (pu_target url)" using base(1) by (rule set_mono_prefix)
    moreover have "set (trim_end_slashes d) \<subseteq> set d"
      by (auto simp: trim_end_slashes_def dest: set_dropWhileD)
    ultimately have "set (trim_end_slashes d) \<subseteq> insert (CHR ''/'') (set (pu_target url))"
      using d(2) by blast
    with s(3) have "no_crlf (trim_end_slashes d)" by (simp add: no_crlf_iff) blast
    with loc have "no_crlf (trim_end_slashes d @ CHR ''/'' # location)" by (simp add: no_crlf_iff)
    moreover have "stops_authority (trim_end_slashes d @ CHR ''/'' # location)"
      using d(1) by (intro stops_authority_trim) simp
    moreover have "v = url_of (pu_https url) (pu_authority url) (trim_end_slashes d @ CHR ''/'' # location)"
      using assms(3) rel False s(4) by (simp add: resolve_location_def url_of_def base_def d_def Let_def)
    ultimately show ?thesis by (intro that)
  qed
qed

lemma parse_authority_host: "parse_authority a dp = Inr (h, p) \<Longrightarrow> set h \<subseteq> set a"
  by (auto simp: parse_authority_def strip_prefix_Some_iff split: option.splits
      dest!: split_once_Some rsplit_once_Some)

lemma parse_url_clean:
  assumes "no_crlf u" and "parse_url u = Inr url"
  shows "no_crlf (pu_authority url)" and "no_crlf (pu_host_header url)"
proof -
  from assms(2) obtain s where u: "u = url_of (pu_https url) (pu_authority url) s"
    and p: "parse_authority (pu_authority url) (scheme_port (pu_https url)) = Inr (pu_host url, pu_port url)"
    and hh: "pu_host_header url = (if pu_port url = scheme_port (pu_https url) then authority_host (pu_host url)
           else authority_host (pu_host url) @ '':'' @ show_nat (unat (pu_port url)))"
    by (rule parse_url_cases)
  from assms(1) show a: "no_crlf (pu_authority url)" by (subst (asm) u) (simp add: url_of_def no_crlf_iff)
  with parse_authority_host [OF p] have "no_crlf (pu_host url)" by (simp add: no_crlf_iff) blast
  moreover have "no_crlf (show_nat n)" for n by (simp add: no_crlf_iff show_nat_no_char)
  ultimately show "no_crlf (pu_host_header url)" by (simp add: hh authority_host_def no_crlf_iff)
qed

lemma resolve_location_clean:
  assumes "no_crlf u" and "parse_url u = Inr url" and "resolve_location url location = Inr v"
  shows "no_crlf v"
proof (cases "absolute location")
  case True
  have "no_crlf location" using assms(3) by (auto simp: resolve_location_def)
  moreover have "no_crlf (pu_scheme url)"
    using assms(2) by (rule parse_url_cases) (simp add: scheme_text_def no_crlf_iff)
  ultimately show ?thesis
    using True assms(3)
    by (auto simp: resolve_location_def absolute_def no_crlf_iff strip_prefix_def prefix_def split: if_splits)
next
  case False
  from assms(2) False assms(3) obtain t where
    "v = url_of (pu_https url) (pu_authority url) t" "no_crlf t"
    by (rule resolve_location_relative)
  with parse_url_clean(1) [OF assms(1,2)] show ?thesis by (simp add: url_of_def scheme_text_def no_crlf_iff)
qed

lemma fetch_header_names:
  "\<not> eq_ignore_ascii_case ''If-None-Match'' ''user-agent''" "\<not> eq_ignore_ascii_case ''Accept'' ''user-agent''"
  by code_simp+

section \<open>Redirect chains\<close>

inductive redirected :: "http_net \<Rightarrow> string option \<Rightarrow> nat \<Rightarrow> string \<Rightarrow> string \<Rightarrow> bool" for net etag where
  stay: "redirected net etag 0 u u"
| hop: "parse_url u = Inr url \<Longrightarrow> fetch_headers etag = Inr hs
    \<Longrightarrow> http_request_to net url ''GET'' hs [] = Inr r \<Longrightarrow> hr_status r \<in> {301, 302, 303, 307, 308}
    \<Longrightarrow> response_header r ''location'' = Some location \<Longrightarrow> resolve_location url location = Inr v
    \<Longrightarrow> redirected net etag n v w \<Longrightarrow> redirected net etag (Suc n) u w"

inductive_cases redirected_SucE: "redirected net etag (Suc n) u w"
inductive_cases redirected_0E: "redirected net etag 0 u w"

definition answers :: "http_net \<Rightarrow> string option \<Rightarrow> string \<Rightarrow> fetch_result \<Rightarrow> bool" where
  "answers net etag u result \<longleftrightarrow> (\<exists>url hs r. parse_url u = Inr url \<and> fetch_headers etag = Inr hs
     \<and> http_request_to net url ''GET'' hs [] = Inr r
     \<and> (hr_status r = 200 \<and> result = Modified (hr_body r) (response_header r ''etag'')
        \<or> hr_status r = 304 \<and> result = NotModified))"

lemma fetch_from_chain:
  "fetch_from net left u etag = Inr result \<Longrightarrow> \<exists>n \<le> left. \<exists>v. redirected net etag n u v \<and> answers net etag v result"
proof (induction left arbitrary: u)
  case 0
  then have "answers net etag u result"
    by (subst (asm) fetch_from.simps) (auto simp: answers_def split: if_splits)
  then show ?case by (blast intro: stay)
next
  case (Suc left)
  show ?case
  proof (cases "answers net etag u result")
    case True
    then show ?thesis by (blast intro: stay)
  next
    case False
    with Suc.prems obtain url hs r location v where
      "parse_url u = Inr url" "fetch_headers etag = Inr hs" "http_request_to net url ''GET'' hs [] = Inr r"
      "hr_status r \<in> {301, 302, 303, 307, 308}" "response_header r ''location'' = Some location"
      "resolve_location url location = Inr v" and rec: "fetch_from net left v etag = Inr result"
      by (subst (asm) fetch_from.simps) (auto simp: answers_def split: if_splits)
    from Suc.IH [OF rec] hop [OF this(1-6)] show ?thesis by (meson Suc_le_mono)
  qed
qed

lemma fetch_from_answers: "answers net etag v result \<Longrightarrow> fetch_from net left v etag = Inr result"
  by (subst fetch_from.simps) (auto simp: answers_def simp del: and_then_eq_Inr)

lemma fetch_from_redirected:
  "redirected net etag n u v \<Longrightarrow> answers net etag v result \<Longrightarrow> n \<le> left \<Longrightarrow> fetch_from net left u etag = Inr result"
proof (induction arbitrary: left rule: redirected.induct)
  case (stay u)
  then show ?case by (simp add: fetch_from_answers)
next
  case (hop u url hs r location v n w)
  then obtain left' where l: "left = Suc left'" "n \<le> left'" by (cases left) auto
  have "hr_status r \<noteq> 200 \<and> hr_status r \<noteq> 304" using hop.hyps(4) by auto
  with hop.hyps hop.IH [OF hop.prems(1) l(2)] show ?case by (subst fetch_from.simps) (simp add: l(1))
qed

section \<open>Properties\<close>

text \<open>URLs are understood. A URL built of a scheme, a host (an IPv6 literal in brackets), an
  optional port, a path with query and a fragment parses to exactly these parts: the default port
  of the scheme, a \<open>Host\<close> header that omits it, and a target that never includes the fragment.\<close>

theorem parse_url_roundtrip:
  assumes "host_ok h" and "target_ok t"
  shows "parse_url (put_url https h p t fragment) = Inr \<lparr>pu_https = https,
    pu_scheme = (if https then ''https'' else ''http''), pu_authority = put_authority h p, pu_host = h,
    pu_port = (case p of None \<Rightarrow> if https then 443 else 80 | Some p \<Rightarrow> p),
    pu_host_header = put_authority h (if p = Some (if https then 443 else 80) then None else p),
    pu_target = (if t = [] then ''/'' else if prefix ''?'' t then ''/'' @ t else t)\<rparr>"
  by (rule parse_url_put [OF assms])

theorem parse_url_roundtrip_witness:
  "parse_url (put_url True ''2001:db8::1'' (Some 443) ''?q'' (Some ''f'')) = Inr \<lparr>pu_https = True,
    pu_scheme = ''https'', pu_authority = put_authority ''2001:db8::1'' (Some 443), pu_host = ''2001:db8::1'',
    pu_port = 443, pu_host_header = ''[2001:db8::1]'', pu_target = ''/?q''\<rparr>"
  using parse_url_roundtrip [of "''2001:db8::1''" "''?q''" True "Some 443" "Some ''f''"]
  by (simp add: host_ok_def target_ok_def put_authority_def authority_host_def)

text \<open>A relative redirect never leaves the server. Unless the location is absolute, the URL it
  resolves to has the scheme, host and port of the URL it came from.\<close>

theorem relative_redirect_same_origin:
  assumes "parse_url u = Inr url" and "resolve_location url location = Inr v"
    and "\<not> prefix ''http://'' location" and "\<not> prefix ''https://'' location" and "\<not> prefix ''//'' location"
    and "parse_url v = Inr url'"
  shows "pu_https url' = pu_https url \<and> pu_host url' = pu_host url \<and> pu_port url' = pu_port url
    \<and> pu_host_header url' = pu_host_header url"
proof -
  from assms(3-5) have "\<not> absolute location" by (simp add: absolute_def)
  from assms(1) this assms(2) obtain t
    where v: "v = url_of (pu_https url) (pu_authority url) t" and t: "stops_authority t"
    by (rule resolve_location_relative)
  from parse_url_same_origin [OF assms(1) t assms(6) [unfolded v]] show ?thesis by (simp add: origin_def)
qed

theorem relative_redirect_same_origin_witness:
  "\<exists>url v url'. parse_url (put_url True ''h'' None ''/a/b?c'' None) = Inr url \<and> resolve_location url ''x'' = Inr v
    \<and> parse_url v = Inr url' \<and> pu_host url' = ''h'' \<and> pu_target url' = ''/a/x''"
proof -
  obtain url where url: "parse_url (put_url True ''h'' None ''/a/b?c'' None) = Inr url"
    "pu_host url = ''h''" "pu_scheme url = ''https''" "pu_authority url = ''h''" "pu_target url = ''/a/b?c''"
    using parse_url_put [of "''h''" "''/a/b?c''" True None None]
    by (simp add: host_ok_def target_ok_def put_authority_def authority_host_def)
  have "rsplit_once (CHR ''/'') ''/a/b'' = Some (''/a'', ''b'')" by code_simp
  then have v: "resolve_location url ''x'' = Inr (put_url True ''h'' None ''/a/x'' None)"
    by (simp add: resolve_location_def url no_crlf_def strip_prefix_def trim_end_slashes_def put_url_def
        put_authority_def authority_host_def)
  obtain url' where url': "parse_url (put_url True ''h'' None ''/a/x'' None) = Inr url'" "pu_target url' = ''/a/x''"
    using parse_url_put [of "''h''" "''/a/x''" True None None] by (simp add: host_ok_def target_ok_def)
  from relative_redirect_same_origin [OF url(1) v _ _ _ url'(1)] url url' v show ?thesis by auto
qed

text \<open>A request carries the header lines of the client and no others. For a URL without line breaks,
  whatever entity tag an earlier answer had, the head of the request splits into exactly its own
  lines, and every redirect leads to a URL without line breaks again.\<close>

theorem request_lines_exact:
  assumes "no_crlf u" and "parse_url u = Inr url" and "fetch_headers etag = Inr hs"
  shows "split_crlf (request_head url ''GET'' hs []) =
      [''GET '' @ pu_target url @ '' HTTP/1.1'', ''Host: '' @ pu_host_header url, ''Connection: close'',
       ''User-Agent: sing-box-rs/1.1.0'']
      @ (case etag of None \<Rightarrow> [] | Some tag \<Rightarrow> [''If-None-Match: '' @ tag])
      @ [''Accept: application/octet-stream, application/json'', [], []]
    \<and> (\<forall>location v. resolve_location url location = Inr v \<longrightarrow> no_crlf v)"
proof -
  from assms(2) have target: "no_crlf (pu_target url)" by (rule parse_url_cases)
  have tags: "case etag of None \<Rightarrow> True | Some tag \<Rightarrow> no_crlf tag"
    using assms(3) by (auto simp: fetch_headers_def split: option.splits)
  have hs: "hs = (case etag of None \<Rightarrow> [] | Some tag \<Rightarrow> [(''If-None-Match'', tag)])
      @ [(''Accept'', ''application/octet-stream, application/json'')]"
    using assms(3) by (auto simp: fetch_headers_def split: option.splits)
  have "header_ok (''If-None-Match'', tag)" if "no_crlf tag" for tag
    using that by (simp add: header_ok_def is_ascii_alphanumeric_def is_ascii_uppercase_def)
  moreover have "header_ok (''Accept'', ''application/octet-stream, application/json'')"
    by (simp add: header_ok_def is_ascii_alphanumeric_def is_ascii_uppercase_def no_crlf_def)
  ultimately have "list_all header_ok hs" using tags by (cases etag) (simp_all add: hs)
  moreover have "method_ok ''GET''" by (simp add: method_ok_def is_ascii_uppercase_def)
  moreover have "\<not> has_header hs ''user-agent''"
    using fetch_header_names by (cases etag) (simp_all add: hs has_header_def)
  ultimately show ?thesis
    using request_head_split [of "''GET''" hs url "[]"] target parse_url_clean(2) [OF assms(1,2)]
      resolve_location_clean [OF assms(1,2)]
    by (cases etag) (simp_all add: request_lines_def hs CARGO_PKG_VERSION_def)
qed

theorem request_lines_exact_witness:
  "\<exists>url hs. parse_url (put_url False ''h'' (Some 81) ''/r'' None) = Inr url \<and> fetch_headers (Some ''v1'') = Inr hs
    \<and> split_crlf (request_head url ''GET'' hs []) = [''GET /r HTTP/1.1'', ''Host: h:81'', ''Connection: close'',
        ''User-Agent: sing-box-rs/1.1.0'', ''If-None-Match: v1'',
        ''Accept: application/octet-stream, application/json'', [], []]"
proof -
  have eightyone: "show_nat 81 = ''81''" by code_simp
  obtain url where url: "parse_url (put_url False ''h'' (Some 81) ''/r'' None) = Inr url"
    "pu_target url = ''/r''" "pu_host_header url = ''h:81''"
    using parse_url_put [of "''h''" "''/r''" False "Some 81" None] eightyone
    by (simp add: host_ok_def target_ok_def put_authority_def authority_host_def)
  obtain hs where hs: "fetch_headers (Some ''v1'') = Inr hs" by (simp add: fetch_headers_def no_crlf_def)
  have "no_crlf (put_url False ''h'' (Some 81) ''/r'' None)"
    using eightyone by (simp add: put_url_def put_authority_def authority_host_def no_crlf_def)
  from request_lines_exact [OF this url(1) hs] url hs show ?thesis by auto
qed

text \<open>C20: fetching follows at most five redirects. A fetch succeeds exactly when a chain of zero to
  five redirects leads to a URL whose answer is 200, with the content and entity tag of that answer,
  or 304.\<close>

theorem fetch_follows_redirects:
  "fetch_rule_set net True u etag = Inr result
    \<longleftrightarrow> (\<exists>n v. n \<le> 5 \<and> redirected net etag n u v \<and> answers net etag v result)"
proof
  assume "fetch_rule_set net True u etag = Inr result"
  then have "fetch_from net MAX_REDIRECTS u etag = Inr result"
    by (simp add: fetch_rule_set_def within_timeout_def)
  from fetch_from_chain [OF this] show "\<exists>n v. n \<le> 5 \<and> redirected net etag n u v \<and> answers net etag v result"
    by (auto simp: MAX_REDIRECTS_def)
next
  assume "\<exists>n v. n \<le> 5 \<and> redirected net etag n u v \<and> answers net etag v result"
  then show "fetch_rule_set net True u etag = Inr result"
    unfolding fetch_rule_set_def within_timeout_def MAX_REDIRECTS_def
    by (auto intro: fetch_from_redirected)
qed

end
