(* ===== verification/Anytls_Frame.thy ===== *)
theory Anytls_Frame
  imports Socks Rust_Text
begin

text \<open>
  The wire format of AnyTLS (\<open>sing-box-protocol-anytls\<close>): frames, padding schemes and the padded
  writer, the authentication prelude, addresses, and packets over a stream. Random numbers and
  SHA-256 are parameters.
\<close>

section \<open>Frames\<close>

definition CMD_WASTE :: u8 where "CMD_WASTE = 0"
definition CMD_SYN :: u8 where "CMD_SYN = 1"
definition CMD_PSH :: u8 where "CMD_PSH = 2"
definition CMD_FIN :: u8 where "CMD_FIN = 3"
definition CMD_SETTINGS :: u8 where "CMD_SETTINGS = 4"
definition CMD_ALERT :: u8 where "CMD_ALERT = 5"
definition CMD_UPDATE_PADDING :: u8 where "CMD_UPDATE_PADDING = 6"
definition CMD_SYNACK :: u8 where "CMD_SYNACK = 7"
definition CMD_HEARTBEAT_REQUEST :: u8 where "CMD_HEARTBEAT_REQUEST = 8"
definition CMD_HEARTBEAT_RESPONSE :: u8 where "CMD_HEARTBEAT_RESPONSE = 9"
definition CMD_SERVER_SETTINGS :: u8 where "CMD_SERVER_SETTINGS = 10"

lemmas cmd_defs = CMD_WASTE_def CMD_SYN_def CMD_PSH_def CMD_FIN_def CMD_SETTINGS_def CMD_ALERT_def
  CMD_UPDATE_PADDING_def CMD_SYNACK_def CMD_HEARTBEAT_REQUEST_def CMD_HEARTBEAT_RESPONSE_def
  CMD_SERVER_SETTINGS_def

definition MAX_FRAME_SIZE :: nat where "MAX_FRAME_SIZE = 65535"
definition AUTH_PADDING :: nat where "AUTH_PADDING = 30"
definition UOT_MAGIC :: string where "UOT_MAGIC = ''sp.v2.udp-over-tcp.arpa''"
definition UOT_MAX_PACKET :: nat where "UOT_MAX_PACKET = 65535"
definition MAX_PADDING_SIZE :: nat where "MAX_PADDING_SIZE = 1024 * 1024"

datatype anytls_error =
    FrameTooLarge | AnyEof
  | BadPaddingItem string | BadPaddingStop | BadPaddingIndex | BadPaddingRange string | BadPaddingNumber
  | PaddingReversed | PaddingTooLarge | PaddingEmpty | PaddingStopZero
  | AuthPaddingTooLarge | AuthenticationFailed
  | UnsupportedAddress u8 | HostNotUtf8 | EmptyHost | DomainTooLong
  | UdpPacketTooLarge | UdpConnectUnsupported
  | SynBeforeSettings | StreamIdZero | DuplicateStream | PeerAlert | UnsupportedCmd u8
  | SessionClosed | SchemeNotUtf8 | PasswordEmpty | DuplicatePassword | UsersEmpty

record frame =
  fr_command :: u8
  fr_stream_id :: u32
  fr_data :: bytes

definition new_frame :: "u8 \<Rightarrow> u32 \<Rightarrow> bytes \<Rightarrow> frame" where
  "new_frame c i d = \<lparr>fr_command = c, fr_stream_id = i, fr_data = d\<rparr>"

text \<open>\<open>encode_frame\<close> appends to a packet.\<close>

definition encode_frame :: "bytes \<Rightarrow> frame \<Rightarrow> anytls_error + bytes" where
  "encode_frame packet f =
     (if MAX_FRAME_SIZE < length (fr_data f) then Inl FrameTooLarge
      else Inr (packet @ [fr_command f] @ be_bytes (fr_stream_id f)
                @ be_bytes (of_nat (length (fr_data f)) :: u16) @ fr_data f))"

definition read_frame :: "bytes \<Rightarrow> anytls_error + (frame \<times> bytes)" where
  "read_frame bs =
     and_then (read_u8 AnyEof bs) (\<lambda>(command, bs).
     and_then (read_be AnyEof bs) (\<lambda>(stream_id, bs).
     and_then (read_be AnyEof bs) (\<lambda>(n :: u16, bs).
     and_then (read_exact AnyEof (unat n) bs) (\<lambda>(d, bs).
     Inr (\<lparr>fr_command = command, fr_stream_id = stream_id, fr_data = d\<rparr>, bs)))))"

lemma unat_length_u16: "n \<le> 65535 \<Longrightarrow> unat (of_nat n :: u16) = n"
  by (simp add: unat_of_nat)

lemma read_encode_frame: "encode_frame [] f = Inr bs \<Longrightarrow> read_frame (bs @ rest) = Inr (f, rest)"
  by (cases f) (auto simp: encode_frame_def read_frame_def MAX_FRAME_SIZE_def unat_length_u16 split: if_splits)

interpretation anytls_frame: exact_codec "encode_frame []" read_frame "\<lambda>f. f"
  by unfold_locales (simp_all add: read_encode_frame)

lemma encode_frame_append: "encode_frame packet f = and_then (encode_frame [] f) (\<lambda>bs. Inr (packet @ bs))"
  by (simp add: encode_frame_def)

section \<open>Padding schemes\<close>

datatype padding_instruction = Range nat nat | Check

record padding_scheme =
  ps_stop :: nat
  ps_rules :: "nat \<rightharpoonup> padding_instruction list"
  ps_source :: string

definition nl :: string where "nl = [CHR 0x0A]"

definition DEFAULT_PADDING_SCHEME :: string where
  "DEFAULT_PADDING_SCHEME = ''stop=8'' @ nl @ ''0=30-30'' @ nl @ ''1=100-400'' @ nl
     @ ''2=400-500,c,500-1000,c,500-1000,c,500-1000,c,500-1000'' @ nl @ ''3=9-9,500-1000'' @ nl
     @ ''4=500-1000'' @ nl @ ''5=500-1000'' @ nl @ ''6=500-1000'' @ nl @ ''7=500-1000''"

definition USIZE_MAX :: nat where "USIZE_MAX = 2 ^ 64 - 1"

definition parse_usize :: "anytls_error \<Rightarrow> string \<Rightarrow> anytls_error + nat" where
  "parse_usize e s = ok_or e (parse_uint 10 USIZE_MAX s)"

definition parse_instruction :: "string \<Rightarrow> anytls_error + padding_instruction" where
  "parse_instruction part =
     (if part = ''c'' then Inr Check
      else
        and_then (ok_or (BadPaddingRange part) (split_once (CHR ''-'') part)) (\<lambda>(lo, hi).
        and_then (parse_usize BadPaddingNumber lo) (\<lambda>lo.
        and_then (parse_usize BadPaddingNumber hi) (\<lambda>hi.
        and_then (ensure (lo \<le> hi) PaddingReversed) (\<lambda>_.
        and_then (ensure (hi \<le> MAX_PADDING_SIZE) PaddingTooLarge) (\<lambda>_. Inr (Range lo hi)))))))"

definition parse_padding_item :: "padding_scheme \<Rightarrow> string \<Rightarrow> anytls_error + padding_scheme" where
  "parse_padding_item scheme item =
     and_then (ok_or (BadPaddingItem item) (split_once (CHR ''='') item)) (\<lambda>(key, value).
     if key = ''stop'' then and_then (parse_usize BadPaddingStop value) (\<lambda>n. Inr (scheme\<lparr>ps_stop := n\<rparr>))
     else
       and_then (parse_usize BadPaddingIndex key) (\<lambda>index.
       and_then (try_map parse_instruction (split_on (CHR '','') value)) (\<lambda>rules.
       and_then (ensure (rules \<noteq> []) PaddingEmpty) (\<lambda>_.
       Inr (scheme\<lparr>ps_rules := (ps_rules scheme)(index \<mapsto> rules)\<rparr>)))))"

definition parse_padding :: "string \<Rightarrow> anytls_error + padding_scheme" where
  "parse_padding text =
     (let source = (if trim text = [] then DEFAULT_PADDING_SCHEME else text) in
      and_then (try_fold parse_padding_item \<lparr>ps_stop = 8, ps_rules = Map.empty, ps_source = source\<rparr>
          (split_whitespace source)) (\<lambda>scheme.
      and_then (ensure (0 < ps_stop scheme) PaddingStopZero) (\<lambda>_. Inr scheme)))"

text \<open>
  \<open>random_range\<close>: eight random bytes, or the failure of the system's generator. The upper end
  of the range is never drawn unless it is the lower one.
\<close>

definition random_range :: "u64 option \<Rightarrow> nat \<Rightarrow> nat \<Rightarrow> nat" where
  "random_range random lo hi =
     (if lo \<ge> hi then lo
      else case random of None \<Rightarrow> lo | Some r \<Rightarrow> lo + unat r mod (hi - lo))"

lemma random_range_bounds: "lo \<le> hi \<Longrightarrow> lo \<le> random_range r lo hi \<and> random_range r lo hi \<le> hi"
proof -
  assume le: "lo \<le> hi"
  have "lo + unat x mod (hi - lo) \<le> hi" if "lo < hi" for x :: u64
  proof -
    from that have "unat x mod (hi - lo) < hi - lo" by simp
    with le show ?thesis by linarith
  qed
  with le show ?thesis by (auto simp: random_range_def split: option.splits)
qed

fun first_range :: "padding_instruction list \<Rightarrow> (nat \<times> nat) option" where
  "first_range [] = None"
| "first_range (Range lo hi # rules) = Some (lo, hi)"
| "first_range (Check # rules) = first_range rules"

definition auth_padding_len :: "u64 option \<Rightarrow> padding_scheme \<Rightarrow> nat" where
  "auth_padding_len random scheme =
     (case ps_rules scheme 0 of
        None \<Rightarrow> 0
      | Some rules \<Rightarrow>
          (case first_range rules of None \<Rightarrow> 0 | Some (lo, hi) \<Rightarrow> random_range random lo hi))"

section \<open>The padded writer\<close>

text \<open>
  \<open>append_waste\<close> fills a record up to the target with WASTE frames, as far as whole frames go.
\<close>

function append_waste :: "nat \<Rightarrow> bytes \<Rightarrow> anytls_error + bytes" where
  "append_waste target rec =
     (if length rec + 7 \<le> target then
        let n = min (target - length rec - 7) MAX_FRAME_SIZE in
        and_then (encode_frame rec \<lparr>fr_command = CMD_WASTE, fr_stream_id = 0, fr_data = replicate n 0\<rparr>)
          (\<lambda>rec. append_waste target rec)
      else Inr rec)"
  by pat_completeness auto
termination
  by (relation "measure (\<lambda>(target, rec). target - length rec)")
    (auto simp: encode_frame_def split: if_splits)

declare append_waste.simps [simp del]

text \<open>
  The loop over the instructions: the packet and the offset of what is still to be written; the
  \<open>k\<close>-th range draws from \<open>random k\<close>. The result lists what each \<open>write_all\<close> wrote; a writer that
  fails stops after a prefix of them.
\<close>

fun padded_records ::
    "(nat \<Rightarrow> u64 option) \<Rightarrow> nat \<Rightarrow> padding_instruction list \<Rightarrow> bytes \<Rightarrow> nat \<Rightarrow> anytls_error + bytes list" where
  "padded_records random k [] packet offset =
     Inr (if offset < length packet then [drop offset packet] else [])"
| "padded_records random k (Check # rules) packet offset =
     (if offset = length packet then Inr [] else padded_records random k rules packet offset)"
| "padded_records random k (Range lo hi # rules) packet offset =
     (let target = random_range (random k) lo hi;
          n = min (length packet - offset) target in
      and_then (append_waste target (take n (drop offset packet))) (\<lambda>rec.
      and_then (padded_records random (Suc k) rules packet (offset + n)) (\<lambda>recs. Inr (rec # recs))))"

definition write_padded_frame ::
    "(nat \<Rightarrow> u64 option) \<Rightarrow> padding_scheme \<Rightarrow> frame \<Rightarrow> nat \<Rightarrow> (anytls_error + bytes list) \<times> nat" where
  "write_padded_frame random scheme f packet_index =
     (case encode_frame [] f of
        Inl e \<Rightarrow> (Inl e, packet_index)
      | Inr packet \<Rightarrow>
          (case (if packet_index < ps_stop scheme then ps_rules scheme packet_index else None) of
             None \<Rightarrow> Inr [packet]
           | Some rules \<Rightarrow> padded_records random 0 rules packet 0, Suc packet_index))"

text \<open>
  \<open>frame_writer\<close> over the frames taken from the channel. Each frame is padded by the scheme in
  force when it is written.
\<close>

fun frame_writer ::
    "(nat \<Rightarrow> nat \<Rightarrow> u64 option) \<Rightarrow> (frame \<times> padding_scheme) list \<Rightarrow> nat \<Rightarrow> bytes list \<times> bool" where
  "frame_writer random [] packet_index = ([], True)"
| "frame_writer random ((f, scheme) # fs) packet_index =
     (case write_padded_frame (random packet_index) scheme f packet_index of
        (Inl e, _) \<Rightarrow> ([], False)
      | (Inr recs, packet_index') \<Rightarrow>
          (case frame_writer random fs packet_index' of (later, alive) \<Rightarrow> (recs @ later, alive)))"

section \<open>Padding carries no data and loses none\<close>

definition waste :: "frame \<Rightarrow> bool" where
  "waste f \<longleftrightarrow> fr_command f = CMD_WASTE"

definition put_frames :: "frame list \<Rightarrow> bytes" where
  "put_frames fs = concat (map (\<lambda>f. projr (encode_frame [] f)) fs)"

definition frames_ok :: "frame list \<Rightarrow> bool" where
  "frames_ok fs \<longleftrightarrow> list_all (\<lambda>f. length (fr_data f) \<le> MAX_FRAME_SIZE) fs"

lemma encode_ok: "length (fr_data f) \<le> MAX_FRAME_SIZE \<Longrightarrow> encode_frame [] f = Inr (projr (encode_frame [] f))"
  by (simp add: encode_frame_def)

lemma put_frames_simps [simp]:
  "put_frames [] = []" "put_frames (f # fs) = projr (encode_frame [] f) @ put_frames fs"
  "put_frames (fs @ gs) = put_frames fs @ put_frames gs"
  by (simp_all add: put_frames_def)

lemma read_put_frames:
  "frames_ok fs \<Longrightarrow> read_many read_frame (length fs) (put_frames fs @ rest) = Inr (fs, rest)"
proof -
  assume "frames_ok fs"
  then have "list_all2 (\<lambda>f bs. encode_frame [] f = Inr bs) fs (map (\<lambda>f. projr (encode_frame [] f)) fs)"
  proof (induction fs)
    case (Cons f fs)
    then show ?case using encode_ok [of f] by (simp add: frames_ok_def)
  qed simp
  from anytls_frame.dec_stream [OF this, of rest] show ?thesis by (simp add: put_frames_def)
qed

lemma append_waste_frames:
  "\<exists>ws. append_waste target rec = Inr (rec @ put_frames ws) \<and> frames_ok ws \<and> list_all waste ws
     \<and> (length rec \<le> target \<longrightarrow> length rec + length (put_frames ws) \<le> target
          \<and> target < length rec + length (put_frames ws) + 7)
     \<and> (target \<le> length rec \<longrightarrow> ws = [])"
proof (induction target rec rule: append_waste.induct)
  case (1 target rec)
  show ?case
  proof (cases "length rec + 7 \<le> target")
    case False
    then show ?thesis by (intro exI [of _ "[]"]) (auto simp: append_waste.simps frames_ok_def)
  next
    case True
    define n where "n = min (target - length rec - 7) MAX_FRAME_SIZE"
    let ?w = "\<lparr>fr_command = CMD_WASTE, fr_stream_id = 0, fr_data = replicate n 0\<rparr>"
    have n: "n \<le> MAX_FRAME_SIZE" "length rec + 7 + n \<le> target" using True by (simp_all add: n_def)
    have enc: "encode_frame rec ?w = Inr (rec @ projr (encode_frame [] ?w))"
      and len: "length (projr (encode_frame [] ?w)) = 7 + n"
      using n(1) by (simp_all add: encode_frame_def)
    from "1.IH" [OF True n_def enc] obtain ws where
      ws: "append_waste target (rec @ projr (encode_frame [] ?w)) = Inr ((rec @ projr (encode_frame [] ?w)) @ put_frames ws)"
        "frames_ok ws" "list_all waste ws"
        "length rec + 7 + n + length (put_frames ws) \<le> target \<and> target < length rec + 7 + n + length (put_frames ws) + 7"
      using len n(2) by (auto simp: algebra_simps)
    have "append_waste target rec = Inr (rec @ put_frames (?w # ws))"
      using True enc ws(1) by (subst append_waste.simps) (simp add: n_def)
    moreover have "frames_ok (?w # ws)" "list_all waste (?w # ws)"
      using n(1) ws(2,3) by (simp_all add: frames_ok_def waste_def)
    ultimately show ?thesis
      using ws(4) len True by (intro exI [of _ "?w # ws"]) (auto simp: algebra_simps)
  qed
qed

lemma append_waste_total: "\<exists>r. append_waste target rec = Inr r"
  using append_waste_frames [of target rec] by blast

text \<open>
  The records of a packet are the packet followed by whole WASTE frames: a record is filled up only
  when the packet ends in it.
\<close>

lemma padded_records_waste:
  "offset \<le> length packet \<Longrightarrow> \<exists>recs ws. padded_records random k rules packet offset = Inr recs
     \<and> concat recs = drop offset packet @ put_frames ws \<and> frames_ok ws \<and> list_all waste ws"
proof (induction random k rules packet offset rule: padded_records.induct)
  case (1 random k packet offset)
  have "frames_ok []" "list_all waste []" by (simp_all add: frames_ok_def)
  with 1 show ?case
    by (cases "offset = length packet") (auto intro!: exI [of _ "[] :: frame list"])
next
  case (2 random k rules packet offset)
  show ?case
  proof (cases "offset = length packet")
    case True
    then show ?thesis by (intro exI [of _ "[]"]) (simp add: frames_ok_def)
  next
    case False
    with 2 show ?thesis by simp
  qed
next
  case (3 random k lo hi rules packet offset)
  define target where "target = random_range (random k) lo hi"
  define n where "n = min (length packet - offset) target"
  let ?rec = "take n (drop offset packet)"
  have rec: "length ?rec = n" by (simp add: n_def)
  obtain ws where ws: "append_waste target ?rec = Inr (?rec @ put_frames ws)" "frames_ok ws" "list_all waste ws"
    "target \<le> length ?rec \<longrightarrow> ws = []"
    using append_waste_frames [of target ?rec] by blast
  have "offset + n \<le> length packet" using "3.prems" by (simp add: n_def)
  with "3.IH" [OF target_def n_def ws(1)] obtain recs vs where
    r: "padded_records random (Suc k) rules packet (offset + n) = Inr recs"
      "concat recs = drop (offset + n) packet @ put_frames vs" "frames_ok vs" "list_all waste vs"
    by blast
  have "put_frames ws @ drop (offset + n) packet = drop (offset + n) packet @ put_frames ws"
    using ws(4) rec by (cases "target \<le> n") (auto simp: n_def)
  then have "?rec @ put_frames ws @ drop (offset + n) packet = drop offset packet @ put_frames ws"
    by (metis append_assoc append_take_drop_id drop_drop add.commute)
  then have "concat ((?rec @ put_frames ws) # recs) = drop offset packet @ put_frames (ws @ vs)"
    using r(2) by simp
  moreover have "frames_ok (ws @ vs)" "list_all waste (ws @ vs)" using ws r by (simp_all add: frames_ok_def)
  moreover have "padded_records random k (Range lo hi # rules) packet offset = Inr ((?rec @ put_frames ws) # recs)"
    using ws(1) r(1) by (simp add: target_def [symmetric] n_def [symmetric] Let_def)
  ultimately show ?case by blast
qed

lemma write_padded_waste:
  assumes "length (fr_data f) \<le> MAX_FRAME_SIZE"
  obtains recs ws where "write_padded_frame random scheme f i = (Inr recs, Suc i)"
    and "concat recs = put_frames (f # ws)" and "frames_ok ws" and "list_all waste ws"
proof -
  obtain packet where p: "encode_frame [] f = Inr packet" using encode_ok [OF assms] by blast
  show ?thesis
  proof (cases "if i < ps_stop scheme then ps_rules scheme i else None")
    case None
    then show ?thesis using p by (intro that [of "[packet]" "[]"]) (simp_all add: write_padded_frame_def frames_ok_def)
  next
    case (Some rules)
    obtain recs ws where "padded_records random 0 rules packet 0 = Inr recs"
      "concat recs = packet @ put_frames ws" "frames_ok ws" "list_all waste ws"
      using padded_records_waste [of 0 packet random 0 rules] by auto
    with Some p show ?thesis by (intro that [of recs ws]) (simp_all add: write_padded_frame_def)
  qed
qed

lemma frame_writer_waste:
  "frames_ok (map fst fs) \<Longrightarrow> \<exists>recs ws. frame_writer random fs i = (recs, True)
     \<and> concat recs = put_frames ws \<and> frames_ok ws
     \<and> filter (\<lambda>f. \<not> waste f) ws = filter (\<lambda>f. \<not> waste f) (map fst fs)"
proof (induction fs arbitrary: i)
  case Nil
  then show ?case by (intro exI [of _ "[]"]) (simp add: frames_ok_def)
next
  case (Cons x fs)
  obtain f scheme where x: "x = (f, scheme)" by force
  with Cons.prems have "length (fr_data f) \<le> MAX_FRAME_SIZE" by (simp add: frames_ok_def)
  then obtain recs ws where w: "write_padded_frame (random i) scheme f i = (Inr recs, Suc i)"
    "concat recs = put_frames (f # ws)" "frames_ok ws" "list_all waste ws"
    by (rule write_padded_waste)
  from Cons.prems have "frames_ok (map fst fs)" by (simp add: frames_ok_def)
  from Cons.IH [OF this, of "Suc i"] obtain recs' ws' where w': "frame_writer random fs (Suc i) = (recs', True)"
    "concat recs' = put_frames ws'" "frames_ok ws'" "filter (\<lambda>f. \<not> waste f) ws' = filter (\<lambda>f. \<not> waste f) (map fst fs)"
    by blast
  have none: "filter (\<lambda>f. \<not> waste f) ws = []" using w(4) by (auto simp: list_all_iff filter_empty_conv)
  have "frame_writer random (x # fs) i = (recs @ recs', True)" using w(1) w'(1) by (simp add: x)
  moreover have "concat (recs @ recs') = put_frames ((f # ws) @ ws')" using w(2) w'(2) by simp
  moreover have "frames_ok ((f # ws) @ ws')" using Cons.prems x w(3) w'(3) by (simp add: frames_ok_def)
  moreover have "filter (\<lambda>f. \<not> waste f) ((f # ws) @ ws') = filter (\<lambda>f. \<not> waste f) (map fst (x # fs))"
    using w'(4) none x by simp
  ultimately show ?case by blast
qed

text \<open>The lengths a scheme asks for are kept: a record is at most six bytes short of the drawn length.\<close>

fun ranges :: "padding_instruction list \<Rightarrow> (nat \<times> nat) list" where
  "ranges [] = []"
| "ranges (Range lo hi # rules) = (lo, hi) # ranges rules"
| "ranges (Check # rules) = ranges rules"

definition instruction_ok :: "padding_instruction \<Rightarrow> bool" where
  "instruction_ok i \<longleftrightarrow> (case i of Range lo hi \<Rightarrow> lo \<le> hi \<and> hi \<le> MAX_PADDING_SIZE | Check \<Rightarrow> True)"

lemma instruction_ok_simps [simp]:
  "instruction_ok (Range lo hi) \<longleftrightarrow> lo \<le> hi \<and> hi \<le> MAX_PADDING_SIZE" "instruction_ok Check"
  by (simp_all add: instruction_ok_def)

text \<open>
  What a scheme asks of the writer of \<open>len\<close> bytes, as the list of the targets \<open>ts\<close> of its padded records: one for each
  range, except that a check behind which nothing is left ends the list; and no earlier check may find nothing left.
\<close>

definition follows_scheme :: "padding_instruction list \<Rightarrow> nat list \<Rightarrow> nat \<Rightarrow> bool" where
  "follows_scheme rules ts len \<longleftrightarrow>
     (length ts = length (ranges rules)
        \<or> (\<exists>before after. rules = before @ Check # after \<and> length (ranges before) = length ts \<and> len \<le> sum_list ts))
     \<and> (\<forall>before after. rules = before @ Check # after \<and> length (ranges before) < length ts
          \<longrightarrow> sum_list (take (length (ranges before)) ts) < len)"

text \<open>The target of the \<open>k\<close>-th range is drawn between its ends.\<close>

fun drawn :: "(nat \<Rightarrow> u64 option) \<Rightarrow> nat \<Rightarrow> (nat \<times> nat) list \<Rightarrow> nat list" where
  "drawn random k [] = []"
| "drawn random k ((lo, hi) # rs) = random_range (random k) lo hi # drawn random (Suc k) rs"

lemma follows_end: "follows_scheme [] [] len" "follows_scheme (Check # rules) [] 0"
  by (auto simp: follows_scheme_def intro: exI [of _ "[]"])

lemma follows_check:
  assumes "follows_scheme rules ts len" and "0 < len"
  shows "follows_scheme (Check # rules) ts len"
proof -
  have "\<exists>before after. Check # rules = before @ Check # after \<and> length (ranges before) = length ts \<and> len \<le> sum_list ts"
    if "rules = before @ Check # after" "length (ranges before) = length ts" "len \<le> sum_list ts" for before after
    using that by (intro exI [of _ "Check # before"] exI [of _ after]) simp
  with assms show ?thesis unfolding follows_scheme_def by (auto simp: Cons_eq_append_conv)
qed

lemma follows_range:
  assumes "follows_scheme rules ts (len - t)"
  shows "follows_scheme (Range lo hi # rules) (t # ts) len"
proof -
  have "\<exists>before after. Range lo hi # rules = before @ Check # after
      \<and> length (ranges before) = length (t # ts) \<and> len \<le> sum_list (t # ts)"
    if "rules = before @ Check # after" "length (ranges before) = length ts" "len - t \<le> sum_list ts" for before after
    using that by (intro exI [of _ "Range lo hi # before"] exI [of _ after]) simp
  with assms show ?thesis unfolding follows_scheme_def by (auto simp: Cons_eq_append_conv less_diff_conv)
qed

lemma padded_records_lengths:
  "padded_records random k rules packet offset = Inr recs \<Longrightarrow> offset \<le> length packet \<Longrightarrow>
    \<exists>rs ts. follows_scheme rules ts (length packet - offset) \<and> ts = take (length ts) (drawn random k (ranges rules))
      \<and> recs = rs @ (if offset + sum_list ts < length packet then [drop (offset + sum_list ts) packet] else [])
      \<and> list_all2 (\<lambda>r t. length r \<le> t \<and> t < length r + 7) rs ts"
proof (induction random k rules packet offset arbitrary: recs rule: padded_records.induct)
  case (1 random k packet offset)
  then show ?case by (intro exI [of _ "[]"]) (auto simp: follows_end)
next
  case (2 random k rules packet offset)
  show ?case
  proof (cases "offset = length packet")
    case True
    with "2.prems" show ?thesis by (intro exI [of _ "[]"]) (simp add: follows_end)
  next
    case False
    with "2.prems" obtain rs ts where "follows_scheme rules ts (length packet - offset)"
      "ts = take (length ts) (drawn random k (ranges rules))"
      "recs = rs @ (if offset + sum_list ts < length packet then [drop (offset + sum_list ts) packet] else [])"
      "list_all2 (\<lambda>r t. length r \<le> t \<and> t < length r + 7) rs ts"
      using "2.IH" by force
    with False "2.prems"(2) show ?thesis by (intro exI [of _ rs] exI [of _ ts]) (simp add: follows_check)
  qed
next
  case (3 random k lo hi rules packet offset)
  define target where "target = random_range (random k) lo hi"
  define n where "n = min (length packet - offset) target"
  let ?rec = "take n (drop offset packet)"
  have rec: "length ?rec \<le> target" by (simp add: n_def)
  obtain ws where ws: "append_waste target ?rec = Inr (?rec @ put_frames ws)"
    "length (?rec @ put_frames ws) \<le> target" "target < length (?rec @ put_frames ws) + 7"
    using append_waste_frames [of target ?rec] rec by auto
  from "3.prems"(1) ws(1) obtain recs' where
    r: "padded_records random (Suc k) rules packet (offset + n) = Inr recs'" "recs = (?rec @ put_frames ws) # recs'"
    by (auto simp: target_def [symmetric] n_def [symmetric] Let_def)
  have "offset + n \<le> length packet" using "3.prems"(2) by (simp add: n_def)
  from "3.IH" [OF target_def n_def ws(1) r(1) this] obtain rs ts where
    ts: "follows_scheme rules ts (length packet - (offset + n))" "ts = take (length ts) (drawn random (Suc k) (ranges rules))"
    "recs' = rs @ (if offset + n + sum_list ts < length packet then [drop (offset + n + sum_list ts) packet] else [])"
    "list_all2 (\<lambda>r t. length r \<le> t \<and> t < length r + 7) rs ts" by blast
  have "length packet - (offset + n) = length packet - offset - target" by (simp add: n_def)
  with ts(1) have "follows_scheme (Range lo hi # rules) (target # ts) (length packet - offset)"
    by (simp only: follows_range)
  moreover have "target # ts = take (length (target # ts)) (drawn random k (ranges (Range lo hi # rules)))"
    using ts(2) by (simp add: target_def)
  moreover have "(if offset + n + sum_list ts < length packet then [drop (offset + n + sum_list ts) packet] else [])
      = (if offset + sum_list (target # ts) < length packet then [drop (offset + sum_list (target # ts)) packet] else [])"
    by (cases "target \<le> length packet - offset") (auto simp: n_def min_def add.assoc)
  with ts(3) r(2) have "recs = ((?rec @ put_frames ws) # rs)
      @ (if offset + sum_list (target # ts) < length packet then [drop (offset + sum_list (target # ts)) packet] else [])" by simp
  moreover have "list_all2 (\<lambda>r t. length r \<le> t \<and> t < length r + 7) ((?rec @ put_frames ws) # rs) (target # ts)"
    using ws(2,3) ts(4) by simp
  ultimately show ?case by blast
qed

lemma drawn_bounds: "\<forall>(lo, hi) \<in> set rs. lo \<le> hi \<Longrightarrow> list_all2 (\<lambda>t (lo, hi). lo \<le> t \<and> t \<le> hi) (drawn random k rs) rs"
  using random_range_bounds by (induction random k rs rule: drawn.induct) auto

lemma ranges_ok: "list_all instruction_ok rules \<Longrightarrow> \<forall>(lo, hi) \<in> set (ranges rules). lo \<le> hi"
  by (induction rules rule: ranges.induct) auto

lemma parse_instruction_ok: "parse_instruction part = Inr i \<Longrightarrow> instruction_ok i"
  by (auto simp: parse_instruction_def instruction_ok_def split: if_splits)

definition scheme_ok :: "padding_scheme \<Rightarrow> bool" where
  "scheme_ok scheme \<longleftrightarrow>
     (\<forall>i rules. ps_rules scheme i = Some rules \<longrightarrow> rules \<noteq> [] \<and> list_all instruction_ok rules)"

lemma parse_padding_item_ok:
  "scheme_ok scheme \<Longrightarrow> parse_padding_item scheme item = Inr scheme' \<Longrightarrow> scheme_ok scheme'
    \<and> ps_source scheme' = ps_source scheme"
  by (fastforce simp: parse_padding_item_def scheme_ok_def list_all_iff try_map_set
      intro: parse_instruction_ok split: if_splits)

lemma parse_padding_ok:
  assumes "parse_padding text = Inr scheme"
  shows "scheme_ok scheme \<and> 0 < ps_stop scheme
    \<and> ps_source scheme = (if trim text = [] then DEFAULT_PADDING_SCHEME else text)"
proof -
  let ?source = "if trim text = [] then DEFAULT_PADDING_SCHEME else text"
  let ?init = "\<lparr>ps_stop = 8, ps_rules = Map.empty, ps_source = ?source\<rparr>"
  from assms have fold: "try_fold parse_padding_item ?init (split_whitespace ?source) = Inr scheme"
    and pos: "0 < ps_stop scheme" by (auto simp: parse_padding_def Let_def)
  from fold have "scheme_ok scheme \<and> ps_source scheme = ?source"
    by (rule try_fold_invariant) (simp_all add: scheme_ok_def, metis parse_padding_item_ok scheme_ok_def)
  with pos show ?thesis by simp
qed

section \<open>Properties\<close>

text \<open>C7: padding is transparent. Whatever the schemes, the random draws and the frames, the bytes the
  padded writer puts on the connection are whole frames, and the frames a reader gets out of them are
  those written, in order, with nothing but WASTE frames in between.\<close>

theorem padded_stream_transparent:
  assumes "list_all (\<lambda>f. length (fr_data f) \<le> 65535) (map fst fs)"
  shows "\<exists>recs ws. frame_writer random fs 1 = (recs, True)
    \<and> read_many read_frame (length ws) (concat recs @ rest) = Inr (ws, rest)
    \<and> filter (\<lambda>f. fr_command f \<noteq> CMD_WASTE) ws = filter (\<lambda>f. fr_command f \<noteq> CMD_WASTE) (map fst fs)"
proof -
  from assms have "frames_ok (map fst fs)" by (simp add: frames_ok_def MAX_FRAME_SIZE_def)
  from frame_writer_waste [OF this, of random 1] read_put_frames show ?thesis
    unfolding waste_def by metis
qed

definition sample_scheme :: padding_scheme where
  "sample_scheme = \<lparr>ps_stop = 8, ps_rules = [1 \<mapsto> [Range 9 9]], ps_source = ''1=9-9''\<rparr>"

theorem padded_stream_transparent_witness:
  "\<exists>recs ws. frame_writer (\<lambda>_ _. None) [(new_frame CMD_PSH 1 [7], sample_scheme), (new_frame CMD_FIN 1 [], sample_scheme)] 1 = (recs, True)
    \<and> read_many read_frame (length ws) (concat recs) = Inr (ws, [])
    \<and> filter (\<lambda>f. fr_command f \<noteq> CMD_WASTE) ws = [new_frame CMD_PSH 1 [7], new_frame CMD_FIN 1 []]"
proof -
  let ?fs = "[(new_frame CMD_PSH 1 [7], sample_scheme), (new_frame CMD_FIN 1 [], sample_scheme)]"
  have "list_all (\<lambda>f. length (fr_data f) \<le> 65535) (map fst ?fs)" by (simp add: new_frame_def)
  from padded_stream_transparent [OF this, of "\<lambda>_ _. None" "[]"] show ?thesis
    by (simp add: new_frame_def cmd_defs)
qed

text \<open>C26: Records have the lengths the scheme asks for. With a scheme that was parsed and has rules for the packet, the writer draws
  one target within each range, in their order, for all ranges or up to the first check at which the frame is already
  written; the record of each target is no longer than it and at most six bytes, in which no frame fits, shorter; and exactly
  when the targets together are shorter than the frame, its rest follows as one more record.\<close>

theorem padded_record_lengths:
  assumes "parse_padding text = Inr scheme"
    and "i < ps_stop scheme" and "ps_rules scheme i = Some rules"
    and "write_padded_frame random scheme f i = (Inr recs, j)"
  shows "j = Suc i \<and> (\<exists>packet rs ts. encode_frame [] f = Inr packet
    \<and> follows_scheme rules ts (length packet) \<and> ts = take (length ts) (drawn random 0 (ranges rules))
    \<and> list_all2 (\<lambda>t (lo, hi). lo \<le> t \<and> t \<le> hi) ts (take (length ts) (ranges rules))
    \<and> list_all2 (\<lambda>r t. length r \<le> t \<and> t < length r + 7) rs ts
    \<and> recs = rs @ (if sum_list ts < length packet then [drop (sum_list ts) packet] else []))"
proof -
  from parse_padding_ok [OF assms(1)] assms(3) have ok: "list_all instruction_ok rules" by (simp add: scheme_ok_def)
  from assms(2-4) obtain packet where p: "encode_frame [] f = Inr packet" "padded_records random 0 rules packet 0 = Inr recs" "j = Suc i"
    by (auto simp: write_padded_frame_def split: sum.splits)
  from padded_records_lengths [OF p(2)] obtain rs ts where ts: "follows_scheme rules ts (length packet)"
    "ts = take (length ts) (drawn random 0 (ranges rules))"
    "recs = rs @ (if sum_list ts < length packet then [drop (sum_list ts) packet] else [])"
    "list_all2 (\<lambda>r t. length r \<le> t \<and> t < length r + 7) rs ts" by auto
  have "list_all2 (\<lambda>t (lo, hi). lo \<le> t \<and> t \<le> hi) ts (take (length ts) (ranges rules))"
    using list_all2_takeI [OF drawn_bounds [OF ranges_ok [OF ok], of random 0], of "length ts"] ts(2) by simp
  with p(1,3) ts show ?thesis by blast
qed

lemma sample_scheme_parsed: "parse_padding ''1=9-9'' = Inr sample_scheme"
proof -
  have g: "\<forall>c \<in> set ''1=9-9''. graphic c" by (simp add: graphic_def)
  have "split_whitespace ''1=9-9'' = [''1=9-9'']" using g by (intro split_whitespace_one) simp_all
  moreover have "trim ''1=9-9'' = ''1=9-9''" using g by (rule trim_graphic)
  moreover have "split_once (CHR ''='') ''1=9-9'' = Some (''1'', ''9-9'')"
    "split_once (CHR ''-'') ''9-9'' = Some (''9'', ''9'')" "split_on (CHR '','') ''9-9'' = [''9-9'']"
    by code_simp+
  moreover have "parse_usize e ''1'' = Inr 1" "parse_usize e ''9'' = Inr 9" for e
    by (simp_all add: parse_usize_def parse_uint_def to_digit_def USIZE_MAX_def)
  ultimately show ?thesis
    by (simp add: parse_padding_def parse_padding_item_def parse_instruction_def MAX_PADDING_SIZE_def
        sample_scheme_def)
qed

text \<open>A frame of seven bytes in one record of nine: two bytes are left in which no frame fits, and nothing follows.\<close>

theorem padded_record_lengths_witness:
  "\<exists>r. write_padded_frame (\<lambda>_. None) sample_scheme (new_frame CMD_FIN 1 []) 1 = (Inr [r], 2) \<and> length r \<le> 9 \<and> 9 < length r + 7"
proof -
  have "length (fr_data (new_frame CMD_FIN 1 [])) \<le> MAX_FRAME_SIZE" by (simp add: new_frame_def)
  then obtain recs where w: "write_padded_frame (\<lambda>_. None) sample_scheme (new_frame CMD_FIN 1 []) 1 = (Inr recs, Suc 1)"
    by (rule write_padded_waste)
  from padded_record_lengths [OF sample_scheme_parsed _ _ w, of "[Range 9 9]"] obtain packet rs ts where
    p: "encode_frame [] (new_frame CMD_FIN 1 []) = Inr packet" "follows_scheme [Range 9 9] ts (length packet)"
    "ts = take (length ts) [9]" "list_all2 (\<lambda>r t. length r \<le> t \<and> t < length r + 7) rs ts"
    "recs = rs @ (if sum_list ts < length packet then [drop (sum_list ts) packet] else [])"
    by (auto simp: sample_scheme_def random_range_def)
  from p(1) have n: "length packet = 7" by (auto simp: encode_frame_def new_frame_def be_bytes_def)
  from p(2) have "length ts = 1" by (auto simp: follows_scheme_def Cons_eq_append_conv)
  with p(3) have "ts = [9]" by simp
  with p(4,5) n w show ?thesis by (auto simp: list_all2_Cons2)
qed

end
