(* ===== verification/Md5.thy ===== *)
theory Md5
  imports Rust_Text
begin

text \<open>
  MD5 as \<open>md5_hex\<close> of the AnyTLS crate computes it: padding to whole 64 byte blocks, the 64 rounds
  on four 32 bit words that wrap around, and the hexadecimal text of the digest. Both sides of a
  connection compare it to see whether they use the same padding scheme.
\<close>

definition SHIFT :: "nat list" where
  "SHIFT = [7, 12, 17, 22, 7, 12, 17, 22, 7, 12, 17, 22, 7, 12, 17, 22,
     5, 9, 14, 20, 5, 9, 14, 20, 5, 9, 14, 20, 5, 9, 14, 20,
     4, 11, 16, 23, 4, 11, 16, 23, 4, 11, 16, 23, 4, 11, 16, 23,
     6, 10, 15, 21, 6, 10, 15, 21, 6, 10, 15, 21, 6, 10, 15, 21]"

definition CONSTANTS :: "u32 list" where
  "CONSTANTS = [
     0xd76aa478, 0xe8c7b756, 0x242070db, 0xc1bdceee, 0xf57c0faf, 0x4787c62a, 0xa8304613, 0xfd469501,
     0x698098d8, 0x8b44f7af, 0xffff5bb1, 0x895cd7be, 0x6b901122, 0xfd987193, 0xa679438e, 0x49b40821,
     0xf61e2562, 0xc040b340, 0x265e5a51, 0xe9b6c7aa, 0xd62f105d, 0x02441453, 0xd8a1e681, 0xe7d3fbc8,
     0x21e1cde6, 0xc33707d6, 0xf4d50d87, 0x455a14ed, 0xa9e3e905, 0xfcefa3f8, 0x676f02d9, 0x8d2a4c8a,
     0xfffa3942, 0x8771f681, 0x6d9d6122, 0xfde5380c, 0xa4beea44, 0x4bdecfa9, 0xf6bb4b60, 0xbebfbc70,
     0x289b7ec6, 0xeaa127fa, 0xd4ef3085, 0x04881d05, 0xd9d4d039, 0xe6db99e5, 0x1fa27cf8, 0xc4ac5665,
     0xf4292244, 0x432aff97, 0xab9423a7, 0xfc93a039, 0x655b59c3, 0x8f0ccc92, 0xffeff47d, 0x85845dd1,
     0x6fa87e4f, 0xfe2ce6e0, 0xa3014314, 0x4e0811a1, 0xf7537e82, 0xbd3af235, 0x2ad7d2bb, 0xeb86d391]"

text \<open>Little-endian integers.\<close>

fun le_list :: "nat \<Rightarrow> nat \<Rightarrow> bytes" where
  "le_list 0 v = []"
| "le_list (Suc n) v = of_nat (v mod 256) # le_list n (v div 256)"

definition from_le :: "bytes \<Rightarrow> 'a::len word" where
  "from_le bs = of_nat (foldr (\<lambda>b a. unat b + 256 * a) bs 0)"

definition to_le :: "'a::len word \<Rightarrow> bytes" where
  "to_le w = le_list (LENGTH('a) div 8) (unat w)"

lemma length_le_list [simp]: "length (le_list n v) = n"
  by (induction n arbitrary: v) auto

text \<open>
  The message with the bit 1, zeros up to 56 modulo 64, and the length in bits, which is that of
  \<open>(len as u64) * 8\<close> for every input a memory can hold.
\<close>

definition md5_message :: "bytes \<Rightarrow> bytes" where
  "md5_message input =
     (let m = input @ [0x80] in
      m @ replicate ((120 - length m mod 64) mod 64) 0 @ to_le (of_nat (length input) * 8 :: u64))"

type_synonym md5_state = "u32 \<times> u32 \<times> u32 \<times> u32"

definition md5_mix :: "nat \<Rightarrow> u32 \<Rightarrow> u32 \<Rightarrow> u32 \<Rightarrow> u32 \<times> nat" where
  "md5_mix i b c d =
     (if i \<le> 15 then (or (and b c) (and (not b) d), i)
      else if i \<le> 31 then (or (and d b) (and (not d) c), (5 * i + 1) mod 16)
      else if i \<le> 47 then (xor (xor b c) d, (3 * i + 5) mod 16)
      else (xor c (or b (not d)), 7 * i mod 16))"

definition md5_round :: "u32 list \<Rightarrow> md5_state \<Rightarrow> nat \<Rightarrow> md5_state" where
  "md5_round ws = (\<lambda>(a, b, c, d) i.
     let (f, k) = md5_mix i b c d;
         t = word_rotl (SHIFT ! i) (a + f + CONSTANTS ! i + ws ! k)
     in (d, b + t, b, c))"

definition md5_words :: "bytes \<Rightarrow> u32 list" where
  "md5_words chunk = map (\<lambda>i. from_le (take 4 (drop (4 * i) chunk))) [0..<16]"

definition md5_block :: "md5_state \<Rightarrow> bytes \<Rightarrow> md5_state" where
  "md5_block = (\<lambda>(s0, s1, s2, s3) chunk.
     case foldl (md5_round (md5_words chunk)) (s0, s1, s2, s3) [0..<64] of
       (a, b, c, d) \<Rightarrow> (s0 + a, s1 + b, s2 + c, s3 + d))"

text \<open>\<open>chunks_exact(64)\<close>.\<close>

fun md5_blocks :: "nat \<Rightarrow> md5_state \<Rightarrow> bytes \<Rightarrow> md5_state" where
  "md5_blocks 0 s m = s"
| "md5_blocks (Suc n) s m = md5_blocks n (md5_block s (take 64 m)) (drop 64 m)"

definition md5_init :: md5_state where
  "md5_init = (0x67452301, 0xefcdab89, 0x98badcfe, 0x10325476)"

definition hex_byte :: "u8 \<Rightarrow> string" where
  "hex_byte b = [digit_char (unat b div 16), digit_char (unat b mod 16)]"

definition md5_hex :: "bytes \<Rightarrow> string" where
  "md5_hex input =
     (let m = md5_message input in
      case md5_blocks (length m div 64) md5_init m of
        (a, b, c, d) \<Rightarrow> concat (map hex_byte (to_le a @ to_le b @ to_le c @ to_le d)))"

section \<open>Shape of the digest\<close>

lemma md5_message_blocks: "length (md5_message input) mod 64 = 0"
proof -
  have pad: "(n + (120 - n mod 64) mod 64 + 8) mod 64 = 0" for n :: nat
  proof -
    have "(n + (120 - n mod 64) mod 64 + 8) mod 64 = (n mod 64 + (120 - n mod 64) + 8) mod 64"
      by (rule mod_add_cong mod_mod_trivial [symmetric] mod_mod_trivial refl)+
    moreover have "n mod 64 < 64" by simp
    then have "n mod 64 + (120 - n mod 64) + 8 = 128" by linarith
    ultimately show ?thesis by simp
  qed
  from pad [of "length input + 1"] show ?thesis by (simp add: md5_message_def to_le_def Let_def ac_simps)
qed

lemma md5_hex_length: "length (md5_hex input) = 32"
proof -
  obtain a b c d where s: "md5_blocks (length (md5_message input) div 64) md5_init (md5_message input) = (a, b, c, d)"
    using prod_cases4 by blast
  have "length (concat (map hex_byte bs)) = 2 * length bs" for bs
    by (induction bs) (simp_all add: hex_byte_def)
  then show ?thesis by (simp add: md5_hex_def Let_def s to_le_def)
qed

lemma hex_byte_graphic: "c \<in> set (hex_byte b) \<Longrightarrow> graphic c"
proof -
  have digit: "graphic (digit_char d)" if "d < 16" for d
    using that by (auto simp: graphic_def digit_char_def)
  have "unat b div 16 < 16" using unat_byte_less [of b] by linarith
  moreover assume "c \<in> set (hex_byte b)"
  ultimately show ?thesis using digit by (auto simp: hex_byte_def)
qed

lemma md5_hex_graphic: "\<forall>c \<in> set (md5_hex input). graphic c"
proof -
  obtain a b c d where s: "md5_blocks (length (md5_message input) div 64) md5_init (md5_message input) = (a, b, c, d)"
    using prod_cases4 by blast
  show ?thesis using hex_byte_graphic by (auto simp: md5_hex_def Let_def s)
qed

end
