(* ===== verification/Anytls_Auth.thy ===== *)
theory Anytls_Auth
  imports Anytls_Frame Md5
begin

text \<open>
  What travels inside an AnyTLS connection beside frames: the authentication prelude, the settings
  text, the address of a stream, and UDP packets over a stream (\<open>UotPacketConnection\<close>).
\<close>

section \<open>Authentication\<close>

text \<open>
  The prelude \<open>ClientSession::connect_stream\<close> writes, and what \<open>handle_inbound_connection\<close> reads.
  \<open>sha256\<close> is the digest of the ring library.
\<close>

definition auth_prelude ::
    "(bytes \<Rightarrow> bytes) \<Rightarrow> string \<Rightarrow> u64 option \<Rightarrow> padding_scheme \<Rightarrow> anytls_error + bytes" where
  "auth_prelude sha256 password random scheme =
     (let n = (if auth_padding_len random scheme = 0 then AUTH_PADDING else auth_padding_len random scheme) in
      and_then (ensure (n \<le> 65535) AuthPaddingTooLarge) (\<lambda>_.
      Inr (sha256 (as_bytes password) @ be_bytes (of_nat n :: u16) @ replicate n 0)))"

definition authenticate :: "(bytes \<rightharpoonup> string) \<Rightarrow> bytes \<Rightarrow> anytls_error + (string \<times> bytes)" where
  "authenticate users bs =
     and_then (read_exact AnyEof 32 bs) (\<lambda>(hash, bs).
     and_then (ok_or AuthenticationFailed (users hash)) (\<lambda>user.
     and_then (read_be AnyEof bs) (\<lambda>(n :: u16, bs).
     and_then (read_exact AnyEof (unat n) bs) (\<lambda>(_, bs). Inr (user, bs)))))"

text \<open>The table of users an inbound is built with; a user without a name is called by its position.\<close>

definition add_user ::
    "(bytes \<Rightarrow> bytes) \<Rightarrow> (bytes \<rightharpoonup> string) \<Rightarrow> nat \<times> string \<times> string \<Rightarrow> anytls_error + (bytes \<rightharpoonup> string)" where
  "add_user sha256 users = (\<lambda>(index, name, password).
     and_then (ensure (password \<noteq> []) PasswordEmpty) (\<lambda>_.
     let key = sha256 (as_bytes password) in
     and_then (ensure (users key = None) DuplicatePassword) (\<lambda>_.
     Inr (users(key \<mapsto> (if name = [] then show_nat index else name))))))"

definition build_users ::
    "(bytes \<Rightarrow> bytes) \<Rightarrow> (string \<times> string) list \<Rightarrow> anytls_error + (bytes \<rightharpoonup> string)" where
  "build_users sha256 options =
     and_then (ensure (options \<noteq> []) UsersEmpty) (\<lambda>_.
     try_fold (add_user sha256) Map.empty (enumerate 0 options))"

lemma add_user_Inr:
  "add_user sha256 users (n, name, password) = Inr table \<longleftrightarrow> password \<noteq> [] \<and> users (sha256 (as_bytes password)) = None
    \<and> table = users(sha256 (as_bytes password) \<mapsto> (if name = [] then show_nat n else name))"
  by (auto simp: add_user_def Let_def)

lemma build_users_from:
  "try_fold (add_user sha256) users (enumerate n options) = Inr table \<Longrightarrow>
    (\<forall>k v. users k = Some v \<longrightarrow> table k = Some v)
    \<and> (\<forall>i < length options. table (sha256 (as_bytes (snd (options ! i))))
          = Some (if fst (options ! i) = [] then show_nat (n + i) else fst (options ! i)))"
proof (induction options arbitrary: users n)
  case (Cons x options)
  obtain name password where x: "x = (name, password)" by force
  let ?key = "sha256 (as_bytes password)" and ?name = "if name = [] then show_nat n else name"
  from Cons.prems x have new: "users ?key = None"
    and rec: "try_fold (add_user sha256) (users(?key \<mapsto> ?name)) (enumerate (Suc n) options) = Inr table"
    by (auto simp: add_user_Inr)
  note IH = Cons.IH [OF rec]
  from conjunct1 [OF IH] new have "users k = Some v \<Longrightarrow> table k = Some v" for k v
    by (cases "k = ?key") auto
  moreover from conjunct1 [OF IH] have "table ?key = Some ?name" by auto
  with conjunct2 [OF IH] x have "i < length (x # options) \<Longrightarrow> table (sha256 (as_bytes (snd ((x # options) ! i))))
      = Some (if fst ((x # options) ! i) = [] then show_nat (n + i) else fst ((x # options) ! i))" for i
    by (cases i) auto
  ultimately show ?case by blast
qed simp

lemma authenticate_prelude:
  assumes "length (sha256 (as_bytes password)) = 32" and "auth_prelude sha256 password random scheme = Inr bs"
  shows "authenticate users (bs @ rest) =
    (case users (sha256 (as_bytes password)) of None \<Rightarrow> Inl AuthenticationFailed | Some user \<Rightarrow> Inr (user, rest))"
proof -
  from assms(2) obtain n where n: "n \<le> 65535"
    "bs = sha256 (as_bytes password) @ be_bytes (of_nat n :: u16) @ replicate n 0"
    by (auto simp: auth_prelude_def Let_def)
  then show ?thesis using assms(1)
    by (simp add: authenticate_def unat_length_u16 split: option.splits)
qed

section \<open>Settings\<close>

fun find_setting :: "string \<Rightarrow> string list \<Rightarrow> string option" where
  "find_setting key [] = None"
| "find_setting key (line # ls) =
     (case split_once (CHR ''='') line of
        Some (name, value) \<Rightarrow> if name = key then Some value else find_setting key ls
      | None \<Rightarrow> find_setting key ls)"

definition setting_value :: "bytes \<Rightarrow> string \<Rightarrow> string option" where
  "setting_value d key =
     (case from_utf8 () d of Inl _ \<Rightarrow> None | Inr s \<Rightarrow> find_setting key (str_lines s))"

definition scheme_md5 :: "padding_scheme \<Rightarrow> string" where
  "scheme_md5 scheme = md5_hex (as_bytes (ps_source scheme))"

definition client_settings :: "padding_scheme \<Rightarrow> bytes" where
  "client_settings scheme =
     as_bytes (''v=2'' @ nl @ ''client=sing-box-rs'' @ nl @ ''padding-md5='' @ scheme_md5 scheme @ nl)"

lemma setting_value_client: "setting_value (client_settings scheme) ''padding-md5'' = Some (scheme_md5 scheme)"
proof -
  let ?m = "scheme_md5 scheme"
  have g: "\<forall>c \<in> set ?m. graphic c" by (simp add: scheme_md5_def md5_hex_graphic)
  then have m: "CHR 0x0A \<notin> set ?m" "CHR 0x0D \<notin> set ?m" by (auto simp: graphic_def)
  have "?m \<noteq> []" using md5_hex_length [of "as_bytes (ps_source scheme)"] by (auto simp: scheme_md5_def)
  with m(2) have strip: "strip_cr (''padding-md5='' @ ?m) = ''padding-md5='' @ ?m"
    by (simp add: strip_cr_def) (metis last_in_set)
  let ?t = "''v=2'' @ nl @ ''client=sing-box-rs'' @ nl @ ''padding-md5='' @ ?m @ nl"
  have "is_ascii ?m" using g by (rule is_ascii_graphic)
  then have "is_str ?t" by (intro is_ascii_is_str) (simp add: nl_def)
  moreover have "split_on (CHR 0x0A) ?t = [''v=2'', ''client=sing-box-rs'', ''padding-md5='' @ ?m, []]"
    using split_on_snoc [of "CHR 0x0A" "''padding-md5='' @ ?m" "[]"] m(1) by (simp add: nl_def)
  then have "str_lines ?t = [''v=2'', ''client=sing-box-rs'', ''padding-md5='' @ ?m]"
    using strip by (simp add: str_lines_def strip_cr_def)
  moreover have "split_once (CHR ''='') (''padding-md5='' @ ?m) = Some (''padding-md5'', ?m)"
    using split_once_append [of "CHR ''=''" "''padding-md5''" ?m] by simp
  moreover have "split_once (CHR ''='') ''v=2'' = Some (''v'', ''2'')"
    "split_once (CHR ''='') ''client=sing-box-rs'' = Some (''client'', ''sing-box-rs'')" by code_simp+
  ultimately show ?thesis
    unfolding setting_value_def client_settings_def by (simp del: append.simps as_bytes_append)
qed

section \<open>Addresses\<close>

definition any_addr :: "string \<Rightarrow> u16 \<Rightarrow> anytls_error + address" where
  "any_addr h p = map_err (\<lambda>_. EmptyHost) (new_address h p)"

definition read_stream_address :: "bytes \<Rightarrow> anytls_error + (address \<times> bytes)" where
  "read_stream_address bs =
     and_then (read_u8 AnyEof bs) (\<lambda>(kind, bs).
     and_then
       (if kind = 1 then
          and_then (read_exact AnyEof 4 bs) (\<lambda>(b, bs). Inr (show_ip (IpV4 (from_be b)), bs))
        else if kind = 3 then
          and_then (read_u8 AnyEof bs) (\<lambda>(n, bs).
          and_then (read_exact AnyEof (unat n) bs) (\<lambda>(b, bs).
          and_then (from_utf8 HostNotUtf8 b) (\<lambda>h. Inr (h, bs))))
        else if kind = 4 then
          and_then (read_exact AnyEof 16 bs) (\<lambda>(b, bs). Inr (show_ip (IpV6 (from_be b)), bs))
        else Inl (UnsupportedAddress kind))
       (\<lambda>(h, bs).
        and_then (read_be AnyEof bs) (\<lambda>(p, bs).
        and_then (any_addr h p) (\<lambda>a. Inr (a, bs)))))"

definition encode_stream_address :: "address \<Rightarrow> anytls_error + bytes" where
  "encode_stream_address a =
     and_then
       (case parse_ip (host a) of
          Some (IpV4 ip) \<Rightarrow> Inr (1 # be_bytes ip)
        | Some (IpV6 ip) \<Rightarrow> Inr (4 # be_bytes ip)
        | None \<Rightarrow>
            and_then (ensure (length (host a) \<le> 255) DomainTooLong) (\<lambda>_.
            Inr ([3, of_nat (length (host a))] @ as_bytes (host a))))
       (\<lambda>out. Inr (out @ be_bytes (port a)))"

definition read_uot_address :: "bytes \<Rightarrow> anytls_error + (address \<times> bytes)" where
  "read_uot_address bs =
     and_then (read_u8 AnyEof bs) (\<lambda>(kind, bs).
     and_then
       (if kind = 0 then
          and_then (read_exact AnyEof 4 bs) (\<lambda>(b, bs). Inr (show_ip (IpV4 (from_be b)), bs))
        else if kind = 1 then
          and_then (read_exact AnyEof 16 bs) (\<lambda>(b, bs). Inr (show_ip (IpV6 (from_be b)), bs))
        else if kind = 2 then
          and_then (read_u8 AnyEof bs) (\<lambda>(n, bs).
          and_then (read_exact AnyEof (unat n) bs) (\<lambda>(b, bs).
          and_then (from_utf8 HostNotUtf8 b) (\<lambda>h. Inr (h, bs))))
        else Inl (UnsupportedAddress kind))
       (\<lambda>(h, bs).
        and_then (read_be AnyEof bs) (\<lambda>(p, bs).
        and_then (any_addr h p) (\<lambda>a. Inr (a, bs)))))"

definition write_uot_address :: "address \<Rightarrow> anytls_error + bytes" where
  "write_uot_address a =
     and_then
       (case parse_ip (host a) of
          Some (IpV4 ip) \<Rightarrow> Inr (0 # be_bytes ip)
        | Some (IpV6 ip) \<Rightarrow> Inr (1 # be_bytes ip)
        | None \<Rightarrow>
            and_then (ensure (length (host a) \<le> 255) DomainTooLong) (\<lambda>_.
            Inr ([2, of_nat (length (host a))] @ as_bytes (host a))))
       (\<lambda>out. Inr (out @ be_bytes (port a)))"

text \<open>A host that starts with neither a hexadecimal digit nor a colon is no address literal.\<close>

lemma to_digit_decimal: "to_digit 10 c = Some d \<Longrightarrow> to_digit 16 c = Some d"
  by (simp add: to_digit_def Let_def split: if_split_asm)

lemma read_number_letter:
  assumes "to_digit 16 c = None" and "radix = 10 \<or> radix = 16"
  shows "read_number radix m z lim (c # s) = None"
proof -
  have "to_digit radix c = None" using assms to_digit_decimal [of c] by (cases "to_digit 10 c") auto
  then show ?thesis by (simp add: read_number_def)
qed

lemma parse_ip_letter: "to_digit 16 c = None \<Longrightarrow> c \<noteq> CHR '':'' \<Longrightarrow> parse_ip (c # s) = None"
proof -
  assume c: "to_digit 16 c = None" "c \<noteq> CHR '':''"
  have sizes: "(4 :: nat) = Suc 3" "(8 :: nat) = Suc 7" by simp_all
  have "read_octets 0 (Suc 3) (c # s) = None"
    by (simp only: read_octets.simps) (simp add: read_sep_def read_number_letter c(1))
  then have v4: "read_ipv4 (c # s) = None" by (simp only: read_ipv4_def sizes(1) option.map)
  then have "read_groups (Suc 7) 0 (c # s) = ([], False, c # s)"
    by (simp only: read_groups.simps) (simp add: read_sep_def read_number_letter c(1))
  then have "read_groups 8 0 (c # s) = ([], False, c # s)" by (simp only: sizes(2))
  then have "read_ipv6 (c # s) = None" using c(2) by (simp add: read_ipv6_def)
  with v4 show ?thesis by (simp add: parse_ip_def)
qed

lemma parse_ip_uot: "parse_ip UOT_MAGIC = None"
  by (simp add: UOT_MAGIC_def parse_ip_letter to_digit_def)

lemma any_addr_host: "h \<noteq> [] \<Longrightarrow> any_addr h (port a) = Inr (a\<lparr>host := h\<rparr>)"
  by (simp add: any_addr_def new_address_def)

lemma any_addr_ok: "h \<noteq> [] \<Longrightarrow> any_addr h p = Inr \<lparr>host = h, port = p\<rparr>"
  by (simp add: any_addr_def new_address_def)

lemma any_addr_show [simp]: "any_addr (show_ip ip) p = Inr \<lparr>host = show_ip ip, port = p\<rparr>"
  by (rule any_addr_ok) simp

definition stream_address_ok :: "address \<Rightarrow> anytls_error + bytes" where
  "stream_address_ok a = (if address_ok a then encode_stream_address a else Inl EmptyHost)"

definition uot_address_ok :: "address \<Rightarrow> anytls_error + bytes" where
  "uot_address_ok a = (if address_ok a then write_uot_address a else Inl EmptyHost)"

lemma read_stream_encode:
  assumes "address_ok a" and "encode_stream_address a = Inr bs"
  shows "read_stream_address (bs @ rest) = Inr (canonical a, rest)"
proof -
  from assms(2) consider
      (v4) ip where "parse_ip (host a) = Some (IpV4 ip)" "bs = 1 # be_bytes ip @ be_bytes (port a)"
    | (v6) ip where "parse_ip (host a) = Some (IpV6 ip)" "bs = 4 # be_bytes ip @ be_bytes (port a)"
    | (domain) "parse_ip (host a) = None" "length (host a) \<le> 255"
        "bs = 3 # of_nat (length (host a)) # as_bytes (host a) @ be_bytes (port a)"
    by (auto simp: encode_stream_address_def split: option.splits ip_addr.splits)
  then show ?thesis
  proof cases
    case domain
    with assms(1) unat_length_byte [OF domain(2)] show ?thesis
      by (simp add: read_stream_address_def canonical_def address_ok_def any_addr_ok)
  qed (simp_all add: read_stream_address_def canonical_def any_addr_host)
qed

lemma read_write_uot:
  assumes "address_ok a" and "write_uot_address a = Inr bs"
  shows "read_uot_address (bs @ rest) = Inr (canonical a, rest)"
proof -
  from assms(2) consider
      (v4) ip where "parse_ip (host a) = Some (IpV4 ip)" "bs = 0 # be_bytes ip @ be_bytes (port a)"
    | (v6) ip where "parse_ip (host a) = Some (IpV6 ip)" "bs = 1 # be_bytes ip @ be_bytes (port a)"
    | (domain) "parse_ip (host a) = None" "length (host a) \<le> 255"
        "bs = 2 # of_nat (length (host a)) # as_bytes (host a) @ be_bytes (port a)"
    by (auto simp: write_uot_address_def split: option.splits ip_addr.splits)
  then show ?thesis
  proof cases
    case domain
    with assms(1) unat_length_byte [OF domain(2)] show ?thesis
      by (simp add: read_uot_address_def canonical_def address_ok_def any_addr_ok)
  qed (simp_all add: read_uot_address_def canonical_def any_addr_host)
qed

interpretation anytls_address: codec stream_address_ok read_stream_address canonical
  by unfold_locales (simp add: stream_address_ok_def read_stream_encode split: if_splits)

interpretation uot_address: codec uot_address_ok read_uot_address canonical
  by unfold_locales (simp add: uot_address_ok_def read_write_uot split: if_splits)

section \<open>UDP over a stream\<close>

definition uot_send :: "packet \<Rightarrow> anytls_error + bytes" where
  "uot_send p =
     (let d = v_data (pk_data p) in
      and_then (ensure (length d \<le> UOT_MAX_PACKET) UdpPacketTooLarge) (\<lambda>_.
      and_then (write_uot_address (pk_destination p)) (\<lambda>a.
      Inr (a @ be_bytes (of_nat (length d) :: u16) @ d))))"

definition uot_recv :: "bytes \<Rightarrow> anytls_error + ((address \<times> bytes) \<times> bytes)" where
  "uot_recv bs =
     and_then (read_uot_address bs) (\<lambda>(destination, bs).
     and_then (read_be AnyEof bs) (\<lambda>(n :: u16, bs).
     and_then (ensure (unat n \<le> UOT_MAX_PACKET) UdpPacketTooLarge) (\<lambda>_.
     and_then (read_exact AnyEof (unat n) bs) (\<lambda>(d, bs). Inr ((destination, d), bs)))))"

definition write_uot_request :: "anytls_error + bytes" where
  "write_uot_request =
     and_then (any_addr UOT_MAGIC 0) (\<lambda>a. and_then (write_uot_address a) (\<lambda>out. Inr (0 # out)))"

definition read_uot_request :: "bytes \<Rightarrow> anytls_error + (unit \<times> bytes)" where
  "read_uot_request bs =
     and_then (read_u8 AnyEof bs) (\<lambda>(is_connect, bs).
     and_then (ensure (is_connect = 0) UdpConnectUnsupported) (\<lambda>_.
     and_then (read_uot_address bs) (\<lambda>(_, bs). Inr ((), bs))))"

definition packet_bytes :: "address \<times> bytes \<Rightarrow> anytls_error + bytes" where
  "packet_bytes = (\<lambda>(a, d). if address_ok a then uot_send (packet_new \<lparr>v_data = d, v_capacity = length d\<rparr> a) else Inl EmptyHost)"

lemma uot_recv_send: "packet_bytes (a, d) = Inr bs \<Longrightarrow> uot_recv (bs @ rest) = Inr ((canonical a, d), rest)"
  by (auto simp: packet_bytes_def uot_send_def uot_recv_def Let_def UOT_MAX_PACKET_def read_write_uot
      packet_new_def unat_length_u16 split: if_splits)

interpretation uot_packets: codec packet_bytes uot_recv "\<lambda>(a, d). (canonical a, d)"
proof
  fix x bs rest
  assume "packet_bytes x = Inr bs"
  then show "uot_recv (bs @ rest) = Inr (case x of (a, d) \<Rightarrow> (canonical a, d), rest)"
    using uot_recv_send [of "fst x" "snd x"] by (simp add: case_prod_unfold)
qed

section \<open>Properties\<close>

text \<open>Authentication identifies the user. With the table an inbound was built with, a client that
  knows the password of a configured user is accepted under the name of that user (or its position),
  whatever padding it draws, and what follows the prelude is left for the frames.\<close>

theorem auth_identifies_user:
  assumes "\<forall>x. length (sha256 x) = 32" and "build_users sha256 options = Inr users"
    and "i < length options" and "auth_prelude sha256 (snd (options ! i)) random scheme = Inr bs"
  shows "authenticate users (bs @ rest)
    = Inr (if fst (options ! i) = [] then show_nat i else fst (options ! i), rest)"
proof -
  from assms(2) have "try_fold (add_user sha256) Map.empty (enumerate 0 options) = Inr users"
    by (auto simp: build_users_def)
  from conjunct2 [OF build_users_from [OF this]] assms(1,3) authenticate_prelude [OF _ assms(4), of users rest]
  show ?thesis by simp
qed

theorem auth_identifies_user_witness:
  "\<exists>users bs. build_users (\<lambda>x. take 32 (x @ replicate 32 0)) [(''ann'', ''a''), ([], ''b'')] = Inr users
    \<and> auth_prelude (\<lambda>x. take 32 (x @ replicate 32 0)) ''b'' None sample_scheme = Inr bs
    \<and> authenticate users (bs @ [2, 3]) = Inr (show_nat 1, [2, 3])"
proof -
  let ?sha = "\<lambda>x :: bytes. take 32 (x @ replicate 32 0)"
  obtain users where u: "build_users ?sha [(''ann'', ''a''), ([], ''b'')] = Inr users"
    by (simp add: build_users_def add_user_def as_bytes_def)
  obtain bs where b: "auth_prelude ?sha ''b'' None sample_scheme = Inr bs"
    by (simp add: auth_prelude_def auth_padding_len_def sample_scheme_def AUTH_PADDING_def)
  have len: "\<forall>x. length (?sha x) = 32" by (simp add: min_def)
  from auth_identifies_user [OF len u, of 1 None sample_scheme bs "[2, 3]"] b
  have "authenticate users (bs @ [2, 3]) = Inr (show_nat 1, [2, 3])" by simp
  with u b show ?thesis by blast
qed

text \<open>A stream of UDP packets over TCP keeps the packet boundaries. Any packets that were sent are
  received as the same packets in order, with the same payloads and the same destinations up to the
  canonical text of an IP literal, and the bytes after them are untouched.\<close>

theorem uot_stream_roundtrip:
  assumes "list_all2 (\<lambda>(a, d) bs. address_ok a \<and> uot_send (packet_new \<lparr>v_data = d, v_capacity = length d\<rparr> a) = Inr bs)
      packets bss"
  shows "read_many uot_recv (length packets) (concat bss @ rest) = Inr (map (\<lambda>(a, d). (canonical a, d)) packets, rest)"
proof (rule uot_packets.dec_stream)
  show "list_all2 (\<lambda>x bs. packet_bytes x = Inr bs) packets bss"
    by (rule list_all2_mono [OF assms]) (auto simp: packet_bytes_def)
qed

theorem uot_stream_roundtrip_witness:
  "\<exists>b1 b2. read_many uot_recv 2 (b1 @ b2 @ [1]) = Inr ([(\<lparr>host = show_ip (IpV4 7), port = 53\<rparr>, [1, 2]), (\<lparr>host = ''x'', port = 9\<rparr>, [])], [1])"
proof -
  let ?a = "\<lparr>host = show_ip (IpV4 7), port = 53\<rparr>" and ?b = "\<lparr>host = ''x'', port = 9\<rparr>"
  let ?p = "\<lambda>d a. packet_new \<lparr>v_data = d, v_capacity = length d\<rparr> a"
  have none: "parse_ip ''x'' = None" by (rule parse_ip_letter) (simp_all add: to_digit_def)
  have ok: "address_ok ?a" "address_ok ?b"
    by (simp_all add: address_ok_def show_ip_is_str is_ascii_is_str del: show_ip.simps)
  obtain b1 where b1: "uot_send (?p [1, 2] ?a) = Inr b1"
    by (simp add: uot_send_def packet_new_def UOT_MAX_PACKET_def write_uot_address_def del: show_ip.simps)
  obtain b2 where b2: "uot_send (?p [] ?b) = Inr b2"
    by (simp add: uot_send_def packet_new_def UOT_MAX_PACKET_def write_uot_address_def none)
  have canon: "canonical ?a = ?a" "canonical ?b = ?b" by (simp_all add: canonical_def none del: show_ip.simps)
  from uot_stream_roundtrip [of "[(?a, [1, 2]), (?b, [])]" "[b1, b2]" "[1]"] b1 b2 ok canon
  have "read_many uot_recv 2 (b1 @ b2 @ [1]) = Inr ([(?a, [1, 2]), (?b, [])], [1])"
    by (simp add: numeral_2_eq_2 del: show_ip.simps read_many.simps)
  then show ?thesis by blast
qed

end
