(* ===== verification/Anytls_Session.thy ===== *)
theory Anytls_Session
  imports Anytls_Auth
begin

text \<open>
  The two ends of an AnyTLS connection (\<open>handle_inbound_connection\<close>, \<open>ClientSession\<close>) and the pool of
  client sessions of an outbound. Every stream has tasks of its own, which hold the receiving end of
  a channel: they run at any time between the frames, as steps of a transition relation.
\<close>

section \<open>Streams and their tasks\<close>

text \<open>
  A stream as its tasks see it: the channel the frame loop fills, what the writing task has put into
  the pipe to the stream's user, the cancellation token, whether the user has dropped its end of the
  pipe, and whether the writing task has ended.
  The maps of both ends take a stream identifier to the number of its tasks.
\<close>

record stream_task =
  st_id :: u32
  st_queue :: "bytes list"
  st_delivered :: "bytes list"
  st_cancelled :: bool
  st_reader_gone :: bool
  st_writer_done :: bool

definition CHANNEL_CAPACITY :: nat where "CHANNEL_CAPACITY = 32"

definition new_task :: "u32 \<Rightarrow> stream_task" where
  "new_task i = \<lparr>st_id = i, st_queue = [], st_delivered = [], st_cancelled = False,
     st_reader_gone = False, st_writer_done = False\<rparr>"

definition push_task :: "nat \<Rightarrow> bytes \<Rightarrow> 'a stream_task_scheme list \<Rightarrow> 'a stream_task_scheme list" where
  "push_task i d ts =
     (if st_writer_done (ts ! i) then ts
      else ts[i := (ts ! i)\<lparr>st_queue := st_queue (ts ! i) @ [d]\<rparr>])"

definition cancel_task :: "nat \<Rightarrow> 'a stream_task_scheme list \<Rightarrow> 'a stream_task_scheme list" where
  "cancel_task i ts = ts[i := (ts ! i)\<lparr>st_cancelled := True\<rparr>]"

definition deliver_task :: "nat \<Rightarrow> 'a stream_task_scheme list \<Rightarrow> 'a stream_task_scheme list" where
  "deliver_task i ts =
     ts[i := (ts ! i)\<lparr>st_queue := tl (st_queue (ts ! i)), st_delivered := st_delivered (ts ! i) @ [hd (st_queue (ts ! i))]\<rparr>]"

definition stop_writer :: "nat \<Rightarrow> 'a stream_task_scheme list \<Rightarrow> 'a stream_task_scheme list" where
  "stop_writer i ts = ts[i := (ts ! i)\<lparr>st_writer_done := True\<rparr>]"

definition leave_reader :: "nat \<Rightarrow> 'a stream_task_scheme list \<Rightarrow> 'a stream_task_scheme list" where
  "leave_reader i ts = ts[i := (ts ! i)\<lparr>st_reader_gone := True\<rparr>]"

text \<open>
  The steps of a writing task. It takes the next item of the channel and writes it, or it ends:
  because writing fails when nobody reads, or because the stream was cancelled. \<open>select!\<close> may choose
  either when both are possible.
\<close>

inductive writer_step :: "'a stream_task_scheme list \<Rightarrow> 'a stream_task_scheme list \<Rightarrow> bool" where
  deliver: "i < length ts \<Longrightarrow> \<not> st_writer_done (ts ! i) \<Longrightarrow> st_queue (ts ! i) \<noteq> []
    \<Longrightarrow> writer_step ts (deliver_task i ts)"
| leave: "i < length ts \<Longrightarrow> writer_step ts (leave_reader i ts)"
| stop: "i < length ts \<Longrightarrow> st_cancelled (ts ! i) \<or> st_reader_gone (ts ! i) \<Longrightarrow> writer_step ts (stop_writer i ts)"

inductive_cases writer_stepE: "writer_step ts ts'"

section \<open>The server\<close>

record server_conn =
  sv_settings :: bool
  sv_streams :: "u32 \<rightharpoonup> nat"
  sv_tasks :: "stream_task list"
  sv_out :: "frame list"

definition server_new :: server_conn where
  "server_new = \<lparr>sv_settings = False, sv_streams = Map.empty, sv_tasks = [], sv_out = []\<rparr>"

definition server_send :: "u8 \<Rightarrow> u32 \<Rightarrow> bytes \<Rightarrow> server_conn \<Rightarrow> server_conn" where
  "server_send cmd i d c = c\<lparr>sv_out := sv_out c @ [new_frame cmd i d]\<rparr>"

definition server_remove :: "u32 \<Rightarrow> server_conn \<Rightarrow> server_conn" where
  "server_remove i c =
     (case sv_streams c i of
        None \<Rightarrow> c
      | Some k \<Rightarrow> c\<lparr>sv_streams := (sv_streams c)(i := None), sv_tasks := cancel_task k (sv_tasks c)\<rparr>)"

definition server_settings :: "padding_scheme \<Rightarrow> bytes \<Rightarrow> server_conn \<Rightarrow> server_conn" where
  "server_settings scheme d c =
     (let c = server_send CMD_SERVER_SETTINGS 0 (as_bytes (''v=2'' @ nl)) (c\<lparr>sv_settings := True\<rparr>) in
      if setting_value d ''padding-md5'' \<noteq> Some (scheme_md5 scheme)
      then server_send CMD_UPDATE_PADDING 0 (as_bytes (ps_source scheme)) c else c)"

definition server_syn :: "u32 \<Rightarrow> server_conn \<Rightarrow> anytls_error + server_conn" where
  "server_syn i c =
     and_then (ensure (sv_settings c) SynBeforeSettings) (\<lambda>_.
     and_then (ensure (i \<noteq> 0) StreamIdZero) (\<lambda>_.
     and_then (ensure (sv_streams c i = None) DuplicateStream) (\<lambda>_.
     Inr (c\<lparr>sv_streams := (sv_streams c)(i \<mapsto> length (sv_tasks c)), sv_tasks := sv_tasks c @ [new_task i]\<rparr>))))"

definition server_frame :: "padding_scheme \<Rightarrow> server_conn \<Rightarrow> frame \<Rightarrow> anytls_error + server_conn" where
  "server_frame scheme c f =
     (let cmd = fr_command f; i = fr_stream_id f; d = fr_data f in
      if cmd = CMD_SETTINGS then Inr (server_settings scheme d c)
      else if cmd = CMD_SYN then server_syn i c
      else if cmd = CMD_PSH then
        (case sv_streams c i of
           None \<Rightarrow> Inr c
         | Some k \<Rightarrow> Inr (c\<lparr>sv_tasks := push_task k d (sv_tasks c)\<rparr>))
      else if cmd = CMD_FIN then Inr (server_remove i c)
      else if cmd = CMD_HEARTBEAT_REQUEST then Inr (server_send CMD_HEARTBEAT_RESPONSE 0 d c)
      else if cmd = CMD_WASTE \<or> cmd = CMD_UPDATE_PADDING \<or> cmd = CMD_SERVER_SETTINGS then Inr c
      else if cmd = CMD_ALERT then Inl PeerAlert
      else Inl (UnsupportedCmd cmd))"

text \<open>
  A PSH frame waits for room in the channel of its stream. The pumping task and the routing task of a
  stream both end by removing the entry of its identifier and sending FIN; while they live they send
  PSH and SYNACK frames. The configuration holds the frames read so far.
\<close>

definition has_room :: "(u32 \<rightharpoonup> nat) \<Rightarrow> 'a stream_task_scheme list \<Rightarrow> frame \<Rightarrow> bool" where
  "has_room streams ts f \<longleftrightarrow> fr_command f \<noteq> CMD_PSH \<or>
     (case streams (fr_stream_id f) of
        None \<Rightarrow> True
      | Some k \<Rightarrow> st_writer_done (ts ! k) \<or> length (st_queue (ts ! k)) < CHANNEL_CAPACITY)"

inductive server_step ::
    "padding_scheme \<Rightarrow> frame list \<times> server_conn \<Rightarrow> frame list \<times> server_conn \<Rightarrow> bool" for scheme where
  frame: "has_room (sv_streams c) (sv_tasks c) f \<Longrightarrow> server_frame scheme c f = Inr c'
    \<Longrightarrow> server_step scheme (fs, c) (fs @ [f], c')"
| writer: "writer_step (sv_tasks c) ts \<Longrightarrow> server_step scheme (fs, c) (fs, c\<lparr>sv_tasks := ts\<rparr>)"
| sends: "k < length (sv_tasks c) \<Longrightarrow> cmd = CMD_PSH \<or> cmd = CMD_SYNACK
    \<Longrightarrow> server_step scheme (fs, c) (fs, server_send cmd (st_id (sv_tasks c ! k)) d c)"
| ends: "k < length (sv_tasks c) \<Longrightarrow> i = st_id (sv_tasks c ! k)
    \<Longrightarrow> server_step scheme (fs, c) (fs, server_send CMD_FIN i [] (server_remove i c))"

definition served :: "padding_scheme \<Rightarrow> frame list \<Rightarrow> server_conn \<Rightarrow> bool" where
  "served scheme fs c \<longleftrightarrow> (server_step scheme)\<^sup>*\<^sup>* ([], server_new) (fs, c)"

text \<open>
  \<open>handle_server_stream\<close>: the destination is read from the stream, then the router is asked; what
  is sent back on the connection is the SYNACK frame. A destination with the host \<open>UOT_MAGIC\<close> starts
  the relay of UDP packets.
\<close>

datatype stream_kind = TcpStream address | UdpStream

definition read_stream_request :: "bytes \<Rightarrow> anytls_error + (stream_kind \<times> bytes)" where
  "read_stream_request bs =
     and_then (read_stream_address bs) (\<lambda>(destination, bs).
     if host destination = UOT_MAGIC then and_then (read_uot_request bs) (\<lambda>(_, bs). Inr (UdpStream, bs))
     else Inr (TcpStream destination, bs))"

definition handle_tcp_stream ::
    "(session \<Rightarrow> string + 'st) \<Rightarrow> socket_addr \<Rightarrow> string \<Rightarrow> string \<Rightarrow> u32 \<Rightarrow> address \<Rightarrow> frame \<times> (string + 'st)" where
  "handle_tcp_stream connect source tag user i destination =
     (case connect (session_inbound Tcp source destination tag ''anytls'' (Some user)) of
        Inr outbound \<Rightarrow> (new_frame CMD_SYNACK i [], Inr outbound)
      | Inl e \<Rightarrow> (new_frame CMD_SYNACK i (as_bytes e), Inl e))"

section \<open>The client\<close>

datatype ack = AckWaiting | AckOk | AckRejected bytes

record client_task = stream_task +
  ct_ack :: ack

record client_session =
  cs_out :: "frame list"
  cs_streams :: "u32 \<rightharpoonup> nat"
  cs_tasks :: "client_task list"
  cs_next_stream_id :: u32
  cs_active :: u64
  cs_closed :: bool
  cs_supports_v2 :: bool
  cs_padding :: padding_scheme

definition session_new :: "padding_scheme \<Rightarrow> client_session" where
  "session_new scheme = \<lparr>cs_out = [new_frame CMD_SETTINGS 0 (client_settings scheme)], cs_streams = Map.empty,
     cs_tasks = [], cs_next_stream_id = 1, cs_active = 0, cs_closed = False, cs_supports_v2 = False,
     cs_padding = scheme\<rparr>"

definition try_reserve :: "client_session \<Rightarrow> bool \<times> client_session" where
  "try_reserve s = (if \<not> cs_closed s \<and> cs_active s = 0 then (True, s\<lparr>cs_active := 1\<rparr>) else (False, s))"

definition client_send :: "u8 \<Rightarrow> u32 \<Rightarrow> bytes \<Rightarrow> client_session \<Rightarrow> client_session" where
  "client_send cmd i d s = s\<lparr>cs_out := cs_out s @ [new_frame cmd i d]\<rparr>"

definition remove_stream :: "u32 \<Rightarrow> client_session \<Rightarrow> client_session" where
  "remove_stream i s =
     (case cs_streams s i of
        None \<Rightarrow> s
      | Some k \<Rightarrow> s\<lparr>cs_streams := (cs_streams s)(i := None), cs_tasks := cancel_task k (cs_tasks s),
                   cs_active := cs_active s - 1\<rparr>)"

definition session_close :: "client_session \<Rightarrow> client_session" where
  "session_close s = s\<lparr>cs_closed := True\<rparr>"

definition clear_streams :: "client_session \<Rightarrow> client_session" where
  "clear_streams s =
     s\<lparr>cs_streams := Map.empty,
       cs_tasks := map (\<lambda>(k, t). if k \<in> ran (cs_streams s) then t\<lparr>st_cancelled := True\<rparr> else t)
         (enumerate 0 (cs_tasks s)),
       cs_active := 0\<rparr>"

text \<open>
  \<open>open_stream\<close>: after the test of \<open>closed\<close> the stream is entered (\<open>open_insert\<close>); then SYN is sent and
  the request of the stream is written (\<open>open_request\<close>), and with a version 2 server the acknowledgement
  is awaited; \<open>None\<close> is the timeout or a channel that was closed.
\<close>

definition open_insert :: "client_session \<Rightarrow> u32 \<times> client_session" where
  "open_insert s =
     (let i = cs_next_stream_id s in
      (i, s\<lparr>cs_next_stream_id := i + 1, cs_streams := (cs_streams s)(i \<mapsto> length (cs_tasks s)),
            cs_tasks := cs_tasks s @ [stream_task.extend (new_task i) (client_task.fields AckWaiting)]\<rparr>))"

definition open_request :: "address \<Rightarrow> anytls_error + bytes" where
  "open_request destination =
     and_then (encode_stream_address destination) (\<lambda>a.
     if host destination = UOT_MAGIC then and_then write_uot_request (\<lambda>r. Inr (a @ r)) else Inr a)"

definition open_finish :: "u32 \<Rightarrow> ack option \<Rightarrow> client_session \<Rightarrow> bool \<times> client_session" where
  "open_finish i answer s =
     (if cs_supports_v2 s \<and> answer \<noteq> Some AckOk then (False, remove_stream i s) else (True, s))"

text \<open>\<open>client_reader\<close>: one frame of the server.\<close>

definition client_synack :: "u32 \<Rightarrow> bytes \<Rightarrow> client_session \<Rightarrow> client_session" where
  "client_synack i d s =
     (case cs_streams s i of
        None \<Rightarrow> s
      | Some k \<Rightarrow>
          if ct_ack (cs_tasks s ! k) \<noteq> AckWaiting then s
          else s\<lparr>cs_tasks := (cs_tasks s)[k := (cs_tasks s ! k)\<lparr>ct_ack := (if d = [] then AckOk else AckRejected d)\<rparr>]\<rparr>)"

definition client_frame :: "client_session \<Rightarrow> frame \<Rightarrow> anytls_error + client_session" where
  "client_frame s f =
     (let cmd = fr_command f; i = fr_stream_id f; d = fr_data f in
      if cmd = CMD_PSH then
        (case cs_streams s i of
           None \<Rightarrow> Inr s
         | Some k \<Rightarrow> Inr (s\<lparr>cs_tasks := push_task k d (cs_tasks s)\<rparr>))
      else if cmd = CMD_SYNACK then Inr (client_synack i d s)
      else if cmd = CMD_FIN then Inr (remove_stream i s)
      else if cmd = CMD_HEARTBEAT_REQUEST then Inr (client_send CMD_HEARTBEAT_RESPONSE 0 d s)
      else if cmd = CMD_SETTINGS \<or> cmd = CMD_WASTE \<or> cmd = CMD_HEARTBEAT_RESPONSE then Inr s
      else if cmd = CMD_UPDATE_PADDING then
        and_then (from_utf8 SchemeNotUtf8 d) (\<lambda>text.
        and_then (parse_padding text) (\<lambda>scheme. Inr (s\<lparr>cs_padding := scheme\<rparr>)))
      else if cmd = CMD_SERVER_SETTINGS then Inr (s\<lparr>cs_supports_v2 := True\<rparr>)
      else if cmd = CMD_ALERT then Inl PeerAlert
      else Inl (UnsupportedCmd cmd))"

text \<open>
  The callers of a session: one that reserved it, one that passed the test of \<open>closed\<close>, one whose stream
  was entered, and one that found the session closed. All tasks of the session interleave.
\<close>

datatype opener = Reserved | Checked | Opened u32 | OpenFailed

inductive client_step :: "client_session \<times> opener list \<Rightarrow> client_session \<times> opener list \<Rightarrow> bool" where
  reserve: "try_reserve s = (True, s') \<Longrightarrow> client_step (s, os) (s', os @ [Reserved])"
| check: "j < length os \<Longrightarrow> os ! j = Reserved
    \<Longrightarrow> client_step (s, os) (s, os[j := (if cs_closed s then OpenFailed else Checked)])"
| insert: "j < length os \<Longrightarrow> os ! j = Checked \<Longrightarrow> open_insert s = (i, s')
    \<Longrightarrow> client_step (s, os) (s', os[j := Opened i])"
| request: "j < length os \<Longrightarrow> os ! j = Opened i
    \<Longrightarrow> client_step (s, os) (client_send CMD_SYN i [] s, os)"
| finish: "j < length os \<Longrightarrow> os ! j = Opened i \<Longrightarrow> open_finish i answer s = (ok, s')
    \<Longrightarrow> client_step (s, os) (s', os)"
| abandon: "j < length os \<Longrightarrow> os ! j = Opened i \<Longrightarrow> client_step (s, os) (remove_stream i s, os)"
| pump: "k < length (cs_tasks s) \<Longrightarrow> client_step (s, os) (client_send CMD_PSH (st_id (cs_tasks s ! k)) d s, os)"
| ends: "k < length (cs_tasks s) \<Longrightarrow> i = st_id (cs_tasks s ! k)
    \<Longrightarrow> client_step (s, os) (remove_stream i (client_send CMD_FIN i [] s), os)"
| frame: "has_room (cs_streams s) (cs_tasks s) f \<Longrightarrow> client_frame s f = Inr s' \<Longrightarrow> client_step (s, os) (s', os)"
| writer: "writer_step (cs_tasks s) ts \<Longrightarrow> client_step (s, os) (s\<lparr>cs_tasks := ts\<rparr>, os)"
| close: "client_step (s, os) (session_close s, os)"
| clear: "cs_closed s \<Longrightarrow> client_step (s, os) (clear_streams s, os)"

definition session_reachable :: "padding_scheme \<Rightarrow> client_session \<Rightarrow> opener list \<Rightarrow> bool" where
  "session_reachable scheme s os \<longleftrightarrow> client_step\<^sup>*\<^sup>* (session_new scheme, []) (s, os)"

section \<open>The pool of sessions of an outbound\<close>

text \<open>
  \<open>acquire_session\<close>: the sessions in the order of the vector; \<open>connect\<close> is a new connection to the
  server, made only when no session can be reserved.
\<close>

definition acquire_session ::
    "anytls_error + client_session \<Rightarrow> client_session list \<Rightarrow> anytls_error + (nat \<times> client_session list)" where
  "acquire_session connect sessions =
     (let live = filter (\<lambda>s. \<not> cs_closed s) sessions in
      case find (\<lambda>k. fst (try_reserve (live ! k))) (rev [0..<length live]) of
        Some k \<Rightarrow> Inr (k, live[k := snd (try_reserve (live ! k))])
      | None \<Rightarrow>
          and_then connect (\<lambda>s.
          and_then (ensure (fst (try_reserve s)) SessionClosed) (\<lambda>_.
          Inr (length live, live @ [snd (try_reserve s)]))))"

text \<open>
  One tick of the idle check of \<open>AnyTlsOutbound::start\<close>. With each session comes the time since it was
  last used, or \<open>None\<close> when its lock is taken. The result is what stays in the vector and what is closed.
\<close>

fun sweep_from ::
    "nat \<Rightarrow> nat \<Rightarrow> nat \<Rightarrow> (client_session \<times> nat option) list \<Rightarrow> client_session list \<times> client_session list" where
  "sweep_from limit min_idle idle [] = ([], [])"
| "sweep_from limit min_idle idle ((s, age) # entries) =
     (if cs_closed s then sweep_from limit min_idle idle entries
      else if cs_active s \<noteq> 0 \<or> idle \<le> min_idle \<or> (case age of None \<Rightarrow> True | Some a \<Rightarrow> a \<le> limit) then
        (case sweep_from limit min_idle idle entries of (kept, retired) \<Rightarrow> (s # kept, retired))
      else
        (case sweep_from limit min_idle (idle - 1) entries of (kept, retired) \<Rightarrow> (kept, s # retired)))"

definition idle_sweep ::
    "nat \<Rightarrow> nat \<Rightarrow> (client_session \<times> nat option) list \<Rightarrow> client_session list \<times> client_session list" where
  "idle_sweep limit min_idle entries =
     (let idle = length (filter (\<lambda>(s, _). cs_active s = 0) entries);
          (kept, retired) = sweep_from limit min_idle idle entries
      in (kept, map (\<lambda>s. clear_streams (session_close s)) retired))"

section \<open>Lemmas on tasks\<close>

lemma task_update_lengths [simp]:
  "length (push_task i d ts) = length ts" "length (cancel_task i ts) = length ts"
  "length (deliver_task i ts) = length ts" "length (stop_writer i ts) = length ts"
  "length (leave_reader i ts) = length ts"
  by (simp_all add: push_task_def cancel_task_def deliver_task_def stop_writer_def leave_reader_def)

lemma push_task_nth:
  "k < length ts \<Longrightarrow> push_task i d ts ! k =
     (if k = i \<and> \<not> st_writer_done (ts ! i) then (ts ! k)\<lparr>st_queue := st_queue (ts ! k) @ [d]\<rparr> else ts ! k)"
  by (auto simp: push_task_def nth_list_update)

lemma cancel_task_nth:
  "k < length ts \<Longrightarrow> cancel_task i ts ! k = (if k = i then (ts ! k)\<lparr>st_cancelled := True\<rparr> else ts ! k)"
  by (auto simp: cancel_task_def nth_list_update)

lemma push_task_fields [simp]:
  assumes "k < length ts"
  shows "st_id (push_task i d ts ! k) = st_id (ts ! k)"
    and "st_cancelled (push_task i d ts ! k) = st_cancelled (ts ! k)"
    and "st_delivered (push_task i d ts ! k) = st_delivered (ts ! k)"
    and "st_writer_done (push_task i d ts ! k) = st_writer_done (ts ! k)"
  using assms by (simp_all add: push_task_nth)

lemma cancel_task_fields [simp]:
  assumes "k < length ts"
  shows "st_id (cancel_task i ts ! k) = st_id (ts ! k)"
    and "st_cancelled (cancel_task i ts ! k) \<longleftrightarrow> k = i \<or> st_cancelled (ts ! k)"
    and "st_delivered (cancel_task i ts ! k) = st_delivered (ts ! k)"
    and "st_queue (cancel_task i ts ! k) = st_queue (ts ! k)"
    and "st_writer_done (cancel_task i ts ! k) = st_writer_done (ts ! k)"
  using assms by (simp_all add: cancel_task_nth)

text \<open>A writing task keeps identifiers and cancellation, and moves bytes without losing or reordering any.\<close>

lemma writer_step_fields:
  assumes "writer_step ts ts'"
  shows "length ts' = length ts" and "k < length ts \<Longrightarrow> st_id (ts' ! k) = st_id (ts ! k)"
    and "k < length ts \<Longrightarrow> st_cancelled (ts' ! k) = st_cancelled (ts ! k)"
    and "k < length ts \<Longrightarrow> length (st_queue (ts' ! k)) \<le> length (st_queue (ts ! k))"
    and "k < length ts \<Longrightarrow> st_delivered (ts' ! k) @ st_queue (ts' ! k) = st_delivered (ts ! k) @ st_queue (ts ! k)"
    and "k < length ts \<Longrightarrow> st_writer_done (ts ! k) \<Longrightarrow> st_writer_done (ts' ! k) \<and> st_delivered (ts' ! k) = st_delivered (ts ! k)"
  using assms
  by (auto elim!: writer_stepE simp: deliver_task_def stop_writer_def leave_reader_def nth_list_update
      split: if_splits)

section \<open>Lemmas on the server\<close>

text \<open>
  The entries of the map are exactly the tasks that are not cancelled; identifiers are not zero,
  nothing is opened before the settings, and no channel holds more than its capacity.
\<close>

definition live :: "server_conn \<Rightarrow> u32 \<Rightarrow> nat \<Rightarrow> bool" where
  "live c i k \<longleftrightarrow> k < length (sv_tasks c) \<and> st_id (sv_tasks c ! k) = i \<and> \<not> st_cancelled (sv_tasks c ! k)"

definition server_inv :: "server_conn \<Rightarrow> bool" where
  "server_inv c \<longleftrightarrow> (\<forall>i k. sv_streams c i = Some k \<longleftrightarrow> live c i k)
     \<and> (\<forall>k < length (sv_tasks c). st_id (sv_tasks c ! k) \<noteq> 0 \<and> sv_settings c
          \<and> length (st_queue (sv_tasks c ! k)) \<le> CHANNEL_CAPACITY)"

lemma server_invD:
  assumes "server_inv c"
  shows "sv_streams c i = Some k \<longleftrightarrow> live c i k"
    and "k < length (sv_tasks c) \<Longrightarrow> st_id (sv_tasks c ! k) \<noteq> 0 \<and> sv_settings c
      \<and> length (st_queue (sv_tasks c ! k)) \<le> CHANNEL_CAPACITY"
  using assms by (simp_all add: server_inv_def)

lemma server_inv_new: "server_inv server_new"
  by (simp add: server_inv_def server_new_def live_def)

lemma server_send_simps [simp]:
  "sv_settings (server_send cmd i d c) = sv_settings c" "sv_streams (server_send cmd i d c) = sv_streams c"
  "sv_tasks (server_send cmd i d c) = sv_tasks c"
  by (simp_all add: server_send_def)

lemma server_inv_send [simp]: "server_inv (server_send cmd i d c) = server_inv c"
  by (simp add: server_inv_def live_def)

lemma server_inv_settings: "server_inv c \<Longrightarrow> server_inv (server_settings scheme d c)"
  by (simp add: server_settings_def Let_def) (simp add: server_inv_def live_def)

lemma server_inv_remove: "server_inv c \<Longrightarrow> server_inv (server_remove i c)"
proof (cases "sv_streams c i")
  case (Some k)
  assume inv: "server_inv c"
  let ?c = "server_remove i c"
  have k: "live c i k" using server_invD(1) [OF inv] Some by simp
  have c: "sv_streams ?c = (sv_streams c)(i := None)" "sv_tasks ?c = cancel_task k (sv_tasks c)"
    "sv_settings ?c = sv_settings c"
    using Some by (simp_all add: server_remove_def)
  have "sv_streams ?c j = Some l \<longleftrightarrow> live ?c j l" for j l
    using server_invD(1) [OF inv, of j l] server_invD(1) [OF inv, of i l] k Some by (auto simp: c live_def)
  with server_invD(2) [OF inv] show ?thesis by (simp add: server_inv_def c)
qed (simp add: server_remove_def)

lemma server_inv_syn: "server_inv c \<Longrightarrow> server_syn i c = Inr c' \<Longrightarrow> server_inv c'"
proof -
  assume inv: "server_inv c" and syn: "server_syn i c = Inr c'"
  then have i: "sv_settings c" "i \<noteq> 0" "sv_streams c i = None"
    and c': "c' = c\<lparr>sv_streams := (sv_streams c)(i \<mapsto> length (sv_tasks c)), sv_tasks := sv_tasks c @ [new_task i]\<rparr>"
    by (auto simp: server_syn_def)
  have none: "\<not> live c i k" for k using server_invD(1) [OF inv, of i k] i(3) by simp
  have "sv_streams c' j = Some k \<longleftrightarrow> live c' j k" for j k
    using server_invD(1) [OF inv, of j k] none [of k] by (auto simp: c' live_def new_task_def nth_append less_Suc_eq)
  with server_invD(2) [OF inv] i show ?thesis
    by (auto simp: server_inv_def c' new_task_def nth_append less_Suc_eq)
qed

lemma server_inv_push:
  assumes "server_inv c" and "sv_streams c i = Some k"
    and "st_writer_done (sv_tasks c ! k) \<or> length (st_queue (sv_tasks c ! k)) < CHANNEL_CAPACITY"
  shows "server_inv (c\<lparr>sv_tasks := push_task k d (sv_tasks c)\<rparr>)"
proof -
  let ?c = "c\<lparr>sv_tasks := push_task k d (sv_tasks c)\<rparr>"
  have "live ?c j l = live c j l" for j l by (auto simp: live_def)
  moreover have "length (st_queue (push_task k d (sv_tasks c) ! l)) \<le> CHANNEL_CAPACITY" if "l < length (sv_tasks c)" for l
    using server_invD(2) [OF assms(1) that] that assms(3) by (auto simp: push_task_nth)
  ultimately show ?thesis using assms(1) by (simp add: server_inv_def)
qed

lemma server_inv_writer: "server_inv c \<Longrightarrow> writer_step (sv_tasks c) ts \<Longrightarrow> server_inv (c\<lparr>sv_tasks := ts\<rparr>)"
proof -
  assume inv: "server_inv c" and w: "writer_step (sv_tasks c) ts"
  note f = writer_step_fields [OF w]
  have "live (c\<lparr>sv_tasks := ts\<rparr>) j l = live c j l" for j l using f by (auto simp: live_def)
  moreover have "length (st_queue (ts ! l)) \<le> CHANNEL_CAPACITY" if "l < length (sv_tasks c)" for l
    using server_invD(2) [OF inv that] f(4) [OF that] by simp
  ultimately show ?thesis using inv f(1,2) by (simp add: server_inv_def)
qed

lemma server_inv_frame:
  assumes "server_inv c" and "has_room (sv_streams c) (sv_tasks c) f" and "server_frame scheme c f = Inr c'"
  shows "server_inv c'"
proof -
  have cmds: "CMD_PSH \<noteq> CMD_SETTINGS" "CMD_PSH \<noteq> CMD_SYN" by (simp_all add: cmd_defs)
  consider "fr_command f = CMD_SETTINGS" | "fr_command f = CMD_SYN" | "fr_command f = CMD_PSH"
    | "fr_command f = CMD_FIN" | "fr_command f \<notin> {CMD_SETTINGS, CMD_SYN, CMD_PSH, CMD_FIN}" by blast
  then show ?thesis
  proof cases
    case 1
    with assms server_inv_settings [OF assms(1)] show ?thesis by (auto simp: server_frame_def Let_def)
  next
    case 2
    with assms server_inv_syn [OF assms(1)] show ?thesis by (auto simp: server_frame_def Let_def cmd_defs)
  next
    case 3
    with assms cmds show ?thesis
      by (auto simp: server_frame_def Let_def has_room_def intro: server_inv_push split: option.splits)
  next
    case 4
    with assms server_inv_remove [OF assms(1)] show ?thesis by (auto simp: server_frame_def Let_def cmd_defs)
  next
    case 5
    with assms show ?thesis by (auto simp: server_frame_def Let_def split: if_splits)
  qed
qed

lemma server_step_inv: "server_step scheme (fs, c) (fs', c') \<Longrightarrow> server_inv c \<Longrightarrow> server_inv c'"
  by (erule server_step.cases)
    (auto intro: server_inv_frame server_inv_writer server_inv_remove)

lemma served_inv: "served scheme fs c \<Longrightarrow> server_inv c"
  unfolding served_def
  by (induction rule: rtranclp_induct2) (auto intro: server_inv_new server_step_inv)

end
