(* ===== verification/Anytls_Safety.thy ===== *)
theory Anytls_Safety
  imports Anytls_Session
begin

text \<open>
  What holds of every interleaving of an AnyTLS connection: the server hands the bytes of a stream
  over in order, a client session carries one stream at a time, and what the pool of sessions keeps.
\<close>

section \<open>The server delivers in order\<close>

definition payload_step :: "u32 \<Rightarrow> bytes list \<Rightarrow> frame \<Rightarrow> bytes list" where
  "payload_step i acc f =
     (if fr_stream_id f \<noteq> i then acc
      else if fr_command f = CMD_SYN then []
      else if fr_command f = CMD_PSH then acc @ [fr_data f] else acc)"

text \<open>The data of the PSH frames of a stream since its last SYN.\<close>

definition stream_payload :: "u32 \<Rightarrow> frame list \<Rightarrow> bytes list" where
  "stream_payload i fs = foldl (payload_step i) [] fs"

lemma stream_payload_simps [simp]:
  "stream_payload i [] = []" "stream_payload i (fs @ [f]) = payload_step i (stream_payload i fs) f"
  by (simp_all add: stream_payload_def)

definition delivery_inv :: "frame list \<Rightarrow> server_conn \<Rightarrow> bool" where
  "delivery_inv fs c \<longleftrightarrow> (\<forall>i k. live c i k \<longrightarrow> \<not> st_writer_done (sv_tasks c ! k)
     \<longrightarrow> st_delivered (sv_tasks c ! k) @ st_queue (sv_tasks c ! k) = stream_payload i fs)"

lemma server_frame_live:
  assumes inv: "server_inv c" and "server_frame scheme c f = Inr c'"
    and "live c' i k" and "\<not> st_writer_done (sv_tasks c' ! k)"
  shows "k = length (sv_tasks c) \<and> fr_command f = CMD_SYN \<and> fr_stream_id f = i
      \<and> st_delivered (sv_tasks c' ! k) @ st_queue (sv_tasks c' ! k) = []
    \<or> live c i k \<and> \<not> st_writer_done (sv_tasks c ! k)
      \<and> st_delivered (sv_tasks c' ! k) @ st_queue (sv_tasks c' ! k)
        = payload_step i (st_delivered (sv_tasks c ! k) @ st_queue (sv_tasks c ! k)) f"
proof -
  have live_map: "sv_streams c j = Some l \<longleftrightarrow> live c j l" for j l using server_invD(1) [OF inv] .
  consider (syn) "fr_command f = CMD_SYN" | (psh) "fr_command f = CMD_PSH" | (fin) "fr_command f = CMD_FIN"
    | (settings) "fr_command f = CMD_SETTINGS" | (rest) "fr_command f \<notin> {CMD_SYN, CMD_PSH, CMD_FIN, CMD_SETTINGS}" by blast
  then show ?thesis
  proof cases
    case syn
    with assms(2) have free: "sv_streams c (fr_stream_id f) = None"
      and c': "sv_tasks c' = sv_tasks c @ [new_task (fr_stream_id f)]"
      by (auto simp: server_frame_def Let_def cmd_defs server_syn_def)
    show ?thesis
    proof (cases "k = length (sv_tasks c)")
      case True
      with assms(3) syn show ?thesis by (simp add: live_def c' new_task_def)
    next
      case False
      with assms(3,4) have l: "live c i k" "sv_tasks c' ! k = sv_tasks c ! k"
        by (auto simp: live_def c' nth_append)
      with free live_map [of i k] have "fr_stream_id f \<noteq> i" by auto
      with l assms(4) show ?thesis by (simp add: payload_step_def)
    qed
  next
    case psh
    show ?thesis
    proof (cases "sv_streams c (fr_stream_id f)")
      case None
      with psh assms(2) have "c' = c" by (simp add: server_frame_def Let_def cmd_defs)
      with None assms(3,4) live_map [of i k] show ?thesis by (auto simp: payload_step_def)
    next
      case (Some l)
      with psh assms(2) have c': "c' = c\<lparr>sv_tasks := push_task l (fr_data f) (sv_tasks c)\<rparr>"
        by (simp add: server_frame_def Let_def cmd_defs)
      then have k: "k < length (sv_tasks c)" using assms(3) by (simp add: live_def)
      with assms(3,4) have li: "live c i k" "\<not> st_writer_done (sv_tasks c ! k)" by (simp_all add: live_def c')
      have "l = k \<longleftrightarrow> fr_stream_id f = i"
        using live_map [of i k] live_map [of "fr_stream_id f" l] Some li(1) by (auto simp: live_def)
      with k li psh show ?thesis by (auto simp: c' push_task_nth payload_step_def cmd_defs)
    qed
  next
    case fin
    with assms(2) have c': "c' = server_remove (fr_stream_id f) c" by (simp add: server_frame_def Let_def cmd_defs)
    with assms(3,4) fin show ?thesis
      by (cases "sv_streams c (fr_stream_id f)")
        (auto simp: server_remove_def live_def payload_step_def cmd_defs)
  next
    case settings
    with assms(2) have "sv_tasks c' = sv_tasks c" by (auto simp: server_frame_def server_settings_def Let_def)
    with assms(3,4) settings show ?thesis by (simp add: live_def payload_step_def cmd_defs)
  next
    case rest
    with assms(2) have "sv_tasks c' = sv_tasks c" by (auto simp: server_frame_def Let_def split: if_splits)
    with assms(3,4) rest show ?thesis by (simp add: live_def payload_step_def)
  qed
qed

lemma delivery_inv_same_tasks:
  "delivery_inv fs c \<Longrightarrow> sv_tasks c' = sv_tasks c \<Longrightarrow> delivery_inv fs c'"
  by (simp add: delivery_inv_def live_def)

lemma delivery_inv_remove: "delivery_inv fs c \<Longrightarrow> delivery_inv fs (server_remove i c)"
proof (cases "sv_streams c i")
  case (Some k)
  assume inv: "delivery_inv fs c"
  have t: "sv_tasks (server_remove i c) = cancel_task k (sv_tasks c)" using Some by (simp add: server_remove_def)
  show ?thesis
    unfolding delivery_inv_def
  proof (intro allI impI)
    fix j l
    assume "live (server_remove i c) j l" and "\<not> st_writer_done (sv_tasks (server_remove i c) ! l)"
    then have "live c j l" "l < length (sv_tasks c)" "\<not> st_writer_done (sv_tasks c ! l)"
      by (auto simp: live_def t)
    with inv show "st_delivered (sv_tasks (server_remove i c) ! l) @ st_queue (sv_tasks (server_remove i c) ! l)
        = stream_payload j fs"
      by (simp add: t delivery_inv_def)
  qed
qed (simp add: server_remove_def)

lemma delivery_inv_writer:
  assumes "delivery_inv fs c" and "writer_step (sv_tasks c) ts"
  shows "delivery_inv fs (c\<lparr>sv_tasks := ts\<rparr>)"
  unfolding delivery_inv_def
proof (intro allI impI)
  fix i k
  let ?c = "c\<lparr>sv_tasks := ts\<rparr>"
  assume l: "live ?c i k" and d: "\<not> st_writer_done (sv_tasks ?c ! k)"
  note f = writer_step_fields [OF assms(2)]
  from l f have "live c i k" "k < length (sv_tasks c)" by (auto simp: live_def)
  moreover from d f(6) calculation(2) have "\<not> st_writer_done (sv_tasks c ! k)" by auto
  ultimately show "st_delivered (sv_tasks ?c ! k) @ st_queue (sv_tasks ?c ! k) = stream_payload i fs"
    using assms(1) f(5) by (simp add: delivery_inv_def)
qed

lemma delivery_step:
  assumes "server_step scheme (fs, c) (fs', c')" and "server_inv c" and "delivery_inv fs c"
  shows "delivery_inv fs' c'"
  using assms(1)
proof cases
  case (frame f)
  show ?thesis
    unfolding delivery_inv_def
  proof (intro allI impI)
    fix i k
    assume l: "live c' i k" "\<not> st_writer_done (sv_tasks c' ! k)"
    from server_frame_live [OF assms(2) frame(3) l] assms(3)
    show "st_delivered (sv_tasks c' ! k) @ st_queue (sv_tasks c' ! k) = stream_payload i fs'"
      by (auto simp: frame(1) delivery_inv_def payload_step_def)
  qed
next
  case (writer ts)
  with delivery_inv_writer [OF assms(3)] show ?thesis by simp
next
  case (sends k cmd d)
  with assms(3) show ?thesis by (auto intro: delivery_inv_same_tasks)
next
  case (ends k i)
  with delivery_inv_remove [OF assms(3), of i] show ?thesis by (auto intro: delivery_inv_same_tasks)
qed

lemma served_delivery: "served scheme fs c \<Longrightarrow> server_inv c \<and> delivery_inv fs c"
  unfolding served_def
proof (induction rule: rtranclp_induct2)
  case refl
  show ?case by (simp add: server_inv_new) (simp add: delivery_inv_def live_def server_new_def)
next
  case (step fs c fs' c')
  then show ?case using delivery_step server_step_inv by blast
qed

section \<open>A client session carries one stream\<close>

definition pending :: "opener list \<Rightarrow> nat" where
  "pending os = length (filter (\<lambda>x. x = Reserved \<or> x = Checked) os)"

definition session_inv :: "client_session \<Rightarrow> opener list \<Rightarrow> bool" where
  "session_inv s os \<longleftrightarrow> cs_closed s \<or>
     (finite (dom (cs_streams s)) \<and> pending os + card (dom (cs_streams s)) \<le> 1
      \<and> unat (cs_active s) = pending os + card (dom (cs_streams s)))"

lemma pending_append [simp]: "pending (os @ [x]) = pending os + (if x = Reserved \<or> x = Checked then 1 else 0)"
  by (simp add: pending_def)

lemma pending_Cons [simp]: "pending (x # os) = (if x = Reserved \<or> x = Checked then 1 else 0) + pending os"
  by (simp add: pending_def)

lemma pending_update:
  "j < length os \<Longrightarrow> pending (os[j := x]) + (if os ! j = Reserved \<or> os ! j = Checked then 1 else 0)
    = pending os + (if x = Reserved \<or> x = Checked then 1 else 0)"
proof (induction os arbitrary: j)
  case (Cons y os)
  show ?case
  proof (cases j)
    case (Suc n)
    with Cons.IH [of n] Cons.prems show ?thesis by simp
  qed simp
qed simp

lemma client_send_simps [simp]:
  "cs_streams (client_send cmd i d s) = cs_streams s" "cs_tasks (client_send cmd i d s) = cs_tasks s"
  "cs_active (client_send cmd i d s) = cs_active s" "cs_closed (client_send cmd i d s) = cs_closed s"
  by (simp_all add: client_send_def)

lemma session_inv_same:
  "session_inv s os \<Longrightarrow> cs_streams t = cs_streams s \<Longrightarrow> cs_active t = cs_active s \<Longrightarrow> cs_closed t = cs_closed s
    \<Longrightarrow> session_inv t os"
  by (simp add: session_inv_def)

lemma session_inv_remove: "session_inv s os \<Longrightarrow> session_inv (remove_stream i s) os"
proof (cases "cs_streams s i")
  case (Some k)
  assume inv: "session_inv s os"
  show ?thesis
  proof (cases "cs_closed s")
    case True
    with Some show ?thesis by (simp add: session_inv_def remove_stream_def)
  next
    case False
    with inv have f: "finite (dom (cs_streams s))" "pending os + card (dom (cs_streams s)) \<le> 1"
      "unat (cs_active s) = pending os + card (dom (cs_streams s))" by (auto simp: session_inv_def)
    have "i \<in> dom (cs_streams s)" using Some by auto
    with f(1) have "card (dom (cs_streams s)) \<noteq> 0" by auto
    with f have one: "pending os = 0" "card (dom (cs_streams s)) = 1" "unat (cs_active s) = 1" by linarith+
    from one(2) obtain x where "dom (cs_streams s) = {x}" by (auto simp: card_1_singleton_iff)
    with \<open>i \<in> dom (cs_streams s)\<close> have "dom ((cs_streams s)(i := None)) = {}" by auto
    then have "(cs_streams s)(i := None) = Map.empty" by (simp only: dom_eq_empty_conv)
    moreover from one(3) have "cs_active s = 1" by (simp add: word_unat_eq_iff)
    ultimately show ?thesis using False one(1) Some by (simp add: session_inv_def remove_stream_def)
  qed
qed (simp add: remove_stream_def)

lemma session_inv_frame: "session_inv s os \<Longrightarrow> client_frame s f = Inr s' \<Longrightarrow> session_inv s' os"
  by (auto simp: client_frame_def Let_def client_synack_def split: if_splits option.splits
      intro: session_inv_remove session_inv_same)

lemma session_inv_open:
  assumes "session_inv s os" and "j < length os" and "os ! j = Checked" and "open_insert s = (i, s')"
  shows "session_inv s' (os[j := Opened i])"
proof (cases "cs_closed s")
  case True
  with assms(4) show ?thesis by (auto simp: session_inv_def open_insert_def Let_def)
next
  case False
  with assms(1) have f: "finite (dom (cs_streams s))" "pending os + card (dom (cs_streams s)) \<le> 1"
    "unat (cs_active s) = pending os + card (dom (cs_streams s))" by (auto simp: session_inv_def)
  have p: "pending (os[j := Opened i]) + 1 = pending os"
    using pending_update [OF assms(2), of "Opened i"] assms(3) by simp
  with f have "card (dom (cs_streams s)) = 0" by linarith
  with f(1) have none: "dom (cs_streams s) = {}" by simp
  from assms(4) have "cs_active s' = cs_active s" "cs_closed s' = cs_closed s" "dom (cs_streams s') = insert i (dom (cs_streams s))"
    by (auto simp: open_insert_def Let_def)
  with f p none show ?thesis by (simp add: session_inv_def)
qed

lemma client_step_inv:
  assumes "client_step (s, os) (s', os')" and "session_inv s os"
  shows "session_inv s' os'"
  using assms(1)
proof cases
  case reserve
  then have "\<not> cs_closed s" "cs_active s = 0" "s' = s\<lparr>cs_active := 1\<rparr>" by (auto simp: try_reserve_def split: if_splits)
  with assms(2) reserve show ?thesis by (auto simp: session_inv_def)
next
  case (check j)
  with pending_update [of j os "if cs_closed s then OpenFailed else Checked"] assms(2) show ?thesis
    by (auto simp: session_inv_def)
next
  case (insert j i)
  with session_inv_open [OF assms(2)] show ?thesis by simp
next
  case (request j i)
  with assms(2) show ?thesis by (auto intro: session_inv_same)
next
  case (finish j i answer ok)
  with session_inv_remove [OF assms(2)] assms(2) show ?thesis by (auto simp: open_finish_def split: if_splits)
next
  case (abandon j i)
  with session_inv_remove [OF assms(2)] show ?thesis by simp
next
  case (pump k d)
  with assms(2) show ?thesis by (auto intro: session_inv_same)
next
  case (ends k i)
  have "session_inv (client_send CMD_FIN i [] s) os" using assms(2) by (rule session_inv_same) simp_all
  with ends show ?thesis by (auto intro: session_inv_remove)
next
  case (frame f)
  with session_inv_frame [OF assms(2)] show ?thesis by simp
next
  case (writer ts)
  with assms(2) show ?thesis by (auto intro: session_inv_same)
next
  case close
  then show ?thesis by (simp add: session_inv_def session_close_def)
next
  case clear
  then show ?thesis by (simp add: session_inv_def clear_streams_def)
qed

lemma session_reachable_inv: "session_reachable scheme s os \<Longrightarrow> session_inv s os"
  unfolding session_reachable_def
proof (induction rule: rtranclp_induct2)
  case refl
  show ?case by (simp add: session_inv_def session_new_def pending_def)
next
  case (step s os s' os')
  then show ?case using client_step_inv by blast
qed

section \<open>What a cancelled stream loses\<close>

definition tasks_inv :: "client_session \<Rightarrow> bool" where
  "tasks_inv s \<longleftrightarrow> (\<forall>i k. cs_streams s i = Some k
     \<longrightarrow> k < length (cs_tasks s) \<and> st_id (cs_tasks s ! k) = i \<and> \<not> st_cancelled (cs_tasks s ! k))"

definition kept_by :: "nat \<Rightarrow> client_session \<Rightarrow> client_session \<Rightarrow> bool" where
  "kept_by k s t \<longleftrightarrow> k < length (cs_tasks t)
     \<and> (st_writer_done (cs_tasks s ! k) \<longrightarrow> st_writer_done (cs_tasks t ! k)
          \<and> st_delivered (cs_tasks t ! k) = st_delivered (cs_tasks s ! k))"

lemma kept_by_same: "k < length (cs_tasks s) \<Longrightarrow> cs_tasks t = cs_tasks s \<Longrightarrow> kept_by k s t"
  by (simp add: kept_by_def)

lemma remove_stream_kept: "k < length (cs_tasks s) \<Longrightarrow> kept_by k s (remove_stream i s)"
  by (auto simp: kept_by_def remove_stream_def split: option.splits)

lemma nth_update_any: "k < length ts \<Longrightarrow> ts[x := y] ! k = (if k = x then y else ts ! k)"
  by (cases "k = x") simp_all

lemma remove_stream_tasks:
  assumes "tasks_inv s"
  shows "tasks_inv (remove_stream i s)"
proof (cases "cs_streams s i")
  case (Some k)
  have t: "cs_streams (remove_stream i s) = (cs_streams s)(i := None)" "cs_tasks (remove_stream i s) = cancel_task k (cs_tasks s)"
    using Some by (simp_all add: remove_stream_def)
  show ?thesis unfolding tasks_inv_def t
  proof (intro allI impI)
    fix j l
    assume "((cs_streams s)(i := None)) j = Some l"
    then have j: "j \<noteq> i" "cs_streams s j = Some l" by (simp_all split: if_splits)
    with assms have l: "l < length (cs_tasks s)" "st_id (cs_tasks s ! l) = j" "\<not> st_cancelled (cs_tasks s ! l)"
      unfolding tasks_inv_def by blast+
    from assms Some have "st_id (cs_tasks s ! k) = i" unfolding tasks_inv_def by blast
    with l(2) j(1) have "l \<noteq> k" by blast
    with l show "l < length (cancel_task k (cs_tasks s)) \<and> st_id (cancel_task k (cs_tasks s) ! l) = j
      \<and> \<not> st_cancelled (cancel_task k (cs_tasks s) ! l)" by (simp add: cancel_task_def)
  qed
qed (simp add: remove_stream_def assms)

lemma client_frame_kept: "client_frame s f = Inr t \<Longrightarrow> k < length (cs_tasks s) \<Longrightarrow> kept_by k s t"
  by (auto simp: client_frame_def Let_def client_synack_def nth_update_any kept_by_def
      remove_stream_def client_send_def split: if_splits option.splits)

lemma tasks_inv_same:
  assumes "tasks_inv s" and "cs_streams t = cs_streams s" and "length (cs_tasks t) = length (cs_tasks s)"
    and "\<And>k. k < length (cs_tasks s) \<Longrightarrow> st_id (cs_tasks t ! k) = st_id (cs_tasks s ! k)
      \<and> st_cancelled (cs_tasks t ! k) = st_cancelled (cs_tasks s ! k)"
  shows "tasks_inv t"
  using assms by (simp add: tasks_inv_def)

lemma client_frame_tasks:
  assumes "client_frame s f = Inr t" and "tasks_inv s"
  shows "tasks_inv t"
proof (cases "t = remove_stream (fr_stream_id f) s")
  case True
  with assms(2) show ?thesis by (simp add: remove_stream_tasks)
next
  case False
  with assms(1) show ?thesis
    by (intro tasks_inv_same [OF assms(2)])
      (auto simp: client_frame_def Let_def client_synack_def client_send_def push_task_def nth_update_any
        split: if_splits option.splits)
qed

lemma clear_streams_kept: "k < length (cs_tasks s) \<Longrightarrow> kept_by k s (clear_streams s)"
  by (auto simp: kept_by_def clear_streams_def nth_enumerate_eq split: prod.splits)

lemma client_step_kept:
  assumes "client_step (s, os) (t, os')" and "k < length (cs_tasks s)"
  shows "kept_by k s t"
  using assms(1)
proof cases
  case reserve
  with assms(2) show ?thesis by (auto simp: try_reserve_def intro!: kept_by_same split: if_splits)
next
  case (insert j i)
  with assms(2) show ?thesis by (auto simp: open_insert_def Let_def kept_by_def nth_append)
next
  case (finish j i answer ok)
  with assms(2) show ?thesis
    by (auto simp: open_finish_def intro: kept_by_same remove_stream_kept split: if_splits)
next
  case (abandon j i)
  with assms(2) show ?thesis by (simp add: remove_stream_kept)
next
  case (ends l i)
  have "kept_by k (client_send CMD_FIN i [] s) (remove_stream i (client_send CMD_FIN i [] s))"
    using assms(2) by (intro remove_stream_kept) simp
  with ends show ?thesis by (simp add: kept_by_def)
next
  case (frame f)
  with assms(2) show ?thesis by (simp add: client_frame_kept)
next
  case (writer ts)
  with assms(2) writer_step_fields [OF writer(3)] show ?thesis by (simp add: kept_by_def)
next
  case clear
  with assms(2) show ?thesis by (simp add: clear_streams_kept)
qed (use assms(2) in \<open>auto intro: kept_by_same simp: session_close_def\<close>)

lemma client_step_tasks:
  assumes "client_step (s, os) (t, os')" and "tasks_inv s"
  shows "tasks_inv t"
  using assms(1)
proof cases
  case reserve
  with assms(2) show ?thesis by (auto simp: try_reserve_def tasks_inv_def split: if_splits)
next
  case (insert j i)
  with assms(2) show ?thesis
    by (auto simp: open_insert_def Let_def tasks_inv_def less_Suc_eq nth_append stream_task.defs client_task.defs new_task_def
        split: if_splits)
next
  case (finish j i answer ok)
  with assms(2) show ?thesis by (auto simp: open_finish_def intro: remove_stream_tasks split: if_splits)
next
  case (abandon j i)
  with assms(2) show ?thesis by (simp add: remove_stream_tasks)
next
  case (ends l i)
  have "tasks_inv (client_send CMD_FIN i [] s)" using assms(2) by (simp add: tasks_inv_def)
  with ends show ?thesis by (simp add: remove_stream_tasks)
next
  case (frame f)
  with assms(2) show ?thesis by (simp add: client_frame_tasks)
next
  case (writer ts)
  with assms(2) writer_step_fields(1-3) [OF writer(3)] show ?thesis by (intro tasks_inv_same [OF assms(2)]) simp_all
next
  case clear
  then show ?thesis by (simp add: tasks_inv_def clear_streams_def)
qed (use assms(2) in \<open>auto simp: session_close_def tasks_inv_def\<close>)

lemma session_reachable_tasks: "session_reachable scheme s os \<Longrightarrow> tasks_inv s"
  unfolding session_reachable_def
proof (induction rule: rtranclp_induct2)
  case refl
  show ?case by (simp add: tasks_inv_def session_new_def)
next
  case (step s os t os')
  then show ?case using client_step_tasks by blast
qed

lemma client_steps_done:
  assumes "client_step\<^sup>*\<^sup>* (s, os) (t, os')" and "k < length (cs_tasks s)" and "st_writer_done (cs_tasks s ! k)"
  shows "k < length (cs_tasks t) \<and> st_writer_done (cs_tasks t ! k)
    \<and> st_delivered (cs_tasks t ! k) = st_delivered (cs_tasks s ! k)"
  using assms(1)
proof (induction rule: rtranclp_induct2)
  case refl
  show ?case using assms by simp
next
  case (step t os' u os'')
  from client_step_kept [OF step.hyps(2), of k] step.IH show ?case by (auto simp: kept_by_def)
qed

text \<open>What a FIN frame does to an open stream, and what its writing task may do then.\<close>

lemma fin_frame:
  assumes "cs_streams s i = Some k"
  shows "client_frame s (new_frame CMD_FIN i d) = Inr (remove_stream i s)"
    and "client_step (s, os) (remove_stream i s, os)"
    and "cs_tasks (remove_stream i s) = cancel_task k (cs_tasks s)"
proof -
  show f: "client_frame s (new_frame CMD_FIN i d) = Inr (remove_stream i s)" for d
    by (simp add: new_frame_def client_frame_def cmd_defs)
  show "client_step (s, os) (remove_stream i s, os)"
    by (rule client_step.frame [OF _ f [of "[]"]]) (simp add: has_room_def new_frame_def cmd_defs)
  show "cs_tasks (remove_stream i s) = cancel_task k (cs_tasks s)" using assms by (simp add: remove_stream_def)
qed

section \<open>The pool of sessions\<close>

definition idle_count :: "client_session list \<Rightarrow> nat" where
  "idle_count ss = length (filter (\<lambda>s. cs_active s = 0) ss)"

lemma idle_count_simps [simp]:
  "idle_count [] = 0" "idle_count (s # ss) = (if cs_active s = 0 then Suc (idle_count ss) else idle_count ss)"
  by (simp_all add: idle_count_def)

definition swept :: "nat \<Rightarrow> (client_session \<times> nat option) list \<Rightarrow> client_session list \<Rightarrow> client_session list \<Rightarrow> bool" where
  "swept spare entries kept retired \<longleftrightarrow>
    idle_count kept + length retired = idle_count (filter (\<lambda>s. \<not> cs_closed s) (map fst entries))
    \<and> length retired \<le> spare
    \<and> (\<forall>s \<in> set retired. cs_active s = 0 \<and> \<not> cs_closed s) \<and> (\<forall>s \<in> set kept. \<not> cs_closed s)
    \<and> (\<forall>s \<in> set (map fst entries). \<not> cs_closed s \<longrightarrow> cs_active s \<noteq> 0 \<longrightarrow> s \<in> set kept)"

lemma swept_Nil: "swept spare [] [] []"
  by (simp add: swept_def)

lemma swept_closed: "cs_closed s \<Longrightarrow> swept spare entries kept retired \<Longrightarrow> swept spare ((s, age) # entries) kept retired"
  by (simp add: swept_def)

lemma swept_kept:
  "\<not> cs_closed s \<Longrightarrow> swept spare entries kept retired \<Longrightarrow> swept spare ((s, age) # entries) (s # kept) retired"
  by (simp add: swept_def)

lemma swept_retired:
  "\<not> cs_closed s \<Longrightarrow> cs_active s = 0 \<Longrightarrow> swept spare entries kept retired
    \<Longrightarrow> swept (Suc spare) ((s, age) # entries) kept (s # retired)"
  by (simp add: swept_def)

lemma sweep_from_swept:
  "sweep_from limit m idle entries = (kept, retired) \<Longrightarrow> swept (idle - m) entries kept retired"
proof (induction limit m idle entries arbitrary: kept retired rule: sweep_from.induct)
  case (1 limit m idle)
  then show ?case by (simp add: swept_Nil)
next
  case (2 limit m idle s age entries)
  let ?keep = "cs_active s \<noteq> 0 \<or> idle \<le> m \<or> (case age of None \<Rightarrow> True | Some a \<Rightarrow> a \<le> limit)"
  consider (closed) "cs_closed s" | (keep) "\<not> cs_closed s" ?keep | (retire) "\<not> cs_closed s" "\<not> ?keep" by blast
  then show ?case
  proof cases
    case closed
    with "2.prems" "2.IH"(1) show ?thesis by (simp add: swept_closed)
  next
    case keep
    with "2.prems" obtain kept' where "sweep_from limit m idle entries = (kept', retired)" "kept = s # kept'"
      by (simp only: sweep_from.simps if_True if_False) (auto split: prod.splits)
    with "2.IH"(2) [OF keep] keep(1) show ?thesis by (simp add: swept_kept)
  next
    case retire
    with "2.prems" obtain retired' where
      r: "sweep_from limit m (idle - 1) entries = (kept, retired')" "retired = s # retired'"
      by (simp only: sweep_from.simps if_True if_False) (auto split: prod.splits)
    from retire have s: "cs_active s = 0" "Suc (idle - 1 - m) = idle - m" by auto
    from "2.IH"(3) [OF retire r(1)] swept_retired [OF retire(1) s(1)] r(2) s(2) show ?thesis by metis
  qed
qed

section \<open>Requests and settings between the two ends\<close>

lemma canonical_uot: "host (canonical a) = UOT_MAGIC \<longleftrightarrow> host a = UOT_MAGIC"
proof (cases "parse_ip (host a)")
  case (Some ip)
  have "show_ip ip \<noteq> UOT_MAGIC" using parse_ip_uot parse_show_ip [of ip] by (auto simp del: parse_show_ip show_ip.simps)
  moreover have "host a \<noteq> UOT_MAGIC" using Some parse_ip_uot by auto
  ultimately show ?thesis using Some by (simp add: canonical_def)
qed (simp add: canonical_def)

lemma read_uot_request_put: "write_uot_request = Inr bs \<Longrightarrow> read_uot_request (bs @ rest) = Inr ((), rest)"
proof -
  assume w: "write_uot_request = Inr bs"
  let ?a = "\<lparr>host = UOT_MAGIC, port = 0\<rparr>"
  have "UOT_MAGIC \<noteq> []" by (simp add: UOT_MAGIC_def)
  with w obtain out where out: "write_uot_address ?a = Inr out" "bs = 0 # out"
    by (auto simp: write_uot_request_def any_addr_ok)
  have "address_ok ?a" by (auto simp: address_ok_def UOT_MAGIC_def intro: is_ascii_is_str)
  from read_write_uot [OF this out(1), of rest] out(2) show ?thesis by (simp add: read_uot_request_def)
qed

lemma server_settings_simps [simp]:
  "sv_streams (server_settings scheme d c) = sv_streams c" "sv_tasks (server_settings scheme d c) = sv_tasks c"
  "sv_settings (server_settings scheme d c)"
  by (simp_all add: server_settings_def Let_def)

lemma client_frame_update:
  "is_str text \<Longrightarrow> parse_padding text = Inr scheme \<Longrightarrow>
    client_frame s (new_frame CMD_UPDATE_PADDING 0 (as_bytes text)) = Inr (s\<lparr>cs_padding := scheme\<rparr>)"
  by (simp add: client_frame_def new_frame_def cmd_defs)

lemma client_frame_server_settings:
  "client_frame s (new_frame CMD_SERVER_SETTINGS i d) = Inr (s\<lparr>cs_supports_v2 := True\<rparr>)"
  by (simp add: client_frame_def new_frame_def cmd_defs)

lemma trim_default: "trim DEFAULT_PADDING_SCHEME \<noteq> []"
proof -
  have s: "trim_start DEFAULT_PADDING_SCHEME = DEFAULT_PADDING_SCHEME"
    by (simp add: DEFAULT_PADDING_SCHEME_def trim_start_graphic graphic_def)
  have "DEFAULT_PADDING_SCHEME = butlast DEFAULT_PADDING_SCHEME @ [CHR ''0'']"
    by (simp add: DEFAULT_PADDING_SCHEME_def nl_def)
  moreover have "graphic (CHR ''0'')" by (simp add: graphic_def)
  ultimately have "trim_end DEFAULT_PADDING_SCHEME \<noteq> []" using trim_end_graphic by (metis snoc_eq_iff_butlast)
  with s show ?thesis by (simp add: trim_def)
qed

lemma parse_padding_source: "parse_padding src = Inr scheme \<Longrightarrow> parse_padding (ps_source scheme) = Inr scheme"
  using parse_padding_ok [of src scheme] trim_default
  by (cases "trim src = []") (simp_all add: parse_padding_def)

lemma default_is_str: "is_str DEFAULT_PADDING_SCHEME"
  by (rule is_ascii_is_str) (simp add: DEFAULT_PADDING_SCHEME_def nl_def)

section \<open>Properties\<close>

text \<open>The two ends agree on a stream's destination. What \<open>open_stream\<close> writes at the start of a stream
  is understood by the server as a TCP stream to the same address (up to the canonical text of an IP
  literal) or as a stream of UDP packets, and the bytes that follow are left for the relay.\<close>

theorem stream_request_understood:
  assumes "address_ok destination" and "open_request destination = Inr bs"
  shows "read_stream_request (bs @ rest)
    = Inr (if host destination = UOT_MAGIC then UdpStream else TcpStream (canonical destination), rest)"
proof -
  from assms(2) obtain a where a: "encode_stream_address destination = Inr a"
    and tl: "if host destination = UOT_MAGIC then \<exists>r. write_uot_request = Inr r \<and> bs = a @ r else bs = a"
    by (auto simp: open_request_def split: if_splits)
  note read = read_stream_encode [OF assms(1) a]
  show ?thesis
  proof (cases "host destination = UOT_MAGIC")
    case True
    with tl obtain r where r: "write_uot_request = Inr r" "bs = a @ r" by auto
    with read [of "r @ rest"] read_uot_request_put [OF r(1), of rest] True canonical_uot [of destination]
    show ?thesis by (simp add: read_stream_request_def)
  next
    case False
    with tl read [of rest] canonical_uot [of destination] show ?thesis by (simp add: read_stream_request_def)
  qed
qed

theorem stream_request_understood_witness:
  "\<exists>bs. open_request \<lparr>host = UOT_MAGIC, port = 0\<rparr> = Inr bs \<and> read_stream_request (bs @ [5]) = Inr (UdpStream, [5])"
proof -
  let ?a = "\<lparr>host = UOT_MAGIC, port = 0\<rparr>"
  have len: "length UOT_MAGIC \<le> 255" "UOT_MAGIC \<noteq> []" by (simp_all add: UOT_MAGIC_def)
  then obtain bs where bs: "open_request ?a = Inr bs"
    by (simp add: open_request_def encode_stream_address_def write_uot_request_def write_uot_address_def
        any_addr_ok parse_ip_uot)
  have "address_ok ?a" by (auto simp: address_ok_def UOT_MAGIC_def intro: is_ascii_is_str)
  from stream_request_understood [OF this bs, of "[5]"] bs show ?thesis by simp
qed

text \<open>The padding scheme is negotiated. A server answers the settings of a new client session with
  frames the client accepts; after them the client knows that the server speaks version 2 and uses the
  server's scheme, unless its own scheme has the same MD5 digest.\<close>

theorem padding_negotiated:
  assumes "parse_padding text = Inr scheme" and "is_str text"
    and "server_frame scheme server_new (hd (cs_out (session_new own))) = Inr c"
  shows "\<exists>s. try_fold client_frame (session_new own) (sv_out c) = Inr s \<and> cs_supports_v2 s
    \<and> (cs_padding s = scheme \<or> cs_padding s = own \<and> scheme_md5 own = scheme_md5 scheme)"
proof -
  have str: "is_str (ps_source scheme)" using parse_padding_ok [OF assms(1)] assms(2) default_is_str by simp
  have parse: "parse_padding (ps_source scheme) = Inr scheme" using assms(1) by (rule parse_padding_source)
  have c: "c = server_settings scheme (client_settings own) server_new"
    using assms(3) by (simp add: session_new_def new_frame_def server_frame_def cmd_defs)
  have v2: "client_frame s (new_frame CMD_SERVER_SETTINGS 0 d) = Inr (s\<lparr>cs_supports_v2 := True\<rparr>)" for s d
    by (rule client_frame_server_settings)
  show ?thesis
  proof (cases "scheme_md5 own = scheme_md5 scheme")
    case True
    then show ?thesis
      by (simp add: c server_settings_def setting_value_client server_send_def server_new_def v2)
        (simp add: session_new_def)
  next
    case False
    then show ?thesis
      by (simp add: c server_settings_def setting_value_client server_send_def server_new_def v2
          client_frame_update [OF str parse])
  qed
qed

theorem padding_negotiated_witness:
  "\<exists>c s. server_frame sample_scheme server_new (hd (cs_out (session_new (sample_scheme\<lparr>ps_source := []\<rparr>)))) = Inr c
    \<and> try_fold client_frame (session_new (sample_scheme\<lparr>ps_source := []\<rparr>)) (sv_out c) = Inr s \<and> cs_supports_v2 s"
proof -
  obtain c where c: "server_frame sample_scheme server_new (hd (cs_out (session_new (sample_scheme\<lparr>ps_source := []\<rparr>)))) = Inr c"
    by (simp add: session_new_def new_frame_def server_frame_def cmd_defs)
  have "is_str ''1=9-9''" by (rule is_ascii_is_str) simp
  from padding_negotiated [OF sample_scheme_parsed this c] c show ?thesis by blast
qed

text \<open>The server's table of streams is exact in every interleaving. Its entries are precisely the
  streams that are not cancelled, each under its own identifier; no stream has identifier zero or was
  opened before the settings, and no stream ever buffers more than 32 frames.\<close>

theorem server_streams_exact:
  assumes "served scheme fs c"
  shows "(sv_streams c i = Some k \<longleftrightarrow> k < length (sv_tasks c) \<and> st_id (sv_tasks c ! k) = i
      \<and> \<not> st_cancelled (sv_tasks c ! k))
    \<and> (\<forall>t \<in> set (sv_tasks c). st_id t \<noteq> 0 \<and> sv_settings c \<and> length (st_queue t) \<le> 32)"
  using server_invD [OF served_inv [OF assms]]
  by (auto simp: live_def CHANNEL_CAPACITY_def in_set_conv_nth)

definition sample_run :: "frame list" where
  "sample_run = [new_frame CMD_SETTINGS 0 [], new_frame CMD_SYN 1 [], new_frame CMD_PSH 1 [7]]"

definition sample_conn :: server_conn where
  "sample_conn = (server_settings sample_scheme [] server_new)\<lparr>sv_streams := [1 \<mapsto> 0],
     sv_tasks := [(new_task 1)\<lparr>st_queue := [[7]]\<rparr>]\<rparr>"

lemma sample_served: "served sample_scheme sample_run sample_conn"
proof -
  let ?c1 = "server_settings sample_scheme [] server_new"
  let ?c2 = "?c1\<lparr>sv_streams := [1 \<mapsto> 0], sv_tasks := [new_task 1]\<rparr>"
  have new: "sv_streams server_new = Map.empty" "sv_tasks server_new = []" by (simp_all add: server_new_def)
  have "server_step sample_scheme ([], server_new) ([] @ [new_frame CMD_SETTINGS 0 []], ?c1)"
    by (rule server_step.frame) (simp_all add: has_room_def new_frame_def server_frame_def cmd_defs)
  moreover have "server_step sample_scheme ([new_frame CMD_SETTINGS 0 []], ?c1)
      ([new_frame CMD_SETTINGS 0 []] @ [new_frame CMD_SYN 1 []], ?c2)"
    by (rule server_step.frame)
      (simp_all add: has_room_def new_frame_def server_frame_def server_syn_def cmd_defs new)
  moreover have "server_step sample_scheme ([new_frame CMD_SETTINGS 0 [], new_frame CMD_SYN 1 []], ?c2)
      ([new_frame CMD_SETTINGS 0 [], new_frame CMD_SYN 1 []] @ [new_frame CMD_PSH 1 [7]], sample_conn)"
    by (rule server_step.frame)
      (simp_all add: has_room_def new_frame_def server_frame_def cmd_defs sample_conn_def push_task_def
        new_task_def CHANNEL_CAPACITY_def)
  ultimately show ?thesis
    unfolding served_def sample_run_def by (simp add: rtranclp.rtrancl_into_rtrancl r_into_rtranclp)
qed

theorem server_streams_exact_witness:
  "sv_streams sample_conn 1 = Some 0 \<and> \<not> st_cancelled (sv_tasks sample_conn ! 0)"
  using server_streams_exact [OF sample_served, of 1 0] by (simp add: sample_conn_def)

text \<open>C10: The server hands over the bytes of an open stream in order, without loss or duplication. In every
  interleaving, as long as the stream is in the table and its writing task has not ended, what its user has received,
  followed by what waits in its channel, is the data of the PSH frames of that stream since it was opened. Once the stream
  has left the table, by a FIN frame for example, what waits in the channel may be lost.\<close>

theorem server_delivers_in_order:
  assumes "served scheme fs c" and "sv_streams c i = Some k" and "\<not> st_writer_done (sv_tasks c ! k)"
  shows "st_delivered (sv_tasks c ! k) @ st_queue (sv_tasks c ! k) = stream_payload i fs"
proof -
  from served_delivery [OF assms(1)] have inv: "server_inv c" "delivery_inv fs c" by simp_all
  from server_invD(1) [OF inv(1)] assms(2) have "live c i k" by simp
  with inv(2) assms(3) show ?thesis by (simp add: delivery_inv_def)
qed

theorem server_delivers_in_order_witness: "stream_payload 1 sample_run = [[7]]"
  using server_delivers_in_order [OF sample_served, of 1 0]
  by (simp add: sample_conn_def new_task_def)

text \<open>C11: An open session carries at most one stream. In every interleaving of its callers, its tasks and the
  frames of the server, an open session has at most one stream, its counter never underflows, and it
  can be reserved exactly when it has no stream and no caller has it reserved or, having passed the test of
  \<open>closed\<close>, is about to open one.\<close>

theorem session_exclusive:
  assumes "session_reachable scheme s os" and "\<not> cs_closed s"
  shows "finite (dom (cs_streams s)) \<and> card (dom (cs_streams s)) \<le> 1 \<and> cs_active s \<le> 1
    \<and> (fst (try_reserve s) \<longleftrightarrow> cs_streams s = Map.empty \<and> Reserved \<notin> set os \<and> Checked \<notin> set os)"
proof -
  from session_reachable_inv [OF assms(1)] assms(2) have f: "finite (dom (cs_streams s))"
    "pending os + card (dom (cs_streams s)) \<le> 1" "unat (cs_active s) = pending os + card (dom (cs_streams s))"
    by (auto simp: session_inv_def)
  have "cs_active s \<le> 1" using f(2,3) by (simp add: word_le_nat_alt)
  moreover have "cs_active s = 0 \<longleftrightarrow> pending os = 0 \<and> card (dom (cs_streams s)) = 0"
    using f(3) by (simp add: unat_eq_0 [symmetric])
  moreover have "pending os = 0 \<longleftrightarrow> Reserved \<notin> set os \<and> Checked \<notin> set os"
    by (auto simp: pending_def filter_empty_conv)
  moreover have "card (dom (cs_streams s)) = 0 \<longleftrightarrow> cs_streams s = Map.empty" using f(1) by simp
  ultimately show ?thesis using f(1,2) assms(2) by (simp add: try_reserve_def)
qed

definition sample_session :: client_session where
  "sample_session = snd (open_insert (snd (try_reserve (session_new sample_scheme))))"

definition sample_loaded :: client_session where
  "sample_loaded = sample_session\<lparr>cs_tasks := push_task 0 [7] (cs_tasks sample_session)\<rparr>"

lemmas sample_session_defs = sample_session_def open_insert_def try_reserve_def session_new_def Let_def
  stream_task.defs client_task.defs new_task_def

lemma sample_session_open: "session_reachable sample_scheme sample_session [Opened 1]"
proof -
  let ?s0 = "session_new sample_scheme"
  let ?s1 = "snd (try_reserve ?s0)"
  have "client_step (?s0, []) (?s1, [] @ [Reserved])"
    by (rule client_step.reserve) (simp add: try_reserve_def session_new_def)
  moreover have "client_step (?s1, [Reserved]) (?s1, [Reserved][0 := (if cs_closed ?s1 then OpenFailed else Checked)])"
    by (rule client_step.check) simp_all
  moreover have "\<not> cs_closed ?s1" by (simp add: try_reserve_def session_new_def)
  moreover have "client_step (?s1, [Checked]) (sample_session, [Checked][0 := Opened 1])"
    by (rule client_step.insert) (simp_all add: sample_session_defs)
  ultimately show ?thesis
    unfolding session_reachable_def by (simp add: rtranclp.rtrancl_into_rtrancl r_into_rtranclp)
qed

lemma sample_loaded_open: "session_reachable sample_scheme sample_loaded [Opened 1]"
proof -
  have "client_step (sample_session, [Opened 1]) (sample_loaded, [Opened 1])"
    by (rule client_step.frame [where f = "new_frame CMD_PSH 1 [7]"])
      (simp_all add: has_room_def client_frame_def new_frame_def cmd_defs sample_loaded_def CHANNEL_CAPACITY_def
        sample_session_defs)
  with sample_session_open show ?thesis
    unfolding session_reachable_def by (rule rtranclp.rtrancl_into_rtrancl)
qed

theorem session_exclusive_witness:
  "card (dom (cs_streams sample_session)) = 1 \<and> \<not> fst (try_reserve sample_session)"
proof -
  have "\<not> cs_closed sample_session" "dom (cs_streams sample_session) = {1}" by (simp_all add: sample_session_defs)
  with session_exclusive [OF sample_session_open] show ?thesis by auto
qed

text \<open>C24: A FIN frame of the server destroys data that arrived before it. In every reachable state with data still
  waiting in the channel of a stream whose user reads, the stream is not cancelled; the FIN frame, which the session always takes,
  cancels it with the same data waiting; its writing task may then end at once, and after that the user never receives any
  of that data, whatever happens.\<close>

theorem fin_discards_queue:
  assumes "session_reachable scheme s os" and "cs_streams s i = Some k" and "st_queue (cs_tasks s ! k) \<noteq> []"
    and "\<not> st_reader_gone (cs_tasks s ! k)"
  shows "\<not> st_cancelled (cs_tasks s ! k)
    \<and> (\<exists>s' t. client_frame s (new_frame CMD_FIN i d) = Inr s' \<and> client_step (s, os) (s', os)
        \<and> st_cancelled (cs_tasks s' ! k) \<and> st_queue (cs_tasks s' ! k) = st_queue (cs_tasks s ! k)
        \<and> t = s'\<lparr>cs_tasks := stop_writer k (cs_tasks s')\<rparr> \<and> client_step (s', os) (t, os)
        \<and> \<not> st_reader_gone (cs_tasks t ! k) \<and> st_queue (cs_tasks t ! k) = st_queue (cs_tasks s ! k)
        \<and> (\<forall>u os'. client_step\<^sup>*\<^sup>* (t, os) (u, os')
              \<longrightarrow> st_delivered (cs_tasks u ! k) = st_delivered (cs_tasks s ! k)))"
proof -
  from session_reachable_tasks [OF assms(1)] assms(2)
  have k: "k < length (cs_tasks s)" "\<not> st_cancelled (cs_tasks s ! k)" by (simp_all add: tasks_inv_def)
  let ?s = "remove_stream i s"
  let ?t = "?s\<lparr>cs_tasks := stop_writer k (cs_tasks ?s)\<rparr>"
  note fin = fin_frame [OF assms(2)]
  have stop: "client_step (?s, os) (?t, os)"
    by (rule client_step.writer, rule writer_step.stop) (use k(1) in \<open>simp_all add: fin(3) cancel_task_def\<close>)
  have "st_delivered (cs_tasks u ! k) = st_delivered (cs_tasks s ! k)" if "client_step\<^sup>*\<^sup>* (?t, os) (u, os')" for u os'
    using client_steps_done [OF that, of k] k(1) by (simp add: fin(3) stop_writer_def cancel_task_def)
  with k fin(1,2) stop assms(4) show ?thesis
    by (intro conjI exI [of _ ?s] exI [of _ ?t]) (simp_all add: fin(3) cancel_task_def stop_writer_def)
qed

theorem fin_discards_queue_witness:
  "\<exists>s' t. client_frame sample_loaded (new_frame CMD_FIN 1 []) = Inr s' \<and> client_step (s', [Opened 1]) (t, [Opened 1])
    \<and> st_queue (cs_tasks t ! 0) \<noteq> [] \<and> \<not> st_reader_gone (cs_tasks t ! 0)
    \<and> (\<forall>u os'. client_step\<^sup>*\<^sup>* (t, [Opened 1]) (u, os') \<longrightarrow> st_delivered (cs_tasks u ! 0) = [])"
proof -
  have s: "cs_streams sample_loaded 1 = Some 0" "st_queue (cs_tasks sample_loaded ! 0) \<noteq> []"
    "\<not> st_reader_gone (cs_tasks sample_loaded ! 0)" "st_delivered (cs_tasks sample_loaded ! 0) = []"
    by (simp_all add: sample_loaded_def push_task_def sample_session_defs)
  from fin_discards_queue [OF sample_loaded_open s(1-3), of "[]"] s(2,4) show ?thesis by metis
qed

text \<open>A session is taken from the pool only when nobody else uses it. The session handed out is open
  and reserved for the caller; it was idle, or it is a new one, and a new connection is made only when
  every open session is in use. All other open sessions stay as they were.\<close>

theorem acquire_session_spec:
  assumes "acquire_session connect sessions = Inr (k, ss)"
  shows "k < length ss \<and> \<not> cs_closed (ss ! k) \<and> cs_active (ss ! k) = 1
    \<and> (\<exists>live. live = filter (\<lambda>s. \<not> cs_closed s) sessions
        \<and> (k < length live \<and> cs_active (live ! k) = 0 \<and> ss = live[k := (live ! k)\<lparr>cs_active := 1\<rparr>]
           \<or> k = length live \<and> (\<forall>s \<in> set live. cs_active s \<noteq> 0)
               \<and> (\<exists>s. connect = Inr s \<and> cs_active s = 0 \<and> ss = live @ [s\<lparr>cs_active := 1\<rparr>])))"
proof -
  define live where "live = filter (\<lambda>s. \<not> cs_closed s) sessions"
  have open_live: "\<not> cs_closed (live ! j)" if "j < length live" for j
    using nth_mem [OF that] by (simp add: live_def)
  show ?thesis
  proof (cases "find (\<lambda>j. fst (try_reserve (live ! j))) (rev [0..<length live])")
    case (Some j)
    then have j: "j < length live" "fst (try_reserve (live ! j))" using find_in_set by fastforce+
    with assms Some have "k = j" "ss = live[j := (live ! j)\<lparr>cs_active := 1\<rparr>]" "cs_active (live ! j) = 0"
      by (auto simp: acquire_session_def live_def [symmetric] try_reserve_def split: if_splits)
    with j open_live [OF j(1)] show ?thesis unfolding live_def [symmetric] by simp
  next
    case None
    then have none: "\<not> fst (try_reserve (live ! j))" if "j < length live" for j
      using that by (simp add: find_None_iff)
    have used: "\<forall>s \<in> set live. cs_active s \<noteq> 0"
    proof
      fix s assume "s \<in> set live"
      then obtain j where "j < length live" "s = live ! j" by (auto simp: in_set_conv_nth)
      with none [of j] open_live [of j] show "cs_active s \<noteq> 0" by (auto simp: try_reserve_def)
    qed
    from assms None obtain s where "connect = Inr s" "fst (try_reserve s)" "k = length live"
      "ss = live @ [snd (try_reserve s)]"
      by (auto simp: acquire_session_def live_def [symmetric])
    with used show ?thesis
      unfolding live_def [symmetric] by (auto simp: try_reserve_def split: if_splits)
  qed
qed

theorem acquire_session_spec_witness:
  "\<exists>k ss. acquire_session (Inl SessionClosed) [sample_session, session_new sample_scheme] = Inr (k, ss)
    \<and> \<not> cs_closed (ss ! k) \<and> cs_active (ss ! k) = 1"
proof -
  have "acquire_session (Inl SessionClosed) [sample_session, session_new sample_scheme]
      = Inr (1, [sample_session, (session_new sample_scheme)\<lparr>cs_active := 1\<rparr>])"
    by (simp add: acquire_session_def Let_def try_reserve_def sample_session_defs)
  with acquire_session_spec [OF this] show ?thesis by blast
qed

text \<open>The idle check never closes a session in use or one too many, as long as no dead session is in
  the pool: every session with a stream stays, and at least \<open>min_idle_session\<close> idle sessions stay, or all
  of them when there are fewer.\<close>

theorem idle_sweep_keeps:
  assumes "idle_sweep limit min_idle entries = (kept, retired)" and "\<forall>s \<in> set (map fst entries). \<not> cs_closed s"
  shows "(\<forall>s \<in> set (map fst entries). cs_active s \<noteq> 0 \<longrightarrow> s \<in> set kept)
    \<and> length (filter (\<lambda>s. cs_active s = 0) kept)
        \<ge> min min_idle (length (filter (\<lambda>s. cs_active s = 0) (map fst entries)))
    \<and> (\<forall>s \<in> set retired. cs_closed s)"
proof -
  let ?idle = "length (filter (\<lambda>(s, _). cs_active s = 0) entries)"
  obtain r where r: "sweep_from limit min_idle ?idle entries = (kept, r)"
    "retired = map (\<lambda>s. clear_streams (session_close s)) r"
    using assms(1) by (auto simp: idle_sweep_def Let_def split: prod.splits)
  have idle: "idle_count (map fst entries) = ?idle"
    by (simp add: idle_count_def filter_map comp_def case_prod_unfold)
  have all: "filter (\<lambda>s. \<not> cs_closed s) (map fst entries) = map fst entries"
    using assms(2) by (simp only: filter_id_conv)
  note sw = sweep_from_swept [OF r(1), unfolded swept_def all idle]
  from sw have
    w: "idle_count kept + length r = ?idle" "length r \<le> ?idle - min_idle"
      "\<forall>s \<in> set (map fst entries). \<not> cs_closed s \<longrightarrow> cs_active s \<noteq> 0 \<longrightarrow> s \<in> set kept"
    by blast+
  from w(1,2) have "idle_count kept \<ge> min min_idle ?idle" by linarith
  moreover have "\<forall>s \<in> set retired. cs_closed s" by (auto simp: r(2) clear_streams_def session_close_def)
  ultimately show ?thesis using w(3) assms(2) idle by (simp only: idle_count_def) blast
qed

theorem idle_sweep_keeps_witness:
  "\<exists>kept retired. idle_sweep 10 1 [(session_new sample_scheme, Some 50), (session_new sample_scheme, Some 50)] = (kept, retired)
    \<and> length (filter (\<lambda>s. cs_active s = 0) kept) \<ge> 1 \<and> retired \<noteq> []"
proof -
  let ?s = "session_new sample_scheme"
  have run: "idle_sweep 10 1 [(?s, Some 50), (?s, Some 50)] = ([?s], [clear_streams (session_close ?s)])"
    by (simp add: idle_sweep_def session_new_def)
  have "\<forall>s \<in> set (map fst [(?s, Some (50 :: nat)), (?s, Some 50)]). \<not> cs_closed s" by (simp add: session_new_def)
  from idle_sweep_keeps [OF run this] show ?thesis using run by (simp add: session_new_def)
qed

text \<open>With a dead session in the pool the idle check undershoots \<open>min_idle_session\<close>. Dead sessions are
  counted as idle but not subtracted when they are dropped, so that an idle session is closed although
  it is the only one left.\<close>

theorem idle_sweep_undershoots:
  "\<exists>entries. length (filter (\<lambda>s. \<not> cs_closed s \<and> cs_active s = 0) (map fst entries)) = 1
    \<and> fst (idle_sweep 10 1 entries) = []"
proof -
  let ?s = "session_new sample_scheme"
  have "fst (idle_sweep 10 1 [(session_close ?s, Some 50), (?s, Some 50)]) = []"
    by (simp add: idle_sweep_def session_new_def session_close_def)
  moreover have "length (filter (\<lambda>s. \<not> cs_closed s \<and> cs_active s = 0)
      (map fst [(session_close ?s, Some (50 :: nat)), (?s, Some 50)])) = 1"
    by (simp add: session_new_def session_close_def)
  ultimately show ?thesis by blast
qed

end
