(* ===== verification/Vless_Codec.thy ===== *)
theory Vless_Codec
  imports Anytls_Auth
begin

text \<open>
  The codecs of the VLESS crate (\<open>sing-box-protocol-vless\<close>): URL-safe base64, SHA-1 for the
  WebSocket handshake, UUIDs, and the request at the start of a stream. Each is written by hand in
  the crate.
\<close>

text \<open>
  The errors of the WebSocket stream: of the transport and of the random generator in the first line, and then what the
  code refuses in the frames of the peer.
\<close>

datatype ws_error =
    InnerFailed | WriteZero | NoRandom
  | ReservedBits | MaskDirection | FrameTooLarge | BadControl | UnexpectedContinuation
  | NestedFragment | UnsupportedOpcode u8
  | TruncatedHeader | TruncatedPayload

datatype vless_error =
    VlessEof | UnsupportedVlessVersion | InvalidUser | VlessUdpUnsupported | VlessDomainNotUtf8
  | VlessAddressType u8 | VlessEmptyHost | VlessDomainTooLong
  | UuidTooLong | UuidLength | UuidDigit
  | Base64Character | Base64Padding
  | VlessHeadersTooLarge | VlessClosed | VlessHeadersNotUtf8 | VlessNoStatus | VlessBadStatus
  | VlessHeaderLine | MissingUpgrade | MissingConnection | MissingKey
  | EarlyDataTooLarge | BadHttpStatus u16 | BadAccept | BadVlessResponse
  | VlessTcpOnly | VlessOptions | DuplicateUuid | VlessServerName | VlessIo ws_error

section \<open>Base64\<close>

definition BASE64_TABLE :: string where
  "BASE64_TABLE = ''ABCDEFGHIJKLMNOPQRSTUVWXYZabcdefghijklmnopqrstuvwxyz0123456789+/''"

definition base64_digit :: "u8 \<Rightarrow> char" where
  "base64_digit v = BASE64_TABLE ! unat v"

text \<open>The loop over \<open>chunks(3)\<close>.\<close>

fun encode_base64 :: "bytes \<Rightarrow> string" where
  "encode_base64 [] = []"
| "encode_base64 [a] =
     [base64_digit (drop_bit 2 a), base64_digit (push_bit 4 (and a 3)), CHR ''='', CHR ''='']"
| "encode_base64 [a, b] =
     [base64_digit (drop_bit 2 a), base64_digit (or (push_bit 4 (and a 3)) (drop_bit 4 b)),
      base64_digit (push_bit 2 (and b 15)), CHR ''='']"
| "encode_base64 (a # b # c # rest) =
     [base64_digit (drop_bit 2 a), base64_digit (or (push_bit 4 (and a 3)) (drop_bit 4 b)),
      base64_digit (or (push_bit 2 (and b 15)) (drop_bit 6 c)), base64_digit (and c 63)]
     @ encode_base64 rest"

definition encode_base64_url :: "bytes \<Rightarrow> string" where
  "encode_base64_url v =
     replace_char (CHR ''/'') (CHR ''_'') (replace_char (CHR ''+'') (CHR ''-'')
       (trim_end_matches (CHR ''='') (encode_base64 v)))"

definition base64_url_value :: "char \<Rightarrow> vless_error + u8" where
  "base64_url_value c =
     (let n = of_char c :: nat in
      if 65 \<le> n \<and> n \<le> 90 then Inr (of_nat (n - 65))
      else if 97 \<le> n \<and> n \<le> 122 then Inr (of_nat (n - 97 + 26))
      else if 48 \<le> n \<and> n \<le> 57 then Inr (of_nat (n - 48 + 52))
      else if c = CHR ''-'' then Inr 62
      else if c = CHR ''_'' then Inr 63
      else Inl Base64Character)"

text \<open>
  The loop of \<open>decode_base64_url\<close> with its output, its bit buffer and the number of bits in it.
\<close>

fun decode_base64_from :: "bytes \<Rightarrow> u32 \<Rightarrow> nat \<Rightarrow> string \<Rightarrow> vless_error + (bytes \<times> nat)" where
  "decode_base64_from out buffer bits [] = Inr (out, bits)"
| "decode_base64_from out buffer bits (c # cs) =
     (if c = CHR ''='' then Inr (out, bits)
      else and_then (base64_url_value c) (\<lambda>digit.
        let buffer = or (push_bit 6 buffer) (ucast digit); bits = bits + 6 in
        if bits \<ge> 8
        then decode_base64_from (out @ [ucast (drop_bit (bits - 8) buffer)])
               (and buffer (mask (bits - 8))) (bits - 8) cs
        else decode_base64_from out buffer bits cs))"

definition decode_base64_url :: "string \<Rightarrow> vless_error + bytes" where
  "decode_base64_url s =
     and_then (decode_base64_from [] 0 0 s) (\<lambda>(out, bits).
     and_then (ensure (bits < 6) Base64Padding) (\<lambda>_. Inr out))"

section \<open>SHA-1\<close>

text \<open>
  The message with the bit 1, zeros up to 56 modulo 64, and the length in bits, big-endian.
\<close>

definition sha1_message :: "bytes \<Rightarrow> bytes" where
  "sha1_message input =
     (let m = input @ [0x80] in
      m @ replicate ((120 - length m mod 64) mod 64) 0 @ be_bytes (of_nat (length input) * 8 :: u64))"

type_synonym sha1_state = "u32 \<times> u32 \<times> u32 \<times> u32 \<times> u32"

definition sha1_init :: sha1_state where
  "sha1_init = (0x67452301, 0xEFCDAB89, 0x98BADCFE, 0x10325476, 0xC3D2E1F0)"

text \<open>The sixteen words of a chunk, and the loop that extends them to eighty.\<close>

definition sha1_chunk_words :: "bytes \<Rightarrow> u32 list" where
  "sha1_chunk_words chunk = map (\<lambda>i. from_be (take 4 (drop (4 * i) chunk))) [0..<16]"

definition sha1_extend :: "u32 list \<Rightarrow> nat \<Rightarrow> u32 list" where
  "sha1_extend ws i =
     ws @ [word_rotl 1 (xor (xor (xor (ws ! (i - 3)) (ws ! (i - 8))) (ws ! (i - 14))) (ws ! (i - 16)))]"

definition sha1_words :: "bytes \<Rightarrow> u32 list" where
  "sha1_words chunk = foldl sha1_extend (sha1_chunk_words chunk) [16..<80]"

definition sha1_mix :: "nat \<Rightarrow> u32 \<Rightarrow> u32 \<Rightarrow> u32 \<Rightarrow> u32 \<times> u32" where
  "sha1_mix i b c d =
     (if i \<le> 19 then (or (and b c) (and (not b) d), 0x5A827999)
      else if i \<le> 39 then (xor (xor b c) d, 0x6ED9EBA1)
      else if i \<le> 59 then (or (or (and b c) (and b d)) (and c d), 0x8F1BBCDC)
      else (xor (xor b c) d, 0xCA62C1D6))"

definition sha1_round :: "u32 list \<Rightarrow> sha1_state \<Rightarrow> nat \<Rightarrow> sha1_state" where
  "sha1_round ws = (\<lambda>(a, b, c, d, e) i.
     let (f, k) = sha1_mix i b c d in
     (word_rotl 5 a + f + e + k + ws ! i, a, word_rotl 30 b, c, d))"

definition sha1_block :: "sha1_state \<Rightarrow> bytes \<Rightarrow> sha1_state" where
  "sha1_block = (\<lambda>(s0, s1, s2, s3, s4) chunk.
     case foldl (sha1_round (sha1_words chunk)) (s0, s1, s2, s3, s4) [0..<80] of
       (a, b, c, d, e) \<Rightarrow> (s0 + a, s1 + b, s2 + c, s3 + d, s4 + e))"

fun sha1_blocks :: "nat \<Rightarrow> sha1_state \<Rightarrow> bytes \<Rightarrow> sha1_state" where
  "sha1_blocks 0 s m = s"
| "sha1_blocks (Suc n) s m = sha1_blocks n (sha1_block s (take 64 m)) (drop 64 m)"

definition sha1 :: "bytes \<Rightarrow> bytes" where
  "sha1 input =
     (let m = sha1_message input in
      case sha1_blocks (length m div 64) sha1_init m of
        (a, b, c, d, e) \<Rightarrow> be_bytes a @ be_bytes b @ be_bytes c @ be_bytes d @ be_bytes e)"

definition WS_GUID :: string where
  "WS_GUID = ''258EAFA5-E914-47DA-95CA-C5AB0DC85B11''"

definition websocket_accept :: "string \<Rightarrow> string" where
  "websocket_accept key = encode_base64 (sha1 (as_bytes key @ as_bytes WS_GUID))"

text \<open>\<open>websocket_key\<close> with the sixteen random bytes.\<close>

definition websocket_key :: "bytes \<Rightarrow> string" where
  "websocket_key random = encode_base64 random"

section \<open>UUIDs\<close>

definition hex_value :: "char \<Rightarrow> vless_error + u8" where
  "hex_value c =
     (let n = of_char c :: nat in
      if 48 \<le> n \<and> n \<le> 57 then Inr (of_nat (n - 48))
      else if 97 \<le> n \<and> n \<le> 102 then Inr (of_nat (n - 97 + 10))
      else if 65 \<le> n \<and> n \<le> 70 then Inr (of_nat (n - 65 + 10))
      else Inl UuidDigit)"

text \<open>The loop that collects the digits, and the one that pairs them.\<close>

definition uuid_push :: "string \<Rightarrow> char \<Rightarrow> vless_error + string" where
  "uuid_push hex c =
     (if c = CHR ''-'' then Inr hex
      else and_then (ensure (length hex < 32) UuidTooLong) (\<lambda>_. Inr (hex @ [c])))"

fun uuid_pairs :: "string \<Rightarrow> vless_error + bytes" where
  "uuid_pairs (a # b # cs) =
     and_then (hex_value a) (\<lambda>x. and_then (hex_value b) (\<lambda>y.
     and_then (uuid_pairs cs) (\<lambda>bs. Inr (or (push_bit 4 x) y # bs))))"
| "uuid_pairs _ = Inr []"

definition parse_uuid :: "string \<Rightarrow> vless_error + bytes" where
  "parse_uuid s =
     and_then (try_fold uuid_push [] s) (\<lambda>hex.
     and_then (ensure (length hex = 32) UuidLength) (\<lambda>_. uuid_pairs hex))"

section \<open>Requests\<close>

definition VLESS_VERSION :: u8 where "VLESS_VERSION = 0"
definition VLESS_COMMAND_TCP :: u8 where "VLESS_COMMAND_TCP = 1"

definition vless_addr :: "string \<Rightarrow> u16 \<Rightarrow> vless_error + address" where
  "vless_addr h p = map_err (\<lambda>_. VlessEmptyHost) (new_address h p)"

definition encode_vless_request :: "bytes \<Rightarrow> address \<Rightarrow> vless_error + bytes" where
  "encode_vless_request uuid destination =
     (let out = VLESS_VERSION # uuid @ [0, VLESS_COMMAND_TCP] @ be_bytes (port destination) in
      case parse_ip (host destination) of
        Some (IpV4 a) \<Rightarrow> Inr (out @ 1 # be_bytes a)
      | Some (IpV6 a) \<Rightarrow> Inr (out @ 3 # be_bytes a)
      | None \<Rightarrow>
          and_then (ensure (length (host destination) \<le> 255) VlessDomainTooLong) (\<lambda>_.
          Inr (out @ 2 # of_nat (length (host destination)) # as_bytes (host destination))))"

definition read_vless_host :: "u8 \<Rightarrow> bytes \<Rightarrow> vless_error + (string \<times> bytes)" where
  "read_vless_host address_type bs =
     (if address_type = 1 then
        and_then (read_exact VlessEof 4 bs) (\<lambda>(a, bs). Inr (show_ip (IpV4 (from_be a)), bs))
      else if address_type = 2 then
        and_then (read_u8 VlessEof bs) (\<lambda>(n, bs).
        and_then (read_exact VlessEof (unat n) bs) (\<lambda>(d, bs).
        and_then (from_utf8 VlessDomainNotUtf8 d) (\<lambda>h. Inr (h, bs))))
      else if address_type = 3 then
        and_then (read_exact VlessEof 16 bs) (\<lambda>(a, bs). Inr (show_ip (IpV6 (from_be a)), bs))
      else Inl (VlessAddressType address_type))"

definition read_vless_request ::
    "(bytes \<rightharpoonup> string) \<Rightarrow> bytes \<Rightarrow> vless_error + ((address \<times> string) \<times> bytes)" where
  "read_vless_request users bs =
     and_then (read_u8 VlessEof bs) (\<lambda>(version, bs).
     and_then (ensure (version = VLESS_VERSION) UnsupportedVlessVersion) (\<lambda>_.
     and_then (read_exact VlessEof 16 bs) (\<lambda>(uuid, bs).
     and_then (ok_or InvalidUser (users uuid)) (\<lambda>user.
     and_then (read_u8 VlessEof bs) (\<lambda>(addons_len, bs).
     and_then (read_exact VlessEof (unat addons_len) bs) (\<lambda>(_, bs).
     and_then (read_u8 VlessEof bs) (\<lambda>(command, bs).
     and_then (ensure (command = VLESS_COMMAND_TCP) VlessUdpUnsupported) (\<lambda>_.
     and_then (read_be VlessEof bs) (\<lambda>(p :: u16, bs).
     and_then (read_u8 VlessEof bs) (\<lambda>(address_type, bs).
     and_then (read_vless_host address_type bs) (\<lambda>(h, bs).
     and_then (vless_addr h p) (\<lambda>a. Inr ((a, user), bs)))))))))))))"

text \<open>The table of users of an inbound; a user without a name is called by its position.\<close>

definition add_vless_user ::
    "(bytes \<rightharpoonup> string) \<Rightarrow> nat \<times> string \<times> string \<Rightarrow> vless_error + (bytes \<rightharpoonup> string)" where
  "add_vless_user users = (\<lambda>(index, name, uuid).
     and_then (parse_uuid uuid) (\<lambda>key.
     and_then (ensure (users key = None) DuplicateUuid) (\<lambda>_.
     Inr (users(key \<mapsto> (if name = [] then show_nat index else name))))))"

definition vless_users :: "(string \<times> string) list \<Rightarrow> vless_error + (bytes \<rightharpoonup> string)" where
  "vless_users options = try_fold add_vless_user Map.empty (enumerate 0 options)"



definition url_char :: "u8 \<Rightarrow> char" where
  "url_char v = (if base64_digit v = CHR ''+'' then CHR ''-''
     else if base64_digit v = CHR ''/'' then CHR ''_'' else base64_digit v)"

lemma base64_table:
  "list_all (\<lambda>n. base64_digit (of_nat n) \<noteq> CHR ''='' \<and> url_char (of_nat n) \<noteq> CHR ''=''
     \<and> base64_url_value (url_char (of_nat n)) = Inr (of_nat n)) [0..<64]"
  by code_simp

lemma base64_url_char:
  assumes "v < 64"
  shows "base64_digit v \<noteq> CHR ''=''" "url_char v \<noteq> CHR ''=''" "base64_url_value (url_char v) = Inr v"
proof -
  from assms have "unat v < 64" by (simp add: word_less_nat_alt)
  then have "unat v \<in> set [0..<64]" by simp
  with base64_table have "base64_digit (of_nat (unat v)) \<noteq> CHR ''='' \<and> url_char (of_nat (unat v)) \<noteq> CHR ''=''
     \<and> base64_url_value (url_char (of_nat (unat v))) = Inr (of_nat (unat v))" unfolding list_all_iff by (rule bspec)
  then show "base64_digit v \<noteq> CHR ''=''" "url_char v \<noteq> CHR ''=''" "base64_url_value (url_char v) = Inr v"
    by simp_all
qed

fun sextets :: "bytes \<Rightarrow> u8 list" where
  "sextets [] = []"
| "sextets [a] = [drop_bit 2 a, push_bit 4 (and a 3)]"
| "sextets [a, b] = [drop_bit 2 a, or (push_bit 4 (and a 3)) (drop_bit 4 b), push_bit 2 (and b 15)]"
| "sextets (a # b # c # rest) =
     [drop_bit 2 a, or (push_bit 4 (and a 3)) (drop_bit 4 b),
      or (push_bit 2 (and b 15)) (drop_bit 6 c), and c 63] @ sextets rest"

lemma sextet_bits: "(\<And>n. 6 \<le> n \<Longrightarrow> n < 8 \<Longrightarrow> \<not> bit v n) \<Longrightarrow> v < 64" for v :: u8
proof -
  assume v: "\<And>n. 6 \<le> n \<Longrightarrow> n < 8 \<Longrightarrow> \<not> bit v n"
  have "take_bit 6 v = v"
  proof (rule bit_eqI)
    fix n show "bit (take_bit 6 v) n \<longleftrightarrow> bit v n"
      using v [of n] bit_imp_le_length [of v n] by (cases "n < 6"; cases "n < 8") (auto simp: bit_simps)
  qed
  then have "unat v = take_bit 6 (unat v)" by (metis unsigned_take_bit_eq)
  then have "unat v < 2 ^ 6" by (metis take_bit_nat_less_exp)
  then show ?thesis by (simp add: word_less_nat_alt)
qed

lemma sextets_less: "v \<in> set (sextets bs) \<Longrightarrow> v < 64"
proof -
  have 3: "(3 :: u8) = mask 2" and 15: "(15 :: u8) = mask 4" and 63: "(63 :: u8) = mask 6"
    by (simp_all add: mask_eq_exp_minus_1)
  have s: "drop_bit 2 a < 64" "push_bit 4 (and a 3) < 64" "or (push_bit 4 (and a 3)) (drop_bit 4 b) < 64"
    "push_bit 2 (and b 15) < 64" "or (push_bit 2 (and b 15)) (drop_bit 6 c) < 64" "and c 63 < 64" for a b c :: u8
    unfolding 3 15 63 by (rule sextet_bits, auto simp: bit_simps dest: bit_imp_le_length)+
  show "v \<in> set (sextets bs) \<Longrightarrow> v < 64"
    by (induction bs rule: sextets.induct) (auto simp: s [simplified])
qed

lemma encode_base64_sextets:
  "\<exists>n. encode_base64 bs = map base64_digit (sextets bs) @ replicate n (CHR ''='')"
proof (induction bs rule: sextets.induct)
  case (2 a) show ?case by (intro exI [of _ 2]) (simp add: numeral_2_eq_2)
next
  case (3 a b) show ?case by (intro exI [of _ 1]) simp
next
  case (4 a b c rest) then show ?case by auto
qed simp

lemma drop_pad: "c \<notin> set s \<Longrightarrow> dropWhile (\<lambda>x. x = c) (replicate n c @ s) = s"
  by (induction n) (cases s, auto)

lemma encode_base64_url_sextets: "encode_base64_url bs = map url_char (sextets bs)"
proof -
  obtain n where n: "encode_base64 bs = map base64_digit (sextets bs) @ replicate n (CHR ''='')"
    using encode_base64_sextets by blast
  have "CHR ''='' \<notin> set (rev (map base64_digit (sextets bs)))"
    using base64_url_char(1) sextets_less by fastforce
  from drop_pad [OF this] have "trim_end_matches (CHR ''='') (encode_base64 bs) = map base64_digit (sextets bs)"
    by (simp only: trim_end_matches_def n rev_append rev_replicate rev_rev_ident)
  then show ?thesis by (simp add: encode_base64_url_def replace_char_def url_char_def)
qed

lemma decode_sextet:
  "v < 64 \<Longrightarrow> decode_base64_from out buffer bits (url_char v # cs) =
    (let buffer = or (push_bit 6 buffer) (ucast v); bits = bits + 6 in
        if bits \<ge> 8
        then decode_base64_from (out @ [ucast (drop_bit (bits - 8) buffer)])
               (and buffer (mask (bits - 8))) (bits - 8) cs
        else decode_base64_from out buffer bits cs)"
  using base64_url_char [of v] by (simp add: Let_def)

lemma byte_eqI: "(\<And>n. n < 8 \<Longrightarrow> bit v n = bit w n) \<Longrightarrow> v = w" for v w :: u8
  by (rule bit_eqI) simp

lemma bit_byte_beyond [simp]: "8 \<le> n \<Longrightarrow> \<not> bit v n" for v :: u8
  using bit_imp_le_length [of v n] by auto

text \<open>The bytes of a group, as the bit buffer yields them, and the bits that stay in the buffer.\<close>

lemma group_bytes:
  fixes a b c :: u8
  shows "ucast (drop_bit 4 (or (push_bit 6 (ucast (drop_bit 2 a))) (ucast (or (push_bit 4 (and a 3)) (drop_bit 4 b))) :: u32)) = a"
    and "ucast (drop_bit 2 (or (push_bit 6 (ucast (drop_bit 4 b))) (ucast (or (push_bit 2 (and b 15)) (drop_bit 6 c))) :: u32)) = b"
    and "ucast (drop_bit 0 (or (push_bit 6 (ucast (drop_bit 6 c))) (ucast (and c 63)) :: u32)) = c"
proof -
  have masks: "(3 :: u8) = mask 2" "(15 :: u8) = mask 4" "(63 :: u8) = mask 6"
    by (simp_all add: mask_eq_exp_minus_1)
  have arith: "4 + n - 6 = n - 2" "2 + n - 6 = n - 4" "2 \<le> n \<Longrightarrow> Suc (Suc (n - 2)) = n" for n :: nat
    by arith+
  show "ucast (drop_bit 4 (or (push_bit 6 (ucast (drop_bit 2 a))) (ucast (or (push_bit 4 (and a 3)) (drop_bit 4 b))) :: u32)) = a"
    unfolding masks by (rule byte_eqI, case_tac "n < 2") (auto simp: bit_simps arith not_less)
  show "ucast (drop_bit 2 (or (push_bit 6 (ucast (drop_bit 4 b))) (ucast (or (push_bit 2 (and b 15)) (drop_bit 6 c))) :: u32)) = b"
    unfolding masks by (rule byte_eqI, case_tac "n < 4") (auto simp: bit_simps arith not_less)
  show "ucast (drop_bit 0 (or (push_bit 6 (ucast (drop_bit 6 c))) (ucast (and c 63)) :: u32)) = c"
    unfolding masks by (rule byte_eqI, case_tac "n < 6") (auto simp: bit_simps not_less)
qed

lemma group_rest:
  fixes a b c :: u8
  shows "and (or (push_bit 6 (ucast (drop_bit 2 a))) (ucast (or (push_bit 4 (and a 3)) (drop_bit 4 b)))) (mask 4)
      = (ucast (drop_bit 4 b) :: u32)"
    and "and (or (push_bit 6 (ucast (drop_bit 4 b))) (ucast (or (push_bit 2 (and b 15)) (drop_bit 6 c)))) (mask 2)
      = (ucast (drop_bit 6 c) :: u32)"
proof -
  have small: "n < 4 \<or> \<not> bit b (4 + n)" "n < 2 \<or> \<not> bit c (6 + n)" for n
    using bit_byte_beyond [of "4 + n" b] bit_byte_beyond [of "6 + n" c] by linarith+
  show "and (or (push_bit 6 (ucast (drop_bit 2 a))) (ucast (or (push_bit 4 (and a 3)) (drop_bit 4 b)))) (mask 4)
      = (ucast (drop_bit 4 b) :: u32)"
    using small(1) by (intro bit_eqI) (auto simp: bit_simps)
  show "and (or (push_bit 6 (ucast (drop_bit 4 b))) (ucast (or (push_bit 2 (and b 15)) (drop_bit 6 c)))) (mask 2)
      = (ucast (drop_bit 6 c) :: u32)"
    using small(2) by (intro bit_eqI) (auto simp: bit_simps)
qed

text \<open>Decoding walks through the groups; a last group of one or two bytes leaves bits in the buffer.\<close>

fun left_bits :: "bytes \<Rightarrow> nat" where
  "left_bits [] = 0"
| "left_bits [a] = 4"
| "left_bits [a, b] = 2"
| "left_bits (a # b # c # rest) = left_bits rest"

lemma sextet_less:
  fixes a b c :: u8
  shows "drop_bit 2 a < 64" "or (push_bit 4 (and a 3)) (drop_bit 4 b) < 64" "push_bit 4 (and a 3) < 64"
    "or (push_bit 2 (and b 15)) (drop_bit 6 c) < 64" "push_bit 2 (and b 15) < 64" "and c 63 < 64"
  using sextets_less [of _ "[a, b, c]"] sextets_less [of _ "[a]"] sextets_less [of _ "[a, b]"]
  by (simp_all only: sextets.simps append_Cons append_Nil list.set insert_iff simp_thms)

lemma decode_pair:
  "decode_base64_from out 0 0 (url_char (drop_bit 2 a) # url_char (or (push_bit 4 (and a 3)) (drop_bit 4 b)) # cs)
    = decode_base64_from (out @ [a]) (ucast (drop_bit 4 b)) 4 cs"
  by (simp add: decode_sextet sextet_less Let_def group_bytes(1) group_rest(1) del: decode_base64_from.simps push_bit_and drop_bit_or)

lemma decode_third:
  "decode_base64_from out (ucast (drop_bit 4 b)) 4 (url_char (or (push_bit 2 (and b 15)) (drop_bit 6 c)) # cs)
    = decode_base64_from (out @ [b]) (ucast (drop_bit 6 c)) 2 cs"
  by (simp add: decode_sextet sextet_less Let_def group_bytes(2) group_rest(2) del: decode_base64_from.simps push_bit_and drop_bit_or)

lemma decode_fourth:
  "decode_base64_from out (ucast (drop_bit 6 c)) 2 (url_char (and c 63) # cs) = decode_base64_from (out @ [c]) 0 0 cs"
  by (simp add: decode_sextet sextet_less Let_def group_bytes(3) [simplified] del: decode_base64_from.simps)

lemma decode_sextets: "decode_base64_from out 0 0 (map url_char (sextets bs)) = Inr (out @ bs, left_bits bs)"
proof (induction bs arbitrary: out rule: sextets.induct)
  case (2 a)
  show ?case using decode_pair [of out a 0 "[]"] by (simp del: push_bit_and)
next
  case (3 a b)
  show ?case using decode_pair [of out a b] decode_third [of "out @ [a]" b 0 "[]"]
    by (simp del: push_bit_and)
next
  case (4 a b c rest)
  then show ?case
    by (simp add: decode_pair decode_third decode_fourth del: decode_base64_from.simps push_bit_and drop_bit_or)
qed simp

lemma left_bits_less: "left_bits bs < 6"
  by (induction bs rule: left_bits.induct) simp_all



section \<open>UUIDs are read exactly\<close>

lemma of_char_digit: "d < 16 \<Longrightarrow> of_char (digit_char d) = (if d < 10 then 48 + d else 87 + d :: nat)"
  by (simp add: digit_char_def)

lemma of_char_lower: "of_char (ascii_lower c) = (let n = of_char c in if 65 \<le> n \<and> n \<le> 90 then n + 32 else n :: nat)"
  by (simp add: ascii_lower_def Let_def)

lemma hex_ranges:
  fixes n m :: nat
  shows "(48 \<le> n \<and> n \<le> 57 \<and> n - 48 = m) \<or> (97 \<le> n \<and> n \<le> 102 \<and> n - 97 + 10 = m) \<or> (65 \<le> n \<and> n \<le> 70 \<and> n - 65 + 10 = m)
    \<longleftrightarrow> m < 16 \<and> (if 65 \<le> n \<and> n \<le> 90 then n + 32 else n) = (if m < 10 then 48 + m else 87 + m)"
    (is "?l \<longleftrightarrow> ?r")
proof
  show "?l \<Longrightarrow> ?r" by (elim disjE conjE) auto
next
  assume r: ?r
  consider "65 \<le> n \<and> n \<le> 90" | "n < 65" | "90 < n" by linarith
  then show ?l
  proof cases
    case 1
    with r have "n + 32 = (if m < 10 then 48 + m else 87 + m)" by simp
    with 1 r have "n = 55 + m" "10 \<le> m" by (auto split: if_splits)
    with r show ?thesis by simp
  next
    case 2
    with r have "n = (if m < 10 then 48 + m else 87 + m)" by simp
    with 2 have "n = 48 + m" "m < 10" by (auto split: if_splits)
    then show ?thesis by simp
  next
    case 3
    with r have "n = (if m < 10 then 48 + m else 87 + m)" by simp
    with 3 have "n = 87 + m" "10 \<le> m" by (auto split: if_splits)
    with r show ?thesis by simp
  qed
qed

lemma hex_value_iff: "hex_value c = Inr v \<longleftrightarrow> unat v < 16 \<and> ascii_lower c = digit_char (unat v)"
proof -
  let ?n = "of_char c :: nat"
  have eq: "ascii_lower c = digit_char d \<longleftrightarrow> (let n = ?n in if 65 \<le> n \<and> n \<le> 90 then n + 32 else n) = (if d < 10 then 48 + d else 87 + d)"
    if "d < 16" for d
    using of_char_eq_iff [where 'a = nat, of "ascii_lower c" "digit_char d"] that
    by (simp add: of_char_digit of_char_lower)
  have lower: "unat v < 16 \<and> ascii_lower c = digit_char (unat v) \<longleftrightarrow> unat v < 16
      \<and> (if 65 \<le> ?n \<and> ?n \<le> 90 then ?n + 32 else ?n) = (if unat v < 10 then 48 + unat v else 87 + unat v)"
    unfolding Let_def by (rule conj_cong [OF refl eq [unfolded Let_def]])
  have small: "of_nat k = v \<longleftrightarrow> k = unat v" if "k < 256" for k
    using that by (auto simp: unat_of_nat)
  have "hex_value c = Inr v \<longleftrightarrow> (48 \<le> ?n \<and> ?n \<le> 57 \<and> ?n - 48 = unat v)
      \<or> (97 \<le> ?n \<and> ?n \<le> 102 \<and> ?n - 97 + 10 = unat v) \<or> (65 \<le> ?n \<and> ?n \<le> 70 \<and> ?n - 65 + 10 = unat v)"
    using small [of "?n - 48"] small [of "?n - 97 + 10"] small [of "?n - 65 + 10"]
    unfolding hex_value_def Let_def
    by (auto split: if_splits simp del: of_nat_add of_nat_diff)
  then show ?thesis unfolding lower hex_ranges .
qed

lemma nibbles: "unat x < 16 \<Longrightarrow> unat y < 16 \<Longrightarrow> unat (or (push_bit 4 x) y :: u8) = 16 * unat x + unat y"
proof -
  assume x: "unat x < 16" and y: "unat y < 16"
  have "y < 16" using y by (simp add: word_less_nat_alt)
  have "and (push_bit 4 x) y = 0"
  proof (rule bit_eqI)
    fix n
    have "take_bit 4 y = y"
    proof -
      have "unat (take_bit 4 y) = unat y" using y by (simp add: unsigned_take_bit_eq take_bit_nat_eq_self)
      then show ?thesis by (simp only: word_unat_eq_iff)
    qed
    then have "bit y n \<Longrightarrow> n < 4" by (metis bit_take_bit_iff)
    then show "bit (and (push_bit 4 x) y) n \<longleftrightarrow> bit (0 :: u8) n" by (auto simp: bit_simps)
  qed
  then have "or (push_bit 4 x) y = push_bit 4 x + y" by (simp add: disjunctive_add_eq_or)
  also have "\<dots> = 16 * x + y" by (simp add: push_bit_eq_mult)
  also have "unat \<dots> = 16 * unat x + unat y"
    using x y by (simp add: unat_word_ariths)
  finally show ?thesis .
qed

lemma hex_byte_split:
  "unat x < 16 \<Longrightarrow> unat y < 16 \<Longrightarrow> hex_byte (or (push_bit 4 x) y) = [digit_char (unat x), digit_char (unat y)]"
  by (simp add: hex_byte_def nibbles)

lemma hex_byte_nibbles:
  "\<exists>x y. b = or (push_bit 4 x) y \<and> unat x < 16 \<and> unat y < 16" for b :: u8
proof (intro exI conjI)
  let ?x = "of_nat (unat b div 16) :: u8" and ?y = "of_nat (unat b mod 16) :: u8"
  have d: "unat b div 16 < 16" using unat_byte_less [of b] by linarith
  then show x: "unat ?x < 16" and y: "unat ?y < 16" by (simp_all add: unat_of_nat)
  have "unat (or (push_bit 4 ?x) ?y) = 16 * unat ?x + unat ?y" using x y by (rule nibbles)
  also have "\<dots> = unat b" using d by (simp add: unat_of_nat)
  finally show "b = or (push_bit 4 ?x) ?y" by (simp only: word_unat_eq_iff)
qed

lemma uuid_pairs_iff:
  "length hex = 2 * length u \<Longrightarrow> uuid_pairs hex = Inr u \<longleftrightarrow> map ascii_lower hex = concat (map hex_byte u)"
proof (induction hex arbitrary: u rule: uuid_pairs.induct)
  case (1 a b cs)
  then obtain v vs where u: "u = v # vs" "length cs = 2 * length vs" by (cases u) auto
  obtain x y where v: "v = or (push_bit 4 x) y" "unat x < 16" "unat y < 16" using hex_byte_nibbles by blast
  have "uuid_pairs (a # b # cs) = Inr u \<longleftrightarrow> (\<exists>x' y'. hex_value a = Inr x' \<and> hex_value b = Inr y'
      \<and> uuid_pairs cs = Inr vs \<and> or (push_bit 4 x') y' = v)"
    by (auto simp: u(1))
  also have "\<dots> \<longleftrightarrow> (\<exists>x' y'. hex_value a = Inr x' \<and> hex_value b = Inr y' \<and> or (push_bit 4 x') y' = v)
      \<and> map ascii_lower cs = concat (map hex_byte vs)"
    using "1.IH" u(2) by fastforce
  also have "(\<exists>x' y'. hex_value a = Inr x' \<and> hex_value b = Inr y' \<and> or (push_bit 4 x') y' = v)
      \<longleftrightarrow> [ascii_lower a, ascii_lower b] = hex_byte v"
  proof
    assume "\<exists>x' y'. hex_value a = Inr x' \<and> hex_value b = Inr y' \<and> or (push_bit 4 x') y' = v"
    then show "[ascii_lower a, ascii_lower b] = hex_byte v"
      by (auto simp: hex_value_iff hex_byte_split)
  next
    assume "[ascii_lower a, ascii_lower b] = hex_byte v"
    then show "\<exists>x' y'. hex_value a = Inr x' \<and> hex_value b = Inr y' \<and> or (push_bit 4 x') y' = v"
      using v by (intro exI [of _ x] exI [of _ y]) (auto simp: hex_value_iff hex_byte_split)
  qed
  finally show ?case by (cases "hex_byte v") (auto simp: u(1) hex_byte_def)
qed auto

lemma uuid_push_fold:
  "length hex \<le> 32 \<Longrightarrow> try_fold uuid_push hex s =
    (let t = hex @ filter (\<lambda>c. c \<noteq> CHR ''-'') s in if length t \<le> 32 then Inr t else Inl UuidTooLong)"
proof (induction s arbitrary: hex)
  case (Cons c s)
  show ?case
  proof (cases "c = CHR ''-'' \<or> length hex < 32")
    case True
    then show ?thesis using Cons.IH [of hex] Cons.IH [of "hex @ [c]"] Cons.prems
      by (auto simp: uuid_push_def Let_def)
  next
    case False
    then show ?thesis using Cons.prems by (auto simp: uuid_push_def Let_def)
  qed
qed simp

lemma uuid_pairs_length: "uuid_pairs hex = Inr u \<Longrightarrow> length u = length hex div 2"
  by (induction hex arbitrary: u rule: uuid_pairs.induct) auto

section \<open>Requests are understood\<close>

definition vless_request_ok ::
    "(bytes \<rightharpoonup> string) \<Rightarrow> bytes \<Rightarrow> address \<times> string \<Rightarrow> vless_error + bytes" where
  "vless_request_ok users uuid = (\<lambda>(a, user).
     if address_ok a \<and> length uuid = 16 \<and> users uuid = Some user then encode_vless_request uuid a else Inl InvalidUser)"

lemma vless_addr_ok: "h \<noteq> [] \<Longrightarrow> vless_addr h p = Inr \<lparr>host = h, port = p\<rparr>"
  by (simp add: vless_addr_def new_address_def)

lemma vless_addr_host: "h \<noteq> [] \<Longrightarrow> vless_addr h (port a) = Inr (a\<lparr>host := h\<rparr>)"
  by (simp add: vless_addr_def new_address_def)

lemma read_exact_0 [simp]: "read_exact eof 0 bs = Inr ([], bs)"
  by (simp add: read_exact_def)

lemma read_vless_encode:
  assumes "address_ok a" and "length uuid = 16" and "encode_vless_request uuid a = Inr bs"
  shows "read_vless_request users (bs @ rest) =
    (case users uuid of None \<Rightarrow> Inl InvalidUser | Some user \<Rightarrow> Inr ((canonical a, user), rest))"
proof -
  let ?out = "VLESS_VERSION # uuid @ [0, VLESS_COMMAND_TCP] @ be_bytes (port a)"
  from assms(3) consider
      (v4) ip where "parse_ip (host a) = Some (IpV4 ip)" "bs = ?out @ 1 # be_bytes ip"
    | (v6) ip where "parse_ip (host a) = Some (IpV6 ip)" "bs = ?out @ 3 # be_bytes ip"
    | (domain) "parse_ip (host a) = None" "length (host a) \<le> 255"
        "bs = ?out @ 2 # of_nat (length (host a)) # as_bytes (host a)"
    by (auto simp: encode_vless_request_def Let_def split: option.splits ip_addr.splits)
  then show ?thesis
  proof cases
    case v4
    with assms(2) show ?thesis
      by (simp add: read_vless_request_def read_vless_host_def canonical_def vless_addr_host split: option.splits)
  next
    case v6
    with assms(2) show ?thesis
      by (simp add: read_vless_request_def read_vless_host_def canonical_def vless_addr_host split: option.splits)
  next
    case domain
    with assms(1,2) unat_length_byte [OF domain(2)] show ?thesis
      by (simp add: read_vless_request_def read_vless_host_def canonical_def address_ok_def vless_addr_ok
          split: option.splits)
  qed
qed

interpretation vless_request: codec "vless_request_ok users uuid" "read_vless_request users" "\<lambda>(a, user). (canonical a, user)"
  for users uuid
proof
  fix x bs rest
  assume "vless_request_ok users uuid x = Inr bs"
  then show "read_vless_request users (bs @ rest) = Inr (case x of (a, user) \<Rightarrow> (canonical a, user), rest)"
    by (cases x) (auto simp: vless_request_ok_def read_vless_encode split: if_splits)
qed

section \<open>Properties\<close>

text \<open>Early data in the handshake comes back byte for byte: decoding the URL-safe base64 text of any bytes gives these bytes.\<close>

theorem base64_url_roundtrip: "decode_base64_url (encode_base64_url bs) = Inr bs"
  using left_bits_less [of bs]
  by (simp add: decode_base64_url_def encode_base64_url_sextets decode_sextets)

text \<open>A UUID is read exactly: the result is the sixteen bytes whose hexadecimal text is the input without hyphens, in either case; every other input is refused.\<close>

theorem parse_uuid_exact:
  "parse_uuid s = Inr u \<longleftrightarrow>
    length u = 16 \<and> to_ascii_lowercase (filter (\<lambda>c. c \<noteq> CHR ''-'') s) = concat (map hex_byte u)"
proof -
  let ?t = "filter (\<lambda>c. c \<noteq> CHR ''-'') s"
  have len: "length (concat (map hex_byte u)) = 2 * length u"
    by (induction u) (simp_all add: hex_byte_def)
  have "parse_uuid s = Inr u \<longleftrightarrow> length ?t = 32 \<and> uuid_pairs ?t = Inr u"
    by (auto simp: parse_uuid_def uuid_push_fold Let_def)
  also have "\<dots> \<longleftrightarrow> length ?t = 32 \<and> length u = 16 \<and> uuid_pairs ?t = Inr u"
    using uuid_pairs_length [of ?t u] by auto
  also have "\<dots> \<longleftrightarrow> length ?t = 32 \<and> length u = 16 \<and> map ascii_lower ?t = concat (map hex_byte u)"
    using uuid_pairs_iff [of ?t u] by auto
  also have "\<dots> \<longleftrightarrow> length u = 16 \<and> map ascii_lower ?t = concat (map hex_byte u)"
  proof -
    have "map ascii_lower ?t = concat (map hex_byte u) \<Longrightarrow> length ?t = 2 * length u"
      using len by (metis length_map)
    then show ?thesis by auto
  qed
  finally show ?thesis by (simp only: to_ascii_lowercase_def)
qed

end
