(* ===== verification/Vless_Ws.thy ===== *)
theory Vless_Ws
  imports Vless_Codec
begin

text \<open>
  \<open>WebSocketStream\<close> of the VLESS crate: a poll-driven state machine that reads and writes WebSocket
  frames on a transport. The transport is the list of answers its next polls give; an exhausted list
  answers \<open>Pending\<close>. What has been given to it is \<open>t_sent\<close>.
\<close>

section \<open>The transport\<close>

datatype 'a poll = Ready 'a | Pending

datatype read_answer = ReadPending | ReadBytes bytes | ReadFailed
datatype write_answer = WritePending | WriteAccepts nat | WriteFailed

record transport =
  t_reads :: "read_answer list"
  t_writes :: "write_answer list"
  t_sent :: bytes

definition READ_CHUNK :: nat where "READ_CHUNK = 32 * 1024"
definition MAX_WS_FRAME_SIZE :: nat where "MAX_WS_FRAME_SIZE = 16 * 1024 * 1024"

text \<open>
  \<open>poll_read\<close> of the transport into a buffer of \<open>READ_CHUNK\<close> bytes; no bytes are the end of the stream,
  which every later read sees again.
\<close>

definition inner_read :: "transport \<Rightarrow> (ws_error + bytes) poll \<times> transport" where
  "inner_read t =
     (case t_reads t of
        [] \<Rightarrow> (Pending, t)
      | ReadPending # rs \<Rightarrow> (Pending, t\<lparr>t_reads := rs\<rparr>)
      | ReadFailed # rs \<Rightarrow> (Ready (Inl InnerFailed), t\<lparr>t_reads := rs\<rparr>)
      | ReadBytes bs # rs \<Rightarrow>
          if bs = [] then (Ready (Inr []), t)
          else (Ready (Inr (take READ_CHUNK bs)),
                t\<lparr>t_reads := (if length bs \<le> READ_CHUNK then rs else ReadBytes (drop READ_CHUNK bs) # rs)\<rparr>))"

definition inner_write :: "bytes \<Rightarrow> transport \<Rightarrow> (ws_error + nat) poll \<times> transport" where
  "inner_write d t =
     (case t_writes t of
        [] \<Rightarrow> (Pending, t)
      | WritePending # ws \<Rightarrow> (Pending, t\<lparr>t_writes := ws\<rparr>)
      | WriteFailed # ws \<Rightarrow> (Ready (Inl InnerFailed), t\<lparr>t_writes := ws\<rparr>)
      | WriteAccepts n # ws \<Rightarrow>
          (Ready (Inr (min n (length d))), t\<lparr>t_writes := ws, t_sent := t_sent t @ take n d\<rparr>))"

section \<open>The stream\<close>

record ws_read_frame =
  rf_opcode :: u8
  rf_remaining :: nat
  rf_mask :: bytes
  rf_mask_offset :: nat
  rf_control :: "bytes option"

text \<open>\<open>ws_random\<close> are the masks the random generator yields next, or its failure.\<close>

record ws_stream =
  ws_inner :: transport
  ws_client :: bool
  ws_input :: bytes
  ws_input_offset :: nat
  ws_early :: bytes
  ws_early_offset :: nat
  ws_frame :: "ws_read_frame option"
  ws_fragmented :: bool
  ws_read_closed :: bool
  ws_write_buffer :: bytes
  ws_write_offset :: nat
  ws_pending :: "nat option"
  ws_control_pending :: bool
  ws_close_queued :: bool
  ws_random :: "nat \<Rightarrow> u32 option"

definition ws_new :: "transport \<Rightarrow> (nat \<Rightarrow> u32 option) \<Rightarrow> bytes \<Rightarrow> bytes \<Rightarrow> bool \<Rightarrow> ws_stream" where
  "ws_new inner random input early client =
     \<lparr>ws_inner = inner, ws_client = client, ws_input = input, ws_input_offset = 0, ws_early = early,
      ws_early_offset = 0, ws_frame = None, ws_fragmented = False, ws_read_closed = False,
      ws_write_buffer = [], ws_write_offset = 0, ws_pending = None, ws_control_pending = False,
      ws_close_queued = False, ws_random = random\<rparr>"

definition available_input :: "ws_stream \<Rightarrow> bytes" where
  "available_input s = drop (ws_input_offset s) (ws_input s)"

definition compact_input :: "ws_stream \<Rightarrow> ws_stream" where
  "compact_input s =
     (if ws_input_offset s = length (ws_input s) then s\<lparr>ws_input := [], ws_input_offset := 0\<rparr>
      else if ws_input_offset s \<ge> READ_CHUNK
      then s\<lparr>ws_input := drop (ws_input_offset s) (ws_input s), ws_input_offset := 0\<rparr>
      else s)"

text \<open>\<open>byte ^ mask[(offset + index) % 4]\<close>.\<close>

fun mask_from :: "bytes \<Rightarrow> nat \<Rightarrow> bytes \<Rightarrow> bytes" where
  "mask_from m k [] = []"
| "mask_from m k (b # bs) = xor b (m ! (k mod 4)) # mask_from m (Suc k) bs"

section \<open>Frames\<close>

text \<open>
  \<open>start_frame\<close> up to its changes of the stream: the header at the front of the input, or \<open>None\<close> when
  it is incomplete. The result is the new \<open>fragmented\<close>, the length of the header, and the frame.
\<close>

definition parse_header ::
    "bool \<Rightarrow> bool \<Rightarrow> bytes \<Rightarrow> ws_error + (bool \<times> nat \<times> ws_read_frame) option" where
  "parse_header client fragmented inp =
     (if length inp < 2 then Inr None
      else
        let fin = and (inp ! 0) 0x80 \<noteq> 0; opcode = and (inp ! 0) 0x0F; tag = and (inp ! 1) 0x7F;
            extended = (if tag = 126 then 2 else if tag = 127 then 8 else 0 :: nat);
            masked = (and (inp ! 1) 0x80 \<noteq> 0);
            header = 2 + extended + (if masked then 4 else 0)
        in and_then (ensure (and (inp ! 0) 0x70 = 0) ReservedBits) (\<lambda>_.
           and_then (ensure (masked \<noteq> client) MaskDirection) (\<lambda>_.
           if length inp < header then Inr None
           else
             let n = (if tag = 126 then unat (from_be (take 2 (drop 2 inp)) :: u16)
                      else if tag = 127 then unat (from_be (take 8 (drop 2 inp)) :: u64)
                      else unat tag);
                 control = (and opcode 0x08 \<noteq> 0);
                 m = (if masked then take 4 (drop (2 + extended) inp) else [0, 0, 0, 0])
             in and_then (ensure (n \<le> MAX_WS_FRAME_SIZE) FrameTooLarge) (\<lambda>_.
                and_then (ensure (\<not> (control \<and> (\<not> fin \<or> n > 125))) BadControl) (\<lambda>_.
                and_then
                  (if opcode = 0 then and_then (ensure fragmented UnexpectedContinuation) (\<lambda>_. Inr (\<not> fin))
                   else if opcode = 2 then and_then (ensure (\<not> fragmented) NestedFragment) (\<lambda>_. Inr (\<not> fin))
                   else if opcode \<in> {8, 9, 10} then Inr fragmented
                   else Inl (UnsupportedOpcode opcode)) (\<lambda>fragmented.
                Inr (Some (fragmented, header, \<lparr>rf_opcode = opcode, rf_remaining = n, rf_mask = m,
                  rf_mask_offset = 0, rf_control = (if control then Some [] else None)\<rparr>))))))))"

definition start_frame :: "ws_stream \<Rightarrow> ws_error + (bool \<times> ws_stream)" where
  "start_frame s =
     and_then (parse_header (ws_client s) (ws_fragmented s) (available_input s)) (\<lambda>h.
     case h of
       None \<Rightarrow> Inr (False, s)
     | Some (fragmented, header, f) \<Rightarrow>
         Inr (True, s\<lparr>ws_fragmented := fragmented, ws_input_offset := ws_input_offset s + header, ws_frame := Some f\<rparr>))"

definition length_code :: "u8 \<Rightarrow> nat \<Rightarrow> bytes" where
  "length_code mask_bit n =
     (if n \<le> 125 then [or mask_bit (of_nat n)]
      else if n \<le> 65535 then or mask_bit 126 # be_bytes (of_nat n :: u16)
      else or mask_bit 127 # be_bytes (of_nat n :: u64))"

text \<open>The header is in the buffer before the random generator is asked for a mask.\<close>

definition append_frame :: "u8 \<Rightarrow> bytes \<Rightarrow> ws_stream \<Rightarrow> (ws_error + unit) \<times> ws_stream" where
  "append_frame opcode payload s =
     (let s = (if ws_write_offset s = length (ws_write_buffer s)
               then s\<lparr>ws_write_buffer := [], ws_write_offset := 0\<rparr> else s);
          s = s\<lparr>ws_write_buffer := ws_write_buffer s
                  @ or 0x80 opcode # length_code (if ws_client s then 0x80 else 0) (length payload)\<rparr>
      in if ws_client s then
           (case ws_random s 0 of
              None \<Rightarrow> (Inl NoRandom, s)
            | Some m \<Rightarrow> (Inr (), s\<lparr>ws_random := (\<lambda>n. ws_random s (Suc n)),
                ws_write_buffer := ws_write_buffer s @ be_bytes m @ mask_from (be_bytes m) 0 payload\<rparr>))
         else (Inr (), s\<lparr>ws_write_buffer := ws_write_buffer s @ payload\<rparr>))"

definition control_bytes :: "ws_read_frame \<Rightarrow> bytes" where
  "control_bytes f = (case rf_control f of None \<Rightarrow> [] | Some bs \<Rightarrow> bs)"

definition finish_read_frame :: "ws_read_frame \<Rightarrow> ws_stream \<Rightarrow> (ws_error + unit) \<times> ws_stream" where
  "finish_read_frame f s =
     (let s = s\<lparr>ws_frame := None\<rparr> in
      if rf_opcode f = 8 then
        (case append_frame 8 (control_bytes f) s of
           (Inl e, s) \<Rightarrow> (Inl e, s)
         | (Inr _, s) \<Rightarrow> (Inr (), s\<lparr>ws_control_pending := True, ws_close_queued := True, ws_read_closed := True\<rparr>))
      else if rf_opcode f = 9 then
        (case append_frame 10 (control_bytes f) s of
           (Inl e, s) \<Rightarrow> (Inl e, s)
         | (Inr _, s) \<Rightarrow> (Inr (), s\<lparr>ws_control_pending := True\<rparr>))
      else (Inr (), s))"

definition poll_fill_input :: "ws_stream \<Rightarrow> (ws_error + bool) poll \<times> ws_stream" where
  "poll_fill_input s =
     (let s = compact_input s in
      case inner_read (ws_inner s) of
        (Pending, t) \<Rightarrow> (Pending, s\<lparr>ws_inner := t\<rparr>)
      | (Ready (Inl e), t) \<Rightarrow> (Ready (Inl e), s\<lparr>ws_inner := t\<rparr>)
      | (Ready (Inr bs), t) \<Rightarrow>
          if bs = [] then (Ready (Inr False), s\<lparr>ws_inner := t\<rparr>)
          else (Ready (Inr True), s\<lparr>ws_inner := t, ws_input := ws_input s @ bs\<rparr>))"

text \<open>The loop ends because every answer of the transport is used once.\<close>

function poll_flush_output :: "ws_stream \<Rightarrow> (ws_error + unit) poll \<times> ws_stream" where
  "poll_flush_output s =
     (if ws_write_offset s < length (ws_write_buffer s) then
        (case inner_write (drop (ws_write_offset s) (ws_write_buffer s)) (ws_inner s) of
           (Pending, t) \<Rightarrow> (Pending, s\<lparr>ws_inner := t\<rparr>)
         | (Ready (Inl e), t) \<Rightarrow> (Ready (Inl e), s\<lparr>ws_inner := t\<rparr>)
         | (Ready (Inr n), t) \<Rightarrow>
             if n = 0 then (Ready (Inl WriteZero), s\<lparr>ws_inner := t\<rparr>)
             else poll_flush_output (s\<lparr>ws_inner := t, ws_write_offset := ws_write_offset s + n\<rparr>))
      else (Ready (Inr ()), s\<lparr>ws_write_buffer := [], ws_write_offset := 0\<rparr>))"
  by pat_completeness auto
termination
  by (relation "measure (\<lambda>s. length (t_writes (ws_inner s)))")
    (auto simp: inner_write_def split: list.splits write_answer.splits)

declare poll_flush_output.simps [simp del]

section \<open>Reading\<close>

text \<open>
  One pass of the loop of \<open>poll_read\<close> with room for \<open>room\<close> bytes: \<open>None\<close> is \<open>continue\<close>. Data goes to the
  reader at once; control frames are collected.
\<close>

definition take_payload :: "nat \<Rightarrow> ws_read_frame \<Rightarrow> ws_stream \<Rightarrow> (ws_error + bytes) poll option \<times> ws_stream" where
  "take_payload room f s =
     (let limit = min (rf_remaining f) (length (available_input s));
          n = (case rf_control f of None \<Rightarrow> min limit room | Some _ \<Rightarrow> limit);
          d = mask_from (rf_mask f) (rf_mask_offset f) (take n (available_input s));
          f' = f\<lparr>rf_remaining := rf_remaining f - n, rf_mask_offset := (rf_mask_offset f + n) mod 4,
                 rf_control := map_option (\<lambda>c. c @ d) (rf_control f)\<rparr>;
          s' = compact_input (s\<lparr>ws_input_offset := ws_input_offset s + n, ws_frame := Some f'\<rparr>)
      in (if rf_control f = None then Some (Ready (Inr d)) else None, s'))"

definition read_payload :: "nat \<Rightarrow> ws_read_frame \<Rightarrow> ws_stream \<Rightarrow> (ws_error + bytes) poll option \<times> ws_stream" where
  "read_payload room f s =
     (if rf_remaining f = 0 then
        (case finish_read_frame f s of (Inl e, s) \<Rightarrow> (Some (Ready (Inl e)), s) | (Inr _, s) \<Rightarrow> (None, s))
      else if available_input s = [] then
        (case poll_fill_input s of
           (Ready (Inr True), s) \<Rightarrow> take_payload room f s
         | (Ready (Inr False), s) \<Rightarrow> (Some (Ready (Inl TruncatedPayload)), s)
         | (Ready (Inl e), s) \<Rightarrow> (Some (Ready (Inl e)), s)
         | (Pending, s) \<Rightarrow> (Some Pending, s))
      else take_payload room f s)"

definition read_header :: "nat \<Rightarrow> ws_stream \<Rightarrow> (ws_error + bytes) poll option \<times> ws_stream" where
  "read_header room s =
     (case ws_frame s of
        Some f \<Rightarrow> read_payload room f s
      | None \<Rightarrow>
          (case start_frame s of
             Inl e \<Rightarrow> (Some (Ready (Inl e)), s)
           | Inr (True, s) \<Rightarrow>
               (case ws_frame s of None \<Rightarrow> (None, s) | Some f \<Rightarrow> read_payload room f s)
           | Inr (False, s) \<Rightarrow>
               (case poll_fill_input s of
                  (Ready (Inr True), s) \<Rightarrow> (None, s)
                | (Ready (Inr False), s) \<Rightarrow>
                    if available_input s = [] then (Some (Ready (Inr [])), s\<lparr>ws_read_closed := True\<rparr>)
                    else (Some (Ready (Inl TruncatedHeader)), s)
                | (Ready (Inl e), s) \<Rightarrow> (Some (Ready (Inl e)), s)
                | (Pending, s) \<Rightarrow> (Some Pending, s))))"

definition flush_control :: "ws_stream \<Rightarrow> (ws_error + unit) poll \<times> ws_stream" where
  "flush_control s =
     (if ws_control_pending s then
        (case poll_flush_output s of
           (Ready (Inr _), s) \<Rightarrow> (Ready (Inr ()), s\<lparr>ws_control_pending := False\<rparr>)
         | r \<Rightarrow> r)
      else (Ready (Inr ()), s))"

definition read_step :: "nat \<Rightarrow> ws_stream \<Rightarrow> (ws_error + bytes) poll option \<times> ws_stream" where
  "read_step room s =
     (case flush_control s of
        (Pending, s) \<Rightarrow> (Some Pending, s)
      | (Ready (Inl e), s) \<Rightarrow> (Some (Ready (Inl e)), s)
      | (Ready (Inr _), s) \<Rightarrow>
          if ws_read_closed s \<or> room = 0 then (Some (Ready (Inr [])), s)
          else read_header room s)"

text \<open>The loop makes progress on what the transport has sent: fewer answers, or less unread input.\<close>

definition reads_size :: "read_answer list \<Rightarrow> nat" where
  "reads_size rs = sum_list (map (\<lambda>a. case a of ReadBytes bs \<Rightarrow> Suc (length bs) | _ \<Rightarrow> 1) rs)"

definition input_measure :: "ws_stream \<Rightarrow> nat \<times> nat" where
  "input_measure s = (reads_size (t_reads (ws_inner s)),
     length (available_input s) + (if ws_frame s = None then 0 else 1))"

text \<open>What the reading half depends on; writing does not touch it.\<close>

definition read_side :: "ws_stream \<Rightarrow> ws_stream" where
  "read_side s = s\<lparr>ws_inner := (ws_inner s)\<lparr>t_writes := [], t_sent := []\<rparr>, ws_write_buffer := [], ws_write_offset := 0,
     ws_pending := None, ws_control_pending := False, ws_close_queued := False, ws_random := (\<lambda>_. None)\<rparr>"

lemma read_side_fields:
  assumes "read_side s = read_side s'"
  shows "t_reads (ws_inner s) = t_reads (ws_inner s')" "ws_client s = ws_client s'" "ws_input s = ws_input s'"
    "ws_input_offset s = ws_input_offset s'" "ws_early s = ws_early s'" "ws_early_offset s = ws_early_offset s'"
    "ws_frame s = ws_frame s'" "ws_fragmented s = ws_fragmented s'" "ws_read_closed s = ws_read_closed s'"
  using assms by (auto simp: read_side_def dest: arg_cong [where f = ws_inner] arg_cong [where f = ws_frame])
   (cases s; cases s'; cases "ws_inner s"; cases "ws_inner s'"; simp)+

lemma read_side_measure: "read_side s = read_side s' \<Longrightarrow> input_measure s = input_measure s'"
  by (simp add: input_measure_def available_input_def read_side_fields [of s s'])

lemma append_frame_read_side: "append_frame opcode payload s = (r, s') \<Longrightarrow> read_side s' = read_side s"
  by (auto simp: append_frame_def Let_def read_side_def split: if_splits option.splits)

lemma inner_write_reads: "inner_write d t = (r, t') \<Longrightarrow> t_reads t' = t_reads t"
  by (auto simp: inner_write_def split: list.splits write_answer.splits)

lemma inner_write_sent:
  assumes "inner_write d t = (r, t')" and "d \<noteq> []"
  shows "case r of Ready (Inr n) \<Rightarrow> n \<le> length d \<and> t_sent t' = t_sent t @ take n d
    | Ready (Inl e) \<Rightarrow> e = InnerFailed \<and> t_sent t' = t_sent t | Pending \<Rightarrow> t_sent t' = t_sent t"
  using assms by (auto simp: inner_write_def min_def split: list.splits write_answer.splits)

text \<open>
  Induction over the writes of \<open>poll_flush_output\<close>: it ends with an empty buffer, or at an answer that is
  no progress.
\<close>

lemma flush_induct [consumes 1, case_names finished stopped wrote]:
  assumes "poll_flush_output s = (r, s')"
    and "\<And>s. \<not> ws_write_offset s < length (ws_write_buffer s) \<Longrightarrow>
      P s (Ready (Inr ())) (s\<lparr>ws_write_buffer := [], ws_write_offset := 0\<rparr>)"
    and "\<And>s t r. ws_write_offset s < length (ws_write_buffer s) \<Longrightarrow> t_reads t = t_reads (ws_inner s) \<Longrightarrow>
      t_sent t = t_sent (ws_inner s) \<Longrightarrow> r \<in> {Pending, Ready (Inl InnerFailed), Ready (Inl WriteZero)} \<Longrightarrow>
      P s r (s\<lparr>ws_inner := t\<rparr>)"
    and "\<And>s t n r s'. ws_write_offset s < length (ws_write_buffer s) \<Longrightarrow> t_reads t = t_reads (ws_inner s) \<Longrightarrow>
      n \<le> length (drop (ws_write_offset s) (ws_write_buffer s)) \<Longrightarrow>
      t_sent t = t_sent (ws_inner s) @ take n (drop (ws_write_offset s) (ws_write_buffer s)) \<Longrightarrow>
      P (s\<lparr>ws_inner := t, ws_write_offset := ws_write_offset s + n\<rparr>) r s' \<Longrightarrow> P s r s'"
  shows "P s r s'"
  using assms(1)
proof (induction s arbitrary: r s' rule: poll_flush_output.induct)
  case (1 s)
  show ?case
  proof (cases "ws_write_offset s < length (ws_write_buffer s)")
    case False
    with "1.prems" assms(2) [OF False] show ?thesis by (simp add: poll_flush_output.simps [of s])
  next
    case True
    let ?d = "drop (ws_write_offset s) (ws_write_buffer s)"
    obtain a t where w: "inner_write ?d (ws_inner s) = (a, t)" by force
    from True have "?d \<noteq> []" by simp
    note sent = inner_write_sent [OF w this] and reads = inner_write_reads [OF w]
    show ?thesis
    proof (cases "\<exists>n. a = Ready (Inr n) \<and> n \<noteq> 0")
      case rec: True
      then obtain n where n: "a = Ready (Inr n)" "n \<noteq> 0" by blast
      with "1.prems" True w have run: "poll_flush_output (s\<lparr>ws_inner := t, ws_write_offset := ws_write_offset s + n\<rparr>) = (r, s')"
        by (simp add: poll_flush_output.simps [of s])
      from sent n(1) have "n \<le> length ?d" "t_sent t = t_sent (ws_inner s) @ take n ?d" by simp_all
      from assms(4) [OF True reads this "1.IH" [OF True w [symmetric] n(1) refl n(2) run]] show ?thesis .
    next
      case False
      with "1.prems" True w have "s' = s\<lparr>ws_inner := t\<rparr>" "r = (case a of Ready (Inr _) \<Rightarrow> Ready (Inl WriteZero) | Ready (Inl e) \<Rightarrow> Ready (Inl e) | Pending \<Rightarrow> Pending)"
        by (auto simp: poll_flush_output.simps [of s] split: poll.splits sum.splits)
      moreover from sent False have "t_sent t = t_sent (ws_inner s)" by (auto split: poll.splits sum.splits)
      moreover have "r \<in> {Pending, Ready (Inl InnerFailed), Ready (Inl WriteZero)}"
        using calculation(2) sent by (auto split: poll.splits sum.splits)
      ultimately show ?thesis using assms(3) [OF True reads] by simp
    qed
  qed
qed

lemma read_side_write:
  "read_side (s\<lparr>ws_inner := t, ws_write_offset := k\<rparr>) = read_side s"
  "read_side (s\<lparr>ws_inner := t\<rparr>) = read_side s" if "t_reads t = t_reads (ws_inner s)"
  using that by (cases "ws_inner s"; cases t; simp add: read_side_def)+

lemma poll_flush_output_read_side: "poll_flush_output s = (r, s') \<Longrightarrow> read_side s' = read_side s"
  by (induction rule: flush_induct) (simp_all add: read_side_write, simp add: read_side_def)

lemma flush_keeps:
  "poll_flush_output s = (r, s') \<Longrightarrow> ws_control_pending s' = ws_control_pending s \<and> ws_close_queued s' = ws_close_queued s
     \<and> ws_pending s' = ws_pending s \<and> ws_random s' = ws_random s \<and> ws_client s' = ws_client s"
  by (induction rule: flush_induct) simp_all

lemma flush_control_read_side: "flush_control s = (r, s') \<Longrightarrow> read_side s' = read_side s"
  by (auto simp: flush_control_def read_side_def dest!: poll_flush_output_read_side
      split: if_splits prod.splits poll.splits sum.splits)

lemma compact_input_available [simp]: "available_input (compact_input s) = available_input s"
  by (simp add: compact_input_def available_input_def)

lemma compact_input_fields [simp]:
  "ws_inner (compact_input s) = ws_inner s" "ws_frame (compact_input s) = ws_frame s"
  "ws_client (compact_input s) = ws_client s" "ws_early (compact_input s) = ws_early s"
  "ws_early_offset (compact_input s) = ws_early_offset s" "ws_fragmented (compact_input s) = ws_fragmented s"
  "ws_read_closed (compact_input s) = ws_read_closed s" "ws_write_buffer (compact_input s) = ws_write_buffer s"
  "ws_write_offset (compact_input s) = ws_write_offset s" "ws_pending (compact_input s) = ws_pending s"
  "ws_control_pending (compact_input s) = ws_control_pending s"
  "ws_close_queued (compact_input s) = ws_close_queued s" "ws_random (compact_input s) = ws_random s"
  by (simp_all add: compact_input_def)

lemma compact_input_offset:
  "ws_input_offset s \<le> length (ws_input s) \<Longrightarrow> ws_input_offset (compact_input s) \<le> length (ws_input (compact_input s))"
  by (auto simp: compact_input_def READ_CHUNK_def)

lemma poll_fill_input_True:
  assumes "poll_fill_input s = (Ready (Inr True), s')"
  shows "reads_size (t_reads (ws_inner s')) < reads_size (t_reads (ws_inner s))" and "ws_frame s' = ws_frame s"
  using assms
  by (auto simp: poll_fill_input_def inner_read_def Let_def reads_size_def READ_CHUNK_def
      split: list.splits read_answer.splits if_splits)

lemma parse_header_Some:
  assumes "parse_header client frag inp = Inr (Some (frag', header, f))"
  shows "2 \<le> header \<and> header \<le> length inp"
proof -
  from assms have "\<not> length inp < 2" by (auto simp: parse_header_def)
  with assms show ?thesis
    unfolding parse_header_def Let_def
    by (simp only: if_False and_then_eq_Inr) (elim exE conjE, simp split: if_split_asm)
qed

lemma start_frame_True:
  assumes "start_frame s = Inr (True, s')"
  shows "ws_inner s' = ws_inner s" and "length (available_input s') + 2 \<le> length (available_input s)"
    and "ws_frame s' \<noteq> None"
proof -
  from assms obtain frag header f where h: "parse_header (ws_client s) (ws_fragmented s) (available_input s) = Inr (Some (frag, header, f))"
    and s': "s' = s\<lparr>ws_fragmented := frag, ws_input_offset := ws_input_offset s + header, ws_frame := Some f\<rparr>"
    by (auto simp: start_frame_def split: option.splits)
  from parse_header_Some [OF h] show "length (available_input s') + 2 \<le> length (available_input s)"
    by (simp add: s' available_input_def) arith
qed (use assms in \<open>auto simp: start_frame_def split: option.splits\<close>)

lemma finish_read_frame_ok:
  assumes "finish_read_frame f s = (Inr u, s')"
  shows "t_reads (ws_inner s') = t_reads (ws_inner s)" and "available_input s' = available_input s" and "ws_frame s' = None"
  using assms
  by (auto simp: finish_read_frame_def append_frame_def Let_def available_input_def split: if_splits option.splits)

lemma take_payload_inner: "take_payload room f s = (r, s') \<Longrightarrow> ws_inner s' = ws_inner s"
  by (auto simp: take_payload_def Let_def)

lemma take_payload_None:
  assumes "take_payload room f s = (None, s')" and "rf_remaining f \<noteq> 0" and "available_input s \<noteq> []"
  shows "length (available_input s') < length (available_input s)" and "ws_frame s' \<noteq> None"
proof -
  let ?n = "min (rf_remaining f) (length (available_input s))"
  from assms(1) have s': "s' = compact_input (s\<lparr>ws_input_offset := ws_input_offset s + ?n, ws_frame := ws_frame s'\<rparr>)"
    and "ws_frame s' \<noteq> None"
    by (auto simp: take_payload_def Let_def split: if_splits option.splits)
  then show "ws_frame s' \<noteq> None" by simp
  have "available_input s' = drop ?n (available_input s)"
    by (subst s', simp only: compact_input_available) (simp add: available_input_def add.commute)
  moreover have "0 < ?n" using assms(2,3) by simp
  moreover have "?n \<le> length (available_input s)" by simp
  ultimately show "length (available_input s') < length (available_input s)" by simp
qed

text \<open>A pass that continues has used up input, or the answer of the transport that brought it.\<close>

lemma read_payload_None:
  assumes "read_payload room f s = (None, s')" and "ws_frame s \<noteq> None"
  shows "(input_measure s', input_measure s) \<in> less_than <*lex*> less_than"
proof (cases "rf_remaining f = 0")
  case True
  with assms(1) obtain u where "finish_read_frame f s = (Inr u, s')"
    by (auto simp: read_payload_def split: prod.splits sum.splits)
  from finish_read_frame_ok [OF this] assms(2) show ?thesis by (simp add: input_measure_def)
next
  case rem: False
  show ?thesis
  proof (cases "available_input s = []")
    case True
    with assms(1) rem obtain t where t: "poll_fill_input s = (Ready (Inr True), t)" "take_payload room f t = (None, s')"
      by (auto simp: read_payload_def split: prod.splits sum.splits poll.splits bool.splits)
    from take_payload_inner [OF t(2)] poll_fill_input_True [OF t(1)]
    show ?thesis by (simp add: input_measure_def)
  next
    case False
    with assms(1) rem have "take_payload room f s = (None, s')" by (simp add: read_payload_def)
    from take_payload_inner [OF this] take_payload_None [OF this rem False] assms(2) show ?thesis
      by (auto simp: input_measure_def)
  qed
qed

lemma read_header_None:
  assumes "read_header room s = (None, s')"
  shows "(input_measure s', input_measure s) \<in> less_than <*lex*> less_than"
proof (cases "ws_frame s")
  case (Some f)
  with assms have "read_payload room f s = (None, s')" by (simp add: read_header_def)
  with Some show ?thesis by (simp add: read_payload_None)
next
  case None
  from assms None obtain b t where t: "start_frame s = Inr (b, t)"
    by (auto simp: read_header_def split: sum.splits)
  show ?thesis
  proof (cases b)
    case True
    with t have t': "start_frame s = Inr (True, t)" by simp
    obtain f where f: "ws_frame t = Some f" using start_frame_True(3) [OF t'] by blast
    from start_frame_True(1,2) [OF t'] f None
    have "(input_measure t, input_measure s) \<in> less_than <*lex*> less_than"
      by (simp add: input_measure_def)
    moreover from assms None t True f have "read_payload room f t = (None, s')" by (simp add: read_header_def)
    then have "(input_measure s', input_measure t) \<in> less_than <*lex*> less_than"
      using f by (simp add: read_payload_None)
    ultimately show ?thesis by (meson transD trans_lex_prod trans_less_than)
  next
    case False
    from t False have "t = s" by (auto simp: start_frame_def split: option.splits)
    with assms None t False have "poll_fill_input s = (Ready (Inr True), s')"
      by (auto simp: read_header_def split: prod.splits sum.splits poll.splits bool.splits if_splits)
    from poll_fill_input_True [OF this] show ?thesis by (simp add: input_measure_def)
  qed
qed

lemma read_step_None:
  assumes "read_step room s = (None, s')"
  shows "(input_measure s', input_measure s) \<in> less_than <*lex*> less_than"
proof -
  from assms obtain t where t: "flush_control s = (Ready (Inr ()), t)" "read_header room t = (None, s')"
    by (auto simp: read_step_def split: prod.splits sum.splits poll.splits if_splits)
  from read_side_measure [OF flush_control_read_side [OF t(1)]] read_header_None [OF t(2)]
  show ?thesis by simp
qed

function read_loop :: "nat \<Rightarrow> ws_stream \<Rightarrow> (ws_error + bytes) poll \<times> ws_stream" where
  "read_loop room s =
     (case read_step room s of
        (None, s) \<Rightarrow> read_loop room s
      | (Some r, s) \<Rightarrow> (r, s))"
  by pat_completeness auto
termination
  by (relation "inv_image (less_than <*lex*> less_than) (\<lambda>(_, s). input_measure s)")
    (auto dest!: read_step_None [OF sym])

declare read_loop.simps [simp del]

definition poll_read :: "nat \<Rightarrow> ws_stream \<Rightarrow> (ws_error + bytes) poll \<times> ws_stream" where
  "poll_read room s =
     (if ws_early_offset s < length (ws_early s) then
        (let n = min (length (ws_early s) - ws_early_offset s) room in
         (Ready (Inr (take n (drop (ws_early_offset s) (ws_early s)))),
          s\<lparr>ws_early_offset := ws_early_offset s + n\<rparr>))
      else read_loop room s)"

section \<open>Writing\<close>

definition poll_write :: "bytes \<Rightarrow> ws_stream \<Rightarrow> (ws_error + nat) poll \<times> ws_stream" where
  "poll_write d s =
     (if d = [] then (Ready (Inr 0), s)
      else case ws_pending s of
        Some taken \<Rightarrow>
          (case poll_flush_output s of
             (Ready (Inr _), s) \<Rightarrow> (Ready (Inr taken), s\<lparr>ws_pending := None\<rparr>)
           | (Ready (Inl e), s) \<Rightarrow> (Ready (Inl e), s)
           | (Pending, s) \<Rightarrow> (Pending, s))
      | None \<Rightarrow>
          (case poll_flush_output s of
             (Ready (Inr _), s) \<Rightarrow>
               (let taken = min (length d) MAX_WS_FRAME_SIZE in
                case append_frame 2 (take taken d) s of
                  (Inl e, s) \<Rightarrow> (Ready (Inl e), s)
                | (Inr _, s) \<Rightarrow>
                    (case poll_flush_output (s\<lparr>ws_pending := Some taken\<rparr>) of
                       (Ready (Inr _), s) \<Rightarrow> (Ready (Inr taken), s\<lparr>ws_pending := None\<rparr>)
                     | (Ready (Inl e), s) \<Rightarrow> (Ready (Inl e), s)
                     | (Pending, s) \<Rightarrow> (Pending, s)))
           | (Ready (Inl e), s) \<Rightarrow> (Ready (Inl e), s)
           | (Pending, s) \<Rightarrow> (Pending, s)))"

text \<open>
  \<open>poll_flush\<close> and \<open>poll_shutdown\<close> go on to the transport, whose own answer is \<open>inner\<close>, once everything
  is written.
\<close>

definition poll_flush :: "(ws_error + unit) poll \<Rightarrow> ws_stream \<Rightarrow> (ws_error + unit) poll \<times> ws_stream" where
  "poll_flush inner s =
     (case poll_flush_output s of
        (Ready (Inr _), s) \<Rightarrow> (inner, s)
      | r \<Rightarrow> r)"

definition poll_shutdown :: "(ws_error + unit) poll \<Rightarrow> ws_stream \<Rightarrow> (ws_error + unit) poll \<times> ws_stream" where
  "poll_shutdown inner s =
     (case (if ws_close_queued s then (Inr (), s)
            else case append_frame 8 [] s of
              (Inl e, s) \<Rightarrow> (Inl e, s)
            | (Inr _, s) \<Rightarrow> (Inr (), s\<lparr>ws_close_queued := True\<rparr>)) of
        (Inl e, s) \<Rightarrow> (Ready (Inl e), s)
      | (Inr _, s) \<Rightarrow>
          (case poll_flush_output s of
             (Ready (Inr _), s) \<Rightarrow> (inner, s)
           | r \<Rightarrow> r))"

end
