(* ===== verification/Vless_Ws_Safety.thy ===== *)
theory Vless_Ws_Safety
  imports Vless_Ws
begin

text \<open>
  What the WebSocket stream of the VLESS crate delivers: in every interleaving of polls with the answers of
  the transport, the reader gets exactly the payload of the data frames that were sent, and the
  writer sends exactly what it accepted, in whole frames.
\<close>

section \<open>Frames on the wire\<close>

text \<open>
  A frame as any peer may send it: \<open>wf_form\<close> says how the length is written (one byte, two or
  eight more), and a mask is present or not.
\<close>

record wire_frame =
  wf_fin :: bool
  wf_opcode :: u8
  wf_form :: nat
  wf_mask :: "u32 option"
  wf_payload :: bytes

definition put_length :: "nat \<Rightarrow> u8 \<Rightarrow> nat \<Rightarrow> bytes" where
  "put_length form mask_bit n =
     (if form = 0 then [or mask_bit (of_nat n)]
      else if form = 1 then or mask_bit 126 # be_bytes (of_nat n :: u16)
      else or mask_bit 127 # be_bytes (of_nat n :: u64))"

definition mask_bytes :: "u32 option \<Rightarrow> bytes" where
  "mask_bytes m = (case m of None \<Rightarrow> [] | Some w \<Rightarrow> be_bytes w)"

definition mask_key :: "u32 option \<Rightarrow> bytes" where
  "mask_key m = (case m of None \<Rightarrow> [0, 0, 0, 0] | Some w \<Rightarrow> be_bytes w)"

definition put_wire_head :: "wire_frame \<Rightarrow> bytes" where
  "put_wire_head f =
     or (if wf_fin f then 0x80 else 0) (wf_opcode f)
       # put_length (wf_form f) (if wf_mask f = None then 0 else 0x80) (length (wf_payload f)) @ mask_bytes (wf_mask f)"

definition put_wire :: "wire_frame \<Rightarrow> bytes" where
  "put_wire f = put_wire_head f @ mask_from (mask_key (wf_mask f)) 0 (wf_payload f)"

definition wf_control :: "wire_frame \<Rightarrow> bool" where
  "wf_control f \<longleftrightarrow> wf_opcode f \<in> {8, 9, 10}"

definition wire_ok :: "bool \<Rightarrow> wire_frame \<Rightarrow> bool" where
  "wire_ok client f \<longleftrightarrow> wf_opcode f \<in> {0, 2, 8, 9, 10} \<and> (wf_mask f = None \<longleftrightarrow> client)
     \<and> length (wf_payload f) \<le> MAX_WS_FRAME_SIZE
     \<and> (wf_form f = 0 \<longrightarrow> length (wf_payload f) \<le> 125) \<and> (wf_form f = 1 \<longrightarrow> length (wf_payload f) \<le> 65535)
     \<and> (wf_control f \<longrightarrow> wf_fin f \<and> length (wf_payload f) \<le> 125)"

text \<open>Data frames follow each other as fragments of messages; control frames come anywhere.\<close>

fun wire_seq :: "bool \<Rightarrow> bool \<Rightarrow> wire_frame list \<Rightarrow> bool" where
  "wire_seq client frag [] = True"
| "wire_seq client frag (f # fs) =
     (wire_ok client f \<and>
      (if wf_control f then wire_seq client frag fs
       else wf_opcode f = (if frag then 0 else 2) \<and> wire_seq client (\<not> wf_fin f) fs))"

text \<open>The data the reader gets: what the data frames before the first close frame carry.\<close>

fun wire_data :: "wire_frame list \<Rightarrow> bytes" where
  "wire_data [] = []"
| "wire_data (f # fs) =
     (if wf_opcode f = 8 then [] else if wf_control f then wire_data fs else wf_payload f @ wire_data fs)"

lemma first_byte:
  fixes opc :: u8
  assumes "opc \<in> {0, 2, 8, 9, 10}"
  shows "and (or (if fin then 0x80 else 0) opc) 0x80 \<noteq> 0 \<longleftrightarrow> fin" "and (or (if fin then 0x80 else 0) opc) 0x70 = 0"
    "and (or (if fin then 0x80 else 0) opc) 0x0F = opc" "and opc 8 \<noteq> 0 \<longleftrightarrow> opc \<in> {8, 9, 10}"
  using assms by (cases fin; auto)+

lemma second_byte_table:
  "list_all (\<lambda>n. and (of_nat n) 0x7F = (of_nat n :: u8) \<and> and (of_nat n) (0x80 :: u8) = 0
     \<and> and (or 0x80 (of_nat n)) 0x7F = (of_nat n :: u8) \<and> and (or 0x80 (of_nat n)) (0x80 :: u8) \<noteq> 0) [0..<128]"
  by code_simp

lemma second_byte:
  assumes "n < 128"
  shows "and (or (if masked then 0x80 else 0) (of_nat n)) 0x7F = (of_nat n :: u8)"
    "and (or (if masked then 0x80 else 0) (of_nat n)) (0x80 :: u8) \<noteq> 0 \<longleftrightarrow> masked"
proof -
  from assms have "n \<in> set [0..<128]" by simp
  from bspec [OF second_byte_table [unfolded list_all_iff] this]
  show "and (or (if masked then 0x80 else 0) (of_nat n)) 0x7F = (of_nat n :: u8)"
    "and (or (if masked then 0x80 else 0) (of_nat n)) (0x80 :: u8) \<noteq> 0 \<longleftrightarrow> masked"
    by (cases masked; simp)+
qed

text \<open>The frame the reader works on after the header of a frame on the wire.\<close>

definition read_frame_of :: "wire_frame \<Rightarrow> ws_read_frame" where
  "read_frame_of f = \<lparr>rf_opcode = wf_opcode f, rf_remaining = length (wf_payload f), rf_mask = mask_key (wf_mask f),
     rf_mask_offset = 0, rf_control = (if wf_control f then Some [] else None)\<rparr>"

definition frag_after :: "bool \<Rightarrow> wire_frame \<Rightarrow> bool" where
  "frag_after frag f = (if wf_control f then frag else \<not> wf_fin f)"

lemma length_put_head:
  "length (put_wire_head f) = 2 + (if wf_form f = 0 then 0 else if wf_form f = 1 then 2 else 8)
     + (if wf_mask f = None then 0 else 4)"
  by (auto simp: put_wire_head_def put_length_def mask_bytes_def)

lemma put_head_length:
  assumes "wire_ok client f"
  shows "\<exists>tail tag. put_length (wf_form f) mb (length (wf_payload f)) = or mb (of_nat tag) # tail \<and> tag < 128
    \<and> (tag = 126 \<longleftrightarrow> wf_form f = 1) \<and> (tag = 127 \<longleftrightarrow> wf_form f \<noteq> 0 \<and> wf_form f \<noteq> 1)
    \<and> (wf_form f = 0 \<longrightarrow> tail = [] \<and> tag = length (wf_payload f))
    \<and> (wf_form f = 1 \<longrightarrow> length tail = 2 \<and> unat (from_be tail :: u16) = length (wf_payload f))
    \<and> (wf_form f \<noteq> 0 \<and> wf_form f \<noteq> 1 \<longrightarrow> length tail = 8 \<and> unat (from_be tail :: u64) = length (wf_payload f))"
proof -
  let ?n = "length (wf_payload f)"
  have n: "?n < 2 ^ 64" using assms by (simp add: wire_ok_def MAX_WS_FRAME_SIZE_def)
  have u64: "unat (from_be (be_bytes (of_nat ?n :: u64)) :: u64) = ?n" using n by (simp add: unat_of_nat)
  consider (short) "wf_form f = 0" "?n \<le> 125" | (middle) "wf_form f = 1" "?n \<le> 65535"
    | (long) "wf_form f \<noteq> 0" "wf_form f \<noteq> 1"
    using assms by (auto simp: wire_ok_def)
  then show ?thesis
  proof cases
    case short
    then show ?thesis by (intro exI [of _ "[]"] exI [of _ ?n]) (simp add: put_length_def)
  next
    case middle
    then have "unat (from_be (be_bytes (of_nat ?n :: u16)) :: u16) = ?n" by (simp add: unat_of_nat)
    with middle show ?thesis
      by (intro exI [of _ "be_bytes (of_nat ?n :: u16)"] exI [of _ 126]) (simp add: put_length_def)
  next
    case long
    with u64 show ?thesis
      by (intro exI [of _ "be_bytes (of_nat ?n :: u64)"] exI [of _ 127]) (simp add: put_length_def)
  qed
qed

lemma parse_header_put:
  assumes "wire_ok client f" and "\<not> wf_control f \<Longrightarrow> wf_opcode f = (if frag then 0 else 2)"
  shows "parse_header client frag (put_wire_head f @ rest)
    = Inr (Some (frag_after frag f, length (put_wire_head f), read_frame_of f))"
proof -
  let ?mb = "if wf_mask f = None then 0 else 0x80 :: u8"
  obtain tail tag where t: "put_length (wf_form f) ?mb (length (wf_payload f)) = or ?mb (of_nat tag) # tail" "tag < 128"
    "tag = 126 \<longleftrightarrow> wf_form f = 1" "tag = 127 \<longleftrightarrow> wf_form f \<noteq> 0 \<and> wf_form f \<noteq> 1"
    "wf_form f = 0 \<longrightarrow> tail = [] \<and> tag = length (wf_payload f)"
    "wf_form f = 1 \<longrightarrow> length tail = 2 \<and> unat (from_be tail :: u16) = length (wf_payload f)"
    "wf_form f \<noteq> 0 \<and> wf_form f \<noteq> 1 \<longrightarrow> length tail = 8 \<and> unat (from_be tail :: u64) = length (wf_payload f)"
    using put_head_length [OF assms(1), of ?mb] by (elim exE conjE)
  let ?b0 = "or (if wf_fin f then 0x80 else 0) (wf_opcode f)" and ?b1 = "or ?mb (of_nat tag) :: u8"
  let ?inp = "?b0 # ?b1 # tail @ mask_bytes (wf_mask f) @ rest"
  have inp: "put_wire_head f @ rest = ?inp" by (simp add: put_wire_head_def t(1))
  have opc: "wf_opcode f \<in> {0, 2, 8, 9, 10}" using assms(1) by (simp add: wire_ok_def)
  note b0 = first_byte(1-3) [OF opc, of "wf_fin f"] first_byte(4) [OF opc]
  have mb: "?mb = (if wf_mask f \<noteq> None then 0x80 else 0)" by simp
  have b1: "and ?b1 0x7F = of_nat tag" "and ?b1 0x80 \<noteq> 0 \<longleftrightarrow> wf_mask f \<noteq> None"
    unfolding mb by (rule second_byte [OF t(2)])+
  have tag: "(of_nat tag = (126 :: u8)) \<longleftrightarrow> wf_form f = 1" "(of_nat tag = (127 :: u8)) \<longleftrightarrow> wf_form f \<noteq> 0 \<and> wf_form f \<noteq> 1"
    "unat (of_nat tag :: u8) = tag"
    using t(2-4) by (auto simp: unat_of_nat dest: arg_cong [where f = unat])
  have ext: "(if of_nat tag = (126 :: u8) then 2 else if of_nat tag = (127 :: u8) then 8 else 0) = length tail"
    using t(5-7) by (auto simp: tag)
  have n: "(if of_nat tag = (126 :: u8) then unat (from_be (take 2 (drop 2 ?inp)) :: u16)
      else if of_nat tag = (127 :: u8) then unat (from_be (take 8 (drop 2 ?inp)) :: u64) else unat (of_nat tag :: u8))
      = length (wf_payload f)"
    using t(5-7) unfolding tag by auto
  have key: "(if wf_mask f \<noteq> None then take 4 (drop (2 + length tail) ?inp) else [0, 0, 0, 0]) = mask_key (wf_mask f)"
    by (auto simp: mask_key_def mask_bytes_def)
  have head: "2 + length tail + (if wf_mask f \<noteq> None then 4 else 0) = length (put_wire_head f)"
    by (auto simp: put_wire_head_def t(1) mask_bytes_def)
  have enough: "\<not> length ?inp < length (put_wire_head f)" "\<not> length ?inp < 2"
    by (simp add: inp [symmetric]) simp
  have ends: "?inp ! 0 = ?b0" "?inp ! 1 = ?b1" by simp_all
  have ctl: "and (wf_opcode f) 8 \<noteq> 0 \<longleftrightarrow> wf_control f" using b0(4) by (simp add: wf_control_def)
  have step: "(if wf_opcode f = 0 then and_then (ensure frag UnexpectedContinuation) (\<lambda>_. Inr (\<not> wf_fin f))
      else if wf_opcode f = 2 then and_then (ensure (\<not> frag) NestedFragment) (\<lambda>_. Inr (\<not> wf_fin f))
      else if wf_opcode f \<in> {8, 9, 10} then Inr frag else Inl (UnsupportedOpcode (wf_opcode f))) = Inr (frag_after frag f)"
    using opc assms(2) by (auto simp: frag_after_def wf_control_def split: if_splits)
  have oks: "(wf_mask f \<noteq> None) \<noteq> client \<longleftrightarrow> True" "length (wf_payload f) \<le> MAX_WS_FRAME_SIZE \<longleftrightarrow> True"
    "\<not> (wf_control f \<and> (\<not> wf_fin f \<or> length (wf_payload f) > 125)) \<longleftrightarrow> True"
    using assms(1) by (auto simp: wire_ok_def)
  show ?thesis
    unfolding inp parse_header_def Let_def ends b0(1-3) b1 ext n key head ctl step oks read_frame_of_def
    by (simp only: enough if_False ensure_simps and_then_simps simp_thms)
qed

lemma parse_header_partial:
  assumes "wire_ok client f" and "put_wire_head f = inp @ missing" and "missing \<noteq> []"
  shows "parse_header client frag inp = Inr None"
proof (cases "length inp < 2")
  case True
  then show ?thesis by (simp add: parse_header_def)
next
  case False
  let ?mb = "if wf_mask f = None then 0 else 0x80 :: u8"
  obtain tail tag where t: "put_length (wf_form f) ?mb (length (wf_payload f)) = or ?mb (of_nat tag) # tail" "tag < 128"
    "tag = 126 \<longleftrightarrow> wf_form f = 1" "tag = 127 \<longleftrightarrow> wf_form f \<noteq> 0 \<and> wf_form f \<noteq> 1"
    using put_head_length [OF assms(1), of ?mb] by (elim exE conjE)
  let ?b0 = "or (if wf_fin f then 0x80 else 0) (wf_opcode f)" and ?b1 = "or ?mb (of_nat tag) :: u8"
  have "?b0 # ?b1 # tail @ mask_bytes (wf_mask f) = inp @ missing"
    using assms(2) by (simp add: put_wire_head_def t(1))
  with False have ends: "inp ! 0 = ?b0" "inp ! 1 = ?b1"
    by (cases inp; cases "tl inp"; force)+
  have opc: "wf_opcode f \<in> {0, 2, 8, 9, 10}" using assms(1) by (simp add: wire_ok_def)
  have mb: "?mb = (if wf_mask f \<noteq> None then 0x80 else 0)" by simp
  have b1: "and ?b1 0x7F = of_nat tag" "and ?b1 0x80 \<noteq> 0 \<longleftrightarrow> wf_mask f \<noteq> None"
    unfolding mb by (rule second_byte [OF t(2)])+
  have tag: "(of_nat tag = (126 :: u8)) \<longleftrightarrow> wf_form f = 1" "(of_nat tag = (127 :: u8)) \<longleftrightarrow> wf_form f \<noteq> 0 \<and> wf_form f \<noteq> 1"
    using t(2-4) by (auto simp: unat_of_nat dest: arg_cong [where f = unat])
  have "length inp < length (put_wire_head f)" using assms(2,3) by simp
  then have "length inp < 2 + (if of_nat tag = (126 :: u8) then 2 else if of_nat tag = (127 :: u8) then 8 else 0)
      + (if wf_mask f \<noteq> None then 4 else 0)"
    by (auto simp: length_put_head tag)
  then show ?thesis
    using assms(1) first_byte(2) [OF opc, of "wf_fin f"] False unfolding parse_header_def Let_def ends b1
    by (auto simp: wire_ok_def)
qed

section \<open>Masks\<close>

lemma length_mask_from [simp]: "length (mask_from m k bs) = length bs"
  by (induction bs arbitrary: k) auto

lemma mask_from_append: "mask_from m k (as @ bs) = mask_from m k as @ mask_from m (k + length as) bs"
  by (induction as arbitrary: k) auto

lemma mask_from_mod: "mask_from m (k mod 4) bs = mask_from m k bs"
  by (induction bs arbitrary: k) (auto simp: mod_Suc_eq [symmetric], metis mod_Suc_eq mod_mod_trivial)

lemma mask_from_twice [simp]: "mask_from m k (mask_from m k bs) = bs"
  by (induction bs arbitrary: k) (auto simp: xor.assoc)

lemma mask_from_take: "take n (mask_from m k bs) = mask_from m k (take n bs)"
  by (induction bs arbitrary: k n) (auto simp: take_Cons' split: nat.splits)

lemma mask_from_zero: "mask_from [0, 0, 0, 0] k bs = bs"
proof (induction bs arbitrary: k)
  case (Cons b bs)
  have "k mod 4 \<in> {0, 1, 2, 3}" by auto
  then have "[0, 0, 0, 0 :: u8] ! (k mod 4) = 0" by auto
  with Cons show ?case by simp
qed simp


section \<open>What is still to be read\<close>

text \<open>The bytes the transport will still bring, up to the end of the stream.\<close>

fun incoming :: "read_answer list \<Rightarrow> bytes" where
  "incoming [] = []"
| "incoming (ReadBytes bs # rs) = (if bs = [] then [] else bs @ incoming rs)"
| "incoming (ReadPending # rs) = incoming rs"
| "incoming (ReadFailed # rs) = incoming rs"

fun sees_end :: "read_answer list \<Rightarrow> bool" where
  "sees_end [] \<longleftrightarrow> False"
| "sees_end (ReadBytes bs # rs) \<longleftrightarrow> bs = [] \<or> sees_end rs"
| "sees_end (ReadPending # rs) \<longleftrightarrow> sees_end rs"
| "sees_end (ReadFailed # rs) \<longleftrightarrow> sees_end rs"

definition wire :: "ws_stream \<Rightarrow> bytes" where
  "wire s = available_input s @ incoming (t_reads (ws_inner s))"

text \<open>
  The stream \<open>s\<close> has \<open>p\<close> of its current frame and the frames \<open>fs\<close> before it; \<open>unsent\<close> is what the peer has not
  sent yet. A peer that closes its end has sent all.
\<close>

definition reads_as :: "ws_stream \<Rightarrow> bytes \<Rightarrow> wire_frame list \<Rightarrow> bytes \<Rightarrow> bool" where
  "reads_as s p fs unsent \<longleftrightarrow>
     (sees_end (t_reads (ws_inner s)) \<longrightarrow> unsent = []) \<and> ws_input_offset s \<le> length (ws_input s)
     \<and> wire_seq (ws_client s) (ws_fragmented s) fs \<and>
     (case ws_frame s of
        None \<Rightarrow> p = [] \<and> wire s @ unsent = concat (map put_wire fs)
      | Some f \<Rightarrow> rf_remaining f = length p \<and> (rf_control f = None \<longleftrightarrow> rf_opcode f \<in> {0, 2})
          \<and> wire s @ unsent = mask_from (rf_mask f) (rf_mask_offset f) p @ concat (map put_wire fs))"

definition undelivered :: "ws_stream \<Rightarrow> bytes \<Rightarrow> wire_frame list \<Rightarrow> bytes" where
  "undelivered s p fs = drop (ws_early_offset s) (ws_early s) @
     (if ws_read_closed s then []
      else case ws_frame s of
        None \<Rightarrow> wire_data fs
      | Some f \<Rightarrow> if rf_opcode f = 8 then [] else if rf_control f \<noteq> None then wire_data fs else p @ wire_data fs)"

lemma reads_as_cong:
  assumes "wire t = wire s" "sees_end (t_reads (ws_inner t)) = sees_end (t_reads (ws_inner s))" "ws_client t = ws_client s"
    "ws_input_offset t \<le> length (ws_input t)" "ws_input_offset s \<le> length (ws_input s)"
    "ws_fragmented t = ws_fragmented s" "ws_frame t = ws_frame s"
  shows "reads_as t p fs unsent = reads_as s p fs unsent"
  using assms by (simp add: reads_as_def split: option.split)

lemma undelivered_cong:
  assumes "ws_early t = ws_early s" "ws_early_offset t = ws_early_offset s" "ws_read_closed t = ws_read_closed s"
    "ws_frame t = ws_frame s"
  shows "undelivered t p fs = undelivered s p fs"
  using assms by (simp add: undelivered_def)

lemma read_side_same:
  assumes "read_side t = read_side s"
  shows "reads_as t p fs unsent = reads_as s p fs unsent" "undelivered t p fs = undelivered s p fs" "wire t = wire s"
proof -
  note f = read_side_fields [OF assms]
  show w: "wire t = wire s" by (simp add: wire_def available_input_def f)
  show "reads_as t p fs unsent = reads_as s p fs unsent" by (simp add: reads_as_def w f split: option.split)
  show "undelivered t p fs = undelivered s p fs" by (rule undelivered_cong) (simp_all add: f)
qed

lemma put_wire_not_Nil [simp]: "put_wire f \<noteq> []"
  by (simp add: put_wire_def put_wire_head_def)

lemma wire_compact [simp]: "wire (compact_input s) = wire s"
  by (simp add: wire_def)

subsection \<open>Filling the input\<close>

text \<open>Filling moves bytes from the transport into the input and changes nothing else the reader sees.\<close>

lemma inner_read_cases:
  assumes "inner_read t = (r, t')"
  shows "incoming (t_reads t) = (case r of Ready (Inr bs) \<Rightarrow> bs | _ \<Rightarrow> []) @ incoming (t_reads t')"
    and "sees_end (t_reads t') = sees_end (t_reads t)"
    and "r = Ready (Inr []) \<Longrightarrow> sees_end (t_reads t) \<and> incoming (t_reads t) = []"
    and "r = Ready (Inl e) \<Longrightarrow> e = InnerFailed"
  using assms
  by (auto simp: inner_read_def READ_CHUNK_def split: list.splits read_answer.splits if_splits)

lemma poll_fill_input_same:
  assumes "poll_fill_input s = (r, s')" and "ws_input_offset s \<le> length (ws_input s)"
  shows "wire s' = wire s" "sees_end (t_reads (ws_inner s')) = sees_end (t_reads (ws_inner s))"
    "ws_input_offset s' \<le> length (ws_input s')"
    "ws_client s' = ws_client s" "ws_fragmented s' = ws_fragmented s" "ws_frame s' = ws_frame s"
    "ws_early s' = ws_early s" "ws_early_offset s' = ws_early_offset s" "ws_read_closed s' = ws_read_closed s"
    "ws_control_pending s' = ws_control_pending s"
    "r = Ready (Inr False) \<Longrightarrow> sees_end (t_reads (ws_inner s)) \<and> incoming (t_reads (ws_inner s')) = []"
    "r = Ready (Inr True) \<or> available_input s' = available_input s"
    "r = Ready (Inl e) \<Longrightarrow> e = InnerFailed"
proof -
  obtain a t where a: "inner_read (ws_inner s) = (a, t)" by force
  note i = inner_read_cases [OF a]
  let ?c = "compact_input s"
  have off: "ws_input_offset ?c \<le> length (ws_input ?c)" by (rule compact_input_offset [OF assms(2)])
  have r: "s' = ?c\<lparr>ws_inner := t\<rparr> \<and> r \<noteq> Ready (Inr True) \<and> (\<forall>bs. a = Ready (Inr bs) \<longrightarrow> bs = [])
      \<and> (r = Ready (Inr False) \<longrightarrow> a = Ready (Inr [])) \<and> (\<forall>e. r = Ready (Inl e) \<longrightarrow> a = Ready (Inl e))
    \<or> (\<exists>bs. a = Ready (Inr bs) \<and> s' = ?c\<lparr>ws_inner := t, ws_input := ws_input ?c @ bs\<rparr> \<and> r = Ready (Inr True))"
    using assms(1) a by (auto simp: poll_fill_input_def Let_def split: poll.splits sum.splits if_splits)
  have "wire s' = available_input ?c @ (case a of Ready (Inr bs) \<Rightarrow> bs | _ \<Rightarrow> []) @ incoming (t_reads t)"
    using r off by (auto simp: wire_def available_input_def split: poll.splits sum.splits)
  then show "wire s' = wire s" using i(1) by (simp add: wire_def)
  show "sees_end (t_reads (ws_inner s')) = sees_end (t_reads (ws_inner s))" using r i(2) by auto
  show "ws_input_offset s' \<le> length (ws_input s')" using r off by auto
  show "ws_client s' = ws_client s" "ws_fragmented s' = ws_fragmented s" "ws_frame s' = ws_frame s"
    "ws_early s' = ws_early s" "ws_early_offset s' = ws_early_offset s" "ws_read_closed s' = ws_read_closed s"
    "ws_control_pending s' = ws_control_pending s"
    using r by auto
  show "r = Ready (Inr False) \<Longrightarrow> sees_end (t_reads (ws_inner s)) \<and> incoming (t_reads (ws_inner s')) = []"
    using r i(1,3) by auto
  have "available_input (?c\<lparr>ws_inner := t\<rparr>) = available_input ?c" by (simp add: available_input_def)
  then show "r = Ready (Inr True) \<or> available_input s' = available_input s" using r by auto
  show "r = Ready (Inl e) \<Longrightarrow> e = InnerFailed" using r i(4) by auto
qed

lemma poll_fill_input_reads_as:
  assumes "poll_fill_input s = (r, s')" and "reads_as s p fs unsent"
  shows "reads_as s' p fs unsent" and "undelivered s' p fs = undelivered s p fs"
proof -
  from assms(2) have off: "ws_input_offset s \<le> length (ws_input s)" by (simp add: reads_as_def)
  note same = poll_fill_input_same [OF assms(1) off]
  show "reads_as s' p fs unsent" using assms(2) reads_as_cong [OF same(1,2,4,3) off same(5,6)] by simp
  show "undelivered s' p fs = undelivered s p fs" by (rule undelivered_cong) (simp_all add: same)
qed


subsection \<open>Starting a frame\<close>

lemma wire_head_cases:
  assumes "wire s @ unsent = put_wire f @ rest"
  obtains (whole) r where "available_input s = put_wire_head f @ r"
    "r @ incoming (t_reads (ws_inner s)) @ unsent = mask_from (mask_key (wf_mask f)) 0 (wf_payload f) @ rest"
  | (part) missing where "put_wire_head f = available_input s @ missing" "missing \<noteq> []"
      "incoming (t_reads (ws_inner s)) @ unsent \<noteq> []"
proof -
  let ?i = "incoming (t_reads (ws_inner s)) @ unsent"
  from assms have "available_input s @ ?i = put_wire_head f @ mask_from (mask_key (wf_mask f)) 0 (wf_payload f) @ rest"
    by (simp add: wire_def put_wire_def)
  from iffD1 [OF append_eq_append_conv2 this]
  obtain us where "available_input s = put_wire_head f @ us \<and> us @ ?i = mask_from (mask_key (wf_mask f)) 0 (wf_payload f) @ rest
      \<or> available_input s @ us = put_wire_head f \<and> ?i = us @ mask_from (mask_key (wf_mask f)) 0 (wf_payload f) @ rest"
    by blast
  then show ?thesis
  proof (elim disjE conjE)
    assume us: "available_input s @ us = put_wire_head f" "?i = us @ mask_from (mask_key (wf_mask f)) 0 (wf_payload f) @ rest"
    show ?thesis
    proof (cases "us = []")
      case True
      with us show ?thesis by (intro whole [of "[]"]) simp_all
    next
      case False
      with us show ?thesis by (intro part [of us]) auto
    qed
  qed (auto intro: whole)
qed

lemma start_frame_reads:
  assumes "reads_as s p fs unsent" and "ws_frame s = None"
  shows "start_frame s = Inr (False, s) \<and> (unsent = [] \<and> incoming (t_reads (ws_inner s)) = [] \<longrightarrow> fs = [])
    \<or> (\<exists>f fs' t. fs = f # fs' \<and> start_frame s = Inr (True, t) \<and> reads_as t (wf_payload f) fs' unsent
        \<and> undelivered t (wf_payload f) fs' = undelivered s p fs \<and> ws_frame t = Some (read_frame_of f)
        \<and> ws_inner t = ws_inner s \<and> ws_control_pending t = ws_control_pending s
        \<and> ws_early t = ws_early s \<and> ws_early_offset t = ws_early_offset s \<and> ws_read_closed t = ws_read_closed s)"
proof (cases fs)
  case Nil
  with assms have "available_input s = []" by (auto simp: reads_as_def wire_def)
  then have "start_frame s = Inr (False, s)" by (simp add: start_frame_def parse_header_def)
  with Nil show ?thesis by simp
next
  case (Cons f fs')
  from assms Cons have w: "wire s @ unsent = put_wire f @ concat (map put_wire fs')"
    and ok: "wire_ok (ws_client s) f" "\<not> wf_control f \<Longrightarrow> wf_opcode f = (if ws_fragmented s then 0 else 2)"
    and rest: "wire_seq (ws_client s) (frag_after (ws_fragmented s) f) fs'"
    and off: "ws_input_offset s \<le> length (ws_input s)" and fin: "sees_end (t_reads (ws_inner s)) \<longrightarrow> unsent = []"
    by (auto simp: reads_as_def frag_after_def split: if_splits)
  from w show ?thesis
  proof (cases rule: wire_head_cases)
    case (part missing)
    then have "start_frame s = Inr (False, s)"
      using parse_header_partial [OF ok(1) part(1,2)] by (simp add: start_frame_def)
    with part show ?thesis by auto
  next
    case (whole r)
    let ?h = "length (put_wire_head f)"
    let ?t = "s\<lparr>ws_fragmented := frag_after (ws_fragmented s) f, ws_input_offset := ws_input_offset s + ?h,
        ws_frame := Some (read_frame_of f)\<rparr>"
    have t: "start_frame s = Inr (True, ?t)"
      using parse_header_put [OF ok] whole(1) by (simp add: start_frame_def)
    have len: "?h \<le> length (available_input s)" using whole(1) by simp
    have "available_input ?t = drop ?h (available_input s)" by (simp add: available_input_def add.commute)
    then have "wire ?t = r @ incoming (t_reads (ws_inner s))" using whole(1) by (simp add: wire_def)
    moreover have "ws_input_offset ?t \<le> length (ws_input ?t)" using len off by (simp add: available_input_def)
    ultimately have "reads_as ?t (wf_payload f) fs' unsent"
      using whole(2) rest fin ok(1)
      by (auto simp: reads_as_def read_frame_of_def wire_ok_def wf_control_def)
    moreover have "undelivered ?t (wf_payload f) fs' = undelivered s p fs"
      using assms(2) Cons by (simp add: undelivered_def read_frame_of_def)
    ultimately show ?thesis using t Cons by auto
  qed
qed

subsection \<open>Payload\<close>

lemma take_payload_reads:
  assumes r: "reads_as s p fs unsent" and f: "ws_frame s = Some f" and "p \<noteq> []" and "available_input s \<noteq> []"
    and "0 < room" and early: "length (ws_early s) \<le> ws_early_offset s" and closed: "\<not> ws_read_closed s"
    and t: "take_payload room f s = (res, s')"
  shows "\<exists>p'. reads_as s' p' fs unsent \<and> (\<exists>out. undelivered s p fs = out @ undelivered s' p' fs
    \<and> (res = None \<and> out = [] \<or> res = Some (Ready (Inr out)) \<and> out \<noteq> []))
    \<and> length (ws_early s') \<le> ws_early_offset s'"
proof -
  let ?m = "rf_mask f" and ?k = "rf_mask_offset f"
  let ?limit = "min (rf_remaining f) (length (available_input s))"
  define n where "n = (case rf_control f of None \<Rightarrow> min ?limit room | Some _ \<Rightarrow> ?limit)"
  from r f have rem: "rf_remaining f = length p" and ctl: "rf_control f = None \<longleftrightarrow> rf_opcode f \<in> {0, 2}"
    and w: "available_input s @ incoming (t_reads (ws_inner s)) @ unsent = mask_from ?m ?k p @ concat (map put_wire fs)"
    and off: "ws_input_offset s \<le> length (ws_input s)"
    by (auto simp: reads_as_def wire_def)
  have n: "n \<le> length p" "n \<le> length (available_input s)" "0 < n"
    using assms(3-5) by (auto simp: n_def rem split: option.splits)
  have "take n (available_input s) = take n (mask_from ?m ?k p)"
    using arg_cong [OF w, of "take n"] n by simp
  then have d: "mask_from ?m ?k (take n (available_input s)) = take n p" by (simp add: mask_from_take)
  have "drop n (available_input s) @ incoming (t_reads (ws_inner s)) @ unsent
      = drop n (mask_from ?m ?k p) @ concat (map put_wire fs)"
    using arg_cong [OF w, of "drop n"] n by simp
  also have "drop n (mask_from ?m ?k p) = mask_from ?m (?k + n) (drop n p)"
    using mask_from_append [of ?m ?k "take n p" "drop n p"] n(1) by simp
  finally have w': "drop n (available_input s) @ incoming (t_reads (ws_inner s)) @ unsent
      = mask_from ?m ((?k + n) mod 4) (drop n p) @ concat (map put_wire fs)"
    by (simp add: mask_from_mod)
  let ?f = "f\<lparr>rf_remaining := rf_remaining f - n, rf_mask_offset := (?k + n) mod 4,
      rf_control := map_option (\<lambda>c. c @ take n p) (rf_control f)\<rparr>"
  let ?u = "s\<lparr>ws_input_offset := ws_input_offset s + n, ws_frame := Some ?f\<rparr>"
  have "take_payload room f s = (if rf_control f = None then Some (Ready (Inr (take n p))) else None, compact_input ?u)"
    unfolding take_payload_def Let_def n_def [symmetric] d ..
  with t have s': "s' = compact_input ?u" and res: "res = (if rf_control f = None then Some (Ready (Inr (take n p))) else None)"
    by simp_all
  have "available_input ?u = drop n (available_input s)" by (simp add: available_input_def add.commute)
  then have "wire s' = drop n (available_input s) @ incoming (t_reads (ws_inner s))"
    by (simp add: s' wire_def)
  moreover have "ws_input_offset ?u \<le> length (ws_input ?u)" using n(2) off by (simp add: available_input_def)
  then have "ws_input_offset s' \<le> length (ws_input s')" unfolding s' by (rule compact_input_offset)
  ultimately have r': "reads_as s' (drop n p) fs unsent"
    using r f w' rem ctl unfolding reads_as_def by (simp add: s')
  have "undelivered s p fs = (if rf_control f = None then take n p else []) @ undelivered s' (drop n p) fs"
    using f early closed ctl by (auto simp: undelivered_def s')
  moreover have "take n p \<noteq> []" using n(1,3) by auto
  moreover have "length (ws_early s') \<le> ws_early_offset s'" using early by (simp add: s')
  ultimately show ?thesis using r' res by (cases "rf_control f") auto
qed


subsection \<open>One pass, and a whole poll\<close>

text \<open>
  A pass delivers the next data or changes nothing of what is left; \<open>Pending\<close> with nothing left in the transport
  and no control frame waiting to be written means that nothing is left. The only errors are those of
  the transport and of the random generator.
\<close>

definition pass_ok ::
    "ws_stream \<Rightarrow> bytes \<Rightarrow> wire_frame list \<Rightarrow> bytes \<Rightarrow> (ws_error + bytes) poll option \<Rightarrow> ws_stream \<Rightarrow> bool" where
  "pass_ok s p fs unsent res s' \<longleftrightarrow>
     (case res of
        Some (Ready (Inl e)) \<Rightarrow> e \<in> {InnerFailed, WriteZero, NoRandom}
      | _ \<Rightarrow> \<exists>p' fs'. reads_as s' p' fs' unsent \<and> length (ws_early s') \<le> ws_early_offset s' \<and>
          (case res of
             Some (Ready (Inr out)) \<Rightarrow> undelivered s p fs = out @ undelivered s' p' fs'
               \<and> (out = [] \<longrightarrow> undelivered s' p' fs' = [])
           | Some Pending \<Rightarrow> undelivered s' p' fs' = undelivered s p fs
               \<and> (unsent = [] \<and> incoming (t_reads (ws_inner s')) = [] \<and> \<not> ws_control_pending s'
                    \<longrightarrow> undelivered s' p' fs' = [])
           | _ \<Rightarrow> undelivered s' p' fs' = undelivered s p fs))"

lemma append_frame_error: "append_frame opcode d s = (Inl e, s') \<Longrightarrow> e = NoRandom"
  by (auto simp: append_frame_def Let_def split: if_splits option.splits)

lemma poll_flush_output_error: "poll_flush_output s = (r, s') \<Longrightarrow> r = Ready (Inl e) \<Longrightarrow> e \<in> {InnerFailed, WriteZero}"
  by (induction rule: flush_induct) auto

lemma finish_read_frame_reads:
  assumes r: "reads_as s [] fs unsent" and f: "ws_frame s = Some f" and early: "length (ws_early s) \<le> ws_early_offset s"
    and fin: "finish_read_frame f s = (Inr u, s')"
  shows "reads_as s' [] fs unsent" and "undelivered s' [] fs = undelivered s [] fs"
    and "length (ws_early s') \<le> ws_early_offset s'"
proof -
  let ?t = "s\<lparr>ws_frame := None\<rparr>"
  have t: "reads_as ?t [] fs unsent" using r f by (simp add: reads_as_def wire_def available_input_def)
  from fin obtain v where v: "read_side v = read_side ?t" "s' = v \<or> s' = v\<lparr>ws_control_pending := True\<rparr>
      \<or> rf_opcode f = 8 \<and> s' = v\<lparr>ws_control_pending := True, ws_close_queued := True, ws_read_closed := True\<rparr>"
    "rf_opcode f = 8 \<Longrightarrow> s' = v\<lparr>ws_control_pending := True, ws_close_queued := True, ws_read_closed := True\<rparr>"
    by (auto simp: finish_read_frame_def Let_def dest: append_frame_read_side split: if_splits prod.splits sum.splits)
  have "reads_as v [] fs unsent" using read_side_same(1) [OF v(1)] t by simp
  then have reads: "reads_as v [] fs unsent" "reads_as (v\<lparr>ws_control_pending := True\<rparr>) [] fs unsent"
    "reads_as (v\<lparr>ws_control_pending := True, ws_close_queued := True, ws_read_closed := True\<rparr>) [] fs unsent"
    by (simp_all add: reads_as_def wire_def available_input_def split: option.splits)
  note same = read_side_fields [OF v(1)]
  show "reads_as s' [] fs unsent"
    using v(2) reads by auto
  show "undelivered s' [] fs = undelivered s [] fs"
  proof (cases "rf_opcode f = 8")
    case True
    show ?thesis unfolding v(3) [OF True] using f True same by (simp add: undelivered_def)
  next
    case False
    with v(2) have "ws_read_closed s' = ws_read_closed s" "ws_frame s' = None" "ws_early s' = ws_early s"
      "ws_early_offset s' = ws_early_offset s"
      using same by auto
    then show ?thesis using f False by (simp add: undelivered_def)
  qed
  show "length (ws_early s') \<le> ws_early_offset s'" using v(2) early same by auto
qed

lemma read_payload_pass:
  assumes r: "reads_as s p fs unsent" and f: "ws_frame s = Some f" and room: "0 < room"
    and early: "length (ws_early s) \<le> ws_early_offset s" and closed: "\<not> ws_read_closed s"
    and res: "read_payload room f s = (res, s')"
  shows "pass_ok s p fs unsent res s'"
proof (cases "rf_remaining f = 0")
  case True
  with r f have p: "p = []" by (simp add: reads_as_def)
  obtain a t where fin: "finish_read_frame f s = (a, t)" by force
  with res True have out: "s' = t" "case a of Inl e \<Rightarrow> res = Some (Ready (Inl e)) | Inr _ \<Rightarrow> res = None"
    by (auto simp: read_payload_def split: sum.splits)
  show ?thesis
  proof (cases a)
    case (Inl e)
    with fin have "e = NoRandom"
      by (auto simp: finish_read_frame_def Let_def dest: append_frame_error split: if_splits prod.splits sum.splits)
    with out Inl show ?thesis by (simp add: pass_ok_def)
  next
    case (Inr u)
    with finish_read_frame_reads [OF r [unfolded p] f early fin [unfolded Inr]] out show ?thesis
      by (auto simp: pass_ok_def p)
  qed
next
  case False
  with r f have p: "p \<noteq> []" by (auto simp: reads_as_def)
  have take_ok: "pass_ok s p fs unsent res s'"
    if t: "take_payload room f t = (res, s')" "reads_as t p fs unsent" "ws_frame t = Some f" "available_input t \<noteq> []"
      "length (ws_early t) \<le> ws_early_offset t" "\<not> ws_read_closed t" "undelivered t p fs = undelivered s p fs" for t
  proof -
    from take_payload_reads [OF t(2,3) p t(4) room t(5,6,1)] obtain p' out where
      q: "reads_as s' p' fs unsent" "undelivered t p fs = out @ undelivered s' p' fs" "length (ws_early s') \<le> ws_early_offset s'"
      "res = None \<and> out = [] \<or> res = Some (Ready (Inr out)) \<and> out \<noteq> []" by blast
    from q(4) show ?thesis
      unfolding pass_ok_def using q(1-3) t(7)
      by (elim disjE conjE) (auto intro!: exI [of _ p'] exI [of _ fs])
  qed
  show ?thesis
  proof (cases "available_input s = []")
    case avail: False
    with False res have "take_payload room f s = (res, s')" by (simp add: read_payload_def)
    from take_ok [OF this r f avail early closed] show ?thesis by simp
  next
    case empty: True
    obtain a t where fill: "poll_fill_input s = (a, t)" by force
    from r have off: "ws_input_offset s \<le> length (ws_input s)" by (simp add: reads_as_def)
    note same = poll_fill_input_same [OF fill off] and reads = poll_fill_input_reads_as [OF fill r]
    have w: "wire t @ unsent = mask_from (rf_mask f) (rf_mask_offset f) p @ concat (map put_wire fs)"
      using reads(1) f same by (simp add: reads_as_def)
    have some: "mask_from (rf_mask f) (rf_mask_offset f) p \<noteq> []" using p by (cases p) auto
    consider "a = Ready (Inr True)" | "a = Ready (Inr False)" | e where "a = Ready (Inl e)" | "a = Pending"
      by (metis poll.exhaust sumE)
    then show ?thesis
    proof cases
      case 1
      with res False empty fill have t: "take_payload room f t = (res, s')" by (simp add: read_payload_def)
      have "available_input t \<noteq> []"
        using fill 1 off by (auto simp: poll_fill_input_def Let_def available_input_def compact_input_def
            split: prod.splits sum.splits poll.splits if_splits)
      from take_ok [OF t reads(1) _ this] show ?thesis using f early closed same reads(2) by simp
    next
      case 2
      with same(11,12) r empty have "available_input t = []" "incoming (t_reads (ws_inner t)) = []" "unsent = []"
        by (auto simp: reads_as_def)
      with w some show ?thesis by (simp add: wire_def)
    next
      case (3 e)
      with same(13) res False empty fill show ?thesis by (auto simp: read_payload_def pass_ok_def)
    next
      case 4
      with res False empty fill have out: "res = Some Pending" "s' = t" by (simp_all add: read_payload_def)
      have "available_input t = []" using same(12) 4 empty by auto
      with w some have "\<not> (unsent = [] \<and> incoming (t_reads (ws_inner t)) = [])" by (auto simp: wire_def)
      with out reads same early show ?thesis
        unfolding pass_ok_def by auto
    qed
  qed
qed


lemma pass_ok_cong: "undelivered t p' fs' = undelivered s p fs \<Longrightarrow> pass_ok t p' fs' unsent res s' = pass_ok s p fs unsent res s'"
  by (simp only: pass_ok_def)

lemma read_header_pass:
  assumes r: "reads_as s p fs unsent" and room: "0 < room"
    and early: "length (ws_early s) \<le> ws_early_offset s" and closed: "\<not> ws_read_closed s"
    and res: "read_header room s = (res, s')"
  shows "pass_ok s p fs unsent res s'"
proof (cases "ws_frame s")
  case (Some f)
  with res have "read_payload room f s = (res, s')" by (simp add: read_header_def)
  from read_payload_pass [OF r Some room early closed this] show ?thesis .
next
  case None
  from start_frame_reads [OF r None] show ?thesis
  proof (elim disjE exE conjE)
    fix f fs' t
    assume fs: "fs = f # fs'" and t: "start_frame s = Inr (True, t)" "reads_as t (wf_payload f) fs' unsent"
      "undelivered t (wf_payload f) fs' = undelivered s p fs" "ws_frame t = Some (read_frame_of f)"
      "ws_early t = ws_early s" "ws_early_offset t = ws_early_offset s" "ws_read_closed t = ws_read_closed s"
    from res None t have "read_payload room (read_frame_of f) t = (res, s')" by (simp add: read_header_def)
    from read_payload_pass [OF t(2,4) room _ _ this] early closed t have "pass_ok t (wf_payload f) fs' unsent res s'" by simp
    then show ?thesis by (simp only: pass_ok_cong [OF t(3)])
  next
    assume wait: "start_frame s = Inr (False, s)"
      and over: "unsent = [] \<and> incoming (t_reads (ws_inner s)) = [] \<longrightarrow> fs = []"
    obtain a t where fill: "poll_fill_input s = (a, t)" by force
    from r have off: "ws_input_offset s \<le> length (ws_input s)" by (simp add: reads_as_def)
    note same = poll_fill_input_same [OF fill off] and reads = poll_fill_input_reads_as [OF fill r]
    have early': "length (ws_early t) \<le> ws_early_offset t" using early same by simp
    have end_of_input: "fs = []" if "unsent = []" "incoming (t_reads (ws_inner t)) = []" "available_input t = available_input s"
    proof -
      from that(2,3) same(1) have "incoming (t_reads (ws_inner s)) = []" by (simp add: wire_def)
      with over that(1) show ?thesis by simp
    qed
    consider "a = Ready (Inr True)" | "a = Ready (Inr False)" | e where "a = Ready (Inl e)" | "a = Pending"
      by (metis poll.exhaust sumE)
    then show ?thesis
    proof cases
      case 1
      with res None wait fill have "res = None" "s' = t" by (simp_all add: read_header_def)
      with reads early' show ?thesis by (auto simp: pass_ok_def)
    next
      case 2
      with same(11,12) r have e: "incoming (t_reads (ws_inner t)) = []" "available_input t = available_input s" "unsent = []"
        by (auto simp: reads_as_def)
      from end_of_input [OF e(3,1,2)] have fs: "fs = []" .
      with reads(1) same None e have "available_input t = []" by (simp add: reads_as_def wire_def)
      with res None wait fill 2 have out: "res = Some (Ready (Inr []))" "s' = t\<lparr>ws_read_closed := True\<rparr>"
        by (simp_all add: read_header_def)
      have "reads_as s' p fs unsent" unfolding out(2)
        using reads(1) by (simp add: reads_as_def wire_def available_input_def split: option.splits)
      moreover have "undelivered s' p fs = []" using early' by (simp add: undelivered_def out(2))
      moreover have "undelivered t p fs = []" using early' None same(6-9) fs by (simp add: undelivered_def)
      from reads(2) [symmetric] this have "undelivered s p fs = []" by (rule trans)
      ultimately show ?thesis using out early' by (auto simp: pass_ok_def intro!: exI [of _ p] exI [of _ fs])
    next
      case (3 e)
      with same(13) res None wait fill show ?thesis by (auto simp: read_header_def pass_ok_def)
    next
      case 4
      with res None wait fill have out: "res = Some Pending" "s' = t" by (simp_all add: read_header_def)
      have "available_input t = available_input s" using same(12) 4 by auto
      with end_of_input have "unsent = [] \<and> incoming (t_reads (ws_inner t)) = [] \<Longrightarrow> fs = []" by simp
      moreover have "undelivered t p fs = []" if "fs = []"
        using early' None same(6-9) that by (simp add: undelivered_def)
      ultimately have "unsent = [] \<and> incoming (t_reads (ws_inner t)) = [] \<Longrightarrow> undelivered t p fs = []" by blast
      with out reads early' show ?thesis
        unfolding pass_ok_def by (auto intro!: exI [of _ p] exI [of _ fs])
    qed
  qed
qed

lemma read_step_pass:
  assumes r: "reads_as s p fs unsent" and room: "0 < room" and early: "length (ws_early s) \<le> ws_early_offset s"
    and res: "read_step room s = (res, s')"
  shows "pass_ok s p fs unsent res s'"
proof -
  obtain a t where fl: "flush_control s = (a, t)" by force
  note same = read_side_same [OF flush_control_read_side [OF fl]] and fields = read_side_fields [OF flush_control_read_side [OF fl]]
  have t: "reads_as t p fs unsent" "length (ws_early t) \<le> ws_early_offset t" using r early same fields by simp_all
  consider "a = Pending" | e where "a = Ready (Inl e)" | u where "a = Ready (Inr u)" by (metis poll.exhaust sumE)
  then show ?thesis
  proof cases
    case 1
    with fl have "ws_control_pending t"
      by (auto simp: flush_control_def dest: flush_keeps split: if_splits prod.splits poll.splits sum.splits)
    with res fl 1 t same show ?thesis
      by (auto simp: read_step_def pass_ok_def intro!: exI [of _ p] exI [of _ fs])
  next
    case (2 e)
    with fl have "e \<in> {InnerFailed, WriteZero}"
      by (auto simp: flush_control_def dest!: poll_flush_output_error split: if_splits prod.splits poll.splits sum.splits)
    with res fl 2 show ?thesis by (auto simp: read_step_def pass_ok_def)
  next
    case (3 u)
    show ?thesis
    proof (cases "ws_read_closed t")
      case True
      with res fl 3 have "res = Some (Ready (Inr []))" "s' = t" by (simp_all add: read_step_def)
      moreover from True t(2) have "undelivered t p fs = []" by (simp add: undelivered_def)
      ultimately show ?thesis using t same by (auto simp: pass_ok_def intro!: exI [of _ p] exI [of _ fs])
    next
      case False
      with res fl 3 room have "read_header room t = (res, s')" by (simp add: read_step_def)
      from read_header_pass [OF t(1) room t(2) False this] show ?thesis by (simp only: pass_ok_cong [OF same(2)])
    qed
  qed
qed

lemma read_loop_pass:
  assumes "reads_as s p fs unsent" and "0 < room" and "length (ws_early s) \<le> ws_early_offset s"
    and "read_loop room s = (r, s')"
  shows "pass_ok s p fs unsent (Some r) s'"
  using assms
proof (induction room s arbitrary: p fs rule: read_loop.induct)
  case (1 room s)
  obtain res t where step: "read_step room s = (res, t)" by force
  note pass = read_step_pass [OF "1.prems"(1-3) step]
  show ?case
  proof (cases res)
    case None
    with pass obtain p' fs' where t: "reads_as t p' fs' unsent" "length (ws_early t) \<le> ws_early_offset t"
      "undelivered t p' fs' = undelivered s p fs"
      by (auto simp: pass_ok_def)
    from "1.prems"(4) step None have run: "read_loop room t = (r, s')" by (simp add: read_loop.simps [of room s])
    from "1.IH" [OF step [symmetric] None t(1) "1.prems"(2) t(2) run] show ?thesis
      by (simp only: pass_ok_cong [OF t(3)])
  next
    case (Some x)
    with "1.prems"(4) step have "x = r" "t = s'" by (simp_all add: read_loop.simps [of room s])
    with pass Some show ?thesis by simp
  qed
qed

text \<open>The early data comes first.\<close>

lemma poll_read_ok:
  assumes r: "reads_as s p fs unsent" and room: "0 < room" and res: "poll_read room s = (a, s')"
  shows "case a of
      Ready (Inl e) \<Rightarrow> e \<in> {InnerFailed, WriteZero, NoRandom}
    | Ready (Inr out) \<Rightarrow> \<exists>p' fs'. reads_as s' p' fs' unsent \<and> undelivered s p fs = out @ undelivered s' p' fs'
        \<and> (out = [] \<longrightarrow> undelivered s' p' fs' = [])
    | Pending \<Rightarrow> \<exists>p' fs'. reads_as s' p' fs' unsent \<and> undelivered s' p' fs' = undelivered s p fs
        \<and> (unsent = [] \<and> incoming (t_reads (ws_inner s')) = [] \<and> \<not> ws_control_pending s'
             \<longrightarrow> undelivered s' p' fs' = [])"
proof (cases "ws_early_offset s < length (ws_early s)")
  case True
  let ?n = "min (length (ws_early s) - ws_early_offset s) room"
  from res True have a: "a = Ready (Inr (take ?n (drop (ws_early_offset s) (ws_early s))))"
    and s': "s' = s\<lparr>ws_early_offset := ws_early_offset s + ?n\<rparr>" by (simp_all add: poll_read_def Let_def)
  have "reads_as s' p fs unsent" using r
    by (simp add: s' reads_as_def wire_def available_input_def split: option.splits)
  moreover have "undelivered s p fs = take ?n (drop (ws_early_offset s) (ws_early s)) @ undelivered s' p fs"
  proof -
    have "drop (ws_early_offset s) (ws_early s)
        = take ?n (drop (ws_early_offset s) (ws_early s)) @ drop (ws_early_offset s + ?n) (ws_early s)"
      by (metis add.commute append_take_drop_id drop_drop)
    then show ?thesis by (simp only: undelivered_def s') simp
  qed
  moreover have "take ?n (drop (ws_early_offset s) (ws_early s)) \<noteq> []" using True room by simp
  ultimately show ?thesis unfolding a by (auto intro!: exI [of _ p] exI [of _ fs])
next
  case False
  with res have "read_loop room s = (a, s')" by (simp add: poll_read_def)
  from read_loop_pass [OF r room _ this] False show ?thesis
    by (auto simp: pass_ok_def split: poll.splits sum.splits)
qed

end
