(* ===== verification/Vless_Ws_Run.thy ===== *)
theory Vless_Ws_Run
  imports Vless_Ws_Safety
begin

text \<open>
  Whole runs of a WebSocket stream of the VLESS crate: any sequence of reads, writes, flushes and shutdowns that
  keeps to the contract of asynchronous writers, a pending write being repeated with the same data. What
  one end accepted for writing is what the other end reads.
\<close>

section \<open>What has been written\<close>

definition outbox :: "ws_stream \<Rightarrow> bytes" where
  "outbox s = t_sent (ws_inner s) @ drop (ws_write_offset s) (ws_write_buffer s)"

definition frames_data :: "wire_frame list \<Rightarrow> bytes" where
  "frames_data gs = concat (map wf_payload (filter (\<lambda>f. \<not> wf_control f) gs))"

lemma frames_data_append [simp]: "frames_data (gs @ hs) = frames_data gs @ frames_data hs"
  by (simp add: frames_data_def)

lemma frames_data_Nil [simp]: "frames_data [] = []"
  by (simp add: frames_data_def)

lemma frames_data_control: "\<forall>h\<in>set hs. wf_control h \<Longrightarrow> frames_data hs = []"
  by (simp add: frames_data_def filter_empty_conv)

definition has_close :: "wire_frame list \<Rightarrow> bool" where
  "has_close gs \<longleftrightarrow> (\<exists>f\<in>set gs. wf_opcode f = 8)"

lemma wire_data_open: "\<not> has_close gs \<Longrightarrow> wire_data gs = frames_data gs"
  by (induction gs) (auto simp: has_close_def frames_data_def)

lemma wire_data_append: "wire_data (gs @ hs) = (if has_close gs then wire_data gs else wire_data gs @ wire_data hs)"
  by (induction gs) (auto simp: has_close_def)

lemma wire_data_prefix: "\<exists>r. frames_data gs = wire_data gs @ r"
proof (induction gs)
  case (Cons f gs)
  then show ?case by (auto simp: frames_data_def wf_control_def)
qed (simp add: frames_data_def)

text \<open>The payload of a control frame that is being read stays small enough to be sent back.\<close>

definition control_small :: "ws_stream \<Rightarrow> bool" where
  "control_small s \<longleftrightarrow>
     (case ws_frame s of None \<Rightarrow> True
      | Some f \<Rightarrow> (rf_opcode f \<in> {8, 9} \<longrightarrow> rf_control f \<noteq> None)
          \<and> (rf_control f = None \<or> length (control_bytes f) + rf_remaining f \<le> 125))"

text \<open>
  The stream of the client, or of the server, has put the frames \<open>gs\<close> behind the bytes \<open>fst base\<close>; its close
  frame is among them.
\<close>

definition writes_as :: "bytes \<times> bool \<Rightarrow> ws_stream \<Rightarrow> wire_frame list \<Rightarrow> bool" where
  "writes_as base s gs \<longleftrightarrow>
     ws_client s = snd base \<and> outbox s = fst base @ concat (map put_wire gs) \<and> ws_write_offset s \<le> length (ws_write_buffer s)
     \<and> wire_seq (\<not> snd base) False gs \<and> (\<forall>g\<in>set gs. wf_fin g)
     \<and> (ws_close_queued s \<longleftrightarrow> has_close gs) \<and> control_small s"

lemma wire_seq_snoc:
  assumes "wire_seq c False gs" and "\<forall>g\<in>set gs. wf_fin g" and "wire_ok c f" and "wf_opcode f \<in> {2, 8, 9, 10}"
  shows "wire_seq c False (gs @ [f])"
  using assms by (induction gs) (auto simp: wf_control_def split: if_splits)

lemma flush_outbox:
  "poll_flush_output s = (r, s') \<Longrightarrow> ws_write_offset s \<le> length (ws_write_buffer s) \<Longrightarrow>
     outbox s' = outbox s \<and> ws_write_offset s' \<le> length (ws_write_buffer s')"
proof (induction rule: flush_induct)
  case (wrote s t n r s')
  then have "outbox (s\<lparr>ws_inner := t, ws_write_offset := ws_write_offset s + n\<rparr>) = outbox s"
    by (simp add: outbox_def add.commute flip: drop_drop)
  with wrote show ?case by simp
qed (auto simp: outbox_def)

lemma flush_finished: "poll_flush_output s = (r, s') \<Longrightarrow> r = Ready (Inr u) \<Longrightarrow> ws_write_buffer s' = []"
  by (induction rule: flush_induct) auto

lemma control_small_cong: "ws_frame t = ws_frame s \<Longrightarrow> control_small t = control_small s"
  by (simp add: control_small_def)

lemma flush_writes:
  assumes "poll_flush_output s = (r, s')" and "writes_as base s gs"
  shows "writes_as base s' gs"
proof -
  from assms(2) have "ws_write_offset s \<le> length (ws_write_buffer s)" by (simp add: writes_as_def)
  note out = flush_outbox [OF assms(1) this] and keeps = flush_keeps [OF assms(1)]
    and same = read_side_fields [OF poll_flush_output_read_side [OF assms(1)]]
  from assms(2) out keeps control_small_cong [OF same(7)] show ?thesis by (simp add: writes_as_def)
qed

text \<open>Appending puts one whole frame behind the others.\<close>

lemma append_frame_outbox:
  assumes "append_frame opcode d s = (Inr u, s')" and "ws_write_offset s \<le> length (ws_write_buffer s)"
    and "opcode \<in> {2, 8, 9, 10}" and "length d \<le> MAX_WS_FRAME_SIZE" and "opcode = 2 \<or> length d \<le> 125"
  shows "\<exists>f. outbox s' = outbox s @ put_wire f \<and> wire_ok (\<not> ws_client s) f \<and> wf_fin f \<and> wf_opcode f = opcode
      \<and> wf_payload f = d"
    and "ws_write_offset s' \<le> length (ws_write_buffer s')"
    and "ws_client s' = ws_client s" "ws_pending s' = ws_pending s" "ws_close_queued s' = ws_close_queued s"
    "ws_frame s' = ws_frame s"
proof -
  let ?m = "if ws_client s then ws_random s 0 else None"
  let ?f = "\<lparr>wf_fin = True, wf_opcode = opcode, wf_form = (if length d \<le> 125 then 0 else if length d \<le> 65535 then 1 else 2),
      wf_mask = ?m, wf_payload = d\<rparr>"
  have m: "?m = None \<longleftrightarrow> \<not> ws_client s"
    using assms(1) by (auto simp: append_frame_def Let_def split: if_splits option.splits)
  have len: "length_code (if ws_client s then 0x80 else 0) (length d)
      = put_length (wf_form ?f) (if wf_mask ?f = None then 0 else 0x80) (length d)"
    using m by (simp add: length_code_def put_length_def)
  have bytes: "put_wire ?f = or 0x80 opcode # length_code (if ws_client s then 0x80 else 0) (length d)
      @ (case ?m of None \<Rightarrow> d | Some w \<Rightarrow> be_bytes w @ mask_from (be_bytes w) 0 d)"
    using m unfolding put_wire_def put_wire_head_def len
    by (auto simp: mask_bytes_def mask_key_def mask_from_zero split: option.splits)
  have app: "outbox s' = outbox s @ put_wire ?f"
    using assms(1,2) unfolding bytes
    by (auto simp: append_frame_def Let_def outbox_def split: if_splits option.splits)
  moreover have "wire_ok (\<not> ws_client s) ?f"
    using assms(3-5) m by (auto simp: wire_ok_def wf_control_def)
  ultimately show "\<exists>f. outbox s' = outbox s @ put_wire f \<and> wire_ok (\<not> ws_client s) f \<and> wf_fin f \<and> wf_opcode f = opcode
      \<and> wf_payload f = d"
    by (intro exI [of _ ?f]) simp
  show "ws_write_offset s' \<le> length (ws_write_buffer s')" "ws_client s' = ws_client s" "ws_pending s' = ws_pending s"
    "ws_close_queued s' = ws_close_queued s" "ws_frame s' = ws_frame s"
    using assms(1,2) by (auto simp: append_frame_def Let_def split: if_splits option.splits)
qed

lemma append_frame_writes:
  assumes app: "append_frame opcode d s = (Inr u, s')" and w: "writes_as base s gs"
    and ok: "opcode \<in> {2, 8, 9, 10}" "length d \<le> MAX_WS_FRAME_SIZE" "opcode = 2 \<or> length d \<le> 125"
  shows "\<exists>f. wf_opcode f = opcode \<and> wf_payload f = d \<and> ws_pending s' = ws_pending s
    \<and> writes_as base (if opcode = 8 then s'\<lparr>ws_close_queued := True\<rparr> else s') (gs @ [f])"
proof -
  from w have "ws_write_offset s \<le> length (ws_write_buffer s)" by (simp add: writes_as_def)
  note out = append_frame_outbox [OF app this ok]
  from out(1) obtain f where f: "outbox s' = outbox s @ put_wire f" "wire_ok (\<not> ws_client s) f" "wf_fin f"
    "wf_opcode f = opcode" "wf_payload f = d" by blast
  from w have gs: "wire_seq (\<not> ws_client s) False gs" "\<forall>g\<in>set gs. wf_fin g" by (simp_all add: writes_as_def)
  have "wire_seq (\<not> ws_client s) False (gs @ [f])"
    using wire_seq_snoc [OF gs f(2)] ok(1) f(4) by simp
  with w f out gs have "writes_as base (if opcode = 8 then s'\<lparr>ws_close_queued := True\<rparr> else s') (gs @ [f])"
    by (auto simp: writes_as_def outbox_def has_close_def control_small_def)
  with f out show ?thesis by blast
qed


section \<open>Reading writes only control frames\<close>

definition only_controls :: "bytes \<times> bool \<Rightarrow> ws_stream \<Rightarrow> wire_frame list \<Rightarrow> ws_stream \<Rightarrow> bool" where
  "only_controls base s gs s' \<longleftrightarrow>
     ws_pending s' = ws_pending s \<and> (\<exists>hs. writes_as base s' (gs @ hs) \<and> (\<forall>h\<in>set hs. wf_control h))"

lemma only_controls_same:
  "writes_as base s' gs \<Longrightarrow> ws_pending s' = ws_pending s \<Longrightarrow> only_controls base s gs s'"
  unfolding only_controls_def by (intro conjI exI [of _ "[]"]) auto

lemma only_controls_trans:
  assumes "only_controls base s gs t" and "\<And>hs. writes_as base t (gs @ hs) \<Longrightarrow> only_controls base t (gs @ hs) s'"
  shows "only_controls base s gs s'"
proof -
  from assms(1) obtain hs where hs: "writes_as base t (gs @ hs)" "\<forall>h\<in>set hs. wf_control h" "ws_pending t = ws_pending s"
    by (auto simp: only_controls_def)
  from assms(2) [OF hs(1)] obtain js where "writes_as base s' (gs @ hs @ js)" "\<forall>h\<in>set js. wf_control h"
    "ws_pending s' = ws_pending t"
    by (auto simp: only_controls_def)
  with hs(2,3) show ?thesis unfolding only_controls_def by (intro conjI exI [of _ "hs @ js"]) auto
qed

text \<open>Writing depends on nothing else.\<close>

lemma writes_as_cong:
  assumes "t_sent (ws_inner t) = t_sent (ws_inner s)" "ws_write_buffer t = ws_write_buffer s"
    "ws_write_offset t = ws_write_offset s" "ws_client t = ws_client s" "ws_close_queued t = ws_close_queued s"
    "control_small t"
  shows "writes_as base s gs \<Longrightarrow> writes_as base t gs"
  using assms by (simp add: writes_as_def outbox_def)

lemma inner_read_sent: "inner_read t = (r, t') \<Longrightarrow> t_sent t' = t_sent t"
  by (auto simp: inner_read_def split: list.splits read_answer.splits if_splits)

lemma poll_fill_input_write_side:
  assumes "poll_fill_input s = (r, s')"
  shows "t_sent (ws_inner s') = t_sent (ws_inner s)" "ws_write_buffer s' = ws_write_buffer s"
    "ws_write_offset s' = ws_write_offset s" "ws_client s' = ws_client s" "ws_close_queued s' = ws_close_queued s"
    "ws_frame s' = ws_frame s" "ws_pending s' = ws_pending s"
  using assms
  by (auto simp: poll_fill_input_def Let_def dest: inner_read_sent split: prod.splits poll.splits sum.splits if_splits)

lemma poll_fill_input_writes:
  assumes "poll_fill_input s = (r, s')" and "writes_as base s gs"
  shows "writes_as base s' gs"
proof -
  note side = poll_fill_input_write_side [OF assms(1)]
  from assms(2) have "control_small s'" using control_small_cong [OF side(6)] by (simp add: writes_as_def)
  from writes_as_cong [OF side(1-5) this assms(2)] show ?thesis .
qed

lemma header_checks:
  assumes "(if a then Inr None
     else and_then (ensure b e1) (\<lambda>_. and_then (ensure c e2) (\<lambda>_.
       if d then Inr None
       else and_then (ensure m e3) (\<lambda>_. and_then (ensure (\<not> (control \<and> large)) e4) (\<lambda>_.
         and_then r (\<lambda>fr. Inr (Some (fr, h, g)))))))) = Inr (Some (frag, header, f))"
  shows "f = g" and "\<not> (control \<and> large)"
  using assms by (auto split: if_split_asm)

lemma parse_header_small:
  assumes "parse_header client frag inp = Inr (Some (frag', header, f))"
  shows "rf_control f = None \<or> length (control_bytes f) + rf_remaining f \<le> 125"
    and "rf_opcode f \<in> {8, 9} \<longrightarrow> rf_control f \<noteq> None"
proof -
  let ?opcode = "and (inp ! 0) 0x0F"
  note f = header_checks [OF assms [unfolded parse_header_def Let_def]]
  have opc: "rf_opcode f = ?opcode" and ctl: "rf_control f = (if and ?opcode 8 \<noteq> 0 then Some [] else None)"
    unfolding f(1) by (simp_all only: ws_read_frame.select_convs)
  have "and ?opcode 8 \<noteq> 0 \<Longrightarrow> rf_remaining f \<le> 125"
    using f(2) unfolding f(1) by (simp only: ws_read_frame.select_convs) (simp only: de_Morgan_conj de_Morgan_disj not_less simp_thms)
  with ctl show "rf_control f = None \<or> length (control_bytes f) + rf_remaining f \<le> 125"
    by (simp add: control_bytes_def)
  have "?opcode \<in> {8, 9} \<Longrightarrow> and ?opcode 8 \<noteq> 0" by (elim insertE) simp_all
  with opc ctl show "rf_opcode f \<in> {8, 9} \<longrightarrow> rf_control f \<noteq> None" by simp
qed

lemma start_frame_writes:
  assumes "start_frame s = Inr (b, s')" and "writes_as base s gs"
  shows "writes_as base s' gs" "ws_pending s' = ws_pending s"
proof -
  from assms(1) have "s' = s \<or> (\<exists>frag header f. parse_header (ws_client s) (ws_fragmented s) (available_input s) = Inr (Some (frag, header, f))
      \<and> s' = s\<lparr>ws_fragmented := frag, ws_input_offset := ws_input_offset s + header, ws_frame := Some f\<rparr>)"
    by (auto simp: start_frame_def split: option.splits)
  then show "writes_as base s' gs" "ws_pending s' = ws_pending s"
    using assms(2) parse_header_small
    by (auto intro!: writes_as_cong [OF _ _ _ _ _ _ assms(2)] simp: control_small_def)
qed

lemma finish_read_frame_writes:
  assumes fin: "finish_read_frame f s = (Inr u, s')" and w: "writes_as base s gs" and f: "ws_frame s = Some f"
  shows "only_controls base s gs s'"
proof -
  let ?t = "s\<lparr>ws_frame := None\<rparr>"
  have t: "writes_as base ?t gs" by (rule writes_as_cong [OF _ _ _ _ _ _ w]) (simp_all add: control_small_def)
  have small: "length (control_bytes f) \<le> 125" if "rf_opcode f \<in> {8, 9}"
    using w f that by (auto simp: writes_as_def control_small_def)
  show ?thesis
  proof (cases "rf_opcode f \<in> {8, 9}")
    case False
    with fin t show ?thesis by (auto simp: finish_read_frame_def intro: only_controls_same)
  next
    case True
    define opc :: u8 where "opc = (if rf_opcode f = 8 then 8 else 10)"
    from fin True obtain v where app: "append_frame opc (control_bytes f) ?t = (Inr (), v)"
      and s': "s' = (if rf_opcode f = 8 then v\<lparr>ws_close_queued := True\<rparr> else v)\<lparr>ws_control_pending := True,
          ws_read_closed := (rf_opcode f = 8 \<or> ws_read_closed v)\<rparr>"
      by (auto simp: finish_read_frame_def opc_def Let_def split: prod.splits sum.splits if_splits)
    have opc: "opc \<in> {2, 8, 9, 10}" "opc = 8 \<longleftrightarrow> rf_opcode f = 8" "wf_opcode g = opc \<Longrightarrow> wf_control g" for g
      by (auto simp: opc_def wf_control_def split: if_splits)
    have "length (control_bytes f) \<le> MAX_WS_FRAME_SIZE" using small [OF True] by (simp add: MAX_WS_FRAME_SIZE_def)
    from append_frame_writes [OF app t opc(1) this] small [OF True] obtain g where g: "wf_opcode g = opc"
      "ws_pending v = ws_pending s" "writes_as base (if opc = 8 then v\<lparr>ws_close_queued := True\<rparr> else v) (gs @ [g])"
      by auto
    have "writes_as base s' (gs @ [g])"
      by (rule writes_as_cong [OF _ _ _ _ _ _ g(3)]) (use g(3) opc(2) in \<open>auto simp: s' writes_as_def control_small_def\<close>)
    with g(1,2) opc(3) show ?thesis
      unfolding only_controls_def by (intro conjI exI [of _ "[g]"]) (auto simp: s')
  qed
qed

lemma take_payload_writes:
  assumes t: "take_payload room f s = (r, s')" and w: "writes_as base s gs" and f: "ws_frame s = Some f"
  shows "writes_as base s' gs" "ws_pending s' = ws_pending s"
proof -
  define n where "n = (case rf_control f of None \<Rightarrow> min (min (rf_remaining f) (length (available_input s))) room
    | Some _ \<Rightarrow> min (rf_remaining f) (length (available_input s)))"
  define d where "d = mask_from (rf_mask f) (rf_mask_offset f) (take n (available_input s))"
  define g where "g = f\<lparr>rf_remaining := rf_remaining f - n, rf_mask_offset := (rf_mask_offset f + n) mod 4,
      rf_control := map_option (\<lambda>c. c @ d) (rf_control f)\<rparr>"
  from t have s': "s' = compact_input (s\<lparr>ws_input_offset := ws_input_offset s + n, ws_frame := Some g\<rparr>)"
    unfolding take_payload_def Let_def n_def [symmetric] d_def [symmetric] g_def [symmetric] by simp
  have n: "n \<le> rf_remaining f" by (auto simp: n_def split: option.split)
  have "length d \<le> n" by (simp add: d_def)
  with n w f have "control_small s'"
    by (cases "rf_control f") (auto simp: s' g_def writes_as_def control_small_def control_bytes_def)
  then show "writes_as base s' gs"
    by (rule writes_as_cong [OF _ _ _ _ _ _ w, rotated 5]) (simp_all add: s')
  show "ws_pending s' = ws_pending s" by (simp add: s')
qed

lemma read_payload_writes:
  assumes res: "read_payload room f s = (r, s')" and w: "writes_as base s gs" and f: "ws_frame s = Some f"
    and ok: "\<nexists>e. r = Some (Ready (Inl e))"
  shows "only_controls base s gs s'"
proof (cases "rf_remaining f = 0")
  case True
  with res ok obtain u where "finish_read_frame f s = (Inr u, s')"
    by (auto simp: read_payload_def split: prod.splits sum.splits)
  from finish_read_frame_writes [OF this w f] show ?thesis .
next
  case rem: False
  show ?thesis
  proof (cases "available_input s = []")
    case False
    with res rem have "take_payload room f s = (r, s')" by (simp add: read_payload_def)
    from take_payload_writes [OF this w f] show ?thesis by (intro only_controls_same)
  next
    case True
    obtain a t where fill: "poll_fill_input s = (a, t)" by force
    note t = poll_fill_input_writes [OF fill w] and side = poll_fill_input_write_side [OF fill]
    from res rem True fill ok have "take_payload room f t = (r, s') \<or> s' = t"
      by (auto simp: read_payload_def split: sum.splits poll.splits bool.splits)
    then show ?thesis
      using take_payload_writes [OF _ t] t f side by (auto intro!: only_controls_same)
  qed
qed

lemma read_header_writes:
  assumes res: "read_header room s = (r, s')" and w: "writes_as base s gs"
    and ok: "\<nexists>e. r = Some (Ready (Inl e))"
  shows "only_controls base s gs s'"
proof (cases "ws_frame s")
  case (Some f)
  with res have "read_payload room f s = (r, s')" by (simp add: read_header_def)
  from read_payload_writes [OF this w Some ok] show ?thesis .
next
  case None
  with res ok obtain b t where t: "start_frame s = Inr (b, t)"
    by (auto simp: read_header_def split: sum.splits)
  note w' = start_frame_writes [OF t w]
  show ?thesis
  proof (cases b)
    case True
    with t have "start_frame s = Inr (True, t)" by simp
    from start_frame_True(3) [OF this] obtain f where f: "ws_frame t = Some f" by blast
    with res None t True have "read_payload room f t = (r, s')" by (simp add: read_header_def)
    from read_payload_writes [OF this w'(1) f ok] w'(2) show ?thesis by (simp add: only_controls_def)
  next
    case False
    obtain a v where fill: "poll_fill_input t = (a, v)" by force
    note v = poll_fill_input_writes [OF fill w'(1)] and side = poll_fill_input_write_side [OF fill]
    have closed: "writes_as base (v\<lparr>ws_read_closed := True\<rparr>) gs"
      by (rule writes_as_cong [OF _ _ _ _ _ _ v]) (use v in \<open>simp_all add: writes_as_def control_small_def\<close>)
    from res None t False fill ok have "s' = v \<or> s' = v\<lparr>ws_read_closed := True\<rparr>"
      by (auto simp: read_header_def split: sum.splits poll.splits bool.splits if_splits)
    with v closed side w'(2) show ?thesis by (auto intro!: only_controls_same)
  qed
qed

lemma flush_control_writes:
  assumes "flush_control s = (r, s')" and "writes_as base s gs"
  shows "writes_as base s' gs" "ws_pending s' = ws_pending s"
proof -
  obtain a t where fl: "poll_flush_output s = (a, t)" by force
  note t = flush_writes [OF fl assms(2)] and keeps = flush_keeps [OF fl]
  from assms(1) fl have "s' = s \<or> s' = t \<or> s' = t\<lparr>ws_control_pending := False\<rparr>"
    by (auto simp: flush_control_def split: if_splits poll.splits sum.splits)
  moreover have "writes_as base (t\<lparr>ws_control_pending := False\<rparr>) gs"
    by (rule writes_as_cong [OF _ _ _ _ _ _ t]) (use t in \<open>simp_all add: writes_as_def control_small_def\<close>)
  ultimately show "writes_as base s' gs" "ws_pending s' = ws_pending s" using assms(2) t keeps by auto
qed

lemma read_step_writes:
  assumes res: "read_step room s = (r, s')" and w: "writes_as base s gs" and ok: "\<nexists>e. r = Some (Ready (Inl e))"
  shows "only_controls base s gs s'"
proof -
  obtain a t where fl: "flush_control s = (a, t)" by force
  note t = flush_control_writes [OF fl w]
  from res fl ok have "s' = t \<or> read_header room t = (r, s')"
    by (auto simp: read_step_def split: poll.splits sum.splits if_splits)
  then show ?thesis
  proof
    assume "s' = t"
    with t show ?thesis by (simp add: only_controls_same)
  next
    assume "read_header room t = (r, s')"
    from read_header_writes [OF this t(1) ok] t(2) show ?thesis by (simp add: only_controls_def)
  qed
qed

lemma read_loop_writes:
  "read_loop room s = (r, s') \<Longrightarrow> writes_as base s gs \<Longrightarrow> \<nexists>e. r = Ready (Inl e) \<Longrightarrow> only_controls base s gs s'"
proof (induction room s arbitrary: gs rule: read_loop.induct)
  case (1 room s)
  obtain res t where step: "read_step room s = (res, t)" by force
  show ?case
  proof (cases res)
    case None
    with "1.prems"(1) step have run: "read_loop room t = (r, s')" by (simp add: read_loop.simps [of room s])
    from None have "\<nexists>e. res = Some (Ready (Inl e))" by simp
    from only_controls_trans [OF read_step_writes [OF step "1.prems"(2) this] "1.IH" [OF step [symmetric] None run _ "1.prems"(3)]]
    show ?thesis .
  next
    case (Some x)
    with "1.prems"(1) step have "x = r" "t = s'" by (simp_all add: read_loop.simps [of room s])
    with Some "1.prems"(3) read_step_writes [OF step "1.prems"(2)] show ?thesis by simp
  qed
qed

lemma poll_read_writes:
  assumes "poll_read room s = (r, s')" and w: "writes_as base s gs" and "\<nexists>e. r = Ready (Inl e)"
  shows "only_controls base s gs s'"
proof (cases "ws_early_offset s < length (ws_early s)")
  case True
  with assms(1) have s': "s' = s\<lparr>ws_early_offset := ws_early_offset s + min (length (ws_early s) - ws_early_offset s) room\<rparr>"
    by (simp add: poll_read_def Let_def)
  have "writes_as base s' gs"
    by (rule writes_as_cong [OF _ _ _ _ _ _ w]) (use w in \<open>simp_all add: s' writes_as_def control_small_def\<close>)
  then show ?thesis by (rule only_controls_same) (simp add: s')
next
  case False
  with assms(1) have "read_loop room s = (r, s')" by (simp add: poll_read_def)
  from read_loop_writes [OF this w assms(3)] show ?thesis .
qed

section \<open>Runs\<close>

text \<open>
  A stream with the log of its users: what was read and written, whether the end of the data was seen, and the
  data of a write that is still pending. A call that fails ends the run.
\<close>

record ws_world =
  w_stream :: ws_stream
  w_read :: bytes
  w_eof :: bool
  w_written :: bytes
  w_retry :: "bytes option"

definition ws_open :: "ws_stream \<Rightarrow> ws_world" where
  "ws_open s = \<lparr>w_stream = s, w_read = [], w_eof = False, w_written = [], w_retry = None\<rparr>"

inductive ws_step :: "ws_world \<Rightarrow> ws_world \<Rightarrow> bool" where
  reads: "0 < room \<Longrightarrow> poll_read room (w_stream w) = (Ready (Inr bs), s) \<Longrightarrow>
    ws_step w (w\<lparr>w_stream := s, w_read := w_read w @ bs, w_eof := (w_eof w \<or> bs = [])\<rparr>)"
| read_waits: "0 < room \<Longrightarrow> poll_read room (w_stream w) = (Pending, s) \<Longrightarrow> ws_step w (w\<lparr>w_stream := s\<rparr>)"
| writes: "w_retry w \<in> {None, Some d} \<Longrightarrow> poll_write d (w_stream w) = (Ready (Inr n), s) \<Longrightarrow>
    ws_step w (w\<lparr>w_stream := s, w_written := w_written w @ take n d, w_retry := None\<rparr>)"
| write_waits: "w_retry w \<in> {None, Some d} \<Longrightarrow> poll_write d (w_stream w) = (Pending, s) \<Longrightarrow>
    ws_step w (w\<lparr>w_stream := s, w_retry := Some d\<rparr>)"
| flushes: "poll_flush inner (w_stream w) = (r, s) \<Longrightarrow> r \<in> {Pending, Ready (Inr ())} \<Longrightarrow> ws_step w (w\<lparr>w_stream := s\<rparr>)"
| shuts_down: "poll_shutdown inner (w_stream w) = (r, s) \<Longrightarrow> r \<in> {Pending, Ready (Inr ())} \<Longrightarrow>
    ws_step w (w\<lparr>w_stream := s\<rparr>)"

abbreviation ws_run :: "ws_world \<Rightarrow> ws_world \<Rightarrow> bool" where
  "ws_run \<equiv> ws_step\<^sup>*\<^sup>*"

text \<open>What was accepted, or will be once a pending write is through.\<close>

definition accepted_data :: "ws_world \<Rightarrow> bytes" where
  "accepted_data w =
     (case (ws_pending (w_stream w), w_retry w) of (Some n, Some d) \<Rightarrow> w_written w @ take n d | _ \<Rightarrow> w_written w)"

definition world_writes :: "bytes \<times> bool \<Rightarrow> ws_world \<Rightarrow> wire_frame list \<Rightarrow> bool" where
  "world_writes base w gs \<longleftrightarrow> writes_as base (w_stream w) gs \<and> frames_data gs = accepted_data w
     \<and> (ws_pending (w_stream w) \<noteq> None \<longrightarrow> w_retry w \<noteq> None \<and> w_retry w \<noteq> Some [])"

definition writes_on :: "bytes \<times> bool \<Rightarrow> ws_world \<Rightarrow> wire_frame list \<Rightarrow> ws_world \<Rightarrow> bool" where
  "writes_on base w gs w' \<longleftrightarrow> (\<exists>hs. world_writes base w' (gs @ hs))"

lemma poll_shutdown_writes:
  assumes "poll_shutdown inner s = (r, s')" and "r \<in> {Pending, Ready (Inr ())}" and w: "writes_as base s gs"
  shows "only_controls base s gs s'"
proof (cases "ws_close_queued s")
  case True
  obtain a t where fl: "poll_flush_output s = (a, t)" by force
  with assms(1) True have "s' = t" by (auto simp: poll_shutdown_def split: poll.splits sum.splits)
  with flush_writes [OF fl w] flush_keeps [OF fl] show ?thesis by (auto intro: only_controls_same)
next
  case False
  obtain b v where app: "append_frame 8 [] s = (b, v)" by force
  from assms(1,2) False app obtain u where u: "b = Inr u"
    by (auto simp: poll_shutdown_def split: sum.splits)
  let ?v = "v\<lparr>ws_close_queued := True\<rparr>"
  from append_frame_writes [OF app [unfolded u] w] obtain g where g: "wf_opcode g = 8" "writes_as base ?v (gs @ [g])"
    "ws_pending v = ws_pending s" by (auto simp: MAX_WS_FRAME_SIZE_def)
  obtain a t where fl: "poll_flush_output ?v = (a, t)" by force
  with assms(1) False app u have "s' = t" by (auto simp: poll_shutdown_def split: poll.splits sum.splits)
  with flush_writes [OF fl g(2)] flush_keeps [OF fl] g(1,3) show ?thesis
    unfolding only_controls_def by (intro conjI exI [of _ "[g]"]) (auto simp: wf_control_def)
qed

text \<open>A write puts its data into one frame, once, however often it is repeated.\<close>

lemma poll_write_writes:
  assumes run: "poll_write d s = (r, s')" and w: "writes_as base s gs" and "d \<noteq> []"
    and ok: "\<nexists>e. r = Ready (Inl e)"
  shows "\<exists>hs. writes_as base s' (gs @ hs) \<and>
    (case ws_pending s of
       Some n \<Rightarrow> hs = [] \<and> (r = Pending \<and> ws_pending s' = Some n \<or> r = Ready (Inr n) \<and> ws_pending s' = None)
     | None \<Rightarrow> (r = Pending \<and> ws_pending s' = None \<and> hs = [])
         \<or> (\<exists>n. frames_data hs = take n d \<and> (r = Pending \<and> ws_pending s' = Some n \<or> r = Ready (Inr n) \<and> ws_pending s' = None)))"
proof -
  obtain a t where fl: "poll_flush_output s = (a, t)" by force
  note t = flush_writes [OF fl w] and keeps = flush_keeps [OF fl]
  have cleared: "writes_as base (v\<lparr>ws_pending := p\<rparr>) js" if "writes_as base v js" for v p js
    by (rule writes_as_cong [OF _ _ _ _ _ _ that]) (use that in \<open>simp_all add: writes_as_def control_small_def\<close>)
  show ?thesis
  proof (cases "ws_pending s")
    case (Some n)
    with run fl ok assms(3) have "(r = Pending \<and> s' = t) \<or> (r = Ready (Inr n) \<and> s' = t\<lparr>ws_pending := None\<rparr>)"
      by (auto simp: poll_write_def split: poll.splits sum.splits)
    with t cleared [OF t] keeps Some show ?thesis by (intro exI [of _ "[]"]) auto
  next
    case None
    show ?thesis
    proof (cases a)
      case Pending
      with run fl None assms(3) have "r = Pending" "s' = t" by (simp_all add: poll_write_def)
      with t keeps None show ?thesis by (intro exI [of _ "[]"]) auto
    next
      case (Ready x)
      define n where "n = min (length d) MAX_WS_FRAME_SIZE"
      obtain b v where app: "append_frame 2 (take n d) t = (b, v)" by force
      from run fl None assms(3) ok Ready app obtain u where u: "b = Inr u" and x: "\<exists>y. x = Inr y"
        by (auto simp: poll_write_def n_def Let_def split: sum.splits)
      have "length (take n d) \<le> MAX_WS_FRAME_SIZE" by (simp add: n_def)
      from append_frame_writes [OF app [unfolded u] t _ this] obtain f where f: "wf_opcode f = 2" "wf_payload f = take n d"
        "writes_as base v (gs @ [f])" by auto
      let ?v = "v\<lparr>ws_pending := Some n\<rparr>"
      obtain c q where fl': "poll_flush_output ?v = (c, q)" by force
      note q = flush_writes [OF fl' cleared [OF f(3)]]
      from run fl None assms(3) ok Ready x app u fl'
      have "(r = Pending \<and> s' = q) \<or> (r = Ready (Inr n) \<and> s' = q\<lparr>ws_pending := None\<rparr>)"
        by (auto simp: poll_write_def n_def [symmetric] Let_def split: sum.splits poll.splits)
      moreover have "frames_data [f] = take n d" using f by (simp add: frames_data_def wf_control_def)
      ultimately show ?thesis
        using None q cleared [OF q] flush_keeps [OF fl'] by (intro exI [of _ "[f]"]) auto
    qed
  qed
qed

lemma step_writes:
  assumes "ws_step w w'" and inv: "world_writes base w gs"
  shows "writes_on base w gs w'"
proof -
  from inv have w: "writes_as base (w_stream w) gs" and d: "frames_data gs = accepted_data w"
    and p: "ws_pending (w_stream w) \<noteq> None \<Longrightarrow> w_retry w \<noteq> None \<and> w_retry w \<noteq> Some []"
    by (simp_all add: world_writes_def)
  have quiet: "writes_on base w gs (w\<lparr>w_stream := s, w_read := x, w_eof := y\<rparr>)"
    if "only_controls base (w_stream w) gs s" for s x y
  proof -
    from that obtain hs where hs: "writes_as base s (gs @ hs)" "frames_data hs = []"
      and same: "ws_pending s = ws_pending (w_stream w)"
      by (auto simp: only_controls_def frames_data_control)
    from d p hs same show ?thesis
      unfolding writes_on_def world_writes_def
      by (intro exI [of _ hs]) (auto simp: accepted_data_def split: option.splits)
  qed
  from assms(1) show ?thesis
  proof cases
    case (reads room bs s)
    then show ?thesis using poll_read_writes [OF reads(3) w] by (auto intro: quiet)
  next
    case (read_waits room s)
    from quiet [where x = "w_read w" and y = "w_eof w", OF poll_read_writes [OF read_waits(3) w]] read_waits(1) show ?thesis by simp
  next
    case (flushes inner r s)
    obtain a t where fl: "poll_flush_output (w_stream w) = (a, t)" by force
    with flushes(2) have "s = t" by (auto simp: poll_flush_def split: poll.splits sum.splits)
    with flush_writes [OF fl w] flush_keeps [OF fl] have "only_controls base (w_stream w) gs s"
      by (auto intro: only_controls_same)
    from quiet [where x = "w_read w" and y = "w_eof w", OF this] flushes(1) show ?thesis by simp
  next
    case (shuts_down inner r s)
    from quiet [where x = "w_read w" and y = "w_eof w", OF poll_shutdown_writes [OF shuts_down(2,3) w]] shuts_down(1) show ?thesis by simp
  next
    case (writes d n s)
    show ?thesis
    proof (cases "d = []")
      case True
      with writes(3) p have "s = w_stream w" "n = 0" "ws_pending (w_stream w) = None \<or> w_retry w \<noteq> Some []"
        by (auto simp: poll_write_def)
      with True writes(1,2) d p w show ?thesis
        by (auto simp: writes_on_def world_writes_def accepted_data_def intro!: exI [of _ "[]"] split: option.splits)
    next
      case False
      from poll_write_writes [OF writes(3) w False] obtain hs where hs: "writes_as base s (gs @ hs)"
        "ws_pending s = None" "case ws_pending (w_stream w) of None \<Rightarrow> frames_data hs = take n d
          | Some m \<Rightarrow> hs = [] \<and> m = n"
        by (auto split: option.splits)
      with writes(1,2) d p show ?thesis
        unfolding writes_on_def world_writes_def
        by (intro exI [of _ hs]) (auto simp: accepted_data_def split: option.splits)
    qed
  next
    case (write_waits d s)
    then have "d \<noteq> []" by (auto simp: poll_write_def)
    from poll_write_writes [OF write_waits(3) w this] obtain hs where hs: "writes_as base s (gs @ hs)"
      "case ws_pending (w_stream w) of
         None \<Rightarrow> ws_pending s = None \<and> hs = [] \<or> (\<exists>n. ws_pending s = Some n \<and> frames_data hs = take n d)
       | Some m \<Rightarrow> hs = [] \<and> ws_pending s = Some m"
      by (auto split: option.splits)
    with write_waits(1,2) d p \<open>d \<noteq> []\<close> show ?thesis
      unfolding writes_on_def world_writes_def
      by (intro exI [of _ hs]) (auto simp: accepted_data_def split: option.splits)
  qed
qed

lemma run_writes:
  "ws_run w w' \<Longrightarrow> world_writes base w gs \<Longrightarrow> \<exists>hs. world_writes base w' (gs @ hs)"
proof (induction rule: rtranclp_induct)
  case base
  then show ?case by (intro exI [of _ "[]"]) simp
next
  case (step y z)
  then obtain hs where "world_writes base y (gs @ hs)" by blast
  from step_writes [OF step(2) this] show ?case by (auto simp: writes_on_def)
qed

lemma open_writes:
  assumes "base = (t_sent t, client)"
  shows "world_writes base (ws_open (ws_new t rnd inp early client)) []"
  using assms
  by (simp add: world_writes_def writes_as_def ws_open_def ws_new_def outbox_def has_close_def control_small_def
      frames_data_def accepted_data_def)

section \<open>What is read\<close>

lemma poll_write_read_side: "poll_write d s = (r, s') \<Longrightarrow> read_side s' = read_side s"
  by (auto simp: poll_write_def Let_def read_side_def
      dest!: poll_flush_output_read_side [unfolded read_side_def] append_frame_read_side [unfolded read_side_def]
      split: if_splits option.splits poll.splits sum.splits prod.splits)

lemma poll_flush_read_side: "poll_flush inner s = (r, s') \<Longrightarrow> read_side s' = read_side s"
  by (auto simp: poll_flush_def dest!: poll_flush_output_read_side split: poll.splits sum.splits prod.splits)

lemma poll_shutdown_read_side: "poll_shutdown inner s = (r, s') \<Longrightarrow> read_side s' = read_side s"
  by (auto simp: poll_shutdown_def read_side_def
      dest!: poll_flush_output_read_side [unfolded read_side_def] append_frame_read_side [unfolded read_side_def]
      split: if_splits poll.splits sum.splits prod.splits)

definition world_reads :: "bytes \<Rightarrow> bytes \<Rightarrow> ws_world \<Rightarrow> bool" where
  "world_reads data unsent w \<longleftrightarrow>
     (\<exists>p fs. reads_as (w_stream w) p fs unsent \<and> data = w_read w @ undelivered (w_stream w) p fs
        \<and> (w_eof w \<longrightarrow> undelivered (w_stream w) p fs = []))"

lemma world_reads_same:
  assumes "world_reads data unsent w" and "read_side s = read_side (w_stream w)"
    and "w_stream w' = s" "w_read w' = w_read w" "w_eof w' = w_eof w"
  shows "world_reads data unsent w'"
  using assms read_side_same [OF assms(2)] by (simp add: world_reads_def)

lemma step_reads:
  assumes "ws_step w w'" and inv: "world_reads data unsent w"
  shows "world_reads data unsent w'"
  using assms(1)
proof cases
  case (reads room bs s)
  from inv obtain p fs where r: "reads_as (w_stream w) p fs unsent" "data = w_read w @ undelivered (w_stream w) p fs"
    "w_eof w \<longrightarrow> undelivered (w_stream w) p fs = []" by (auto simp: world_reads_def)
  from poll_read_ok [OF r(1) reads(2,3)] r(2,3) reads(1) show ?thesis
    by (auto simp: world_reads_def)
next
  case (read_waits room s)
  from inv obtain p fs where r: "reads_as (w_stream w) p fs unsent" "data = w_read w @ undelivered (w_stream w) p fs"
    "w_eof w \<longrightarrow> undelivered (w_stream w) p fs = []" by (auto simp: world_reads_def)
  from poll_read_ok [OF r(1) read_waits(2,3)] obtain p' fs' where "reads_as s p' fs' unsent"
    "undelivered s p' fs' = undelivered (w_stream w) p fs" by auto
  with r(2,3) read_waits(1) show ?thesis
    unfolding world_reads_def by (intro exI [of _ p'] exI [of _ fs']) simp
next
  case (writes d n s)
  from world_reads_same [OF inv poll_write_read_side [OF writes(3)]] writes(1) show ?thesis by simp
next
  case (write_waits d s)
  from world_reads_same [OF inv poll_write_read_side [OF write_waits(3)]] write_waits(1) show ?thesis by simp
next
  case (flushes inner r s)
  from world_reads_same [OF inv poll_flush_read_side [OF flushes(2)]] flushes(1) show ?thesis by simp
next
  case (shuts_down inner r s)
  from world_reads_same [OF inv poll_shutdown_read_side [OF shuts_down(2)]] shuts_down(1) show ?thesis by simp
qed

lemma run_reads: "ws_run w w' \<Longrightarrow> world_reads data unsent w \<Longrightarrow> world_reads data unsent w'"
  by (induction rule: rtranclp_induct) (auto intro: step_reads)

lemma open_reads:
  assumes "inp @ incoming (t_reads t) @ unsent = concat (map put_wire fs)" and "wire_seq client False fs"
    and "sees_end (t_reads t) \<Longrightarrow> unsent = []"
  shows "world_reads (early @ wire_data fs) unsent (ws_open (ws_new t rnd inp early client))"
  using assms
  by (auto simp: world_reads_def ws_open_def ws_new_def reads_as_def undelivered_def wire_def available_input_def)

section \<open>Calls that are run\<close>

text \<open>A program of calls, the transport accepting a flush or a shutdown at once; \<open>None\<close> when one fails.\<close>

datatype ws_call = CallRead nat | CallWrite bytes | CallFlush | CallShutdown

fun ws_do :: "ws_call \<Rightarrow> ws_world \<Rightarrow> ws_world option" where
  "ws_do (CallRead room) w =
     (case poll_read room (w_stream w) of
        (Ready (Inr bs), s) \<Rightarrow> if room = 0 then None
          else Some (w\<lparr>w_stream := s, w_read := w_read w @ bs, w_eof := (w_eof w \<or> bs = [])\<rparr>)
      | (Pending, s) \<Rightarrow> if room = 0 then None else Some (w\<lparr>w_stream := s\<rparr>)
      | _ \<Rightarrow> None)"
| "ws_do (CallWrite d) w =
     (if w_retry w = None \<or> w_retry w = Some d then
        (case poll_write d (w_stream w) of
           (Ready (Inr n), s) \<Rightarrow> Some (w\<lparr>w_stream := s, w_written := w_written w @ take n d, w_retry := None\<rparr>)
         | (Pending, s) \<Rightarrow> Some (w\<lparr>w_stream := s, w_retry := Some d\<rparr>)
         | _ \<Rightarrow> None)
      else None)"
| "ws_do CallFlush w =
     (case poll_flush (Ready (Inr ())) (w_stream w) of (Ready (Inl _), _) \<Rightarrow> None | (_, s) \<Rightarrow> Some (w\<lparr>w_stream := s\<rparr>))"
| "ws_do CallShutdown w =
     (case poll_shutdown (Ready (Inr ())) (w_stream w) of (Ready (Inl _), _) \<Rightarrow> None | (_, s) \<Rightarrow> Some (w\<lparr>w_stream := s\<rparr>))"

fun ws_calls :: "ws_call list \<Rightarrow> ws_world \<Rightarrow> ws_world option" where
  "ws_calls [] w = Some w"
| "ws_calls (c # cs) w = (case ws_do c w of None \<Rightarrow> None | Some w \<Rightarrow> ws_calls cs w)"

lemma ws_do_step: "ws_do c w = Some w' \<Longrightarrow> ws_step w w'"
proof (cases c)
  case (CallRead room)
  then show "ws_do c w = Some w' \<Longrightarrow> ws_step w w'"
    by (auto split: prod.splits poll.splits sum.splits if_splits intro: ws_step.reads ws_step.read_waits)
next
  case (CallWrite d)
  then show "ws_do c w = Some w' \<Longrightarrow> ws_step w w'"
    by (auto split: prod.splits poll.splits sum.splits if_splits intro: ws_step.writes ws_step.write_waits)
next
  case CallFlush
  then show "ws_do c w = Some w' \<Longrightarrow> ws_step w w'"
    by (auto split: prod.splits poll.splits sum.splits intro: ws_step.flushes)
next
  case CallShutdown
  then show "ws_do c w = Some w' \<Longrightarrow> ws_step w w'"
    by (auto split: prod.splits poll.splits sum.splits intro: ws_step.shuts_down)
qed

lemma ws_calls_run: "ws_calls cs w = Some w' \<Longrightarrow> ws_run w w'"
  by (induction cs arbitrary: w) (auto dest: ws_do_step intro: converse_rtranclp_into_rtranclp split: option.splits)

text \<open>Equations that evaluate a concrete run.\<close>

lemma eval_read_loop:
  assumes "read_step room s = (r, s')"
  shows "read_loop room s = (case r of None \<Rightarrow> read_loop room s' | Some x \<Rightarrow> (x, s'))"
  using assms by (simp add: read_loop.simps [of room s] split: option.split)

lemmas ws_eval = poll_read_def eval_read_loop read_step_def flush_control_def read_header_def start_frame_def
  parse_header_def available_input_def read_payload_def take_payload_def compact_input_def poll_fill_input_def
  inner_read_def finish_read_frame_def append_frame_def length_code_def control_bytes_def Let_def READ_CHUNK_def
  MAX_WS_FRAME_SIZE_def poll_flush_output.simps inner_write_def poll_write_def poll_flush_def poll_shutdown_def
  ws_new_def ws_open_def ensure_def and_then_def from_be_def be_nat_def

lemma be_list_eval:
  "be_list 2 v = [of_nat (v div 256 mod 256), of_nat (v mod 256)]"
  "be_list 4 v = [of_nat (v div 256 div 256 div 256 mod 256), of_nat (v div 256 div 256 mod 256),
     of_nat (v div 256 mod 256), of_nat (v mod 256)]"
proof -
  have n: "(2 :: nat) = Suc (Suc 0)" "(4 :: nat) = Suc (Suc (Suc (Suc 0)))" by simp_all
  show "be_list 2 v = [of_nat (v div 256 mod 256), of_nat (v mod 256)]"
    "be_list 4 v = [of_nat (v div 256 div 256 div 256 mod 256), of_nat (v div 256 div 256 mod 256),
       of_nat (v div 256 mod 256), of_nat (v mod 256)]"
    unfolding n by simp_all
qed

lemmas wire_eval = put_wire_def put_wire_head_def put_length_def mask_bytes_def mask_key_def wire_ok_def
  wf_control_def MAX_WS_FRAME_SIZE_def be_bytes_def be_list_eval

section \<open>Properties\<close>

text \<open>C16: The stream delivers what the peer sent. Let the peer's bytes be any sequence of legal frames, data
  fragmented or not, pings and pongs between the fragments, lengths in any of their three forms,
  ending at any point of the close handshake, and let the transport hand them over in any pieces with any
  pauses while the user reads with any buffer sizes and writes, flushes and shuts down as it likes. Then the
  bytes read are always a prefix of the early data followed by the payload of the data frames, the end of
  the stream is reported only after all of it, and a read that waits although the transport has
  nothing left, with no control frame still to be written, has nothing to wait for.
\<close>

theorem ws_delivers_in_order:
  assumes "inp @ incoming (t_reads t) @ unsent = concat (map put_wire fs)" and "wire_seq client False fs"
    and "sees_end (t_reads t) \<Longrightarrow> unsent = []"
    and run: "ws_run (ws_open (ws_new t rnd inp early client)) w"
  shows "\<exists>rest. early @ wire_data fs = w_read w @ rest \<and> (w_eof w \<longrightarrow> rest = [])
    \<and> (\<forall>room s. 0 < room \<and> unsent = [] \<and> poll_read room (w_stream w) = (Pending, s)
        \<and> incoming (t_reads (ws_inner s)) = [] \<and> \<not> ws_control_pending s \<longrightarrow> rest = [])
    \<and> (\<forall>room s e. 0 < room \<and> poll_read room (w_stream w) = (Ready (Inl e), s) \<longrightarrow> e \<in> {InnerFailed, WriteZero, NoRandom})"
proof -
  from run_reads [OF run open_reads [OF assms(1-3)]] obtain p gs where
    r: "reads_as (w_stream w) p gs unsent" "early @ wire_data fs = w_read w @ undelivered (w_stream w) p gs"
    "w_eof w \<longrightarrow> undelivered (w_stream w) p gs = []" by (auto simp: world_reads_def)
  have "undelivered (w_stream w) p gs = []"
    if "0 < room" "unsent = []" "poll_read room (w_stream w) = (Pending, s)"
      "incoming (t_reads (ws_inner s)) = []" "\<not> ws_control_pending s" for room s
    using poll_read_ok [OF r(1) that(1,3)] that by auto
  moreover have "e \<in> {InnerFailed, WriteZero, NoRandom}"
    if "0 < room" "poll_read room (w_stream w) = (Ready (Inl e), s)" for room s e
    using poll_read_ok [OF r(1) that] by simp
  ultimately show ?thesis using r(2,3) by (intro exI [of _ "undelivered (w_stream w) p gs"]) blast
qed

text \<open>
  The server end: a ping between two fragments, which arrive in pieces, behind one byte of early data.
\<close>

theorem ws_delivers_in_order_witness:
  "\<exists>w :: ws_world. w_read w = [9, 5, 6, 7] \<and> w_eof w \<and> (\<exists>rest. [9] @ [5, 6, 7] = w_read w @ rest \<and> rest = [])"
proof -
  let ?fs = "[\<lparr>wf_fin = False, wf_opcode = 2, wf_form = 0, wf_mask = Some 0x01020304, wf_payload = [5, 6]\<rparr>,
    \<lparr>wf_fin = True, wf_opcode = 9, wf_form = 0, wf_mask = Some 0, wf_payload = [1]\<rparr>,
    \<lparr>wf_fin = True, wf_opcode = 0, wf_form = 1, wf_mask = Some 0x01000000, wf_payload = [7]\<rparr>]"
  let ?t = "\<lparr>t_reads = [ReadBytes [2, 3, 4, 4], ReadPending, ReadBytes [4, 0x89, 0x81, 0, 0, 0, 0, 1, 0x80],
      ReadBytes [0xFE, 0, 1, 1, 0, 0, 0, 6], ReadBytes []], t_writes = [WriteAccepts 2, WritePending, WriteAccepts 9], t_sent = []\<rparr>"
  let ?w = "ws_open (ws_new ?t (\<lambda>_. None) [2, 0x82, 1] [9] False)"
  have arrives: "[2, 0x82, 1] @ incoming (t_reads ?t) @ [] = concat (map put_wire ?fs)"
    by (simp add: wire_eval)
  have seq: "wire_seq False False ?fs" by (simp add: wire_eval)
  have "\<exists>w. ws_calls [CallRead 4, CallRead 4, CallRead 4, CallRead 1, CallRead 4, CallRead 4, CallRead 4] ?w = Some w
      \<and> w_read w = [9, 5, 6, 7] \<and> w_eof w"
    by (simp add: ws_eval)
  then obtain w where w: "ws_calls [CallRead 4, CallRead 4, CallRead 4, CallRead 1, CallRead 4, CallRead 4, CallRead 4] ?w = Some w"
    "w_read w = [9, 5, 6, 7]" "w_eof w" by blast
  from ws_delivers_in_order [OF arrives seq _ ws_calls_run [OF w(1)]] w(2,3) show ?thesis
    by (intro exI [of _ w]) (auto simp: wf_control_def)
qed

text \<open>C19: The stream sends whole frames that carry exactly what it accepted. At every moment of every run,
  what has gone to the transport followed by what is still buffered is the bytes that were there before
  and a sequence of frames legal for the other end, masked when the client sends them; the data frames carry, in order,
  the data of the completed writes and of the write that is still pending, which repeating it does not double.
\<close>

theorem ws_writes_frames:
  assumes "ws_run (ws_open (ws_new t rnd inp early client)) w"
  shows "\<exists>gs. outbox (w_stream w) = t_sent t @ concat (map put_wire gs) \<and> wire_seq (\<not> client) False gs
    \<and> frames_data gs = accepted_data w \<and> (ws_close_queued (w_stream w) \<longleftrightarrow> has_close gs)"
proof -
  from run_writes [OF assms open_writes [OF refl]] obtain gs where
    "world_writes (t_sent t, client) w gs" by auto
  then show ?thesis by (auto simp: world_writes_def writes_as_def)
qed

theorem ws_writes_frames_witness:
  "\<exists>w. w_written w = [1] \<and> w_retry w = Some [2, 3] \<and> accepted_data w = [1, 2, 3]
     \<and> (\<exists>gs. outbox (w_stream w) = [71] @ concat (map put_wire gs) \<and> wire_seq False False gs
       \<and> frames_data gs = accepted_data w \<and> (ws_close_queued (w_stream w) \<longleftrightarrow> has_close gs))"
proof -
  let ?t = "\<lparr>t_reads = [], t_writes = [WriteAccepts 2, WriteAccepts 9, WriteAccepts 3, WritePending], t_sent = [71]\<rparr>"
  let ?w = "ws_open (ws_new ?t (\<lambda>_. Some 0x01020304) [] [] True)"
  have "\<exists>w. ws_calls [CallWrite [1], CallWrite [2, 3], CallWrite [2, 3]] ?w = Some w
      \<and> w_written w = [1] \<and> w_retry w = Some [2, 3] \<and> accepted_data w = [1, 2, 3]"
    by (simp add: ws_eval accepted_data_def)
  then obtain w where w: "ws_calls [CallWrite [1], CallWrite [2, 3], CallWrite [2, 3]] ?w = Some w"
    "w_written w = [1]" "w_retry w = Some [2, 3]" "accepted_data w = [1, 2, 3]" by blast
  from ws_writes_frames [OF ws_calls_run [OF w(1)]] w(2-4) show ?thesis by (intro exI [of _ w]) simp
qed

text \<open>The bytes one end has sent so far, as the other end meets them.\<close>

lemma pair_reads:
  assumes a: "ws_run (ws_open (ws_new ta rnda inpa earlya client)) wa"
    and sent: "t_sent ta @ inpb @ incoming (t_reads tb) @ rest = t_sent (ws_inner (w_stream wa))"
    and closed: "sees_end (t_reads tb) \<Longrightarrow> t_sent ta @ inpb @ incoming (t_reads tb) = outbox (w_stream wa)"
    and b: "ws_run (ws_open (ws_new tb rndb inpb earlyb (\<not> client))) wb"
    and gs: "outbox (w_stream wa) = t_sent ta @ concat (map put_wire gs)" "wire_seq (\<not> client) False gs"
  shows "\<exists>r. earlyb @ wire_data gs = w_read wb @ r \<and> (w_eof wb \<longrightarrow> r = [])"
proof -
  let ?unsent = "rest @ drop (ws_write_offset (w_stream wa)) (ws_write_buffer (w_stream wa))"
  have "t_sent ta @ inpb @ incoming (t_reads tb) @ ?unsent = outbox (w_stream wa)"
    using sent [symmetric] by (simp add: outbox_def)
  with gs(1) have all: "inpb @ incoming (t_reads tb) @ ?unsent = concat (map put_wire gs)" by simp
  have "?unsent = []" if "sees_end (t_reads tb)"
    using closed [OF that] all gs(1) by (metis append.right_neutral append_assoc same_append_eq)
  from run_reads [OF b open_reads [OF all gs(2) this]] show ?thesis by (auto simp: world_reads_def)
qed

text \<open>C17: Two ends that are connected deliver to each other. Whatever both users do and however the network cuts
  and delays the bytes, what one end reads is a prefix of the data the other end accepted; when the writer has sent no
  close frame, the reader sees the end of the stream only after all of it. (\<open>tb\<close> hands the reader bytes the writer has
  sent, and an end of the stream only behind all of them.)
\<close>

theorem ws_pair_delivers:
  assumes a: "ws_run (ws_open (ws_new ta rnda inpa earlya client)) wa"
    and sent: "t_sent ta @ inpb @ incoming (t_reads tb) @ rest = t_sent (ws_inner (w_stream wa))"
    and closed: "sees_end (t_reads tb) \<Longrightarrow> t_sent ta @ inpb @ incoming (t_reads tb) = outbox (w_stream wa)"
    and b: "ws_run (ws_open (ws_new tb rndb inpb earlyb (\<not> client))) wb"
  shows "\<exists>r. earlyb @ accepted_data wa = w_read wb @ r \<and> (w_eof wb \<and> \<not> ws_close_queued (w_stream wa) \<longrightarrow> r = [])"
proof -
  from run_writes [OF a open_writes [OF refl]] obtain gs where gs: "outbox (w_stream wa) = t_sent ta @ concat (map put_wire gs)"
    "wire_seq (\<not> client) False gs" "frames_data gs = accepted_data wa" "ws_close_queued (w_stream wa) \<longleftrightarrow> has_close gs"
    by (auto simp: world_writes_def writes_as_def)
  from pair_reads [OF a sent closed b gs(1,2)] obtain r where r: "earlyb @ wire_data gs = w_read wb @ r" "w_eof wb \<longrightarrow> r = []"
    by blast
  from wire_data_prefix [of gs] gs(3) obtain q where q: "accepted_data wa = wire_data gs @ q" by auto
  have "q = []" if "\<not> ws_close_queued (w_stream wa)" 
  proof -
    from that gs(4) have "wire_data gs = frames_data gs" by (simp add: wire_data_open)
    with gs(3) q show ?thesis by simp
  qed
  with r q show ?thesis by (intro exI [of _ "r @ q"]) auto
qed

theorem ws_pair_delivers_witness:
  "\<exists>(wa :: ws_world) (wb :: ws_world). accepted_data wa = [5, 6] \<and> w_read wb = [5, 6] \<and> w_eof wb \<and>
     (\<exists>r. [] @ accepted_data wa = w_read wb @ r \<and> (w_eof wb \<and> \<not> ws_close_queued (w_stream wa) \<longrightarrow> r = []))"
proof -
  let ?ta = "\<lparr>t_reads = [], t_writes = [WriteAccepts 3, WriteAccepts 9], t_sent = []\<rparr>"
  let ?a = "ws_open (ws_new ?ta (\<lambda>_. Some 0x01020304) [] [] True)"
  have "\<exists>w. ws_calls [CallWrite [5, 6]] ?a = Some w \<and> accepted_data w = [5, 6]
      \<and> outbox (w_stream w) = [0x82, 0x82, 1, 2, 3, 4, 4, 4] \<and> t_sent (ws_inner (w_stream w)) = [0x82, 0x82, 1, 2, 3, 4, 4, 4]"
    by (simp add: ws_eval accepted_data_def outbox_def be_bytes_def be_list_eval)
  then obtain wa where wa: "ws_calls [CallWrite [5, 6]] ?a = Some wa" "accepted_data wa = [5, 6]"
    "outbox (w_stream wa) = [0x82, 0x82, 1, 2, 3, 4, 4, 4]"
    "t_sent (ws_inner (w_stream wa)) = [0x82, 0x82, 1, 2, 3, 4, 4, 4]" by blast
  let ?tb = "\<lparr>t_reads = [ReadBytes [1, 2, 3], ReadBytes [4, 4, 4], ReadBytes []], t_writes = [], t_sent = []\<rparr>"
  let ?b = "ws_open (ws_new ?tb (\<lambda>_. None) [0x82, 0x82] [] (\<not> True))"
  have "\<exists>w. ws_calls [CallRead 9, CallRead 9] ?b = Some w \<and> w_read w = [5, 6] \<and> w_eof w"
    by (simp add: ws_eval)
  then obtain wb where wb: "ws_calls [CallRead 9, CallRead 9] ?b = Some wb" "w_read wb = [5, 6]" "w_eof wb" by blast
  have "t_sent ?ta @ [0x82, 0x82] @ incoming (t_reads ?tb) @ [] = t_sent (ws_inner (w_stream wa))"
    by (simp add: wa)
  from ws_pair_delivers [OF ws_calls_run [OF wa(1)] this _ ws_calls_run [OF wb(1)]]
  have "\<exists>r. [] @ accepted_data wa = w_read wb @ r \<and> (w_eof wb \<and> \<not> ws_close_queued (w_stream wa) \<longrightarrow> r = [])"
    by (simp only: wa(3)) simp
  with wa(2) wb(2,3) show ?thesis
    by (intro exI [of _ wa] exI [of _ wb] conjI) assumption+
qed

text \<open>
  The transport takes what is in the buffer and a frame with the data, and the random generator has a mask for it.
\<close>

definition takes_write :: "bytes \<Rightarrow> ws_stream \<Rightarrow> bool" where
  "takes_write d s \<longleftrightarrow>
     (\<exists>n m ws. t_writes (ws_inner s) = WriteAccepts n # WriteAccepts m # ws \<and> length (ws_write_buffer s) \<le> n
        \<and> length d + 14 \<le> n \<and> length d + 14 \<le> m)
     \<and> (ws_client s \<longrightarrow> ws_random s 0 \<noteq> None)"

lemma flush_done: "\<not> ws_write_offset s < length (ws_write_buffer s) \<Longrightarrow>
    poll_flush_output s = (Ready (Inr ()), s\<lparr>ws_write_buffer := [], ws_write_offset := 0\<rparr>)"
  by (simp add: poll_flush_output.simps [of s])

lemma flush_taken:
  assumes "t_writes (ws_inner s) = WriteAccepts n # ws" and "ws_write_offset s < length (ws_write_buffer s)"
    and "length (ws_write_buffer s) \<le> n"
  shows "poll_flush_output s = (Ready (Inr ()), s\<lparr>ws_inner := (ws_inner s)\<lparr>t_writes := ws,
    t_sent := t_sent (ws_inner s) @ drop (ws_write_offset s) (ws_write_buffer s)\<rparr>, ws_write_buffer := [], ws_write_offset := 0\<rparr>)"
  using assms by (simp add: poll_flush_output.simps [of s] inner_write_def flush_done)

lemma append_frame_fits:
  assumes "ws_write_buffer s = []" and "ws_write_offset s = 0" and "ws_client s \<longrightarrow> ws_random s 0 \<noteq> None"
  obtains out rnd where "append_frame opcode d s = (Inr (), s\<lparr>ws_write_buffer := out, ws_random := rnd\<rparr>)"
    and "out \<noteq> []" "length out \<le> length d + 14"
proof -
  have "length (length_code b n) \<le> 9" for b n by (simp add: length_code_def be_bytes_def)
  note head = this [of "if ws_client s then 0x80 else 0" "length d"]
  have mask: "length (mask_from m k d) = length d" for m k by (induction d arbitrary: k) simp_all
  show ?thesis
  proof (cases "ws_client s")
    case True
    with assms(3) obtain m where "ws_random s 0 = Some m" by auto
    with True assms(1,2) head show ?thesis
      by (intro that [where out = "or 0x80 opcode # length_code 0x80 (length d) @ be_bytes m @ mask_from (be_bytes m) 0 d"
          and rnd = "\<lambda>n. ws_random s (Suc n)"])
        (simp_all add: append_frame_def Let_def mask be_bytes_def)
  next
    case False
    with assms(1,2) head show ?thesis
      by (intro that [where out = "or 0x80 opcode # length_code 0 (length d) @ d" and rnd = "ws_random s"])
        (simp_all add: append_frame_def Let_def)
  qed
qed

lemma poll_write_taken:
  assumes idle: "ws_pending s = None" and takes: "takes_write d s" and d: "d \<noteq> []"
  shows "\<exists>s'. poll_write d s = (Ready (Inr (min (length d) MAX_WS_FRAME_SIZE)), s')"
proof -
  let ?k = "min (length d) MAX_WS_FRAME_SIZE"
  from takes obtain n m ws where t: "t_writes (ws_inner s) = WriteAccepts n # WriteAccepts m # ws"
    "length (ws_write_buffer s) \<le> n" "length d + 14 \<le> n" "length d + 14 \<le> m"
    and rnd: "ws_client s \<longrightarrow> ws_random s 0 \<noteq> None" by (auto simp: takes_write_def)
  obtain inner q qs where u: "poll_flush_output s = (Ready (Inr ()), s\<lparr>ws_inner := inner, ws_write_buffer := [], ws_write_offset := 0\<rparr>)"
    "t_writes inner = WriteAccepts q # qs" "length d + 14 \<le> q"
  proof (cases "ws_write_offset s < length (ws_write_buffer s)")
    case True
    show ?thesis by (rule that [OF flush_taken [OF t(1) True t(2)]]) (use t(4) in simp_all)
  next
    case False
    then have "poll_flush_output s = (Ready (Inr ()), s\<lparr>ws_inner := ws_inner s, ws_write_buffer := [], ws_write_offset := 0\<rparr>)"
      by (simp add: flush_done)
    from this t(1,3) show ?thesis by (rule that)
  qed
  let ?u = "s\<lparr>ws_inner := inner, ws_write_buffer := [], ws_write_offset := 0\<rparr>"
  obtain out r where a: "append_frame 2 (take ?k d) ?u = (Inr (), ?u\<lparr>ws_write_buffer := out, ws_random := r\<rparr>)"
    "out \<noteq> []" "length out \<le> length (take ?k d) + 14"
    by (rule append_frame_fits [of ?u 2 "take ?k d"]) (use rnd in simp_all)
  let ?v = "?u\<lparr>ws_write_buffer := out, ws_random := r\<rparr>\<lparr>ws_pending := Some ?k\<rparr>"
  have "t_writes (ws_inner ?v) = WriteAccepts q # qs" "ws_write_offset ?v < length (ws_write_buffer ?v)"
    "length (ws_write_buffer ?v) \<le> q" using u(2,3) a(2,3) by simp_all
  from flush_taken [OF this] obtain v where "poll_flush_output ?v = (Ready (Inr ()), v)" by blast
  with a(1) u(1) idle d show ?thesis by (simp add: poll_write_def Let_def)
qed

text \<open>C25: A half-closed stream loses data. Once an end has queued a close frame, be it its own or the answer to
  one it read, it still accepts writes: with no write under way, and a transport that takes what it is given, \<open>poll_write\<close>
  reports the data, up to the size of a frame, as written. But whatever either end does after that, the
  other end never reads any of it: what it reads is a prefix of what was accepted before the close frame was queued.
\<close>

theorem ws_half_close_discards:
  assumes one: "ws_run (ws_open (ws_new ta rnda inpa earlya client)) w1" and queued: "ws_close_queued (w_stream w1)"
    and two: "ws_run w1 w" and idle: "w_retry w = None" and takes: "takes_write d (w_stream w)" and d: "d \<noteq> []"
  shows "\<exists>s w2. poll_write d (w_stream w) = (Ready (Inr (min (length d) MAX_WS_FRAME_SIZE)), s)
    \<and> w2 = w\<lparr>w_stream := s, w_written := w_written w @ take (min (length d) MAX_WS_FRAME_SIZE) d, w_retry := None\<rparr> \<and> ws_step w w2
    \<and> (\<forall>wa wb tb rndb inpb earlyb rest. ws_run w2 wa
          \<and> t_sent ta @ inpb @ incoming (t_reads tb) @ rest = t_sent (ws_inner (w_stream wa))
          \<and> (sees_end (t_reads tb) \<longrightarrow> t_sent ta @ inpb @ incoming (t_reads tb) = outbox (w_stream wa))
          \<and> ws_run (ws_open (ws_new tb rndb inpb earlyb (\<not> client))) wb
        \<longrightarrow> (\<exists>r. earlyb @ accepted_data w1 = w_read wb @ r))"
proof -
  let ?k = "min (length d) MAX_WS_FRAME_SIZE"
  from run_writes [OF one open_writes [OF refl]] obtain gs where gs: "world_writes (t_sent ta, client) w1 gs" by auto
  from gs queued have close: "has_close gs" "frames_data gs = accepted_data w1"
    by (simp_all add: world_writes_def writes_as_def)
  from run_writes [OF two gs] obtain hs where "world_writes (t_sent ta, client) w (gs @ hs)" by blast
  with idle have pend: "ws_pending (w_stream w) = None" by (auto simp: world_writes_def)
  from poll_write_taken [OF pend takes d] obtain s where s: "poll_write d (w_stream w) = (Ready (Inr ?k), s)" by blast
  let ?w2 = "w\<lparr>w_stream := s, w_written := w_written w @ take ?k d, w_retry := None\<rparr>"
  have step: "ws_step w ?w2" using ws_step.writes [of w d ?k s] s idle by simp
  have "\<exists>r. earlyb @ accepted_data w1 = w_read wb @ r"
    if three: "ws_run ?w2 wa"
      and sent: "t_sent ta @ inpb @ incoming (t_reads tb) @ rest = t_sent (ws_inner (w_stream wa))"
      and closed: "sees_end (t_reads tb) \<longrightarrow> t_sent ta @ inpb @ incoming (t_reads tb) = outbox (w_stream wa)"
      and b: "ws_run (ws_open (ws_new tb rndb inpb earlyb (\<not> client))) wb" for wa wb tb rndb inpb earlyb rest
  proof -
    from two step three have run: "ws_run w1 wa" by (meson rtranclp.rtrancl_into_rtrancl rtranclp_trans)
    from run_writes [OF run gs] obtain hs where hs: "world_writes (t_sent ta, client) wa (gs @ hs)" by blast
    then have out: "outbox (w_stream wa) = t_sent ta @ concat (map put_wire (gs @ hs))" "wire_seq (\<not> client) False (gs @ hs)"
      by (simp_all add: world_writes_def writes_as_def)
    from one run have "ws_run (ws_open (ws_new ta rnda inpa earlya client)) wa" by (rule rtranclp_trans)
    from pair_reads [OF this sent _ b out] closed obtain r where "earlyb @ wire_data gs = w_read wb @ r"
      using close(1) by (auto simp: wire_data_append)
    moreover from wire_data_prefix [of gs] close(2) obtain q where "accepted_data w1 = wire_data gs @ q" by auto
    ultimately show ?thesis by (intro exI [of _ "r @ q"]) simp
  qed
  with s step show ?thesis by - (rule exI [of _ s], rule exI [of _ ?w2], blast)
qed

text \<open>The client has nothing more to send; the server reads that, then answers, and its answer is lost.\<close>

theorem ws_half_close_discards_witness:
  "\<exists>(w1 :: ws_world) s (w2 :: ws_world). w_eof w1 \<and> accepted_data w1 = []
    \<and> poll_write [5, 6] (w_stream w1) = (Ready (Inr 2), s) \<and> w2 = w1\<lparr>w_stream := s, w_written := [5, 6], w_retry := None\<rparr>
    \<and> (\<forall>wa wb tb rndb rest. ws_run w2 wa \<and> incoming (t_reads tb) @ rest = t_sent (ws_inner (w_stream wa))
          \<and> (sees_end (t_reads tb) \<longrightarrow> incoming (t_reads tb) = outbox (w_stream wa))
          \<and> ws_run (ws_open (ws_new tb rndb [] [] True)) wb \<longrightarrow> w_read wb = [])"
proof -
  let ?ta = "\<lparr>t_reads = [ReadBytes [0x88, 0x80, 0, 0, 0, 0]], t_writes = [WriteAccepts 9, WriteAccepts 99, WriteAccepts 99], t_sent = []\<rparr>"
  let ?a = "ws_open (ws_new ?ta (\<lambda>_. None) [] [] False)"
  have "\<exists>w1. ws_calls [CallRead 9] ?a = Some w1 \<and> w_eof w1 \<and> accepted_data w1 = [] \<and> ws_close_queued (w_stream w1)
      \<and> w_written w1 = [] \<and> w_retry w1 = None \<and> takes_write [5, 6] (w_stream w1)"
    by (simp add: ws_eval accepted_data_def takes_write_def)
  then obtain w1 where a: "ws_calls [CallRead 9] ?a = Some w1" "w_eof w1" "accepted_data w1 = []"
    "ws_close_queued (w_stream w1)" "w_written w1 = []" "w_retry w1 = None" "takes_write [5, 6] (w_stream w1)" by blast
  have n: "min (length [5, 6 :: u8]) MAX_WS_FRAME_SIZE = 2" by (simp add: MAX_WS_FRAME_SIZE_def)
  from ws_half_close_discards [OF ws_calls_run [OF a(1)] a(4) rtranclp.rtrancl_refl a(6,7), unfolded n]
  obtain s w2 where w2: "poll_write [5, 6] (w_stream w1) = (Ready (Inr 2), s)"
    "w2 = w1\<lparr>w_stream := s, w_written := w_written w1 @ take 2 [5, 6], w_retry := None\<rparr>"
    "\<forall>wa wb tb rndb inpb earlyb rest. ws_run w2 wa
          \<and> t_sent ?ta @ inpb @ incoming (t_reads tb) @ rest = t_sent (ws_inner (w_stream wa))
          \<and> (sees_end (t_reads tb) \<longrightarrow> t_sent ?ta @ inpb @ incoming (t_reads tb) = outbox (w_stream wa))
          \<and> ws_run (ws_open (ws_new tb rndb inpb earlyb (\<not> False))) wb
        \<longrightarrow> (\<exists>r. earlyb @ accepted_data w1 = w_read wb @ r)" by auto
  have "w_read wb = []" if "ws_run w2 wa" "incoming (t_reads tb) @ rest = t_sent (ws_inner (w_stream wa))"
    "sees_end (t_reads tb) \<longrightarrow> incoming (t_reads tb) = outbox (w_stream wa)"
    "ws_run (ws_open (ws_new tb rndb [] [] True)) wb" for wa wb tb rndb rest
    using w2(3) [rule_format, of wa "[]" tb rest rndb "[]" wb] that a(3) by simp
  with a(2,3,5) w2(1,2) show ?thesis by - (rule exI [of _ w1], rule exI [of _ s], rule exI [of _ w2], intro conjI, simp_all, blast)
qed

end
