(* ===== verification/Vless_Http.thy ===== *)
theory Vless_Http
  imports Vless_Ws_Run Http_Message
begin

text \<open>
  The handshake of the VLESS crate: both ends read an HTTP head from the transport in reads of at most 1024 bytes
  and check it by hand; what was read behind it belongs to the WebSocket stream. A future that waits for an
  answer the transport does not give is \<open>Pending\<close>.
\<close>

section \<open>Awaiting the transport\<close>

type_synonym ('s, 'a) async = "'s \<Rightarrow> (vless_error + 'a) poll \<times> 's"

definition ret :: "'a \<Rightarrow> ('s, 'a) async" where
  "ret x = (\<lambda>s. (Ready (Inr x), s))"

definition fails :: "vless_error \<Rightarrow> ('s, 'a) async" where
  "fails e = (\<lambda>s. (Ready (Inl e), s))"

definition await :: "('s, 'a) async \<Rightarrow> ('a \<Rightarrow> ('s, 'b) async) \<Rightarrow> ('s, 'b) async" where
  "await m f = (\<lambda>s.
     case m s of
       (Pending, s) \<Rightarrow> (Pending, s)
     | (Ready (Inl e), s) \<Rightarrow> (Ready (Inl e), s)
     | (Ready (Inr x), s) \<Rightarrow> f x s)"

definition lift_result :: "vless_error + 'a \<Rightarrow> ('s, 'a) async" where
  "lift_result r = (\<lambda>s. (Ready r, s))"

text \<open>\<open>?\<close> on an \<open>io::Error\<close>: the error is passed on as it is.\<close>

definition io_error :: "ws_error \<Rightarrow> vless_error" where
  "io_error e = VlessIo e"

text \<open>\<open>stream.read\<close> into 1024 bytes.\<close>

definition HTTP_CHUNK :: nat where "HTTP_CHUNK = 1024"
definition MAX_HTTP_HEADER_SIZE :: nat where "MAX_HTTP_HEADER_SIZE = 16 * 1024"

fun http_read_from :: "read_answer list \<Rightarrow> (vless_error + bytes) poll \<times> read_answer list" where
  "http_read_from [] = (Pending, [])"
| "http_read_from (ReadPending # rs) = http_read_from rs"
| "http_read_from (ReadFailed # rs) = (Ready (Inl (VlessIo InnerFailed)), rs)"
| "http_read_from (ReadBytes bs # rs) =
     (if bs = [] then (Ready (Inr []), ReadBytes bs # rs)
      else (Ready (Inr (take HTTP_CHUNK bs)),
            if length bs \<le> HTTP_CHUNK then rs else ReadBytes (drop HTTP_CHUNK bs) # rs))"

definition http_read :: "(transport, bytes) async" where
  "http_read = (\<lambda>t. case http_read_from (t_reads t) of (r, rs) \<Rightarrow> (r, t\<lparr>t_reads := rs\<rparr>))"

text \<open>\<open>write_all\<close> on the transport.\<close>

fun write_all_from :: "write_answer list \<Rightarrow> bytes \<Rightarrow> bytes \<Rightarrow> (vless_error + unit) poll \<times> write_answer list \<times> bytes" where
  "write_all_from ws sent [] = (Ready (Inr ()), ws, sent)"
| "write_all_from [] sent d = (Pending, [], sent)"
| "write_all_from (WritePending # ws) sent d = write_all_from ws sent d"
| "write_all_from (WriteFailed # ws) sent d = (Ready (Inl (VlessIo InnerFailed)), ws, sent)"
| "write_all_from (WriteAccepts n # ws) sent d =
     (if n = 0 then (Ready (Inl (VlessIo WriteZero)), ws, sent)
      else write_all_from ws (sent @ take n d) (drop n d))"

definition write_all :: "bytes \<Rightarrow> (transport, unit) async" where
  "write_all d = (\<lambda>t. case write_all_from (t_writes t) (t_sent t) d of
     (r, ws, sent) \<Rightarrow> (r, t\<lparr>t_writes := ws, t_sent := sent\<rparr>))"

section \<open>HTTP heads\<close>

text \<open>
  The loop of \<open>read_http_request\<close> and of \<open>read_http_response\<close>: it ends at the blank line, whose end is
  the first result, at the end of the connection, or with more than 16 KiB.
\<close>

function read_http_head :: "bytes \<Rightarrow> (transport, nat \<times> bytes) async" where
  "read_http_head data t =
     (if length data > MAX_HTTP_HEADER_SIZE then (Ready (Inl VlessHeadersTooLarge), t)
      else case http_read t of
        (Pending, t) \<Rightarrow> (Pending, t)
      | (Ready (Inl e), t) \<Rightarrow> (Ready (Inl e), t)
      | (Ready (Inr chunk), t) \<Rightarrow>
          if chunk = [] then (Ready (Inl VlessClosed), t)
          else let data = data @ chunk in
            (case find_sub (CRLF @ CRLF) data of
               Some position \<Rightarrow> (Ready (Inr (position + 4, data)), t)
             | None \<Rightarrow> read_http_head data t))"
  by pat_completeness auto
termination
  by (relation "measure (\<lambda>(data, _). Suc MAX_HTTP_HEADER_SIZE - length data)")
    (auto simp: length_greater_0_conv [symmetric] simp del: length_greater_0_conv)

declare read_http_head.simps [simp del]

definition vless_headers :: "string list \<Rightarrow> vless_error + (string \<rightharpoonup> string)" where
  "vless_headers lines = try_fold (\<lambda>m l. map_err (\<lambda>_. VlessHeaderLine) (insert_header m l)) Map.empty lines"

record vless_http_request =
  vh_method :: string
  vh_path :: string
  vh_headers :: "string \<rightharpoonup> string"
  vh_tail :: bytes

definition vh_header :: "vless_http_request \<Rightarrow> string \<Rightarrow> string option" where
  "vh_header r name = vh_headers r (to_ascii_lowercase name)"

record vless_http_response =
  vr_status :: u16
  vr_headers :: "string \<rightharpoonup> string"
  vr_tail :: bytes

definition nth_word :: "nat \<Rightarrow> string \<Rightarrow> string option" where
  "nth_word n s = (let ws = split_whitespace s in if n < length ws then Some (ws ! n) else None)"

definition request_of_head :: "nat \<times> bytes \<Rightarrow> vless_error + vless_http_request" where
  "request_of_head = (\<lambda>(header_end, data).
     and_then (from_utf8 VlessHeadersNotUtf8 (take (header_end - 4) data)) (\<lambda>header_text.
     let lines = split_crlf header_text; request_line = hd lines;
         target = (case nth_word 1 request_line of None \<Rightarrow> [] | Some t \<Rightarrow> t)
     in and_then (vless_headers (tl lines)) (\<lambda>headers.
        Inr \<lparr>vh_method = (case nth_word 0 request_line of None \<Rightarrow> [] | Some m \<Rightarrow> m),
             vh_path = hd (split_on (CHR ''?'') target), vh_headers = headers, vh_tail = drop header_end data\<rparr>)))"

definition read_http_request :: "(transport, vless_http_request) async" where
  "read_http_request = await (read_http_head []) (\<lambda>h. lift_result (request_of_head h))"

definition response_of_head :: "nat \<times> bytes \<Rightarrow> vless_error + vless_http_response" where
  "response_of_head = (\<lambda>(header_end, data).
     and_then (from_utf8 VlessHeadersNotUtf8 (take (header_end - 4) data)) (\<lambda>header_text.
     let lines = split_crlf header_text in
     and_then (ok_or VlessNoStatus (nth_word 1 (hd lines))) (\<lambda>status.
     and_then (ok_or VlessBadStatus (map_option of_nat (parse_uint 10 65535 status))) (\<lambda>status.
     and_then (vless_headers (tl lines)) (\<lambda>headers.
     Inr \<lparr>vr_status = status, vr_headers = headers, vr_tail = drop header_end data\<rparr>)))))"

definition read_http_response :: "(transport, vless_http_response) async" where
  "read_http_response = await (read_http_head []) (\<lambda>h. lift_result (response_of_head h))"

section \<open>The server's side\<close>

definition ensure_websocket_request :: "vless_http_request \<Rightarrow> vless_error + unit" where
  "ensure_websocket_request r =
     and_then (ensure (case vh_header r ''upgrade'' of None \<Rightarrow> False
         | Some v \<Rightarrow> eq_ignore_ascii_case v ''websocket'') MissingUpgrade) (\<lambda>_.
     and_then (ensure (case vh_header r ''connection'' of None \<Rightarrow> False
         | Some v \<Rightarrow> list_ex (\<lambda>token. eq_ignore_ascii_case (trim token) ''upgrade'') (split_on (CHR '','') v))
         MissingConnection) (\<lambda>_.
     ensure (case vh_header r ''sec-websocket-key'' of None \<Rightarrow> False | Some v \<Rightarrow> v \<noteq> []) MissingKey))"

definition http_error_text :: "nat \<Rightarrow> string \<Rightarrow> string" where
  "http_error_text status reason =
     ''HTTP/1.1 '' @ show_nat status @ '' '' @ reason @ crlf @ ''Content-Length: 0'' @ crlf
     @ ''Connection: close'' @ crlf @ crlf"

definition switching_text :: "string \<Rightarrow> string" where
  "switching_text accept =
     ''HTTP/1.1 101 Switching Protocols'' @ crlf @ ''Upgrade: websocket'' @ crlf @ ''Connection: Upgrade'' @ crlf
     @ ''Sec-WebSocket-Accept: '' @ accept @ crlf @ crlf"

definition early_data_of :: "string \<Rightarrow> vless_http_request \<Rightarrow> vless_error + bytes" where
  "early_data_of early_name r =
     and_then (if early_name = [] then Inr []
       else decode_base64_url (case vh_header r early_name of None \<Rightarrow> [] | Some v \<Rightarrow> v)) (\<lambda>early.
     and_then (ensure (length early \<le> MAX_WS_FRAME_SIZE) EarlyDataTooLarge) (\<lambda>_. Inr early))"

text \<open>
  \<open>handle_connection_inner\<close> up to \<open>WebSocketStream::new\<close>: the early data and the tail of the stream, or
  \<open>None\<close> when an HTTP error was sent and the connection is done with.
\<close>

definition accept_websocket :: "string \<Rightarrow> string \<Rightarrow> (transport, (bytes \<times> bytes) option) async" where
  "accept_websocket path early_name =
     await read_http_request (\<lambda>r.
     if vh_method r \<noteq> ''GET'' then
       await (write_all (as_bytes (http_error_text 405 ''Method Not Allowed''))) (\<lambda>_. ret None)
     else if vh_path r \<noteq> path then
       await (write_all (as_bytes (http_error_text 404 ''Not Found''))) (\<lambda>_. ret None)
     else
       await (lift_result (ensure_websocket_request r)) (\<lambda>_.
       await (lift_result (early_data_of early_name r)) (\<lambda>early.
       await (write_all (as_bytes (switching_text
           (websocket_accept (case vh_header r ''sec-websocket-key'' of None \<Rightarrow> [] | Some k \<Rightarrow> k))))) (\<lambda>_.
       ret (Some (vh_tail r, early))))))"

section \<open>The client's side\<close>

record vless_outbound =
  vo_server :: string
  vo_server_port :: u16
  vo_uuid :: bytes
  vo_path :: string
  vo_headers :: header_list
  vo_max_early_data :: nat
  vo_early_name :: string
  vo_server_name :: string

definition HANDSHAKE_NAMES :: "string set" where
  "HANDSHAKE_NAMES = {''host'', ''upgrade'', ''connection'', ''sec-websocket-version'', ''sec-websocket-key''}"

definition absolute_path :: "string \<Rightarrow> string" where
  "absolute_path path = (if prefix ''/'' path then path else CHR ''/'' # path)"

definition sends_early :: "vless_outbound \<Rightarrow> bytes \<Rightarrow> bool" where
  "sends_early opt request \<longleftrightarrow> vo_max_early_data opt > 0 \<and> vo_early_name opt \<noteq> [] \<and> length request \<le> vo_max_early_data opt"

text \<open>The text of the request; \<open>headers\<close> in the order the map yields them.\<close>

definition upgrade_text :: "vless_outbound \<Rightarrow> string \<Rightarrow> bytes \<Rightarrow> string" where
  "upgrade_text opt key request =
     ''GET '' @ absolute_path (vo_path opt) @ '' HTTP/1.1'' @ crlf
     @ ''Host: '' @ (if vo_server_name opt = [] then vo_server opt else vo_server_name opt) @ crlf
     @ ''Upgrade: websocket'' @ crlf @ ''Connection: Upgrade'' @ crlf @ ''Sec-WebSocket-Version: 13'' @ crlf
     @ ''Sec-WebSocket-Key: '' @ key @ crlf
     @ concat (map (\<lambda>(name, value).
         if to_ascii_lowercase name \<in> HANDSHAKE_NAMES then [] else name @ '': '' @ value @ crlf) (vo_headers opt))
     @ (if sends_early opt request then vo_early_name opt @ '': '' @ encode_base64_url request @ crlf else [])
     @ crlf"

text \<open>\<open>connect\<close> from the first write to \<open>WebSocketStream::new\<close>: the tail of the stream.\<close>

definition open_websocket :: "vless_outbound \<Rightarrow> string \<Rightarrow> bytes \<Rightarrow> (transport, bytes) async" where
  "open_websocket opt key request =
     await (write_all (as_bytes (upgrade_text opt key request))) (\<lambda>_.
     await read_http_response (\<lambda>r.
     await (lift_result (ensure (vr_status r = 101) (BadHttpStatus (vr_status r)))) (\<lambda>_.
     await (lift_result (ensure (vr_headers r ''sec-websocket-accept'' = Some (websocket_accept key)) BadAccept)) (\<lambda>_.
     ret (vr_tail r)))))"

section \<open>Options\<close>

text \<open>
  The two factories of \<open>register\<close>. The decoded options are records; certificates, Reality and the dialer are other
  crates, and \<open>reality\<close> is the answer of \<open>RealityAcceptor::new\<close>.
\<close>

record vless_outbound_options =
  voo_server :: string
  voo_server_port :: u16
  voo_uuid :: string
  voo_kind :: string
  voo_path :: string
  voo_headers :: header_list
  voo_max_early_data :: nat
  voo_early_name :: string
  voo_server_name :: string
  voo_alpn :: "string list"

definition build_vless_outbound :: "vless_outbound_options \<Rightarrow> vless_error + vless_outbound" where
  "build_vless_outbound opt =
     and_then (ensure (voo_server opt \<noteq> []) VlessOptions) (\<lambda>_.
     and_then (ensure (voo_server_port opt \<noteq> 0) VlessOptions) (\<lambda>_.
     and_then (ensure (voo_kind opt = ''ws'') VlessOptions) (\<lambda>_.
     and_then (ensure (voo_path opt \<noteq> []) VlessOptions) (\<lambda>_.
     and_then (ensure (length (voo_alpn opt) \<le> 16) VlessOptions) (\<lambda>_.
     and_then (parse_uuid (voo_uuid opt)) (\<lambda>uuid.
     Inr \<lparr>vo_server = voo_server opt, vo_server_port = voo_server_port opt, vo_uuid = uuid, vo_path = voo_path opt,
          vo_headers = voo_headers opt, vo_max_early_data = voo_max_early_data opt,
          vo_early_name = voo_early_name opt, vo_server_name = voo_server_name opt\<rparr>))))))"

record vless_inbound_options =
  vio_kind :: string
  vio_path :: string
  vio_early_name :: string
  vio_users :: "(string \<times> string) list"
  vio_listen :: string
  vio_listen_port :: u16
  vio_tls :: bool
  vio_reality :: bool

record 'r vless_inbound =
  vi_tag :: string
  vi_path :: string
  vi_early_name :: string
  vi_users :: "bytes \<rightharpoonup> string"
  vi_listen :: string
  vi_listen_port :: u16
  vi_reality :: "'r option"

definition build_vless_inbound ::
    "(unit \<Rightarrow> vless_error + 'r) \<Rightarrow> string \<Rightarrow> vless_inbound_options \<Rightarrow> vless_error + 'r vless_inbound" where
  "build_vless_inbound reality tag opt =
     and_then (ensure (vio_kind opt = ''ws'') VlessOptions) (\<lambda>_.
     and_then (ensure (vio_users opt \<noteq> []) VlessOptions) (\<lambda>_.
     and_then (ensure (vio_path opt \<noteq> []) VlessOptions) (\<lambda>_.
     and_then (if vio_tls opt
               then and_then (ensure (vio_reality opt) VlessOptions) (\<lambda>_. and_then (reality ()) (\<lambda>r. Inr (Some r)))
               else Inr None) (\<lambda>acceptor.
     and_then (vless_users (vio_users opt)) (\<lambda>users.
     Inr \<lparr>vi_tag = tag, vi_path = absolute_path (vio_path opt), vi_early_name = vio_early_name opt, vi_users = users,
          vi_listen = vio_listen opt, vi_listen_port = vio_listen_port opt, vi_reality = acceptor\<rparr>)))))"

text \<open>
  The path of a request ends at its query, so an inbound whose path holds a question mark answers every request
  with 404.
\<close>

lemma split_on_hd: "c \<notin> set (hd (split_on c s))"
  by (induction s) (auto split: list.splits)

lemma query_path_never_matches:
  assumes "CHR ''?'' \<in> set path" and "request_of_head h = Inr r"
  shows "vh_path r \<noteq> path"
proof -
  from assms(2) obtain t where "vh_path r = hd (split_on (CHR ''?'') t)"
    by (auto simp: request_of_head_def and_then_eq_Inr Let_def split: prod.splits)
  with split_on_hd assms(1) show ?thesis by metis
qed

end
