(* ===== verification/Vless_Handshake.thy ===== *)
theory Vless_Handshake
  imports Vless_Http
begin

text \<open>
  The handshake of the VLESS crate is understood by the other end, however the network cuts the bytes: the heads are read
  exactly, the early data comes back, and nothing behind a head is lost or read twice.
\<close>

section \<open>The awaited transport\<close>

text \<open>What the transport and the random generator can make fail; nothing that the code refuses is among them.\<close>

definition transport_errors :: "vless_error set" where
  "transport_errors = {VlessIo InnerFailed, VlessIo WriteZero, VlessIo NoRandom}"

lemma transport_errors_simps [simp]:
  "VlessIo InnerFailed \<in> transport_errors" "VlessIo WriteZero \<in> transport_errors" "VlessIo NoRandom \<in> transport_errors"
  by (simp_all add: transport_errors_def)

lemma http_read_from_cases:
  "http_read_from rs = (r, rs') \<Longrightarrow>
     incoming rs = (case r of Ready (Inr bs) \<Rightarrow> bs | _ \<Rightarrow> []) @ incoming rs' \<and> sees_end rs' = sees_end rs
     \<and> (r = Ready (Inr []) \<longrightarrow> sees_end rs \<and> incoming rs = []) \<and> (r = Pending \<longrightarrow> incoming rs = [] \<and> \<not> sees_end rs)
     \<and> (\<forall>e. r = Ready (Inl e) \<longrightarrow> e \<in> transport_errors)"
  by (induction rs rule: http_read_from.induct) (auto simp: HTTP_CHUNK_def split: if_splits)

lemma http_read_cases:
  assumes "http_read t = (r, t')"
  shows "incoming (t_reads t) = (case r of Ready (Inr bs) \<Rightarrow> bs | _ \<Rightarrow> []) @ incoming (t_reads t')"
    and "sees_end (t_reads t') = sees_end (t_reads t)"
    and "r = Ready (Inr []) \<Longrightarrow> sees_end (t_reads t) \<and> incoming (t_reads t) = []"
    and "r = Pending \<Longrightarrow> incoming (t_reads t) = [] \<and> \<not> sees_end (t_reads t)"
    and "r = Ready (Inl e) \<Longrightarrow> e \<in> transport_errors"
    and "t_writes t' = t_writes t" "t_sent t' = t_sent t"
proof -
  obtain a rs where a: "http_read_from (t_reads t) = (a, rs)" by force
  note c = http_read_from_cases [OF a]
  from assms a have "a = r" "t' = t\<lparr>t_reads := rs\<rparr>" by (simp_all add: http_read_def)
  with c show "incoming (t_reads t) = (case r of Ready (Inr bs) \<Rightarrow> bs | _ \<Rightarrow> []) @ incoming (t_reads t')"
    "sees_end (t_reads t') = sees_end (t_reads t)"
    "r = Ready (Inr []) \<Longrightarrow> sees_end (t_reads t) \<and> incoming (t_reads t) = []"
    "r = Pending \<Longrightarrow> incoming (t_reads t) = [] \<and> \<not> sees_end (t_reads t)"
    "r = Ready (Inl e) \<Longrightarrow> e \<in> transport_errors"
    "t_writes t' = t_writes t" "t_sent t' = t_sent t" by auto
qed

lemma write_all_from_cases:
  "write_all_from ws sent d = (r, ws', sent') \<Longrightarrow>
     (case r of Ready (Inr _) \<Rightarrow> sent' = sent @ d | Ready (Inl e) \<Rightarrow> e \<in> transport_errors | Pending \<Rightarrow> ws' = [])"
proof (induction ws sent d rule: write_all_from.induct)
  case (5 n ws sent v va)
  then show ?case by (cases "n = 0") (auto split: poll.splits sum.splits)
qed auto

lemma write_all_cases:
  assumes "write_all d t = (r, t')"
  shows "case r of Ready (Inr _) \<Rightarrow> t_sent t' = t_sent t @ d | Ready (Inl e) \<Rightarrow> e \<in> transport_errors | Pending \<Rightarrow> t_writes t' = []"
    and "t_reads t' = t_reads t"
proof -
  obtain a ws sent where a: "write_all_from (t_writes t) (t_sent t) d = (a, ws, sent)" by (metis prod_cases3)
  with assms have "r = a" "t' = t\<lparr>t_writes := ws, t_sent := sent\<rparr>" by (simp_all add: write_all_def)
  with write_all_from_cases [OF a] show
    "case r of Ready (Inr _) \<Rightarrow> t_sent t' = t_sent t @ d | Ready (Inl e) \<Rightarrow> e \<in> transport_errors | Pending \<Rightarrow> t_writes t' = []"
    "t_reads t' = t_reads t" by (simp_all split: poll.splits sum.splits)
qed

section \<open>Reading a head\<close>

abbreviation BLANK :: bytes where "BLANK \<equiv> CRLF @ CRLF"

lemma read_http_head_ok:
  assumes "read_http_head data t = (r, t')" and "data @ incoming (t_reads t) @ unsent = bs0"
    and "find_sub BLANK bs0 = Some n" and "find_sub BLANK data = None" and "n + 4 \<le> MAX_HTTP_HEADER_SIZE"
    and "sees_end (t_reads t) \<longrightarrow> unsent = []"
  shows "(case r of
      Pending \<Rightarrow> unsent \<noteq> []
    | Ready (Inl e) \<Rightarrow> e \<in> transport_errors
    | Ready (Inr (p, d)) \<Rightarrow> p = n + 4 \<and> n + 4 \<le> length d \<and> d @ incoming (t_reads t') @ unsent = bs0)
    \<and> sees_end (t_reads t') = sees_end (t_reads t) \<and> t_writes t' = t_writes t \<and> t_sent t' = t_sent t"
  using assms
proof (induction data t rule: read_http_head.induct)
  case (1 data t)
  have short: "length data < n + 4"
  proof (rule ccontr)
    assume "\<not> length data < n + 4"
    then have "n + length BLANK \<le> length data" by simp
    with "1.prems"(2,3) find_sub_shorten [of BLANK data "incoming (t_reads t) @ unsent" n]
    have "find_sub BLANK data = Some n" by simp
    with "1.prems"(4) show False by simp
  qed
  with "1.prems"(5) have size: "\<not> MAX_HTTP_HEADER_SIZE < length data" by simp
  have more: "incoming (t_reads t) @ unsent \<noteq> []"
  proof
    assume "incoming (t_reads t) @ unsent = []"
    with "1.prems"(2) have "bs0 = data" by (simp only: append_Nil2)
    with "1.prems"(3,4) show False by simp
  qed
  obtain a u where a: "http_read t = (a, u)" by force
  note c = http_read_cases [OF a]
  consider "a = Pending" | e where "a = Ready (Inl e)" | "a = Ready (Inr [])"
    | bs where "a = Ready (Inr bs)" "bs \<noteq> []" by (metis poll.exhaust sumE)
  then show ?case
  proof cases
    case 1
    with "1.prems"(1) size a have "r = Pending" "t' = u" by (simp_all add: read_http_head.simps [of data t])
    with c 1 more show ?thesis by simp
  next
    case (2 e)
    with "1.prems"(1) size a have "r = Ready (Inl e)" "t' = u" by (simp_all add: read_http_head.simps [of data t])
    with c 2 show ?thesis by simp
  next
    case 3
    with c(3) "1.prems"(6) more show ?thesis by simp
  next
    case (4 bs)
    have bs0: "(data @ bs) @ incoming (t_reads u) @ unsent = bs0" using c(1) 4 "1.prems"(2) by simp
    show ?thesis
    proof (cases "find_sub BLANK (data @ bs)")
      case None
      with "1.prems"(1) size a 4 have run: "read_http_head (data @ bs) u = (r, t')"
        by (simp add: read_http_head.simps [of data t] Let_def)
      from "1.IH" [OF size a [symmetric] 4(1) refl 4(2) refl None run bs0 "1.prems"(3) None "1.prems"(5)] c "1.prems"(6)
      show ?thesis by simp
    next
      case (Some i)
      from find_sub_extend [OF Some] bs0 "1.prems"(3) have i: "i = n" by (metis option.inject)
      from find_sub_Some [OF Some] i have "n + 4 \<le> length (data @ bs)" by simp
      moreover from "1.prems"(1) size a 4 Some i have "r = Ready (Inr (n + 4, data @ bs))" "t' = u"
        by (simp_all add: read_http_head.simps [of data t] Let_def)
      ultimately show ?thesis using bs0 c by simp
    qed
  qed
qed

section \<open>Heads that are well formed\<close>

definition put_http :: "string \<Rightarrow> header_list \<Rightarrow> string" where
  "put_http line hs = join_sep crlf (line # map header_line hs) @ crlf @ crlf"

definition http_wf :: "string \<Rightarrow> header_list \<Rightarrow> bool" where
  "http_wf line hs \<longleftrightarrow> line \<noteq> [] \<and> line_text line \<and> list_all header_wf hs
     \<and> length (put_http line hs) \<le> MAX_HTTP_HEADER_SIZE"

lemma line_text_append: "line_text a \<Longrightarrow> line_text b \<Longrightarrow> line_text (a @ b)"
  by (auto simp: line_text_def is_str_append)

lemma header_line_text: "header_wf h \<Longrightarrow> line_text (header_line h) \<and> header_line h \<noteq> []"
proof -
  have "line_text '': ''" by (auto simp: line_text_def intro: is_ascii_is_str)
  then show "header_wf h \<Longrightarrow> line_text (header_line h) \<and> header_line h \<noteq> []"
    using line_text_append [of "fst h" "'': '' @ snd h"] line_text_append [of "'': ''" "snd h"]
    by (simp add: header_wf_def header_line_def case_prod_unfold)
qed

lemma http_lines_text: "http_wf line hs \<Longrightarrow> l \<in> set (line # map header_line hs) \<Longrightarrow> line_text l \<and> l \<noteq> []"
  using header_line_text by (auto simp: http_wf_def list_all_iff)

lemma put_http_found:
  assumes "http_wf line hs"
  shows "find_sub BLANK (as_bytes (put_http line hs) @ rest) = Some (length (put_http line hs) - 4)"
proof -
  have "\<forall>l \<in> set (line # map header_line hs). l \<noteq> [] \<and> CHR 0x0D \<notin> set l"
    using http_lines_text [OF assms] by (auto simp: line_text_def)
  from find_blank_line [OF _ this] show ?thesis
    by (simp add: put_http_def CRLF_as_bytes)
qed

lemma put_http_long: "4 \<le> length (put_http line hs)"
  by (simp add: put_http_def)

lemma put_http_lines:
  assumes "http_wf line hs"
  shows "from_utf8 e (take (length (put_http line hs) - 4) (as_bytes (put_http line hs))) = Inr (join_sep crlf (line # map header_line hs))"
    and "split_crlf (join_sep crlf (line # map header_line hs)) = line # map header_line hs"
proof -
  let ?ls = "line # map header_line hs"
  have t: "\<forall>l \<in> set ?ls. line_text l" using http_lines_text [OF assms] by blast
  have "take (length (put_http line hs) - 4) (as_bytes (put_http line hs)) = as_bytes (join_sep crlf ?ls)"
    by (simp add: put_http_def)
  moreover have "is_str (join_sep crlf ?ls)" using t by (intro join_crlf_is_str) (auto simp: line_text_def)
  ultimately show "from_utf8 e (take (length (put_http line hs) - 4) (as_bytes (put_http line hs))) = Inr (join_sep crlf ?ls)"
    by (simp del: join_sep.simps)
  show "split_crlf (join_sep crlf ?ls) = ?ls" using t by (intro split_crlf_join) (auto simp: line_text_def)
qed

lemma vless_headers_put: "list_all header_wf hs \<Longrightarrow> vless_headers (map header_line hs) = Inr (header_map hs)"
proof -
  have "list_all header_wf hs \<Longrightarrow> try_fold (\<lambda>m l. map_err (\<lambda>_. VlessHeaderLine) (insert_header m l)) m (map header_line hs)
      = Inr (foldl (\<lambda>m (name, value). m(to_ascii_lowercase name \<mapsto> value)) m hs)" for m
    by (induction hs arbitrary: m) (simp_all add: insert_header_line case_prod_unfold)
  then show "list_all header_wf hs \<Longrightarrow> vless_headers (map header_line hs) = Inr (header_map hs)"
    by (simp add: vless_headers_def header_map_def)
qed

lemma append_past: "d @ xs = h @ rest \<Longrightarrow> length h \<le> length d \<Longrightarrow> \<exists>tail. d = h @ tail \<and> tail @ xs = rest"
  by (induction h arbitrary: d) (simp, case_tac d, auto)

text \<open>A head in the transport is read whole, up to what the transport does.\<close>

lemma read_put_http:
  assumes wf: "http_wf line hs" and sent: "incoming (t_reads t) @ unsent = as_bytes (put_http line hs) @ rest"
    and fin: "sees_end (t_reads t) \<longrightarrow> unsent = []" and run: "read_http_head [] t = (r, t')"
  shows "(case r of
      Pending \<Rightarrow> unsent \<noteq> []
    | Ready (Inl e) \<Rightarrow> e \<in> transport_errors
    | Ready (Inr (p, d)) \<Rightarrow> \<exists>tail. p = length (put_http line hs) \<and> d = as_bytes (put_http line hs) @ tail
        \<and> tail @ incoming (t_reads t') @ unsent = rest)
    \<and> sees_end (t_reads t') = sees_end (t_reads t) \<and> t_writes t' = t_writes t \<and> t_sent t' = t_sent t"
proof -
  let ?n = "length (put_http line hs) - 4"
  have n: "?n + 4 = length (put_http line hs)" using put_http_long [of line hs] by simp
  have "find_sub BLANK [] = None" by simp
  from read_http_head_ok [OF run _ put_http_found [OF wf] this _ fin] sent wf
  have ok: "(case r of
      Pending \<Rightarrow> unsent \<noteq> []
    | Ready (Inl e) \<Rightarrow> e \<in> transport_errors
    | Ready (Inr (p, d)) \<Rightarrow> p = ?n + 4 \<and> ?n + 4 \<le> length d \<and> d @ incoming (t_reads t') @ unsent = as_bytes (put_http line hs) @ rest)
    \<and> sees_end (t_reads t') = sees_end (t_reads t) \<and> t_writes t' = t_writes t \<and> t_sent t' = t_sent t"
    unfolding n by (simp add: http_wf_def)
  have "\<exists>tail. d = as_bytes (put_http line hs) @ tail \<and> tail @ incoming (t_reads t') @ unsent = rest"
    if "length (put_http line hs) \<le> length d" "d @ incoming (t_reads t') @ unsent = as_bytes (put_http line hs) @ rest" for d
  proof -
    from append_past [OF that(2)] that(1) show ?thesis by simp
  qed
  with ok show ?thesis unfolding n by (auto split: poll.splits sum.splits)
qed

lemma words_of_line:
  assumes "a \<noteq> []" "\<forall>c \<in> set a. graphic c" "b \<noteq> []" "\<forall>c \<in> set b. graphic c"
  shows "nth_word 0 (a @ '' '' @ b @ '' '' @ rest) = Some a" "nth_word 1 (a @ '' '' @ b @ '' '' @ rest) = Some b"
  using split_whitespace_word [OF assms(1,2), of "b @ '' '' @ rest"] split_whitespace_word [OF assms(3,4), of rest]
  by (simp_all add: nth_word_def Let_def)

lemma request_of_put:
  assumes wf: "http_wf (''GET '' @ target @ '' HTTP/1.1'') hs" and target: "target \<noteq> []" "\<forall>c \<in> set target. graphic c"
  shows "request_of_head (length (put_http (''GET '' @ target @ '' HTTP/1.1'') hs),
      as_bytes (put_http (''GET '' @ target @ '' HTTP/1.1'') hs) @ tail)
    = Inr \<lparr>vh_method = ''GET'', vh_path = hd (split_on (CHR ''?'') target), vh_headers = header_map hs, vh_tail = tail\<rparr>"
proof -
  let ?line = "''GET '' @ target @ '' HTTP/1.1''"
  have "nth_word 0 ?line = Some ''GET''" "nth_word 1 ?line = Some target"
    using words_of_line [of "''GET''" target "''HTTP/1.1''"] target by (simp_all add: graphic_def)
  with wf show ?thesis
    by (simp add: request_of_head_def put_http_lines [OF wf] Let_def vless_headers_put http_wf_def
        del: join_sep.simps append_Cons)
qed

lemma response_of_put:
  assumes wf: "http_wf (''HTTP/1.1 '' @ show_nat status @ '' '' @ reason) hs" and status: "status \<le> 65535"
  shows "response_of_head (length (put_http (''HTTP/1.1 '' @ show_nat status @ '' '' @ reason) hs),
      as_bytes (put_http (''HTTP/1.1 '' @ show_nat status @ '' '' @ reason) hs) @ tail)
    = Inr \<lparr>vr_status = of_nat status, vr_headers = header_map hs, vr_tail = tail\<rparr>"
proof -
  let ?line = "''HTTP/1.1 '' @ show_nat status @ '' '' @ reason"
  have "nth_word 1 ?line = Some (show_nat status)"
    using words_of_line [of "''HTTP/1.1''" "show_nat status" reason] show_nat_graphic [of status] by (simp add: graphic_def)
  with wf status show ?thesis
    by (simp add: response_of_head_def put_http_lines [OF wf] Let_def vless_headers_put http_wf_def
        del: join_sep.simps append_Cons)
qed

section \<open>The server understands a request for a WebSocket\<close>

text \<open>What the header lines of a request must say, and the early data they carry.\<close>

definition asks_websocket :: "header_list \<Rightarrow> string \<Rightarrow> string \<Rightarrow> bytes \<Rightarrow> bool" where
  "asks_websocket hs early_name key early \<longleftrightarrow>
     (\<exists>u. header_map hs ''upgrade'' = Some u \<and> eq_ignore_ascii_case u ''websocket'')
     \<and> (\<exists>c. header_map hs ''connection'' = Some c
          \<and> list_ex (\<lambda>token. eq_ignore_ascii_case (trim token) ''upgrade'') (split_on (CHR '','') c))
     \<and> header_map hs ''sec-websocket-key'' = Some key \<and> key \<noteq> []
     \<and> (if early_name = [] then early = []
        else decode_base64_url (case header_map hs (to_ascii_lowercase early_name) of None \<Rightarrow> [] | Some v \<Rightarrow> v) = Inr early)
     \<and> length early \<le> MAX_WS_FRAME_SIZE"

lemma lowercase_names:
  "to_ascii_lowercase ''upgrade'' = ''upgrade''" "to_ascii_lowercase ''connection'' = ''connection''"
  "to_ascii_lowercase ''sec-websocket-key'' = ''sec-websocket-key''"
  by (simp_all add: to_ascii_lowercase_def ascii_lower_def)

lemma accept_websocket_put:
  assumes wf: "http_wf (''GET '' @ target @ '' HTTP/1.1'') hs" and target: "target \<noteq> []" "\<forall>c \<in> set target. graphic c"
    and path: "hd (split_on (CHR ''?'') target) = path" and asks: "asks_websocket hs early_name key early"
    and sent: "incoming (t_reads t) @ unsent = as_bytes (put_http (''GET '' @ target @ '' HTTP/1.1'') hs) @ rest"
    and fin: "sees_end (t_reads t) \<longrightarrow> unsent = []" and run: "accept_websocket path early_name t = (r, t')"
  shows "case r of
      Pending \<Rightarrow> unsent \<noteq> [] \<or> t_writes t' = []
    | Ready (Inl e) \<Rightarrow> e \<in> transport_errors
    | Ready (Inr None) \<Rightarrow> False
    | Ready (Inr (Some (tail, e))) \<Rightarrow> e = early \<and> tail @ incoming (t_reads t') @ unsent = rest
        \<and> sees_end (t_reads t') = sees_end (t_reads t)
        \<and> t_sent t' = t_sent t @ as_bytes (switching_text (websocket_accept key))"
proof -
  obtain a u where a: "read_http_head [] t = (a, u)" by force
  note h = read_put_http [OF wf sent fin a]
  consider "a = Pending" | e where "a = Ready (Inl e)" | p d where "a = Ready (Inr (p, d))"
    by (metis poll.exhaust sumE surj_pair)
  then show ?thesis
  proof cases
    case 1
    with run a have "r = Pending" by (simp add: accept_websocket_def read_http_request_def await_def)
    with h 1 show ?thesis by simp
  next
    case (2 e)
    with run a have "r = Ready (Inl e)" by (simp add: accept_websocket_def read_http_request_def await_def)
    with h 2 show ?thesis by simp
  next
    case (3 p d)
    with h obtain tail where d: "p = length (put_http (''GET '' @ target @ '' HTTP/1.1'') hs)"
      "d = as_bytes (put_http (''GET '' @ target @ '' HTTP/1.1'') hs) @ tail" "tail @ incoming (t_reads u) @ unsent = rest"
      by auto
    let ?r = "\<lparr>vh_method = ''GET'', vh_path = path, vh_headers = header_map hs, vh_tail = tail\<rparr>"
    have req: "read_http_request t = (Ready (Inr ?r), u)"
      using a 3 request_of_put [OF wf target] path d(1,2) by (simp add: read_http_request_def await_def lift_result_def)
    from asks have ok: "ensure_websocket_request ?r = Inr ()" "early_data_of early_name ?r = Inr early"
      "vh_header ?r ''sec-websocket-key'' = Some key"
      by (auto simp: asks_websocket_def ensure_websocket_request_def early_data_of_def vh_header_def lowercase_names
          split: if_splits)
    obtain b v where b: "write_all (as_bytes (switching_text (websocket_accept key))) u = (b, v)" by force
    note w = write_all_cases [OF b]
    from run req ok b have "r = (case b of Pending \<Rightarrow> Pending | Ready (Inl e) \<Rightarrow> Ready (Inl e)
        | Ready (Inr _) \<Rightarrow> Ready (Inr (Some (tail, early))))" "t' = v"
      by (auto simp: accept_websocket_def await_def lift_result_def ret_def split: poll.splits sum.splits)
    with w h d(3) show ?thesis by (auto split: poll.splits sum.splits)
  qed
qed

section \<open>The client understands the answer\<close>

lemma open_websocket_put:
  assumes wf: "http_wf (''HTTP/1.1 '' @ show_nat 101 @ '' '' @ reason) hs"
    and answer: "header_map hs ''sec-websocket-accept'' = Some (websocket_accept key)"
    and sent: "incoming (t_reads t) @ unsent = as_bytes (put_http (''HTTP/1.1 '' @ show_nat 101 @ '' '' @ reason) hs) @ rest"
    and fin: "sees_end (t_reads t) \<longrightarrow> unsent = []" and run: "open_websocket opt key request t = (r, t')"
  shows "case r of
      Pending \<Rightarrow> unsent \<noteq> [] \<or> t_writes t' = []
    | Ready (Inl e) \<Rightarrow> e \<in> transport_errors
    | Ready (Inr tail) \<Rightarrow> tail @ incoming (t_reads t') @ unsent = rest \<and> sees_end (t_reads t') = sees_end (t_reads t)
        \<and> t_sent t' = t_sent t @ as_bytes (upgrade_text opt key request)"
proof -
  obtain b v where b: "write_all (as_bytes (upgrade_text opt key request)) t = (b, v)" by force
  note w = write_all_cases [OF b]
  consider "b = Pending" | e where "b = Ready (Inl e)" | "b = Ready (Inr ())"
    by (metis poll.exhaust sumE old.unit.exhaust)
  then show ?thesis
  proof cases
    case 1
    with run b have "r = Pending" "t' = v" by (simp_all add: open_websocket_def await_def)
    with w 1 show ?thesis by simp
  next
    case (2 e)
    with run b have "r = Ready (Inl e)" by (simp add: open_websocket_def await_def)
    with w 2 show ?thesis by simp
  next
    case 3
    from w sent fin have v: "incoming (t_reads v) @ unsent = as_bytes (put_http (''HTTP/1.1 '' @ show_nat 101 @ '' '' @ reason) hs) @ rest"
      "sees_end (t_reads v) \<longrightarrow> unsent = []" by simp_all
    obtain a u where a: "read_http_head [] v = (a, u)" by force
    note h = read_put_http [OF wf v a]
    from run b 3 have run': "await read_http_response (\<lambda>r.
        await (lift_result (ensure (vr_status r = 101) (BadHttpStatus (vr_status r)))) (\<lambda>_.
        await (lift_result (ensure (vr_headers r ''sec-websocket-accept'' = Some (websocket_accept key)) BadAccept)) (\<lambda>_.
        ret (vr_tail r)))) v = (r, t')"
      by (simp add: open_websocket_def await_def)
    consider "a = Pending" | e where "a = Ready (Inl e)" | p d where "a = Ready (Inr (p, d))"
      by (metis poll.exhaust sumE surj_pair)
    then show ?thesis
    proof cases
      case 1
      with run' a have "r = Pending" by (simp add: read_http_response_def await_def)
      with h 1 show ?thesis by simp
    next
      case (2 e)
      with run' a have "r = Ready (Inl e)" by (simp add: read_http_response_def await_def)
      with h 2 show ?thesis by simp
    next
      case (3 p d)
      with h obtain tail where d: "p = length (put_http (''HTTP/1.1 '' @ show_nat 101 @ '' '' @ reason) hs)"
        "d = as_bytes (put_http (''HTTP/1.1 '' @ show_nat 101 @ '' '' @ reason) hs) @ tail" "tail @ incoming (t_reads u) @ unsent = rest"
        by auto
      have "read_http_response v = (Ready (Inr \<lparr>vr_status = 101, vr_headers = header_map hs, vr_tail = tail\<rparr>), u)"
        using a 3 response_of_put [OF wf] d(1,2) by (simp add: read_http_response_def await_def lift_result_def)
      with run' answer have "r = Ready (Inr tail)" "t' = u" by (simp_all add: await_def lift_result_def ret_def)
      with d(3) h w b \<open>b = Ready (Inr ())\<close> show ?thesis by simp
    qed
  qed
qed

section \<open>The two ends speak to each other\<close>

lemma header_map_of: "header_map hs = map_of (rev (map (\<lambda>(n, v). (to_ascii_lowercase n, v)) hs))"
proof -
  have "foldl (\<lambda>m (n, v). m(to_ascii_lowercase n \<mapsto> v)) m hs
      = m ++ map_of (rev (map (\<lambda>(n, v). (to_ascii_lowercase n, v)) hs))" for m
  proof (induction hs arbitrary: m)
    case (Cons h hs)
    obtain n v where h: "h = (n, v)" by force
    have "foldl (\<lambda>m (n, v). m(to_ascii_lowercase n \<mapsto> v)) m (h # hs)
        = foldl (\<lambda>m (n, v). m(to_ascii_lowercase n \<mapsto> v)) (m(to_ascii_lowercase n \<mapsto> v)) hs"
      by (simp add: h)
    also have "\<dots> = m(to_ascii_lowercase n \<mapsto> v) ++ map_of (rev (map (\<lambda>(n, v). (to_ascii_lowercase n, v)) hs))"
      by (rule Cons.IH)
    finally have "foldl (\<lambda>m (n, v). m(to_ascii_lowercase n \<mapsto> v)) m (h # hs)
        = m(to_ascii_lowercase n \<mapsto> v) ++ map_of (rev (map (\<lambda>(n, v). (to_ascii_lowercase n, v)) hs))" .
    moreover have "m(k \<mapsto> v) ++ map_of xs = m ++ map_of (xs @ [(k, v)])" for k xs
      by (rule ext) (simp add: map_add_def split: option.split)
    ultimately show ?case by (simp only: h list.map rev.simps prod.case)
  qed simp
  then show ?thesis by (simp add: header_map_def)
qed

lemma header_map_append: "header_map (as @ bs) k = (case header_map bs k of None \<Rightarrow> header_map as k | Some v \<Rightarrow> Some v)"
  unfolding header_map_of by (simp add: map_add_def)

lemma header_map_absent: "\<forall>(n, v) \<in> set hs. to_ascii_lowercase n \<noteq> k \<Longrightarrow> header_map hs k = None"
  by (force simp: header_map_of map_of_eq_None_iff)

lemma base64_digit_graphic: "v < 64 \<Longrightarrow> graphic (base64_digit v) \<and> graphic (url_char v)"
proof -
  have table: "list_all graphic BASE64_TABLE" "length BASE64_TABLE = 64" "graphic (CHR ''-'')" "graphic (CHR ''_'')"
    by (simp_all add: BASE64_TABLE_def graphic_def)
  assume "v < 64"
  then have "unat v < length BASE64_TABLE" by (simp add: word_less_nat_alt table)
  then have "base64_digit v \<in> set BASE64_TABLE" unfolding base64_digit_def by (rule nth_mem)
  with table show ?thesis by (simp add: list_all_iff url_char_def)
qed

lemma base64_graphic:
  "\<forall>c \<in> set (encode_base64 bs). graphic c" "\<forall>c \<in> set (encode_base64_url bs). graphic c"
proof -
  have d: "graphic (base64_digit v) \<and> graphic (url_char v)" if "v \<in> set (sextets bs)" for v
    using base64_digit_graphic [OF sextets_less [OF that]] .
  obtain n where n: "encode_base64 bs = map base64_digit (sextets bs) @ replicate n (CHR ''='')"
    using encode_base64_sextets by blast
  have "graphic (CHR ''='')" by (simp add: graphic_def)
  with d show "\<forall>c \<in> set (encode_base64 bs). graphic c" unfolding n by auto
  show "\<forall>c \<in> set (encode_base64_url bs). graphic c" using d by (auto simp: encode_base64_url_sextets)
qed

lemma graphic_line_text: "\<forall>c \<in> set s. graphic c \<Longrightarrow> line_text s \<and> trim s = s"
proof -
  assume g: "\<forall>c \<in> set s. graphic c"
  then have "is_str s" by (intro is_ascii_is_str is_ascii_graphic)
  moreover have "\<not> graphic (CHR 0x0D)" by (simp add: graphic_def)
  with g have "CHR 0x0D \<notin> set s" by blast
  ultimately show ?thesis using trim_graphic [OF g] by (simp add: line_text_def)
qed

lemma graphic_header_wf:
  "\<forall>c \<in> set n. graphic c \<and> c \<noteq> CHR '':'' \<Longrightarrow> \<forall>c \<in> set v. graphic c \<Longrightarrow> header_wf (n, v)"
  using graphic_line_text [of n] graphic_line_text [of v] by (auto simp: header_wf_def)

definition switching_headers :: "string \<Rightarrow> header_list" where
  "switching_headers accept = [(''Upgrade'', ''websocket''), (''Connection'', ''Upgrade''), (''Sec-WebSocket-Accept'', accept)]"

lemma switching_text_put:
  "switching_text accept = put_http (''HTTP/1.1 '' @ show_nat 101 @ '' '' @ ''Switching Protocols'') (switching_headers accept)"
proof -
  have "show_nat 101 = ''101''" by code_simp
  then show ?thesis by (simp add: switching_text_def put_http_def switching_headers_def header_line_def)
qed

lemma switching_answers:
  "header_map (switching_headers accept) ''sec-websocket-accept'' = Some accept"
proof -
  have "to_ascii_lowercase ''Sec-WebSocket-Accept'' = ''sec-websocket-accept''" by code_simp
  then show ?thesis by (simp add: switching_headers_def header_map_def)
qed

text \<open>The header lines of the client, and what its configuration has to be for the server to understand them.\<close>

definition upgrade_headers :: "vless_outbound \<Rightarrow> string \<Rightarrow> bytes \<Rightarrow> header_list" where
  "upgrade_headers opt key request =
     [(''Host'', if vo_server_name opt = [] then vo_server opt else vo_server_name opt), (''Upgrade'', ''websocket''),
      (''Connection'', ''Upgrade''), (''Sec-WebSocket-Version'', ''13''), (''Sec-WebSocket-Key'', key)]
     @ filter (\<lambda>(n, v). to_ascii_lowercase n \<notin> HANDSHAKE_NAMES) (vo_headers opt)
     @ (if sends_early opt request then [(vo_early_name opt, encode_base64_url request)] else [])"

definition upgrade_line :: "vless_outbound \<Rightarrow> string" where
  "upgrade_line opt = ''GET '' @ absolute_path (vo_path opt) @ '' HTTP/1.1''"

lemma upgrade_text_put: "upgrade_text opt key request = put_http (upgrade_line opt) (upgrade_headers opt key request)"
proof -
  have line: "header_line h @ crlf = (case h of (n, v) \<Rightarrow> n @ '': '' @ v @ crlf)" for h
    by (simp add: header_line_def case_prod_unfold)
  have join: "join_sep crlf (l # map header_line hs) @ crlf @ crlf = l @ crlf @ concat (map (\<lambda>h. header_line h @ crlf) hs) @ crlf"
    for l hs
    by (induction hs arbitrary: l) (simp_all add: join_sep_Cons)
  have custom: "concat (map (\<lambda>(name, value). if to_ascii_lowercase name \<in> HANDSHAKE_NAMES then [] else name @ '': '' @ value @ crlf) hs)
      = concat (map (\<lambda>h. header_line h @ crlf) (filter (\<lambda>(n, v). to_ascii_lowercase n \<notin> HANDSHAKE_NAMES) hs))" for hs
    by (induction hs) (auto simp: line)
  show ?thesis
    unfolding put_http_def join upgrade_text_def upgrade_headers_def upgrade_line_def custom
    by (simp add: line)
qed

definition client_agrees :: "vless_outbound \<Rightarrow> string \<Rightarrow> string \<Rightarrow> string \<Rightarrow> bytes \<Rightarrow> bool" where
  "client_agrees opt path early_name key request \<longleftrightarrow>
     http_wf (upgrade_line opt) (upgrade_headers opt key request) \<and> key \<noteq> []
     \<and> absolute_path (vo_path opt) = path \<and> (\<forall>c \<in> set path. graphic c \<and> c \<noteq> CHR ''?'')
     \<and> (if sends_early opt request
        then early_name = vo_early_name opt \<and> to_ascii_lowercase early_name \<notin> HANDSHAKE_NAMES
        else early_name = [] \<or> header_map (upgrade_headers opt key request) (to_ascii_lowercase early_name) = None)
     \<and> length request \<le> MAX_WS_FRAME_SIZE"

lemma upgrade_names:
  "to_ascii_lowercase ''Host'' = ''host''" "to_ascii_lowercase ''Upgrade'' = ''upgrade''"
  "to_ascii_lowercase ''Connection'' = ''connection''" "to_ascii_lowercase ''Sec-WebSocket-Version'' = ''sec-websocket-version''"
  "to_ascii_lowercase ''Sec-WebSocket-Key'' = ''sec-websocket-key''"
  by code_simp+

lemma upgrade_headers_handshake:
  assumes "sends_early opt request \<Longrightarrow> to_ascii_lowercase (vo_early_name opt) \<notin> HANDSHAKE_NAMES" and "k \<in> HANDSHAKE_NAMES"
  shows "header_map (upgrade_headers opt key request) k
    = header_map [(''Host'', if vo_server_name opt = [] then vo_server opt else vo_server_name opt), (''Upgrade'', ''websocket''),
      (''Connection'', ''Upgrade''), (''Sec-WebSocket-Version'', ''13''), (''Sec-WebSocket-Key'', key)] k"
proof -
  have "header_map (filter (\<lambda>(n, v). to_ascii_lowercase n \<notin> HANDSHAKE_NAMES) (vo_headers opt)
      @ (if sends_early opt request then [(vo_early_name opt, encode_base64_url request)] else [])) k = None"
    using assms by (intro header_map_absent) auto
  then show ?thesis unfolding upgrade_headers_def by (simp only: header_map_append option.case)
qed

lemma client_asks:
  assumes "client_agrees opt path early_name key request"
  shows "asks_websocket (upgrade_headers opt key request) early_name key (if sends_early opt request then request else [])"
proof -
  have early: "sends_early opt request \<Longrightarrow> to_ascii_lowercase (vo_early_name opt) \<notin> HANDSHAKE_NAMES"
    using assms by (auto simp: client_agrees_def)
  have m: "header_map (upgrade_headers opt key request) ''upgrade'' = Some ''websocket''"
    "header_map (upgrade_headers opt key request) ''connection'' = Some ''Upgrade''"
    "header_map (upgrade_headers opt key request) ''sec-websocket-key'' = Some key"
    using upgrade_headers_handshake [OF early]
    by (simp_all add: HANDSHAKE_NAMES_def header_map_def upgrade_names)
  have tokens: "eq_ignore_ascii_case ''websocket'' ''websocket''"
    "list_ex (\<lambda>token. eq_ignore_ascii_case (trim token) ''upgrade'') (split_on (CHR '','') ''Upgrade'')"
    by (simp_all add: eq_ignore_ascii_case_def trim_graphic graphic_def upgrade_names lowercase_names)
  have value_of: "header_map (upgrade_headers opt key request) (to_ascii_lowercase (vo_early_name opt)) = Some (encode_base64_url request)"
    if "sends_early opt request"
    using that by (simp add: upgrade_headers_def header_map_append [of _ "[_]"] header_map_append header_map_def)
  have decode: "decode_base64_url (encode_base64_url request) = Inr request" "decode_base64_url [] = Inr []"
    using left_bits_less [of request] by (simp_all add: decode_base64_url_def encode_base64_url_sextets decode_sextets)
  have early_ok: "if early_name = [] then (if sends_early opt request then request else []) = []
    else decode_base64_url (case header_map (upgrade_headers opt key request) (to_ascii_lowercase early_name) of
      None \<Rightarrow> [] | Some v \<Rightarrow> v) = Inr (if sends_early opt request then request else [])"
  proof (cases "sends_early opt request")
    case True
    with assms have "early_name = vo_early_name opt" "vo_early_name opt \<noteq> []"
      by (simp_all add: client_agrees_def sends_early_def)
    with True value_of decode(1) show ?thesis by simp
  next
    case False
    with assms have "early_name = [] \<or> header_map (upgrade_headers opt key request) (to_ascii_lowercase early_name) = None"
      by (simp add: client_agrees_def)
    with False decode(2) show ?thesis by auto
  qed
  have "key \<noteq> []" "length (if sends_early opt request then request else []) \<le> MAX_WS_FRAME_SIZE"
    using assms by (simp_all add: client_agrees_def)
  with m tokens early_ok show ?thesis unfolding asks_websocket_def by blast
qed

end
