(* ===== verification/Vless_Tunnel.thy ===== *)
theory Vless_Tunnel
  imports Vless_Handshake
begin

text \<open>
  A VLESS tunnel: \<open>handle_connection_inner\<close> of the inbound and \<open>connect\<close> of the outbound over the WebSocket
  stream, from the first byte to the stream that is handed on.
\<close>

section \<open>Awaiting a WebSocket stream\<close>

text \<open>
  A future that is \<open>Pending\<close> is polled again while the transport has another answer for it.
\<close>

definition script_size :: "ws_stream \<Rightarrow> nat" where
  "script_size s = reads_size (t_reads (ws_inner s)) + length (t_writes (ws_inner s))"

function ws_read_exact_from :: "bytes \<Rightarrow> nat \<Rightarrow> ws_stream \<Rightarrow> (vless_error + bytes) poll \<times> ws_stream" where
  "ws_read_exact_from got n s =
     (if n = 0 then (Ready (Inr got), s)
      else case poll_read n s of
        (Pending, t) \<Rightarrow> if script_size t < script_size s then ws_read_exact_from got n t else (Pending, t)
      | (Ready (Inl e), t) \<Rightarrow> (Ready (Inl (io_error e)), t)
      | (Ready (Inr bs), t) \<Rightarrow>
          if bs = [] then (Ready (Inl VlessEof), t) else ws_read_exact_from (got @ bs) (n - length bs) t)"
  by pat_completeness auto
termination
  by (relation "inv_image (less_than <*lex*> less_than) (\<lambda>(_, n, s). (n, script_size s))") auto

declare ws_read_exact_from.simps [simp del]

definition ws_read_exact :: "nat \<Rightarrow> (ws_stream, bytes) async" where
  "ws_read_exact n = ws_read_exact_from [] n"

function ws_write_all :: "bytes \<Rightarrow> ws_stream \<Rightarrow> (vless_error + unit) poll \<times> ws_stream" where
  "ws_write_all d s =
     (if d = [] then (Ready (Inr ()), s)
      else case poll_write d s of
        (Pending, t) \<Rightarrow> if script_size t < script_size s then ws_write_all d t else (Pending, t)
      | (Ready (Inl e), t) \<Rightarrow> (Ready (Inl (io_error e)), t)
      | (Ready (Inr n), t) \<Rightarrow> if n = 0 then (Ready (Inl (VlessIo WriteZero)), t) else ws_write_all (drop n d) t)"
  by pat_completeness auto
termination
  by (relation "inv_image (less_than <*lex*> less_than) (\<lambda>(d, s). (length d, script_size s))") auto

declare ws_write_all.simps [simp del]

text \<open>\<open>flush\<close>; the transport itself has nothing to flush.\<close>

function ws_flush_all :: "ws_stream \<Rightarrow> (vless_error + unit) poll \<times> ws_stream" where
  "ws_flush_all s =
     (case poll_flush (Ready (Inr ())) s of
        (Pending, t) \<Rightarrow> if script_size t < script_size s then ws_flush_all t else (Pending, t)
      | (Ready (Inl e), t) \<Rightarrow> (Ready (Inl (io_error e)), t)
      | (Ready (Inr _), t) \<Rightarrow> (Ready (Inr ()), t))"
  by pat_completeness auto
termination
  by (relation "measure script_size") auto

declare ws_flush_all.simps [simp del]

section \<open>The inbound\<close>

definition byte_of :: "bytes \<Rightarrow> u8" where
  "byte_of bs = hd bs"

definition await_vless_host :: "u8 \<Rightarrow> (ws_stream, string) async" where
  "await_vless_host address_type =
     (if address_type = 1 then
        await (ws_read_exact 4) (\<lambda>a. ret (show_ip (IpV4 (from_be a))))
      else if address_type = 2 then
        await (ws_read_exact 1) (\<lambda>n.
        await (ws_read_exact (unat (byte_of n))) (\<lambda>d.
        lift_result (from_utf8 VlessDomainNotUtf8 d)))
      else if address_type = 3 then
        await (ws_read_exact 16) (\<lambda>a. ret (show_ip (IpV6 (from_be a))))
      else fails (VlessAddressType address_type))"

definition await_vless_request :: "(bytes \<rightharpoonup> string) \<Rightarrow> (ws_stream, address \<times> string) async" where
  "await_vless_request users =
     await (ws_read_exact 1) (\<lambda>version.
     await (lift_result (ensure (byte_of version = VLESS_VERSION) UnsupportedVlessVersion)) (\<lambda>_.
     await (ws_read_exact 16) (\<lambda>uuid.
     await (lift_result (ok_or InvalidUser (users uuid))) (\<lambda>user.
     await (ws_read_exact 1) (\<lambda>addons_len.
     await (if byte_of addons_len > 0 then ws_read_exact (unat (byte_of addons_len)) else ret []) (\<lambda>_.
     await (ws_read_exact 1) (\<lambda>command.
     await (lift_result (ensure (byte_of command = VLESS_COMMAND_TCP) VlessUdpUnsupported)) (\<lambda>_.
     await (ws_read_exact 2) (\<lambda>p.
     await (ws_read_exact 1) (\<lambda>address_type.
     await (await_vless_host (byte_of address_type)) (\<lambda>h.
     await (lift_result (vless_addr h (from_be p))) (\<lambda>a. ret (a, user)))))))))))))"

text \<open>
  \<open>handle_connection_inner\<close>: \<open>None\<close> when the request was answered with an HTTP error, otherwise the session and
  the stream that go to \<open>Router::route\<close>; the transport is as the last step left it.
\<close>

definition serve_stream ::
    "socket_addr \<Rightarrow> string \<Rightarrow> (bytes \<rightharpoonup> string) \<Rightarrow> (ws_stream, session) async" where
  "serve_stream source tag users =
     await (await_vless_request users) (\<lambda>(destination, user).
     await (ws_write_all [VLESS_VERSION, 0]) (\<lambda>_.
     ret (session_inbound Tcp source destination tag ''vless'' (Some user))))"

definition handle_connection_inner ::
    "socket_addr \<Rightarrow> string \<Rightarrow> string \<Rightarrow> string \<Rightarrow> (bytes \<rightharpoonup> string) \<Rightarrow> (nat \<Rightarrow> u32 option) \<Rightarrow> transport \<Rightarrow>
      (vless_error + (session \<times> ws_stream) option) poll \<times> transport" where
  "handle_connection_inner source tag path early_name users random t =
     (case accept_websocket path early_name t of
        (Pending, t) \<Rightarrow> (Pending, t)
      | (Ready (Inl e), t) \<Rightarrow> (Ready (Inl e), t)
      | (Ready (Inr None), t) \<Rightarrow> (Ready (Inr None), t)
      | (Ready (Inr (Some (tail, early))), t) \<Rightarrow>
          (case serve_stream source tag users (ws_new t random tail early False) of
             (Pending, s) \<Rightarrow> (Pending, ws_inner s)
           | (Ready (Inl e), s) \<Rightarrow> (Ready (Inl e), ws_inner s)
           | (Ready (Inr session), s) \<Rightarrow> (Ready (Inr (Some (session, s))), ws_inner s)))"

section \<open>The outbound\<close>

text \<open>
  \<open>connect\<close>. \<open>dial\<close> is the system dialer with the TLS handshake behind it, when TLS is enabled, and yields the
  transport to the server; \<open>nonce\<close> are the sixteen random bytes of the key, or the failure of the generator.
\<close>

definition open_tunnel :: "vless_outbound \<Rightarrow> bytes \<Rightarrow> (ws_stream, unit) async" where
  "open_tunnel opt request =
     await (if sends_early opt request then ret ()
            else await (ws_write_all request) (\<lambda>_. ws_flush_all)) (\<lambda>_.
     await (ws_read_exact 2) (\<lambda>response.
     lift_result (ensure (response = [VLESS_VERSION, 0]) BadVlessResponse)))"

definition vless_connect ::
    "vless_outbound \<Rightarrow> address \<Rightarrow> bytes option \<Rightarrow> (nat \<Rightarrow> u32 option) \<Rightarrow> transport \<Rightarrow>
      (vless_error + ws_stream) poll \<times> transport" where
  "vless_connect opt destination nonce random t =
     (case and_then (encode_vless_request (vo_uuid opt) destination) (\<lambda>request.
           and_then (ok_or (VlessIo NoRandom) nonce) (\<lambda>bs. Inr (request, websocket_key bs))) of
        Inl e \<Rightarrow> (Ready (Inl e), t)
      | Inr (request, key) \<Rightarrow>
          (case open_websocket opt key request t of
             (Pending, t) \<Rightarrow> (Pending, t)
           | (Ready (Inl e), t) \<Rightarrow> (Ready (Inl e), t)
           | (Ready (Inr tail), t) \<Rightarrow>
               (case open_tunnel opt request (ws_new t random tail [] True) of
                  (Pending, s) \<Rightarrow> (Pending, ws_inner s)
                | (Ready (Inl e), s) \<Rightarrow> (Ready (Inl e), ws_inner s)
                | (Ready (Inr _), s) \<Rightarrow> (Ready (Inr s), ws_inner s))))"

definition vless_dial ::
    "vless_outbound \<Rightarrow> (address \<Rightarrow> vless_error + transport) \<Rightarrow> session \<Rightarrow> bytes option \<Rightarrow> (nat \<Rightarrow> u32 option) \<Rightarrow>
      (vless_error + ws_stream) poll \<times> transport option" where
  "vless_dial opt dial session nonce random =
     (case and_then (ensure (s_network session = Tcp) VlessTcpOnly) (\<lambda>_.
           and_then (vless_addr (vo_server opt) (vo_server_port opt)) dial) of
        Inl e \<Rightarrow> (Ready (Inl e), None)
      | Inr t \<Rightarrow> (case vless_connect opt (s_destination session) nonce random t of (r, t) \<Rightarrow> (r, Some t)))"

section \<open>Why a future waits\<close>

definition transport_size :: "transport \<Rightarrow> nat" where
  "transport_size t = reads_size (t_reads t) + length (t_writes t)"

lemma script_size_inner: "script_size s = transport_size (ws_inner s)"
  by (simp add: script_size_def transport_size_def)

lemma inner_read_size:
  assumes "inner_read t = (r, t')"
  shows "transport_size t' \<le> transport_size t" and "r = Pending \<Longrightarrow> t_reads t' = [] \<or> transport_size t' < transport_size t"
  using assms
  by (auto simp: inner_read_def transport_size_def reads_size_def READ_CHUNK_def
      split: list.splits read_answer.splits if_splits)

lemma inner_write_size:
  assumes "inner_write d t = (r, t')"
  shows "transport_size t' \<le> transport_size t" and "r = Pending \<Longrightarrow> t_writes t' = [] \<or> transport_size t' < transport_size t"
  using assms
  by (auto simp: inner_write_def transport_size_def split: list.splits write_answer.splits)

lemma flush_size:
  "poll_flush_output s = (r, s') \<Longrightarrow> script_size s' \<le> script_size s
     \<and> (r = Pending \<longrightarrow> t_writes (ws_inner s') = [] \<or> script_size s' < script_size s)"
proof (induction s arbitrary: r s' rule: poll_flush_output.induct)
  case (1 s)
  show ?case
  proof (cases "ws_write_offset s < length (ws_write_buffer s)")
    case False
    with "1.prems" show ?thesis by (auto simp: poll_flush_output.simps [of s] script_size_inner)
  next
    case True
    obtain a t where w: "inner_write (drop (ws_write_offset s) (ws_write_buffer s)) (ws_inner s) = (a, t)" by force
    note size = inner_write_size [OF w]
    show ?thesis
    proof (cases "\<exists>n. a = Ready (Inr n) \<and> n \<noteq> 0")
      case rec: True
      then obtain n where n: "a = Ready (Inr n)" "n \<noteq> 0" by blast
      with "1.prems" True w have run: "poll_flush_output (s\<lparr>ws_inner := t, ws_write_offset := ws_write_offset s + n\<rparr>) = (r, s')"
        by (simp add: poll_flush_output.simps [of s])
      from "1.IH" [OF True w [symmetric] n(1) refl n(2) run] size(1) show ?thesis by (auto simp: script_size_inner)
    next
      case False
      with "1.prems" True w have "s' = s\<lparr>ws_inner := t\<rparr>" "r = Pending \<Longrightarrow> a = Pending"
        by (auto simp: poll_flush_output.simps [of s] split: poll.splits sum.splits if_splits)
      with size show ?thesis by (auto simp: script_size_inner)
    qed
  qed
qed

lemma fill_size:
  assumes "poll_fill_input s = (r, s')"
  shows "script_size s' \<le> script_size s" and "r = Pending \<Longrightarrow> t_reads (ws_inner s') = [] \<or> script_size s' < script_size s"
    and "ws_control_pending s' = ws_control_pending s"
  using assms
  by (auto simp: poll_fill_input_def Let_def script_size_inner dest: inner_read_size
      split: prod.splits poll.splits sum.splits if_splits)

lemma append_frame_inner: "append_frame opcode d s = (r, s') \<Longrightarrow> ws_inner s' = ws_inner s"
  by (auto simp: append_frame_def Let_def split: if_splits option.splits)

definition read_waits_ok :: "ws_stream \<Rightarrow> (ws_error + bytes) poll option \<Rightarrow> ws_stream \<Rightarrow> bool" where
  "read_waits_ok s r s' \<longleftrightarrow> script_size s' \<le> script_size s \<and>
     (r = Some Pending \<longrightarrow> t_reads (ws_inner s') = [] \<and> \<not> ws_control_pending s' \<or> t_writes (ws_inner s') = []
        \<or> script_size s' < script_size s)"

lemma take_payload_ready: "take_payload room f s = (r, s') \<Longrightarrow> r \<noteq> Some Pending"
  by (auto simp: take_payload_def Let_def split: if_splits)

lemma take_payload_waits: "take_payload room f s = (r, s') \<Longrightarrow> read_waits_ok s r s'"
  by (simp add: read_waits_ok_def script_size_inner take_payload_inner take_payload_ready)

lemma read_payload_waits:
  assumes "read_payload room f s = (r, s')" and "\<not> ws_control_pending s"
  shows "read_waits_ok s r s'"
proof (cases "rf_remaining f = 0")
  case True
  obtain a t where fin: "finish_read_frame f s = (a, t)" by force
  with assms(1) True have "s' = t" "r \<noteq> Some Pending" by (auto simp: read_payload_def split: sum.splits)
  moreover from fin have "ws_inner t = ws_inner s"
    by (auto simp: finish_read_frame_def Let_def dest: append_frame_inner split: if_splits prod.splits sum.splits)
  ultimately show ?thesis by (simp add: read_waits_ok_def script_size_inner)
next
  case rem: False
  show ?thesis
  proof (cases "available_input s = []")
    case False
    with assms(1) rem show ?thesis by (simp add: read_payload_def take_payload_waits)
  next
    case True
    obtain a t where fill: "poll_fill_input s = (a, t)" by force
    note size = fill_size [OF fill]
    from assms(1) rem True fill have "take_payload room f t = (r, s') \<or> s' = t \<and> (r = Some Pending \<longrightarrow> a = Pending)"
      by (auto simp: read_payload_def split: sum.splits poll.splits bool.splits)
    with size assms(2) take_payload_waits [of room f t r s'] take_payload_ready [of room f t r s'] show ?thesis
      by (auto simp: read_waits_ok_def)
  qed
qed

lemma read_header_waits:
  assumes "read_header room s = (r, s')" and "\<not> ws_control_pending s"
  shows "read_waits_ok s r s'"
proof (cases "ws_frame s")
  case (Some f)
  with assms show ?thesis by (simp add: read_header_def read_payload_waits)
next
  case None
  show ?thesis
  proof (cases "start_frame s")
    case (Inl e)
    with None assms(1) show ?thesis by (auto simp: read_header_def read_waits_ok_def)
  next
    case (Inr x)
    obtain b t where t: "start_frame s = Inr (b, t)" using Inr by (cases x) simp
    have same: "ws_inner t = ws_inner s" "ws_control_pending t = ws_control_pending s"
      using t by (auto simp: start_frame_def split: option.splits)
    show ?thesis
    proof (cases b)
      case True
      with t have "start_frame s = Inr (True, t)" by simp
      from start_frame_True(3) [OF this] obtain f where "ws_frame t = Some f" by blast
      with None t True assms(1) have "read_payload room f t = (r, s')" by (simp add: read_header_def)
      from read_payload_waits [OF this] assms(2) same show ?thesis
        by (simp add: read_waits_ok_def script_size_inner)
    next
      case False
      obtain a v where fill: "poll_fill_input t = (a, v)" by force
      from None t False assms(1) fill have "s' = v \<or> s' = v\<lparr>ws_read_closed := True\<rparr>" "r = Some Pending \<longrightarrow> a = Pending \<and> s' = v"
        by (auto simp: read_header_def split: sum.splits poll.splits bool.splits if_splits)
      with fill_size [OF fill] same assms(2) show ?thesis by (auto simp: read_waits_ok_def script_size_inner)
    qed
  qed
qed

lemma read_step_waits: "read_step room s = (r, s') \<Longrightarrow> read_waits_ok s r s'"
proof -
  assume res: "read_step room s = (r, s')"
  obtain a t where fl: "flush_control s = (a, t)" by force
  have size: "script_size t \<le> script_size s" "a = Pending \<longrightarrow> t_writes (ws_inner t) = [] \<or> script_size t < script_size s"
    "\<forall>u. a = Ready (Inr u) \<longrightarrow> \<not> ws_control_pending t"
    using fl by (auto simp: flush_control_def script_size_inner dest: flush_size [unfolded script_size_inner]
        split: if_splits prod.splits poll.splits sum.splits)
  from res fl have "s' = t \<and> (r = Some Pending \<longrightarrow> a = Pending) \<or> read_header room t = (r, s') \<and> a = Ready (Inr ())"
    by (auto simp: read_step_def split: poll.splits sum.splits if_splits)
  then show ?thesis
  proof (elim disjE conjE)
    assume "read_header room t = (r, s')" "a = Ready (Inr ())"
    with size read_header_waits [of room t r s'] show ?thesis by (auto simp: read_waits_ok_def)
  qed (use size in \<open>auto simp: read_waits_ok_def\<close>)
qed

lemma poll_read_waits:
  assumes "poll_read room s = (Pending, s')"
  shows "t_reads (ws_inner s') = [] \<and> \<not> ws_control_pending s' \<or> t_writes (ws_inner s') = [] \<or> script_size s' < script_size s"
proof -
  have "read_loop room s = (r, s') \<Longrightarrow> read_waits_ok s (Some r) s'" for r
  proof (induction room s rule: read_loop.induct)
    case (1 room s)
    obtain res t where step: "read_step room s = (res, t)" by force
    show ?case
    proof (cases res)
      case None
      with "1.prems" step have "read_loop room t = (r, s')" by (simp add: read_loop.simps [of room s])
      from "1.IH" [OF step [symmetric] None this] read_step_waits [OF step] show ?thesis
        by (auto simp: read_waits_ok_def)
    next
      case (Some x)
      with "1.prems" step read_step_waits [OF step] show ?thesis by (simp add: read_loop.simps [of room s])
    qed
  qed
  from this [of Pending] assms show ?thesis by (auto simp: poll_read_def read_waits_ok_def Let_def split: if_splits)
qed

lemma poll_write_waits:
  assumes "poll_write d s = (Pending, s')"
  shows "t_writes (ws_inner s') = [] \<or> script_size s' < script_size s"
proof -
  obtain a t where fl: "poll_flush_output s = (a, t)" by force
  note one = flush_size [OF fl]
  show ?thesis
  proof (cases "ws_pending s \<noteq> None \<or> a = Pending")
    case True
    with assms fl have "a = Pending" "s' = t" by (auto simp: poll_write_def split: if_splits poll.splits sum.splits option.splits)
    with one show ?thesis by simp
  next
    case False
    define n where "n = min (length d) MAX_WS_FRAME_SIZE"
    obtain b v where app: "append_frame 2 (take n d) t = (b, v)" by force
    from assms fl False app have "poll_flush_output (v\<lparr>ws_pending := Some n\<rparr>) = (Pending, s')"
      by (auto simp: poll_write_def n_def [symmetric] Let_def split: if_splits poll.splits sum.splits prod.splits option.splits)
    from flush_size [OF this] append_frame_inner [OF app] one show ?thesis by (auto simp: script_size_inner)
  qed
qed

section \<open>Reading exactly\<close>

lemma poll_read_length:
  assumes "poll_read room s = (Ready (Inr bs), s')"
  shows "length bs \<le> room"
proof -
  have payload: "length d \<le> room" if "take_payload room f s = (Some (Ready (Inr d)), s')" for f s s' d
    using that by (auto simp: take_payload_def Let_def split: if_splits)
  have pass: "length d \<le> room" if "read_payload room f s = (Some (Ready (Inr d)), s')" for f s s' d
    using that payload by (auto simp: read_payload_def split: if_splits prod.splits sum.splits poll.splits bool.splits)
  have step: "length d \<le> room" if "read_step room s = (Some (Ready (Inr d)), s')" for s s' d
    using that pass
    by (auto simp: read_step_def read_header_def split: if_splits option.splits prod.splits sum.splits poll.splits bool.splits)
  have "read_loop room s = (Ready (Inr d), s') \<Longrightarrow> length d \<le> room" for d
    using step
  proof (induction room s rule: read_loop.induct)
    case (1 room s)
    obtain res t where st: "read_step room s = (res, t)" by force
    with 1 show ?case by (cases res) (auto simp: read_loop.simps [of room s])
  qed
  with assms show ?thesis by (auto simp: poll_read_def Let_def split: if_splits)
qed

text \<open>
  A stream between two calls: \<open>data\<close> is still to be read from it, of which \<open>unsent\<close> has not left the peer, and \<open>sent\<close>
  is the data of the frames it put behind the bytes \<open>fst base\<close>.
\<close>

definition open_stream :: "bytes \<Rightarrow> bytes \<times> bool \<Rightarrow> bytes \<Rightarrow> bytes \<Rightarrow> ws_stream \<Rightarrow> bool" where
  "open_stream unsent base sent data s \<longleftrightarrow> (\<exists>p fs. reads_as s p fs unsent \<and> undelivered s p fs = data)
     \<and> (\<exists>gs. writes_as base s gs \<and> frames_data gs = sent) \<and> ws_pending s = None"

text \<open>A future waits only for the peer, or because the transport takes nothing more.\<close>

definition waits_for_peer :: "bytes \<Rightarrow> ws_stream \<Rightarrow> bool" where
  "waits_for_peer unsent s \<longleftrightarrow> unsent \<noteq> [] \<or> t_writes (ws_inner s) = []"

lemma poll_read_open:
  assumes o: "open_stream unsent base sent data s" and run: "poll_read n s = (r, s')" and n: "0 < n"
  shows "case r of
      Pending \<Rightarrow> open_stream unsent base sent data s'
        \<and> (data = [] \<or> waits_for_peer unsent s' \<or> script_size s' < script_size s)
    | Ready (Inl e) \<Rightarrow> io_error e \<in> transport_errors
    | Ready (Inr bs) \<Rightarrow> length bs \<le> n \<and> (\<exists>rest. data = bs @ rest \<and> (bs = [] \<longrightarrow> rest = []) \<and> open_stream unsent base sent rest s')"
proof -
  from o obtain p fs gs where r: "reads_as s p fs unsent" "undelivered s p fs = data"
    and w: "writes_as base s gs" "frames_data gs = sent" "ws_pending s = None"
    by (auto simp: open_stream_def)
  note ok = poll_read_ok [OF r(1) n run]
  have writes: "(\<exists>gs. writes_as base s' gs \<and> frames_data gs = sent) \<and> ws_pending s' = None" if "\<nexists>e. r = Ready (Inl e)"
    using poll_read_writes [OF run w(1) that] w(2,3) by (auto simp: only_controls_def frames_data_control)
  show ?thesis
  proof (cases r)
    case Pending
    with ok r(2) obtain p' fs' where q: "reads_as s' p' fs' unsent" "undelivered s' p' fs' = data"
      "unsent = [] \<and> incoming (t_reads (ws_inner s')) = [] \<and> \<not> ws_control_pending s' \<longrightarrow> data = []" by auto
    have "data = [] \<or> waits_for_peer unsent s' \<or> script_size s' < script_size s"
      using poll_read_waits [OF run [unfolded Pending]] q(3) by (auto simp: waits_for_peer_def)
    with q Pending writes show ?thesis by (auto simp: open_stream_def)
  next
    case (Ready x)
    show ?thesis
    proof (cases x)
      case (Inl e)
      with ok Ready show ?thesis by (auto simp: io_error_def transport_errors_def)
    next
      case (Inr bs)
      with ok Ready r(2) obtain p' fs' where q: "reads_as s' p' fs' unsent" "data = bs @ undelivered s' p' fs'"
        "bs = [] \<longrightarrow> undelivered s' p' fs' = []" by auto
      with Ready Inr writes poll_read_length [of n s bs s'] run show ?thesis by (auto simp: open_stream_def)
    qed
  qed
qed

definition understands ::
    "bytes \<Rightarrow> bytes \<times> bool \<Rightarrow> bytes \<Rightarrow> (ws_stream, 'a) async \<Rightarrow> (bytes \<Rightarrow> vless_error + 'a \<times> bytes) \<Rightarrow> bool" where
  "understands unsent base sent m p \<longleftrightarrow>
     (\<forall>s data r s'. open_stream unsent base sent data s \<and> m s = (r, s') \<longrightarrow>
        (case r of
           Pending \<Rightarrow> (\<exists>e. p data = Inl e) \<or> waits_for_peer unsent s'
         | Ready (Inl e) \<Rightarrow> e \<in> transport_errors \<or> p data = Inl e
         | Ready (Inr x) \<Rightarrow> \<exists>rest. p data = Inr (x, rest) \<and> open_stream unsent base sent rest s'))"

lemma understandsD:
  "understands unsent base sent m p \<Longrightarrow> open_stream unsent base sent data s \<Longrightarrow> m s = (r, s') \<Longrightarrow>
    (case r of
       Pending \<Rightarrow> (\<exists>e. p data = Inl e) \<or> waits_for_peer unsent s'
     | Ready (Inl e) \<Rightarrow> e \<in> transport_errors \<or> p data = Inl e
     | Ready (Inr x) \<Rightarrow> \<exists>rest. p data = Inr (x, rest) \<and> open_stream unsent base sent rest s')"
  unfolding understands_def by blast

lemma understands_await:
  assumes m: "understands unsent base sent m p" and f: "\<And>x. understands unsent base sent (f x) (g x)"
  shows "understands unsent base sent (await m f) (\<lambda>bs. and_then (p bs) (\<lambda>(x, bs). g x bs))"
  unfolding understands_def
proof (intro allI impI, elim conjE)
  fix s data r s'
  assume o: "open_stream unsent base sent data s" and run: "await m f s = (r, s')"
  obtain a t where a: "m s = (a, t)" by force
  note i = understandsD [OF m o a]
  consider "a = Pending" | e where "a = Ready (Inl e)" | x where "a = Ready (Inr x)" by (metis poll.exhaust sumE)
  then show "case r of
       Pending \<Rightarrow> (\<exists>e. and_then (p data) (\<lambda>(x, bs). g x bs) = Inl e) \<or> waits_for_peer unsent s'
     | Ready (Inl e) \<Rightarrow> e \<in> transport_errors \<or> and_then (p data) (\<lambda>(x, bs). g x bs) = Inl e
     | Ready (Inr x) \<Rightarrow> \<exists>rest. and_then (p data) (\<lambda>(x, bs). g x bs) = Inr (x, rest) \<and> open_stream unsent base sent rest s'"
  proof cases
    case 1
    with run a have "r = Pending" "s' = t" by (simp_all add: await_def)
    with i 1 show ?thesis by auto
  next
    case (2 e)
    with run a have "r = Ready (Inl e)" by (simp add: await_def)
    with i 2 show ?thesis by auto
  next
    case (3 x)
    with i obtain rest where rest: "p data = Inr (x, rest)" "open_stream unsent base sent rest t" by auto
    from run a 3 have "f x t = (r, s')" by (simp add: await_def)
    note last_step = understandsD [OF f rest(2) this]
    have "and_then (p data) (\<lambda>(x, bs). g x bs) = g x rest" by (simp add: rest(1))
    with last_step show ?thesis by (simp only:)
  qed
qed

lemma understands_ret: "understands unsent base sent (ret x) (\<lambda>bs. Inr (x, bs))"
  by (auto simp: understands_def ret_def)

lemma understands_fails: "understands unsent base sent (fails e) (\<lambda>bs. Inl e)"
  by (auto simp: understands_def fails_def)

lemma understands_result: "understands unsent base sent (lift_result r) (\<lambda>bs. and_then r (\<lambda>x. Inr (x, bs)))"
  by (cases r) (auto simp: understands_def lift_result_def)

lemma read_exact_from_open:
  "open_stream unsent base sent data s \<Longrightarrow> ws_read_exact_from got n s = (r, s') \<Longrightarrow>
    (case r of
       Pending \<Rightarrow> n \<le> length data \<longrightarrow> waits_for_peer unsent s'
     | Ready (Inl e) \<Rightarrow> e \<in> transport_errors \<or> e = VlessEof \<and> length data < n
     | Ready (Inr bs) \<Rightarrow> n \<le> length data \<and> bs = got @ take n data \<and> open_stream unsent base sent (drop n data) s')"
proof (induction got n s arbitrary: data rule: ws_read_exact_from.induct)
  case (1 got n s)
  show ?case
  proof (cases "n = 0")
    case True
    with "1.prems"(2) have "r = Ready (Inr got)" "s' = s" by (simp_all add: True ws_read_exact_from.simps [of got 0 s])
    with True "1.prems"(1) show ?thesis by simp
  next
    case n: False
    obtain a t where a: "poll_read n s = (a, t)" by force
    from n have "0 < n" by simp
    note ok = poll_read_open [OF "1.prems"(1) a this]
    consider "a = Pending" "script_size t < script_size s" | "a = Pending" "\<not> script_size t < script_size s"
      | e where "a = Ready (Inl e)" | "a = Ready (Inr [])" | bs where "a = Ready (Inr bs)" "bs \<noteq> []"
      by (metis poll.exhaust sumE)
    then show ?thesis
    proof cases
      case 1
      with "1.prems"(2) n a have "ws_read_exact_from got n t = (r, s')"
        by (simp add: ws_read_exact_from.simps [of got n s])
      from "1.IH"(2) [OF n a [symmetric] 1 _ this] ok 1 show ?thesis by simp
    next
      case 2
      with "1.prems"(2) n a have "r = Pending" "s' = t" by (simp_all add: ws_read_exact_from.simps [of got n s])
      with ok 2 n show ?thesis by auto
    next
      case (3 e)
      with "1.prems"(2) n a have "r = Ready (Inl (io_error e))" by (simp add: ws_read_exact_from.simps [of got n s])
      with ok 3 show ?thesis by simp
    next
      case 4
      with "1.prems"(2) n a have "r = Ready (Inl VlessEof)" by (simp add: ws_read_exact_from.simps [of got n s])
      with ok 4 n show ?thesis by simp
    next
      case (5 bs)
      with "1.prems"(2) n a have run: "ws_read_exact_from (got @ bs) (n - length bs) t = (r, s')"
        by (simp add: ws_read_exact_from.simps [of got n s])
      from ok 5 obtain rest where rest: "length bs \<le> n" "data = bs @ rest" "open_stream unsent base sent rest t" by auto
      from "1.IH"(1) [OF n a [symmetric] 5(1) refl 5(2) rest(3) run] rest(1,2) show ?thesis
        by (auto split: poll.splits sum.splits)
    qed
  qed
qed

lemma understands_read_exact: "understands unsent base sent (ws_read_exact n) (read_exact VlessEof n)"
  unfolding understands_def ws_read_exact_def
proof (intro allI impI, elim conjE)
  fix s data r s'
  assume "open_stream unsent base sent data s" "ws_read_exact_from [] n s = (r, s')"
  from read_exact_from_open [OF this] show "case r of
       Pending \<Rightarrow> (\<exists>e. read_exact VlessEof n data = Inl e) \<or> waits_for_peer unsent s'
     | Ready (Inl e) \<Rightarrow> e \<in> transport_errors \<or> read_exact VlessEof n data = Inl e
     | Ready (Inr x) \<Rightarrow> \<exists>rest. read_exact VlessEof n data = Inr (x, rest) \<and> open_stream unsent base sent rest s'"
    by (auto simp: read_exact_def split: poll.splits sum.splits)
qed

text \<open>The request is read from the stream as its codec reads it from bytes.\<close>

lemma understands_u8:
  assumes "\<And>b. understands unsent base sent (f b) (g b)"
  shows "understands unsent base sent (await (ws_read_exact 1) (\<lambda>v. f (byte_of v)))
    (\<lambda>bs. and_then (read_u8 VlessEof bs) (\<lambda>(b, bs). g b bs))"
proof -
  have "(\<lambda>bs. and_then (read_u8 VlessEof bs) (\<lambda>(b, bs). g b bs))
      = (\<lambda>bs. and_then (read_exact VlessEof 1 bs) (\<lambda>(v, bs). g (byte_of v) bs))"
    by (rule ext) (auto simp: read_u8_def read_exact_def byte_of_def split: list.split)
  with understands_await [OF understands_read_exact [of unsent base sent 1] assms] show ?thesis by simp
qed

lemma understands_u16:
  fixes f :: "u16 \<Rightarrow> (ws_stream, 'a) async"
  assumes "\<And>w. understands unsent base sent (f w) (g w)"
  shows "understands unsent base sent (await (ws_read_exact 2) (\<lambda>v. f (from_be v)))
    (\<lambda>bs. and_then (read_be VlessEof bs) (\<lambda>(w, bs). g w bs))"
proof -
  have "(\<lambda>bs. and_then (read_be VlessEof bs) (\<lambda>(w :: u16, bs). g w bs))
      = (\<lambda>bs. and_then (read_exact VlessEof 2 bs) (\<lambda>(v, bs). g (from_be v) bs))"
    by (rule ext) (auto simp: read_be_def read_exact_def)
  with understands_await [OF understands_read_exact [of unsent base sent 2] assms] show ?thesis by simp
qed

lemma understands_check:
  assumes "\<And>x. understands unsent base sent (f x) (g x)"
  shows "understands unsent base sent (await (lift_result r) f) (\<lambda>bs. and_then r (\<lambda>x. g x bs))"
proof -
  have "(\<lambda>bs. and_then r (\<lambda>x. g x bs)) = (\<lambda>bs. and_then (and_then r (\<lambda>x. Inr (x, bs))) (\<lambda>(x, bs). g x bs))"
    by (rule ext) (cases r; simp)
  with understands_await [OF understands_result [of unsent base sent r] assms] show ?thesis by simp
qed

lemma understands_addons:
  "understands unsent base sent (if n > 0 then ws_read_exact (unat n) else ret []) (read_exact VlessEof (unat n))" for n :: u8
proof (cases "n > 0")
  case False
  then have "n = 0" by (simp add: word_gt_0)
  have "read_exact VlessEof 0 = (\<lambda>bs. Inr ([], bs))" by (rule ext) simp
  with \<open>n = 0\<close> show ?thesis by (simp add: understands_ret)
qed (simp add: understands_read_exact)

lemma understands_host: "understands unsent base sent (await_vless_host t) (read_vless_host t)"
proof -
  consider "t = 1" | "t = 2" | "t = 3" | "t \<notin> {1, 2, 3}" by auto
  then show ?thesis
  proof cases
    case 1
    have "read_vless_host t = (\<lambda>bs. and_then (read_exact VlessEof 4 bs) (\<lambda>(a, bs). Inr (show_ip (IpV4 (from_be a)), bs)))"
      by (rule ext) (simp add: 1 read_vless_host_def)
    then show ?thesis
      unfolding await_vless_host_def using 1
      by (simp add: understands_await [OF understands_read_exact understands_ret])
  next
    case 2
    have "read_vless_host t = (\<lambda>bs. and_then (read_u8 VlessEof bs) (\<lambda>(n, bs). and_then (read_exact VlessEof (unat n) bs)
        (\<lambda>(d, bs). and_then (from_utf8 VlessDomainNotUtf8 d) (\<lambda>h. Inr (h, bs)))))"
      by (rule ext) (simp add: 2 read_vless_host_def)
    moreover have "understands unsent base sent (await (ws_read_exact 1) (\<lambda>n. await (ws_read_exact (unat (byte_of n))) (\<lambda>d.
        lift_result (from_utf8 VlessDomainNotUtf8 d))))
      (\<lambda>bs. and_then (read_u8 VlessEof bs) (\<lambda>(n, bs). and_then (read_exact VlessEof (unat n) bs)
        (\<lambda>(d, bs). and_then (from_utf8 VlessDomainNotUtf8 d) (\<lambda>h. Inr (h, bs)))))"
      by (rule understands_u8, rule understands_await [OF understands_read_exact understands_result])
    ultimately show ?thesis using 2 by (simp add: await_vless_host_def)
  next
    case 3
    have "read_vless_host t = (\<lambda>bs. and_then (read_exact VlessEof 16 bs) (\<lambda>(a, bs). Inr (show_ip (IpV6 (from_be a)), bs)))"
      by (rule ext) (simp add: 3 read_vless_host_def)
    then show ?thesis
      unfolding await_vless_host_def using 3
      by (simp add: understands_await [OF understands_read_exact understands_ret])
  next
    case 4
    then have "read_vless_host t = (\<lambda>bs. Inl (VlessAddressType t))" by (intro ext) (simp add: read_vless_host_def)
    with 4 show ?thesis by (simp add: await_vless_host_def understands_fails)
  qed
qed

lemma understands_request: "understands unsent base sent (await_vless_request users) (read_vless_request users)"
  unfolding await_vless_request_def read_vless_request_def [abs_def]
  apply (rule understands_u8)
  apply (rule understands_check)
  apply (rule understands_await [OF understands_read_exact])
  apply (rule understands_check)
  apply (rule understands_u8)
  apply (rule understands_await [OF understands_addons])
  apply (rule understands_u8)
  apply (rule understands_check)
  apply (rule understands_u16)
  apply (rule understands_u8)
  apply (rule understands_await [OF understands_host])
  apply (rule understands_check)
  apply (rule understands_ret)
  done

section \<open>Writing all\<close>

lemma poll_write_open:
  assumes "poll_write d s = (r, s')"
  shows "reads_as s' p fs unsent = reads_as s p fs unsent" "undelivered s' p fs = undelivered s p fs"
  using read_side_same [OF poll_write_read_side [OF assms]] by simp_all

text \<open>A write that was pending before has its frame in the buffer already.\<close>

definition half_written :: "bytes \<Rightarrow> bytes \<times> bool \<Rightarrow> bytes \<Rightarrow> bytes \<Rightarrow> bytes \<Rightarrow> ws_stream \<Rightarrow> bool" where
  "half_written unsent base sent d data s \<longleftrightarrow> (\<exists>p fs. reads_as s p fs unsent \<and> undelivered s p fs = data)
     \<and> (\<exists>gs. writes_as base s gs \<and> frames_data gs = sent @ (case ws_pending s of None \<Rightarrow> [] | Some n \<Rightarrow> take n d))"

lemma poll_write_half:
  assumes h: "half_written unsent base sent d data s" and run: "poll_write d s = (r, s')" and d: "d \<noteq> []"
  shows "case r of
      Pending \<Rightarrow> half_written unsent base sent d data s' \<and> (t_writes (ws_inner s') = [] \<or> script_size s' < script_size s)
    | Ready (Inl e) \<Rightarrow> io_error e \<in> transport_errors
    | Ready (Inr n) \<Rightarrow> half_written unsent base (sent @ take n d) (drop n d) data s' \<and> ws_pending s' = None"
proof (cases "\<exists>e. r = Ready (Inl e)")
  case True
  then obtain e where e: "r = Ready (Inl e)" by blast
  have "e \<in> {InnerFailed, WriteZero, NoRandom}"
    using run d unfolding e
    by (auto simp: poll_write_def Let_def dest: poll_flush_output_error append_frame_error
        split: poll.splits sum.splits prod.splits option.splits)
  with e show ?thesis by (auto simp: io_error_def transport_errors_def)
next
  case False
  from h obtain p fs gs where r: "reads_as s p fs unsent" "undelivered s p fs = data"
    and w: "writes_as base s gs" "frames_data gs = sent @ (case ws_pending s of None \<Rightarrow> [] | Some n \<Rightarrow> take n d)"
    by (auto simp: half_written_def)
  from poll_write_open [OF run] r have r': "\<exists>p fs. reads_as s' p fs unsent \<and> undelivered s' p fs = data" by blast
  from False poll_write_writes [OF run w(1) d] obtain hs where hs: "writes_as base s' (gs @ hs)"
    "case ws_pending s of
       Some n \<Rightarrow> hs = [] \<and> (r = Pending \<and> ws_pending s' = Some n \<or> r = Ready (Inr n) \<and> ws_pending s' = None)
     | None \<Rightarrow> (r = Pending \<and> ws_pending s' = None \<and> hs = [])
         \<or> (\<exists>n. frames_data hs = take n d \<and> (r = Pending \<and> ws_pending s' = Some n \<or> r = Ready (Inr n) \<and> ws_pending s' = None))"
    by blast
  show ?thesis
  proof (cases r)
    case Pending
    from poll_write_waits [OF run [unfolded Pending]]
    have "t_writes (ws_inner s') = [] \<or> script_size s' < script_size s" .
    moreover have "half_written unsent base sent d data s'"
      unfolding half_written_def using r' hs w(2) Pending by (auto split: option.splits)
    ultimately show ?thesis using Pending by simp
  next
    case (Ready x)
    with False obtain n where n: "x = Inr n" by (cases x) auto
    have "ws_pending s' = None" "frames_data (gs @ hs) = sent @ take n d" using hs(2) w(2) Ready n by (auto split: option.splits)
    with r' hs(1) have "half_written unsent base (sent @ take n d) (drop n d) data s'" by (auto simp: half_written_def)
    with Ready n \<open>ws_pending s' = None\<close> show ?thesis by simp
  qed
qed

lemma write_all_half:
  "half_written unsent base sent d data s \<Longrightarrow> d = [] \<longrightarrow> ws_pending s = None \<Longrightarrow> ws_write_all d s = (r, s') \<Longrightarrow>
    (case r of
       Pending \<Rightarrow> t_writes (ws_inner s') = []
     | Ready (Inl e) \<Rightarrow> e \<in> transport_errors
     | Ready (Inr _) \<Rightarrow> open_stream unsent base (sent @ d) data s')"
proof (induction d s arbitrary: sent rule: ws_write_all.induct)
  case (1 d s)
  show ?case
  proof (cases "d = []")
    case True
    with "1.prems" have "r = Ready (Inr ())" "s' = s" by (simp_all add: ws_write_all.simps [of "[]" s])
    with "1.prems"(1,2) True show ?thesis by (auto simp: half_written_def open_stream_def)
  next
    case d: False
    obtain a t where a: "poll_write d s = (a, t)" by force
    note ok = poll_write_half [OF "1.prems"(1) a d]
    consider "a = Pending" "script_size t < script_size s" | "a = Pending" "\<not> script_size t < script_size s"
      | e where "a = Ready (Inl e)" | "a = Ready (Inr 0)" | n where "a = Ready (Inr n)" "n \<noteq> 0"
      by (metis poll.exhaust sumE)
    then show ?thesis
    proof cases
      case 1
      with "1.prems"(3) d a have run: "ws_write_all d t = (r, s')" by (simp add: ws_write_all.simps [of d s])
      from ok 1 have "half_written unsent base sent d data t" by simp
      from "1.IH"(2) [OF d a [symmetric] 1 this _ run] d show ?thesis by simp
    next
      case 2
      with "1.prems"(3) d a have "r = Pending" "s' = t" by (simp_all add: ws_write_all.simps [of d s])
      with ok 2 show ?thesis by simp
    next
      case (3 e)
      with "1.prems"(3) d a have "r = Ready (Inl (io_error e))" by (simp add: ws_write_all.simps [of d s])
      with ok 3 show ?thesis by simp
    next
      case 4
      with "1.prems"(3) d a have "r = Ready (Inl (VlessIo WriteZero))" by (simp add: ws_write_all.simps [of d s])
      then show ?thesis by (simp add: transport_errors_def)
    next
      case (5 n)
      with "1.prems"(3) d a have run: "ws_write_all (drop n d) t = (r, s')" by (simp add: ws_write_all.simps [of d s])
      from ok 5 have "half_written unsent base (sent @ take n d) (drop n d) data t" "ws_pending t = None" by simp_all
      from "1.IH"(1) [OF d a [symmetric] 5(1) refl 5(2) this(1) _ run] this(2)
      have "case r of Pending \<Rightarrow> t_writes (ws_inner s') = [] | Ready (Inl e) \<Rightarrow> e \<in> transport_errors
        | Ready (Inr _) \<Rightarrow> open_stream unsent base ((sent @ take n d) @ drop n d) data s'" by simp
      moreover have "(sent @ take n d) @ drop n d = sent @ d" by simp
      ultimately show ?thesis by (simp only:)
    qed
  qed
qed

lemma ws_write_all_open:
  assumes "open_stream unsent base sent data s" and "ws_write_all d s = (r, s')"
  shows "case r of
       Pending \<Rightarrow> t_writes (ws_inner s') = []
     | Ready (Inl e) \<Rightarrow> e \<in> transport_errors
     | Ready (Inr _) \<Rightarrow> open_stream unsent base (sent @ d) data s'"
proof -
  from assms(1) have "half_written unsent base sent d data s" "ws_pending s = None"
    by (auto simp: open_stream_def half_written_def)
  with write_all_half [OF this(1) _ assms(2)] show ?thesis by simp
qed

lemma ws_flush_all_open:
  "open_stream unsent base sent data s \<Longrightarrow> ws_flush_all s = (r, s') \<Longrightarrow>
    (case r of
       Pending \<Rightarrow> t_writes (ws_inner s') = []
     | Ready (Inl e) \<Rightarrow> e \<in> transport_errors
     | Ready (Inr _) \<Rightarrow> open_stream unsent base sent data s')"
proof (induction s rule: ws_flush_all.induct)
  case (1 s)
  obtain a t where a: "poll_flush (Ready (Inr ())) s = (a, t)" by force
  then have fl: "poll_flush_output s = (a, t)" by (auto simp: poll_flush_def split: prod.splits poll.splits sum.splits)
  have t: "open_stream unsent base sent data t"
  proof -
    from "1.prems"(1) obtain p fs gs where o: "reads_as s p fs unsent" "undelivered s p fs = data"
      "writes_as base s gs" "frames_data gs = sent" "ws_pending s = None" by (auto simp: open_stream_def)
    have "reads_as t p fs unsent" "undelivered t p fs = data" "ws_pending t = None"
      using read_side_same [OF poll_flush_output_read_side [OF fl]] flush_keeps [OF fl] o by simp_all
    with flush_writes [OF fl o(3)] o(4) show ?thesis unfolding open_stream_def by blast
  qed
  consider "a = Pending" "script_size t < script_size s" | "a = Pending" "\<not> script_size t < script_size s"
    | e where "a = Ready (Inl e)" | u where "a = Ready (Inr u)"
    by (metis poll.exhaust sumE)
  then show ?case
  proof cases
    case 1
    with "1.prems"(2) a have run: "ws_flush_all t = (r, s')" by (simp add: ws_flush_all.simps [of s])
    from "1.IH" [OF a [symmetric] 1 t run] show ?thesis .
  next
    case 2
    with "1.prems"(2) a have "r = Pending" "s' = t" by (simp_all add: ws_flush_all.simps [of s])
    with flush_size [OF fl] 2 show ?thesis by simp
  next
    case (3 e)
    with "1.prems"(2) a have "r = Ready (Inl (io_error e))" by (simp add: ws_flush_all.simps [of s])
    with poll_flush_output_error [OF fl 3] show ?thesis by (auto simp: io_error_def transport_errors_def)
  next
    case (4 u)
    with "1.prems"(2) a have "r = Ready (Inr ())" "s' = t" by (simp_all add: ws_flush_all.simps [of s])
    with t show ?thesis by simp
  qed
qed

section \<open>From the handshake to the tunnel\<close>

text \<open>Behind the handshake the stream holds what the peer sends as frames, and the early data before it.\<close>

lemma open_stream_new:
  assumes "tail @ incoming (t_reads t) @ unsent = concat (map put_wire fs)" and "wire_seq client False fs"
    and "sees_end (t_reads t) \<longrightarrow> unsent = []"
  shows "open_stream unsent (t_sent t, client) [] (early @ wire_data fs) (ws_new t random tail early client)"
proof -
  let ?s = "ws_new t random tail early client"
  have "reads_as ?s [] fs unsent" "undelivered ?s [] fs = early @ wire_data fs"
    using assms by (auto simp: ws_new_def reads_as_def undelivered_def wire_def available_input_def)
  moreover have "writes_as (t_sent t, client) ?s []" "ws_pending ?s = None"
    using open_writes [OF refl, of t client random tail early] by (simp_all add: world_writes_def ws_open_def ws_new_def)
  ultimately show ?thesis unfolding open_stream_def
    by (intro conjI exI [of _ "[]"] exI [of _ fs]) simp_all
qed

text \<open>What every later use of the stream reads.\<close>

definition reads_later :: "bytes \<Rightarrow> ws_stream \<Rightarrow> bool" where
  "reads_later data s \<longleftrightarrow>
     (\<forall>w. ws_run (ws_open s) w \<longrightarrow> (\<exists>rest. data = w_read w @ rest \<and> (w_eof w \<longrightarrow> rest = [])))"

definition has_sent :: "bytes \<Rightarrow> bool \<Rightarrow> bytes \<Rightarrow> ws_stream \<Rightarrow> bool" where
  "has_sent base client sent s \<longleftrightarrow>
     (\<exists>gs. outbox s = base @ concat (map put_wire gs) \<and> wire_seq (\<not> client) False gs \<and> frames_data gs = sent)"

lemma open_stream_later:
  assumes "open_stream unsent base sent data s"
  shows "reads_later data s" and "has_sent (fst base) (snd base) sent s"
proof -
  from assms obtain p fs gs where r: "reads_as s p fs unsent" "undelivered s p fs = data"
    and w: "writes_as base s gs" "frames_data gs = sent" by (auto simp: open_stream_def)
  from r have "world_reads data unsent (ws_open s)" by (auto simp: world_reads_def ws_open_def)
  then show "reads_later data s"
    using run_reads by (fastforce simp: reads_later_def world_reads_def)
  from w show "has_sent (fst base) (snd base) sent s" by (auto simp: has_sent_def writes_as_def)
qed

lemma serve_stream_open:
  assumes o: "open_stream unsent base [] data s" and run: "serve_stream source tag users s = (r, s')"
  shows "case r of
      Pending \<Rightarrow> (\<exists>e. read_vless_request users data = Inl e) \<or> waits_for_peer unsent s'
    | Ready (Inl e) \<Rightarrow> e \<in> transport_errors \<or> read_vless_request users data = Inl e
    | Ready (Inr session) \<Rightarrow> \<exists>a user rest. read_vless_request users data = Inr ((a, user), rest)
        \<and> session = session_inbound Tcp source a tag ''vless'' (Some user)
        \<and> open_stream unsent base [VLESS_VERSION, 0] rest s'"
proof -
  obtain a t where a: "await_vless_request users s = (a, t)" by force
  note i = understandsD [OF understands_request o a]
  consider "a = Pending" | e where "a = Ready (Inl e)" | d user where "a = Ready (Inr (d, user))"
    by (metis poll.exhaust sumE surj_pair)
  then show ?thesis
  proof cases
    case 1
    with run a have "r = Pending" "s' = t" by (simp_all add: serve_stream_def await_def)
    with i 1 show ?thesis by simp
  next
    case (2 e)
    with run a have "r = Ready (Inl e)" by (simp add: serve_stream_def await_def)
    with i 2 show ?thesis by simp
  next
    case (3 d user)
    with i obtain rest where rest: "read_vless_request users data = Inr ((d, user), rest)" "open_stream unsent base [] rest t"
      by auto
    obtain b v where b: "ws_write_all [VLESS_VERSION, 0] t = (b, v)" by force
    note w = ws_write_all_open [OF rest(2) b]
    from run a 3 b have "s' = v" "r = (case b of Pending \<Rightarrow> Pending | Ready (Inl e) \<Rightarrow> Ready (Inl e)
        | Ready (Inr _) \<Rightarrow> Ready (Inr (session_inbound Tcp source d tag ''vless'' (Some user))))"
      by (auto simp: serve_stream_def await_def ret_def split: poll.splits sum.splits)
    with w rest(1) show ?thesis by (auto simp: waits_for_peer_def split: poll.splits sum.splits)
  qed
qed

lemma handle_connection_served:
  assumes wf: "http_wf (''GET '' @ target @ '' HTTP/1.1'') hs" and target: "target \<noteq> []" "\<forall>c \<in> set target. graphic c"
    and path: "hd (split_on (CHR ''?'') target) = path" and asks: "asks_websocket hs early_name key early"
    and sent: "incoming (t_reads t) @ unsent
      = as_bytes (put_http (''GET '' @ target @ '' HTTP/1.1'') hs) @ concat (map put_wire fs)"
    and seq: "wire_seq False False fs" and fin: "sees_end (t_reads t) \<longrightarrow> unsent = []"
    and run: "handle_connection_inner source tag path early_name users random t = (r, t')"
  shows "case r of
      Pending \<Rightarrow> unsent \<noteq> [] \<or> t_writes t' = [] \<or> (\<exists>e. read_vless_request users (early @ wire_data fs) = Inl e)
    | Ready (Inl e) \<Rightarrow> e \<in> transport_errors \<or> read_vless_request users (early @ wire_data fs) = Inl e
    | Ready (Inr None) \<Rightarrow> False
    | Ready (Inr (Some (session, s))) \<Rightarrow> \<exists>a user rest. read_vless_request users (early @ wire_data fs) = Inr ((a, user), rest)
        \<and> session = session_inbound Tcp source a tag ''vless'' (Some user)
        \<and> reads_later rest s
        \<and> has_sent (t_sent t @ as_bytes (switching_text (websocket_accept key))) False [VLESS_VERSION, 0] s"
proof -
  obtain a u where a: "accept_websocket path early_name t = (a, u)" by force
  note h = accept_websocket_put [OF wf target path asks sent fin a]
  consider "a = Pending" | e where "a = Ready (Inl e)" | "a = Ready (Inr None)"
    | tail e where "a = Ready (Inr (Some (tail, e)))"
    by (metis poll.exhaust sumE option.exhaust surj_pair)
  then show ?thesis
  proof cases
    case 1
    with run a have "r = Pending" "t' = u" by (simp_all add: handle_connection_inner_def)
    with h 1 show ?thesis by simp
  next
    case (2 e)
    with run a have "r = Ready (Inl e)" by (simp add: handle_connection_inner_def)
    with h 2 show ?thesis by (simp add: transport_errors_def)
  next
    case 3
    with h show ?thesis by simp
  next
    case (4 tail e)
    with h fin have e: "e = early" "tail @ incoming (t_reads u) @ unsent = concat (map put_wire fs)"
      "sees_end (t_reads u) \<longrightarrow> unsent = []" "t_sent u = t_sent t @ as_bytes (switching_text (websocket_accept key))"
      by simp_all
    let ?s = "ws_new u random tail early False"
    note o = open_stream_new [OF e(2) seq e(3), of early random]
    obtain b v where b: "serve_stream source tag users ?s = (b, v)" by force
    note i = serve_stream_open [OF o b]
    from run a 4 e(1) b have r: "t' = ws_inner v" "r = (case b of Pending \<Rightarrow> Pending | Ready (Inl e) \<Rightarrow> Ready (Inl e)
        | Ready (Inr session) \<Rightarrow> Ready (Inr (Some (session, v))))"
      by (auto simp: handle_connection_inner_def split: poll.splits sum.splits)
    show ?thesis
    proof (cases b)
      case Pending
      with i r show ?thesis by (auto simp: waits_for_peer_def)
    next
      case (Ready x)
      show ?thesis
      proof (cases x)
        case (Inl e)
        with i r Ready show ?thesis by simp
      next
        case (Inr session)
        with i Ready obtain d user rest where d: "read_vless_request users (early @ wire_data fs) = Inr ((d, user), rest)"
          "session = session_inbound Tcp source d tag ''vless'' (Some user)"
          "open_stream unsent (t_sent u, False) [VLESS_VERSION, 0] rest v" by auto
        from open_stream_later [OF d(3)] d(1,2) r Ready Inr e(4) show ?thesis by auto
      qed
    qed
  qed
qed

lemma vless_connect_opened:
  assumes request: "encode_vless_request (vo_uuid opt) destination = Inr request"
    and wf: "http_wf (''HTTP/1.1 '' @ show_nat 101 @ '' '' @ reason) hs"
    and answer: "header_map hs ''sec-websocket-accept'' = Some (websocket_accept (websocket_key nonce))"
    and sent: "incoming (t_reads t) @ unsent
      = as_bytes (put_http (''HTTP/1.1 '' @ show_nat 101 @ '' '' @ reason) hs) @ concat (map put_wire fs)"
    and seq: "wire_seq True False fs" and fin: "sees_end (t_reads t) \<longrightarrow> unsent = []"
    and run: "vless_connect opt destination (Some nonce) random t = (r, t')"
  shows "case r of
      Pending \<Rightarrow> unsent \<noteq> [] \<or> t_writes t' = [] \<or> take 2 (wire_data fs) \<noteq> [VLESS_VERSION, 0]
    | Ready (Inl e) \<Rightarrow> e \<in> transport_errors \<or> e = VlessEof \<and> length (wire_data fs) < 2
        \<or> e = BadVlessResponse \<and> take 2 (wire_data fs) \<noteq> [VLESS_VERSION, 0]
    | Ready (Inr s) \<Rightarrow> (\<exists>rest. wire_data fs = VLESS_VERSION # 0 # rest \<and> reads_later rest s)
        \<and> has_sent (t_sent t @ as_bytes (upgrade_text opt (websocket_key nonce) request)) True
            (if sends_early opt request then [] else request) s"
proof -
  let ?key = "websocket_key nonce" and ?sent = "if sends_early opt request then [] else request"
  obtain a u where a: "open_websocket opt ?key request t = (a, u)" by force
  note h = open_websocket_put [OF wf answer sent fin a]
  consider "a = Pending" | e where "a = Ready (Inl e)" | tail where "a = Ready (Inr tail)"
    by (metis poll.exhaust sumE)
  then show ?thesis
  proof cases
    case 1
    with run a request have "r = Pending" "t' = u" by (simp_all add: vless_connect_def)
    with h 1 show ?thesis by auto
  next
    case (2 e)
    with run a request have "r = Ready (Inl e)" by (simp add: vless_connect_def)
    with h 2 show ?thesis by (simp add: transport_errors_def)
  next
    case (3 tail)
    with h fin have e: "tail @ incoming (t_reads u) @ unsent = concat (map put_wire fs)"
      "sees_end (t_reads u) \<longrightarrow> unsent = []" "t_sent u = t_sent t @ as_bytes (upgrade_text opt ?key request)"
      by simp_all
    let ?s = "ws_new u random tail [] True" and ?base = "(t_sent u, True)"
    have o: "open_stream unsent ?base [] (wire_data fs) ?s"
      using open_stream_new [OF e(1) seq e(2), of "[]" random] by simp
    let ?send = "if sends_early opt request then ret () else await (ws_write_all request) (\<lambda>_. ws_flush_all)"
    obtain b v where b: "?send ?s = (b, v)" by force
    have i: "case b of
         Pending \<Rightarrow> t_writes (ws_inner v) = []
       | Ready (Inl e) \<Rightarrow> e \<in> transport_errors
       | Ready (Inr _) \<Rightarrow> open_stream unsent ?base ?sent (wire_data fs) v"
    proof (cases "sends_early opt request")
      case True
      with b o show ?thesis by (auto simp: ret_def)
    next
      case False
      obtain c q where c: "ws_write_all request ?s = (c, q)" by force
      note w = ws_write_all_open [OF o c]
      show ?thesis
      proof (cases "\<exists>x. c = Ready (Inr x)")
        case True
        with w have q: "open_stream unsent ?base request (wire_data fs) q" by auto
        from True b c False have "ws_flush_all q = (b, v)" by (auto simp: await_def)
        from ws_flush_all_open [OF q this] False show ?thesis by (simp split: poll.splits sum.splits)
      next
        case bad: False
        with b c False have "b = (case c of Pending \<Rightarrow> Pending | Ready (Inl e) \<Rightarrow> Ready (Inl e) | _ \<Rightarrow> b)" "v = q"
          by (auto simp: await_def split: poll.splits sum.splits)
        with w bad show ?thesis by (auto split: poll.splits sum.splits)
      qed
    qed
    obtain c q where c: "await (ws_read_exact 2) (\<lambda>response.
        lift_result (ensure (response = [VLESS_VERSION, 0]) BadVlessResponse)) v = (c, q)" by force
    from run a request 3 b c have r: "r = (case b of Pending \<Rightarrow> Pending | Ready (Inl e) \<Rightarrow> Ready (Inl e)
        | Ready (Inr _) \<Rightarrow> (case c of Pending \<Rightarrow> Pending | Ready (Inl e) \<Rightarrow> Ready (Inl e) | Ready (Inr _) \<Rightarrow> Ready (Inr q)))"
      "t' = (case b of Ready (Inr _) \<Rightarrow> ws_inner q | _ \<Rightarrow> ws_inner v)"
      by (auto simp: vless_connect_def open_tunnel_def await_def [of ?send] split: poll.splits sum.splits)
    show ?thesis
    proof (cases "\<exists>x. b = Ready (Inr x)")
      case False
      with i r show ?thesis by (auto split: poll.splits sum.splits)
    next
      case True
      with i have v: "open_stream unsent ?base ?sent (wire_data fs) v" by auto
      have "understands unsent ?base ?sent (await (ws_read_exact 2) (\<lambda>response.
          lift_result (ensure (response = [VLESS_VERSION, 0]) BadVlessResponse)))
        (\<lambda>bs. and_then (read_exact VlessEof 2 bs) (\<lambda>(response, bs).
          and_then (ensure (response = [VLESS_VERSION, 0]) BadVlessResponse) (\<lambda>x. Inr (x, bs))))"
        by (rule understands_await [OF understands_read_exact understands_result])
      note j = understandsD [OF this v c]
      show ?thesis
      proof (cases c)
        case Pending
        have short: "take 2 (wire_data fs) \<noteq> [VLESS_VERSION, 0]" if "\<not> 2 \<le> length (wire_data fs)"
          using that by (cases "wire_data fs"; cases "tl (wire_data fs)") auto
        with True Pending r j show ?thesis
          by (cases "take 2 (wire_data fs) = [VLESS_VERSION, 0]") (auto simp: waits_for_peer_def read_exact_def split: if_splits)
      next
        case (Ready x)
        show ?thesis
        proof (cases x)
          case (Inl e)
          with True Ready r j show ?thesis by (auto simp: read_exact_def ensure_def split: if_splits)
        next
          case (Inr z)
          with Ready j obtain rest where rest: "2 \<le> length (wire_data fs)" "take 2 (wire_data fs) = [VLESS_VERSION, 0]"
            "rest = drop 2 (wire_data fs)" "open_stream unsent ?base ?sent rest q"
            by (auto simp: read_exact_def split: if_splits)
          then have "wire_data fs = VLESS_VERSION # 0 # rest" using append_take_drop_id [of 2 "wire_data fs"] by simp
          with open_stream_later [OF rest(4)] True Ready Inr r e(3) show ?thesis by auto
        qed
      qed
    qed
  qed
qed

text \<open>The server's own answer is well formed.\<close>

lemma length_encode_base64: "length (encode_base64 bs) = 4 * ((length bs + 2) div 3)"
proof (induction bs rule: encode_base64.induct)
  case (4 a b c rest)
  have "(length (a # b # c # rest) + 2) div 3 = Suc ((length rest + 2) div 3)" by simp
  with 4 show ?case by (simp only: encode_base64.simps length_append) simp
qed simp_all

lemma length_sha1: "length (sha1 m) = 20"
  by (simp add: sha1_def Let_def split: prod.split)

lemma switching_wf:
  "http_wf (''HTTP/1.1 '' @ show_nat 101 @ '' '' @ ''Switching Protocols'') (switching_headers (websocket_accept key))"
proof -
  let ?accept = "websocket_accept key"
  have n: "show_nat 101 = ''101''" by code_simp
  have "line_text (''HTTP/1.1 '' @ show_nat 101 @ '' '' @ ''Switching Protocols'')"
    unfolding n line_text_def by (intro conjI is_ascii_is_str) simp_all
  moreover have "list_all header_wf (switching_headers ?accept)"
    using base64_graphic(1) by (auto simp: switching_headers_def websocket_accept_def graphic_def intro!: graphic_header_wf)
  moreover have "length ?accept = 28" by (simp add: websocket_accept_def length_encode_base64 length_sha1)
  then have "length (put_http (''HTTP/1.1 '' @ show_nat 101 @ '' '' @ ''Switching Protocols'') (switching_headers ?accept))
      \<le> MAX_HTTP_HEADER_SIZE"
    by (simp add: put_http_def switching_headers_def header_line_def n MAX_HTTP_HEADER_SIZE_def)
  ultimately show ?thesis by (simp add: http_wf_def)
qed

section \<open>What a stream handed over\<close>

text \<open>
  \<open>ws_delivers s bs t\<close>: reads of any sizes, some of which had to wait, took the stream from \<open>s\<close> to \<open>t\<close> and handed
  over the bytes \<open>bs\<close>; the transport behind it may do what it likes.
\<close>

inductive ws_delivers :: "ws_stream \<Rightarrow> bytes \<Rightarrow> ws_stream \<Rightarrow> bool" where
  nothing: "ws_delivers s [] s"
| waits: "ws_delivers s bs t \<Longrightarrow> poll_read n t = (Pending, u) \<Longrightarrow> ws_delivers s bs u"
| piece: "ws_delivers s bs t \<Longrightarrow> poll_read n t = (Ready (Inr d), u) \<Longrightarrow> ws_delivers s (bs @ d) u"

lemma ws_read_exact_delivers:
  "ws_delivers s0 (bs @ got) s \<Longrightarrow> ws_read_exact_from got n s = (Ready (Inr v), t) \<Longrightarrow>
    ws_delivers s0 (bs @ v) t \<and> length v = length got + n"
proof (induction got n s rule: ws_read_exact_from.induct)
  case (1 got n s)
  show ?case
  proof (cases "n = 0")
    case True
    with 1(3,4) show ?thesis by (simp add: ws_read_exact_from.simps [of got 0 s])
  next
    case n: False
    obtain a u where a: "poll_read n s = (a, u)" by force
    from 1(4) n a consider "a = Pending" "script_size u < script_size s" | d where "a = Ready (Inr d)" "d \<noteq> []"
      by (auto simp: ws_read_exact_from.simps [of got n s] split: poll.splits sum.splits if_splits)
    then show ?thesis
    proof cases
      case p: 1
      with 1(4) n a have "ws_read_exact_from got n u = (Ready (Inr v), t)" by (simp add: ws_read_exact_from.simps [of got n s])
      moreover from a p(1) have "ws_delivers s0 (bs @ got) u" using ws_delivers.waits [OF 1(3)] by simp
      ultimately show ?thesis using "1.IH"(2) [OF n a [symmetric] p] by blast
    next
      case p: (2 d)
      with 1(4) n a have r: "ws_read_exact_from (got @ d) (n - length d) u = (Ready (Inr v), t)"
        by (simp add: ws_read_exact_from.simps [of got n s])
      from a p(1) have "ws_delivers s0 (bs @ got @ d) u" using ws_delivers.piece [OF 1(3)] by simp
      from "1.IH"(1) [OF n a [symmetric] p(1) refl p(2) this r] poll_read_length [of n s d u] a p(1) show ?thesis by simp
    qed
  qed
qed

lemma await_eq_Inr:
  "await m f s = (Ready (Inr y), t) \<longleftrightarrow> (\<exists>x u. m s = (Ready (Inr x), u) \<and> f x u = (Ready (Inr y), t))"
  by (auto simp: await_def split: prod.splits poll.splits sum.splits)

lemma lift_result_eq_Inr: "lift_result r s = (Ready (Inr y), t) \<longleftrightarrow> r = Inr y \<and> t = s"
  by (auto simp: lift_result_def)

lemma await_vless_request_user:
  assumes "await_vless_request users s = (Ready (Inr (a, user)), t)"
  shows "\<exists>uuid u. ws_delivers s (VLESS_VERSION # uuid) u \<and> length uuid = 16 \<and> users uuid = Some user"
proof -
  from assms obtain version s1 uuid s2 where v: "ws_read_exact 1 s = (Ready (Inr version), s1)"
    "byte_of version = VLESS_VERSION" "ws_read_exact 16 s1 = (Ready (Inr uuid), s2)" "users uuid = Some user"
    by (auto simp: await_vless_request_def await_eq_Inr lift_result_eq_Inr ret_def)
  from ws_read_exact_delivers [of s "[]" "[]" s 1 version s1] v(1)
  have one: "ws_delivers s version s1" "length version = 1" by (simp_all add: ws_read_exact_def ws_delivers.nothing)
  from one(2) v(2) have version: "version = [VLESS_VERSION]" by (cases version) (simp_all add: byte_of_def)
  from ws_read_exact_delivers [of s version "[]" s1 16 uuid s2] v(3) one(1)
  have "ws_delivers s (version @ uuid) s2" "length uuid = 16" by (simp_all add: ws_read_exact_def)
  with version v(4) show ?thesis by auto
qed

lemma accept_websocket_Some:
  assumes "accept_websocket path early_name t = (Ready (Inr (Some (tail, early))), t')"
  shows "\<exists>request u. read_http_request t = (Ready (Inr request), u) \<and> vh_method request = ''GET'' \<and> vh_path request = path
    \<and> ensure_websocket_request request = Inr () \<and> early_data_of early_name request = Inr early \<and> tail = vh_tail request"
  using assms by (auto simp: accept_websocket_def await_eq_Inr lift_result_eq_Inr ret_def split: if_splits)

section \<open>Properties\<close>

text \<open>C8: The VLESS inbound serves the outbound's requests. Let a client with any server name, headers and early-data
  setting open a tunnel to any destination, and let its bytes arrive in any pieces with any pauses: the
  handshake, the early data if its request fits, then WebSocket frames that carry the rest of the request and the
  data. \<open>handle_connection_inner\<close> never answers with an HTTP error and never refuses: it fails only with
  the transport and waits only for the peer or for the transport to take its bytes; otherwise the session has the
  destination and the name of the user, every later use of the stream reads exactly the client's data, and what
  was sent is the \<open>101\<close> response with the accept key and a frame with the VLESS response.
\<close>

theorem vless_inbound_serves:
  assumes agrees: "client_agrees opt path early_name key request"
    and request: "encode_vless_request (vo_uuid opt) destination = Inr request" and dest: "address_ok destination"
    and user: "length (vo_uuid opt) = 16" "users (vo_uuid opt) = Some user"
    and sent: "incoming (t_reads t) @ unsent = as_bytes (upgrade_text opt key request) @ concat (map put_wire fs)"
    and seq: "wire_seq False False fs" and data: "wire_data fs = (if sends_early opt request then [] else request) @ bytes"
    and fin: "sees_end (t_reads t) \<Longrightarrow> unsent = []"
    and run: "handle_connection_inner source tag path early_name users random t = (r, t')"
  shows "case r of
      Pending \<Rightarrow> unsent \<noteq> [] \<or> t_writes t' = []
    | Ready (Inl e) \<Rightarrow> e \<in> {VlessIo InnerFailed, VlessIo WriteZero, VlessIo NoRandom}
    | Ready (Inr None) \<Rightarrow> False
    | Ready (Inr (Some (session, s))) \<Rightarrow>
        session = session_inbound Tcp source (canonical destination) tag ''vless'' (Some user)
        \<and> reads_later bytes s
        \<and> has_sent (t_sent t @ as_bytes (switching_text (websocket_accept key))) False [VLESS_VERSION, 0] s"
proof -
  let ?early = "if sends_early opt request then request else []"
  from agrees have abs: "absolute_path (vo_path opt) = path"
    and chars: "\<forall>c \<in> set path. graphic c \<and> c \<noteq> CHR ''?''"
    and wf': "http_wf (upgrade_line opt) (upgrade_headers opt key request)"
    unfolding client_agrees_def by blast+
  from wf' have wf: "http_wf (''GET '' @ path @ '' HTTP/1.1'') (upgrade_headers opt key request)"
    by (simp only: upgrade_line_def abs)
  have "absolute_path p \<noteq> []" for p by (cases p) (simp_all add: absolute_path_def)
  with abs have path: "path \<noteq> []" by blast
  from chars have path: "path \<noteq> []" "\<forall>c \<in> set path. graphic c" "CHR ''?'' \<notin> set path"
    using path by blast+
  from sent have sent': "incoming (t_reads t) @ unsent
      = as_bytes (put_http (''GET '' @ path @ '' HTTP/1.1'') (upgrade_headers opt key request)) @ concat (map put_wire fs)"
    by (simp only: upgrade_text_put upgrade_line_def abs)
  have all: "?early @ wire_data fs = request @ bytes" by (simp add: data)
  have parsed: "read_vless_request users (?early @ wire_data fs) = Inr ((canonical destination, user), bytes)"
    unfolding all using read_vless_encode [OF dest user(1) request] user(2) by simp
  have "hd (split_on (CHR ''?'') path) = path" using split_on_single [OF path(3)] by simp
  note served = handle_connection_served [OF wf path(1,2) this client_asks [OF agrees] sent' seq _ run, unfolded parsed]
  show ?thesis
  proof (cases r)
    case Pending
    with served fin show ?thesis by simp
  next
    case (Ready x)
    show ?thesis
    proof (cases x)
      case (Inl e)
      with served fin Ready show ?thesis by (simp add: transport_errors_def)
    next
      case (Inr y)
      with served fin Ready show ?thesis by (cases y) auto
    qed
  qed
qed

theorem vless_inbound_serves_witness:
  "\<exists>opt request t r t'. encode_vless_request (vo_uuid opt) \<lparr>host = ''x'', port = 80\<rparr> = Inr request
    \<and> incoming (t_reads t) = as_bytes (upgrade_text opt ''k'' request)
        @ put_wire \<lparr>wf_fin = True, wf_opcode = 2, wf_form = 0, wf_mask = Some 5, wf_payload = request @ [7]\<rparr>
    \<and> handle_connection_inner (SockV4 1 2) ''in'' ''/v'' [] (\<lambda>_. Some ''u'') (\<lambda>_. None) t = (r, t')
    \<and> (case r of
        Pending \<Rightarrow> ([] :: bytes) \<noteq> [] \<or> t_writes t' = []
      | Ready (Inl e) \<Rightarrow> e \<in> {VlessIo InnerFailed, VlessIo WriteZero, VlessIo NoRandom}
      | Ready (Inr None) \<Rightarrow> False
      | Ready (Inr (Some (session, s))) \<Rightarrow>
          session = session_inbound Tcp (SockV4 1 2) (canonical \<lparr>host = ''x'', port = 80\<rparr>) ''in'' ''vless'' (Some ''u'')
          \<and> reads_later [7] s
          \<and> has_sent (t_sent t @ as_bytes (switching_text (websocket_accept ''k''))) False [VLESS_VERSION, 0] s)"
proof -
  let ?opt = "\<lparr>vo_server = ''h'', vo_server_port = 443, vo_uuid = replicate 16 9, vo_path = ''v'', vo_headers = [],
    vo_max_early_data = 0, vo_early_name = [], vo_server_name = []\<rparr>"
  let ?d = "\<lparr>host = ''x'', port = 80\<rparr>"
  have none: "parse_ip ''x'' = None" by (rule parse_ip_letter) (simp_all add: to_digit_def)
  obtain request where request: "encode_vless_request (vo_uuid ?opt) ?d = Inr request" "length request = 24"
    by (auto simp: encode_vless_request_def none Let_def)
  let ?f = "\<lparr>wf_fin = True, wf_opcode = 2, wf_form = 0, wf_mask = Some 5, wf_payload = request @ [7]\<rparr>"
  let ?t = "\<lparr>t_reads = [ReadBytes (as_bytes (upgrade_text ?opt ''k'' request)), ReadPending, ReadBytes (put_wire ?f), ReadBytes []],
    t_writes = [WriteAccepts 10, WritePending, WriteAccepts 999, WriteAccepts 9], t_sent = []\<rparr>"
  have early: "\<not> sends_early ?opt request" by (simp add: sends_early_def)
  have line: "upgrade_line ?opt = ''GET /v HTTP/1.1''" by (simp add: upgrade_line_def absolute_path_def)
  have hs: "upgrade_headers ?opt ''k'' request = [(''Host'', ''h''), (''Upgrade'', ''websocket''), (''Connection'', ''Upgrade''),
      (''Sec-WebSocket-Version'', ''13''), (''Sec-WebSocket-Key'', ''k'')]"
    by (simp add: upgrade_headers_def early)
  have "list_all header_wf (upgrade_headers ?opt ''k'' request)"
    unfolding hs by (auto simp: graphic_def intro!: graphic_header_wf)
  moreover have "line_text ''GET /v HTTP/1.1''" unfolding line_text_def by (intro conjI is_ascii_is_str) simp_all
  ultimately have "http_wf (upgrade_line ?opt) (upgrade_headers ?opt ''k'' request)"
    by (simp add: http_wf_def line hs put_http_def header_line_def MAX_HTTP_HEADER_SIZE_def)
  then have agrees: "client_agrees ?opt ''/v'' [] ''k'' request"
    by (simp add: client_agrees_def absolute_path_def early graphic_def request(2) MAX_WS_FRAME_SIZE_def)
  have dest: "address_ok ?d" by (auto simp: address_ok_def intro: is_ascii_is_str)
  have "upgrade_text ?opt ''k'' request \<noteq> []" by (simp add: upgrade_text_def)
  then have sent: "incoming (t_reads ?t) @ [] = as_bytes (upgrade_text ?opt ''k'' request) @ concat (map put_wire [?f])"
    by (simp add: as_bytes_def)
  have seq: "wire_seq False False [?f]"
    using request(2) by (simp add: wire_ok_def wf_control_def MAX_WS_FRAME_SIZE_def)
  have data: "wire_data [?f] = (if sends_early ?opt request then [] else request) @ [7]" using early by (simp add: wf_control_def)
  obtain r t' where run: "handle_connection_inner (SockV4 1 2) ''in'' ''/v'' [] (\<lambda>_. Some ''u'') (\<lambda>_. None) ?t = (r, t')" by force
  have "length (vo_uuid ?opt) = 16" "(\<lambda>_. Some ''u'') (vo_uuid ?opt) = Some ''u''" by simp_all
  note served = vless_inbound_serves [OF agrees request(1) dest this sent seq data refl run]
  from sent have "incoming (t_reads ?t) = as_bytes (upgrade_text ?opt ''k'' request) @ put_wire ?f" by simp
  then show ?thesis
    by (intro exI [of _ ?opt] exI [of _ request] exI [of _ ?t] exI [of _ r] exI [of _ t'] conjI request(1) run served)
qed

text \<open>C9: The VLESS outbound opens its tunnel. When a TCP session is connected and the server answers as the inbound does,
  with frames that start with the VLESS response, in any pieces, \<open>connect\<close> fails only with the transport or the
  random generator and waits only for the peer or for the transport to take its bytes; otherwise it has sent its
  handshake and, unless the request went as early data, exactly the request in masked frames, and
  every later use of the stream reads exactly what follows the response.
\<close>

theorem vless_outbound_opens:
  assumes tcp: "s_network session = Tcp" and server: "vo_server opt \<noteq> []"
    and dial: "dial \<lparr>host = vo_server opt, port = vo_server_port opt\<rparr> = Inr t"
    and request: "encode_vless_request (vo_uuid opt) (s_destination session) = Inr request"
    and sent: "incoming (t_reads t) @ unsent
      = as_bytes (switching_text (websocket_accept (websocket_key nonce))) @ concat (map put_wire fs)"
    and seq: "wire_seq True False fs" and data: "wire_data fs = [VLESS_VERSION, 0] @ bytes"
    and fin: "sees_end (t_reads t) \<Longrightarrow> unsent = []"
    and run: "vless_dial opt dial session (Some nonce) random = (r, t')"
  shows "case r of
      Pending \<Rightarrow> unsent \<noteq> [] \<or> (\<exists>u. t' = Some u \<and> t_writes u = [])
    | Ready (Inl e) \<Rightarrow> e \<in> {VlessIo InnerFailed, VlessIo WriteZero, VlessIo NoRandom}
    | Ready (Inr s) \<Rightarrow> reads_later bytes s
        \<and> has_sent (t_sent t @ as_bytes (upgrade_text opt (websocket_key nonce) request)) True
            (if sends_early opt request then [] else request) s"
proof -
  obtain u where u: "vless_connect opt (s_destination session) (Some nonce) random t = (r, u)" "t' = Some u"
    using run dial by (auto simp: vless_dial_def tcp vless_addr_ok [OF server] split: prod.splits)
  from vless_connect_opened [OF request switching_wf switching_answers sent [unfolded switching_text_put] seq _ u(1)] fin data u(2)
  show ?thesis unfolding transport_errors_def by (auto split: poll.splits sum.splits)
qed

theorem vless_outbound_opens_witness:
  "\<exists>opt request t r t'. encode_vless_request (vo_uuid opt) \<lparr>host = ''x'', port = 80\<rparr> = Inr request
    \<and> incoming (t_reads t) = as_bytes (switching_text (websocket_accept (websocket_key [1, 2])))
        @ put_wire \<lparr>wf_fin = True, wf_opcode = 2, wf_form = 0, wf_mask = None, wf_payload = [VLESS_VERSION, 0, 7]\<rparr>
    \<and> vless_dial opt (\<lambda>_. Inr t) (session_outbound \<lparr>host = ''x'', port = 80\<rparr>) (Some [1, 2]) (\<lambda>_. Some 5) = (r, t')
    \<and> (case r of
        Pending \<Rightarrow> ([] :: bytes) \<noteq> [] \<or> (\<exists>u. t' = Some u \<and> t_writes u = [])
      | Ready (Inl e) \<Rightarrow> e \<in> {VlessIo InnerFailed, VlessIo WriteZero, VlessIo NoRandom}
      | Ready (Inr s) \<Rightarrow> reads_later [7] s
          \<and> has_sent (t_sent t @ as_bytes (upgrade_text opt (websocket_key [1, 2]) request)) True
              (if sends_early opt request then [] else request) s)"
proof -
  let ?opt = "\<lparr>vo_server = ''h'', vo_server_port = 443, vo_uuid = replicate 16 9, vo_path = ''v'', vo_headers = [],
    vo_max_early_data = 0, vo_early_name = [], vo_server_name = []\<rparr>"
  let ?session = "session_outbound \<lparr>host = ''x'', port = 80\<rparr>"
  have none: "parse_ip ''x'' = None" by (rule parse_ip_letter) (simp_all add: to_digit_def)
  obtain request where request: "encode_vless_request (vo_uuid ?opt) \<lparr>host = ''x'', port = 80\<rparr> = Inr request"
    by (auto simp: encode_vless_request_def none Let_def)
  let ?f = "\<lparr>wf_fin = True, wf_opcode = 2, wf_form = 0, wf_mask = None, wf_payload = [VLESS_VERSION, 0, 7]\<rparr>"
  let ?answer = "as_bytes (switching_text (websocket_accept (websocket_key [1, 2])))"
  let ?t = "\<lparr>t_reads = [ReadBytes (?answer @ put_wire ?f), ReadBytes []],
    t_writes = [WriteAccepts 999, WriteAccepts 999, WriteAccepts 9], t_sent = []\<rparr>"
  have session: "s_network ?session = Tcp" "vo_server ?opt \<noteq> []"
    "(\<lambda>_. Inr ?t) \<lparr>host = vo_server ?opt, port = vo_server_port ?opt\<rparr> = Inr ?t"
    "encode_vless_request (vo_uuid ?opt) (s_destination ?session) = Inr request"
    using request by (simp_all add: session_outbound_def)
  have sent: "incoming (t_reads ?t) @ [] = ?answer @ concat (map put_wire [?f])" by simp
  have seq: "wire_seq True False [?f]" by (simp add: wire_ok_def wf_control_def MAX_WS_FRAME_SIZE_def)
  have data: "wire_data [?f] = [VLESS_VERSION, 0] @ [7]" by (simp add: wf_control_def)
  obtain r t' where run: "vless_dial ?opt (\<lambda>_. Inr ?t) ?session (Some [1, 2]) (\<lambda>_. Some 5) = (r, t')" by force
  note opened = vless_outbound_opens [OF session sent seq data refl run]
  from sent have "incoming (t_reads ?t) = ?answer @ put_wire ?f" by simp
  then show ?thesis
    by (intro exI [of _ ?opt] exI [of _ request] exI [of _ ?t] exI [of _ r] exI [of _ t'] conjI request run opened)
qed

text \<open>C18: The VLESS inbound serves no stranger. Whatever the peer sends, well formed or not, and however the transport behaves:
  a session is handed to the router only when the request was a GET of the configured path that asks for a
  WebSocket, and the stream behind it, early data first, handed over the version and then the sixteen bytes of a user of the
  table; and the session has that user's name.
\<close>

theorem vless_inbound_authenticates:
  assumes "handle_connection_inner source tag path early_name users random t = (Ready (Inr (Some (session, s))), t')"
  shows "\<exists>request u early v uuid user w. read_http_request t = (Ready (Inr request), u)
    \<and> vh_method request = ''GET'' \<and> vh_path request = path \<and> ensure_websocket_request request = Inr ()
    \<and> early_data_of early_name request = Inr early
    \<and> accept_websocket path early_name t = (Ready (Inr (Some (vh_tail request, early))), v)
    \<and> ws_delivers (ws_new v random (vh_tail request) early False) (VLESS_VERSION # uuid) w
    \<and> length uuid = 16 \<and> users uuid = Some user \<and> s_user session = Some user"
proof -
  obtain a v where a: "accept_websocket path early_name t = (a, v)" by force
  with assms obtain tail early where acc: "a = Ready (Inr (Some (tail, early)))"
    by (auto simp: handle_connection_inner_def split: poll.splits sum.splits option.splits)
  from accept_websocket_Some [OF a [unfolded acc]] obtain request u where
    r: "read_http_request t = (Ready (Inr request), u)" "vh_method request = ''GET''" "vh_path request = path"
      "ensure_websocket_request request = Inr ()" "early_data_of early_name request = Inr early" "tail = vh_tail request" by blast
  from assms a acc have "serve_stream source tag users (ws_new v random tail early False) = (Ready (Inr session), s)"
    by (auto simp: handle_connection_inner_def split: prod.splits poll.splits sum.splits)
  then obtain destination user x where x: "await_vless_request users (ws_new v random tail early False) = (Ready (Inr (destination, user)), x)"
    "session = session_inbound Tcp source destination tag ''vless'' (Some user)"
    by (auto simp: serve_stream_def await_eq_Inr ret_def)
  from await_vless_request_user [OF x(1)] obtain uuid w where
    "ws_delivers (ws_new v random tail early False) (VLESS_VERSION # uuid) w" "length uuid = 16" "users uuid = Some user" by blast
  with r x(2) a acc show ?thesis by (auto simp: session_inbound_def)
qed

text \<open>A request whose early data is a whole VLESS request, of a user of the table.\<close>

definition sample_early :: bytes where
  "sample_early = 0 # replicate 16 9 @ [0, 1, 0, 80, 2, 1, 120]"

definition sample_hs :: header_list where
  "sample_hs = [(''Upgrade'', ''WebSocket''), (''Connection'', ''keep-alive,Upgrade''), (''Sec-WebSocket-Key'', ''k''),
     (''D'', encode_base64_url sample_early)]"

definition sample_transport :: transport where
  "sample_transport = \<lparr>t_reads = [ReadBytes (as_bytes (put_http (''GET '' @ ''/v?e'' @ '' HTTP/1.1'') sample_hs))],
     t_writes = [WriteAccepts 999, WriteAccepts 9], t_sent = []\<rparr>"

lemma read_one_head:
  assumes wf: "http_wf line hs" and reads: "t_reads t = [ReadBytes (as_bytes (put_http line hs))]"
    and size: "length (put_http line hs) \<le> HTTP_CHUNK"
  shows "read_http_head [] t = (Ready (Inr (length (put_http line hs), as_bytes (put_http line hs))), t\<lparr>t_reads := []\<rparr>)"
proof -
  let ?d = "as_bytes (put_http line hs)"
  have long: "4 \<le> length (put_http line hs)" using put_http_long [of line hs] by simp
  then have "?d \<noteq> []" by (auto simp: as_bytes_def)
  with reads size have "http_read t = (Ready (Inr ?d), t\<lparr>t_reads := []\<rparr>)" by (simp add: http_read_def)
  with put_http_found [OF wf, of "[]"] long \<open>?d \<noteq> []\<close> show ?thesis
    by (simp add: read_http_head.simps [of "[]" t] Let_def MAX_HTTP_HEADER_SIZE_def)
qed

lemma sample_accepted:
  "\<exists>sent. accept_websocket ''/v'' ''d'' sample_transport
    = (Ready (Inr (Some ([], sample_early))), \<lparr>t_reads = [], t_writes = [WriteAccepts 9], t_sent = sent\<rparr>)"
proof -
  let ?line = "''GET '' @ ''/v?e'' @ '' HTTP/1.1''"
  have size: "length (encode_base64_url sample_early) \<le> 36"
  proof -
    have "length (trim_end_matches (CHR ''='') (encode_base64 sample_early)) \<le> 32"
      using length_dropWhile_le [of "\<lambda>c. c = CHR ''=''" "rev (encode_base64 sample_early)"]
      by (simp add: trim_end_matches_def length_encode_base64 sample_early_def)
    then show ?thesis by (simp add: encode_base64_url_def replace_char_def)
  qed
  have "list_all header_wf sample_hs"
    using base64_graphic(2) by (auto simp: sample_hs_def graphic_def intro!: graphic_header_wf)
  moreover have "line_text ?line" unfolding line_text_def by (intro conjI is_ascii_is_str) simp_all
  moreover have len: "length (put_http ?line sample_hs) \<le> 300"
    using size by (simp add: put_http_def header_line_def sample_hs_def)
  ultimately have wf: "http_wf ?line sample_hs" by (simp add: http_wf_def MAX_HTTP_HEADER_SIZE_def)
  let ?t = "sample_transport\<lparr>t_reads := []\<rparr>"
  have head: "read_http_head [] sample_transport
      = (Ready (Inr (length (put_http ?line sample_hs), as_bytes (put_http ?line sample_hs))), ?t)"
    by (rule read_one_head [OF wf]) (use len in \<open>simp_all add: sample_transport_def HTTP_CHUNK_def\<close>)
  have target: "''/v?e'' \<noteq> []" "\<forall>c \<in> set ''/v?e''. graphic c" by (simp_all add: graphic_def)
  let ?r = "\<lparr>vh_method = ''GET'', vh_path = ''/v'', vh_headers = header_map sample_hs, vh_tail = []\<rparr>"
  have "hd (split_on (CHR ''?'') ''/v?e'') = ''/v''" by code_simp
  with request_of_put [OF wf target, of "[]"] head have req: "read_http_request sample_transport = (Ready (Inr ?r), ?t)"
    by (simp add: read_http_request_def await_def lift_result_def)
  have names: "to_ascii_lowercase ''D'' = ''d''" "to_ascii_lowercase ''d'' = ''d''"
    "eq_ignore_ascii_case ''WebSocket'' ''websocket''" "eq_ignore_ascii_case ''Upgrade'' ''upgrade''" by code_simp+
  have m: "header_map sample_hs ''upgrade'' = Some ''WebSocket''" "header_map sample_hs ''connection'' = Some ''keep-alive,Upgrade''"
    "header_map sample_hs ''sec-websocket-key'' = Some ''k''" "header_map sample_hs ''d'' = Some (encode_base64_url sample_early)"
    by (simp_all add: header_map_def sample_hs_def upgrade_names names)
  have ok: "ensure_websocket_request ?r = Inr ()"
    using m by (simp add: ensure_websocket_request_def vh_header_def lowercase_names names trim_graphic graphic_def)
  have early: "early_data_of ''d'' ?r = Inr sample_early"
    using m by (simp add: early_data_of_def vh_header_def names base64_url_roundtrip ensure_def sample_early_def MAX_WS_FRAME_SIZE_def)
  have key: "vh_header ?r ''sec-websocket-key'' = Some ''k''" using m by (simp add: vh_header_def lowercase_names)
  let ?answer = "as_bytes (switching_text (websocket_accept ''k''))"
  have "length ?answer \<le> 999" "?answer \<noteq> []"
    by (simp_all add: switching_text_def websocket_accept_def length_encode_base64 length_sha1 as_bytes_def)
  then have "write_all ?answer ?t = (Ready (Inr ()), \<lparr>t_reads = [], t_writes = [WriteAccepts 9], t_sent = ?answer\<rparr>)"
    by (cases ?answer) (simp_all add: write_all_def sample_transport_def)
  with req ok early key show ?thesis
    by (simp add: accept_websocket_def await_def lift_result_def ret_def)
qed

lemma early_read:
  assumes "0 < n" and "ws_early_offset s + n \<le> length (ws_early s)"
  shows "ws_read_exact n s = (Ready (Inr (take n (drop (ws_early_offset s) (ws_early s)))), s\<lparr>ws_early_offset := ws_early_offset s + n\<rparr>)"
proof -
  let ?bs = "take n (drop (ws_early_offset s) (ws_early s))" and ?t = "s\<lparr>ws_early_offset := ws_early_offset s + n\<rparr>"
  from assms have "poll_read n s = (Ready (Inr ?bs), ?t)" by (simp add: poll_read_def Let_def)
  moreover from assms have "length ?bs = n" by simp
  moreover from this assms(1) have "?bs \<noteq> []" by auto
  ultimately show ?thesis
    using assms(1) by (simp add: ws_read_exact_def ws_read_exact_from.simps [of "[]" n s] ws_read_exact_from.simps [of ?bs 0])
qed

lemma sample_early_list: "sample_early = [0, 9, 9, 9, 9, 9, 9, 9, 9, 9, 9, 9, 9, 9, 9, 9, 9, 0, 1, 0, 80, 2, 1, 120]"
  by (simp add: sample_early_def eval_nat_numeral)

lemma sample_request:
  assumes "s = ws_new v random [] sample_early False"
  shows "await_vless_request [replicate 16 9 \<mapsto> ''u''] s
    = (Ready (Inr (\<lparr>host = ''x'', port = 80\<rparr>, ''u'')), s\<lparr>ws_early_offset := 24\<rparr>)"
proof -
  have u: "replicate 16 (9 :: u8) = [9, 9, 9, 9, 9, 9, 9, 9, 9, 9, 9, 9, 9, 9, 9, 9]" by (simp add: eval_nat_numeral)
  have "from_utf8 VlessDomainNotUtf8 [120] = Inr ''x''"
    using from_utf8_as_bytes [OF is_ascii_is_str, of "''x''" VlessDomainNotUtf8] by (simp add: as_bytes_def)
  then show ?thesis
    unfolding u by (simp add: assms await_vless_request_def await_vless_host_def await_def lift_result_def ret_def early_read
      ws_new_def sample_early_list byte_of_def VLESS_VERSION_def VLESS_COMMAND_TCP_def ensure_def ok_or_def from_be_def
      be_nat_def vless_addr_ok)
qed

theorem vless_inbound_authenticates_witness:
  "\<exists>session s t' request early v uuid w.
    handle_connection_inner (SockV4 1 2) ''in'' ''/v'' ''d'' [replicate 16 9 \<mapsto> ''u''] (\<lambda>_. None) sample_transport
      = (Ready (Inr (Some (session, s))), t')
    \<and> vh_path request = ''/v'' \<and> early_data_of ''d'' request = Inr early
    \<and> ws_delivers (ws_new v (\<lambda>_. None) (vh_tail request) early False) (VLESS_VERSION # uuid) w
    \<and> uuid = replicate 16 9 \<and> s_user session = Some ''u''"
proof -
  obtain sent where a: "accept_websocket ''/v'' ''d'' sample_transport
    = (Ready (Inr (Some ([], sample_early))), \<lparr>t_reads = [], t_writes = [WriteAccepts 9], t_sent = sent\<rparr>)"
    using sample_accepted by blast
  let ?v = "\<lparr>t_reads = [], t_writes = [WriteAccepts 9], t_sent = sent\<rparr>" and ?users = "[replicate 16 (9 :: u8) \<mapsto> ''u'']"
  let ?s = "ws_new ?v (\<lambda>_. None) [] sample_early False"
  have "\<exists>w. ws_write_all [VLESS_VERSION, 0] (?s\<lparr>ws_early_offset := 24\<rparr>) = (Ready (Inr ()), w)"
    by (simp add: ws_write_all.simps ws_eval VLESS_VERSION_def)
  then obtain w where "ws_write_all [VLESS_VERSION, 0] (?s\<lparr>ws_early_offset := 24\<rparr>) = (Ready (Inr ()), w)" by blast
  with sample_request [OF refl, of ?v "\<lambda>_. None"] obtain session where
    "serve_stream (SockV4 1 2) ''in'' ?users ?s = (Ready (Inr session), w)"
    by (simp add: serve_stream_def await_def ret_def)
  with a have run: "handle_connection_inner (SockV4 1 2) ''in'' ''/v'' ''d'' ?users (\<lambda>_. None) sample_transport
      = (Ready (Inr (Some (session, w))), ws_inner w)" by (simp add: handle_connection_inner_def)
  from vless_inbound_authenticates [OF run] obtain request early v uuid user x where
    "vh_path request = ''/v''" "early_data_of ''d'' request = Inr early"
    "ws_delivers (ws_new v (\<lambda>_. None) (vh_tail request) early False) (VLESS_VERSION # uuid) x"
    "?users uuid = Some user" "s_user session = Some user" by blast
  then show ?thesis using run by (fastforce split: if_splits)
qed

end
