(* ===== verification/Cf_Discovery.thy ===== *)
theory Cf_Discovery
  imports Rust_Text "HOL-Library.Product_Lexorder"
begin

text \<open>
  The discovery of tunnel edges of the Cloudflared crate (\<open>discovery.rs\<close>): DNS queries and responses for SRV
  records, the system resolver and DNS over TLS as its fallback, and the edges in the order in which the connections
  use them. The sockets that carry one query and \<open>lookup_host\<close> are parameters. The properties: the response of a
  server to a query is read back, compressed names included, and the edges are exactly the addresses of the
  version asked for, sorted, each once.
\<close>

section \<open>Addresses in order\<close>

text \<open>The derived order of \<open>SocketAddr\<close>: version, address, port, then flow and scope.\<close>

fun sock_key :: "socket_addr \<Rightarrow> nat \<times> nat \<times> nat \<times> nat \<times> nat" where
  "sock_key (SockV4 a p) = (0, unat a, unat p, 0, 0)"
| "sock_key (SockV6 a p f s) = (1, unat a, unat p, unat f, unat s)"

lemma sock_key_inject: "sock_key x = sock_key y \<longleftrightarrow> x = y"
  by (cases x; cases y) (auto simp: unsigned_word_eqI)

instantiation socket_addr :: linorder
begin

definition less_eq_socket_addr :: "socket_addr \<Rightarrow> socket_addr \<Rightarrow> bool" where
  "less_eq_socket_addr x y \<longleftrightarrow> sock_key x \<le> sock_key y"

definition less_socket_addr :: "socket_addr \<Rightarrow> socket_addr \<Rightarrow> bool" where
  "less_socket_addr x y \<longleftrightarrow> sock_key x < sock_key y"

instance
  by intro_classes (auto simp: less_eq_socket_addr_def less_socket_addr_def less_le_not_le sock_key_inject [symmetric]
    simp del: sock_key.simps)

end

section \<open>Messages\<close>

datatype dns_error =
    InvalidLabel | TooShort | IdMismatch | NotResponse | ErrorCode u16
  | NameTruncated | PointerTruncated | PointerInvalid | LabelLength | LabelTruncated | LabelUtf8 | CompressionLoop
  | ResponseTruncated | RecordTruncated
  | NoNameserver | NameserverInvalid | SourceMismatch | DnsIo | NoRecords | Unresolved | NoEdges

record srv_record =
  srv_priority :: u16
  srv_weight :: u16
  srv_port :: u16
  srv_target :: string

definition DNS_TYPE_SRV :: u16 where "DNS_TYPE_SRV = 33"

text \<open>
  \<open>build_dns_query\<close>. The first argument is the counter \<open>NEXT_DNS_ID\<close>, which wraps; the result has its next value.
\<close>

definition dns_label :: "string \<Rightarrow> dns_error + bytes" where
  "dns_label label =
     and_then (ensure (label \<noteq> [] \<and> length label \<le> 63) InvalidLabel) (\<lambda>_.
     Inr (of_nat (length label) # as_bytes label))"

definition build_dns_query :: "u16 \<Rightarrow> string \<Rightarrow> u16 \<Rightarrow> (dns_error + bytes) \<times> u16" where
  "build_dns_query next_id name record_type =
     (and_then (try_map dns_label (split_on (CHR ''.'') (trim_end_matches (CHR ''.'') name))) (\<lambda>labels.
      Inr (be_bytes next_id @ be_bytes (0x0100 :: u16) @ be_bytes (1 :: u16) @ be_bytes (0 :: u16) @ be_bytes (0 :: u16)
        @ be_bytes (0 :: u16) @ concat labels @ [0] @ be_bytes record_type @ be_bytes (1 :: u16))),
      next_id + 1)"

text \<open>
  \<open>read_dns_name\<close>: the loop with the passes left, the cursor, the offset behind the name once a pointer was
  followed, and the labels so far.
\<close>

fun dns_name_from :: "nat \<Rightarrow> bytes \<Rightarrow> nat \<Rightarrow> nat option \<Rightarrow> string list \<Rightarrow> dns_error + (string \<times> nat)" where
  "dns_name_from 0 packet cursor jumped labels = Inl CompressionLoop"
| "dns_name_from (Suc passes) packet cursor jumped labels =
     (if length packet \<le> cursor then Inl NameTruncated
      else let len = packet ! cursor in
        if and len 0xC0 = 0xC0 then
          (if length packet \<le> cursor + 1 then Inl PointerTruncated
           else let pointer = unat (and len 0x3F) * 256 + unat (packet ! (cursor + 1)) in
             if length packet \<le> pointer then Inl PointerInvalid
             else dns_name_from passes packet pointer (Some (case jumped of None \<Rightarrow> cursor + 2 | Some e \<Rightarrow> e)) labels)
        else if len = 0 then
          Inr (join_sep ''.'' labels, case jumped of None \<Rightarrow> cursor + 1 | Some e \<Rightarrow> e)
        else if 63 < len then Inl LabelLength
        else if length packet < cursor + 1 + unat len then Inl LabelTruncated
        else and_then (from_utf8 LabelUtf8 (take (unat len) (drop (cursor + 1) packet))) (\<lambda>label.
          dns_name_from passes packet (cursor + 1 + unat len) jumped (labels @ [label])))"

definition read_dns_name :: "bytes \<Rightarrow> nat \<Rightarrow> dns_error + (string \<times> nat)" where
  "read_dns_name packet offset = dns_name_from 128 packet offset None []"

definition take_at :: "bytes \<Rightarrow> nat \<Rightarrow> nat \<Rightarrow> dns_error + (bytes \<times> nat)" where
  "take_at packet offset len =
     (if offset + len \<le> length packet then Inr (take len (drop offset packet), offset + len)
      else Inl ResponseTruncated)"

definition be16_at :: "bytes \<Rightarrow> nat \<Rightarrow> u16" where
  "be16_at packet i = from_be [packet ! i, packet ! (i + 1)]"

text \<open>The two loops of \<open>parse_srv_response\<close>, over the questions and over the answers.\<close>

fun skip_questions :: "nat \<Rightarrow> bytes \<Rightarrow> nat \<Rightarrow> dns_error + nat" where
  "skip_questions 0 packet offset = Inr offset"
| "skip_questions (Suc n) packet offset =
     and_then (read_dns_name packet offset) (\<lambda>(_, offset).
     and_then (take_at packet offset 4) (\<lambda>(_, offset). skip_questions n packet offset))"

definition read_answer :: "bytes \<Rightarrow> nat \<Rightarrow> dns_error + (srv_record list \<times> nat)" where
  "read_answer packet offset =
     and_then (read_dns_name packet offset) (\<lambda>(_, offset).
     and_then (take_at packet offset 10) (\<lambda>(header, data_start).
       let record_type = be16_at header 0; class = be16_at header 2;
           data_length = unat (be16_at header 8); data_end = data_start + data_length in
       and_then (ensure (data_end \<le> length packet) RecordTruncated) (\<lambda>_.
         if record_type = DNS_TYPE_SRV \<and> class = 1 \<and> 7 \<le> data_length then
           and_then (read_dns_name packet (data_start + 6)) (\<lambda>(target, _).
             Inr ([\<lparr>srv_priority = be16_at packet data_start, srv_weight = be16_at packet (data_start + 2),
                    srv_port = be16_at packet (data_start + 4), srv_target = target\<rparr>], data_end))
         else Inr ([], data_end))))"

fun read_answers :: "nat \<Rightarrow> bytes \<Rightarrow> nat \<Rightarrow> srv_record list \<Rightarrow> dns_error + srv_record list" where
  "read_answers 0 packet offset records = Inr records"
| "read_answers (Suc n) packet offset records =
     and_then (read_answer packet offset) (\<lambda>(record, offset). read_answers n packet offset (records @ record))"

text \<open>The stable sort by ascending priority, then descending weight.\<close>

definition srv_key :: "srv_record \<Rightarrow> int \<times> int" where
  "srv_key r = (uint (srv_priority r), - uint (srv_weight r))"

definition parse_srv_response :: "bytes \<Rightarrow> u16 \<Rightarrow> dns_error + srv_record list" where
  "parse_srv_response packet expected_id =
     and_then (ensure (12 \<le> length packet) TooShort) (\<lambda>_.
     and_then (ensure (be16_at packet 0 = expected_id) IdMismatch) (\<lambda>_.
     let flags = be16_at packet 2 in
     and_then (ensure (and flags 0x8000 \<noteq> 0) NotResponse) (\<lambda>_.
     and_then (ensure (and flags 0x000F = 0) (ErrorCode (and flags 0x000F))) (\<lambda>_.
     and_then (skip_questions (unat (be16_at packet 4)) packet 12) (\<lambda>offset.
     and_then (read_answers (unat (be16_at packet 6)) packet offset []) (\<lambda>records.
     Inr (sort_key srv_key records)))))))"

section \<open>Lookups\<close>

definition dns_server_address :: "string \<Rightarrow> dns_error + socket_addr" where
  "dns_server_address value =
     (case parse_socket_addr value of
        Some a \<Rightarrow> Inr a
      | None \<Rightarrow> and_then (ok_or NameserverInvalid (parse_ip value)) (\<lambda>ip. Inr (new_socket_addr ip 53)))"

fun find_map :: "('a \<Rightarrow> 'b option) \<Rightarrow> 'a list \<Rightarrow> 'b option" where
  "find_map f [] = None"
| "find_map f (x # xs) = (case f x of Some y \<Rightarrow> Some y | None \<Rightarrow> find_map f xs)"

text \<open>
  \<open>lookup_srv_system\<close>: \<open>resolv\<close> is the text of \<open>/etc/resolv.conf\<close>, or \<open>None\<close> when it cannot be read; \<open>exchange\<close>
  sends a datagram to the server and waits for one, with the address it came from. The buffer has 4096 bytes.
\<close>

definition lookup_srv_system ::
    "string option \<Rightarrow> (socket_addr \<Rightarrow> bytes \<Rightarrow> (bytes \<times> socket_addr) option) \<Rightarrow> u16 \<Rightarrow> string \<Rightarrow>
      (dns_error + srv_record list) \<times> u16" where
  "lookup_srv_system resolv exchange next_id name =
     (case and_then (ok_or DnsIo resolv) (\<lambda>text.
           and_then (ok_or NoNameserver (find_map (\<lambda>line. map_option trim (strip_prefix line ''nameserver ''))
             (map trim (str_lines text)))) dns_server_address) of
        Inl e \<Rightarrow> (Inl e, next_id)
      | Inr server \<Rightarrow>
          (case build_dns_query next_id name DNS_TYPE_SRV of
             (Inl e, next_id) \<Rightarrow> (Inl e, next_id)
           | (Inr query, next_id) \<Rightarrow>
               (and_then (ok_or DnsIo (exchange server query)) (\<lambda>(response, source).
                and_then (ensure (sock_ip source = sock_ip server) SourceMismatch) (\<lambda>_.
                parse_srv_response (take 4096 response) (be16_at query 0))), next_id)))"

text \<open>
  \<open>lookup_srv_dot\<close>: \<open>tls\<close> is the connection to \<open>1.1.1.1:853\<close>, the bytes it answers to the bytes written, or \<open>None\<close>
  when it cannot be made.
\<close>

definition lookup_srv_dot :: "(bytes \<Rightarrow> bytes) option \<Rightarrow> u16 \<Rightarrow> string \<Rightarrow> (dns_error + srv_record list) \<times> u16" where
  "lookup_srv_dot tls next_id name =
     (case tls of
        None \<Rightarrow> (Inl DnsIo, next_id)
      | Some answer \<Rightarrow>
          (case build_dns_query next_id name DNS_TYPE_SRV of
             (Inl e, next_id) \<Rightarrow> (Inl e, next_id)
           | (Inr query, next_id) \<Rightarrow>
               (and_then (read_be DnsIo (answer (be_bytes (of_nat (length query) :: u16) @ query))) (\<lambda>(len :: u16, rest).
                and_then (read_exact DnsIo (unat len) rest) (\<lambda>(response, _).
                parse_srv_response response (be16_at query 0))), next_id)))"

section \<open>Edges\<close>

record edge_addr =
  ea_address :: socket_addr
  ea_ip_version :: nat

text \<open>\<open>sort_by_key\<close> followed by \<open>dedup_by_key\<close>, by the address.\<close>

fun dedup_edges :: "edge_addr list \<Rightarrow> edge_addr list" where
  "dedup_edges (x # y # es) =
     (if ea_address x = ea_address y then dedup_edges (x # es) else x # dedup_edges (y # es))"
| "dedup_edges es = es"

text \<open>
  The loop of \<open>discover_edges\<close> over the records; \<open>lookup_host\<close> resolves a host and a port.
\<close>

definition edges_of ::
    "(string \<Rightarrow> u16 \<Rightarrow> socket_addr list option) \<Rightarrow> nat \<Rightarrow> srv_record \<Rightarrow> dns_error + edge_addr list" where
  "edges_of lookup_host edge_ip_version r =
     and_then (ok_or Unresolved (lookup_host (trim_end_matches (CHR ''.'') (srv_target r)) (srv_port r))) (\<lambda>addresses.
     Inr (filter (\<lambda>e. edge_ip_version = 0 \<or> edge_ip_version = ea_ip_version e)
       (map (\<lambda>a. \<lparr>ea_address = a, ea_ip_version = (if is_ipv4 (sock_ip a) then 4 else 6)\<rparr>) addresses)))"

definition edge_service :: "string \<Rightarrow> string \<Rightarrow> string" where
  "edge_service endpoint region =
     (let effective_region = (if endpoint = [] then region else endpoint);
          service = (if effective_region = [] then ''v2-origintunneld'' else effective_region @ ''-v2-origintunneld'')
      in ''_'' @ service @ ''._tcp.argotunnel.com'')"

definition discover_edges ::
    "string option \<Rightarrow> (socket_addr \<Rightarrow> bytes \<Rightarrow> (bytes \<times> socket_addr) option) \<Rightarrow> (bytes \<Rightarrow> bytes) option \<Rightarrow>
      (string \<Rightarrow> u16 \<Rightarrow> socket_addr list option) \<Rightarrow> u16 \<Rightarrow> string \<Rightarrow> string \<Rightarrow> nat \<Rightarrow> (dns_error + edge_addr list) \<times> u16" where
  "discover_edges resolv exchange tls lookup_host next_id endpoint region edge_ip_version =
     (let name = edge_service endpoint region;
          (records, next_id) =
            (case lookup_srv_system resolv exchange next_id name of
               (Inr (r # rs), next_id) \<Rightarrow> (Inr (r # rs), next_id)
             | (_, next_id) \<Rightarrow> lookup_srv_dot tls next_id name)
      in (and_then records (\<lambda>records.
          and_then (try_map (edges_of lookup_host edge_ip_version) records) (\<lambda>edges.
            let edges = dedup_edges (sort_key ea_address (concat edges)) in
            and_then (ensure (edges \<noteq> []) NoEdges) (\<lambda>_. Inr edges))), next_id))"

section \<open>Names\<close>

text \<open>What a server writes: labels, and then the end of the name or a pointer to the name of the question.\<close>

type_synonym wire_name = "string list \<times> bool"

definition put_labels :: "string list \<Rightarrow> bytes" where
  "put_labels labels = concat (map (\<lambda>l. of_nat (length l) # as_bytes l) labels)"

definition put_name :: "wire_name \<Rightarrow> bytes" where
  "put_name w = put_labels (fst w) @ (if snd w then [0xC0, 12] else [0])"

definition full_name :: "string list \<Rightarrow> wire_name \<Rightarrow> string list" where
  "full_name question w = fst w @ (if snd w then question else [])"

definition dns_label_ok :: "string \<Rightarrow> bool" where
  "dns_label_ok l \<longleftrightarrow> l \<noteq> [] \<and> length l \<le> 63 \<and> is_str l"

definition wire_name_ok :: "string list \<Rightarrow> wire_name \<Rightarrow> bool" where
  "wire_name_ok question w \<longleftrightarrow> list_all dns_label_ok (fst w) \<and> length (full_name question w) \<le> 126"

lemma put_labels_simps [simp]:
  "put_labels [] = []" "put_labels (l # ls) = of_nat (length l) # as_bytes l @ put_labels ls"
  by (simp_all add: put_labels_def)

lemma drop_front:
  assumes "drop i xs = x # rest"
  shows "i < length xs" "xs ! i = x" "drop (Suc i) xs = rest"
proof -
  show i: "i < length xs" using assms by (metis drop_all linorder_not_less list.distinct(1))
  show "xs ! i = x" using assms i by (metis nth_via_drop)
  show "drop (Suc i) xs = rest" using assms by (metis drop_Suc list.sel(3) tl_drop)
qed

lemma drop_prefix: "drop i xs = ys @ zs \<Longrightarrow> ys \<noteq> [] \<or> i \<le> length xs \<Longrightarrow> i + length ys \<le> length xs \<and> take (length ys) (drop i xs) = ys \<and> drop (i + length ys) xs = zs"
proof -
  assume a: "drop i xs = ys @ zs" and b: "ys \<noteq> [] \<or> i \<le> length xs"
  have "drop (i + length ys) xs = drop (length ys) (drop i xs)" by (simp add: add.commute)
  then have "drop (i + length ys) xs = zs" by (simp add: a)
  moreover have "length xs - i = length ys + length zs" using arg_cong [OF a, of length] by simp
  moreover have "0 < length ys \<or> i \<le> length xs" using b by auto
  ultimately have "i + length ys \<le> length xs" by arith
  with \<open>drop (i + length ys) xs = zs\<close> a show ?thesis by simp
qed

lemma label_lengths: "list_all (\<lambda>n. and (of_nat n :: u8) 0xC0 = 0 \<and> unat (of_nat n :: u8) = n \<and> of_nat n \<le> (63 :: u8)) [0..<64]"
  by code_simp

lemma label_length:
  assumes "dns_label_ok l"
  defines "len \<equiv> of_nat (length l) :: u8"
  shows "and len 0xC0 \<noteq> 0xC0" "unat len = length l" "len \<noteq> 0" "\<not> 63 < len"
proof -
  from assms(1) have "length l \<in> set [0..<64]" by (auto simp: dns_label_ok_def)
  with label_lengths have "and (of_nat (length l) :: u8) 0xC0 = 0 \<and> unat (of_nat (length l) :: u8) = length l
      \<and> of_nat (length l) \<le> (63 :: u8)"
    unfolding list_all_iff by (rule bspec)
  moreover have "length l \<noteq> 0" using assms(1) by (simp add: dns_label_ok_def)
  ultimately show "and len 0xC0 \<noteq> 0xC0" "unat len = length l" "len \<noteq> 0" "\<not> 63 < len"
    unfolding len_def by (auto simp: unat_eq_0)
qed

lemma dns_name_from_labels:
  assumes "list_all dns_label_ok ls" and "drop cursor packet = put_labels ls @ rest" and "cursor \<le> length packet"
  shows "dns_name_from (length ls + n) packet cursor jumped acc
    = dns_name_from n packet (cursor + length (put_labels ls)) jumped (acc @ ls)"
  using assms
proof (induction ls arbitrary: cursor acc)
  case (Cons l ls)
  let ?len = "of_nat (length l) :: u8"
  from Cons.prems(1) have ok: "dns_label_ok l" by simp
  from Cons.prems(2) have d: "drop cursor packet = ?len # as_bytes l @ put_labels ls @ rest" by simp
  note f = drop_front [OF d]
  have p: "Suc cursor + length l \<le> length packet" "take (length l) (drop (Suc cursor) packet) = as_bytes l"
    "drop (Suc cursor + length l) packet = put_labels ls @ rest"
    using drop_prefix [OF f(3)] f(1) by auto
  have "from_utf8 LabelUtf8 (as_bytes l) = Inr l" using ok by (simp add: dns_label_ok_def)
  with f p label_length [OF ok] have "dns_name_from (Suc (length ls + n)) packet cursor jumped acc
      = dns_name_from (length ls + n) packet (Suc cursor + length l) jumped (acc @ [l])"
    by (simp add: Let_def)
  also have "\<dots> = dns_name_from n packet (Suc cursor + length l + length (put_labels ls)) jumped (acc @ l # ls)"
    using Cons.IH [OF _ p(3), of "acc @ [l]"] Cons.prems(1) p(1) by simp
  finally show ?case by (simp add: add.assoc)
qed simp

lemma dns_name_from_end:
  "drop cursor packet = 0 # rest \<Longrightarrow> dns_name_from (Suc n) packet cursor jumped acc
     = Inr (join_sep ''.'' acc, case jumped of None \<Rightarrow> cursor + 1 | Some e \<Rightarrow> e)"
  using drop_front [of cursor packet 0 rest] by simp

lemma dns_name_from_pointer:
  assumes "drop cursor packet = 0xC0 # 12 # rest" and "12 < length packet"
  shows "dns_name_from (Suc n) packet cursor None acc = dns_name_from n packet 12 (Some (cursor + 2)) acc"
proof -
  note f = drop_front [OF assms(1)]
  note g = drop_front [OF f(3)]
  show ?thesis using f(1,2) g(1,2) assms(2) by (simp add: Let_def)
qed

text \<open>The name of the question stands at offset 12.\<close>

definition asks :: "bytes \<Rightarrow> string list \<Rightarrow> bool" where
  "asks packet question \<longleftrightarrow> list_all dns_label_ok question \<and> (\<exists>rest. drop 12 packet = put_labels question @ 0 # rest)"

lemma read_dns_name_put:
  assumes q: "asks packet question" and w: "wire_name_ok question w" and d: "drop offset packet = put_name w @ rest"
  shows "read_dns_name packet offset = Inr (join_sep ''.'' (full_name question w), offset + length (put_name w))"
proof -
  obtain ls c where w_eq: "w = (ls, c)" by (cases w)
  have ok: "list_all dns_label_ok ls" and len: "length ls \<le> 126" "c \<Longrightarrow> length ls + length question \<le> 126"
    using w by (simp_all add: wire_name_ok_def w_eq full_name_def split: if_splits)
  have "put_name w \<noteq> []" by (simp add: put_name_def)
  with d have off: "offset \<le> length packet" by (metis append_is_Nil_conv drop_all nat_le_linear)
  show ?thesis
  proof (cases c)
    case False
    then have d': "drop offset packet = put_labels ls @ 0 # rest" using d by (simp add: put_name_def w_eq)
    have e: "drop (offset + length (put_labels ls)) packet = 0 # rest" using drop_prefix [OF d'] off by simp
    have passes: "length ls + Suc (127 - length ls) = 128" using len(1) by simp
    have "dns_name_from (length ls + Suc k) packet offset None []
        = Inr (join_sep ''.'' ls, offset + length (put_labels ls) + 1)" for k
      using dns_name_from_labels [OF ok d' off, of "Suc k" None "[]"] dns_name_from_end [OF e, of k None ls]
      by (simp del: dns_name_from.simps)
    from this [of "127 - length ls", unfolded passes] show ?thesis
      using False by (simp add: read_dns_name_def full_name_def put_name_def w_eq)
  next
    case True
    then have d': "drop offset packet = put_labels ls @ 0xC0 # 12 # rest" using d by (simp add: put_name_def w_eq)
    have e: "drop (offset + length (put_labels ls)) packet = 0xC0 # 12 # rest" using drop_prefix [OF d'] off by simp
    obtain rest' where q': "list_all dns_label_ok question" "drop 12 packet = put_labels question @ 0 # rest'"
      using q by (auto simp: asks_def)
    have twelve: "12 < length packet" using q'(2) by (metis append_is_Nil_conv drop_all leI list.distinct(1))
    have e': "drop (12 + length (put_labels question)) packet = 0 # rest'" using drop_prefix [OF q'(2)] twelve by simp
    have passes: "length ls + (Suc (length question + Suc (126 - length ls - length question))) = 128" using len(2) [OF True] by simp
    have "dns_name_from (length ls + (Suc (length question + Suc k))) packet offset None []
        = Inr (join_sep ''.'' (ls @ question), offset + length (put_labels ls) + 2)" for k
      using dns_name_from_labels [OF ok d' off, of "Suc (length question + Suc k)" None "[]"]
        dns_name_from_pointer [OF e twelve, of "length question + Suc k" ls]
        dns_name_from_labels [OF q', of "Suc k" "Some (offset + length (put_labels ls) + 2)" ls]
        dns_name_from_end [OF e', of k "Some (offset + length (put_labels ls) + 2)" "ls @ question"] twelve
      by (simp del: dns_name_from.simps)
    from this [of "126 - length ls - length question", unfolded passes] show ?thesis
      using True by (simp add: read_dns_name_def full_name_def put_name_def w_eq)
  qed
qed

section \<open>Responses\<close>

datatype answer_data =
    SrvData u16 u16 u16 wire_name
  | OtherData u16 u16 bytes

record dns_answer =
  an_owner :: wire_name
  an_ttl :: u32
  an_data :: answer_data

fun answer_type :: "answer_data \<Rightarrow> u16" where
  "answer_type (SrvData _ _ _ _) = DNS_TYPE_SRV"
| "answer_type (OtherData t _ _) = t"

fun answer_class :: "answer_data \<Rightarrow> u16" where
  "answer_class (SrvData _ _ _ _) = 1"
| "answer_class (OtherData _ c _) = c"

fun put_data :: "answer_data \<Rightarrow> bytes" where
  "put_data (SrvData priority weight p target) = be_bytes priority @ be_bytes weight @ be_bytes p @ put_name target"
| "put_data (OtherData _ _ d) = d"

definition put_answer :: "dns_answer \<Rightarrow> bytes" where
  "put_answer a = put_name (an_owner a) @ be_bytes (answer_type (an_data a)) @ be_bytes (answer_class (an_data a))
     @ be_bytes (an_ttl a) @ be_bytes (of_nat (length (put_data (an_data a))) :: u16) @ put_data (an_data a)"

fun answer_records :: "string list \<Rightarrow> answer_data \<Rightarrow> srv_record list" where
  "answer_records question (SrvData priority weight p target) =
     [\<lparr>srv_priority = priority, srv_weight = weight, srv_port = p, srv_target = join_sep ''.'' (full_name question target)\<rparr>]"
| "answer_records question (OtherData _ _ _) = []"

fun data_ok :: "string list \<Rightarrow> answer_data \<Rightarrow> bool" where
  "data_ok question (SrvData _ _ _ target) \<longleftrightarrow> wire_name_ok question target"
| "data_ok question (OtherData t c d) \<longleftrightarrow> \<not> (t = DNS_TYPE_SRV \<and> c = 1 \<and> 7 \<le> length d)"

definition answer_ok :: "string list \<Rightarrow> dns_answer \<Rightarrow> bool" where
  "answer_ok question a \<longleftrightarrow> wire_name_ok question (an_owner a) \<and> data_ok question (an_data a)
     \<and> length (put_data (an_data a)) < 65536"

lemma be16_at_drop:
  assumes "drop i packet = be_bytes (x :: u16) @ rest"
  shows "be16_at packet i = x"
proof -
  obtain a b where ab: "be_bytes x = [a, b]" by (simp add: be_bytes_def numeral_2_eq_2)
  with assms have d: "drop i packet = a # b # rest" by simp
  note f = drop_front [OF d]
  from drop_front [OF f(3)] f(2) have "be16_at packet i = from_be [a, b]" by (simp add: be16_at_def)
  with from_be_be_bytes [of x] ab show ?thesis by simp
qed

lemma be16_at_bytes [simp]: "be16_at (be_bytes (x :: u16) @ rest) 0 = x"
  by (rule be16_at_drop) simp

lemma take_at_drop:
  "drop offset packet = xs @ rest \<Longrightarrow> length xs = n \<Longrightarrow> offset \<le> length packet \<Longrightarrow>
    take_at packet offset n = Inr (xs, offset + n)"
  using drop_prefix [of offset packet xs rest] by (auto simp: take_at_def)

lemma read_answer_put:
  assumes q: "asks packet question" and a: "answer_ok question a" and d: "drop offset packet = put_answer a @ rest"
  shows "read_answer packet offset = Inr (answer_records question (an_data a), offset + length (put_answer a))"
proof -
  let ?data = "put_data (an_data a)"
  let ?header = "be_bytes (answer_type (an_data a)) @ be_bytes (answer_class (an_data a)) @ be_bytes (an_ttl a)
    @ be_bytes (of_nat (length ?data) :: u16)"
  let ?o = "offset + length (put_name (an_owner a))"
  have ok: "wire_name_ok question (an_owner a)" "data_ok question (an_data a)" and len: "length ?data < 65536"
    using a by (simp_all add: answer_ok_def)
  have d1: "drop offset packet = put_name (an_owner a) @ ?header @ ?data @ rest" using d by (simp add: put_answer_def)
  have name: "read_dns_name packet offset = Inr (join_sep ''.'' (full_name question (an_owner a)), ?o)"
    by (rule read_dns_name_put [OF q ok(1) d1])
  have "put_name (an_owner a) \<noteq> []" by (simp add: put_name_def)
  with drop_prefix [OF d1] have o: "?o \<le> length packet" and d2: "drop ?o packet = ?header @ ?data @ rest" by auto
  have header: "take_at packet ?o 10 = Inr (?header, ?o + 10)" by (rule take_at_drop [OF d2 _ o]) simp
  have d3: "drop (?o + 10) packet = ?data @ rest" and o10: "?o + 10 \<le> length packet"
    using drop_prefix [OF d2] o by simp_all
  have fields: "be16_at ?header 0 = answer_type (an_data a)" "be16_at ?header 2 = answer_class (an_data a)"
    "unat (be16_at ?header 8) = length ?data"
  proof -
    show "be16_at ?header 2 = answer_class (an_data a)" by (rule be16_at_drop) simp
    have "be16_at ?header 8 = of_nat (length ?data)" by (rule be16_at_drop [where rest = "[]"]) simp
    then show "unat (be16_at ?header 8) = length ?data" using len by (simp add: unat_of_nat)
  qed simp
  have bound: "?o + 10 + length ?data \<le> length packet" using drop_prefix [OF d3] o10 by simp
  show ?thesis
  proof (cases "an_data a")
    case (SrvData priority weight p target)
    then have d4: "drop (?o + 10) packet = be_bytes priority @ be_bytes weight @ be_bytes p @ put_name target @ rest"
      using d3 by simp
    have d5: "drop (?o + 10 + 2) packet = be_bytes weight @ be_bytes p @ put_name target @ rest"
      using drop_prefix [OF d4] o10 by simp
    have d6: "drop (?o + 10 + 4) packet = be_bytes p @ put_name target @ rest"
      using drop_prefix [OF d5] o10 bound SrvData by simp
    have d7: "drop (?o + 10 + 6) packet = put_name target @ rest"
      using drop_prefix [OF d6] bound SrvData by simp
    have "Suc 0 \<le> length (put_name target)" by (simp add: put_name_def)
    with name header fields bound be16_at_drop [OF d4] be16_at_drop [OF d5] be16_at_drop [OF d6]
      read_dns_name_put [OF q _ d7] ok(2) SrvData show ?thesis
      by (simp add: read_answer_def Let_def put_answer_def ensure_def)
  next
    case (OtherData t c bs)
    with name header fields bound ok(2) show ?thesis
      by (auto simp: read_answer_def Let_def put_answer_def ensure_def)
  qed
qed

lemma read_answers_put:
  assumes "asks packet question" and "list_all (answer_ok question) as"
    and "drop offset packet = concat (map put_answer as) @ rest"
  shows "read_answers (length as) packet offset records
    = Inr (records @ concat (map (\<lambda>a. answer_records question (an_data a)) as))"
  using assms(2,3)
proof (induction as arbitrary: offset records)
  case (Cons a as)
  then have d: "drop offset packet = put_answer a @ concat (map put_answer as) @ rest" and ok: "answer_ok question a" by auto
  have "put_answer a \<noteq> []" by (simp add: put_answer_def put_name_def)
  with drop_prefix [OF d] have "drop (offset + length (put_answer a)) packet = concat (map put_answer as) @ rest" by auto
  with Cons read_answer_put [OF assms(1) ok d] show ?case by simp
qed simp

section \<open>A query and its response\<close>

lemma try_map_dns_label:
  "try_map dns_label ls = Inr bss \<Longrightarrow> concat bss = put_labels ls \<and> (\<forall>l \<in> set ls. l \<noteq> [] \<and> length l \<le> 63)"
  by (induction ls arbitrary: bss) (auto simp: dns_label_def)

lemma split_on_ascii: "is_ascii s \<Longrightarrow> l \<in> set (split_on c s) \<Longrightarrow> is_ascii l"
  by (induction s arbitrary: l) (auto split: if_splits list.splits)

lemma trim_end_ascii: "is_ascii s \<Longrightarrow> is_ascii (trim_end_matches c s)"
  unfolding is_ascii_def trim_end_matches_def list_all_iff by (auto dest: set_dropWhileD)

definition name_labels :: "string \<Rightarrow> string list" where
  "name_labels name = split_on (CHR ''.'') (trim_end_matches (CHR ''.'') name)"

lemma build_dns_query_Inr:
  assumes "build_dns_query next_id name t = (Inr query, next_id')" and "is_ascii name"
  shows "query = be_bytes next_id @ be_bytes (0x0100 :: u16) @ be_bytes (1 :: u16) @ be_bytes (0 :: u16) @ be_bytes (0 :: u16)
        @ be_bytes (0 :: u16) @ put_labels (name_labels name) @ [0] @ be_bytes t @ be_bytes (1 :: u16)"
    and "list_all dns_label_ok (name_labels name)" and "next_id' = next_id + 1"
proof -
  from assms(1) obtain bss where bss: "try_map dns_label (name_labels name) = Inr bss"
    and query: "query = be_bytes next_id @ be_bytes (0x0100 :: u16) @ be_bytes (1 :: u16) @ be_bytes (0 :: u16)
        @ be_bytes (0 :: u16) @ be_bytes (0 :: u16) @ concat bss @ [0] @ be_bytes t @ be_bytes (1 :: u16)"
    and "next_id' = next_id + 1"
    by (auto simp: build_dns_query_def name_labels_def)
  then show "next_id' = next_id + 1" by simp
  from try_map_dns_label [OF bss] query show "query = be_bytes next_id @ be_bytes (0x0100 :: u16) @ be_bytes (1 :: u16)
        @ be_bytes (0 :: u16) @ be_bytes (0 :: u16) @ be_bytes (0 :: u16) @ put_labels (name_labels name) @ [0] @ be_bytes t
        @ be_bytes (1 :: u16)" by simp
  have "is_str l" if "l \<in> set (name_labels name)" for l
    using that split_on_ascii [OF trim_end_ascii [OF assms(2)]] is_ascii_is_str by (auto simp: name_labels_def)
  with try_map_dns_label [OF bss] show "list_all dns_label_ok (name_labels name)"
    by (auto simp: list_all_iff dns_label_ok_def)
qed

lemma parse_srv_response_put:
  assumes asks: "asks packet q" and "length q \<le> 126" and d: "drop 12 packet = put_name (q, False) @ kind @ concat (map put_answer answers) @ rest"
    and "length kind = 4" and "12 \<le> length packet" and answers: "list_all (answer_ok q) answers"
    and "be16_at packet 0 = next_id" and "and (be16_at packet 2) 0x8000 \<noteq> 0" and "and (be16_at packet 2) 0x000F = 0"
    and "be16_at packet 4 = 1" and "unat (be16_at packet 6) = length answers"
  shows "parse_srv_response packet next_id = Inr (sort_key srv_key (concat (map (\<lambda>a. answer_records q (an_data a)) answers)))"
proof -
  let ?o = "12 + length (put_name (q, False))"
  have ok: "wire_name_ok q (q, False)" using asks assms(2) by (simp add: wire_name_ok_def full_name_def asks_def)
  have d1: "drop ?o packet = kind @ concat (map put_answer answers) @ rest" and o: "?o \<le> length packet"
    using drop_prefix [OF d] assms(5) by simp_all
  have "skip_questions 1 packet 12 = Inr (?o + 4)"
    using read_dns_name_put [OF asks ok d] take_at_drop [OF d1 assms(4) o] by simp
  moreover have "drop (?o + 4) packet = concat (map put_answer answers) @ rest"
    using drop_prefix [OF d1] o assms(4) by simp
  note read_answers_put [OF asks answers this, of "[]"]
  ultimately show ?thesis using assms(5,7-) by (simp add: parse_srv_response_def Let_def del: skip_questions.simps)
qed

text \<open>A lookup reads back what the server answers. For a query that was built, let the server echo its identifier and
  question and answer with any records, SRV or not, whose names are written out or compressed to a pointer to the
  question, in any order and followed by any further sections. Then the SRV records are read exactly, sorted by priority and
  descending weight, and in the order of the response where these are the same.
\<close>

theorem srv_lookup_roundtrip:
  fixes flags authority additional :: u16
  assumes "build_dns_query next_id name DNS_TYPE_SRV = (Inr query, next_id')" and "is_ascii name"
    and "length (name_labels name) \<le> 126" and "and flags 0x8000 \<noteq> 0" and "and flags 0x000F = 0"
    and "list_all (answer_ok (name_labels name)) answers" and "length answers < 65536"
  shows "parse_srv_response (take 2 query @ be_bytes flags @ be_bytes (1 :: u16) @ be_bytes (of_nat (length answers) :: u16)
        @ be_bytes authority @ be_bytes additional @ drop 12 query
        @ concat (map put_answer answers) @ rest) next_id
    = Inr (sort_key srv_key (concat (map (\<lambda>a. answer_records (name_labels name) (an_data a)) answers)))"
proof -
  let ?q = "name_labels name"
  let ?tail = "concat (map put_answer answers) @ rest"
  let ?p = "take 2 query @ be_bytes flags @ be_bytes (1 :: u16) @ be_bytes (of_nat (length answers) :: u16)
        @ be_bytes authority @ be_bytes additional @ drop 12 query @ ?tail"
  note query = build_dns_query_Inr [OF assms(1,2)]
  have start: "take 2 query = be_bytes next_id" "drop 12 query = put_labels ?q @ 0 # be_bytes DNS_TYPE_SRV @ be_bytes (1 :: u16)"
    unfolding query(1) by simp_all
  have fields: "be16_at ?p 0 = next_id" "be16_at ?p 2 = flags" "be16_at ?p 4 = 1" "be16_at ?p 6 = of_nat (length answers)"
    unfolding start by (rule be16_at_drop, simp)+
  have d: "drop 12 ?p = put_labels ?q @ 0 # be_bytes DNS_TYPE_SRV @ be_bytes (1 :: u16) @ ?tail"
    unfolding start by simp
  then have asks: "asks ?p ?q" using query(2) by (auto simp: asks_def)
  have "put_labels ?q @ 0 # be_bytes DNS_TYPE_SRV @ be_bytes (1 :: u16) @ ?tail
      = put_name (?q, False) @ (be_bytes DNS_TYPE_SRV @ be_bytes (1 :: u16)) @ ?tail" by (simp add: put_name_def)
  from parse_srv_response_put [OF asks assms(3) d [unfolded this] _ _ assms(6) fields(1) _ _ fields(3)] fields(2,4) assms(4,5,7)
  show ?thesis unfolding start by (simp add: unat_of_nat)
qed

theorem srv_lookup_roundtrip_witness:
  "\<exists>query. fst (build_dns_query 7 ''_s._tcp.x'' DNS_TYPE_SRV) = Inr query
    \<and> parse_srv_response (take 2 query @ be_bytes (0x8180 :: u16) @ be_bytes (1 :: u16) @ be_bytes (2 :: u16)
        @ be_bytes (0 :: u16) @ be_bytes (1 :: u16) @ drop 12 query
        @ put_answer \<lparr>an_owner = ([], True), an_ttl = 60, an_data = OtherData 1 1 [1, 2, 3, 4]\<rparr>
        @ put_answer \<lparr>an_owner = ([], True), an_ttl = 60, an_data = SrvData 1 2 7844 ([''edge''], True)\<rparr>) 7
      = Inr [\<lparr>srv_priority = 1, srv_weight = 2, srv_port = 7844, srv_target = ''edge._s._tcp.x''\<rparr>]"
proof -
  let ?name = "''_s._tcp.x''"
  let ?answers = "[\<lparr>an_owner = ([], True), an_ttl = 60, an_data = OtherData 1 1 [1, 2, 3, 4]\<rparr>,
    \<lparr>an_owner = ([], True), an_ttl = 60, an_data = SrvData 1 2 7844 ([''edge''], True)\<rparr>]"
  have labels: "name_labels ?name = [''_s'', ''_tcp'', ''x'']" by (simp add: name_labels_def trim_end_matches_def)
  obtain query where query: "build_dns_query 7 ?name DNS_TYPE_SRV = (Inr query, 8)"
    by (simp add: build_dns_query_def labels [unfolded name_labels_def] dns_label_def)
  have ascii: "is_ascii ?name" by simp
  have ok: "list_all (answer_ok (name_labels ?name)) ?answers"
    by (simp add: labels answer_ok_def wire_name_ok_def full_name_def dns_label_ok_def is_ascii_is_str DNS_TYPE_SRV_def
      put_name_def)
  have "and (0x8180 :: u16) 0x8000 \<noteq> 0" "and (0x8180 :: u16) 0x000F = 0" "length (name_labels ?name) \<le> 126"
    by (simp_all add: labels)
  from srv_lookup_roundtrip [OF query ascii this(3,1,2) ok, of 0 1 "[]"] show ?thesis
    by (intro exI [of _ query]) (simp add: query labels full_name_def srv_key_def)
qed

section \<open>The edges\<close>

lemma dedup_edges_addresses: "map ea_address (dedup_edges es) = remdups_adj (map ea_address es)"
  by (induction es rule: dedup_edges.induct) auto

lemma dedup_edges_subset: "set (dedup_edges es) \<subseteq> set es"
  by (induction es rule: dedup_edges.induct) auto

lemma dedup_edges_set:
  assumes "\<And>e. e \<in> set es \<Longrightarrow> ea_ip_version e = f (ea_address e)"
  shows "set (dedup_edges es) = set es"
proof
  show "set es \<subseteq> set (dedup_edges es)"
  proof
    fix e
    assume e: "e \<in> set es"
    then have "ea_address e \<in> set (map ea_address (dedup_edges es))"
      unfolding dedup_edges_addresses by simp
    then obtain d where d: "d \<in> set (dedup_edges es)" "ea_address d = ea_address e" by auto
    with dedup_edges_subset [of es] assms [of d] assms [OF e] have "d = e" by auto
    with d(1) show "e \<in> set (dedup_edges es)" by simp
  qed
qed (rule dedup_edges_subset)

lemma sorted_remdups_adj_strict: "sorted xs \<Longrightarrow> sorted_wrt (<) (remdups_adj (xs :: 'a :: linorder list))"
  by (induction xs rule: remdups_adj.induct) auto

text \<open>The edge an address becomes.\<close>

definition edge_of :: "socket_addr \<Rightarrow> edge_addr" where
  "edge_of a = \<lparr>ea_address = a, ea_ip_version = (if is_ipv4 (sock_ip a) then 4 else 6)\<rparr>"

lemma ea_address_edge_of [simp]: "ea_address (edge_of a) = a"
  by (simp add: edge_of_def)

lemma edges_of_Inr:
  "edges_of lookup_host version r = Inr ys \<longleftrightarrow>
    (\<exists>addresses. lookup_host (trim_end_matches (CHR ''.'') (srv_target r)) (srv_port r) = Some addresses
      \<and> ys = filter (\<lambda>e. version = 0 \<or> version = ea_ip_version e) (map edge_of addresses))"
  by (auto simp: edges_of_def edge_of_def [abs_def])

lemma all_resolve:
  "try_map (edges_of lookup_host version) records = Inr ess \<Longrightarrow>
    list_all (\<lambda>r. lookup_host (trim_end_matches (CHR ''.'') (srv_target r)) (srv_port r) \<noteq> None) records"
  by (induction records arbitrary: ess) (auto simp: edges_of_Inr)

lemma edge_member:
  "e \<in> set (filter P (map edge_of addresses)) \<longleftrightarrow> P e \<and> ea_address e \<in> set addresses \<and> e = edge_of (ea_address e)"
  by auto

lemmas dns_name_numeral = dns_name_from.simps(2) [of "pred_numeral k" for k, folded numeral_eq_Suc]

lemma be16_at_eval: "be16_at packet i = of_nat (unat (packet ! i) * 256 + unat (packet ! (i + 1)))"
  by (simp add: be16_at_def from_be_def be_nat_def)

lemma discover_edges_example:
  "discover_edges None (\<lambda>_ _. None) (Some (\<lambda>_. [0, 32, 0, 7, 0x81, 0x80, 0, 0, 0, 1, 0, 0, 0, 0, 0, 0, 33, 0, 1,
      0, 0, 0, 9, 0, 9, 0, 1, 0, 2, 0, 3, 1, 101, 0])) (\<lambda>_ p. Some [SockV6 1 p 0 0, SockV4 1 p]) 7 [] [] 4
    = (Inr [\<lparr>ea_address = SockV4 1 3, ea_ip_version = 4\<rparr>], 8)"
proof -
  let ?response = "[0, 7, 0x81, 0x80, 0, 0, 0, 1, 0, 0, 0, 0, 0, 0, 33, 0, 1, 0, 0, 0, 9, 0, 9, 0, 1, 0, 2, 0, 3, 1, 101, 0] :: bytes"
  let ?lookup = "\<lambda>(_ :: string) p. Some [SockV6 1 p 0 0, SockV4 1 p]"
  have "from_utf8 LabelUtf8 [101] = Inr ''e''" by code_simp
  then have parsed: "parse_srv_response ?response 7 = Inr [\<lparr>srv_priority = 1, srv_weight = 2, srv_port = 3, srv_target = ''e''\<rparr>]"
    by (simp add: parse_srv_response_def be16_at_eval read_answer_def read_dns_name_def dns_name_numeral take_at_def Let_def
      DNS_TYPE_SRV_def)
  obtain query where query: "build_dns_query 7 (edge_service [] []) DNS_TYPE_SRV = (Inr query, 8)" "be16_at query 0 = 7"
    by (simp add: build_dns_query_def edge_service_def trim_end_matches_def dns_label_def)
  have len: "read_be DnsIo (0 # 32 # ?response) = Inr (32 :: u16, ?response)"
    by (simp add: read_be_def read_exact_def from_be_def be_nat_def)
  have dot: "lookup_srv_dot (Some (\<lambda>_. 0 # 32 # ?response)) 7 (edge_service [] []) =
      (Inr [\<lparr>srv_priority = 1, srv_weight = 2, srv_port = 3, srv_target = ''e''\<rparr>], 8)"
    using len parsed query by (simp add: lookup_srv_dot_def read_exact_def)
  show "discover_edges None (\<lambda>_ _. None) (Some (\<lambda>_. 0 # 32 # ?response)) ?lookup 7 [] [] 4
      = (Inr [\<lparr>ea_address = SockV4 1 3, ea_ip_version = 4\<rparr>], 8)"
    by (simp add: discover_edges_def lookup_srv_system_def dot edges_of_def)
qed

text \<open>C35: The edges of a tunnel are exactly what was found. When discovery succeeds, its records come from the system
  resolver, or, when that failed or gave none, from DNS over TLS; every record resolves; and the edges are the addresses of the version
  asked for of all records, in strictly ascending order, so that none is tried twice.
\<close>

theorem discover_edges_exact:
  assumes "discover_edges resolv exchange tls lookup_host next_id endpoint region version = (Inr edges, next_id')"
  shows "\<exists>records. (lookup_srv_system resolv exchange next_id (edge_service endpoint region) = (Inr records, next_id') \<and> records \<noteq> []
        \<or> (\<exists>system n. lookup_srv_system resolv exchange next_id (edge_service endpoint region) = (system, n)
            \<and> (system = Inr [] \<or> (\<exists>e. system = Inl e))
            \<and> lookup_srv_dot tls n (edge_service endpoint region) = (Inr records, next_id')))
    \<and> list_all (\<lambda>r. lookup_host (trim_end_matches (CHR ''.'') (srv_target r)) (srv_port r) \<noteq> None) records
    \<and> sorted_wrt (<) (map ea_address edges) \<and> edges \<noteq> []
    \<and> (\<forall>e. e \<in> set edges \<longleftrightarrow> (version = 0 \<or> version = ea_ip_version e) \<and>
        (\<exists>r addresses. r \<in> set records \<and> lookup_host (trim_end_matches (CHR ''.'') (srv_target r)) (srv_port r) = Some addresses
          \<and> ea_address e \<in> set addresses \<and> e = edge_of (ea_address e)))"
proof -
  let ?name = "edge_service endpoint region"
  obtain records where found: "lookup_srv_system resolv exchange next_id ?name = (Inr records, next_id') \<and> records \<noteq> []
        \<or> (\<exists>system n. lookup_srv_system resolv exchange next_id ?name = (system, n)
            \<and> (system = Inr [] \<or> (\<exists>e. system = Inl e)) \<and> lookup_srv_dot tls n ?name = (Inr records, next_id'))"
    and made: "and_then (try_map (edges_of lookup_host version) records) (\<lambda>edges.
            let edges = dedup_edges (sort_key ea_address (concat edges)) in
            and_then (ensure (edges \<noteq> []) NoEdges) (\<lambda>_. Inr edges)) = Inr edges"
  proof -
    obtain r n where sys: "lookup_srv_system resolv exchange next_id ?name = (r, n)" by (cases "lookup_srv_system resolv exchange next_id ?name")
    obtain d m where dot: "lookup_srv_dot tls n ?name = (d, m)" by (cases "lookup_srv_dot tls n ?name")
    show thesis
    proof (cases "\<exists>x xs. r = Inr (x # xs)")
      case True
      with assms sys that [of "projr r"] show ?thesis by (auto simp: discover_edges_def)
    next
      case False
      then have "discover_edges resolv exchange tls lookup_host next_id endpoint region version =
          (and_then d (\<lambda>records.
            and_then (try_map (edges_of lookup_host version) records) (\<lambda>edges.
            let edges = dedup_edges (sort_key ea_address (concat edges)) in
            and_then (ensure (edges \<noteq> []) NoEdges) (\<lambda>_. Inr edges))), m)"
        using sys dot unfolding discover_edges_def Let_def
        by (simp split: sum.splits list.splits prod.splits)
      moreover from False have "r = Inr [] \<or> (\<exists>e. r = Inl e)" by (metis sum.exhaust list.exhaust)
      ultimately show ?thesis using assms sys dot that [of "projr d"] by (cases d) auto
    qed
  qed
  from made obtain ess where ess: "try_map (edges_of lookup_host version) records = Inr ess"
    and edges: "edges = dedup_edges (sort_key ea_address (concat ess))" "edges \<noteq> []" by (auto simp: Let_def)
  have "e \<in> set (concat ess) \<longleftrightarrow> (\<exists>r \<in> set records. \<exists>ys. edges_of lookup_host version r = Inr ys \<and> e \<in> set ys)" for e
    unfolding set_concat using try_map_set [OF ess] by blast
  then have members: "e \<in> set (concat ess) \<longleftrightarrow> (version = 0 \<or> version = ea_ip_version e) \<and>
        (\<exists>r addresses. r \<in> set records \<and> lookup_host (trim_end_matches (CHR ''.'') (srv_target r)) (srv_port r) = Some addresses
          \<and> ea_address e \<in> set addresses \<and> e = edge_of (ea_address e))" for e
    unfolding edges_of_Inr using edge_member [of e "\<lambda>e. version = 0 \<or> version = ea_ip_version e"] by blast
  have "ea_ip_version e = ea_ip_version (edge_of (ea_address e))" if "e \<in> set (concat ess)" for e
    using that members by metis
  then have "set edges = set (concat ess)"
    unfolding edges(1) by (subst dedup_edges_set [where f = "\<lambda>a. ea_ip_version (edge_of a)"]) simp_all
  moreover have "sorted_wrt (<) (map ea_address edges)"
    unfolding edges(1) dedup_edges_addresses by (rule sorted_remdups_adj_strict) simp
  moreover have "list_all (\<lambda>r. lookup_host (trim_end_matches (CHR ''.'') (srv_target r)) (srv_port r) \<noteq> None) records"
    using all_resolve [OF ess] .
  ultimately show ?thesis using found edges(2) members by (intro exI [of _ records]) simp
qed

text \<open>The system has no resolver; the server answers over TLS with one record, which has an address of each version.\<close>

theorem discover_edges_exact_witness:
  "\<exists>edges. discover_edges None (\<lambda>_ _. None) (Some (\<lambda>_. [0, 32, 0, 7, 0x81, 0x80, 0, 0, 0, 1, 0, 0, 0, 0, 0, 0, 33, 0, 1,
      0, 0, 0, 9, 0, 9, 0, 1, 0, 2, 0, 3, 1, 101, 0])) (\<lambda>_ p. Some [SockV6 1 p 0 0, SockV4 1 p]) 7 [] [] 4 = (Inr edges, 8)
    \<and> edges = [\<lparr>ea_address = SockV4 1 3, ea_ip_version = 4\<rparr>] \<and> sorted_wrt (<) (map ea_address edges) \<and> edges \<noteq> []"
  using discover_edges_exact [OF discover_edges_example] discover_edges_example by simp

end
