(* ===== verification/Cf_Token.thy ===== *)
theory Cf_Token
  imports Vless_Codec Rust_Text
begin

text \<open>
  The token of a remotely managed tunnel (\<open>lib.rs\<close> of the Cloudflared crate) and the base64 encoder that the same
  crate uses for headers (\<open>inbound.rs\<close>). JSON is a library: \<open>json\<close> yields the fields \<open>a\<close>, \<open>s\<close>, \<open>t\<close> and \<open>e\<close> of
  the token, of which \<open>s\<close> is still base64 text.
\<close>

datatype token_error = EmptyToken | TokenBase64 | TokenPadding | TokenJson | EmptyAccount | EmptySecret

record credentials =
  account_tag :: string
  tunnel_secret :: bytes
  tunnel_id :: bytes
  endpoint :: string

definition is_ascii_whitespace :: "char \<Rightarrow> bool" where
  "is_ascii_whitespace c \<longleftrightarrow> c \<in> {CHR '' '', CHR 0x09, CHR 0x0A, CHR 0x0C, CHR 0x0D}"

definition base64_value :: "char \<Rightarrow> token_error + u8" where
  "base64_value c =
     (let n = of_char c :: nat in
      if 65 \<le> n \<and> n \<le> 90 then Inr (of_nat (n - 65))
      else if 97 \<le> n \<and> n \<le> 122 then Inr (of_nat (n - 97 + 26))
      else if 48 \<le> n \<and> n \<le> 57 then Inr (of_nat (n - 48 + 52))
      else if c = CHR ''+'' \<or> c = CHR ''-'' then Inr 62
      else if c = CHR ''/'' \<or> c = CHR ''_'' then Inr 63
      else Inl TokenBase64)"

text \<open>The loop of \<open>decode_base64\<close> with its output, its accumulator and the number of bits in it.\<close>

fun token_base64_from :: "bytes \<Rightarrow> u32 \<Rightarrow> nat \<Rightarrow> string \<Rightarrow> token_error + (bytes \<times> nat)" where
  "token_base64_from out accumulator bits [] = Inr (out, bits)"
| "token_base64_from out accumulator bits (c # cs) =
     (if is_ascii_whitespace c then token_base64_from out accumulator bits cs
      else if c = CHR ''='' then Inr (out, bits)
      else and_then (base64_value c) (\<lambda>digit.
        let accumulator = or (push_bit 6 accumulator) (ucast digit); bits = bits + 6 in
        if bits \<ge> 8
        then token_base64_from (out @ [ucast (drop_bit (bits - 8) accumulator)])
               (and accumulator (push_bit (bits - 8) 1 - 1)) (bits - 8) cs
        else token_base64_from out accumulator bits cs))"

definition token_base64 :: "string \<Rightarrow> token_error + bytes" where
  "token_base64 s =
     and_then (token_base64_from [] 0 0 s) (\<lambda>(out, bits).
     and_then (ensure (bits < 6) TokenPadding) (\<lambda>_. Inr out))"

text \<open>\<open>parse_token\<close>, with the deserialisation of \<open>TunnelToken\<close> and its conversion to \<open>Credentials\<close>.\<close>

definition parse_token :: "(bytes \<Rightarrow> (string \<times> string \<times> bytes \<times> string) option) \<Rightarrow> string \<Rightarrow> token_error + credentials" where
  "parse_token json token =
     and_then (ensure (trim token \<noteq> []) EmptyToken) (\<lambda>_.
     and_then (token_base64 (trim token)) (\<lambda>encoded.
     and_then (ok_or TokenJson (json encoded)) (\<lambda>(a, s, t, e).
     and_then (map_err (\<lambda>_. TokenJson) (token_base64 s)) (\<lambda>secret.
     and_then (ensure (a \<noteq> []) EmptyAccount) (\<lambda>_.
     and_then (ensure (secret \<noteq> []) EmptySecret) (\<lambda>_.
     Inr \<lparr>account_tag = a, tunnel_secret = secret, tunnel_id = t, endpoint = e\<rparr>))))))"

text \<open>\<open>base64_encode\<close> of \<open>inbound.rs\<close>: the loop over \<open>chunks(3)\<close>, with \<open>chunk.get(i).unwrap_or(&0)\<close>.\<close>

definition base64_chunk :: "bytes \<Rightarrow> string" where
  "base64_chunk chunk =
     (let first = chunk ! 0; second = (if 1 < length chunk then chunk ! 1 else 0);
          third = (if 2 < length chunk then chunk ! 2 else 0)
      in [base64_digit (drop_bit 2 first),
          base64_digit (or (push_bit 4 (and first 3)) (drop_bit 4 second)),
          if 1 < length chunk then base64_digit (or (push_bit 2 (and second 15)) (drop_bit 6 third)) else CHR ''='',
          if 2 < length chunk then base64_digit (and third 63) else CHR ''=''])"

function base64_encode :: "bytes \<Rightarrow> string" where
  "base64_encode [] = []"
| "base64_encode (b # bs) = base64_chunk (take 3 (b # bs)) @ base64_encode (drop 3 (b # bs))"
  by pat_completeness auto
termination
  by (relation "measure length") auto

section \<open>What is encoded is decoded\<close>

lemma base64_encode_eq: "base64_encode bs = encode_base64 bs"
  by (induction bs rule: encode_base64.induct) (simp_all add: base64_chunk_def)

lemma base64_text_graphic:
  assumes "v < 64"
  shows "graphic (base64_digit v)"
proof -
  have "list_all graphic BASE64_TABLE" by (simp add: BASE64_TABLE_def graphic_def)
  moreover have "unat v < length BASE64_TABLE"
    using assms by (simp add: BASE64_TABLE_def word_less_nat_alt)
  ultimately show ?thesis by (simp add: base64_digit_def list_all_length)
qed

lemma graphic_not_whitespace: "graphic c \<Longrightarrow> \<not> is_ascii_whitespace c"
  by (auto simp: graphic_def is_ascii_whitespace_def)

lemma base64_value_url: "base64_url_value c = Inr d \<Longrightarrow> base64_value c = Inr d"
  by (simp add: base64_url_value_def base64_value_def Let_def split: if_splits) auto

lemma base64_digit_value:
  assumes "v < 64"
  shows "base64_value (base64_digit v) = Inr v" "\<not> is_ascii_whitespace (base64_digit v)"
proof -
  have "base64_value (CHR ''+'') = base64_value (CHR ''-'')" "base64_value (CHR ''/'') = base64_value (CHR ''_'')"
    by (simp_all add: base64_value_def)
  with base64_value_url [OF base64_url_char(3) [OF assms]] show "base64_value (base64_digit v) = Inr v"
    by (simp add: url_char_def split: if_splits)
qed (rule graphic_not_whitespace [OF base64_text_graphic [OF assms]])

text \<open>On the digits of the standard alphabet, padded or not, the decoder does what the URL-safe one does on its own.\<close>

lemma token_base64_from_url:
  assumes "\<forall>v \<in> set vs. v < 64"
  shows "token_base64_from out acc bits (map base64_digit vs @ replicate n (CHR ''='')) =
    map_err (\<lambda>_. TokenBase64) (decode_base64_from out acc bits (map url_char vs))"
  using assms
proof (induction vs arbitrary: out acc bits)
  case Nil
  show ?case by (cases n) (simp_all add: is_ascii_whitespace_def)
next
  case (Cons v vs)
  from Cons.prems have v: "v < 64" by simp
  note [simp] = base64_digit_value [OF v] base64_url_char [OF v]
  from Cons show ?case by (simp add: Let_def mask_eq_decr_exp)
qed

lemma token_base64_roundtrip: "token_base64 (base64_encode bs) = Inr bs"
proof -
  obtain n where n: "encode_base64 bs = map base64_digit (sextets bs) @ replicate n (CHR ''='')"
    using encode_base64_sextets by blast
  have "token_base64_from [] 0 0 (encode_base64 bs) =
      map_err (\<lambda>_. TokenBase64) (decode_base64_from [] 0 0 (encode_base64_url bs))"
    unfolding n encode_base64_url_sextets by (rule token_base64_from_url) (use sextets_less in auto)
  with base64_url_roundtrip [of bs] show ?thesis
    by (auto simp: token_base64_def base64_encode_eq decode_base64_url_def and_then_eq_Inr)
qed

lemma base64_encode_graphic: "c \<in> set (base64_encode bs) \<Longrightarrow> graphic c"
proof -
  assume "c \<in> set (base64_encode bs)"
  moreover obtain n where "base64_encode bs = map base64_digit (sextets bs) @ replicate n (CHR ''='')"
    using encode_base64_sextets base64_encode_eq by metis
  ultimately show ?thesis using base64_text_graphic sextets_less by (auto simp: graphic_def)
qed

text \<open>A token is understood. When JSON reads the payload as the fields of some credentials, their secret in base64, the
  base64 text of the payload is read as these credentials; an empty account or secret is refused.
\<close>

theorem parse_token_roundtrip:
  assumes "json payload = Some (account_tag c, base64_encode (tunnel_secret c), tunnel_id c, endpoint c)"
    and "payload \<noteq> []"
  shows "parse_token json (base64_encode payload) =
    (if account_tag c = [] then Inl EmptyAccount else if tunnel_secret c = [] then Inl EmptySecret else Inr c)"
proof -
  have "trim (base64_encode payload) = base64_encode payload"
    by (rule trim_graphic) (use base64_encode_graphic in blast)
  moreover have "base64_encode payload \<noteq> []" using assms(2) by (cases payload) (simp_all add: base64_chunk_def Let_def)
  ultimately show ?thesis using assms(1) by (simp add: parse_token_def token_base64_roundtrip ensure_def)
qed

theorem parse_token_roundtrip_witness:
  "parse_token (\<lambda>_. Some (''a'', ''AQI='', [7], [])) (base64_encode [9]) =
    Inr \<lparr>account_tag = ''a'', tunnel_secret = [1, 2], tunnel_id = [7], endpoint = []\<rparr>"
proof -
  have "base64_encode [1, 2] = ''AQI=''" by code_simp
  with parse_token_roundtrip [of "\<lambda>_. Some (''a'', ''AQI='', [7], [])" "[9]"
      "\<lparr>account_tag = ''a'', tunnel_secret = [1, 2], tunnel_id = [7], endpoint = []\<rparr>"]
  show ?thesis by simp
qed

end
