(* ===== verification/Cf_Protocol.thy ===== *)
theory Cf_Protocol
  imports Cf_Token
begin

text \<open>
  The streams of a tunnel (\<open>protocol.rs\<close>), the framing of a connect request on a QUIC stream
  (\<open>read_connect_frame\<close> of \<open>quic.rs\<close>), and the registration of a connection (\<open>registration.rs\<close>). Cap'n Proto is a
  library: the record \<open>capnp\<close> has the serialised messages that its builders write and what its readers
  make of bytes. Its documented stream format, a table of segment sizes followed by the segments, is \<open>put_segments\<close>.
\<close>

section \<open>Streams and requests\<close>

definition DATA_STREAM_SIGNATURE :: bytes where
  "DATA_STREAM_SIGNATURE = [0x0A, 0x36, 0xCD, 0x12, 0xA1, 0x3E]"

definition RPC_STREAM_SIGNATURE :: bytes where
  "RPC_STREAM_SIGNATURE = [0x52, 0xBB, 0x82, 0x5C, 0xDB, 0x65]"

definition PROTOCOL_VERSION :: bytes where
  "PROTOCOL_VERSION = as_bytes ''01''"

datatype stream_type = DataStream | RpcStream

datatype connection_type = HttpConnection | WebsocketConnection | TcpConnection

record connect_request =
  cr_destination :: string
  cr_type :: connection_type
  cr_metadata :: "(string \<times> string) list"

record connect_response =
  crs_error :: string
  crs_metadata :: "(string \<times> string) list"

datatype protocol_error =
    UnknownSignature | RequestTooShort | InvalidSignature | UnsupportedVersion | CapnpRead
  | StreamEof | TooManySegments | RequestTooLarge

record capnp =
  put_connect_request :: "connect_request \<Rightarrow> bytes"
  get_connect_request :: "bytes \<Rightarrow> connect_request option"
  put_connect_response :: "connect_response \<Rightarrow> bytes"

definition classify_stream :: "bytes \<Rightarrow> protocol_error + stream_type" where
  "classify_stream signature =
     (if signature = DATA_STREAM_SIGNATURE then Inr DataStream
      else if signature = RPC_STREAM_SIGNATURE then Inr RpcStream
      else Inl UnknownSignature)"

definition encode_connect_request :: "capnp \<Rightarrow> connect_request \<Rightarrow> bytes" where
  "encode_connect_request lib request = DATA_STREAM_SIGNATURE @ PROTOCOL_VERSION @ put_connect_request lib request"

definition decode_connect_request :: "capnp \<Rightarrow> bytes \<Rightarrow> protocol_error + connect_request" where
  "decode_connect_request lib d =
     and_then (ensure (length DATA_STREAM_SIGNATURE + length PROTOCOL_VERSION \<le> length d) RequestTooShort) (\<lambda>_.
     and_then (ensure (take (length DATA_STREAM_SIGNATURE) d = DATA_STREAM_SIGNATURE) InvalidSignature) (\<lambda>_.
     and_then (ensure (take 2 (drop (length DATA_STREAM_SIGNATURE) d) = PROTOCOL_VERSION) UnsupportedVersion) (\<lambda>_.
     ok_or CapnpRead (get_connect_request lib (drop 8 d)))))"

definition encode_connect_response :: "capnp \<Rightarrow> connect_response \<Rightarrow> bytes" where
  "encode_connect_response lib response = DATA_STREAM_SIGNATURE @ PROTOCOL_VERSION @ put_connect_response lib response"

section \<open>The frame of a connect request\<close>

definition MAX_CONNECT_MESSAGE :: nat where "MAX_CONNECT_MESSAGE = 8 * 1024 * 1024"

text \<open>\<open>u32::to_le_bytes\<close> and \<open>from_le_bytes\<close>, as numbers.\<close>

definition le32_bytes :: "nat \<Rightarrow> bytes" where "le32_bytes n = rev (be_list 4 n)"

definition le32_at :: "bytes \<Rightarrow> nat \<Rightarrow> nat" where "le32_at bs i = be_nat (rev (take 4 (drop i bs)))"

definition next_multiple_of_8 :: "nat \<Rightarrow> nat" where "next_multiple_of_8 n = (n + 7) div 8 * 8"

text \<open>
  \<open>read_connect_frame\<close>, over the bytes of the stream behind its signature. The sizes are at most 32 bits of words,
  for at most 512 segments, so that the checked arithmetic on \<open>usize\<close> does not overflow.
\<close>

definition read_connect_frame :: "bytes \<Rightarrow> protocol_error + (bytes \<times> bytes)" where
  "read_connect_frame bs =
     and_then (read_exact StreamEof 2 bs) (\<lambda>(version, bs).
     and_then (ensure (version = PROTOCOL_VERSION) UnsupportedVersion) (\<lambda>_.
     and_then (read_exact StreamEof 8 bs) (\<lambda>(header, bs).
     let segment_count = le32_at header 0 + 1 in
     and_then (ensure (segment_count \<le> 512) TooManySegments) (\<lambda>_.
     let header_size = next_multiple_of_8 (4 * (segment_count + 1)) in
     and_then (if header_size > 8 then read_exact StreamEof (header_size - 8) bs else Inr ([], bs)) (\<lambda>(table, bs).
     let frame = header @ table;
         body_size = (\<Sum>index \<leftarrow> [0..<segment_count]. le32_at frame (4 + index * 4) * 8) in
     and_then (ensure (body_size \<le> MAX_CONNECT_MESSAGE) RequestTooLarge) (\<lambda>_.
     and_then (read_exact StreamEof body_size bs) (\<lambda>(body, bs).
     Inr (DATA_STREAM_SIGNATURE @ PROTOCOL_VERSION @ frame @ body, bs))))))))"

text \<open>
  What \<open>handle_stream\<close> and \<open>handle_data_stream\<close> of \<open>quic.rs\<close> make of the bytes of a new stream: a request with the
  bytes behind it, or \<open>None\<close> for a stream of remote procedure calls.
\<close>

definition open_quic_stream :: "capnp \<Rightarrow> bytes \<Rightarrow> protocol_error + (connect_request \<times> bytes) option" where
  "open_quic_stream lib bs =
     and_then (read_exact StreamEof 6 bs) (\<lambda>(signature, bs).
     and_then (classify_stream signature) (\<lambda>kind.
     case kind of
       DataStream \<Rightarrow>
         and_then (read_connect_frame bs) (\<lambda>(frame, bs).
         and_then (decode_connect_request lib frame) (\<lambda>request. Inr (Some (request, bs))))
     | RpcStream \<Rightarrow> Inr None))"

section \<open>Registration\<close>

definition CLIENT_VERSION :: string where "CLIENT_VERSION = ''sing-cloudflared''"

definition DEFAULT_FEATURES :: "string list" where
  "DEFAULT_FEATURES = [''serialized_headers'', ''support_datagram_v2'', ''support_quic_eof'', ''allow_remote_config'']"

record connection_options =
  connector_id :: bytes
  features :: "string list"
  origin_local_ip :: "ip_addr option"
  replace_existing :: bool
  compression_quality :: u8
  num_previous_attempts :: u8

definition default_connection_options :: "bytes \<Rightarrow> connection_options" where
  "default_connection_options new_uuid =
     \<lparr>connector_id = new_uuid, features = DEFAULT_FEATURES, origin_local_ip = None, replace_existing = False,
      compression_quality = 0, num_previous_attempts = 0\<rparr>"

text \<open>The fields of \<open>registerConnection\<close> that \<open>set_register_connection\<close> fills; \<open>arch\<close> names the platform.\<close>

record register_params =
  rp_account_tag :: string
  rp_tunnel_secret :: bytes
  rp_tunnel_id :: bytes
  rp_conn_index :: u8
  rp_client_id :: bytes
  rp_features :: "string list"
  rp_version :: string
  rp_arch :: string
  rp_replace_existing :: bool
  rp_compression_quality :: u8
  rp_num_previous_attempts :: u8
  rp_origin_local_ip :: "bytes option"

definition set_register_connection :: "string \<Rightarrow> credentials \<Rightarrow> u8 \<Rightarrow> connection_options \<Rightarrow> register_params" where
  "set_register_connection arch c conn_index opts =
     \<lparr>rp_account_tag = account_tag c, rp_tunnel_secret = tunnel_secret c, rp_tunnel_id = tunnel_id c,
      rp_conn_index = conn_index, rp_client_id = connector_id opts, rp_features = features opts,
      rp_version = CLIENT_VERSION, rp_arch = arch, rp_replace_existing = replace_existing opts,
      rp_compression_quality = compression_quality opts, rp_num_previous_attempts = num_previous_attempts opts,
      rp_origin_local_ip = map_option (\<lambda>ip. case ip of IpV4 a \<Rightarrow> be_bytes a | IpV6 a \<Rightarrow> be_bytes a) (origin_local_ip opts)\<rparr>"

record registration_result =
  connection_id :: bytes
  location :: string
  tunnel_is_remotely_managed :: bool

text \<open>Why a connection ended: the two errors the supervisor looks for, with a delay in nanoseconds, and all others.\<close>

datatype tunnel_error = RetryableRegistration nat | PermanentRegistration | OtherTunnelError

datatype registration_response =
    RegistrationError string bool int
  | ConnectionDetails bytes string bool

definition read_registration_result :: "registration_response \<Rightarrow> tunnel_error + registration_result" where
  "read_registration_result response =
     (case response of
        RegistrationError cause should_retry retry_after \<Rightarrow>
          if should_retry then Inl (RetryableRegistration (nat (max retry_after 0))) else Inl PermanentRegistration
      | ConnectionDetails uuid place managed \<Rightarrow>
          and_then (ensure (length uuid = 16) OtherTunnelError) (\<lambda>_.
          Inr \<lparr>connection_id = uuid, location = place, tunnel_is_remotely_managed = managed\<rparr>))"

section \<open>Requests arrive\<close>

text \<open>The stream format of a message: the number of segments less one, their sizes in words, padding, the segments.\<close>

definition put_segments :: "bytes list \<Rightarrow> bytes" where
  "put_segments segs =
     (let table = le32_bytes (length segs - 1) @ concat (map (\<lambda>s. le32_bytes (length s div 8)) segs)
      in table @ replicate (next_multiple_of_8 (length table) - length table) 0 @ concat segs)"

definition segments_ok :: "bytes list \<Rightarrow> bool" where
  "segments_ok segs \<longleftrightarrow> segs \<noteq> [] \<and> length segs \<le> 512 \<and> (\<forall>s \<in> set segs. 8 dvd length s)
     \<and> length (concat segs) \<le> MAX_CONNECT_MESSAGE"

lemma length_le32 [simp]: "length (le32_bytes v) = 4"
  by (simp add: le32_bytes_def)

lemma le32_at_take: "take 4 (drop i bs) = le32_bytes v \<Longrightarrow> v < 2 ^ 32 \<Longrightarrow> le32_at bs i = v"
  by (simp add: le32_at_def le32_bytes_def be_nat_be_list)

lemma take_drop_blocks:
  "\<forall>x. length (f x) = 4 \<Longrightarrow> i < length xs \<Longrightarrow> take 4 (drop (i * 4) (concat (map f xs) @ rest)) = f (xs ! i)"
proof (induction xs arbitrary: i)
  case (Cons x xs)
  show ?case
  proof (cases i)
    case 0
    with Cons.prems show ?thesis by simp
  next
    case (Suc j)
    with Cons have "take 4 (drop (j * 4) (concat (map f xs) @ rest)) = f (xs ! j)" by simp
    moreover have "drop (Suc j * 4) (concat (map f (x # xs)) @ rest) = drop (j * 4) (concat (map f xs) @ rest)"
      using Cons.prems(1) by (simp add: drop_append)
    ultimately show ?thesis using Suc by simp
  qed
qed simp

lemma length_blocks: "\<forall>x. length (f x) = k \<Longrightarrow> length (concat (map f xs)) = k * length xs"
  by (induction xs) auto

lemma next_multiple_ge: "n \<le> next_multiple_of_8 n"
  by (simp add: next_multiple_of_8_def)

lemma segment_sizes:
  assumes "\<forall>s \<in> set segs. 8 dvd length s"
  shows "(\<Sum>i \<leftarrow> [0..<length segs]. length (segs ! i) div 8 * 8) = length (concat segs)"
proof -
  have "(\<Sum>i \<leftarrow> [0..<length segs]. length (segs ! i) div 8 * 8) = (\<Sum>s \<leftarrow> segs. length s div 8 * 8)"
    by (subst (3) map_nth [of segs, symmetric]) (simp add: comp_def del: upt_rec_numeral)
  also have "\<dots> = (\<Sum>s \<leftarrow> segs. length s)" using assms by (intro arg_cong [of _ _ sum_list] map_cong) auto
  finally show ?thesis by (simp add: length_concat)
qed

lemma read_connect_frame_parts:
  assumes "length header = 8" and "le32_at header 0 + 1 = n" and "n \<le> 512" and "8 \<le> next_multiple_of_8 (4 * (n + 1))"
    and "length table = next_multiple_of_8 (4 * (n + 1)) - 8"
    and "(\<Sum>i \<leftarrow> [0..<n]. le32_at (header @ table) (4 + i * 4) * 8) = length body" and "length body \<le> MAX_CONNECT_MESSAGE"
  shows "read_connect_frame (PROTOCOL_VERSION @ header @ table @ body @ rest)
    = Inr (DATA_STREAM_SIGNATURE @ PROTOCOL_VERSION @ header @ table @ body, rest)"
proof -
  have v: "length PROTOCOL_VERSION = 2" by (simp add: PROTOCOL_VERSION_def)
  have t: "(if 8 < next_multiple_of_8 (4 * (n + 1)) then read_exact StreamEof (next_multiple_of_8 (4 * (n + 1)) - 8) (table @ ys)
      else Inr ([], table @ ys)) = Inr (table, ys)" for ys
    using assms(4,5) by (auto simp: read_exact_append)
  show ?thesis
    unfolding read_connect_frame_def Let_def read_exact_append [OF v] read_exact_append [OF assms(1)] assms(2) and_then_simps
      prod.case using assms(3,7) by (simp add: assms(2,6) t [simplified])
qed

lemma read_connect_frame_segments:
  assumes "segments_ok segs"
  shows "read_connect_frame (PROTOCOL_VERSION @ put_segments segs @ rest)
    = Inr (DATA_STREAM_SIGNATURE @ PROTOCOL_VERSION @ put_segments segs, rest)"
proof -
  let ?n = "length segs"
  let ?sizes = "concat (map (\<lambda>s. le32_bytes (length s div 8)) segs)"
  let ?table = "le32_bytes (?n - 1) @ ?sizes"
  let ?h = "next_multiple_of_8 (length ?table)"
  define head where "head = ?table @ replicate (?h - length ?table) 0"
  have n: "0 < ?n" "?n \<le> 512" and max: "length (concat segs) \<le> MAX_CONNECT_MESSAGE"
    and words: "\<forall>s \<in> set segs. 8 dvd length s" using assms by (simp_all add: segments_ok_def)
  have sizes: "length ?sizes = 4 * ?n" by (rule length_blocks) simp
  have "length s \<le> length (concat segs)" if "s \<in> set segs" for s
    using that by (induction segs) auto
  with max have small: "length (segs ! i) div 8 < 2 ^ 32" if "i < ?n" for i
    using that nth_mem [of i segs] by (fastforce simp: MAX_CONNECT_MESSAGE_def intro: le_less_trans [OF div_le_dividend])
  have len: "length ?table = 4 * (?n + 1)" using sizes by simp
  have head: "length head = ?h" using next_multiple_ge [of "length ?table"] by (simp add: head_def)
  have "8 \<le> 4 * (?n + 1)" using n(1) by arith
  then have eight: "8 \<le> ?h" unfolding len [symmetric] using next_multiple_ge le_trans by blast
  have count: "le32_at (take 8 head) 0 + 1 = ?n"
    using n le32_at_take [of 0 "take 8 head" "?n - 1"] by (simp add: head_def)
  have size: "le32_at head (4 + i * 4) = length (segs ! i) div 8" if "i < ?n" for i
  proof (rule le32_at_take [OF _ small [OF that]])
    have "drop (4 + i * 4) head = drop (i * 4) (?sizes @ replicate (?h - length ?table) 0)"
      unfolding head_def by (simp only: append_assoc drop_append length_le32) simp
    then show "take 4 (drop (4 + i * 4) head) = le32_bytes (length (segs ! i) div 8)"
      using take_drop_blocks [OF _ that, of "\<lambda>s. le32_bytes (length s div 8)"] by (simp only: length_le32 simp_thms)
  qed
  have "(\<Sum>i \<leftarrow> [0..<?n]. le32_at head (4 + i * 4) * 8) = (\<Sum>i \<leftarrow> [0..<?n]. length (segs ! i) div 8 * 8)"
    by (intro arg_cong [of _ _ sum_list] map_cong refl) (simp only: size set_upt atLeastLessThan_iff)
  with segment_sizes [OF words] have sum: "(\<Sum>i \<leftarrow> [0..<?n]. le32_at head (4 + i * 4) * 8) = length (concat segs)" by simp
  have "put_segments segs = head @ concat segs" by (simp add: put_segments_def Let_def head_def)
  also have "head = take 8 head @ drop 8 head" by simp
  finally have put: "put_segments segs = take 8 head @ drop 8 head @ concat segs" by simp
  show ?thesis unfolding put append_assoc
    by (rule read_connect_frame_parts [where n = ?n]) (use n eight head len count sum max in simp_all)
qed

lemma signature_facts:
  "length DATA_STREAM_SIGNATURE = 6" "length PROTOCOL_VERSION = 2" "classify_stream DATA_STREAM_SIGNATURE = Inr DataStream"
  by (simp_all add: DATA_STREAM_SIGNATURE_def PROTOCOL_VERSION_def classify_stream_def)

text \<open>C37: A connect request arrives as it was sent. Let Cap'n Proto read back the message it wrote, in its stream format
  with any number of segments up to 512 and at most 8 MiB. Then a QUIC stream that starts with the encoded request is taken for a
  data stream, the frame is cut out exactly, the request is the one encoded, and the bytes behind it are left to
  the handler of the stream.
\<close>

theorem connect_request_transmitted:
  assumes "get_connect_request lib (put_connect_request lib request) = Some request"
    and "put_connect_request lib request = put_segments segs" and "segments_ok segs"
  shows "open_quic_stream lib (encode_connect_request lib request @ rest) = Inr (Some (request, rest))"
proof -
  have "decode_connect_request lib (DATA_STREAM_SIGNATURE @ PROTOCOL_VERSION @ put_segments segs) = Inr request"
    using assms(1) by (simp add: decode_connect_request_def signature_facts assms(2))
  with read_connect_frame_segments [OF assms(3), of rest] show ?thesis
    by (simp add: open_quic_stream_def encode_connect_request_def signature_facts read_exact_append assms(2))
qed

theorem connect_request_transmitted_witness:
  "open_quic_stream \<lparr>put_connect_request = \<lambda>_. put_segments [replicate 8 1, []],
        get_connect_request = \<lambda>_. Some \<lparr>cr_destination = ''x:1'', cr_type = TcpConnection, cr_metadata = []\<rparr>,
        put_connect_response = \<lambda>_. []\<rparr>
      (DATA_STREAM_SIGNATURE @ PROTOCOL_VERSION @ put_segments [replicate 8 1, []] @ [9])
    = Inr (Some (\<lparr>cr_destination = ''x:1'', cr_type = TcpConnection, cr_metadata = []\<rparr>, [9]))"
proof -
  let ?request = "\<lparr>cr_destination = ''x:1'', cr_type = TcpConnection, cr_metadata = []\<rparr>"
  let ?segs = "[replicate 8 1, []] :: bytes list"
  let ?lib = "\<lparr>put_connect_request = \<lambda>_. put_segments ?segs, get_connect_request = \<lambda>_. Some ?request, put_connect_response = \<lambda>_. []\<rparr>"
  have "segments_ok ?segs" by (simp add: segments_ok_def MAX_CONNECT_MESSAGE_def)
  from connect_request_transmitted [of ?lib ?request ?segs "[9]", OF _ _ this] show ?thesis
    by (simp add: encode_connect_request_def)
qed

text \<open>What one frame can make the server hold, whatever the peer announces.\<close>

lemma table_bound: "le32_at header i \<le> 511 \<Longrightarrow> next_multiple_of_8 (8 + 4 * le32_at header i) \<le> 2064"
  by (simp add: next_multiple_of_8_def)

lemma read_connect_frame_bounded:
  assumes "read_connect_frame bs = Inr (frame, rest)"
  shows "length frame \<le> 2072 + MAX_CONNECT_MESSAGE" and "bs = drop 6 frame @ rest"
  using assms by (auto simp: read_connect_frame_def Let_def read_exact_Inr_iff signature_facts split: if_splits dest: table_bound)

end
