(* ===== verification/Cf_Ingress.thy ===== *)
theory Cf_Ingress
  imports Cf_Protocol
begin

text \<open>
  The remote configuration of a tunnel and the way a request takes through it (\<open>inbound.rs\<close> of the Cloudflared
  crate): the store of the configuration, the choice of an ingress rule and the rewriting of the request,
  the address that is dialled and the source that is logged. URIs and JSON are libraries: \<open>parse_uri\<close> yields what the
  methods of \<open>http::Uri\<close> return, \<open>json\<close> the ingress rules of a configuration.
\<close>

section \<open>The store\<close>

record ingress_rule =
  ir_hostname :: string
  ir_path :: string
  ir_service :: string

record remote_config =
  rc_version :: int
  rc_raw :: bytes
  rc_ingress :: "ingress_rule list"

datatype ingress_error =
    ConfigurationJson | RequestUri | NoIngressRule | StatusService | ServiceUri | UnsupportedService
  | NoAuthority | EmptyDestination | MissingPort | InvalidBracket | InvalidPort

definition configuration_store :: remote_config where
  "configuration_store = \<lparr>rc_version = -1, rc_raw = [], rc_ingress = []\<rparr>"

text \<open>The handler of \<open>configuration_store\<close>; a version is an \<open>i32\<close>, which is only compared.\<close>

definition update_configuration ::
    "(bytes \<Rightarrow> ingress_rule list option) \<Rightarrow> int \<Rightarrow> bytes \<Rightarrow> remote_config \<Rightarrow> (ingress_error + int) \<times> remote_config" where
  "update_configuration json version config state =
     (case json config of
        None \<Rightarrow> (Inl ConfigurationJson, state)
      | Some ingress \<Rightarrow>
          let state = (if version > rc_version state
                       then state\<lparr>rc_version := version, rc_raw := config, rc_ingress := ingress\<rparr> else state)
          in (Inr (rc_version state), state))"

text \<open>\<open>update_configuration\<close> of \<open>quic.rs\<close> and \<open>handle_configuration_update\<close> of \<open>transport.rs\<close>: the version and the
  error in the reply, for the handler that is installed.\<close>

definition configuration_reply :: "int \<Rightarrow> (ingress_error + int) option \<Rightarrow> int \<times> bool" where
  "configuration_reply version outcome =
     (case outcome of
        Some (Inr applied) \<Rightarrow> (applied, False)
      | Some (Inl _) \<Rightarrow> (version, True)
      | None \<Rightarrow> (version, True))"

section \<open>Requests and rules\<close>

record uri_authority =
  au_text :: string
  au_host :: string
  au_port :: "u16 option"

record uri =
  uri_scheme :: "string option"
  uri_authority :: "uri_authority option"
  uri_path :: string
  uri_path_and_query :: "string option"

definition metadata_value :: "connect_request \<Rightarrow> string \<Rightarrow> string option" where
  "metadata_value request key = map_option snd (find (\<lambda>entry. fst entry = key) (cr_metadata request))"

definition parse_u16 :: "string \<Rightarrow> u16 option" where
  "parse_u16 s = map_option of_nat (parse_uint 10 65535 s)"

definition normalize_host :: "string \<Rightarrow> string" where
  "normalize_host value =
     (case strip_prefix value ''['' of
        Some v \<Rightarrow> to_ascii_lowercase (hd (split_on (CHR '']'') v))
      | None \<Rightarrow>
          (case rsplit_once (CHR '':'') value of
             Some (h, p) \<Rightarrow> to_ascii_lowercase (if parse_u16 p \<noteq> None then h else value)
           | None \<Rightarrow> to_ascii_lowercase value))"

definition rule_matches :: "string \<Rightarrow> string \<Rightarrow> ingress_rule \<Rightarrow> bool" where
  "rule_matches h path rule =
     (let hostname = to_ascii_lowercase (ir_hostname rule);
          host_match = (hostname = [] \<or> hostname = ''*'' \<or> hostname = h
            \<or> (prefix ''*.'' hostname \<and> suffix (drop 1 hostname) h));
          path_pattern = trim_end_matches (CHR ''$'') (trim_start_matches (CHR ''^'') (ir_path rule))
      in host_match \<and> (path_pattern = [] \<or> prefix path_pattern path))"

definition request_host :: "connect_request \<Rightarrow> uri \<Rightarrow> string" where
  "request_host request uri =
     (case (case metadata_value request ''HttpHost'' of
              Some h \<Rightarrow> Some h | None \<Rightarrow> map_option au_host (uri_authority uri)) of
        Some h \<Rightarrow> normalize_host h
      | None \<Rightarrow> [])"

text \<open>\<open>resolve_remote_request\<close>: the request to send on, and a status when the rule answers itself.\<close>

definition service_destination :: "uri \<Rightarrow> uri_authority \<Rightarrow> uri \<Rightarrow> string" where
  "service_destination service authority uri =
     (let service_path = trim_end_matches (CHR ''/'') (uri_path service);
          request_path = (case uri_path_and_query uri of Some p \<Rightarrow> p | None \<Rightarrow> ''/'');
          joined_path = (if service_path = [] \<or> service_path = ''/'' then request_path
            else if request_path = ''/'' then service_path else service_path @ request_path)
      in (case uri_scheme service of Some s \<Rightarrow> s | None \<Rightarrow> ''http'') @ ''://'' @ au_text authority @ joined_path)"

definition resolve_remote_request ::
    "(string \<Rightarrow> uri option) \<Rightarrow> remote_config \<Rightarrow> connect_request \<Rightarrow> ingress_error + (connect_request \<times> u16 option)" where
  "resolve_remote_request parse_uri state request =
     (if rc_ingress state = [] then Inr (request, None)
      else
        and_then (ok_or RequestUri (parse_uri (cr_destination request))) (\<lambda>uri.
        and_then (ok_or NoIngressRule (find (rule_matches (request_host request uri) (uri_path uri)) (rc_ingress state))) (\<lambda>rule.
        case strip_prefix (ir_service rule) ''http_status:'' of
          Some status \<Rightarrow> and_then (ok_or StatusService (parse_u16 status)) (\<lambda>status. Inr (request, Some status))
        | None \<Rightarrow>
            and_then (ok_or ServiceUri (parse_uri (ir_service rule))) (\<lambda>service.
            case (uri_scheme service, uri_authority service) of
              (Some s, Some authority) \<Rightarrow>
                and_then (ensure (s \<in> {''http'', ''https'', ''ws'', ''wss''}) UnsupportedService) (\<lambda>_.
                Inr (request\<lparr>cr_destination := service_destination service authority uri\<rparr>, None))
            | _ \<Rightarrow> Inl UnsupportedService))))"

section \<open>Addresses\<close>

definition split_host_port :: "string \<Rightarrow> ingress_error + (string \<times> u16)" where
  "split_host_port value =
     (case strip_prefix value ''['' of
        Some v \<Rightarrow>
          and_then (ok_or InvalidBracket (split_once (CHR '']'') v)) (\<lambda>(h, p).
          and_then (ok_or MissingPort (strip_prefix p '':'')) (\<lambda>p.
          and_then (ok_or InvalidPort (parse_u16 p)) (\<lambda>p. Inr (h, p))))
      | None \<Rightarrow>
          and_then (ok_or MissingPort (rsplit_once (CHR '':'') value)) (\<lambda>(h, p).
          and_then (ok_or InvalidPort (parse_u16 p)) (\<lambda>p. Inr (h, p))))"

definition destination_address :: "string \<Rightarrow> u16 \<Rightarrow> ingress_error + (network \<times> address)" where
  "destination_address h p = and_then (map_err (\<lambda>_. EmptyDestination) (new_address h p)) (\<lambda>a. Inr (Tcp, a))"

definition destination_for_request ::
    "(string \<Rightarrow> uri option) \<Rightarrow> string \<Rightarrow> connection_type \<Rightarrow> ingress_error + (network \<times> address)" where
  "destination_for_request parse_uri destination kind =
     (if kind \<in> {HttpConnection, WebsocketConnection} then
        and_then (ok_or RequestUri (parse_uri destination)) (\<lambda>uri.
        and_then (ok_or NoAuthority (uri_authority uri)) (\<lambda>authority.
        destination_address (au_host authority)
          (case au_port authority of
             Some p \<Rightarrow> p
           | None \<Rightarrow> if uri_scheme uri \<in> {Some ''https'', Some ''wss''} then 443 else 80)))
      else and_then (split_host_port destination) (\<lambda>(h, p). destination_address h p))"

text \<open>\<open>source_for_request\<close>: the loop over the three keys.\<close>

definition source_of_key :: "connect_request \<Rightarrow> string \<Rightarrow> socket_addr option" where
  "source_of_key request key =
     (case (case metadata_value request key of
              Some v \<Rightarrow> Some v | None \<Rightarrow> metadata_value request (''HttpHeader:'' @ key)) of
        None \<Rightarrow> None
      | Some v \<Rightarrow> map_option (\<lambda>ip. new_socket_addr ip 0) (parse_ip (trim (hd (split_on (CHR '','') v)))))"

fun source_from :: "connect_request \<Rightarrow> string list \<Rightarrow> socket_addr" where
  "source_from request [] = SockV4 v4_unspecified 0"
| "source_from request (key # keys) =
     (case source_of_key request key of Some a \<Rightarrow> a | None \<Rightarrow> source_from request keys)"

definition source_for_request :: "connect_request \<Rightarrow> socket_addr" where
  "source_for_request request = source_from request [''Cf-Connecting-IP'', ''X-Real-IP'', ''X-Forwarded-For'']"

text \<open>The session of \<open>router_handler\<close>, which routes the streams that are not HTTP.\<close>

definition router_session :: "(string \<Rightarrow> uri option) \<Rightarrow> string \<Rightarrow> connect_request \<Rightarrow> ingress_error + session" where
  "router_session parse_uri tag request =
     and_then (destination_for_request parse_uri (cr_destination request) (cr_type request)) (\<lambda>(network, destination).
     Inr (session_inbound network (source_for_request request) destination tag ''cloudflared'' None))"

section \<open>The store keeps the newest configuration\<close>

definition apply_updates :: "(bytes \<Rightarrow> ingress_rule list option) \<Rightarrow> (int \<times> bytes) list \<Rightarrow> remote_config \<Rightarrow> remote_config" where
  "apply_updates json us state = fold (\<lambda>(version, config) s. snd (update_configuration json version config s)) us state"

lemma apply_updates_snoc:
  "apply_updates json (us @ [(v, c)]) s = snd (update_configuration json v c (apply_updates json us s))"
  by (simp add: apply_updates_def)

text \<open>The two halves of what the store keeps: the highest version that could be read, and the first update that brought it.\<close>

lemma newest_version:
  "rc_version (apply_updates json us configuration_store)
      = Max (insert (-1) {v. \<exists>c. (v, c) \<in> set us \<and> json c \<noteq> None})"
proof (induction us rule: rev_induct)
  case Nil
  show ?case by (simp add: apply_updates_def configuration_store_def)
next
  case (snoc u us)
  obtain v c where u: "u = (v, c)" by (cases u)
  let ?V = "\<lambda>us. {v. \<exists>c. (v, c) \<in> set us \<and> json c \<noteq> None}"
  have fin: "finite (?V us)"
    by (rule finite_subset [of _ "fst ` set us"]) (auto intro: image_eqI [of _ fst, OF fst_conv [symmetric]])
  show ?case
  proof (cases "json c")
    case None
    then have "?V (us @ [u]) = ?V us" by (auto simp: u)
    with None snoc.IH show ?thesis by (simp add: apply_updates_snoc u update_configuration_def)
  next
    case (Some ingress)
    then have "?V (us @ [u]) = insert v (?V us)" by (auto simp: u)
    then have "Max (insert (-1) (?V (us @ [u]))) = Max (insert v (insert (-1) (?V us)))" by (simp only: insert_commute)
    also have "\<dots> = max v (Max (insert (-1) (?V us)))" using fin by (intro Max_insert) auto
    finally show ?thesis using Some snoc.IH by (simp add: apply_updates_snoc u update_configuration_def Let_def)
  qed
qed

lemma newest_version_ge:
  assumes "(v, c) \<in> set us" and "json c \<noteq> None"
  shows "v \<le> rc_version (apply_updates json us configuration_store)"
proof -
  have "finite {v. \<exists>c. (v, c) \<in> set us \<and> json c \<noteq> None}"
    by (rule finite_subset [of _ "fst ` set us"]) (auto intro: image_eqI [of _ fst, OF fst_conv [symmetric]])
  with assms show ?thesis unfolding newest_version by (intro Max_ge) auto
qed

lemma stored_update:
  "apply_updates json us configuration_store = configuration_store
    \<or> (\<exists>earlier later. us = earlier @ (rc_version (apply_updates json us configuration_store),
            rc_raw (apply_updates json us configuration_store)) # later
        \<and> json (rc_raw (apply_updates json us configuration_store)) = Some (rc_ingress (apply_updates json us configuration_store))
        \<and> (\<forall>v c. (v, c) \<in> set earlier \<and> json c \<noteq> None \<longrightarrow> v < rc_version (apply_updates json us configuration_store)))"
proof (induction us rule: rev_induct)
  case Nil
  show ?case by (simp add: apply_updates_def)
next
  case (snoc u us)
  obtain v c where u: "u = (v, c)" by (cases u)
  let ?s = "apply_updates json us configuration_store"
  show ?case
  proof (cases "json c \<noteq> None \<and> v > rc_version ?s")
    case True
    then obtain ingress where "json c = Some ingress" by blast
    with True have "apply_updates json (us @ [u]) configuration_store = ?s\<lparr>rc_version := v, rc_raw := c, rc_ingress := ingress\<rparr>"
      by (simp add: apply_updates_snoc u update_configuration_def Let_def)
    then show ?thesis using True \<open>json c = Some ingress\<close> newest_version_ge [of _ _ us json]
      by (intro disjI2 exI [of _ us] exI [of _ "[]"]) (fastforce simp: u)
  next
    case False
    then have same: "apply_updates json (us @ [u]) configuration_store = ?s"
      by (auto simp: apply_updates_snoc u update_configuration_def Let_def split: option.split)
    show ?thesis
    proof (cases "?s = configuration_store")
      case False
      with snoc.IH obtain earlier later where "us = earlier @ (rc_version ?s, rc_raw ?s) # later"
        "json (rc_raw ?s) = Some (rc_ingress ?s)" "\<forall>v c. (v, c) \<in> set earlier \<and> json c \<noteq> None \<longrightarrow> v < rc_version ?s"
        by blast
      moreover from this have "us @ [u] = earlier @ (rc_version ?s, rc_raw ?s) # later @ [u]" by simp
      ultimately show ?thesis unfolding same by (intro conjI disjI2 exI [of _ earlier] exI [of _ "later @ [u]"])
    qed (simp add: same)
  qed
qed

text \<open>A tunnel works with the newest configuration it was sent. After any updates, whatever their order, repetition
  or content, the store has the highest version among those that could be read, with the text and the rules of the first update of
  that version; before any such update it is empty.
\<close>

theorem configuration_newest:
  "rc_version (apply_updates json us configuration_store)
      = Max (insert (-1) {v. \<exists>c. (v, c) \<in> set us \<and> json c \<noteq> None})
    \<and> (apply_updates json us configuration_store = configuration_store
      \<or> (\<exists>earlier later. us = earlier @ (rc_version (apply_updates json us configuration_store),
              rc_raw (apply_updates json us configuration_store)) # later
          \<and> json (rc_raw (apply_updates json us configuration_store)) = Some (rc_ingress (apply_updates json us configuration_store))
          \<and> (\<forall>v c. (v, c) \<in> set earlier \<and> json c \<noteq> None \<longrightarrow> v < rc_version (apply_updates json us configuration_store))))"
  by (intro conjI newest_version stored_update)

text \<open>Two updates that arrive in the wrong order, and a third that cannot be read.\<close>

theorem configuration_newest_witness:
  "rc_version (apply_updates (\<lambda>c. if c = [] then None else Some []) [(2, [1]), (1, [2]), (3, [])] configuration_store) = 2"
proof -
  let ?json = "\<lambda>c :: bytes. if c = [] then None else Some ([] :: ingress_rule list)"
  let ?us = "[(2, [1]), (1, [2]), (3, [])] :: (int \<times> bytes) list"
  have readable: "{v. \<exists>c. (v, c) \<in> set us \<and> ?json c \<noteq> None} = fst ` set (filter (\<lambda>u. snd u \<noteq> []) us)" for us :: "(int \<times> bytes) list"
    by (force split: if_splits)
  have "rc_version (apply_updates ?json ?us configuration_store) = Max (insert (-1) (fst ` set (filter (\<lambda>u. snd u \<noteq> []) ?us)))"
    using configuration_newest [THEN conjunct1, of ?json ?us] unfolding readable .
  also have "\<dots> = 2" by simp
  finally show ?thesis .
qed

section \<open>The first rule that covers a request\<close>

text \<open>The declarative reading of the patterns of a rule.\<close>

definition host_covered :: "string \<Rightarrow> string \<Rightarrow> bool" where
  "host_covered pattern h \<longleftrightarrow>
     (let p = to_ascii_lowercase pattern in
      p = [] \<or> p = ''*'' \<or> p = h \<or> (\<exists>base sub. p = ''*.'' @ base \<and> h = sub @ ''.'' @ base))"

definition path_covered :: "string \<Rightarrow> string \<Rightarrow> bool" where
  "path_covered pattern path \<longleftrightarrow> (\<exists>n m p rest. pattern = replicate n (CHR ''^'') @ p @ replicate m (CHR ''$'')
     \<and> (p = [] \<or> hd p \<noteq> CHR ''^'' \<and> last p \<noteq> CHR ''$'') \<and> path = p @ rest)"

lemma wildcard_matches: "prefix ''*.'' p \<and> suffix (drop 1 p) h \<longleftrightarrow> (\<exists>base sub. p = ''*.'' @ base \<and> h = sub @ ''.'' @ base)"
  by (auto simp: prefix_def suffix_def)

lemma takeWhile_replicate_length: "takeWhile (\<lambda>x. x = c) xs = replicate (length (takeWhile (\<lambda>x. x = c) xs)) c"
  by (induction xs) auto

lemma trim_start_split: "\<exists>n. s = replicate n c @ trim_start_matches c s \<and> (trim_start_matches c s = [] \<or> hd (trim_start_matches c s) \<noteq> c)"
proof -
  have "s = replicate (length (takeWhile (\<lambda>x. x = c) s)) c @ trim_start_matches c s"
    unfolding trim_start_matches_def takeWhile_replicate_length [symmetric] by simp
  moreover have "trim_start_matches c s = [] \<or> hd (trim_start_matches c s) \<noteq> c"
    unfolding trim_start_matches_def using hd_dropWhile [of "\<lambda>x. x = c" s] by blast
  ultimately show ?thesis by blast
qed

lemma trim_start_matches_unique:
  "p = [] \<or> hd p \<noteq> c \<Longrightarrow> trim_start_matches c (replicate n c @ p) = p"
  by (induction n) (auto simp: trim_start_matches_def dropWhile_eq_self_iff)

lemma trim_end_rev: "trim_end_matches c s = rev (trim_start_matches c (rev s))"
  by (simp add: trim_end_matches_def trim_start_matches_def)

lemma trim_end_matches_unique: "p = [] \<or> last p \<noteq> c \<Longrightarrow> trim_end_matches c (p @ replicate n c) = p"
  using trim_start_matches_unique [of "rev p" c n] by (simp add: trim_end_rev hd_rev)

lemma trim_end_split: "\<exists>n. s = trim_end_matches c s @ replicate n c \<and> (trim_end_matches c s = [] \<or> last (trim_end_matches c s) \<noteq> c)"
proof -
  obtain n where n: "rev s = replicate n c @ trim_start_matches c (rev s)"
    "trim_start_matches c (rev s) = [] \<or> hd (trim_start_matches c (rev s)) \<noteq> c" using trim_start_split by blast
  from arg_cong [OF n(1), of rev] n(2) show ?thesis
    by (intro exI [of _ n]) (auto simp: trim_end_rev last_rev)
qed

lemma path_covered_iff:
  "path_covered pattern path \<longleftrightarrow> (let p = trim_end_matches (CHR ''$'') (trim_start_matches (CHR ''^'') pattern) in p = [] \<or> prefix p path)"
proof -
  let ?q = "trim_start_matches (CHR ''^'') pattern"
  let ?p = "trim_end_matches (CHR ''$'') ?q"
  obtain n where n: "pattern = replicate n (CHR ''^'') @ ?q" "?q = [] \<or> hd ?q \<noteq> CHR ''^''" using trim_start_split by blast
  obtain m where m: "?q = ?p @ replicate m (CHR ''$'')" "?p = [] \<or> last ?p \<noteq> CHR ''$''" using trim_end_split by blast
  have h: "?p = [] \<or> hd ?p \<noteq> CHR ''^''" using n(2) m(1) by (metis append_is_Nil_conv hd_append2)
  show ?thesis
  proof
    assume "path_covered pattern path"
    then obtain k l p rest where p: "pattern = replicate k (CHR ''^'') @ p @ replicate l (CHR ''$'')"
      "p = [] \<or> hd p \<noteq> CHR ''^'' \<and> last p \<noteq> CHR ''$''" "path = p @ rest" by (auto simp: path_covered_def)
    have "p @ replicate l (CHR ''$'') = [] \<or> hd (p @ replicate l (CHR ''$'')) \<noteq> CHR ''^''"
      using p(2) by (cases p; cases l) auto
    from trim_start_matches_unique [OF this, of k] p(1) have "?q = p @ replicate l (CHR ''$'')" by simp
    then have "?p = p" using trim_end_matches_unique [of p "CHR ''$''" l] p(2) by auto
    with p(3) show "let p = ?p in p = [] \<or> prefix p path" by (simp add: Let_def)
  next
    assume "let p = ?p in p = [] \<or> prefix p path"
    then obtain rest where "path = ?p @ rest" by (auto simp: Let_def prefix_def)
    moreover have "pattern = replicate n (CHR ''^'') @ ?p @ replicate m (CHR ''$'')" using n(1) m(1) by simp
    ultimately show "path_covered pattern path" using h m(2) unfolding path_covered_def by blast
  qed
qed

lemma rule_matches_covered: "rule_matches h path rule \<longleftrightarrow> host_covered (ir_hostname rule) h \<and> path_covered (ir_path rule) path"
  by (simp only: rule_matches_def host_covered_def path_covered_iff Let_def wildcard_matches)

lemma find_first: "find P xs = Some x \<longleftrightarrow> (\<exists>before after. xs = before @ x # after \<and> P x \<and> (\<forall>y \<in> set before. \<not> P y))"
proof
  assume "find P xs = Some x"
  then obtain i where i: "i < length xs" "x = xs ! i" "P x" "\<forall>j < i. \<not> P (xs ! j)" by (auto simp: find_Some_iff)
  then have "xs = take i xs @ x # drop (Suc i) xs" by (simp add: id_take_nth_drop)
  moreover have "\<forall>y \<in> set (take i xs). \<not> P y" using i(1,4) by (auto simp: in_set_conv_nth)
  ultimately show "\<exists>before after. xs = before @ x # after \<and> P x \<and> (\<forall>y \<in> set before. \<not> P y)" using i(3) by blast
next
  assume "\<exists>before after. xs = before @ x # after \<and> P x \<and> (\<forall>y \<in> set before. \<not> P y)"
  then obtain before after where "xs = before @ x # after" "P x" "\<forall>y \<in> set before. \<not> P y" by blast
  then show "find P xs = Some x" by (induction before arbitrary: xs) auto
qed

text \<open>
  What the code relies on of \<open>http::Uri\<close>: the authority of an absolute URI ends where its path begins, and the path of a
  URI with an authority is empty or begins with a slash.
\<close>

definition uri_parser_ok :: "(string \<Rightarrow> uri option) \<Rightarrow> bool" where
  "uri_parser_ok parse_uri \<longleftrightarrow>
     (\<forall>text u s a path v. parse_uri text = Some u \<and> uri_scheme u = Some s \<and> uri_authority u = Some a \<and> prefix ''/'' path
        \<and> parse_uri (s @ ''://'' @ au_text a @ path) = Some v \<longrightarrow> uri_scheme v = Some s \<and> uri_authority v = Some a)
     \<and> (\<forall>text u. parse_uri text = Some u \<and> uri_authority u \<noteq> None \<longrightarrow> (uri_path u = [] \<or> prefix ''/'' (uri_path u))
        \<and> (\<forall>p. uri_path_and_query u = Some p \<longrightarrow> prefix ''/'' p))"

lemma uri_parser_okD:
  assumes "uri_parser_ok parse_uri" and "parse_uri text = Some u"
  shows "uri_authority u \<noteq> None \<Longrightarrow> uri_path u = [] \<or> prefix ''/'' (uri_path u)"
    and "uri_authority u \<noteq> None \<Longrightarrow> uri_path_and_query u = Some p \<Longrightarrow> prefix ''/'' p"
    and "uri_scheme u = Some s \<Longrightarrow> uri_authority u = Some a \<Longrightarrow> prefix ''/'' path \<Longrightarrow>
      parse_uri (s @ ''://'' @ au_text a @ path) = Some v \<Longrightarrow> uri_scheme v = Some s \<and> uri_authority v = Some a"
  using assms unfolding uri_parser_ok_def by blast+

lemma prefix_slash_trim: "prefix ''/'' s \<or> s = [] \<Longrightarrow> trim_end_matches (CHR ''/'') s = [] \<or> prefix ''/'' (trim_end_matches (CHR ''/'') s)"
proof -
  assume s: "prefix ''/'' s \<or> s = []"
  obtain n where n: "s = trim_end_matches (CHR ''/'') s @ replicate n (CHR ''/'')" using trim_end_split by blast
  show ?thesis
  proof (cases "trim_end_matches (CHR ''/'') s")
    case (Cons c cs)
    with n s have "c = CHR ''/''" by (metis Cons_prefix_Cons append_Cons list.distinct(1))
    with Cons show ?thesis by simp
  qed simp
qed

text \<open>C29: A tunnel connects only where its rules send it. When a request for HTTP or a WebSocket goes through the remote
  configuration and on to an origin, the origin is the service of the first rule whose hostname and path
  patterns cover the request: its host, and its port or the default of its scheme; nothing else of the request changes.
\<close>

theorem ingress_connects_to_service:
  assumes uri: "uri_parser_ok parse_uri" and request: "parse_uri (cr_destination request) = Some u" "uri_authority u \<noteq> None"
    and kind: "cr_type request \<in> {HttpConnection, WebsocketConnection}" and rules: "rc_ingress state \<noteq> []"
    and resolved: "resolve_remote_request parse_uri state request = Inr (request', None)"
    and dialled: "destination_for_request parse_uri (cr_destination request') (cr_type request') = Inr (network, address)"
  shows "\<exists>before rule after service s a. rc_ingress state = before @ rule # after
    \<and> host_covered (ir_hostname rule) (request_host request u) \<and> path_covered (ir_path rule) (uri_path u)
    \<and> (\<forall>r \<in> set before. \<not> (host_covered (ir_hostname r) (request_host request u) \<and> path_covered (ir_path r) (uri_path u)))
    \<and> parse_uri (ir_service rule) = Some service \<and> uri_scheme service = Some s \<and> uri_authority service = Some a
    \<and> network = Tcp \<and> host address = au_host a
    \<and> port address = (case au_port a of Some p \<Rightarrow> p | None \<Rightarrow> if s \<in> {''https'', ''wss''} then 443 else 80)
    \<and> request' = request\<lparr>cr_destination := cr_destination request'\<rparr>"
proof -
  let ?P = "rule_matches (request_host request u) (uri_path u)"
  from resolved request(1) rules obtain rule service s a where rule: "find ?P (rc_ingress state) = Some rule"
    and service: "parse_uri (ir_service rule) = Some service" "uri_scheme service = Some s" "uri_authority service = Some a"
    and request': "request' = request\<lparr>cr_destination := service_destination service a u\<rparr>"
    by (auto simp: resolve_remote_request_def split: option.splits)
  from rule obtain before after where first: "rc_ingress state = before @ rule # after" "?P rule" "\<forall>r \<in> set before. \<not> ?P r"
    by (auto simp: find_first)
  obtain path where path: "service_destination service a u = s @ ''://'' @ au_text a @ path" "prefix ''/'' path"
  proof -
    let ?sp = "trim_end_matches (CHR ''/'') (uri_path service)"
    let ?rp = "case uri_path_and_query u of Some p \<Rightarrow> p | None \<Rightarrow> ''/''"
    have "?sp = [] \<or> prefix ''/'' ?sp"
      using uri_parser_okD(1) [OF uri service(1)] service(3) by (intro prefix_slash_trim) auto
    moreover have "prefix ''/'' ?rp"
      using uri_parser_okD(2) [OF uri request(1,2)] by (cases "uri_path_and_query u") simp_all
    ultimately show thesis
      by (intro that [of "if ?sp = [] \<or> ?sp = ''/'' then ?rp else if ?rp = ''/'' then ?sp else ?sp @ ?rp"])
        (auto simp only: service_destination_def service Let_def option.case prefix_prefix split: if_splits)
  qed
  from dialled kind request' obtain v b where v: "parse_uri (service_destination service a u) = Some v" "uri_authority v = Some b"
    and address: "network = Tcp" "host address = au_host b"
      "port address = (case au_port b of Some p \<Rightarrow> p | None \<Rightarrow> if uri_scheme v \<in> {Some ''https'', Some ''wss''} then 443 else 80)"
    by (auto simp: destination_for_request_def destination_address_def)
  have "uri_scheme v = Some s \<and> uri_authority v = Some a"
    using uri_parser_okD(3) [OF uri service path(2)] v(1) path(1) by simp
  with v(2) address first service request' show ?thesis
    unfolding rule_matches_covered by (intro exI [of _ before] exI [of _ rule] exI [of _ after] exI [of _ service] exI [of _ s] exI [of _ a]) simp
qed

text \<open>A request for \<open>http://x/v\<close>, and a rule that sends it to \<open>http://a:81/b\<close>.\<close>

theorem ingress_connects_to_service_witness:
  "\<exists>parse_uri state request request'.
     resolve_remote_request parse_uri state request = Inr (request', None)
     \<and> destination_for_request parse_uri (cr_destination request') (cr_type request') = Inr (Tcp, \<lparr>host = ''a'', port = 81\<rparr>)
     \<and> (\<exists>before rule after service s a. rc_ingress state = before @ rule # after \<and> host_covered (ir_hostname rule) ''x''
        \<and> path_covered (ir_path rule) ''/v''
        \<and> (\<forall>r \<in> set before. \<not> (host_covered (ir_hostname r) ''x'' \<and> path_covered (ir_path r) ''/v''))
        \<and> parse_uri (ir_service rule) = Some service \<and> uri_scheme service = Some s \<and> uri_authority service = Some a
        \<and> Tcp = Tcp \<and> host \<lparr>host = ''a'', port = 81\<rparr> = au_host a
        \<and> port \<lparr>host = ''a'', port = 81\<rparr> = (case au_port a of Some p \<Rightarrow> p | None \<Rightarrow> if s \<in> {''https'', ''wss''} then 443 else 80)
        \<and> request' = request\<lparr>cr_destination := cr_destination request'\<rparr>)"
proof -
  let ?x = "\<lparr>uri_scheme = Some ''http'', uri_authority = Some \<lparr>au_text = ''x'', au_host = ''x'', au_port = None\<rparr>,
      uri_path = ''/v'', uri_path_and_query = Some ''/v''\<rparr>"
  let ?b = "\<lparr>uri_scheme = Some ''http'', uri_authority = Some \<lparr>au_text = ''a:81'', au_host = ''a'', au_port = Some 81\<rparr>,
      uri_path = ''/b'', uri_path_and_query = Some ''/b''\<rparr>"
  let ?parse = "[''http://x/v'' \<mapsto> ?x, ''http://a:81/b'' \<mapsto> ?b,
      ''http://a:81/b/v'' \<mapsto> ?b\<lparr>uri_path := ''/b/v'', uri_path_and_query := Some ''/b/v''\<rparr>]"
  let ?state = "\<lparr>rc_version = 1, rc_raw = [], rc_ingress = [\<lparr>ir_hostname = ''y'', ir_path = [], ir_service = ''http_status:404''\<rparr>,
      \<lparr>ir_hostname = ''X'', ir_path = ''^/v'', ir_service = ''http://a:81/b''\<rparr>]\<rparr>"
  let ?request = "\<lparr>cr_destination = ''http://x/v'', cr_type = HttpConnection, cr_metadata = []\<rparr>"
  let ?request' = "?request\<lparr>cr_destination := ''http://a:81/b/v''\<rparr>"
  have uri: "uri_parser_ok ?parse" unfolding uri_parser_ok_def by (auto split: if_splits)
  have lower: "to_ascii_lowercase ''X'' = ''x''" "to_ascii_lowercase ''x'' = ''x''" "to_ascii_lowercase ''y'' = ''y''" by code_simp+
  have h: "request_host ?request ?x = ''x''"
    by (simp add: request_host_def metadata_value_def normalize_host_def strip_prefix_def rsplit_once_def split_once_def lower)
  have resolved: "resolve_remote_request ?parse ?state ?request = Inr (?request', None)"
    by (simp add: resolve_remote_request_def h rule_matches_def lower trim_start_matches_def trim_end_matches_def
        strip_prefix_def service_destination_def)
  have dialled: "destination_for_request ?parse (cr_destination ?request') (cr_type ?request') = Inr (Tcp, \<lparr>host = ''a'', port = 81\<rparr>)"
    by (simp add: destination_for_request_def destination_address_def)
  have request: "?parse (cr_destination ?request) = Some ?x" "uri_authority ?x \<noteq> None"
    "cr_type ?request \<in> {HttpConnection, WebsocketConnection}" "rc_ingress ?state \<noteq> []" by simp_all
  from ingress_connects_to_service [OF uri request resolved dialled, unfolded h] show ?thesis
    by (intro exI [of _ ?parse] exI [of _ ?state] exI [of _ ?request] exI [of _ ?request'] conjI resolved dialled) simp
qed

text \<open>An address that was written is read back, as the destination of a TCP stream.\<close>

lemma split_host_port_show:
  assumes "CHR '']'' \<notin> set (host a)" and "host a \<noteq> []" and "hd (host a) \<noteq> CHR ''[''"
  shows "destination_for_request parse_uri (show_address a) TcpConnection = Inr (Tcp, a)"
proof -
  have "unat (port a) < 2 ^ LENGTH(16)" by (rule unsigned_less)
  then have p: "parse_u16 (show_nat (unat (port a))) = Some (port a)" by (simp add: parse_u16_def)
  have colon: "CHR '':'' \<notin> set (show_nat (unat (port a)))" by (rule show_nat_no_char) simp
  show ?thesis
  proof (cases "CHR '':'' \<in> set (host a)")
    case True
    have "split_once (CHR '']'') (host a @ CHR '']'' # '':'' @ show_nat (unat (port a))) = Some (host a, '':'' @ show_nat (unat (port a)))"
      by (rule split_once_append [OF assms(1)])
    with True p assms(2) show ?thesis
      by (simp add: destination_for_request_def split_host_port_def show_address_def strip_prefix_def destination_address_def)
  next
    case False
    have "strip_prefix (host a @ '':'' @ show_nat (unat (port a))) ''['' = None"
      using assms(2,3) by (cases "host a") (simp_all add: strip_prefix_def)
    moreover have "rsplit_once (CHR '':'') (host a @ CHR '':'' # show_nat (unat (port a))) = Some (host a, show_nat (unat (port a)))"
      using colon by (simp add: rsplit_once_def)
    ultimately show ?thesis using False p assms(2)
      by (simp add: destination_for_request_def split_host_port_def show_address_def destination_address_def)
  qed
qed

end
