(* ===== verification/Cf_Origin.thy ===== *)
theory Cf_Origin
  imports Cf_Ingress Http_Message
begin

text \<open>
  The request that a tunnel writes to its origin (\<open>inbound.rs\<close> of the Cloudflared crate): its head, its body and the
  connection it is written to. The connection to the origin, with TLS when the scheme asks for it, is the parameter
  \<open>connect\<close>. The property: what is written is exactly one request, with no header of the edge that could change its framing.
\<close>

datatype origin_error =
    OriginUri | OriginDestination ingress_error | NoHost | OriginConnect | BadLength | BodyTooLarge | OriginEof
  | InvalidToken | InvalidValue
  | ClosedBeforeHead | HeadTooLarge | HeadUtf8 | NoStatusCode | BadStatusCode | BadHeader
  | ResponseStatus | ResponseHeader | BrokenPipe | H2Library
  | ClosedBeforeChunk | LineUtf8 | NoChunkCrlf | BadChunk | ClosedBeforeTrailers | ClosedInChunk | NoChunkEnd

section \<open>The request\<close>

definition MAX_HTTP_REQUEST_BODY :: nat where "MAX_HTTP_REQUEST_BODY = 16 * 1024 * 1024"

definition header_key :: string where "header_key = ''HttpHeader:''"

definition ensure_http_token :: "string \<Rightarrow> origin_error + unit" where
  "ensure_http_token value =
     ensure (value \<noteq> [] \<and> \<not> list_ex (\<lambda>c. (of_char c :: nat) \<le> 0x20 \<or> 0x7F \<le> (of_char c :: nat) \<or> c = CHR '':'') value)
       InvalidToken"

definition ensure_http_value :: "string \<Rightarrow> origin_error + unit" where
  "ensure_http_value value = ensure (CHR 0x0D \<notin> set value \<and> CHR 0x0A \<notin> set value) InvalidValue"

text \<open>\<open>str::trim_start_matches\<close> of a whole string, as often as it occurs.\<close>

function trim_start_str :: "string \<Rightarrow> string \<Rightarrow> string" where
  "trim_start_str p s = (if p \<noteq> [] \<and> prefix p s then trim_start_str p (drop (length p) s) else s)"
  by pat_completeness auto
termination
  by (relation "measure (\<lambda>(p, s). length s)") (auto simp: prefix_def)

declare trim_start_str.simps [simp del]

definition skipped_header :: "bool \<Rightarrow> string \<Rightarrow> bool" where
  "skipped_header websocket name \<longleftrightarrow>
     eq_ignore_ascii_case name ''host'' \<or> eq_ignore_ascii_case name ''content-length''
     \<or> eq_ignore_ascii_case name ''connection'' \<or> eq_ignore_ascii_case name ''transfer-encoding''
     \<or> eq_ignore_ascii_case name ''cf-cloudflared-proxy-connection-upgrade''
     \<or> (websocket \<and> (eq_ignore_ascii_case name ''upgrade'' \<or> eq_ignore_ascii_case name ''sec-websocket-version''))
     \<or> (eq_ignore_ascii_case name ''upgrade'' \<and> \<not> websocket)"

definition check_header :: "string \<times> string \<Rightarrow> origin_error + (string \<times> string)" where
  "check_header h =
     and_then (ensure_http_token (fst h)) (\<lambda>_. and_then (ensure_http_value (snd h)) (\<lambda>_. Inr h))"

text \<open>The loop of \<open>build_origin_request\<close> over the metadata of the request.\<close>

definition forwarded_headers :: "bool \<Rightarrow> header_list \<Rightarrow> origin_error + header_list" where
  "forwarded_headers websocket metadata =
     try_map check_header
       (filter (\<lambda>h. \<not> skipped_header websocket (fst h))
         (map (\<lambda>(key, value). (trim_start_str header_key key, value)) (filter (\<lambda>(key, _). prefix header_key key) metadata)))"

definition to_ascii_uppercase :: "string \<Rightarrow> string" where
  "to_ascii_uppercase s =
     map (\<lambda>c. if (97 :: nat) \<le> of_char c \<and> (of_char c :: nat) \<le> 122 then char_of (of_char c - 32 :: nat) else c) s"

definition request_method :: "connect_request \<Rightarrow> string" where
  "request_method request = (case metadata_value request ''HttpMethod'' of Some m \<Rightarrow> m | None \<Rightarrow> ''GET'')"

definition origin_path :: "uri \<Rightarrow> string" where
  "origin_path uri = (case uri_path_and_query uri of Some p \<Rightarrow> if p = [] then ''/'' else p | None \<Rightarrow> ''/'')"

definition build_origin_request :: "connect_request \<Rightarrow> uri \<Rightarrow> string \<Rightarrow> nat \<Rightarrow> bool \<Rightarrow> origin_error + bytes" where
  "build_origin_request request uri h body_length websocket =
     (let meth = request_method request; path = origin_path uri in
      and_then (ensure_http_token meth) (\<lambda>_.
      and_then (ensure_http_value h) (\<lambda>_.
      and_then (ensure_http_value path) (\<lambda>_.
      and_then (forwarded_headers websocket (cr_metadata request)) (\<lambda>headers.
      Inr (as_bytes (meth @ '' '' @ path @ '' HTTP/1.1'' @ crlf @ ''Host: '' @ h @ crlf
        @ concat (map (\<lambda>(name, value). name @ '': '' @ value @ crlf) headers)
        @ ''Content-Length: '' @ show_nat body_length @ crlf
        @ (if websocket then ''Upgrade: websocket'' @ crlf @ ''Sec-WebSocket-Version: 13'' @ crlf @ ''Connection: Upgrade'' @ crlf
           else ''Connection: close'' @ crlf)
        @ crlf)))))))"

text \<open>\<open>read_http_request_body\<close>, on the bytes that the stream yields until its end.\<close>

definition read_http_request_body :: "connect_request \<Rightarrow> bytes \<Rightarrow> origin_error + (bytes \<times> bytes)" where
  "read_http_request_body request stream =
     (case find (\<lambda>(key, _). eq_ignore_ascii_case key ''HttpHeader:content-length''
              \<or> eq_ignore_ascii_case key ''HttpHeader:content_length'') (cr_metadata request) of
        Some (_, value) \<Rightarrow>
          and_then (ok_or BadLength (parse_uint 10 USIZE_MAX value)) (\<lambda>len.
          if len = 0 then Inr ([], stream)
          else and_then (ensure (len \<le> MAX_HTTP_REQUEST_BODY) BodyTooLarge) (\<lambda>_. read_exact OriginEof len stream))
      | None \<Rightarrow>
          if to_ascii_uppercase (request_method request) \<in> {''GET'', ''HEAD'', ''OPTIONS''} then Inr ([], stream)
          else and_then (ensure (length stream \<le> MAX_HTTP_REQUEST_BODY) BodyTooLarge) (\<lambda>_. Inr (stream, [])))"

text \<open>
  \<open>prepare_origin_request\<close> up to the answer: the session that is routed, the bytes that are written to the origin and
  the bytes of the stream that are left. \<open>connect\<close> is \<open>Router::connect\<close>, with the TLS handshake for the host given.
\<close>

definition prepare_origin ::
    "(string \<Rightarrow> uri option) \<Rightarrow> (session \<Rightarrow> string option \<Rightarrow> bool) \<Rightarrow> string \<Rightarrow> connect_request \<Rightarrow> bytes \<Rightarrow>
      origin_error + (session \<times> bytes \<times> bytes)" where
  "prepare_origin parse_uri connect tag request stream =
     and_then (map_err OriginDestination (destination_for_request parse_uri (cr_destination request) (cr_type request)))
       (\<lambda>(network, destination).
     and_then (ok_or OriginUri (parse_uri (cr_destination request))) (\<lambda>uri.
     let websocket = (cr_type request = WebsocketConnection);
         scheme = (case uri_scheme uri of Some s \<Rightarrow> s | None \<Rightarrow> ''http'') in
     and_then (ok_or NoHost (case metadata_value request ''HttpHost'' of
         Some h \<Rightarrow> Some h | None \<Rightarrow> map_option au_host (uri_authority uri))) (\<lambda>h.
     let tls_host = (case uri_authority uri of Some a \<Rightarrow> au_host a | None \<Rightarrow> h);
         session = session_inbound network (source_for_request request) destination tag ''cloudflared'' None in
     and_then (ensure (connect session
         (if to_ascii_lowercase scheme \<in> {''https'', ''wss''} then Some tls_host else None)) OriginConnect) (\<lambda>_.
     and_then (if websocket then Inr ([], stream) else read_http_request_body request stream) (\<lambda>(body, stream).
     and_then (build_origin_request request uri h (length body) websocket) (\<lambda>head.
     Inr (session, head @ body, stream)))))))"

section \<open>One request\<close>

text \<open>The lines of the request, for the headers that are forwarded.\<close>

definition origin_lines :: "connect_request \<Rightarrow> uri \<Rightarrow> string \<Rightarrow> header_list \<Rightarrow> nat \<Rightarrow> bool \<Rightarrow> string list" where
  "origin_lines request uri h hs n websocket =
     [request_method request @ '' '' @ origin_path uri @ '' HTTP/1.1'', ''Host: '' @ h] @ map header_line hs
     @ [''Content-Length: '' @ show_nat n]
     @ (if websocket then [''Upgrade: websocket'', ''Sec-WebSocket-Version: 13'', ''Connection: Upgrade''] else [''Connection: close''])"

definition one_line :: "string \<Rightarrow> bool" where
  "one_line s \<longleftrightarrow> CHR 0x0D \<notin> set s \<and> CHR 0x0A \<notin> set s"

text \<open>A header of the edge that may be forwarded: it cannot name the framing or the connection, nor break the line.\<close>

definition harmless_header :: "connect_request \<Rightarrow> string \<times> string \<Rightarrow> bool" where
  "harmless_header request h \<longleftrightarrow> one_line (fst h) \<and> one_line (snd h) \<and> fst h \<noteq> [] \<and> CHR '':'' \<notin> set (fst h) \<and> CHR '' '' \<notin> set (fst h)
     \<and> to_ascii_lowercase (fst h) \<notin> {''host'', ''content-length'', ''transfer-encoding'', ''connection''}
     \<and> (\<exists>key. (key, snd h) \<in> set (cr_metadata request) \<and> prefix header_key key \<and> suffix (fst h) key)"

lemma one_line_append [simp]: "one_line (s @ t) \<longleftrightarrow> one_line s \<and> one_line t"
  by (auto simp: one_line_def)

lemma one_line_Cons [simp]: "one_line (c # s) \<longleftrightarrow> c \<noteq> CHR 0x0D \<and> c \<noteq> CHR 0x0A \<and> one_line s" "one_line []"
  by (auto simp: one_line_def)

lemma ensure_http_value_iff: "ensure_http_value v = Inr u \<longleftrightarrow> one_line v"
  by (simp add: ensure_http_value_def one_line_def ensure_def)

lemma ensure_http_token_line:
  assumes "ensure_http_token v = Inr u"
  shows "one_line v \<and> v \<noteq> [] \<and> CHR '':'' \<notin> set v \<and> CHR '' '' \<notin> set v"
proof -
  from assms have v: "v \<noteq> []" and c: "\<forall>c \<in> set v. \<not> (of_char c :: nat) \<le> 0x20 \<and> c \<noteq> CHR '':''"
    by (simp_all add: ensure_http_token_def ensure_def list_ex_iff split: if_splits)
  have "(of_char (CHR '' '') :: nat) \<le> 0x20" "(of_char (CHR 0x0D) :: nat) \<le> 0x20" "(of_char (CHR 0x0A) :: nat) \<le> 0x20" by simp_all
  with v c show ?thesis unfolding one_line_def by blast
qed

lemma one_line_show_nat [simp]: "one_line (show_nat n)"
  using show_nat_no_char [of "CHR 0x0D" n] show_nat_no_char [of "CHR 0x0A" n] by (simp add: one_line_def)

lemma trim_start_str_suffix: "suffix (trim_start_str p s) s"
proof (induction p s rule: trim_start_str.induct)
  case (1 p s)
  show ?case
  proof (cases "p \<noteq> [] \<and> prefix p s")
    case True
    then have "trim_start_str p s = trim_start_str p (drop (length p) s)" by (simp add: trim_start_str.simps [of p s])
    with 1 [OF True] show ?thesis using suffix_order.trans suffix_drop by metis
  qed (auto simp: trim_start_str.simps [of p s])
qed

lemma forwarded_harmless:
  assumes "forwarded_headers websocket (cr_metadata request) = Inr hs" and "h \<in> set hs"
  shows "harmless_header request h"
proof -
  from assms obtain key where key: "(key, snd h) \<in> set (cr_metadata request)" "prefix header_key key"
      "fst h = trim_start_str header_key key" "\<not> skipped_header websocket (fst h)" "check_header h = Inr h"
    by (cases h) (auto simp: forwarded_headers_def try_map_set check_header_def)
  have "suffix (fst h) key" using key(3) trim_start_str_suffix by simp
  moreover have "one_line (fst h) \<and> fst h \<noteq> [] \<and> CHR '':'' \<notin> set (fst h) \<and> CHR '' '' \<notin> set (fst h)" "one_line (snd h)"
    using key(5) ensure_http_token_line [of "fst h"] ensure_http_value_iff [of "snd h"] by (auto simp: check_header_def)
  moreover have lower: "to_ascii_lowercase ''host'' = ''host''" "to_ascii_lowercase ''content-length'' = ''content-length''"
    "to_ascii_lowercase ''transfer-encoding'' = ''transfer-encoding''" "to_ascii_lowercase ''connection'' = ''connection''" by code_simp+
  ultimately show ?thesis
    using key(1,2,4) unfolding harmless_header_def skipped_header_def eq_ignore_ascii_case_def lower by blast
qed

lemma build_origin_request_lines:
  assumes "build_origin_request request uri h n websocket = Inr bs"
  obtains hs where "forwarded_headers websocket (cr_metadata request) = Inr hs"
    and "bs = as_bytes (concat (map (\<lambda>l. l @ crlf) (origin_lines request uri h hs n websocket @ [[]])))"
    and "\<forall>l \<in> set (origin_lines request uri h hs n websocket). one_line l \<and> l \<noteq> []"
proof -
  from assms obtain hs where hs: "forwarded_headers websocket (cr_metadata request) = Inr hs"
    and ok: "ensure_http_token (request_method request) = Inr ()" "ensure_http_value h = Inr ()" "ensure_http_value (origin_path uri) = Inr ()"
    and bs: "bs = as_bytes (concat (map (\<lambda>l. l @ crlf) (origin_lines request uri h hs n websocket @ [[]])))"
    by (auto simp: build_origin_request_def Let_def origin_lines_def header_line_def comp_def case_prod_unfold)
  have const: "one_line '' ''" "one_line '' HTTP/1.1''" "one_line ''Host: ''" "one_line '': ''" "one_line ''Content-Length: ''"
    "one_line ''Upgrade: websocket''" "one_line ''Sec-WebSocket-Version: 13''" "one_line ''Connection: Upgrade''" "one_line ''Connection: close''"
    by (simp_all add: one_line_def)
  have headers: "one_line (header_line x) \<and> header_line x \<noteq> []" if "x \<in> set hs" for x
    using forwarded_harmless [OF hs that] const(4) by (cases x) (simp add: harmless_header_def header_line_def)
  have "\<forall>l \<in> set (origin_lines request uri h hs n websocket). one_line l \<and> l \<noteq> []"
    using ensure_http_token_line [OF ok(1)] ok(2,3) headers const by (auto simp: origin_lines_def ensure_http_value_iff)
  with that hs bs show thesis by blast
qed

lemma read_http_request_body_split:
  "read_http_request_body request stream = Inr (body, rest) \<Longrightarrow> stream = body @ rest \<and> length body \<le> MAX_HTTP_REQUEST_BODY"
  by (auto simp: read_http_request_body_def read_exact_Inr_iff ensure_def split: option.splits if_splits)

text \<open>A POST of two bytes, with a header to forward and one that is not.\<close>

abbreviation example_uri :: uri where
  "example_uri \<equiv> \<lparr>uri_scheme = Some ''http'', uri_authority = Some \<lparr>au_text = ''x'', au_host = ''x'', au_port = None\<rparr>,
      uri_path = ''/v'', uri_path_and_query = Some ''/v''\<rparr>"

abbreviation example_request :: connect_request where
  "example_request \<equiv> \<lparr>cr_destination = ''http://x/v'', cr_type = HttpConnection,
      cr_metadata = [(''HttpMethod'', ''POST''), (''HttpHeader:Content-Length'', ''2''), (''HttpHeader:A'', ''b'')]\<rparr>"

lemma prepare_origin_example:
  "\<exists>session head. prepare_origin [''http://x/v'' \<mapsto> example_uri] (\<lambda>s tls. True) ''t'' example_request [1, 2, 9] = Inr (session, head @ [1, 2], [9])"
proof -
  have headers: "forwarded_headers False [(''HttpMethod'', ''POST''), (''HttpHeader:Content-Length'', ''2''), (''HttpHeader:A'', ''b'')] = Inr [(''A'', ''b'')]" by code_simp
  have token: "ensure_http_token ''POST'' = Inr ()" by code_simp
  have vals: "ensure_http_value ''x'' = Inr ()" "ensure_http_value ''/v'' = Inr ()" by (simp_all add: ensure_http_value_iff)
  have cl: "find (\<lambda>(key, _). eq_ignore_ascii_case key ''HttpHeader:content-length''
              \<or> eq_ignore_ascii_case key ''HttpHeader:content_length'') [(''HttpMethod'', ''POST''), (''HttpHeader:Content-Length'', ''2''), (''HttpHeader:A'', ''b'')]
      = Some (''HttpHeader:Content-Length'', ''2'')" by code_simp
  have two: "parse_uint 10 USIZE_MAX ''2'' = Some 2"
    by (simp add: parse_uint_def to_digit_def USIZE_MAX_def)
  have lower: "to_ascii_lowercase ''http'' = ''http''" by code_simp
  have body: "read_http_request_body example_request [1, 2, 9] = Inr ([1, 2], [9])"
    by (simp add: read_http_request_body_def cl two ensure_def MAX_HTTP_REQUEST_BODY_def read_exact_def del: find.simps)
  have meth: "request_method example_request = ''POST''" by (simp add: request_method_def metadata_value_def)
  have path: "origin_path example_uri = ''/v''" by (simp add: origin_path_def)
  have "\<exists>head. build_origin_request example_request example_uri ''x'' (length [1, 2 :: u8]) False = Inr head"
    by (simp add: build_origin_request_def Let_def meth path headers token vals)
  then obtain head where head: "build_origin_request example_request example_uri ''x'' (length [1, 2 :: u8]) False = Inr head" by blast
  have dest: "destination_for_request [''http://x/v'' \<mapsto> example_uri] ''http://x/v'' HttpConnection = Inr (Tcp, \<lparr>host = ''x'', port = 80\<rparr>)"
    by (simp add: destination_for_request_def destination_address_def)
  have h: "metadata_value example_request ''HttpHost'' = None" by (simp add: metadata_value_def)
  have "\<exists>session. prepare_origin [''http://x/v'' \<mapsto> example_uri] (\<lambda>s tls. True) ''t'' example_request [1, 2, 9] = Inr (session, head @ [1, 2], [9])"
    unfolding prepare_origin_def by (simp add: dest h body head [simplified] lower ensure_def)
  then show ?thesis by blast
qed

text \<open>C28: What a tunnel sends to its origin is exactly one request, whatever the edge asks for. The bytes written are lines without a CR or
  LF of their own, a blank line and the body; the headers are \<open>Host\<close>, headers of the metadata that are none of
  \<open>Host\<close>, \<open>Content-Length\<close>, \<open>Transfer-Encoding\<close> and \<open>Connection\<close>, one \<open>Content-Length\<close> with the length of the body that
  follows, and the connection headers of the tunnel; the body is what the stream has next, of at most 16 MiB, and nothing for a WebSocket.
\<close>

theorem origin_request_exact:
  assumes "prepare_origin parse_uri connect tag request stream = Inr (session, sent, rest)"
  shows "\<exists>uri h hs body. parse_uri (cr_destination request) = Some uri
    \<and> sent = as_bytes (concat (map (\<lambda>l. l @ crlf)
        (origin_lines request uri h hs (length body) (cr_type request = WebsocketConnection) @ [[]]))) @ body
    \<and> (\<forall>l \<in> set (origin_lines request uri h hs (length body) (cr_type request = WebsocketConnection)). one_line l \<and> l \<noteq> [])
    \<and> (\<forall>x \<in> set hs. harmless_header request x)
    \<and> stream = body @ rest \<and> length body \<le> 16 * 1024 * 1024 \<and> (cr_type request = WebsocketConnection \<longrightarrow> body = [])"
proof -
  let ?ws = "cr_type request = WebsocketConnection"
  from assms obtain uri h body head where parts: "parse_uri (cr_destination request) = Some uri"
    "(if ?ws then Inr ([], stream) else read_http_request_body request stream) = Inr (body, rest)"
    "build_origin_request request uri h (length body) ?ws = Inr head" "sent = head @ body"
    by (auto simp: prepare_origin_def Let_def)
  have body: "stream = body @ rest \<and> length body \<le> 16 * 1024 * 1024 \<and> (?ws \<longrightarrow> body = [])"
    using parts(2) read_http_request_body_split [of request stream body rest] by (auto simp: MAX_HTTP_REQUEST_BODY_def split: if_splits)
  from parts(3) obtain hs where hs: "forwarded_headers ?ws (cr_metadata request) = Inr hs"
    "head = as_bytes (concat (map (\<lambda>l. l @ crlf) (origin_lines request uri h hs (length body) ?ws @ [[]])))"
    "\<forall>l \<in> set (origin_lines request uri h hs (length body) ?ws). one_line l \<and> l \<noteq> []" by (rule build_origin_request_lines)
  from parts(1,4) hs body forwarded_harmless [OF hs(1)] show ?thesis
    by (intro exI [of _ uri] exI [of _ h] exI [of _ hs] exI [of _ body]) blast
qed

theorem origin_request_exact_witness:
  "\<exists>parse_uri request session sent rest. prepare_origin parse_uri (\<lambda>s tls. True) ''t'' request [1, 2, 9] = Inr (session, sent, rest)
    \<and> (\<exists>uri h hs body. parse_uri (cr_destination request) = Some uri
    \<and> sent = as_bytes (concat (map (\<lambda>l. l @ crlf)
        (origin_lines request uri h hs (length body) (cr_type request = WebsocketConnection) @ [[]]))) @ body
    \<and> (\<forall>l \<in> set (origin_lines request uri h hs (length body) (cr_type request = WebsocketConnection)). one_line l \<and> l \<noteq> [])
    \<and> (\<forall>x \<in> set hs. harmless_header request x)
    \<and> [1, 2, 9] = body @ rest \<and> length body \<le> 16 * 1024 * 1024 \<and> (cr_type request = WebsocketConnection \<longrightarrow> body = []))"
proof -
  obtain session head where prepared: "prepare_origin [''http://x/v'' \<mapsto> example_uri] (\<lambda>s tls. True) ''t'' example_request [1, 2, 9]
      = Inr (session, head @ [1, 2], [9])" using prepare_origin_example by blast
  from origin_request_exact [OF prepared] show ?thesis
    by (intro exI [of _ "[''http://x/v'' \<mapsto> example_uri]"] exI [of _ example_request] exI [of _ session] exI [of _ "head @ [1, 2]"]
        exI [of _ "[9]"] conjI prepared)
qed

end
