(* ===== verification/Cf_Response.thy ===== *)
theory Cf_Response
  imports Cf_Origin
begin

text \<open>
  The response of an origin (\<open>inbound.rs\<close> of the Cloudflared crate): the reading of its head, the copying of its body
  in each framing, and the headers that go back to the edge. Reads are the pieces they return, at most 4096 bytes each while the
  head is read. The body goes over HTTP/2 through \<open>H2Writer\<close> of \<open>transport.rs\<close>, which waits for capacity. The property: what the
  origin answers is relayed exactly over QUIC, and over HTTP/2 as far as the library takes it, however its bytes are cut.
\<close>

definition MAX_HTTP_RESPONSE_HEADERS :: nat where "MAX_HTTP_RESPONSE_HEADERS = 64 * 1024"

section \<open>The response\<close>

text \<open>The loop of \<open>read_http_response_head\<close> over the pieces that reads of at most 4096 bytes return.\<close>

fun read_head_from :: "bytes \<Rightarrow> bytes list \<Rightarrow> origin_error + (nat \<times> bytes \<times> bytes list)" where
  "read_head_from d [] = Inl ClosedBeforeHead"
| "read_head_from d (piece # pieces) =
     (if piece = [] then Inl ClosedBeforeHead
      else if length (d @ piece) > MAX_HTTP_RESPONSE_HEADERS then Inl HeadTooLarge
      else case find_sub (CRLF @ CRLF) (d @ piece) of
        Some end_at \<Rightarrow> Inr (end_at, d @ piece, pieces)
      | None \<Rightarrow> read_head_from (d @ piece) pieces)"

definition origin_header :: "string \<Rightarrow> origin_error + (string \<times> string)" where
  "origin_header line = and_then (ok_or BadHeader (split_once (CHR '':'') line)) (\<lambda>(name, value). Inr (trim name, trim value))"

definition read_http_response_head :: "bytes list \<Rightarrow> origin_error + (u16 \<times> header_list \<times> bytes \<times> bytes list)" where
  "read_http_response_head pieces =
     and_then (read_head_from [] pieces) (\<lambda>(end_at, d, pieces).
     and_then (from_utf8 HeadUtf8 (take end_at d)) (\<lambda>head.
     let lines = split_crlf head in
     and_then (ok_or NoStatusCode (case split_whitespace (hd lines) of _ # code # _ \<Rightarrow> Some code | _ \<Rightarrow> None)) (\<lambda>code.
     and_then (ok_or BadStatusCode (parse_u16 code)) (\<lambda>status.
     and_then (try_map origin_header (filter (\<lambda>line. line \<noteq> []) (tl lines))) (\<lambda>headers.
     Inr (status, headers, drop (end_at + 4) d, pieces))))))"

text \<open>
  \<open>AsyncBufReadExt::read_line\<close>: the bytes up to and with the next line feed, or up to the end.
\<close>

definition read_line :: "bytes \<Rightarrow> origin_error + (string \<times> bytes)" where
  "read_line bs =
     (let n = (case find_idx (\<lambda>b. b = 10) bs of Some i \<Rightarrow> i + 1 | None \<Rightarrow> length bs)
      in and_then (from_utf8 LineUtf8 (take n bs)) (\<lambda>line. Inr (line, drop n bs)))"

definition strip_suffix :: "string \<Rightarrow> string \<Rightarrow> string option" where
  "strip_suffix s p = (if suffix p s then Some (take (length s - length p) s) else None)"

lemma read_line_shrinks: "read_line bs = Inr (line, rest) \<Longrightarrow> line \<noteq> [] \<Longrightarrow> length rest < length bs"
  by (cases bs) (auto simp: read_line_def Let_def from_utf8_def bytes_chars_def split: option.splits if_splits)

function skip_trailers :: "bytes \<Rightarrow> origin_error + unit" where
  "skip_trailers bs =
     and_then (read_line bs) (\<lambda>(line, rest).
     if line = [] then Inl ClosedBeforeTrailers else if line = crlf then Inr () else skip_trailers rest)"
  by pat_completeness auto
termination
  by (relation "measure length") (auto dest: read_line_shrinks)

declare skip_trailers.simps [simp del]

definition chunk_size :: "string \<Rightarrow> origin_error + nat" where
  "chunk_size line =
     and_then (ok_or NoChunkCrlf (strip_suffix line crlf)) (\<lambda>line.
     ok_or BadChunk (parse_uint 16 USIZE_MAX (trim (hd (split_on (CHR '';'') line)))))"

text \<open>
  \<open>copy_chunked_response_body\<close> on all bytes of the origin: what was copied to the response, and how it ended.
\<close>

function copy_chunked :: "bytes \<Rightarrow> (origin_error + unit) \<times> bytes" where
  "copy_chunked bs =
     (case read_line bs of
        Inl e \<Rightarrow> (Inl e, [])
      | Inr (line, rest) \<Rightarrow>
          if line = [] then (Inl ClosedBeforeChunk, [])
          else case chunk_size line of
            Inl e \<Rightarrow> (Inl e, [])
          | Inr n \<Rightarrow>
              if n = 0 then (skip_trailers rest, [])
              else if length rest < n then (Inl ClosedInChunk, rest)
              else case read_exact OriginEof 2 (drop n rest) of
                Inl e \<Rightarrow> (Inl e, take n rest)
              | Inr (terminator, rest') \<Rightarrow>
                  if terminator \<noteq> CRLF then (Inl NoChunkEnd, take n rest)
                  else apsnd (\<lambda>more_bytes. take n rest @ more_bytes) (copy_chunked rest'))"
  by pat_completeness auto
termination
proof (relation "measure length", simp, simp only: in_measure)
  fix bs rest rest' terminator :: bytes and line :: string and x y and n :: nat
  assume "read_line bs = Inr x" "(line, rest) = x" "line \<noteq> []"
    and "read_exact OriginEof 2 (drop n rest) = Inr y" "(terminator, rest') = y"
  then have "length rest < length bs" "length rest' \<le> length rest"
    by (auto dest: read_line_shrinks simp: read_exact_def split: if_splits)
  then show "length rest' < length bs" by simp
qed

declare copy_chunked.simps [simp del]

definition is_chunked :: "header_list \<Rightarrow> bool" where
  "is_chunked headers \<longleftrightarrow> list_ex (\<lambda>(name, value). eq_ignore_ascii_case name ''transfer-encoding''
     \<and> list_ex (\<lambda>encoding. eq_ignore_ascii_case (trim encoding) ''chunked'') (split_on (CHR '','') value)) headers"

definition content_length :: "header_list \<Rightarrow> nat option" where
  "content_length headers =
     Option.bind (find (\<lambda>(name, _). eq_ignore_ascii_case name ''content-length'') headers)
       (\<lambda>(_, value). parse_uint 10 USIZE_MAX value)"

text \<open>\<open>copy_response_body\<close>: \<open>origin\<close> is what the origin sends after the bytes already read, until it closes.\<close>

definition copy_response_body :: "header_list \<Rightarrow> bytes \<Rightarrow> bytes \<Rightarrow> (origin_error + unit) \<times> bytes" where
  "copy_response_body headers already_read origin =
     (if is_chunked headers then copy_chunked (already_read @ origin)
      else case content_length headers of
        Some len \<Rightarrow> (Inr (), already_read @ take (len - length already_read) origin)
      | None \<Rightarrow> (Inr (), already_read @ origin))"

section \<open>The headers that go back\<close>

definition is_hop_by_hop_header :: "string \<Rightarrow> bool" where
  "is_hop_by_hop_header name \<longleftrightarrow> eq_ignore_ascii_case name ''connection'' \<or> eq_ignore_ascii_case name ''keep-alive''
     \<or> eq_ignore_ascii_case name ''proxy-connection'' \<or> eq_ignore_ascii_case name ''transfer-encoding''"

definition is_websocket_response_header :: "string \<Rightarrow> bool" where
  "is_websocket_response_header name \<longleftrightarrow> eq_ignore_ascii_case name ''connection''
     \<or> eq_ignore_ascii_case name ''upgrade'' \<or> eq_ignore_ascii_case name ''sec-websocket-accept''"

definition serialize_headers :: "header_list \<Rightarrow> string" where
  "serialize_headers headers =
     join_sep '';'' (map (\<lambda>(name, value). base64_encode (as_bytes name) @ '':'' @ base64_encode (as_bytes value)) headers)"

definition user_headers :: "header_list \<Rightarrow> header_list" where
  "user_headers headers = filter (\<lambda>(name, _). \<not> is_hop_by_hop_header name \<or> is_websocket_response_header name) headers"

text \<open>The status and headers that \<open>serve_http_origin\<close> sends over HTTP/2, and the metadata of \<open>serve_quic_http_origin\<close>.\<close>

definition http2_response :: "bool \<Rightarrow> u16 \<Rightarrow> header_list \<Rightarrow> u16 \<times> header_list" where
  "http2_response websocket status headers =
     (if websocket \<and> status = 101 then 200 else status,
      [(''cf-cloudflared-response-meta'', ''{\"src\":\"origin\"}'')]
      @ (if user_headers headers = [] then []
         else [(''cf-cloudflared-response-headers'', serialize_headers (user_headers headers))])
      @ filter (\<lambda>(name, _). eq_ignore_ascii_case name ''content-length'' \<or> eq_ignore_ascii_case name ''content-type'')
          (filter (\<lambda>(name, _). \<not> is_hop_by_hop_header name) (user_headers headers)))"

definition quic_response :: "u16 \<Rightarrow> header_list \<Rightarrow> connect_response" where
  "quic_response status headers =
     \<lparr>crs_error = [],
      crs_metadata = (''HttpStatus'', show_nat (unat status))
        # map (\<lambda>(name, value). (''HttpHeader:'' @ name, value)) (user_headers headers)\<rparr>"

definition copy_websocket_response :: "bytes \<Rightarrow> bytes \<Rightarrow> bytes" where
  "copy_websocket_response already_read origin = already_read @ origin"

section \<open>The body over HTTP/2\<close>

text \<open>
  \<open>H2Writer\<close>. What the HTTP library answers is a list: to each \<open>poll_capacity\<close> that it is pending, has failed or closed the stream, or
  has capacity, with whether it then takes the data; when the list is used up it stays pending, as it
  does without a reservation, of which the code makes none.
\<close>

datatype h2_capacity = CapacityPending | Capacity nat bool | CapacityFailed | CapacityClosed

record h2_writer =
  hw_open :: bool
  hw_answers :: "h2_capacity list"
  hw_sent :: bytes

definition h2_writer_new :: "h2_capacity list \<Rightarrow> h2_writer" where
  "h2_writer_new answers = \<lparr>hw_open = True, hw_answers = answers, hw_sent = []\<rparr>"

text \<open>\<open>None\<close> is \<open>Poll::Pending\<close>.\<close>

definition h2_poll_write :: "bytes \<Rightarrow> h2_writer \<Rightarrow> (origin_error + nat) option \<times> h2_writer" where
  "h2_poll_write d w =
     (if \<not> hw_open w then (Some (Inl BrokenPipe), w)
      else if d = [] then (Some (Inr 0), w)
      else case hw_answers w of
        [] \<Rightarrow> (None, w)
      | CapacityPending # as \<Rightarrow> (None, w\<lparr>hw_answers := as\<rparr>)
      | CapacityFailed # as \<Rightarrow> (Some (Inl H2Library), w\<lparr>hw_answers := as\<rparr>)
      | CapacityClosed # as \<Rightarrow> (Some (Inl BrokenPipe), w\<lparr>hw_answers := as\<rparr>)
      | Capacity n taken # as \<Rightarrow>
          if n = 0 then (None, w\<lparr>hw_answers := as\<rparr>)
          else if taken then (Some (Inr (min n (length d))), w\<lparr>hw_answers := as, hw_sent := hw_sent w @ take n d\<rparr>)
          else (Some (Inl H2Library), w\<lparr>hw_answers := as\<rparr>))"

definition h2_shutdown :: "bool \<Rightarrow> h2_writer \<Rightarrow> (origin_error + unit) \<times> h2_writer" where
  "h2_shutdown taken w =
     (if hw_open w then (if taken then Inr () else Inl H2Library, w\<lparr>hw_open := False\<rparr>) else (Inr (), w))"

text \<open>\<open>write_all\<close>, polled again while the library has another answer; \<open>None\<close>: it waits for ever.\<close>

function h2_write_all :: "bytes \<Rightarrow> h2_writer \<Rightarrow> (origin_error + unit) option \<times> h2_writer" where
  "h2_write_all d w =
     (if d = [] then (Some (Inr ()), w)
      else case h2_poll_write d w of
        (None, w') \<Rightarrow> if hw_answers w = [] then (None, w') else h2_write_all d w'
      | (Some (Inl e), w') \<Rightarrow> (Some (Inl e), w')
      | (Some (Inr n), w') \<Rightarrow> h2_write_all (drop n d) w')"
  by pat_completeness auto
termination
  by (relation "measure (\<lambda>(d, w). length (hw_answers w))")
    (auto simp: h2_poll_write_def split: if_splits list.splits h2_capacity.splits)

declare h2_write_all.simps [simp del]

fun h2_write_pieces :: "bytes list \<Rightarrow> h2_writer \<Rightarrow> (origin_error + unit) option \<times> h2_writer" where
  "h2_write_pieces [] w = (Some (Inr ()), w)"
| "h2_write_pieces (p # ps) w =
     (case h2_write_all p w of
        (Some (Inr _), w) \<Rightarrow> h2_write_pieces ps w
      | (r, w) \<Rightarrow> (r, w))"

section \<open>A request is served\<close>

text \<open>
  \<open>respond\<close> is the origin: the pieces that reads of its connection return, up to its end, when it is sent the request.
  The result: the status and headers sent to the edge, the body, how the copying of the body ended, and for a WebSocket the bytes
  of the edge that go to the origin after the request. An outcome of \<open>None\<close> is a response that waits for ever.
\<close>

record answer =
  an_status :: u16
  an_headers :: header_list
  an_body :: bytes
  an_outcome :: "(origin_error + unit) option"
  an_to_origin :: bytes

text \<open>
  \<open>Http2RequestStream::send_response\<close>: the HTTP library refuses a status that is none, before anything is sent, and a
  header that is not valid, when the stream can no longer be answered. \<open>hl_capacity\<close> is what it answers the writer of the body,
  \<open>hl_end\<close> whether it takes the end of the stream, and \<open>hl_cut\<close> how \<open>write_all\<close> and tokio's \<open>copy\<close> divide a body into calls.
\<close>

record h2_lib =
  hl_status :: "u16 \<Rightarrow> bool"
  hl_header :: "string \<times> string \<Rightarrow> bool"
  hl_capacity :: "h2_capacity list"
  hl_end :: bool
  hl_cut :: "bytes \<Rightarrow> bytes list"

definition h2_send_response :: "h2_lib \<Rightarrow> u16 \<Rightarrow> header_list \<Rightarrow> origin_error + unit" where
  "h2_send_response lib status headers =
     and_then (ensure (hl_status lib status) ResponseStatus) (\<lambda>_. ensure (list_all (hl_header lib) headers) ResponseHeader)"

text \<open>
  What a body and the outcome of copying it become behind the writer: its own error or waiting comes first, and then the
  stream is ended unless the copying failed.
\<close>

definition h2_relay :: "h2_lib \<Rightarrow> (origin_error + unit) \<times> bytes \<Rightarrow> (origin_error + unit) option \<times> bytes" where
  "h2_relay lib = (\<lambda>(outcome, body).
     case h2_write_pieces (hl_cut lib body) (h2_writer_new (hl_capacity lib)) of
       (Some (Inr _), w) \<Rightarrow> (Some (and_then outcome (\<lambda>_. fst (h2_shutdown (hl_end lib) w))), hw_sent w)
     | (r, w) \<Rightarrow> (r, hw_sent w))"

definition relay_body :: "bool \<Rightarrow> u16 \<Rightarrow> header_list \<Rightarrow> bytes \<Rightarrow> bytes \<Rightarrow> (origin_error + unit) \<times> bytes" where
  "relay_body websocket status headers already_read origin =
     (if websocket \<and> status = 101 then (Inr (), copy_websocket_response already_read origin)
      else copy_response_body headers already_read origin)"

definition prepare_origin_request ::
    "(string \<Rightarrow> uri option) \<Rightarrow> (session \<Rightarrow> string option \<Rightarrow> bool) \<Rightarrow> (session \<Rightarrow> bytes \<Rightarrow> bytes list) \<Rightarrow> string
      \<Rightarrow> connect_request \<Rightarrow> bytes \<Rightarrow> origin_error + ((u16 \<times> header_list \<times> bytes \<times> bytes list) \<times> bytes)" where
  "prepare_origin_request parse_uri connect respond tag request stream =
     and_then (prepare_origin parse_uri connect tag request stream) (\<lambda>(session, sent, rest).
     and_then (read_http_response_head (respond session sent)) (\<lambda>response. Inr (response, rest)))"

definition serve_http_origin ::
    "h2_lib \<Rightarrow> (string \<Rightarrow> uri option) \<Rightarrow> (session \<Rightarrow> string option \<Rightarrow> bool) \<Rightarrow> (session \<Rightarrow> bytes \<Rightarrow> bytes list) \<Rightarrow> string
      \<Rightarrow> remote_config \<Rightarrow> connect_request \<Rightarrow> bytes \<Rightarrow> origin_error + answer" where
  "serve_http_origin lib parse_uri connect respond tag remote request stream =
     and_then (map_err OriginDestination (resolve_remote_request parse_uri remote request)) (\<lambda>(request, status_override).
     case status_override of
       Some status \<Rightarrow>
         and_then (h2_send_response lib status []) (\<lambda>_.
         Inr \<lparr>an_status = status, an_headers = [], an_body = [],
           an_outcome = Some (fst (h2_shutdown (hl_end lib) (h2_writer_new (hl_capacity lib)))), an_to_origin = []\<rparr>)
     | None \<Rightarrow>
         let websocket = (cr_type request = WebsocketConnection) in
         and_then (prepare_origin_request parse_uri connect respond tag request stream)
           (\<lambda>((status, headers, already_read, origin), rest).
         let (response_status, response_headers) = http2_response websocket status headers in
         and_then (h2_send_response lib response_status response_headers) (\<lambda>_.
         let (outcome, body) = h2_relay lib (relay_body websocket status headers already_read (concat origin))
         in Inr \<lparr>an_status = response_status, an_headers = response_headers, an_body = body, an_outcome = outcome,
              an_to_origin = (if websocket \<and> status = 101 then rest else [])\<rparr>)))"

text \<open>\<open>serve_quic_http_origin\<close>: the response frame, and the bytes that follow it.\<close>

definition serve_quic_http_origin ::
    "(string \<Rightarrow> uri option) \<Rightarrow> (session \<Rightarrow> string option \<Rightarrow> bool) \<Rightarrow> (session \<Rightarrow> bytes \<Rightarrow> bytes list) \<Rightarrow> (origin_error \<Rightarrow> string)
      \<Rightarrow> string \<Rightarrow> remote_config \<Rightarrow> connect_request \<Rightarrow> bytes \<Rightarrow> origin_error + (connect_response \<times> (origin_error + unit) \<times> bytes)" where
  "serve_quic_http_origin parse_uri connect respond show_error tag remote request stream =
     and_then (map_err OriginDestination (resolve_remote_request parse_uri remote request)) (\<lambda>(request, status_override).
     case status_override of
       Some status \<Rightarrow> Inr (\<lparr>crs_error = [], crs_metadata = [(''HttpStatus'', show_nat (unat status))]\<rparr>, Inr (), [])
     | None \<Rightarrow>
         let websocket = (cr_type request = WebsocketConnection) in
         case prepare_origin_request parse_uri connect respond tag request stream of
           Inl e \<Rightarrow> Inr (\<lparr>crs_error = show_error e, crs_metadata = []\<rparr>, Inl e, [])
         | Inr ((status, headers, already_read, origin), rest) \<Rightarrow>
             let (outcome, body) = relay_body websocket status headers already_read (concat origin)
             in Inr (quic_response status headers, outcome, body))"

text \<open>
  The handler of \<open>http_router_handler\<close>: an error becomes a 502 with its text, unless the stream was already used up; what
  becomes of that response is ignored.
\<close>

definition http_router_answer :: "h2_lib \<Rightarrow> (origin_error \<Rightarrow> string) \<Rightarrow> origin_error + answer \<Rightarrow> answer option" where
  "http_router_answer lib show_error served =
     (let headers = [(''content-type'', ''text/plain; charset=utf-8'')] in
      case served of
        Inr a \<Rightarrow> Some a
      | Inl e \<Rightarrow>
          if e = ResponseHeader \<or> h2_send_response lib 502 headers \<noteq> Inr () then None
          else (case h2_write_all (as_bytes (show_error e)) (h2_writer_new (hl_capacity lib)) of
              (r, w) \<Rightarrow> Some \<lparr>an_status = 502, an_headers = headers, an_body = hw_sent w,
                an_outcome = map_option (\<lambda>_. Inl e) r, an_to_origin = []\<rparr>))"

section \<open>What the writer sends\<close>

definition h2_gives :: "h2_capacity \<Rightarrow> bool" where
  "h2_gives a \<longleftrightarrow> a = CapacityPending \<or> (\<exists>n. 0 < n \<and> a = Capacity n True)"

definition h2_room :: "h2_capacity list \<Rightarrow> nat" where
  "h2_room as = length (filter (\<lambda>a. a \<noteq> CapacityPending) as)"

lemma h2_poll_write_cases:
  assumes "h2_poll_write d w = (r, w')" and "hw_open w" and "d \<noteq> []"
  shows "hw_open w' \<and> (case r of Some (Inr n) \<Rightarrow> hw_sent w' = hw_sent w @ take n d \<and> 0 < n \<and> n \<le> length d \<and> hw_answers w \<noteq> []
    | _ \<Rightarrow> hw_sent w' = hw_sent w)"
  using assms by (auto simp: h2_poll_write_def min_def split: list.splits h2_capacity.splits if_splits)

lemma h2_write_all_sends:
  "h2_write_all d w = (r, w') \<Longrightarrow> hw_open w \<Longrightarrow>
    hw_open w' \<and> (\<exists>x y. d = x @ y \<and> hw_sent w' = hw_sent w @ x \<and> (r = Some (Inr ()) \<longrightarrow> y = []))"
proof (induction d w rule: h2_write_all.induct)
  case (1 d w)
  show ?case
  proof (cases "d = []")
    case True
    with "1.prems" show ?thesis by (simp add: h2_write_all.simps [of "[]" w])
  next
    case d: False
    obtain a u where a: "h2_poll_write d w = (a, u)" by force
    note c = h2_poll_write_cases [OF a "1.prems"(2) d]
    consider "a = None" "hw_answers w = []" | "a = None" "hw_answers w \<noteq> []" | e where "a = Some (Inl e)" | n where "a = Some (Inr n)"
      by (metis option.exhaust sumE)
    then show ?thesis
    proof cases
      case 1
      with "1.prems"(1) d a have "r = None" "w' = u" by (simp_all add: h2_write_all.simps [of d w])
      with c 1 show ?thesis by (auto intro: exI [of _ d])
    next
      case 2
      with "1.prems"(1) d a have "h2_write_all d u = (r, w')" by (simp add: h2_write_all.simps [of d w])
      with "1.IH"(1) [OF d a [symmetric] 2] c 2 show ?thesis by simp
    next
      case (3 e)
      with "1.prems"(1) d a have "r = Some (Inl e)" "w' = u" by (simp_all add: h2_write_all.simps [of d w])
      with c 3 show ?thesis by (auto intro: exI [of _ d])
    next
      case (4 n)
      with "1.prems"(1) d a have "h2_write_all (drop n d) u = (r, w')" by (simp add: h2_write_all.simps [of d w])
      from "1.IH"(2) [OF d a [symmetric] 4 refl this] c 4 obtain x y where
        "hw_open w'" "drop n d = x @ y" "hw_sent w' = hw_sent w @ take n d @ x" "r = Some (Inr ()) \<longrightarrow> y = []" by auto
      then show ?thesis
        by (intro conjI exI [of _ "take n d @ x"] exI [of _ y]) (simp_all, metis append_take_drop_id)
    qed
  qed
qed

lemma h2_write_pieces_sends:
  "h2_write_pieces ps w = (r, w') \<Longrightarrow> hw_open w \<Longrightarrow>
    hw_open w' \<and> (\<exists>x y. concat ps = x @ y \<and> hw_sent w' = hw_sent w @ x \<and> (r = Some (Inr ()) \<longrightarrow> y = []))"
proof (induction ps arbitrary: w)
  case (Cons p ps)
  obtain a u where a: "h2_write_all p w = (a, u)" by force
  from h2_write_all_sends [OF a Cons.prems(2)] obtain x y where
    x: "hw_open u" "p = x @ y" "hw_sent u = hw_sent w @ x" "a = Some (Inr ()) \<longrightarrow> y = []" by blast
  show ?case
  proof (cases "a = Some (Inr ())")
    case True
    with Cons.prems(1) a have "h2_write_pieces ps u = (r, w')" by simp
    from Cons.IH [OF this x(1)] obtain x' y' where "hw_open w'" "concat ps = x' @ y'" "hw_sent w' = hw_sent u @ x'"
      "r = Some (Inr ()) \<longrightarrow> y' = []" by blast
    with x True show ?thesis by (intro conjI exI [of _ "x @ x'"] exI [of _ y']) simp_all
  next
    case False
    with Cons.prems(1) a have "r = a" "w' = u" by (auto split: option.splits sum.splits)
    with x False show ?thesis by (intro conjI exI [of _ x] exI [of _ "y @ concat ps"]) simp_all
  qed
qed simp

lemma h2_write_all_room:
  "hw_open w \<Longrightarrow> list_all h2_gives (hw_answers w) \<Longrightarrow> length d \<le> h2_room (hw_answers w) \<Longrightarrow>
    \<exists>w'. h2_write_all d w = (Some (Inr ()), w') \<and> list_all h2_gives (hw_answers w') \<and> h2_room (hw_answers w) \<le> h2_room (hw_answers w') + length d"
proof (induction d w rule: h2_write_all.induct)
  case (1 d w)
  show ?case
  proof (cases "d = []")
    case True
    with "1.prems" show ?thesis by (simp add: h2_write_all.simps [of "[]" w])
  next
    case d: False
    then have "hw_answers w \<noteq> []" using "1.prems"(3) by (auto simp: h2_room_def)
    then obtain b bs where bs: "hw_answers w = b # bs" by (cases "hw_answers w") auto
    with "1.prems"(2) consider "b = CapacityPending" | n where "b = Capacity n True" "0 < n" by (auto simp: h2_gives_def)
    then show ?thesis
    proof cases
      case 1
      let ?u = "w\<lparr>hw_answers := bs\<rparr>"
      have p: "h2_poll_write d w = (None, ?u)" using "1.prems"(1) d bs 1 by (simp add: h2_poll_write_def)
      then have "h2_write_all d w = h2_write_all d ?u" using d bs by (simp add: h2_write_all.simps [of d w])
      with "1.IH"(1) [OF d p [symmetric] refl] "1.prems" bs 1 show ?thesis by (simp add: h2_room_def)
    next
      case (2 n)
      let ?u = "w\<lparr>hw_answers := bs, hw_sent := hw_sent w @ take n d\<rparr>" and ?n = "min n (length d)"
      have p: "h2_poll_write d w = (Some (Inr ?n), ?u)" using "1.prems"(1) d bs 2 by (simp add: h2_poll_write_def)
      then have step: "h2_write_all d w = h2_write_all (drop ?n d) ?u" using d by (simp add: h2_write_all.simps [of d w])
      have len: "length (drop ?n d) < length d" "length (drop ?n d) \<le> h2_room bs" "h2_room (hw_answers w) = Suc (h2_room bs)"
        using d 2 "1.prems"(3) bs by (auto simp: h2_room_def)
      from "1.IH"(2) [OF d p [symmetric] refl refl] "1.prems"(1,2) bs len(2) obtain w' where
        "h2_write_all (drop ?n d) ?u = (Some (Inr ()), w')" "list_all h2_gives (hw_answers w')"
        "h2_room bs \<le> h2_room (hw_answers w') + length (drop ?n d)" by auto
      with step len(1,3) show ?thesis by auto
    qed
  qed
qed

lemma h2_write_pieces_room:
  "hw_open w \<Longrightarrow> list_all h2_gives (hw_answers w) \<Longrightarrow> length (concat ps) \<le> h2_room (hw_answers w) \<Longrightarrow>
    fst (h2_write_pieces ps w) = Some (Inr ())"
proof (induction ps arbitrary: w)
  case (Cons p ps)
  from Cons.prems(3) have "length p \<le> h2_room (hw_answers w)" by simp
  from h2_write_all_room [OF Cons.prems(1,2) this] obtain w' where
    w': "h2_write_all p w = (Some (Inr ()), w')" "list_all h2_gives (hw_answers w')" "h2_room (hw_answers w) \<le> h2_room (hw_answers w') + length p"
    by blast
  from h2_write_all_sends [OF w'(1) Cons.prems(1)] Cons.IH [of w'] w' Cons.prems(3) show ?case by simp
qed simp

lemma h2_write_pieces_stuck:
  "hw_open w \<Longrightarrow> set (hw_answers w) \<subseteq> {CapacityPending} \<Longrightarrow> concat ps \<noteq> [] \<Longrightarrow>
    \<exists>w'. h2_write_pieces ps w = (None, w') \<and> hw_sent w' = hw_sent w"
proof (induction ps)
  case (Cons p ps)
  have stuck: "\<exists>w'. h2_write_all p w = (None, w') \<and> hw_sent w' = hw_sent w"
    if "p \<noteq> []" "hw_open w" "set (hw_answers w) \<subseteq> {CapacityPending}" for w :: h2_writer
    using that
  proof (induction "hw_answers w" arbitrary: w)
    case Nil
    then show ?case by (simp add: h2_write_all.simps [of p w] h2_poll_write_def)
  next
    case (Cons a as)
    from Cons(2) Cons.prems(3) have w: "hw_answers w = CapacityPending # as" "set as \<subseteq> {CapacityPending}"
      by (metis insert_subset list.simps(15) singletonD)+
    from Cons(1) [of "w\<lparr>hw_answers := as\<rparr>"] w Cons.prems show ?case
      by (simp add: h2_write_all.simps [of p w] h2_poll_write_def)
  qed
  show ?case
  proof (cases "p = []")
    case True
    with Cons show ?thesis by (simp add: h2_write_all.simps [of "[]" w])
  next
    case False
    from stuck [OF this Cons.prems(1,2)] show ?thesis by auto
  qed
qed simp

lemma h2_relay_body:
  assumes "concat (hl_cut lib content) = content" and "h2_relay lib (Inr (), content) = (r, body)"
  shows "prefix body content \<and> (r = Some (Inr ()) \<longrightarrow> body = content)
    \<and> (list_all h2_gives (hl_capacity lib) \<and> length content \<le> h2_room (hl_capacity lib) \<and> hl_end lib \<longrightarrow> r = Some (Inr ()))
    \<and> (set (hl_capacity lib) \<subseteq> {CapacityPending} \<and> content \<noteq> [] \<longrightarrow> r = None \<and> body = [])"
proof -
  let ?w = "h2_writer_new (hl_capacity lib)"
  have w: "hw_open ?w" "hw_answers ?w = hl_capacity lib" "hw_sent ?w = []" by (simp_all add: h2_writer_new_def)
  obtain a u where a: "h2_write_pieces (hl_cut lib content) ?w = (a, u)" by force
  from h2_write_pieces_sends [OF a w(1)] assms(1) w(3) obtain x y where
    x: "hw_open u" "content = x @ y" "hw_sent u = x" "a = Some (Inr ()) \<longrightarrow> y = []" by auto
  from x(1) have "fst (h2_shutdown (hl_end lib) u) = (if hl_end lib then Inr () else Inl H2Library)" by (simp add: h2_shutdown_def)
  with assms(2) a x(3) have "(r, body) = (case a of Some (Inr _) \<Rightarrow> Some (if hl_end lib then Inr () else Inl H2Library) | _ \<Rightarrow> a, x)"
    by (auto simp: h2_relay_def split: option.splits sum.splits)
  then have body: "body = x" and r: "r = (case a of Some (Inr _) \<Rightarrow> Some (if hl_end lib then Inr () else Inl H2Library) | _ \<Rightarrow> a)"
    by simp_all
  from r have ra: "r = Some (Inr ()) \<longrightarrow> a = Some (Inr ())" "hl_end lib \<and> a = Some (Inr ()) \<longrightarrow> r = Some (Inr ())"
    "a = None \<longrightarrow> r = None" by (simp_all split: option.split sum.split)
  have "a = Some (Inr ())" if "list_all h2_gives (hl_capacity lib)" "length content \<le> h2_room (hl_capacity lib)"
    using h2_write_pieces_room [of ?w "hl_cut lib content"] that w assms(1) a by simp
  moreover have "a = None \<and> x = []" if "set (hl_capacity lib) \<subseteq> {CapacityPending}" "content \<noteq> []"
    using h2_write_pieces_stuck [of ?w "hl_cut lib content"] that w assms(1) a x(3) by simp
  moreover have "prefix body content" using x(2) body by simp
  moreover have "r = Some (Inr ()) \<longrightarrow> body = content" using x(2,4) body ra(1) by auto
  ultimately show ?thesis using body ra(2,3) by blast
qed

section \<open>The head is found\<close>

lemma read_head_from_finds:
  assumes "\<forall>p \<in> set pieces. p \<noteq> [] \<and> length p \<le> 4096" and "find_sub (CRLF @ CRLF) d = None"
    and "d @ concat pieces = H @ CRLF @ CRLF @ rest" and "find_sub (CRLF @ CRLF) (H @ CRLF @ CRLF @ rest) = Some (length H)"
    and "length H + 4100 \<le> MAX_HTTP_RESPONSE_HEADERS"
  shows "\<exists>already pieces'. read_head_from d pieces = Inr (length H, H @ CRLF @ CRLF @ already, pieces') \<and> rest = already @ concat pieces'"
  using assms
proof (induction pieces arbitrary: d)
  case (Cons p pieces)
  let ?B = "CRLF @ CRLF"
  have all: "(d @ p) @ concat pieces = H @ ?B @ rest" using Cons.prems(3) by simp
  have short: "length xs < length H + 4" if "find_sub ?B xs = None" "xs @ ys = H @ ?B @ rest" for xs ys
  proof (rule ccontr)
    assume "\<not> ?thesis"
    then have "find_sub ?B xs = Some (length H)"
      using that(2) Cons.prems(4) by (intro find_sub_shorten [of _ xs ys]) simp_all
    with that(1) show False by simp
  qed
  from short [of d "concat (p # pieces)"] Cons.prems(1,2,3,5)
  have fits: "\<not> length (d @ p) > MAX_HTTP_RESPONSE_HEADERS" and "p \<noteq> []" by auto
  show ?case
  proof (cases "find_sub ?B (d @ p)")
    case None
    with Cons.IH [of "d @ p"] Cons.prems all fits \<open>p \<noteq> []\<close> show ?thesis by simp
  next
    case (Some i)
    from find_sub_extend [OF Some, of "concat pieces"] Cons.prems(4) all have i: "i = length H" by simp
    from find_sub_Some [OF Some] i have "length (H @ ?B) \<le> length (d @ p)" by simp
    moreover have "take (length (H @ ?B)) ((d @ p) @ concat pieces) = H @ ?B" unfolding all by simp
    ultimately have "take (length (H @ ?B)) (d @ p) = H @ ?B" by (simp del: append_assoc length_append)
    then obtain already where "d @ p = (H @ ?B) @ already" using append_take_drop_id [of "length (H @ ?B)" "d @ p"] by metis
    with all have "d @ p = H @ ?B @ already" "rest = already @ concat pieces" by simp_all
    with Some i fits \<open>p \<noteq> []\<close> show ?thesis by (intro exI [of _ already] exI [of _ pieces]) (simp del: append_assoc)
  qed
qed simp

lemma origin_header_line: "header_wf h \<Longrightarrow> origin_header (header_line h) = Inr h"
  by (cases h) (auto simp: header_wf_def origin_header_def header_line_def trim_def)

lemma status_words:
  "(case split_whitespace (''HTTP/1.1 '' @ show_nat status @ '' '' @ reason) of _ # code # _ \<Rightarrow> Some code | _ \<Rightarrow> None) = Some (show_nat status)"
proof -
  have "split_whitespace (''HTTP/1.1 '' @ show_nat status @ '' '' @ reason) = ''HTTP/1.1'' # show_nat status # split_whitespace reason"
    using split_whitespace_word [of "''HTTP/1.1''" "show_nat status @ '' '' @ reason"]
      split_whitespace_word [of "show_nat status" reason] show_nat_graphic [of status] by (simp add: graphic_def)
  then show ?thesis by simp
qed

lemma read_http_response_head_put:
  assumes "head_wf status reason hs" and "length (put_head status reason hs) + 4100 \<le> MAX_HTTP_RESPONSE_HEADERS"
    and "\<forall>p \<in> set pieces. p \<noteq> [] \<and> length p \<le> 4096" and "concat pieces = as_bytes (put_head status reason hs) @ CRLF @ CRLF @ rest"
  shows "\<exists>already pieces'. read_http_response_head pieces = Inr (of_nat status, hs, already, pieces') \<and> rest = already @ concat pieces'"
proof -
  let ?h = "put_head status reason hs" and ?ls = "response_lines status reason hs"
  have ls: "\<forall>l \<in> set ?ls. line_text l \<and> l \<noteq> []" "?ls \<noteq> []"
    using assms(1) response_lines_text by (auto simp: head_wf_def) (simp add: response_lines_def)
  then have found: "find_sub (CRLF @ CRLF) (as_bytes ?h @ CRLF @ CRLF @ rest) = Some (length (as_bytes ?h))"
    unfolding put_head_def by (simp del: append_assoc) (intro find_blank_line, auto simp: line_text_def)
  have "find_sub (CRLF @ CRLF) [] = None" by simp
  from read_head_from_finds [OF assms(3) this _ found] assms(2,4) obtain already pieces'
    where head: "read_head_from [] pieces = Inr (length ?h, as_bytes ?h @ CRLF @ CRLF @ already, pieces')" "rest = already @ concat pieces'"
    by auto
  moreover have "from_utf8 HeadUtf8 (as_bytes ?h) = Inr ?h"
    using ls by (auto simp: put_head_def line_text_def intro!: from_utf8_as_bytes join_crlf_is_str)
  moreover have "split_crlf ?h = ?ls"
    unfolding put_head_def using ls by (intro split_crlf_join) (auto simp: line_text_def)
  moreover have "try_map origin_header (filter (\<lambda>line. line \<noteq> []) (map header_line hs)) = Inr hs"
  proof -
    have "filter (\<lambda>line. line \<noteq> []) (map header_line hs) = map header_line hs" using ls(1) by (auto simp: filter_id_conv response_lines_def)
    moreover have "try_map origin_header (map header_line hs) = Inr hs" using assms(1)
      by (auto simp: try_map_Inr_iff head_wf_def list_all_iff list_all2_conv_all_nth origin_header_line)
    ultimately show ?thesis by simp
  qed
  moreover have "parse_u16 (show_nat status) = Some (of_nat status)" using assms(1) by (simp add: parse_u16_def head_wf_def)
  ultimately show ?thesis
    unfolding read_http_response_head_def Let_def
    by (intro exI [of _ already] exI [of _ pieces']) (simp add: response_lines_def status_words [simplified])
qed

section \<open>The body is copied\<close>

text \<open>
  What an origin writes in chunks: every chunk with an extension, the last chunk, and trailers. A line ends at the first
  line feed, so none is part of an extension or of a trailer.
\<close>

definition trailer_ok :: "string \<Rightarrow> bool" where
  "trailer_ok t \<longleftrightarrow> is_str t \<and> CHR 0x0A \<notin> set t \<and> t \<noteq> []"

definition chunk_ok :: "string \<times> bytes \<Rightarrow> bool" where
  "chunk_ok = (\<lambda>(ext, c). extension_ok ext \<and> CHR 0x0A \<notin> set ext \<and> c \<noteq> [] \<and> length c \<le> USIZE_MAX)"

definition put_trailers :: "string list \<Rightarrow> bytes" where
  "put_trailers ts = concat (map (\<lambda>t. as_bytes t @ CRLF) ts) @ CRLF"

definition put_chunked :: "(string \<times> bytes) list \<Rightarrow> string \<Rightarrow> string list \<Rightarrow> bytes" where
  "put_chunked cs ext ts = concat (map put_chunk cs) @ as_bytes (''0'' @ ext) @ CRLF @ put_trailers ts"

lemma as_bytes_LF: "10 \<in> set (as_bytes s) \<longleftrightarrow> CHR 0x0A \<in> set s"
proof -
  have "10 = (of_nat (of_char c) :: u8) \<longleftrightarrow> c = CHR 0x0A" for c
  proof
    assume "10 = (of_nat (of_char c) :: u8)"
    then have "unat (of_nat (of_char c) :: u8) = 10" by simp
    then have "(of_char c :: nat) = 10" using of_char_less_256 [of c] by (simp add: unat_of_nat)
    then have "of_char c = (of_char (CHR 0x0A) :: nat)" by simp
    then show "c = CHR 0x0A" by (simp only: of_char_eq_iff)
  qed simp
  then show ?thesis by (force simp: as_bytes_def)
qed

lemma find_idx_put: "\<forall>x \<in> set xs. \<not> p x \<Longrightarrow> p y \<Longrightarrow> find_idx p (xs @ y # ys) = Some (length xs)"
  by (induction xs) auto

lemma read_line_put:
  assumes "is_str s" and "CHR 0x0A \<notin> set s"
  shows "read_line (as_bytes s @ CRLF @ rest) = Inr (s @ crlf, rest)"
proof -
  have "find_idx (\<lambda>b. b = 10) ((as_bytes s @ [13]) @ 10 # rest) = Some (length (as_bytes s @ [13]))"
    using assms(2) as_bytes_LF [of s] by (intro find_idx_put) auto
  then have n: "find_idx (\<lambda>b. b = 10) (as_bytes s @ CRLF @ rest) = Some (length s + 1)" by (simp add: CRLF_def)
  have "as_bytes (s @ crlf) = as_bytes s @ CRLF" by (simp add: CRLF_as_bytes)
  then have cut: "take (length s + 2) (as_bytes s @ CRLF @ rest) = as_bytes (s @ crlf)" by simp
  have "is_str crlf" by (rule is_ascii_is_str) (simp add: crlf_def)
  then have "from_utf8 LineUtf8 (as_bytes (s @ crlf)) = Inr (s @ crlf)" using assms(1) by (intro from_utf8_as_bytes is_str_append)
  with n cut show ?thesis by (simp add: read_line_def)
qed

lemma skip_trailers_put: "list_all trailer_ok ts \<Longrightarrow> skip_trailers (put_trailers ts @ rest) = Inr ()"
proof (induction ts)
  case Nil
  from read_line_put [of "[]" rest] show ?case
    by (subst skip_trailers.simps) (simp add: put_trailers_def as_bytes_def)
next
  case (Cons t ts)
  have "put_trailers (t # ts) @ rest = as_bytes t @ CRLF @ put_trailers ts @ rest" by (simp add: put_trailers_def)
  with read_line_put [of t "put_trailers ts @ rest"] Cons show ?case
    by (subst skip_trailers.simps) (simp add: trailer_ok_def)
qed

lemma chunk_size_put:
  assumes "extension_ok ext" and "n \<le> USIZE_MAX"
  shows "chunk_size ((show_hex n @ ext) @ crlf) = Inr n"
proof -
  have "strip_suffix ((show_hex n @ ext) @ crlf) crlf = Some (show_hex n @ ext)" unfolding strip_suffix_def by (simp add: suffix_def)
  moreover have "trim (show_hex n) = show_hex n" using show_hex_graphic by (intro trim_graphic) blast
  ultimately show ?thesis using assms chunk_size_text [of ext n] by (simp add: chunk_size_def del: append_assoc)
qed

lemma chunk_line_text:
  assumes "extension_ok ext" and "CHR 0x0A \<notin> set ext"
  shows "is_str (show_hex n @ ext)" and "CHR 0x0A \<notin> set (show_hex n @ ext)"
proof -
  show "is_str (show_hex n @ ext)"
    using assms is_str_append [OF is_ascii_is_str [OF show_hex_is_ascii]] by (simp add: extension_ok_def)
  have "\<not> graphic (CHR 0x0A)" by (simp add: graphic_def)
  then show "CHR 0x0A \<notin> set (show_hex n @ ext)" using assms(2) show_hex_graphic by fastforce
qed

lemma show_hex_0: "show_hex 0 = ''0''"
  by (simp add: show_hex.simps digit_char_0)

lemma copy_chunked_last:
  "read_line bs = Inr (line, rest) \<Longrightarrow> line \<noteq> [] \<Longrightarrow> chunk_size line = Inr 0 \<Longrightarrow> copy_chunked bs = (skip_trailers rest, [])"
  by (simp add: copy_chunked.simps [of bs])

lemma copy_chunked_more:
  assumes "read_line bs = Inr (line, c @ CRLF @ rest)" and "line \<noteq> []" and "chunk_size line = Inr (length c)" and "c \<noteq> []"
  shows "copy_chunked bs = apsnd (\<lambda>cs. c @ cs) (copy_chunked rest)"
proof -
  have "read_exact OriginEof 2 (drop (length c) (c @ CRLF @ rest)) = Inr (CRLF, rest)" by simp
  with assms show ?thesis by (simp add: copy_chunked.simps [of bs])
qed

lemma copy_chunked_put:
  assumes "list_all chunk_ok cs" and "extension_ok ext" "CHR 0x0A \<notin> set ext" and "list_all trailer_ok ts"
  shows "copy_chunked (put_chunked cs ext ts @ rest) = (Inr (), concat (map snd cs))"
  using assms(1)
proof (induction cs)
  case Nil
  let ?line = "show_hex 0 @ ext"
  have bs: "put_chunked [] ext ts @ rest = as_bytes ?line @ CRLF @ put_trailers ts @ rest" by (simp add: put_chunked_def show_hex_0)
  have "copy_chunked (as_bytes ?line @ CRLF @ put_trailers ts @ rest) = (skip_trailers (put_trailers ts @ rest), [])"
    by (rule copy_chunked_last [OF read_line_put [OF chunk_line_text [OF assms(2,3)]] _ chunk_size_put [OF assms(2)]]) simp_all
  then show ?case unfolding bs using skip_trailers_put [OF assms(4)] by simp
next
  case (Cons x cs)
  obtain e c where x: "x = (e, c)" by force
  with Cons.prems have c: "extension_ok e" "CHR 0x0A \<notin> set e" "c \<noteq> []" "length c \<le> USIZE_MAX" by (simp_all add: chunk_ok_def)
  let ?line = "show_hex (length c) @ e" and ?next = "put_chunked cs ext ts @ rest"
  have bs: "put_chunked (x # cs) ext ts @ rest = as_bytes ?line @ CRLF @ (c @ CRLF @ ?next)" by (simp add: x put_chunked_def put_chunk_def)
  have "copy_chunked (as_bytes ?line @ CRLF @ (c @ CRLF @ ?next)) = apsnd (\<lambda>cs. c @ cs) (copy_chunked ?next)"
    by (rule copy_chunked_more [OF read_line_put [OF chunk_line_text [OF c(1,2)]] _ chunk_size_put [OF c(1,4)] c(3)]) simp
  with Cons show ?case unfolding bs by (simp add: x)
qed

section \<open>Properties\<close>

text \<open>The bytes after the head, for the three ways an origin delimits a body.\<close>

definition origin_framing :: "header_list \<Rightarrow> bytes \<Rightarrow> bytes \<Rightarrow> bool" where
  "origin_framing hs content bs \<longleftrightarrow>
     \<not> is_chunked hs \<and> content_length hs \<in> {None, Some (length content)} \<and> bs = content
   \<or> is_chunked hs \<and> (\<exists>cs ext ts rest. list_all chunk_ok cs \<and> extension_ok ext \<and> CHR 0x0A \<notin> set ext \<and> list_all trailer_ok ts
       \<and> content = concat (map snd cs) \<and> bs = put_chunked cs ext ts @ rest)"

lemma copy_response_body_framing:
  "origin_framing hs content (already @ rest) \<Longrightarrow> copy_response_body hs already rest = (Inr (), content)"
  by (auto simp: origin_framing_def copy_response_body_def copy_chunked_put split: option.splits)

text \<open>The headers of the response travel in one header over HTTP/2, from which the edge reads them back.\<close>

definition read_serialized :: "string \<Rightarrow> (bytes \<times> bytes) option list" where
  "read_serialized s = map (\<lambda>pair. case split_once (CHR '':'') pair of
     Some (n, v) \<Rightarrow> (case (token_base64 n, token_base64 v) of (Inr name, Inr value) \<Rightarrow> Some (name, value) | _ \<Rightarrow> None)
   | None \<Rightarrow> None) (split_on (CHR '';'') s)"

lemma base64_separators: "CHR '':'' \<notin> set (base64_encode bs) \<and> CHR '';'' \<notin> set (base64_encode bs)"
proof -
  obtain n where n: "base64_encode bs = map base64_digit (sextets bs) @ replicate n (CHR ''='')"
    using encode_base64_sextets base64_encode_eq by metis
  have table: "list_all (\<lambda>c. c \<noteq> CHR '':'' \<and> c \<noteq> CHR '';'') BASE64_TABLE" by (simp add: BASE64_TABLE_def)
  have "base64_digit v \<noteq> CHR '':'' \<and> base64_digit v \<noteq> CHR '';''" if "v < 64" for v
  proof -
    have "unat v < length BASE64_TABLE" using that by (simp add: BASE64_TABLE_def word_less_nat_alt)
    with table show ?thesis by (simp add: base64_digit_def list_all_length)
  qed
  then show ?thesis unfolding n using sextets_less by fastforce
qed

lemma split_on_join: "xs \<noteq> [] \<Longrightarrow> \<forall>x \<in> set xs. c \<notin> set x \<Longrightarrow> split_on c (join_sep [c] xs) = xs"
  by (induction xs) (auto simp: join_sep_Cons split_on_single split_on_snoc)

lemma serialize_headers_roundtrip:
  "hs \<noteq> [] \<Longrightarrow> read_serialized (serialize_headers hs) = map (\<lambda>(n, v). Some (as_bytes n, as_bytes v)) hs"
proof -
  assume hs: "hs \<noteq> []"
  let ?f = "\<lambda>(name, value). base64_encode (as_bytes name) @ '':'' @ base64_encode (as_bytes value)"
  have "split_on (CHR '';'') (serialize_headers hs) = map ?f hs"
    unfolding serialize_headers_def using hs base64_separators by (intro split_on_join) auto
  then show ?thesis using base64_separators by (auto simp: read_serialized_def token_base64_roundtrip)
qed

text \<open>C30: The edge receives what the origin answered, over HTTP/2 as far as the library takes it. For any status, reason and
  headers, with a body that ends with the connection, has its length in \<open>Content-Length\<close> or comes in chunks of any sizes with any extensions and
  trailers, and however its bytes are cut into reads: over QUIC the metadata, exactly the content, and no error. Over HTTP/2,
  when the library accepts the status and the headers: these, and a prefix of the content; all of it whenever the response ends without an error, which it
  does when the library gives some capacity often enough; but while the library only keeps the writer waiting, as it may because no
  capacity is ever reserved, nothing of the content is sent and the response waits for ever.
\<close>

theorem origin_response_relayed:
  assumes "resolve_remote_request parse_uri remote request = Inr (request', None)" and "cr_type request' \<noteq> WebsocketConnection"
    and "prepare_origin parse_uri connect tag request' stream = Inr (session, sent, rest)"
    and "head_wf status reason hs" and "length (put_head status reason hs) + 4 + 4096 \<le> 64 * 1024"
    and "\<forall>p \<in> set (respond session sent). p \<noteq> [] \<and> length p \<le> 4096" and "origin_framing hs content body"
    and "concat (respond session sent) = as_bytes (put_head status reason hs) @ CRLF @ CRLF @ body"
    and "h2_send_response lib (of_nat status) (snd (http2_response False (of_nat status) hs)) = Inr ()"
    and "concat (hl_cut lib content) = content"
  shows "serve_quic_http_origin parse_uri connect respond show_error tag remote request stream
      = Inr (quic_response (of_nat status) hs, Inr (), content)
    \<and> (\<exists>a. serve_http_origin lib parse_uri connect respond tag remote request stream = Inr a
        \<and> an_status a = of_nat status \<and> an_headers a = snd (http2_response False (of_nat status) hs) \<and> an_to_origin a = []
        \<and> prefix (an_body a) content \<and> (an_outcome a = Some (Inr ()) \<longrightarrow> an_body a = content)
        \<and> (list_all h2_gives (hl_capacity lib) \<and> length content \<le> h2_room (hl_capacity lib) \<and> hl_end lib
            \<longrightarrow> an_outcome a = Some (Inr ()))
        \<and> (set (hl_capacity lib) \<subseteq> {CapacityPending} \<and> content \<noteq> [] \<longrightarrow> an_outcome a = None \<and> an_body a = []))"
proof -
  have "length (put_head status reason hs) + 4100 \<le> MAX_HTTP_RESPONSE_HEADERS" using assms(5) by (simp add: MAX_HTTP_RESPONSE_HEADERS_def)
  from read_http_response_head_put [OF assms(4) this assms(6,8)] obtain already pieces where
    head: "read_http_response_head (respond session sent) = Inr (of_nat status, hs, already, pieces)" "body = already @ concat pieces"
    by blast
  from assms(7) copy_response_body_framing [of hs content already "concat pieces"] head(2)
  have "copy_response_body hs already (concat pieces) = (Inr (), content)" by simp
  then have relay: "relay_body False (of_nat status) hs already (concat pieces) = (Inr (), content)" by (simp add: relay_body_def)
  obtain r sent_body where w: "h2_relay lib (Inr (), content) = (r, sent_body)" by force
  have "fst (http2_response False (of_nat status) hs) = of_nat status" by (simp add: http2_response_def)
  then have "serve_http_origin lib parse_uri connect respond tag remote request stream
      = Inr \<lparr>an_status = of_nat status, an_headers = snd (http2_response False (of_nat status) hs), an_body = sent_body,
          an_outcome = r, an_to_origin = []\<rparr>"
    using assms(1-3,9) head(1) relay w
    by (simp add: serve_http_origin_def prepare_origin_request_def case_prod_unfold)
  moreover have "serve_quic_http_origin parse_uri connect respond show_error tag remote request stream
      = Inr (quic_response (of_nat status) hs, Inr (), content)"
    using assms(1-3) head(1) relay by (simp add: serve_quic_http_origin_def prepare_origin_request_def)
  ultimately show ?thesis using h2_relay_body [OF assms(10) w] by simp
qed

text \<open>
  The answer to the example request: two bytes in one chunk, with an extension and a trailer; once with a library that gives
  capacity for a byte at a time, and once with one that gives none.
\<close>

theorem origin_response_relayed_witness:
  "\<exists>remote parse_uri connect respond request stream cut a.
     serve_http_origin \<lparr>hl_status = \<lambda>s. 100 \<le> s \<and> s \<le> 999, hl_header = \<lambda>h. one_line (snd h),
        hl_capacity = [Capacity 1 True, CapacityPending, Capacity 1 True], hl_end = True, hl_cut = cut\<rparr> parse_uri connect respond ''t'' remote request stream
      = Inr \<lparr>an_status = 200, an_headers = snd (http2_response False 200 [(''Transfer-Encoding'', ''chunked'')]), an_body = [7, 8],
          an_outcome = Some (Inr ()), an_to_origin = []\<rparr>
     \<and> serve_quic_http_origin parse_uri connect respond (\<lambda>_. []) ''t'' remote request stream
      = Inr (quic_response 200 [(''Transfer-Encoding'', ''chunked'')], Inr (), [7, 8])
     \<and> serve_http_origin \<lparr>hl_status = \<lambda>s. 100 \<le> s \<and> s \<le> 999, hl_header = \<lambda>h. one_line (snd h),
        hl_capacity = [], hl_end = True, hl_cut = cut\<rparr> parse_uri connect respond ''t'' remote request stream = Inr a
     \<and> an_body a = [] \<and> an_outcome a = None"
proof -
  let ?hs = "[(''Transfer-Encoding'', ''chunked'')]" and ?cs = "[('';x=1'', [7, 8])] :: (string \<times> bytes) list"
  let ?body = "put_chunked ?cs [] [''T: 1'']"
  let ?first = "as_bytes (put_head 200 ''OK'' ?hs) @ CRLF @ CRLF"
  let ?parse = "[''http://x/v'' \<mapsto> example_uri]" and ?respond = "\<lambda>(s :: session) (b :: bytes). [?first, ?body]"
  have resolved: "resolve_remote_request ?parse configuration_store example_request = Inr (example_request, None)"
    by (simp add: resolve_remote_request_def configuration_store_def)
  obtain session head where prepared: "prepare_origin ?parse (\<lambda>s tls. True) ''t'' example_request [1, 2, 9] = Inr (session, head @ [1, 2], [9])"
    using prepare_origin_example by blast
  have "show_nat 200 = ''200''" by code_simp
  then have size: "length (put_head 200 ''OK'' ?hs) = 43"
    by (simp add: put_head_def response_lines_def header_line_def crlf_def)
  have "list_all header_wf ?hs" "line_text ''OK''"
    by (auto simp: header_wf_def line_text_def trim_graphic graphic_def intro: is_ascii_is_str)
  then have wf: "head_wf 200 ''OK'' ?hs" using size by (simp add: head_wf_def)
  have chunks: "list_all chunk_ok ?cs" "list_all trailer_ok [''T: 1'']"
    by (auto simp: chunk_ok_def extension_ok_def trailer_ok_def USIZE_MAX_def intro: is_ascii_is_str)
  have "is_chunked ?hs" by code_simp
  then have framing: "origin_framing ?hs [7, 8] ?body" unfolding origin_framing_def using chunks
    by (intro disjI2 conjI exI [of _ ?cs] exI [of _ "[]"] exI [of _ "[''T: 1'']"]) (simp_all add: extension_ok_def)
  have "show_hex (Suc (Suc 0)) = ''2''" by code_simp
  then have "length ?body \<le> 4096" "?body \<noteq> []" by (simp_all add: put_chunked_def put_chunk_def put_trailers_def)
  then have pieces: "\<forall>p \<in> set (?respond session (head @ [1, 2])). p \<noteq> [] \<and> length p \<le> 4096" using size by simp
  have whole: "concat (?respond session (head @ [1, 2])) = as_bytes (put_head 200 ''OK'' ?hs) @ CRLF @ CRLF @ ?body" by simp
  have small: "length (put_head 200 ''OK'' ?hs) + 4 + 4096 \<le> 64 * 1024" using size by simp
  let ?lib = "\<lambda>as. \<lparr>hl_status = \<lambda>s. 100 \<le> s \<and> s \<le> 999, hl_header = \<lambda>h :: string \<times> string. one_line (snd h),
    hl_capacity = as, hl_end = True, hl_cut = \<lambda>bs. [bs]\<rparr>"
  let ?as = "[Capacity 1 True, CapacityPending, Capacity 1 True]"
  have "user_headers ?hs = []" by code_simp
  then have accepted: "h2_send_response (?lib as) (of_nat 200) (snd (http2_response False (of_nat 200) ?hs)) = Inr ()" for as
    by (simp add: h2_send_response_def http2_response_def ensure_def)
  have cut: "concat (hl_cut (?lib as) [7, 8]) = [7, 8]" for as by simp
  have "cr_type example_request \<noteq> WebsocketConnection" by simp
  note served = origin_response_relayed [OF resolved this prepared wf small pieces framing whole accepted cut, where show_error = "\<lambda>_. []"]
  have "h2_gives CapacityPending" "h2_gives (Capacity 1 True)" by (simp_all add: h2_gives_def)
  with served [of ?as] obtain a where a: "serve_http_origin (?lib ?as) ?parse (\<lambda>s tls. True) ?respond ''t'' configuration_store example_request [1, 2, 9] = Inr a"
    "an_status a = 200" "an_headers a = snd (http2_response False 200 ?hs)" "an_to_origin a = []" "an_outcome a = Some (Inr ())" "an_body a = [7, 8]"
    by (auto simp: h2_room_def)
  then have "a = \<lparr>an_status = 200, an_headers = snd (http2_response False 200 ?hs), an_body = [7, 8], an_outcome = Some (Inr ()), an_to_origin = []\<rparr>"
    by simp
  with a(1) served [of "[]"] show ?thesis
    by - (rule exI [of _ configuration_store], rule exI [of _ ?parse], rule exI [of _ "\<lambda>s tls. True"], rule exI [of _ ?respond],
        rule exI [of _ example_request], rule exI [of _ "[1, 2, 9]"], rule exI [of _ "\<lambda>bs. [bs]"], auto)
qed

end
