(* ===== verification/Cf_Supervisor.thy ===== *)
theory Cf_Supervisor
  imports Cf_Discovery Cf_Response
begin

text \<open>
  The inbound of a tunnel and the supervision of its connections (\<open>inbound.rs\<close> of the Cloudflared crate): the options and
  what \<open>start\<close> makes of them, the loop that connects, waits and connects again, and how a connection over HTTP/2
  (\<open>run_local\<close> of \<open>transport.rs\<close>) or QUIC ends. The TLS and QUIC handshakes and the remote procedure calls are libraries: how
  the registration of a connection went is an argument. Times are nanoseconds.
\<close>

section \<open>Options and start\<close>

record cloudflared_options =
  co_token :: string
  co_protocol :: string
  co_edge_ip_version :: u8
  co_region :: string
  co_ha_connections :: nat
  co_post_quantum :: bool
  co_datagram_version :: string
  co_grace_period :: string

text \<open>The options that a configuration leaves out.\<close>

definition default_cloudflared_options :: "string \<Rightarrow> cloudflared_options" where
  "default_cloudflared_options token =
     \<lparr>co_token = token, co_protocol = ''http2'', co_edge_ip_version = 0, co_region = [], co_ha_connections = 4,
      co_post_quantum = False, co_datagram_version = ''v2'', co_grace_period = ''30s''\<rparr>"

datatype cloudflared_error =
    EmptyInboundToken | BadProtocol | BadDatagramVersion | PostQuantumWithoutQuic | BadToken token_error
  | GraceUnit | GraceNumber | RegionWithEndpoint | NoDiscovery dns_error

definition saturating_mul_u64 :: "nat \<Rightarrow> nat \<Rightarrow> nat" where
  "saturating_mul_u64 a b = min (a * b) USIZE_MAX"

text \<open>\<open>parse_grace_period\<close>, in milliseconds.\<close>

definition parse_grace_period :: "string \<Rightarrow> cloudflared_error + nat" where
  "parse_grace_period value =
     and_then (case strip_suffix value ''ms'' of Some v \<Rightarrow> Inr (v, 1) | None \<Rightarrow>
               (case strip_suffix value ''s'' of Some v \<Rightarrow> Inr (v, 1000) | None \<Rightarrow>
               (case strip_suffix value ''m'' of Some v \<Rightarrow> Inr (v, 60000) | None \<Rightarrow>
               (case strip_suffix value ''h'' of Some v \<Rightarrow> Inr (v, 3600000) | None \<Rightarrow> Inl GraceUnit))))
       (\<lambda>(number, multiplier).
     and_then (ok_or GraceNumber (parse_uint 10 USIZE_MAX number)) (\<lambda>number.
     Inr (saturating_mul_u64 number multiplier)))"

text \<open>What a connection thread is given: the arguments of \<open>supervise_connection\<close>.\<close>

record tunnel_plan =
  tp_index :: u8
  tp_protocol :: string
  tp_post_quantum :: bool
  tp_datagram_version :: string
  tp_grace_ms :: nat
  tp_credentials :: credentials
  tp_registration :: connection_options
  tp_edges :: "edge_addr list"

record edge_net =
  en_resolv :: "string option"
  en_exchange :: "socket_addr \<Rightarrow> bytes \<Rightarrow> (bytes \<times> socket_addr) option"
  en_tls :: "(bytes \<Rightarrow> bytes) option"
  en_lookup :: "string \<Rightarrow> u16 \<Rightarrow> socket_addr list option"

definition build_cloudflared :: "cloudflared_options \<Rightarrow> cloudflared_error + cloudflared_options" where
  "build_cloudflared options = and_then (ensure (trim (co_token options) \<noteq> []) EmptyInboundToken) (\<lambda>_. Inr options)"

text \<open>
  \<open>start\<close>: nothing in another stage or when it runs already, otherwise the connections to supervise. \<open>next_id\<close> is the counter
  of DNS queries, \<open>new_uuid\<close> the connector's fresh identifier.
\<close>

definition cloudflared_start ::
    "(bytes \<Rightarrow> (string \<times> string \<times> bytes \<times> string) option) \<Rightarrow> edge_net \<Rightarrow> u16 \<Rightarrow> bytes \<Rightarrow> cloudflared_options
      \<Rightarrow> start_stage \<Rightarrow> bool \<Rightarrow> cloudflared_error + tunnel_plan list" where
  "cloudflared_start json net next_id new_uuid options stage running =
     (if stage \<noteq> Start \<or> running then Inr []
      else
        and_then (ensure (co_protocol options \<in> {''http2'', ''h2'', ''auto'', ''quic''}) BadProtocol) (\<lambda>_.
        and_then (ensure (co_datagram_version options \<in> {[], ''v2'', ''v3''}) BadDatagramVersion) (\<lambda>_.
        and_then (ensure (\<not> (co_post_quantum options \<and> co_protocol options \<in> {''http2'', ''h2''})) PostQuantumWithoutQuic) (\<lambda>_.
        and_then (map_err BadToken (parse_token json (co_token options))) (\<lambda>credentials.
        and_then (parse_grace_period (co_grace_period options)) (\<lambda>grace.
        and_then (ensure (co_region options = [] \<or> endpoint credentials = []) RegionWithEndpoint) (\<lambda>_.
        and_then (map_err NoDiscovery (fst (discover_edges (en_resolv net) (en_exchange net) (en_tls net) (en_lookup net) next_id
            (endpoint credentials) (co_region options) (unat (co_edge_ip_version options))))) (\<lambda>edges.
        let defaults = default_connection_options new_uuid;
            registration = (if co_datagram_version options = ''v3''
              then defaults\<lparr>features := features defaults @ [''support_datagram_v3_2'']\<rparr> else defaults)
        in Inr (map (\<lambda>i. \<lparr>tp_index = of_nat i, tp_protocol = co_protocol options, tp_post_quantum = co_post_quantum options,
              tp_datagram_version = co_datagram_version options, tp_grace_ms = grace, tp_credentials = credentials,
              tp_registration = registration, tp_edges = edges\<rparr>) [0..<max 1 (co_ha_connections options)])))))))))"

section \<open>The supervisor\<close>

record supervisor =
  sv_edge :: nat
  sv_quic :: bool
  sv_retries :: u8

record attempt =
  at_edge :: edge_addr
  at_quic :: bool
  at_registration :: connection_options
  at_datagrams :: bool

definition supervisor_start :: "tunnel_plan \<Rightarrow> supervisor" where
  "supervisor_start plan =
     \<lparr>sv_edge = unat (tp_index plan) mod length (tp_edges plan), sv_quic = (tp_protocol plan \<notin> {''http2'', ''h2''}), sv_retries = 0\<rparr>"

definition supervisor_attempt :: "tunnel_plan \<Rightarrow> supervisor \<Rightarrow> attempt" where
  "supervisor_attempt plan s =
     \<lparr>at_edge = tp_edges plan ! sv_edge s, at_quic = sv_quic s,
      at_registration = (tp_registration plan)\<lparr>num_previous_attempts := sv_retries s\<rparr>,
      at_datagrams = (sv_quic s \<and> tp_datagram_version plan \<in> {''v2'', ''v3''})\<rparr>"

definition NANOS :: nat where "NANOS = 1000000000"

text \<open>\<open>if elapsed >= 30 s { retries = 0 }; retries = retries.saturating_add(1)\<close>.\<close>

definition count_attempt :: "u8 \<Rightarrow> nat \<Rightarrow> u8" where
  "count_attempt retries elapsed =
     (let retries = (if 30 * NANOS \<le> elapsed then 0 else retries) in if retries = 255 then 255 else retries + 1)"

text \<open>
  The body of the loop after an attempt that \<open>ended\<close> when it had lasted \<open>elapsed\<close>: nothing when the supervisor returns, otherwise its next state and
  how long it waits.
\<close>

definition supervisor_next :: "tunnel_plan \<Rightarrow> supervisor \<Rightarrow> tunnel_error + registration_result \<Rightarrow> nat \<Rightarrow> (supervisor \<times> nat) option" where
  "supervisor_next plan s ended elapsed =
     (let error = (case ended of Inr _ \<Rightarrow> OtherTunnelError | Inl e \<Rightarrow> e) in
      if error = PermanentRegistration then None
      else
        let retries = count_attempt (sv_retries s) elapsed;
            edge = (sv_edge s + 1) mod length (tp_edges plan);
            fallback = (tp_protocol plan = ''auto'' \<and> \<not> tp_post_quantum plan \<and> sv_quic s \<and> 3 \<le> retries);
            quic = (sv_quic s \<and> \<not> fallback);
            retries = (if fallback then 0 else retries);
            delay = (case error of RetryableRegistration d \<Rightarrow> if d \<noteq> 0 then Some d else None | _ \<Rightarrow> None);
            backoff = (case delay of Some d \<Rightarrow> d | None \<Rightarrow> 2 ^ unat (min retries 7) * NANOS)
        in Some (\<lparr>sv_edge = edge, sv_quic = quic, sv_retries = retries\<rparr>, backoff))"

text \<open>The loop over attempts that ended one after the other; \<open>None\<close> when the supervisor has returned.\<close>

fun supervisor_run :: "tunnel_plan \<Rightarrow> supervisor \<Rightarrow> ((tunnel_error + registration_result) \<times> nat) list \<Rightarrow> supervisor option" where
  "supervisor_run plan s [] = Some s"
| "supervisor_run plan s ((ended, elapsed) # rest) =
     (case supervisor_next plan s ended elapsed of None \<Rightarrow> None | Some (s', _) \<Rightarrow> supervisor_run plan s' rest)"

section \<open>How a connection ends\<close>

text \<open>The registration, in \<open>handle_control_stream\<close> and in \<open>register_connection\<close>.\<close>

definition control_registration :: "registration_response \<Rightarrow> tunnel_error + registration_result" where
  "control_registration response =
     and_then (read_registration_result response) (\<lambda>result.
     and_then (ensure (tunnel_is_remotely_managed result) OtherTunnelError) (\<lambda>_. Inr result))"

text \<open>
  The loop of \<open>run_local\<close> over HTTP/2. A stream is served by a task of its own, whose error is only logged; when the one of
  the control stream registers, the result is kept. \<open>None\<close> while the loop still runs.
\<close>

datatype h2_event = H2Control registration_response | H2Request | H2AcceptError | H2Closed | H2Shutdown

fun http2_run :: "registration_result option \<Rightarrow> h2_event list \<Rightarrow> (tunnel_error + registration_result) option" where
  "http2_run registered [] = None"
| "http2_run registered (H2Control response # events) =
     http2_run (case control_registration response of Inr result \<Rightarrow> Some result | Inl _ \<Rightarrow> registered) events"
| "http2_run registered (H2Request # events) = http2_run registered events"
| "http2_run registered (H2AcceptError # events) = Some (Inl OtherTunnelError)"
| "http2_run registered (H2Closed # events) = Some (ok_or OtherTunnelError registered)"
| "http2_run registered (H2Shutdown # events) = Some (ok_or OtherTunnelError registered)"

text \<open>\<open>run_local\<close> over QUIC registers before anything else; then it runs until an error or the shutdown.\<close>

datatype quic_event = QuicHandled | QuicFailed | QuicShutdown

fun quic_serve :: "registration_result \<Rightarrow> quic_event list \<Rightarrow> (tunnel_error + registration_result) option" where
  "quic_serve result [] = None"
| "quic_serve result (QuicHandled # events) = quic_serve result events"
| "quic_serve result (QuicFailed # events) = Some (Inl OtherTunnelError)"
| "quic_serve result (QuicShutdown # events) = Some (Inr result)"

definition quic_run :: "registration_response \<Rightarrow> quic_event list \<Rightarrow> (tunnel_error + registration_result) option" where
  "quic_run response events =
     (case control_registration response of Inl e \<Rightarrow> Some (Inl e) | Inr result \<Rightarrow> quic_serve result events)"

section \<open>Attempts\<close>

abbreviation lasted :: "(tunnel_error + registration_result) \<times> nat \<Rightarrow> bool" where
  "lasted f \<equiv> 30 * NANOS \<le> snd f"

text \<open>Three attempts in a row of which the last two were short.\<close>

definition gave_up_quic :: "((tunnel_error + registration_result) \<times> nat) list \<Rightarrow> bool" where
  "gave_up_quic fs \<longleftrightarrow> (\<exists>before a b c after. fs = before @ [a, b, c] @ after \<and> \<not> lasted b \<and> \<not> lasted c)"

definition may_fall_back :: "tunnel_plan \<Rightarrow> bool" where
  "may_fall_back plan \<longleftrightarrow> tp_protocol plan = ''auto'' \<and> \<not> tp_post_quantum plan"

lemma supervisor_run_snoc:
  "supervisor_run plan s (fs @ [f]) =
    (case supervisor_run plan s fs of None \<Rightarrow> None | Some t \<Rightarrow> map_option fst (supervisor_next plan t (fst f) (snd f)))"
  by (cases f, induction plan s fs rule: supervisor_run.induct) (auto split: option.splits prod.splits)

lemma gave_up_quic_snoc:
  "gave_up_quic (fs @ [f]) \<longleftrightarrow> gave_up_quic fs \<or> (2 \<le> length fs \<and> \<not> lasted (last fs) \<and> \<not> lasted f)"
proof
  assume "gave_up_quic (fs @ [f])"
  then obtain before a b c after where *: "fs @ [f] = before @ [a, b, c] @ after" "\<not> lasted b" "\<not> lasted c"
    by (auto simp: gave_up_quic_def)
  show "gave_up_quic fs \<or> (2 \<le> length fs \<and> \<not> lasted (last fs) \<and> \<not> lasted f)"
  proof (cases after rule: rev_cases)
    case Nil
    with * have "fs = before @ [a, b]" "f = c" by simp_all
    with * show ?thesis by simp
  next
    case (snoc xs x)
    with * have "fs = before @ [a, b, c] @ xs" by simp
    with * show ?thesis unfolding gave_up_quic_def by blast
  qed
next
  assume "gave_up_quic fs \<or> (2 \<le> length fs \<and> \<not> lasted (last fs) \<and> \<not> lasted f)"
  then show "gave_up_quic (fs @ [f])"
  proof
    assume "gave_up_quic fs"
    then obtain before a b c after where *: "fs = before @ [a, b, c] @ after" "\<not> lasted b" "\<not> lasted c" by (auto simp: gave_up_quic_def)
    then have "fs @ [f] = before @ [a, b, c] @ (after @ [f])" by simp
    with * show ?thesis unfolding gave_up_quic_def by blast
  next
    assume *: "2 \<le> length fs \<and> \<not> lasted (last fs) \<and> \<not> lasted f"
    then obtain ys b where ys: "fs = ys @ [b]" by (cases fs rule: rev_cases) auto
    with * obtain zs a where "ys = zs @ [a]" by (cases ys rule: rev_cases) auto
    with ys have "fs @ [f] = zs @ [a, b, f] @ []" by simp
    with * ys show ?thesis unfolding gave_up_quic_def by (metis last_snoc)
  qed
qed

text \<open>The counter while the supervisor may still fall back.\<close>

definition quic_retries :: "((tunnel_error + registration_result) \<times> nat) list \<Rightarrow> u8" where
  "quic_retries fs = (if fs = [] then 0 else if 2 \<le> length fs \<and> \<not> lasted (last fs) then 2 else 1)"

lemma supervisor_next_fields:
  assumes "ended \<noteq> Inl PermanentRegistration"
  shows "\<exists>t b. supervisor_next plan s ended elapsed = Some (t, b) \<and> sv_edge t = (sv_edge s + 1) mod length (tp_edges plan)
    \<and> (sv_quic t \<longleftrightarrow> sv_quic s \<and> \<not> (may_fall_back plan \<and> 3 \<le> count_attempt (sv_retries s) elapsed))
    \<and> (sv_quic t \<longrightarrow> sv_retries t = count_attempt (sv_retries s) elapsed)"
  using assms by (cases ended) (simp_all add: supervisor_next_def Let_def may_fall_back_def)

text \<open>Unless the edge asks for a delay, the wait is between one second and 128.\<close>

lemma supervisor_backoff:
  assumes "supervisor_next plan s ended elapsed = Some (t, b)" and "\<And>d. ended = Inl (RetryableRegistration d) \<Longrightarrow> d = 0"
  shows "NANOS \<le> b \<and> b \<le> 128 * NANOS"
proof -
  have "unat (min r 7 :: u8) \<le> 7" for r by (simp add: min_def word_le_nat_alt)
  then have "2 ^ unat (min r 7 :: u8) \<le> (2 ^ 7 :: nat)" for r by (rule power_increasing) simp
  then have "NANOS \<le> 2 ^ unat (min r 7 :: u8) * NANOS \<and> 2 ^ unat (min r 7 :: u8) * NANOS \<le> 128 * NANOS" for r by simp
  with assms show ?thesis
    by (cases ended; cases "projl ended") (auto simp: supervisor_next_def Let_def simp del: power_increasing_iff split: if_splits)
qed

lemma supervisor_run_state:
  assumes "\<forall>f \<in> set fs. fst f \<noteq> Inl PermanentRegistration"
  shows "\<exists>s. supervisor_run plan (supervisor_start plan) fs = Some s
    \<and> sv_edge s = (unat (tp_index plan) + length fs) mod length (tp_edges plan)
    \<and> (sv_quic s \<longleftrightarrow> sv_quic (supervisor_start plan) \<and> \<not> (may_fall_back plan \<and> gave_up_quic fs))
    \<and> (may_fall_back plan \<and> sv_quic s \<longrightarrow> sv_retries s = quic_retries fs)"
  using assms
proof (induction fs rule: rev_induct)
  case Nil
  show ?case by (simp add: supervisor_start_def gave_up_quic_def quic_retries_def)
next
  case (snoc f fs)
  then obtain s where s: "supervisor_run plan (supervisor_start plan) fs = Some s"
    "sv_edge s = (unat (tp_index plan) + length fs) mod length (tp_edges plan)"
    "sv_quic s \<longleftrightarrow> sv_quic (supervisor_start plan) \<and> \<not> (may_fall_back plan \<and> gave_up_quic fs)"
    "may_fall_back plan \<and> sv_quic s \<longrightarrow> sv_retries s = quic_retries fs" by auto
  from snoc.prems have "fst f \<noteq> Inl PermanentRegistration" by simp
  then obtain t b where t: "supervisor_next plan s (fst f) (snd f) = Some (t, b)" "sv_edge t = (sv_edge s + 1) mod length (tp_edges plan)"
    "sv_quic t \<longleftrightarrow> sv_quic s \<and> \<not> (may_fall_back plan \<and> 3 \<le> count_attempt (sv_retries s) (snd f))"
    "sv_quic t \<Longrightarrow> sv_retries t = count_attempt (sv_retries s) (snd f)"
    using supervisor_next_fields [of "fst f" plan s "snd f"] by blast
  have run: "supervisor_run plan (supervisor_start plan) (fs @ [f]) = Some t" by (simp add: supervisor_run_snoc s t)
  have edge: "sv_edge t = (unat (tp_index plan) + length (fs @ [f])) mod length (tp_edges plan)"
    by (simp add: t(2) s(2) mod_Suc_eq)
  have count: "count_attempt (sv_retries s) (snd f) =
      (if \<not> lasted f \<and> 2 \<le> length fs \<and> \<not> lasted (last fs) then 3 else quic_retries (fs @ [f]))"
    if "may_fall_back plan" "sv_quic s"
    using s(4) that by (cases fs) (auto simp: quic_retries_def count_attempt_def)
  show ?case
  proof (cases "may_fall_back plan \<and> sv_quic s")
    case True
    have "\<not> 3 \<le> quic_retries (fs @ [f])" by (auto simp: quic_retries_def word_le_nat_alt)
    with True t(3,4) s(3) count gave_up_quic_snoc [of fs f] run edge show ?thesis by (intro exI [of _ t]) (auto split: if_splits)
  next
    case False
    with t(3) s(3) run edge gave_up_quic_snoc [of fs f] show ?thesis by (intro exI [of _ t]) auto
  qed
qed

section \<open>Properties\<close>

lemma discover_edges_some: "fst (discover_edges resolv exchange tls lookup_host next_id ep region v) = Inr edges \<Longrightarrow> edges \<noteq> []"
  by (auto simp: discover_edges_def Let_def ensure_def split: prod.splits sum.splits if_splits)

lemma cloudflared_start_plans:
  assumes "cloudflared_start json net next_id new_uuid options stage running = Inr plans" and "plan \<in> set plans"
  shows "tp_edges plan \<noteq> []" and "tp_protocol plan \<in> {''http2'', ''h2'', ''auto'', ''quic''}"
  using assms by (auto simp: cloudflared_start_def Let_def ensure_def dest!: discover_edges_some split: if_splits sum.splits)

text \<open>C31: Which edge and which transport a connection tries next. After any attempts that ended without a permanent refusal, the supervisor
  tries again: with the edge that follows in the list, so that every edge gets its turn, and over QUIC unless the
  configuration asks for HTTP/2 or, with \<open>auto\<close> and without \<open>post_quantum\<close>, three attempts in a row have failed of which the
  last two lasted less than 30 seconds; from then on over HTTP/2.
\<close>

theorem supervisor_attempts:
  assumes "cloudflared_start json net next_id new_uuid options stage running = Inr plans" and "plan \<in> set plans"
    and "\<forall>f \<in> set fs. fst f \<noteq> Inl PermanentRegistration"
  shows "\<exists>s. supervisor_run plan (supervisor_start plan) fs = Some s
    \<and> at_edge (supervisor_attempt plan s) = tp_edges plan ! ((unat (tp_index plan) + length fs) mod length (tp_edges plan))
    \<and> at_edge (supervisor_attempt plan s) \<in> set (tp_edges plan)
    \<and> (at_quic (supervisor_attempt plan s) \<longleftrightarrow>
        tp_protocol plan = ''quic'' \<or> tp_protocol plan = ''auto'' \<and> (tp_post_quantum plan \<or> \<not> gave_up_quic fs))"
proof -
  note plan = cloudflared_start_plans [OF assms(1,2)]
  from supervisor_run_state [OF assms(3), of plan] obtain s where s: "supervisor_run plan (supervisor_start plan) fs = Some s"
    "sv_edge s = (unat (tp_index plan) + length fs) mod length (tp_edges plan)"
    "sv_quic s \<longleftrightarrow> sv_quic (supervisor_start plan) \<and> \<not> (may_fall_back plan \<and> gave_up_quic fs)" by blast
  have "sv_edge s < length (tp_edges plan)" using plan(1) s(2) by simp
  then have "at_edge (supervisor_attempt plan s) \<in> set (tp_edges plan)" by (simp add: supervisor_attempt_def)
  moreover have "at_quic (supervisor_attempt plan s) \<longleftrightarrow>
      tp_protocol plan = ''quic'' \<or> tp_protocol plan = ''auto'' \<and> (tp_post_quantum plan \<or> \<not> gave_up_quic fs)"
    using plan(2) by (auto simp: supervisor_attempt_def s(3) supervisor_start_def may_fall_back_def)
  ultimately show ?thesis using s(1,2) by (intro exI [of _ s]) (simp add: supervisor_attempt_def)
qed

text \<open>One edge and four connections over QUIC or HTTP/2; after three short failures the second one tries HTTP/2.\<close>

theorem supervisor_attempts_witness:
  "\<exists>json net options plans plan s. cloudflared_start json net 7 [] options Start False = Inr plans \<and> plan \<in> set plans
    \<and> supervisor_run plan (supervisor_start plan) (replicate 3 (Inl OtherTunnelError, 0)) = Some s
    \<and> at_edge (supervisor_attempt plan s) = \<lparr>ea_address = SockV4 1 3, ea_ip_version = 4\<rparr> \<and> \<not> at_quic (supervisor_attempt plan s)"
proof -
  let ?json = "\<lambda>_ :: bytes. Some (''a'', ''AQI='', [7 :: u8], [] :: string)"
  let ?net = "\<lparr>en_resolv = None, en_exchange = \<lambda>_ _. None, en_tls = Some (\<lambda>_. [0, 32, 0, 7, 0x81, 0x80, 0, 0, 0, 1, 0, 0, 0, 0, 0, 0, 33, 0, 1,
      0, 0, 0, 9, 0, 9, 0, 1, 0, 2, 0, 3, 1, 101, 0]), en_lookup = \<lambda>_ p. Some [SockV6 1 p 0 0, SockV4 1 p]\<rparr>"
  let ?options = "(default_cloudflared_options ''AQI='')\<lparr>co_protocol := ''auto'', co_edge_ip_version := 4\<rparr>"
  let ?fs = "replicate 3 (Inl OtherTunnelError, 0) :: ((tunnel_error + registration_result) \<times> nat) list"
  have encoded: "base64_encode [1, 2] = ''AQI=''" by code_simp
  have "trim ''AQI='' = ''AQI=''" by (rule trim_graphic) (simp add: graphic_def)
  with encoded token_base64_roundtrip [of "[1, 2]"] have token: "parse_token ?json ''AQI=''
      = Inr \<lparr>account_tag = ''a'', tunnel_secret = [1, 2], tunnel_id = [7], endpoint = []\<rparr>"
    by (simp add: parse_token_def ensure_def)
  have grace: "parse_grace_period ''30s'' = Inr 30000"
    by (simp add: parse_grace_period_def strip_suffix_def suffix_def parse_uint_def to_digit_def saturating_mul_u64_def USIZE_MAX_def)
  have "\<exists>plans. cloudflared_start ?json ?net 7 [] ?options Start False = Inr plans \<and> length plans = 4
      \<and> (\<forall>plan \<in> set plans. tp_edges plan = [\<lparr>ea_address = SockV4 1 3, ea_ip_version = 4\<rparr>] \<and> tp_protocol plan = ''auto'' \<and> \<not> tp_post_quantum plan)"
    by (simp add: cloudflared_start_def default_cloudflared_options_def token grace ensure_def discover_edges_example)
  then obtain plans where start: "cloudflared_start ?json ?net 7 [] ?options Start False = Inr plans" and "length plans = 4"
    and plans: "\<forall>plan \<in> set plans. tp_edges plan = [\<lparr>ea_address = SockV4 1 3, ea_ip_version = 4\<rparr>] \<and> tp_protocol plan = ''auto'' \<and> \<not> tp_post_quantum plan"
    by blast
  then have plan: "plans ! 1 \<in> set plans" by simp
  have refused: "\<forall>f \<in> set ?fs. fst f \<noteq> Inl PermanentRegistration" by simp
  have "gave_up_quic ?fs" unfolding gave_up_quic_def
    by (intro exI [of _ "[]"] exI [of _ "(Inl OtherTunnelError, 0)"]) (simp add: numeral_3_eq_3 NANOS_def)
  with supervisor_attempts [OF start plan refused] plans plan obtain s where
    "supervisor_run (plans ! 1) (supervisor_start (plans ! 1)) ?fs = Some s" "\<not> at_quic (supervisor_attempt (plans ! 1) s)"
    "at_edge (supervisor_attempt (plans ! 1) s) = \<lparr>ea_address = SockV4 1 3, ea_ip_version = 4\<rparr>" by auto
  with start plan show ?thesis by blast
qed

text \<open>C38: A permanent refusal does not stop a tunnel over HTTP/2. When the edge refuses the registration for good, a connection over QUIC ends with
  that error and its supervisor returns; over HTTP/2 the error stays in the task of the control stream, the
  connection ends, whatever follows, with another error or none, and the supervisor connects again.
\<close>

theorem permanent_refusal_over_http2:
  assumes "http2_run None (H2Control (RegistrationError cause False delay) # events) = Some ended"
  shows "quic_run (RegistrationError cause False delay) events' = Some (Inl PermanentRegistration)
    \<and> supervisor_next plan s (Inl PermanentRegistration) elapsed = None
    \<and> ended \<noteq> Inl PermanentRegistration \<and> supervisor_next plan s ended elapsed \<noteq> None"
proof -
  have lost: "ok_or OtherTunnelError r \<noteq> Inl PermanentRegistration" for r :: "registration_result option" by (cases r) simp_all
  have other: "http2_run registered es = Some e \<Longrightarrow> e \<noteq> Inl PermanentRegistration" for registered es e
    by (induction registered es rule: http2_run.induct) (auto simp: lost split: option.splits)
  from other [OF assms] supervisor_next_fields [of ended plan s elapsed] show ?thesis
    by (auto simp: quic_run_def control_registration_def read_registration_result_def supervisor_next_def)
qed

theorem permanent_refusal_over_http2_witness:
  "http2_run None [H2Control (RegistrationError ''no'' False 0), H2Closed] = Some (Inl OtherTunnelError)
    \<and> (\<forall>plan s. supervisor_next plan s (Inl OtherTunnelError) 0 \<noteq> None)"
proof -
  have run: "http2_run None (H2Control (RegistrationError ''no'' False 0) # [H2Closed]) = Some (Inl OtherTunnelError)"
    by (simp add: control_registration_def read_registration_result_def)
  from permanent_refusal_over_http2 [OF run, of "[]" _ _ 0] run show ?thesis by simp
qed

end
