(* ===== verification/Cf_Datagram.thy ===== *)
theory Cf_Datagram
  imports Cf_Supervisor
begin

text \<open>
  UDP in a tunnel over QUIC (\<open>quic.rs\<close> of the Cloudflared crate): the registration of flows, their sessions, the datagrams to
  and from the flows for the versions 3 and 2, and the removal of idle sessions. The queue of a flow and the one to the edge are
  channels of 256 messages; where the code waits for room in one, nothing more happens. A mutex of tokio that is locked with \<open>blocking_lock\<close>
  panics inside of a runtime, as its documentation says.
\<close>

section \<open>State\<close>

definition DATAGRAM_V3_REGISTRATION :: u8 where "DATAGRAM_V3_REGISTRATION = 0"
definition DATAGRAM_V3_PAYLOAD :: u8 where "DATAGRAM_V3_PAYLOAD = 1"
definition DATAGRAM_V3_REGISTRATION_RESPONSE :: u8 where "DATAGRAM_V3_REGISTRATION_RESPONSE = 3"
definition DATAGRAM_V3_FLAG_IPV6 :: u8 where "DATAGRAM_V3_FLAG_IPV6 = 0x01"
definition DATAGRAM_V3_FLAG_BUNDLE :: u8 where "DATAGRAM_V3_FLAG_BUNDLE = 0x04"
definition DATAGRAM_V3_REQUEST_ID_LENGTH :: nat where "DATAGRAM_V3_REQUEST_ID_LENGTH = 16"
definition DATAGRAM_V3_MAX_PAYLOAD :: nat where "DATAGRAM_V3_MAX_PAYLOAD = 1280"
definition DEFAULT_DATAGRAM_IDLE :: nat where "DEFAULT_DATAGRAM_IDLE = 210 * NANOS"

definition DATAGRAM_CHANNEL :: nat where "DATAGRAM_CHANNEL = 256"

lemmas datagram_consts = DATAGRAM_V3_REGISTRATION_def DATAGRAM_V3_PAYLOAD_def DATAGRAM_V3_REGISTRATION_RESPONSE_def
  DATAGRAM_V3_FLAG_IPV6_def DATAGRAM_V3_FLAG_BUNDLE_def DATAGRAM_V3_REQUEST_ID_LENGTH_def DATAGRAM_V3_MAX_PAYLOAD_def

datatype dg_error =
    RegistrationTooShort | Ipv6RegistrationTooShort | Ipv4RegistrationTooShort | RegistrationAddress
  | EmptyV2Datagram | LockPanic | NoUdpHandler

text \<open>
  A flow is the \<open>QuicPacketConnection\<close> that the handler was given, with the queue of its channel; it is alive until the handler returns.
  A session is the index of its flow, which the code reaches through the sender and the shared clock, and the idle timeout.
\<close>

record udp_flow =
  uf_id :: bytes
  uf_destination :: address
  uf_incoming :: "bytes list"
  uf_alive :: bool
  uf_last :: nat

record datagrams =
  dg_flows :: "udp_flow list"
  dg_sessions :: "bytes \<rightharpoonup> (nat \<times> nat)"
  dg_outbound :: "(bytes \<times> bytes) list"

definition no_datagrams :: datagrams where
  "no_datagrams = \<lparr>dg_flows = [], dg_sessions = Map.empty, dg_outbound = []\<rparr>"

definition open_flow :: "nat \<Rightarrow> bytes \<Rightarrow> address \<Rightarrow> nat \<Rightarrow> datagrams \<Rightarrow> datagrams" where
  "open_flow now flow_id destination idle st =
     st\<lparr>dg_flows := dg_flows st @ [\<lparr>uf_id = flow_id, uf_destination = destination, uf_incoming = [], uf_alive = True, uf_last = now\<rparr>],
        dg_sessions := (dg_sessions st)(flow_id \<mapsto> (length (dg_flows st), idle))\<rparr>"

text \<open>\<open>mark_activity\<close> and the send to the flow of a session, whose error is ignored; \<open>None\<close> while the channel is full.\<close>

definition session_send :: "nat \<Rightarrow> nat \<Rightarrow> bytes \<Rightarrow> datagrams \<Rightarrow> datagrams option" where
  "session_send now i payload st =
     (let f = (dg_flows st ! i)\<lparr>uf_last := now\<rparr> in
      if \<not> uf_alive f then Some (st\<lparr>dg_flows := (dg_flows st)[i := f]\<rparr>)
      else if length (uf_incoming f) < DATAGRAM_CHANNEL
      then Some (st\<lparr>dg_flows := (dg_flows st)[i := f\<lparr>uf_incoming := uf_incoming f @ [payload]\<rparr>]\<rparr>)
      else None)"

section \<open>Version 3\<close>

definition parse_registration :: "bytes \<Rightarrow> dg_error + (bytes \<times> address \<times> bytes \<times> nat)" where
  "parse_registration d =
     and_then (ensure (5 + DATAGRAM_V3_REQUEST_ID_LENGTH \<le> length d) RegistrationTooShort) (\<lambda>_.
     let flags = d ! 0;
         p = (from_be (take 2 (drop 1 d)) :: u16);
         idle_seconds = unat (from_be (take 2 (drop 3 d)) :: u16);
         idle_timeout = (if idle_seconds = 0 then DEFAULT_DATAGRAM_IDLE else idle_seconds * NANOS);
         request_id = take DATAGRAM_V3_REQUEST_ID_LENGTH (drop 5 d);
         offset = 5 + DATAGRAM_V3_REQUEST_ID_LENGTH in
     and_then (if and flags DATAGRAM_V3_FLAG_IPV6 \<noteq> 0
       then and_then (ensure (offset + 16 \<le> length d) Ipv6RegistrationTooShort) (\<lambda>_. Inr (IpV6 (from_be (take 16 (drop offset d))), 16))
       else and_then (ensure (offset + 4 \<le> length d) Ipv4RegistrationTooShort) (\<lambda>_. Inr (IpV4 (from_be (take 4 (drop offset d))), 4)))
       (\<lambda>(ip, address_len).
     and_then (map_err (\<lambda>_. RegistrationAddress) (new_address (show_ip ip) p)) (\<lambda>destination.
     let payload = (if and flags DATAGRAM_V3_FLAG_BUNDLE \<noteq> 0 then drop (offset + address_len) d else [])
     in Inr (request_id, destination, payload, idle_timeout))))"

definition registration_reply :: "bytes \<Rightarrow> u8 \<Rightarrow> bytes" where
  "registration_reply request_id response = [DATAGRAM_V3_REGISTRATION_RESPONSE, response] @ request_id @ be_bytes (0 :: u16)"

text \<open>What becomes of a datagram: it is handled, with replies to the edge; the loop waits; or the connection ends.\<close>

datatype dg_outcome = Handled "bytes list" datagrams | Waiting | Ended dg_error

definition handle_datagram :: "bool \<Rightarrow> nat \<Rightarrow> bytes \<Rightarrow> datagrams \<Rightarrow> dg_outcome" where
  "handle_datagram handler now d st =
     (case d of
        [] \<Rightarrow> Handled [] st
      | kind # body \<Rightarrow>
          if kind = DATAGRAM_V3_REGISTRATION then
            (case parse_registration body of
               Inl e \<Rightarrow> Ended e
             | Inr (request_id, destination, payload, idle_timeout) \<Rightarrow>
                 if \<not> handler then Handled [registration_reply request_id 2] st
                 else
                   let st = (if dg_sessions st request_id = None then open_flow now request_id destination idle_timeout st else st) in
                   if payload = [] then Handled [registration_reply request_id 0] st
                   else case dg_sessions st request_id of
                     None \<Rightarrow> Handled [registration_reply request_id 0] st
                   | Some (i, _) \<Rightarrow>
                       (case session_send now i payload st of
                          Some st \<Rightarrow> Handled [registration_reply request_id 0] st | None \<Rightarrow> Waiting))
          else if kind = DATAGRAM_V3_PAYLOAD then
            (if length d < 1 + DATAGRAM_V3_REQUEST_ID_LENGTH \<or> 1 + DATAGRAM_V3_REQUEST_ID_LENGTH + DATAGRAM_V3_MAX_PAYLOAD < length d
             then Handled [] st
             else case dg_sessions st (take DATAGRAM_V3_REQUEST_ID_LENGTH body) of
               None \<Rightarrow> Handled [] st
             | Some (i, _) \<Rightarrow>
                 (case session_send now i (drop DATAGRAM_V3_REQUEST_ID_LENGTH body) st of
                    Some st \<Rightarrow> Handled [] st | None \<Rightarrow> Waiting))
          else Handled [] st)"

definition is_expired :: "datagrams \<Rightarrow> nat \<Rightarrow> nat \<times> nat \<Rightarrow> bool" where
  "is_expired st now = (\<lambda>(i, timeout). timeout \<le> now - uf_last (dg_flows st ! i))"

definition cleanup_sessions :: "nat \<Rightarrow> datagrams \<Rightarrow> datagrams" where
  "cleanup_sessions now st =
     st\<lparr>dg_sessions := (\<lambda>k. case dg_sessions st k of
          Some session \<Rightarrow> if is_expired st now session then None else Some session | None \<Rightarrow> None)\<rparr>"

section \<open>Flows\<close>

text \<open>\<open>QuicPacketConnection::recv\<close> and \<open>send\<close>; \<open>None\<close> while they wait.\<close>

definition flow_recv :: "nat \<Rightarrow> nat \<Rightarrow> datagrams \<Rightarrow> (bytes \<times> datagrams) option" where
  "flow_recv now i st =
     (if i < length (dg_flows st) \<and> uf_alive (dg_flows st ! i) then
        (case uf_incoming (dg_flows st ! i) of
           [] \<Rightarrow> None
         | payload # queue \<Rightarrow>
             Some (payload, st\<lparr>dg_flows := (dg_flows st)[i := (dg_flows st ! i)\<lparr>uf_incoming := queue, uf_last := now\<rparr>]\<rparr>))
      else None)"

definition flow_send :: "nat \<Rightarrow> nat \<Rightarrow> bytes \<Rightarrow> datagrams \<Rightarrow> datagrams option" where
  "flow_send now i payload st =
     (if i < length (dg_flows st) \<and> uf_alive (dg_flows st ! i) \<and> length (dg_outbound st) < DATAGRAM_CHANNEL
      then Some (st\<lparr>dg_flows := (dg_flows st)[i := (dg_flows st ! i)\<lparr>uf_last := now\<rparr>],
        dg_outbound := dg_outbound st @ [(uf_id (dg_flows st ! i), payload)]\<rparr>)
      else None)"

text \<open>The branch of the loop that takes a message of a flow and sends it, for the two versions.\<close>

definition forward_outbound :: "bool \<Rightarrow> datagrams \<Rightarrow> (bytes list \<times> datagrams) option" where
  "forward_outbound v3 st =
     (case dg_outbound st of
        [] \<Rightarrow> None
      | (request_id, payload) # queue \<Rightarrow>
          Some (if DATAGRAM_V3_MAX_PAYLOAD < length payload then []
                else if v3 then [DATAGRAM_V3_PAYLOAD # request_id @ payload]
                else [payload @ request_id @ [0]],
            st\<lparr>dg_outbound := queue\<rparr>))"

section \<open>Version 2\<close>

definition blocking_lock :: "bool \<Rightarrow> dg_error + unit" where
  "blocking_lock in_runtime = ensure (\<not> in_runtime) LockPanic"

text \<open>\<open>V2State::register\<close>, \<open>deliver\<close> and \<open>unregister_sync\<close>; \<open>V2State::cleanup\<close> does what \<open>cleanup_sessions\<close> does.\<close>

definition v2_register :: "bool \<Rightarrow> bool \<Rightarrow> nat \<Rightarrow> bytes \<Rightarrow> address \<Rightarrow> nat \<Rightarrow> datagrams \<Rightarrow> dg_error + datagrams" where
  "v2_register in_runtime handler now request_id destination idle_timeout st =
     and_then (blocking_lock in_runtime) (\<lambda>_.
     if dg_sessions st request_id \<noteq> None then Inr st
     else and_then (ensure handler NoUdpHandler) (\<lambda>_. Inr (open_flow now request_id destination idle_timeout st)))"

definition v2_deliver :: "nat \<Rightarrow> bytes \<Rightarrow> bytes \<Rightarrow> datagrams \<Rightarrow> dg_outcome" where
  "v2_deliver now request_id payload st =
     (case dg_sessions st request_id of
        None \<Rightarrow> Handled [] st
      | Some (i, _) \<Rightarrow> (case session_send now i payload st of Some st \<Rightarrow> Handled [] st | None \<Rightarrow> Waiting))"

definition v2_unregister :: "bool \<Rightarrow> bytes \<Rightarrow> datagrams \<Rightarrow> dg_error + datagrams" where
  "v2_unregister in_runtime request_id st =
     and_then (blocking_lock in_runtime) (\<lambda>_. Inr (st\<lparr>dg_sessions := (dg_sessions st)(request_id := None)\<rparr>))"

text \<open>\<open>handle_v2_datagram\<close>; the loop only calls it for version 2, which has a state.\<close>

definition handle_v2_datagram :: "nat \<Rightarrow> bytes \<Rightarrow> datagrams \<Rightarrow> dg_outcome" where
  "handle_v2_datagram now d st =
     (if d = [] then Ended EmptyV2Datagram
      else if DATAGRAM_V3_MAX_PAYLOAD + DATAGRAM_V3_REQUEST_ID_LENGTH + 1 < length d then Handled [] st
      else if last d \<noteq> 0 \<or> length d < 17 then Handled [] st
      else let id_start = length d - 17 in v2_deliver now (take 16 (drop id_start d)) (take id_start d) st)"

text \<open>
  The calls \<open>registerUdpSession\<close> and \<open>unregisterUdpSession\<close> of \<open>CloudflaredRpcServer\<close>, with what the readers of Cap'n Proto
  return: \<open>Inl None\<close> fails the call, \<open>Inl (Some e)\<close> is the text in its result or the panic.
\<close>

record udp_params =
  up_session_id :: "bytes option"
  up_dst_ip :: "bytes option"
  up_dst_port :: u16
  up_idle_hint :: int

definition register_udp_session :: "bool \<Rightarrow> bool \<Rightarrow> nat \<Rightarrow> udp_params \<Rightarrow> datagrams \<Rightarrow> dg_error option + datagrams" where
  "register_udp_session in_runtime handler now params st =
     and_then (ok_or None (Option.bind (up_session_id params) (\<lambda>v. if length v = 16 then Some v else None))) (\<lambda>request_id.
     and_then (ok_or None (Option.bind (up_dst_ip params) (\<lambda>ip.
         if length ip = 4 then Some (IpV4 (from_be ip)) else if length ip = 16 then Some (IpV6 (from_be ip)) else None))) (\<lambda>ip.
     let idle_timeout = (if up_idle_hint params > 0 then nat (up_idle_hint params) else DEFAULT_DATAGRAM_IDLE) in
     map_err Some (v2_register in_runtime handler now request_id \<lparr>host = show_ip ip, port = up_dst_port params\<rparr> idle_timeout st)))"

definition unregister_udp_session :: "bool \<Rightarrow> udp_params \<Rightarrow> datagrams \<Rightarrow> dg_error option + datagrams" where
  "unregister_udp_session in_runtime params st =
     (case up_session_id params of
        Some v \<Rightarrow> if length v = 16 then map_err Some (v2_unregister in_runtime v st) else Inr st
      | None \<Rightarrow> Inr st)"

section \<open>The loop\<close>

text \<open>
  The loop of \<open>run_local\<close> for version 3 and the flows it serves, one event after the other, each with its time. A run stops at an event
  that cannot happen, that waits, or that ends the connection.
\<close>

datatype dg_event =
    DgDatagram bytes | DgCleanup | DgForward | DgRecv nat | DgSend nat bytes | DgReturn nat

datatype dg_output = ToEdge bytes | ToFlow nat bytes

definition dg_step :: "bool \<Rightarrow> nat \<Rightarrow> dg_event \<Rightarrow> datagrams \<Rightarrow> (dg_output list \<times> datagrams) option" where
  "dg_step handler now event st =
     (case event of
        DgDatagram d \<Rightarrow>
          (case handle_datagram handler now d st of Handled replies st \<Rightarrow> Some (map ToEdge replies, st) | _ \<Rightarrow> None)
      | DgCleanup \<Rightarrow> Some ([], cleanup_sessions now st)
      | DgForward \<Rightarrow> map_option (\<lambda>(sent, st). (map ToEdge sent, st)) (forward_outbound True st)
      | DgRecv i \<Rightarrow> map_option (\<lambda>(payload, st). ([ToFlow i payload], st)) (flow_recv now i st)
      | DgSend i payload \<Rightarrow> map_option (\<lambda>st. ([], st)) (flow_send now i payload st)
      | DgReturn i \<Rightarrow>
          if i < length (dg_flows st) then Some ([], st\<lparr>dg_flows := (dg_flows st)[i := (dg_flows st ! i)\<lparr>uf_alive := False\<rparr>]\<rparr>) else None)"

fun dg_run :: "bool \<Rightarrow> (nat \<times> dg_event) list \<Rightarrow> datagrams \<Rightarrow> (dg_output list \<times> datagrams) option" where
  "dg_run handler [] st = Some ([], st)"
| "dg_run handler ((now, event) # rest) st =
     (case dg_step handler now event st of
        None \<Rightarrow> None
      | Some (outs, st') \<Rightarrow> (case dg_run handler rest st' of None \<Rightarrow> None | Some (outs', st'') \<Rightarrow> Some (outs @ outs', st'')))"

section \<open>Flows get what was sent to them\<close>

text \<open>The flow and the payload that a datagram of version 3 carries, and the payloads of a run for one flow.\<close>

definition payload_of :: "bytes \<Rightarrow> (bytes \<times> bytes) option" where
  "payload_of d =
     (case d of
        [] \<Rightarrow> None
      | kind # body \<Rightarrow>
          if kind = 0 then
            (case parse_registration body of Inr (k, _, p, _) \<Rightarrow> if p = [] then None else Some (k, p) | Inl _ \<Rightarrow> None)
          else if kind = 1 \<and> 17 \<le> length d \<and> length d \<le> 1297 then Some (take 16 body, drop 16 body)
          else None)"

definition carries :: "dg_event \<Rightarrow> bytes \<Rightarrow> bytes \<Rightarrow> bool" where
  "carries event k p \<longleftrightarrow> (\<exists>d. event = DgDatagram d \<and> payload_of d = Some (k, p))"

definition payloads_to :: "bytes \<Rightarrow> (nat \<times> dg_event) list \<Rightarrow> bytes list" where
  "payloads_to k es = concat (map (\<lambda>(_, event). case event of
     DgDatagram d \<Rightarrow> (case payload_of d of Some (k', p) \<Rightarrow> if k' = k then [p] else [] | None \<Rightarrow> []) | _ \<Rightarrow> []) es)"

definition received :: "nat \<Rightarrow> dg_output list \<Rightarrow> bytes list" where
  "received i outs = concat (map (\<lambda>out. case out of ToFlow j p \<Rightarrow> if j = i then [p] else [] | _ \<Rightarrow> []) outs)"

definition waiting_for :: "datagrams \<Rightarrow> nat \<Rightarrow> bytes list" where
  "waiting_for st i = (if i < length (dg_flows st) then uf_incoming (dg_flows st ! i) else [])"

definition sessions_ok :: "datagrams \<Rightarrow> bool" where
  "sessions_ok st \<longleftrightarrow> (\<forall>k i t. dg_sessions st k = Some (i, t) \<longrightarrow> i < length (dg_flows st) \<and> uf_id (dg_flows st ! i) = k)"

text \<open>A step keeps the flows there are, and at most adds one payload, which was sent to the flow, at the end of what it is due.\<close>

definition flows_advance :: "dg_event \<Rightarrow> datagrams \<Rightarrow> dg_output list \<Rightarrow> datagrams \<Rightarrow> bool" where
  "flows_advance event st outs st' \<longleftrightarrow>
     sessions_ok st' \<and> length (dg_flows st) \<le> length (dg_flows st')
     \<and> (\<forall>i < length (dg_flows st). uf_id (dg_flows st' ! i) = uf_id (dg_flows st ! i))
     \<and> (\<forall>i. \<exists>q. received i outs @ waiting_for st' i = waiting_for st i @ q
          \<and> (q = [] \<or> i < length (dg_flows st') \<and> (\<exists>p. q = [p] \<and> carries event (uf_id (dg_flows st' ! i)) p)))"

lemma received_simps [simp]:
  "received i [] = []" "received i (a @ b) = received i a @ received i b" "received i (map ToEdge ds) = []"
  "received i [ToFlow j p] = (if j = i then [p] else [])" "received i [ToEdge d] = []"
  by (simp_all add: received_def comp_def)

lemma flows_advance_same:
  "dg_flows st' = dg_flows st \<Longrightarrow> sessions_ok st' \<Longrightarrow> (\<And>i. received i outs = []) \<Longrightarrow> flows_advance event st outs st'"
  by (simp add: flows_advance_def waiting_for_def)

lemma sessions_ok_outbound [simp]: "sessions_ok (st\<lparr>dg_outbound := out\<rparr>) = sessions_ok st"
  by (simp add: sessions_ok_def)

lemma cleanup_sessions_flows [simp]:
  "dg_flows (cleanup_sessions now st) = dg_flows st" "dg_outbound (cleanup_sessions now st) = dg_outbound st"
  by (simp_all add: cleanup_sessions_def)

lemma cleanup_sessions_ok: "sessions_ok st \<Longrightarrow> sessions_ok (cleanup_sessions now st)"
proof -
  assume ok: "sessions_ok st"
  have "dg_sessions st k = Some (i, t)" if "dg_sessions (cleanup_sessions now st) k = Some (i, t)" for k i t
    using that by (auto simp: cleanup_sessions_def split: option.splits if_splits)
  with ok show ?thesis unfolding sessions_ok_def by (metis cleanup_sessions_flows)
qed

lemma open_flow_advance:
  assumes "sessions_ok st"
  shows "sessions_ok (open_flow now k destination idle st)" "length (dg_flows (open_flow now k destination idle st)) = Suc (length (dg_flows st))"
    "i < length (dg_flows st) \<Longrightarrow> dg_flows (open_flow now k destination idle st) ! i = dg_flows st ! i"
    "waiting_for (open_flow now k destination idle st) i = waiting_for st i"
    "dg_outbound (open_flow now k destination idle st) = dg_outbound st"
  using assms by (auto simp: open_flow_def sessions_ok_def waiting_for_def nth_append less_Suc_eq)

lemma session_send_advance:
  assumes "session_send now i p st = Some st'" and "sessions_ok st" and "dg_sessions st k = Some (i, t)"
  shows "sessions_ok st'" "length (dg_flows st') = length (dg_flows st)" "uf_id (dg_flows st' ! j) = uf_id (dg_flows st ! j)"
    "\<exists>q. waiting_for st' j = waiting_for st j @ q \<and> (q = [] \<or> j < length (dg_flows st') \<and> uf_id (dg_flows st' ! j) = k \<and> q = [p])"
    "dg_outbound st' = dg_outbound st"
proof -
  from assms(2,3) have i: "i < length (dg_flows st)" "uf_id (dg_flows st ! i) = k" by (auto simp: sessions_ok_def)
  from assms(1) obtain f where f: "st' = st\<lparr>dg_flows := (dg_flows st)[i := f]\<rparr>" "uf_id f = uf_id (dg_flows st ! i)"
    "uf_incoming f = uf_incoming (dg_flows st ! i) \<or> uf_incoming f = uf_incoming (dg_flows st ! i) @ [p]"
    by (auto simp: session_send_def Let_def split: if_splits)
  show "dg_outbound st' = dg_outbound st" "length (dg_flows st') = length (dg_flows st)" by (simp_all add: f(1))
  show ids: "uf_id (dg_flows st' ! j) = uf_id (dg_flows st ! j)" for j
    by (cases "j = i") (use i(1) f in \<open>auto simp: nth_list_update\<close>)
  show "sessions_ok st'" using assms(2) ids by (simp add: sessions_ok_def f(1))
  show "\<exists>q. waiting_for st' j = waiting_for st j @ q \<and> (q = [] \<or> j < length (dg_flows st') \<and> uf_id (dg_flows st' ! j) = k \<and> q = [p])"
    by (cases "j = i") (use i f in \<open>auto simp: waiting_for_def\<close>)
qed

lemma handle_datagram_advance:
  assumes "handle_datagram handler now d st = Handled replies st'" and "sessions_ok st"
  shows "flows_advance (DgDatagram d) st (map ToEdge replies) st' \<and> dg_outbound st' = dg_outbound st"
proof (cases "dg_sessions st' = dg_sessions st \<and> dg_flows st' = dg_flows st \<and> dg_outbound st' = dg_outbound st")
  case True
  with assms(2) show ?thesis by (auto intro!: flows_advance_same simp: sessions_ok_def)
next
  case False
  then have changed: "st' \<noteq> st" by auto
  then obtain kind body where d: "d = kind # body" using assms(1) by (cases d) (auto simp: handle_datagram_def)
  have step: ?thesis if "sessions_ok mid" "length (dg_flows st) \<le> length (dg_flows mid)" "\<And>i. i < length (dg_flows st) \<Longrightarrow> dg_flows mid ! i = dg_flows st ! i"
      "\<And>i. waiting_for mid i = waiting_for st i" "dg_outbound mid = dg_outbound st"
      "st' = mid \<or> (\<exists>k i t p. dg_sessions mid k = Some (i, t) \<and> session_send now i p mid = Some st' \<and> payload_of d = Some (k, p))" for mid
    using that(6)
  proof
    assume "st' = mid"
    with that show ?thesis by (simp add: flows_advance_def)
  next
    assume "\<exists>k i t p. dg_sessions mid k = Some (i, t) \<and> session_send now i p mid = Some st' \<and> payload_of d = Some (k, p)"
    then obtain k i t p where "dg_sessions mid k = Some (i, t)" "session_send now i p mid = Some st'" and p: "payload_of d = Some (k, p)" by blast
    note sent = session_send_advance [OF this(2) that(1) this(1)]
    show ?thesis using sent(1,2,3,5) that(2,3,5) sent(4) p
      by (simp add: flows_advance_def that(4) carries_def) metis
  qed
  show ?thesis
  proof (cases "kind = 0")
    case True
    with assms(1) changed obtain k destination p idle where parsed: "parse_registration body = Inr (k, destination, p, idle)" and handler
      by (auto simp: d handle_datagram_def datagram_consts split: sum.splits if_splits)
    let ?mid = "if dg_sessions st k = None then open_flow now k destination idle st else st"
    have payload: "p \<noteq> [] \<Longrightarrow> payload_of d = Some (k, p)" using True parsed by (simp add: d payload_of_def)
    show ?thesis
    proof (rule step [of ?mid])
      show "st' = ?mid \<or> (\<exists>k i t p. dg_sessions ?mid k = Some (i, t) \<and> session_send now i p ?mid = Some st' \<and> payload_of d = Some (k, p))"
        using assms(1) True parsed \<open>handler\<close> payload
        by (auto simp: d handle_datagram_def datagram_consts Let_def simp del: not_None_eq split: option.splits if_splits prod.splits)
    qed (use open_flow_advance [OF assms(2)] assms(2) in auto)
  next
    case False
    with assms(1) changed obtain i t where "dg_sessions st (take 16 body) = Some (i, t)" "session_send now i (drop 16 body) st = Some st'"
        "kind = 1" "17 \<le> length d" "length d \<le> 1297"
      by (auto simp: d handle_datagram_def datagram_consts split: option.splits if_splits)
    with False show ?thesis by (intro step [of st]) (use assms(2) in \<open>auto simp: d payload_of_def\<close>)
  qed
qed

lemma dg_step_advance:
  assumes "dg_step handler now event st = Some (outs, st')" and "sessions_ok st"
  shows "flows_advance event st outs st'"
proof -
  have update: "flows_advance event st outs (st\<lparr>dg_flows := (dg_flows st)[i := f], dg_outbound := out\<rparr>)"
    if "i < length (dg_flows st)" "uf_id f = uf_id (dg_flows st ! i)" "received i outs @ uf_incoming f = uf_incoming (dg_flows st ! i)"
      "\<And>j. j \<noteq> i \<Longrightarrow> received j outs = []" for i f out outs
    using that assms(2) by (auto simp: flows_advance_def waiting_for_def sessions_ok_def nth_list_update)
  show ?thesis
  proof (cases event)
    case (DgDatagram d)
    with assms handle_datagram_advance [of handler now d st _ st'] show ?thesis
      by (auto simp: dg_step_def split: dg_outcome.splits)
  next
    case DgCleanup
    with assms show ?thesis
      by (intro flows_advance_same) (auto simp: dg_step_def cleanup_sessions_ok)
  next
    case DgForward
    with assms show ?thesis
      by (intro flows_advance_same) (auto simp: dg_step_def forward_outbound_def split: list.splits prod.splits if_splits)
  next
    case (DgRecv i)
    with assms(1) obtain p queue where "i < length (dg_flows st)" "uf_incoming (dg_flows st ! i) = p # queue" "outs = [ToFlow i p]"
      "st' = st\<lparr>dg_flows := (dg_flows st)[i := (dg_flows st ! i)\<lparr>uf_incoming := queue, uf_last := now\<rparr>]\<rparr>"
      by (auto simp: dg_step_def flow_recv_def split: if_splits list.splits)
    then show ?thesis using update [of i "(dg_flows st ! i)\<lparr>uf_incoming := queue, uf_last := now\<rparr>" outs "dg_outbound st"] by simp
  next
    case (DgSend i p)
    with assms(1) have "i < length (dg_flows st)" "outs = []"
      "st' = st\<lparr>dg_flows := (dg_flows st)[i := (dg_flows st ! i)\<lparr>uf_last := now\<rparr>], dg_outbound := dg_outbound st @ [(uf_id (dg_flows st ! i), p)]\<rparr>"
      by (auto simp: dg_step_def flow_send_def split: if_splits)
    then show ?thesis using update [of i "(dg_flows st ! i)\<lparr>uf_last := now\<rparr>" outs] by simp
  next
    case (DgReturn i)
    with assms(1) have "i < length (dg_flows st)" "outs = []"
      "st' = st\<lparr>dg_flows := (dg_flows st)[i := (dg_flows st ! i)\<lparr>uf_alive := False\<rparr>]\<rparr>"
      by (auto simp: dg_step_def split: if_splits)
    then show ?thesis using update [of i "(dg_flows st ! i)\<lparr>uf_alive := False\<rparr>" outs "dg_outbound st"] by simp
  qed
qed

lemma handle_datagram_replies:
  "handle_datagram handler now d st = Handled replies st' \<Longrightarrow> r \<in> set replies \<Longrightarrow> hd r = 3"
  by (auto simp: handle_datagram_def registration_reply_def datagram_consts Let_def split: list.splits if_splits sum.splits option.splits)

text \<open>What waits to be sent was sent by a flow, and what is sent waited.\<close>

lemma dg_step_outbound:
  assumes "dg_step handler now event st = Some (outs, st')" and "sessions_ok st"
  shows "(k, p) \<in> set (dg_outbound st') \<Longrightarrow> (k, p) \<in> set (dg_outbound st)
      \<or> (\<exists>i < length (dg_flows st). event = DgSend i p \<and> uf_id (dg_flows st ! i) = k)"
    and "ToEdge d \<in> set outs \<Longrightarrow> hd d = 1 \<Longrightarrow> \<exists>k p. (k, p) \<in> set (dg_outbound st) \<and> d = 1 # k @ p \<and> length p \<le> 1280"
proof -
  show "(k, p) \<in> set (dg_outbound st) \<or> (\<exists>i < length (dg_flows st). event = DgSend i p \<and> uf_id (dg_flows st ! i) = k)"
    if "(k, p) \<in> set (dg_outbound st')"
  proof (cases event)
    case (DgDatagram d)
    with assms handle_datagram_advance [of handler now d st _ st'] that show ?thesis by (auto simp: dg_step_def split: dg_outcome.splits)
  qed (use assms(1) that in \<open>auto simp: dg_step_def cleanup_sessions_def forward_outbound_def flow_recv_def flow_send_def
      split: list.splits if_splits prod.splits\<close>)
  show "\<exists>k p. (k, p) \<in> set (dg_outbound st) \<and> d = 1 # k @ p \<and> length p \<le> 1280" if "ToEdge d \<in> set outs" "hd d = 1"
  proof (cases event)
    case (DgDatagram d')
    with assms that handle_datagram_replies [of handler now d' st _ st' d] show ?thesis by (auto simp: dg_step_def split: dg_outcome.splits)
  next
    case DgForward
    with assms(1) that(1) obtain k p queue where "dg_outbound st = (k, p) # queue" "d = 1 # k @ p" "length p \<le> 1280"
      by (auto simp: dg_step_def forward_outbound_def datagram_consts split: list.splits if_splits)
    then show ?thesis by (intro exI [of _ k] exI [of _ p]) simp
  qed (use assms(1) that in \<open>auto simp: dg_step_def split: if_splits\<close>)
qed

definition dg_inv :: "(nat \<times> dg_event) list \<Rightarrow> dg_output list \<Rightarrow> datagrams \<Rightarrow> bool" where
  "dg_inv es outs st \<longleftrightarrow> sessions_ok st
     \<and> (\<forall>i. if i < length (dg_flows st) then subseq (received i outs @ waiting_for st i) (payloads_to (uf_id (dg_flows st ! i)) es) else received i outs = [])
     \<and> (\<forall>k p. (k, p) \<in> set (dg_outbound st) \<longrightarrow> (\<exists>i < length (dg_flows st). DgSend i p \<in> snd ` set es \<and> uf_id (dg_flows st ! i) = k))
     \<and> (\<forall>d. ToEdge d \<in> set outs \<and> hd d = 1 \<longrightarrow>
          (\<exists>i p. i < length (dg_flows st) \<and> d = 1 # uf_id (dg_flows st ! i) @ p \<and> length p \<le> 1280 \<and> DgSend i p \<in> snd ` set es))"

lemma payloads_to_snoc:
  "payloads_to k (es @ [(now, event)]) = payloads_to k es @ payloads_to k [(now, event)]"
  "carries event k p \<Longrightarrow> payloads_to k [(now, event)] = [p]"
  by (auto simp: payloads_to_def carries_def)

lemma dg_step_received:
  assumes adv: "flows_advance event st o1 st'" and inv: "dg_inv es outs st"
  shows "if i < length (dg_flows st') then subseq (received i (outs @ o1) @ waiting_for st' i) (payloads_to (uf_id (dg_flows st' ! i)) (es @ [(now, event)]))
    else received i (outs @ o1) = []"
proof -
  from adv [unfolded flows_advance_def] obtain q where q: "received i o1 @ waiting_for st' i = waiting_for st i @ q"
    "q = [] \<or> i < length (dg_flows st') \<and> (\<exists>p. q = [p] \<and> carries event (uf_id (dg_flows st' ! i)) p)" by blast
  have old: "subseq (received i outs @ waiting_for st i) (payloads_to (uf_id (dg_flows st' ! i)) es)" if "i < length (dg_flows st')"
  proof (cases "i < length (dg_flows st)")
    case True
    with adv inv show ?thesis unfolding dg_inv_def flows_advance_def by metis
  next
    case False
    with inv have "received i outs = []" unfolding dg_inv_def by metis
    with False show ?thesis by (simp add: waiting_for_def)
  qed
  show ?thesis
  proof (cases "i < length (dg_flows st')")
    case True
    have "subseq q (payloads_to (uf_id (dg_flows st' ! i)) [(now, event)])" using q(2) payloads_to_snoc(2) by auto
    with old [OF True] have "subseq ((received i outs @ waiting_for st i) @ q) (payloads_to (uf_id (dg_flows st' ! i)) (es @ [(now, event)]))"
      unfolding payloads_to_snoc(1) by (rule list_emb_append_mono)
    with True q(1) show ?thesis by simp
  next
    case False
    with adv have "\<not> i < length (dg_flows st)" by (auto simp: flows_advance_def)
    with inv have "received i outs = []" unfolding dg_inv_def by metis
    moreover from False q \<open>\<not> i < length (dg_flows st)\<close> have "received i o1 = []" by (auto simp: waiting_for_def)
    ultimately show ?thesis using False by simp
  qed
qed

lemma dg_step_inv:
  assumes "dg_step handler now event st = Some (o1, st')" and inv: "dg_inv es outs st"
  shows "dg_inv (es @ [(now, event)]) (outs @ o1) st'"
proof -
  from inv have ok: "sessions_ok st" by (simp add: dg_inv_def)
  note adv = dg_step_advance [OF assms(1) ok] and out = dg_step_outbound [OF assms(1) ok]
  from adv have keep: "sessions_ok st'" "\<And>i. i < length (dg_flows st) \<Longrightarrow> i < length (dg_flows st') \<and> uf_id (dg_flows st' ! i) = uf_id (dg_flows st ! i)"
    by (auto simp: flows_advance_def)
  let ?es = "snd ` set (es @ [(now, event)])"
  have es: "x \<in> snd ` set es \<Longrightarrow> x \<in> ?es" "event \<in> ?es" for x by auto
  from inv have waited: "\<And>k p. (k, p) \<in> set (dg_outbound st) \<Longrightarrow> \<exists>i < length (dg_flows st). DgSend i p \<in> snd ` set es \<and> uf_id (dg_flows st ! i) = k"
    and sent: "\<And>d. ToEdge d \<in> set outs \<Longrightarrow> hd d = 1 \<Longrightarrow>
      \<exists>i p. i < length (dg_flows st) \<and> d = 1 # uf_id (dg_flows st ! i) @ p \<and> length p \<le> 1280 \<and> DgSend i p \<in> snd ` set es"
    unfolding dg_inv_def by blast+
  have queued: "\<exists>i < length (dg_flows st). DgSend i p \<in> ?es \<and> uf_id (dg_flows st ! i) = k"
    if "(k, p) \<in> set (dg_outbound st) \<or> (\<exists>i < length (dg_flows st). event = DgSend i p \<and> uf_id (dg_flows st ! i) = k)" for k p
    using that waited [of k p] es by blast
  have edge: "\<exists>i p. i < length (dg_flows st) \<and> d = 1 # uf_id (dg_flows st ! i) @ p \<and> length p \<le> 1280 \<and> DgSend i p \<in> ?es"
    if "ToEdge d \<in> set (outs @ o1)" "hd d = 1" for d
  proof (cases "ToEdge d \<in> set o1")
    case True
    from out(2) [OF this that(2)] obtain k p where "(k, p) \<in> set (dg_outbound st)" "d = 1 # k @ p" "length p \<le> 1280" by blast
    with queued [of k p] show ?thesis by blast
  next
    case False
    with that have "ToEdge d \<in> set outs" by simp
    from sent [OF this that(2)] es(1) show ?thesis by blast
  qed
  show ?thesis unfolding dg_inv_def
  proof (intro conjI allI impI)
    fix i
    show "if i < length (dg_flows st') then subseq (received i (outs @ o1) @ waiting_for st' i) (payloads_to (uf_id (dg_flows st' ! i)) (es @ [(now, event)]))
      else received i (outs @ o1) = []" by (rule dg_step_received [OF adv inv])
  next
    fix k p
    assume "(k, p) \<in> set (dg_outbound st')"
    with out(1) queued [of k p] keep(2) show "\<exists>i<length (dg_flows st'). DgSend i p \<in> snd ` set (es @ [(now, event)]) \<and> uf_id (dg_flows st' ! i) = k" by metis
  next
    fix d
    assume "ToEdge d \<in> set (outs @ o1) \<and> hd d = 1"
    with edge [of d] keep(2) show "\<exists>i p. i < length (dg_flows st') \<and> d = 1 # uf_id (dg_flows st' ! i) @ p \<and> length p \<le> 1280 \<and>
      DgSend i p \<in> snd ` set (es @ [(now, event)])" by metis
  qed (rule keep(1))
qed

lemma dg_run_inv: "dg_run handler rest st = Some (o1, st') \<Longrightarrow> dg_inv es outs st \<Longrightarrow> dg_inv (es @ rest) (outs @ o1) st'"
proof (induction handler rest st arbitrary: es outs o1 rule: dg_run.induct)
  case (2 handler now event rest st)
  from "2.prems"(1) obtain a mid b where step: "dg_step handler now event st = Some (a, mid)" and run: "dg_run handler rest mid = Some (b, st')" "o1 = a @ b"
    by (auto split: option.splits)
  from "2.IH" [OF step refl run(1) dg_step_inv [OF step "2.prems"(2)]] run(2) show ?case by simp
qed simp

section \<open>Properties\<close>

text \<open>C36: Flows of UDP are kept apart. In any run of datagrams, clean-ups and reads, writes and ends of flows, what a flow has read and still has to read
  is in order among the payloads that the edge sent with the identifier of that flow; and every payload that goes to the edge was written by the
  flow whose identifier it carries, and has at most 1280 bytes.
\<close>

theorem datagram_flows_apart:
  assumes "dg_run handler es no_datagrams = Some (outs, st)" and "i < length (dg_flows st)"
  shows "subseq (received i outs @ uf_incoming (dg_flows st ! i)) (payloads_to (uf_id (dg_flows st ! i)) es)
    \<and> (\<forall>d. ToEdge d \<in> set outs \<and> hd d = 1 \<longrightarrow>
        (\<exists>j p. j < length (dg_flows st) \<and> d = 1 # uf_id (dg_flows st ! j) @ p \<and> length p \<le> 1280 \<and> DgSend j p \<in> snd ` set es))"
proof -
  have "dg_inv [] [] no_datagrams" by (simp add: dg_inv_def no_datagrams_def sessions_ok_def)
  from dg_run_inv [OF assms(1) this] have inv: "dg_inv es outs st" by simp
  then have "subseq (received i outs @ waiting_for st i) (payloads_to (uf_id (dg_flows st ! i)) es)"
    unfolding dg_inv_def using assms(2) by metis
  with inv assms(2) show ?thesis unfolding dg_inv_def waiting_for_def by simp
qed

text \<open>What the edge sends to register a flow, with a first payload in the same datagram when there is one.\<close>

definition put_registration :: "ip_addr \<Rightarrow> u16 \<Rightarrow> u16 \<Rightarrow> bytes \<Rightarrow> bytes option \<Rightarrow> bytes" where
  "put_registration ip p idle k payload =
     or (case ip of IpV4 _ \<Rightarrow> 0 | IpV6 _ \<Rightarrow> 1) (if payload = None then 0 else 4) # be_bytes p @ be_bytes idle @ k
     @ (case ip of IpV4 a \<Rightarrow> be_bytes a | IpV6 a \<Rightarrow> be_bytes a) @ (case payload of Some x \<Rightarrow> x | None \<Rightarrow> [])"

lemma parse_registration_parts:
  assumes "length k = 16" and a: "length a = (if and f 1 \<noteq> 0 then 16 else 4)"
  shows "parse_registration (f # be_bytes (p :: u16) @ be_bytes (idle :: u16) @ k @ a @ pl)
    = Inr (k, \<lparr>host = show_ip (if and f 1 \<noteq> 0 then IpV6 (from_be a) else IpV4 (from_be a)), port = p\<rparr>, if and f 4 \<noteq> 0 then pl else [],
        if idle = 0 then DEFAULT_DATAGRAM_IDLE else unat idle * NANOS)"
proof -
  let ?d = "f # be_bytes p @ be_bytes idle @ k @ a @ pl"
  have cut: "drop n (xs @ ys) = ys \<and> take n (xs @ ys) = xs" if "n = length xs" for n and xs ys :: bytes using that by simp
  have len: "length ?d = 21 + length a + length pl" using assms(1) by simp
  have ports: "take 2 (drop 1 ?d) = be_bytes p" "take 2 (drop 3 ?d) = be_bytes idle"
    using cut [of 3 "f # be_bytes p" "be_bytes idle @ k @ a @ pl"] by simp_all
  have "drop 5 ?d = k @ a @ pl" using cut [of 5 "f # be_bytes p @ be_bytes idle" "k @ a @ pl"] by simp
  then have key: "take 16 (drop 5 ?d) = k" using cut [of 16 k "a @ pl"] assms(1) by simp
  have rest: "drop 21 ?d = a @ pl" using cut [of 21 "f # be_bytes p @ be_bytes idle @ k" "a @ pl"] assms(1) by simp
  have tail: "drop (21 + length a) ?d = pl" using cut [of "21 + length a" "f # be_bytes p @ be_bytes idle @ k @ a" pl] assms(1) by simp
  have addr: "take (length a) (drop 21 ?d) = a" using cut [of "length a" a pl] rest by simp
  have first: "?d ! 0 = f" by simp
  have zero: "unat idle = 0 \<longleftrightarrow> idle = 0" by (simp add: unat_eq_zero)
  show ?thesis
    unfolding parse_registration_def datagram_consts Let_def first
    using len ports key addr tail a
    by (cases "and f 1 \<noteq> 0") (simp_all only: if_True if_False not_False_eq_True, simp_all add: ensure_def zero)
qed

lemma parse_registration_put:
  assumes "length k = 16"
  shows "parse_registration (put_registration ip p idle k payload)
    = Inr (k, \<lparr>host = show_ip ip, port = p\<rparr>, case payload of Some x \<Rightarrow> x | None \<Rightarrow> [],
        if idle = 0 then DEFAULT_DATAGRAM_IDLE else unat idle * NANOS)"
proof -
  let ?f = "or (case ip of IpV4 _ \<Rightarrow> 0 | IpV6 _ \<Rightarrow> 1) (if payload = None then 0 else 4) :: u8"
  let ?a = "case ip of IpV4 a \<Rightarrow> be_bytes a | IpV6 a \<Rightarrow> be_bytes a"
  have flags: "and ?f 1 \<noteq> 0 \<longleftrightarrow> (case ip of IpV4 _ \<Rightarrow> False | IpV6 _ \<Rightarrow> True)" "and ?f 4 \<noteq> 0 \<longleftrightarrow> payload \<noteq> None"
    by (cases ip; cases payload; simp)+
  have "length ?a = (if and ?f 1 \<noteq> 0 then 16 else 4)" unfolding flags(1) by (cases ip) simp_all
  from parse_registration_parts [OF assms this, of p idle "case payload of Some x \<Rightarrow> x | None \<Rightarrow> []"]
  show ?thesis unfolding put_registration_def flags by (cases ip; cases payload) simp_all
qed

text \<open>A run with two flows of which the first reads its payload and answers it.\<close>

theorem datagram_flows_apart_witness:
  "\<exists>es outs st. dg_run True es no_datagrams = Some (outs, st) \<and> received 0 outs = [[7]] \<and> subseq [[7]] (payloads_to (replicate 16 1) es)
    \<and> (\<exists>j p. j < length (dg_flows st) \<and> 1 # replicate 16 1 @ [8] = 1 # uf_id (dg_flows st ! j) @ p)"
proof -
  let ?a = "put_registration (IpV4 1) 53 0 (replicate 16 1) (Some [7])" and ?b = "put_registration (IpV6 1) 53 30 (replicate 16 2) None"
  let ?es = "[(0, DgDatagram (0 # ?a)), (1, DgDatagram (0 # ?b)), (2, DgRecv 0), (3, DgSend 0 [8]), (4, DgForward)]"
  have parsed: "parse_registration ?a = Inr (replicate 16 1, \<lparr>host = show_ip (IpV4 1), port = 53\<rparr>, [7], DEFAULT_DATAGRAM_IDLE)"
    "parse_registration ?b = Inr (replicate 16 2, \<lparr>host = show_ip (IpV6 1), port = 53\<rparr>, [], unat (30 :: u16) * NANOS)"
    by (subst parse_registration_put; simp)+
  have "replicate 16 (1 :: u8) \<noteq> replicate 16 2" by (simp add: replicate_eq_replicate)
  then have "\<exists>outs st. dg_run True ?es no_datagrams = Some (outs, st) \<and> received 0 outs = [[7]]
      \<and> 0 < length (dg_flows st) \<and> uf_id (dg_flows st ! 0) = replicate 16 1 \<and> uf_incoming (dg_flows st ! 0) = []
      \<and> ToEdge (1 # replicate 16 1 @ [8]) \<in> set outs"
    by (simp add: dg_step_def handle_datagram_def no_datagrams_def parsed open_flow_def session_send_def flow_recv_def flow_send_def
        forward_outbound_def datagram_consts DATAGRAM_CHANNEL_def received_def)
  then obtain outs st where run: "dg_run True ?es no_datagrams = Some (outs, st)" and got: "received 0 outs = [[7]]"
    and flow: "0 < length (dg_flows st)" "uf_id (dg_flows st ! 0) = replicate 16 1" "uf_incoming (dg_flows st ! 0) = []"
    and sent: "ToEdge (1 # replicate 16 1 @ [8]) \<in> set outs" by blast
  from datagram_flows_apart [OF run flow(1)] got flow sent have "subseq [[7]] (payloads_to (replicate 16 1) ?es)"
    "\<exists>j p. j < length (dg_flows st) \<and> 1 # replicate 16 1 @ [8] = 1 # uf_id (dg_flows st ! j) @ p" by auto
  with run got show ?thesis by blast
qed

text \<open>A registration opens the flow it names. The edge's message for any address, port, timeout and identifier, with or without a first
  payload, opens one flow to that destination with that payload to read, whose session ends when it is idle for the time
  given or for 210 seconds, and is answered with success; nothing else changes.
\<close>

theorem registration_opens_flow:
  assumes "length k = 16" and "dg_sessions st k = None"
  shows "handle_datagram True now (0 # put_registration ip p idle k payload) st = Handled [[3, 0] @ k @ [0, 0]]
    (st\<lparr>dg_flows := dg_flows st @ [\<lparr>uf_id = k, uf_destination = \<lparr>host = show_ip ip, port = p\<rparr>,
          uf_incoming = (case payload of Some x \<Rightarrow> if x = [] then [] else [x] | None \<Rightarrow> []), uf_alive = True, uf_last = now\<rparr>],
        dg_sessions := (dg_sessions st)(k \<mapsto> (length (dg_flows st), if idle = 0 then 210 * NANOS else unat idle * NANOS))\<rparr>)"
proof -
  have zero: "be_bytes (0 :: u16) = [0, 0]" by (simp add: be_bytes_def numeral_2_eq_2)
  show ?thesis using assms(2)
    by (cases payload) (simp_all add: handle_datagram_def datagram_consts parse_registration_put [OF assms(1)] open_flow_def session_send_def
        Let_def registration_reply_def zero DATAGRAM_CHANNEL_def DEFAULT_DATAGRAM_IDLE_def)
qed

theorem registration_opens_flow_witness:
  "handle_datagram True 5 (0 # put_registration (IpV4 1) 53 30 (replicate 16 1) (Some [7])) no_datagrams = Handled [[3, 0] @ replicate 16 1 @ [0, 0]]
    (no_datagrams\<lparr>dg_flows := [\<lparr>uf_id = replicate 16 1, uf_destination = \<lparr>host = show_ip (IpV4 1), port = 53\<rparr>, uf_incoming = [[7]],
        uf_alive = True, uf_last = 5\<rparr>], dg_sessions := [replicate 16 1 \<mapsto> (0, 30 * NANOS)]\<rparr>)"
  using registration_opens_flow [of "replicate 16 1" no_datagrams 5 "IpV4 1" 53 30 "Some [7]"] by (simp add: no_datagrams_def)

text \<open>A registration can be confirmed without a flow. When the handler of a flow has returned while its session is not yet idle, a new registration
  with its identifier is answered with success, opens no flow, and its payload is lost.
\<close>

theorem registration_without_flow:
  assumes "length k = 16" and "dg_sessions st k = Some (i, timeout)" and "\<not> uf_alive (dg_flows st ! i)"
  shows "\<exists>st'. handle_datagram True now (0 # put_registration ip p idle k payload) st = Handled [[3, 0] @ k @ [0, 0]] st'
    \<and> map (\<lambda>f. (uf_id f, uf_destination f, uf_incoming f, uf_alive f)) (dg_flows st')
      = map (\<lambda>f. (uf_id f, uf_destination f, uf_incoming f, uf_alive f)) (dg_flows st)
    \<and> dg_sessions st' = dg_sessions st"
proof -
  have zero: "be_bytes (0 :: u16) = [0, 0]" by (simp add: be_bytes_def numeral_2_eq_2)
  let ?g = "\<lambda>f. (uf_id f, uf_destination f, uf_incoming f, uf_alive f)"
  have same: "map ?g ((dg_flows st)[i := (dg_flows st ! i)\<lparr>uf_last := now\<rparr>]) = map ?g (dg_flows st)"
  proof (cases "i < length (dg_flows st)")
    case True
    then have "?g ((dg_flows st ! i)\<lparr>uf_last := now\<rparr>) = map ?g (dg_flows st) ! i" by simp
    then show ?thesis by (simp only: map_update list_update_id)
  qed (simp add: list_update_beyond not_less)
  show ?thesis using assms(2,3) same
    by (cases payload) (simp_all add: handle_datagram_def datagram_consts parse_registration_put [OF assms(1)] session_send_def
        Let_def registration_reply_def zero)
qed

theorem registration_without_flow_witness:
  "\<exists>st st'. dg_run True [(0, DgDatagram (0 # put_registration (IpV4 1) 53 0 (replicate 16 1) None)), (1, DgReturn 0)] no_datagrams
      = Some ([ToEdge ([3, 0] @ replicate 16 1 @ [0, 0])], st)
    \<and> handle_datagram True 2 (0 # put_registration (IpV4 1) 53 0 (replicate 16 1) (Some [7])) st = Handled [[3, 0] @ replicate 16 1 @ [0, 0]] st'
    \<and> map uf_incoming (dg_flows st') = [[]]"
proof -
  let ?k = "replicate 16 (1 :: u8)"
  let ?flow = "\<lparr>uf_id = ?k, uf_destination = \<lparr>host = show_ip (IpV4 1), port = 53\<rparr>, uf_incoming = [], uf_alive = False, uf_last = 0\<rparr>"
  let ?st = "\<lparr>dg_flows = [?flow], dg_sessions = [?k \<mapsto> (0, DEFAULT_DATAGRAM_IDLE)], dg_outbound = []\<rparr>"
  have zero: "be_bytes (0 :: u16) = [0, 0]" by (simp add: be_bytes_def numeral_2_eq_2)
  have "parse_registration (put_registration (IpV4 1) 53 0 ?k None) = Inr (?k, \<lparr>host = show_ip (IpV4 1), port = 53\<rparr>, [], DEFAULT_DATAGRAM_IDLE)"
    by (subst parse_registration_put; simp)
  then have run: "dg_run True [(0, DgDatagram (0 # put_registration (IpV4 1) 53 0 ?k None)), (1, DgReturn 0)] no_datagrams
      = Some ([ToEdge ([3, 0] @ ?k @ [0, 0])], ?st)"
    by (simp add: dg_step_def handle_datagram_def no_datagrams_def open_flow_def datagram_consts registration_reply_def zero)
  have dead: "\<not> uf_alive (dg_flows ?st ! 0)" "dg_sessions ?st ?k = Some (0, DEFAULT_DATAGRAM_IDLE)" "length ?k = 16" by simp_all
  from registration_without_flow [OF dead(3,2,1), of 2 "IpV4 1" 53 0 "Some [7]"] obtain st' where
    st': "handle_datagram True 2 (0 # put_registration (IpV4 1) 53 0 ?k (Some [7])) ?st = Handled [[3, 0] @ ?k @ [0, 0]] st'"
    "map (\<lambda>f. (uf_id f, uf_destination f, uf_incoming f, uf_alive f)) (dg_flows st') = [(?k, uf_destination ?flow, [], False)]" by auto
  have "map uf_incoming (dg_flows st') = [[]]" using arg_cong [OF st'(2), of "map (\<lambda>(_, _, x, _). x)"] by (simp add: comp_def)
  then show ?thesis by (intro exI [of _ ?st] exI [of _ st'] conjI run st'(1))
qed

section \<open>Version 2 in the runtime\<close>

text \<open>
  The events of version 2: calls of the edge, which are served by tasks whose failure only ends their own stream; datagrams; clean-ups.
\<close>

datatype v2_event = V2Register udp_params | V2Unregister udp_params | V2Datagram bytes | V2Cleanup

definition v2_step :: "bool \<Rightarrow> bool \<Rightarrow> nat \<Rightarrow> v2_event \<Rightarrow> datagrams \<Rightarrow> datagrams option" where
  "v2_step in_runtime handler now event st =
     (case event of
        V2Register params \<Rightarrow> Some (case register_udp_session in_runtime handler now params st of Inr st' \<Rightarrow> st' | Inl _ \<Rightarrow> st)
      | V2Unregister params \<Rightarrow> Some (case unregister_udp_session in_runtime params st of Inr st' \<Rightarrow> st' | Inl _ \<Rightarrow> st)
      | V2Datagram d \<Rightarrow> (case handle_v2_datagram now d st of Handled _ st' \<Rightarrow> Some st' | _ \<Rightarrow> None)
      | V2Cleanup \<Rightarrow> Some (cleanup_sessions now st))"

fun v2_run :: "bool \<Rightarrow> bool \<Rightarrow> (nat \<times> v2_event) list \<Rightarrow> datagrams \<Rightarrow> datagrams option" where
  "v2_run in_runtime handler [] st = Some st"
| "v2_run in_runtime handler ((now, event) # rest) st =
     Option.bind (v2_step in_runtime handler now event st) (v2_run in_runtime handler rest)"

text \<open>Outside of a runtime, where the lock may block, a registration opens its flow.\<close>

lemma v2_register_outside:
  assumes "length k = 16" and "length ip = 4" and "dg_sessions st k = None"
  shows "register_udp_session False True now \<lparr>up_session_id = Some k, up_dst_ip = Some ip, up_dst_port = p, up_idle_hint = 0\<rparr> st
    = Inr (open_flow now k \<lparr>host = show_ip (IpV4 (from_be ip)), port = p\<rparr> DEFAULT_DATAGRAM_IDLE st)"
  using assms by (simp add: register_udp_session_def v2_register_def blocking_lock_def ensure_def)

text \<open>C39: UDP does not work with datagrams of version 2, which is the default. The calls that register a flow are served inside of the runtime, where
  \<open>blocking_lock\<close> panics: whatever the edge calls and sends, no flow is ever opened and no payload is delivered.
\<close>

theorem v2_opens_no_flow:
  "v2_run True handler es no_datagrams \<in> {None, Some no_datagrams}"
proof (induction es)
  case (Cons e es)
  obtain now event where e: "e = (now, event)" by force
  have "v2_step True handler now event no_datagrams \<in> {None, Some no_datagrams}"
  proof (cases event)
    case (V2Register params)
    have "register_udp_session True handler now params no_datagrams \<noteq> Inr st" for st
      by (auto simp: register_udp_session_def v2_register_def blocking_lock_def ensure_def and_then_eq_Inr)
    with V2Register show ?thesis by (auto simp: v2_step_def split: sum.splits)
  next
    case (V2Unregister params)
    have "unregister_udp_session True params no_datagrams = Inr st \<Longrightarrow> st = no_datagrams" for st
      by (auto simp: unregister_udp_session_def v2_unregister_def blocking_lock_def ensure_def split: option.splits if_splits)
    with V2Unregister show ?thesis by (auto simp: v2_step_def split: sum.splits)
  next
    case (V2Datagram d)
    then show ?thesis by (auto simp: v2_step_def handle_v2_datagram_def v2_deliver_def no_datagrams_def Let_def split: if_splits)
  qed (simp add: v2_step_def cleanup_sessions_def no_datagrams_def)
  with Cons show ?case by (auto simp: e)
qed simp

end
