(* ===== verification/Cf_Http2.thy ===== *)
theory Cf_Http2
  imports Cf_Response
begin

text \<open>
  The requests of a tunnel over HTTP/2 (\<open>transport.rs\<close> of the Cloudflared crate): what kind of stream a request opens, and the connect request
  that is made of it. The HTTP/2 library gives the method, the URI and the header map: names in lower case, in the order of the
  iteration, each with its value where that is visible text.
\<close>

definition H2_CONTROL_HEADER :: string where "H2_CONTROL_HEADER = ''Cf-Cloudflared-Proxy-Connection-Upgrade''"
definition H2_TCP_SOURCE_HEADER :: string where "H2_TCP_SOURCE_HEADER = ''Cf-Cloudflared-Proxy-Src''"
definition H2_CONTROL_STREAM :: string where "H2_CONTROL_STREAM = ''control-stream''"
definition H2_WEBSOCKET_STREAM :: string where "H2_WEBSOCKET_STREAM = ''websocket''"

record h2_request =
  hq_method :: string
  hq_uri :: uri
  hq_uri_text :: string
  hq_headers :: "(string \<times> string option) list"

datatype h2_error = NoTcpDestination | NoHttpHost

text \<open>\<open>headers().get(name)\<close>, which ignores the case of the name, with \<open>to_str().ok()\<close>.\<close>

definition header_text :: "h2_request \<Rightarrow> string \<Rightarrow> string option" where
  "header_text request name =
     (case find (\<lambda>(n, _). n = to_ascii_lowercase name) (hq_headers request) of Some (_, v) \<Rightarrow> v | None \<Rightarrow> None)"

definition contains_key :: "h2_request \<Rightarrow> string \<Rightarrow> bool" where
  "contains_key request name \<longleftrightarrow> list_ex (\<lambda>(n, _). n = to_ascii_lowercase name) (hq_headers request)"

definition h2_connection_type :: "h2_request \<Rightarrow> connection_type" where
  "h2_connection_type request =
     (if header_text request H2_CONTROL_HEADER = Some H2_WEBSOCKET_STREAM then WebsocketConnection
      else if contains_key request H2_TCP_SOURCE_HEADER then TcpConnection else HttpConnection)"

definition h2_destination :: "h2_request \<Rightarrow> h2_error + string" where
  "h2_destination request =
     (if h2_connection_type request = TcpConnection
      then ok_or NoTcpDestination
        (case uri_authority (hq_uri request) of Some a \<Rightarrow> Some (au_text a) | None \<Rightarrow> header_text request ''host'')
      else if uri_scheme (hq_uri request) \<noteq> None \<and> uri_authority (hq_uri request) \<noteq> None then Inr (hq_uri_text request)
      else and_then (ok_or NoHttpHost (header_text request ''host'')) (\<lambda>h. Inr (''http://'' @ h @ origin_path (hq_uri request))))"

definition build_connect_request :: "h2_request \<Rightarrow> h2_error + connect_request" where
  "build_connect_request request =
     and_then (h2_destination request) (\<lambda>destination.
     Inr \<lparr>cr_destination = destination, cr_type = h2_connection_type request,
       cr_metadata = [(''HttpMethod'', hq_method request)]
         @ (case header_text request ''host'' of Some h \<Rightarrow> [(''HttpHost'', h)] | None \<Rightarrow> [])
         @ concat (map (\<lambda>(name, v). case v of Some value \<Rightarrow> [(''HttpHeader:'' @ name, value)] | None \<Rightarrow> []) (hq_headers request))\<rparr>)"

text \<open>
  \<open>handle_request\<close> and \<open>handle_data_stream\<close>: the registration, an update of the configuration, a request for the HTTP handler, or another stream, which
  is answered with an empty connect response and routed.
\<close>

datatype h2_stream = ControlStream | ConfigurationUpdate | ServeHttp connect_request | RouteStream connect_request

definition open_h2_stream :: "bool \<Rightarrow> h2_request \<Rightarrow> h2_error + h2_stream" where
  "open_h2_stream http_handler request =
     (if header_text request H2_CONTROL_HEADER = Some H2_CONTROL_STREAM then Inr ControlStream
      else if header_text request H2_CONTROL_HEADER = Some ''update-configuration'' then Inr ConfigurationUpdate
      else and_then (build_connect_request request) (\<lambda>r.
        Inr (if http_handler \<and> cr_type r \<in> {HttpConnection, WebsocketConnection} then ServeHttp r else RouteStream r)))"

section \<open>Headers reach the origin\<close>

definition header_name_ok :: "string \<Rightarrow> bool" where
  "header_name_ok n \<longleftrightarrow> n \<noteq> [] \<and> (\<forall>c \<in> set n. (33 :: nat) \<le> of_char c \<and> (of_char c :: nat) < 127 \<and> c \<noteq> CHR '':'')"

lemma header_name_token: "header_name_ok n \<Longrightarrow> ensure_http_token n = Inr ()"
proof -
  assume "header_name_ok n"
  then have n: "n \<noteq> []" "\<forall>c \<in> set n. (33 :: nat) \<le> of_char c \<and> (of_char c :: nat) < 127 \<and> c \<noteq> CHR '':''" by (simp_all add: header_name_ok_def)
  then have "\<forall>c \<in> set n. \<not> ((of_char c :: nat) \<le> 0x20 \<or> 0x7F \<le> (of_char c :: nat) \<or> c = CHR '':'')" by fastforce
  with n(1) show ?thesis unfolding ensure_http_token_def ensure_def list_ex_iff by simp
qed

lemma trim_header_key: "CHR '':'' \<notin> set n \<Longrightarrow> trim_start_str header_key (''HttpHeader:'' @ n) = n"
proof -
  assume n: "CHR '':'' \<notin> set n"
  have "\<not> prefix header_key n"
  proof
    assume "prefix header_key n"
    then have "set header_key \<subseteq> set n" by (auto simp: prefix_def)
    with n show False by (simp add: header_key_def)
  qed
  then have "trim_start_str header_key n = n" by (simp add: trim_start_str.simps [of header_key n])
  moreover have "drop (length header_key) (''HttpHeader:'' @ n) = n" "prefix header_key (''HttpHeader:'' @ n)" "header_key \<noteq> []"
    by (simp_all add: header_key_def)
  ultimately show ?thesis by (simp only: trim_start_str.simps [of header_key "''HttpHeader:'' @ n"] simp_thms if_True)
qed

definition text_headers :: "h2_request \<Rightarrow> header_list" where
  "text_headers request = concat (map (\<lambda>(name, v). case v of Some value \<Rightarrow> [(name, value)] | None \<Rightarrow> []) (hq_headers request))"

lemma header_metadata:
  "concat (map (\<lambda>(name, v). case v of Some value \<Rightarrow> [(''HttpHeader:'' @ name, value)] | None \<Rightarrow> []) hs)
    = map (\<lambda>(n, v). (''HttpHeader:'' @ n, v)) (concat (map (\<lambda>(name, v). case v of Some value \<Rightarrow> [(name, value)] | None \<Rightarrow> []) hs))"
  by (induction hs) (auto split: option.splits)

lemma forwarded_of_headers:
  assumes "\<forall>(n, v) \<in> set hs. header_name_ok n \<and> one_line v"
  shows "forwarded_headers websocket (map (\<lambda>(n, v). (''HttpHeader:'' @ n, v)) hs) = Inr (filter (\<lambda>h. \<not> skipped_header websocket (fst h)) hs)"
proof -
  have key: "prefix header_key (''HttpHeader:'' @ n)" for n by (simp add: header_key_def)
  have "map (\<lambda>(k, v). (trim_start_str header_key k, v)) (filter (\<lambda>(k, _). prefix header_key k) (map (\<lambda>(n, v). (''HttpHeader:'' @ n, v)) hs)) = hs"
    using assms
  proof (induction hs)
    case (Cons h hs)
    obtain n v where h: "h = (n, v)" by force
    with Cons.prems have "CHR '':'' \<notin> set n" by (auto simp: header_name_ok_def)
    from trim_header_key [OF this] key [of n] Cons show ?case by (simp add: h del: append.simps)
  qed simp
  moreover have "try_map check_header (filter (\<lambda>h. \<not> skipped_header websocket (fst h)) hs) = Inr (map (\<lambda>h. h) (filter (\<lambda>h. \<not> skipped_header websocket (fst h)) hs))"
    using assms by (intro try_map_Inr_total) (auto simp: check_header_def header_name_token ensure_http_value_iff [THEN iffD2])
  ultimately show ?thesis by (simp add: forwarded_headers_def)
qed

text \<open>A request over HTTP/2 keeps its method and its headers on the way to the origin. For every stream that becomes a connect request, the headers that
  are written to the origin are exactly those of the stream with visible values, in their order, without the ones that the tunnel replaces, and the
  method is that of the stream.
\<close>

theorem http2_headers_reach_origin:
  assumes "build_connect_request request = Inr r" and "\<forall>(n, v) \<in> set (text_headers request). header_name_ok n \<and> one_line v"
  shows "forwarded_headers websocket (cr_metadata r) = Inr (filter (\<lambda>h. \<not> skipped_header websocket (fst h)) (text_headers request))
    \<and> request_method r = hq_method request"
proof -
  have skip: "forwarded_headers websocket (m # ms) = forwarded_headers websocket ms" if "\<not> prefix header_key (fst m)" for m ms
    using that by (cases m) (simp add: forwarded_headers_def)
  have names: "\<not> prefix header_key ''HttpMethod''" "\<not> prefix header_key ''HttpHost''" by (simp_all add: header_key_def)
  let ?hs = "map (\<lambda>(n, v). (''HttpHeader:'' @ n, v)) (text_headers request)"
  from assms(1) obtain hosts where meta: "cr_metadata r = (''HttpMethod'', hq_method request) # hosts @ ?hs"
    and hosts: "hosts = [] \<or> (\<exists>h. hosts = [(''HttpHost'', h)])"
    by (auto simp: build_connect_request_def header_metadata text_headers_def split: option.splits)
  have "forwarded_headers websocket (cr_metadata r) = forwarded_headers websocket ?hs"
    using hosts skip names unfolding meta by auto
  moreover have "request_method r = hq_method request" by (simp add: request_method_def metadata_value_def meta)
  ultimately show ?thesis using forwarded_of_headers [OF assms(2)] by simp
qed

theorem http2_headers_reach_origin_witness:
  "\<exists>request r. build_connect_request request = Inr r \<and> cr_destination r = ''http://x/v''
    \<and> forwarded_headers False (cr_metadata r) = Inr [(''a'', ''b'')] \<and> request_method r = ''GET''"
proof -
  let ?uri = "\<lparr>uri_scheme = None, uri_authority = None, uri_path = ''/v'', uri_path_and_query = Some ''/v''\<rparr>"
  let ?request = "\<lparr>hq_method = ''GET'', hq_uri = ?uri, hq_uri_text = ''/v'', hq_headers = [(''host'', Some ''x''), (''a'', Some ''b'')]\<rparr>"
  have "header_text ?request H2_CONTROL_HEADER = None" "\<not> contains_key ?request H2_TCP_SOURCE_HEADER" "header_text ?request ''host'' = Some ''x''"
    by code_simp+
  then have "\<exists>r. build_connect_request ?request = Inr r \<and> cr_destination r = ''http://x/v''"
    by (simp add: build_connect_request_def h2_destination_def h2_connection_type_def origin_path_def)
  then obtain r where r: "build_connect_request ?request = Inr r" "cr_destination r = ''http://x/v''" by blast
  have headers: "text_headers ?request = [(''host'', ''x''), (''a'', ''b'')]" by (simp add: text_headers_def)
  have ok: "\<forall>(n, v) \<in> set (text_headers ?request). header_name_ok n \<and> one_line v" by (simp add: headers header_name_ok_def)
  have "filter (\<lambda>h. \<not> skipped_header False (fst h)) [(''host'', ''x''), (''a'', ''b'')] = [(''a'', ''b'')]" by code_simp
  with http2_headers_reach_origin [OF r(1) ok, of False] headers r show ?thesis by (intro exI [of _ ?request] exI [of _ r]) simp
qed

end
