(* ===== verification/Masquerade_Files.thy ===== *)
theory Masquerade_Files
  imports Http_Message "HOL-Library.List_Lexorder" "HOL-Library.Char_ord"
begin

text \<open>
  The masquerade of the Hysteria2 inbound that serves files (\<open>masquerade.rs\<close>): the percent encoding of a path, the way from
  a request to a path of the file system, and the choice between a file, the index of a directory and its listing. The
  file system is the record \<open>files\<close>; it does not change while one request is served. A path is the list of
  its names below the root of the file system.
\<close>

unbundle bit_operations_syntax

section \<open>Percent encoding\<close>

definition MAX_MASQUERADE_RESPONSE_SIZE :: nat where "MAX_MASQUERADE_RESPONSE_SIZE = 16 * 1024 * 1024"

definition hex_value :: "u8 \<Rightarrow> u8 option" where
  "hex_value v =
     (if 48 \<le> v \<and> v \<le> 57 then Some (v - 48)
      else if 97 \<le> v \<and> v \<le> 102 then Some (v - 97 + 10)
      else if 65 \<le> v \<and> v \<le> 70 then Some (v - 65 + 10)
      else None)"

text \<open>The loop of \<open>percent_decode\<close>: 37 is the percent sign.\<close>

fun percent_bytes :: "bytes \<Rightarrow> bytes option" where
  "percent_bytes [] = Some []"
| "percent_bytes (b # bs) =
     (if b = 37
      then case bs of
             high # low # rest \<Rightarrow>
               (case (hex_value high, hex_value low) of
                  (Some h, Some l) \<Rightarrow> map_option ((#) (push_bit 4 h OR l)) (percent_bytes rest)
                | _ \<Rightarrow> None)
           | _ \<Rightarrow> None
      else map_option ((#) b) (percent_bytes bs))"

definition percent_decode :: "string \<Rightarrow> string option" where
  "percent_decode s =
     (case percent_bytes (as_bytes s) of
        None \<Rightarrow> None
      | Some decoded \<Rightarrow> (case from_utf8 () decoded of Inr t \<Rightarrow> Some t | Inl _ \<Rightarrow> None))"

definition is_unreserved :: "char \<Rightarrow> bool" where
  "is_unreserved c \<longleftrightarrow> is_ascii_alphanumeric c \<or> c \<in> set ''-_.~''"

definition upper_hex :: "nat \<Rightarrow> char" where
  "upper_hex d = char_of (if d < 10 then 48 + d else 55 + d)"

definition percent_encode_segment :: "string \<Rightarrow> string" where
  "percent_encode_segment s =
     concat (map (\<lambda>c. if is_unreserved c then [c]
                      else [CHR ''%'', upper_hex (of_char c div 16), upper_hex (of_char c mod 16)]) s)"

text \<open>\<open>str::replace\<close> of a character by a string, and \<open>html_escape\<close>.\<close>

definition replace_by :: "char \<Rightarrow> string \<Rightarrow> string \<Rightarrow> string" where
  "replace_by c t s = concat (map (\<lambda>x. if x = c then t else [x]) s)"

definition html_escape :: "string \<Rightarrow> string" where
  "html_escape s =
     replace_by (CHR 0x22) ''&quot;'' (replace_by (CHR ''>'') ''&gt;'' (replace_by (CHR ''<'') ''&lt;'' (replace_by (CHR ''&'') ''&amp;'' s)))"

section \<open>Paths\<close>

type_synonym path = "string list"

datatype component = Normal string | CurDir | ParentDir

text \<open>
  \<open>Path::components\<close> of a relative path on Unix: empty names and dots are left out, a dot at the
  start is \<open>CurDir\<close>.
\<close>

definition components :: "string \<Rightarrow> component list" where
  "components s =
     (let names = split_on (CHR ''/'') s in
      (if hd names = ''.'' then [CurDir] else [])
      @ map (\<lambda>n. if n = ''..'' then ParentDir else Normal n) (filter (\<lambda>n. n \<noteq> [] \<and> n \<noteq> ''.'') names))"

fun relative_from :: "component list \<Rightarrow> path option" where
  "relative_from [] = Some []"
| "relative_from (Normal n # cs) = map_option ((#) n) (relative_from cs)"
| "relative_from (CurDir # cs) = relative_from cs"
| "relative_from (ParentDir # cs) = None"

definition safe_relative_path :: "string \<Rightarrow> path option" where
  "safe_relative_path p =
     (case percent_decode p of
        None \<Rightarrow> None
      | Some decoded \<Rightarrow>
          if CHR 0x5C \<in> set decoded \<or> CHR 0x00 \<in> set decoded then None
          else relative_from (components (trim_start_matches (CHR ''/'') decoded)))"

text \<open>\<open>Path::extension\<close> of the last name, and the type of a file by it.\<close>

definition extension :: "path \<Rightarrow> string option" where
  "extension p =
     (if p = [] \<or> last p = ''..'' then None
      else case rsplit_once (CHR ''.'') (last p) of
        None \<Rightarrow> None
      | Some (before, after) \<Rightarrow> if before = [] then None else Some after)"

definition content_type :: "path \<Rightarrow> string" where
  "content_type p =
     (let e = to_ascii_lowercase (case extension p of Some e \<Rightarrow> e | None \<Rightarrow> []) in
      if e \<in> {''html'', ''htm''} then ''text/html; charset=utf-8''
      else if e = ''css'' then ''text/css; charset=utf-8''
      else if e \<in> {''js'', ''mjs''} then ''text/javascript; charset=utf-8''
      else if e = ''json'' then ''application/json''
      else if e = ''txt'' then ''text/plain; charset=utf-8''
      else if e = ''svg'' then ''image/svg+xml''
      else if e = ''png'' then ''image/png''
      else if e \<in> {''jpg'', ''jpeg''} then ''image/jpeg''
      else if e = ''gif'' then ''image/gif''
      else if e = ''webp'' then ''image/webp''
      else if e = ''ico'' then ''image/x-icon''
      else if e = ''woff'' then ''font/woff''
      else if e = ''woff2'' then ''font/woff2''
      else if e = ''pdf'' then ''application/pdf''
      else ''application/octet-stream'')"

section \<open>Responses and the file system\<close>

record masq_response =
  mr_status :: nat
  mr_headers :: header_list
  mr_body :: bytes

definition plain_response :: "nat \<Rightarrow> bytes \<Rightarrow> masq_response" where
  "plain_response status body = \<lparr>mr_status = status, mr_headers = [], mr_body = body\<rparr>"

text \<open>\<open>HeaderValue::from_str\<close> takes visible ASCII, spaces and tabs.\<close>

definition header_value_ok :: "string \<Rightarrow> bool" where
  "header_value_ok v \<longleftrightarrow> list_all (\<lambda>c. (32 :: nat) \<le> of_char c \<and> (of_char c :: nat) < 127 \<or> c = CHR 0x09) v"

definition response_with_header :: "nat \<Rightarrow> string \<Rightarrow> string \<Rightarrow> bytes \<Rightarrow> masq_response" where
  "response_with_header status name value body =
     (plain_response status body)\<lparr>mr_headers := if header_value_ok value then [(name, value)] else []\<rparr>"

record file_info =
  fi_dir :: bool
  fi_file :: bool
  fi_len :: nat

text \<open>A directory is the list of its entries up to the end or an error: the name when it is a string, and whether it is a directory.\<close>

record files =
  fs_canonicalize :: "path \<Rightarrow> path option"
  fs_metadata :: "path \<Rightarrow> file_info option"
  fs_read :: "path \<Rightarrow> bytes option"
  fs_list :: "path \<Rightarrow> (string option \<times> bool) list option"

section \<open>Serving\<close>

text \<open>The loop of \<open>directory_listing\<close> over the entries; \<open>None\<close> when the names together are too long.\<close>

fun list_names :: "nat \<Rightarrow> (string option \<times> bool) list \<Rightarrow> (string \<times> bool) list option" where
  "list_names n [] = Some []"
| "list_names n ((None, d) # entries) = list_names n entries"
| "list_names n ((Some name, d) # entries) =
     (if MAX_MASQUERADE_RESPONSE_SIZE < n + length name then None
      else map_option ((#) (name, d)) (list_names (n + length name) entries))"

definition listing_link :: "string \<times> bool \<Rightarrow> string" where
  "listing_link e =
     (let slash = (if snd e then ''/'' else []) in
      ''<a href='' @ [CHR 0x22] @ percent_encode_segment (fst e) @ slash @ [CHR 0x22, CHR ''>'']
      @ html_escape (fst e) @ slash @ ''</a>'' @ [CHR 0x0A])"

definition listing_html :: "string \<Rightarrow> (string \<times> bool) list \<Rightarrow> string" where
  "listing_html request_path names =
     (let p = html_escape request_path in
      ''<!doctype html><html><head><meta charset='' @ [CHR 0x22] @ ''utf-8'' @ [CHR 0x22] @ ''><title>Index of '' @ p
      @ ''</title></head><body><h1>Index of '' @ p @ ''</h1><pre>''
      @ (if request_path \<noteq> ''/'' then ''<a href='' @ [CHR 0x22] @ ''../'' @ [CHR 0x22] @ ''>../</a>'' @ [CHR 0x0A] else [])
      @ concat (map listing_link names)
      @ ''</pre></body></html>'')"

definition directory_listing :: "files \<Rightarrow> path \<Rightarrow> string \<Rightarrow> masq_response" where
  "directory_listing fs p request_path =
     (case fs_list fs p of
        None \<Rightarrow> plain_response 404 []
      | Some entries \<Rightarrow>
          (case list_names 0 entries of
             None \<Rightarrow> plain_response 413 []
           | Some names \<Rightarrow>
               let html = listing_html request_path (sort_key fst names) in
               if MAX_MASQUERADE_RESPONSE_SIZE < length html then plain_response 413 []
               else (plain_response 200 (as_bytes html))\<lparr>mr_headers := [(''content-type'', ''text/html; charset=utf-8'')]\<rparr>))"

record file_request =
  fq_method :: string
  fq_path :: string
  fq_query :: "string option"

definition serve_content :: "files \<Rightarrow> path \<Rightarrow> masq_response" where
  "serve_content fs p =
     (if case fs_metadata fs p of Some i \<Rightarrow> MAX_MASQUERADE_RESPONSE_SIZE < fi_len i | None \<Rightarrow> False
      then plain_response 413 []
      else case fs_read fs p of
        None \<Rightarrow> plain_response 404 []
      | Some body \<Rightarrow> (plain_response 200 body)\<lparr>mr_headers := [(''content-type'', content_type p)]\<rparr>)"

text \<open>From the metadata of the canonical path on.\<close>

definition serve_path :: "files \<Rightarrow> file_request \<Rightarrow> path \<Rightarrow> masq_response" where
  "serve_path fs request p =
     (case fs_metadata fs p of
        None \<Rightarrow> plain_response 404 []
      | Some i \<Rightarrow>
          if \<not> fi_dir i then serve_content fs p
          else if \<not> suffix ''/'' (fq_path request)
          then response_with_header 301 ''location''
            (fq_path request @ ''/'' @ (case fq_query request of Some q \<Rightarrow> ''?'' @ q | None \<Rightarrow> [])) []
          else if case fs_metadata fs (p @ [''index.html'']) of Some i \<Rightarrow> fi_file i | None \<Rightarrow> False
          then serve_content fs (p @ [''index.html''])
          else directory_listing fs p (fq_path request))"

text \<open>\<open>serve_file\<close>, with the cell that keeps the canonical root once it is known.\<close>

definition serve_file :: "files \<Rightarrow> path \<Rightarrow> path option \<Rightarrow> file_request \<Rightarrow> masq_response \<times> path option" where
  "serve_file fs root cell request =
     (if fq_method request \<noteq> ''GET'' \<and> fq_method request \<noteq> ''HEAD''
      then (response_with_header 405 ''allow'' ''GET, HEAD'' [], cell)
      else case safe_relative_path (fq_path request) of
        None \<Rightarrow> (plain_response 404 [], cell)
      | Some relative \<Rightarrow>
          (case (case cell of Some c \<Rightarrow> Some c | None \<Rightarrow> fs_canonicalize fs root) of
             None \<Rightarrow> (plain_response 404 [], cell)
           | Some canonical_root \<Rightarrow>
               (case fs_canonicalize fs (root @ relative) of
                  None \<Rightarrow> plain_response 404 []
                | Some p \<Rightarrow> if prefix canonical_root p then serve_path fs request p else plain_response 404 [],
                Some canonical_root)))"

section \<open>Options\<close>

datatype masq_error =
    FileUrlEncoding | FileUrlRelative | EmptyDirectory | NoDirectory | NoCurrentDir
  | BadStatusCode | InformationalStatus | BadHeaderName | BadHeaderValue | ContentTooLarge

definition path_of :: "string \<Rightarrow> path" where
  "path_of s = filter (\<lambda>n. n \<noteq> [] \<and> n \<noteq> ''.'') (split_on (CHR ''/'') s)"

text \<open>\<open>parse_file_url\<close>, called for a text that starts with \<open>file:\<close>.\<close>

definition parse_file_url :: "string \<Rightarrow> masq_error + string" where
  "parse_file_url value =
     (let p = drop (length ''file:'') value;
          p = (case strip_prefix ''//'' p of
                 Some rest \<Rightarrow> (case find_idx (\<lambda>c. c = CHR ''/'') rest of Some i \<Rightarrow> drop i rest | None \<Rightarrow> [])
               | None \<Rightarrow> p)
      in and_then (ok_or FileUrlEncoding (percent_decode (takeWhile (\<lambda>c. c \<noteq> CHR ''?'' \<and> c \<noteq> CHR ''#'') p))) (\<lambda>p.
         and_then (ensure (prefix ''/'' p) FileUrlRelative) (\<lambda>_. Inr p)))"

text \<open>\<open>FileHandler::new\<close>: the root of the handler; \<open>current_dir\<close> is that of the process.\<close>

definition file_root :: "files \<Rightarrow> path option \<Rightarrow> string \<Rightarrow> masq_error + path" where
  "file_root fs current_dir directory =
     and_then (ensure (directory \<noteq> []) EmptyDirectory) (\<lambda>_.
     let absolute = prefix ''/'' directory;
         found = (case current_dir of
                    Some cwd \<Rightarrow> fs_metadata fs ((if absolute then [] else cwd) @ path_of directory)
                  | None \<Rightarrow> if absolute then fs_metadata fs (path_of directory) else None) in
     and_then (ensure (case found of Some i \<Rightarrow> fi_dir i | None \<Rightarrow> True) NoDirectory) (\<lambda>_.
     if absolute then Inr (path_of directory)
     else and_then (ok_or NoCurrentDir current_dir) (\<lambda>cwd. Inr (cwd @ path_of directory))))"

section \<open>Where a path leads\<close>

lemma names_slash: "filter (\<lambda>n. n \<noteq> [] \<and> n \<noteq> ''.'') (split_on (CHR ''/'') (trim_start_matches (CHR ''/'') s)) = path_of s"
  unfolding path_of_def trim_start_matches_def by (induction s) auto

lemma split_on_parts: "n \<in> set (split_on c s) \<Longrightarrow> c \<notin> set n \<and> set n \<subseteq> set s"
  by (induction s arbitrary: n) (auto split: list.splits if_splits, blast)

lemma relative_from_names:
  "relative_from (map (\<lambda>n. if n = ''..'' then ParentDir else Normal n) ns) = (if ''..'' \<in> set ns then None else Some ns)"
  by (induction ns) auto

lemma relative_components:
  "relative_from (components s)
    = (let ns = filter (\<lambda>n. n \<noteq> [] \<and> n \<noteq> ''.'') (split_on (CHR ''/'') s) in if ''..'' \<in> set ns then None else Some ns)"
  by (simp add: components_def Let_def relative_from_names)

lemma safe_relative_path_eq:
  "safe_relative_path p = (case percent_decode p of
      None \<Rightarrow> None
    | Some d \<Rightarrow> if CHR 0x5C \<in> set d \<or> CHR 0x00 \<in> set d \<or> ''..'' \<in> set (path_of d) then None else Some (path_of d))"
  by (simp add: safe_relative_path_def relative_components names_slash Let_def split: option.split)

definition name_safe :: "string \<Rightarrow> bool" where
  "name_safe n \<longleftrightarrow> n \<notin> {[], ''.'', ''..''} \<and> CHR ''/'' \<notin> set n \<and> CHR 0x5C \<notin> set n \<and> CHR 0x00 \<notin> set n"

lemma safe_relative_path_SomeE:
  assumes "safe_relative_path p = Some relative"
  obtains d where "percent_decode p = Some d" "CHR 0x5C \<notin> set d" "CHR 0x00 \<notin> set d" "''..'' \<notin> set (path_of d)" "relative = path_of d"
proof (cases "percent_decode p")
  case (Some d)
  let ?bad = "CHR 0x5C \<in> set d \<or> CHR 0x00 \<in> set d \<or> ''..'' \<in> set (path_of d)"
  from assms have "(if ?bad then None else Some (path_of d)) = Some relative" unfolding safe_relative_path_eq Some option.case .
  then have "\<not> ?bad" "relative = path_of d" by (metis option.distinct(1) option.inject)+
  with Some show thesis by (intro that) blast+
qed (use assms in \<open>simp add: safe_relative_path_eq\<close>)

lemma safe_relative_path_names:
  assumes "safe_relative_path p = Some ns" shows "list_all name_safe ns"
proof -
  from assms obtain d where d: "CHR 0x5C \<notin> set d" "CHR 0x00 \<notin> set d" "''..'' \<notin> set (path_of d)" "ns = path_of d"
    by (rule safe_relative_path_SomeE)
  have "name_safe n" if "n \<in> set ns" for n
  proof -
    from that have n: "n \<in> set (split_on (CHR ''/'') d)" "n \<noteq> []" "n \<noteq> ''.''" unfolding d(4) path_of_def by simp_all
    from that d(3,4) have "n \<noteq> ''..''" by metis
    moreover from split_on_parts [OF n(1)] d(1,2) have "CHR ''/'' \<notin> set n" "CHR 0x5C \<notin> set n" "CHR 0x00 \<notin> set n" by blast+
    ultimately show ?thesis using n(2,3) by (simp add: name_safe_def)
  qed
  then show ?thesis by (simp add: list_all_iff)
qed

lemma percent_bytes_append:
  "percent_bytes p = Some d \<Longrightarrow> percent_bytes (p @ q) = map_option ((@) d) (percent_bytes q)"
proof (induction p arbitrary: d rule: percent_bytes.induct)
  case (2 b bs)
  show ?case
  proof (cases "b = 37")
    case True
    with "2.prems" obtain high low rest h l e where bs: "bs = high # low # rest"
      and parts: "hex_value high = Some h" "hex_value low = Some l" "percent_bytes rest = Some e" "d = (push_bit 4 h OR l) # e"
      by (auto split: list.splits option.splits)
    from "2.IH"(1) [OF True bs refl refl parts(1,2,3)] True parts show ?thesis
      by (simp add: bs option.map_comp comp_def)
  next
    case False
    with "2.prems" obtain e where e: "percent_bytes bs = Some e" "d = b # e" by auto
    from "2.IH"(2) [OF False e(1)] False e show ?thesis by (simp add: option.map_comp comp_def)
  qed
qed (cases "percent_bytes q"; simp)

lemma percent_bytes_slash:
  "percent_bytes (p @ [47]) = Some d \<Longrightarrow> \<exists>e. percent_bytes p = Some e \<and> d = e @ [47]"
proof (induction p arbitrary: d rule: percent_bytes.induct)
  case (2 b bs)
  show ?case
  proof (cases "b = 37")
    case True
    have "hex_value 47 = None" by (simp add: hex_value_def)
    with 2 True show ?thesis by (fastforce split: list.splits option.splits simp: Cons_eq_append_conv append_eq_Cons_conv)
  qed (use 2 in auto)
qed simp

lemma hex_digits:
  assumes "d < 16" shows "hex_value (of_nat (of_char (upper_hex d))) = Some (of_nat d)"
proof (cases "d < 10")
  case True
  then have "(of_nat (of_char (upper_hex d)) :: u8) = 48 + of_nat d" "unat (48 + of_nat d :: u8) = 48 + d"
    by (simp_all add: upper_hex_def unat_word_ariths unat_of_nat)
  with True show ?thesis by (simp add: hex_value_def word_le_nat_alt)
next
  case False
  with assms have "(of_nat (of_char (upper_hex d)) :: u8) = 55 + of_nat d" "unat (55 + of_nat d :: u8) = 55 + d"
    by (simp_all add: upper_hex_def unat_word_ariths unat_of_nat)
  with False assms show ?thesis by (simp add: hex_value_def word_le_nat_alt)
qed

lemma hex_join: "push_bit 4 (of_nat (n div 16)) OR of_nat (n mod 16) = (of_nat n :: u8)"
proof -
  have "push_bit 4 (drop_bit 4 n) OR take_bit 4 n = n" by (rule bit_eqI) (auto simp: bit_simps)
  then have "of_nat n = push_bit 4 (of_nat (drop_bit 4 n)) OR (of_nat (take_bit 4 n) :: u8)"
    by (metis of_nat_or_eq of_nat_push_bit)
  then show ?thesis by (simp add: drop_bit_eq_div take_bit_eq_mod)
qed

lemma unreserved_byte: "is_unreserved c \<Longrightarrow> (of_nat (of_char c) :: u8) \<noteq> 37"
proof
  assume u: "is_unreserved c" and "(of_nat (of_char c) :: u8) = 37"
  then have "unat (of_nat (of_char c) :: u8) = 37" by simp
  then have "(of_char c :: nat) = 37" using of_char_less_256 [of c] by (simp add: unat_of_nat)
  then have "of_char c = (of_char (CHR ''%'') :: nat)" by simp
  then have "c = CHR ''%''" by (simp only: of_char_eq_iff)
  with u show False by (simp add: is_unreserved_def is_ascii_alphanumeric_def is_ascii_uppercase_def)
qed

lemma percent_bytes_encode:
  "percent_bytes (as_bytes (percent_encode_segment s) @ q) = map_option ((@) (as_bytes s)) (percent_bytes q)"
proof (induction s)
  case (Cons c s)
  have b: "as_bytes (c # s) = of_nat (of_char c) # as_bytes s" by (simp add: as_bytes_def)
  show ?case
  proof (cases "is_unreserved c")
    case True
    then have "as_bytes (percent_encode_segment (c # s)) = of_nat (of_char c) # as_bytes (percent_encode_segment s)"
      by (simp add: percent_encode_segment_def as_bytes_def)
    with unreserved_byte [OF True] Cons show ?thesis by (simp add: b option.map_comp comp_def)
  next
    case False
    let ?n = "of_char c :: nat"
    have "?n div 16 < 16" "?n mod 16 < 16" using of_char_less_256 [of c] by (simp_all add: less_mult_imp_div_less)
    moreover have "as_bytes (percent_encode_segment (c # s))
        = 37 # of_nat (of_char (upper_hex (?n div 16))) # of_nat (of_char (upper_hex (?n mod 16))) # as_bytes (percent_encode_segment s)"
      using False by (simp add: percent_encode_segment_def as_bytes_def)
    ultimately show ?thesis using Cons by (simp add: hex_digits hex_join b option.map_comp comp_def del: of_nat_mod)
  qed
qed (cases "percent_bytes q"; simp add: percent_encode_segment_def as_bytes_def)

lemma percent_decode_iff: "percent_decode p = Some d \<longleftrightarrow> is_str d \<and> percent_bytes (as_bytes p) = Some (as_bytes d)"
  by (auto simp: percent_decode_def split: option.splits sum.splits dest: from_utf8_is_str)

lemma percent_decode_link:
  assumes "percent_decode p = Some d" and "is_str name" and "tail \<in> {[], ''/''}"
  shows "percent_decode (p @ percent_encode_segment name @ tail) = Some (d @ name @ tail)"
proof -
  have "percent_bytes (as_bytes tail) = Some (as_bytes tail)" "is_str tail"
    using assms(3) by (auto simp: as_bytes_def intro: is_ascii_is_str)
  with assms(1,2) show ?thesis
    by (simp add: percent_decode_iff percent_bytes_append percent_bytes_encode is_str_append)
qed

lemma percent_decode_slash:
  assumes "percent_decode (p @ ''/'') = Some d" shows "\<exists>e. d = e @ ''/''"
proof -
  from assms obtain e where "as_bytes d = e @ [47]"
    using percent_bytes_slash [of "as_bytes p" "as_bytes d"] by (auto simp: percent_decode_iff as_bytes_def)
  then have "d = bytes_chars e @ bytes_chars [47]" by (metis as_bytes_bytes_chars as_bytes_append as_bytes_inject)
  moreover have "bytes_chars [47] = ''/''" by code_simp
  ultimately show ?thesis by auto
qed

lemma split_on_slash: "split_on c (a @ c # b) = split_on c a @ split_on c b"
  by (induction a) (auto split: list.splits)

text \<open>What an entry of a directory can be called.\<close>

definition unix_name :: "string \<Rightarrow> bool" where
  "unix_name n \<longleftrightarrow> n \<notin> {[], ''.'', ''..''} \<and> CHR ''/'' \<notin> set n \<and> CHR 0x00 \<notin> set n"

lemma path_of_link:
  assumes "unix_name name" and "tail \<in> {[], ''/''}"
  shows "path_of (e @ CHR ''/'' # name @ tail) = path_of e @ [name]"
proof -
  have "split_on (CHR ''/'') (name @ tail) = name # (if tail = [] then [] else [[]])"
    using assms by (auto simp: unix_name_def split_on_single split_on_snoc)
  with assms(1) show ?thesis by (auto simp: path_of_def split_on_slash unix_name_def)
qed

lemma path_of_slash: "path_of (e @ ''/'') = path_of e"
  using split_on_slash [of "CHR ''/''" e "[]"] by (simp add: path_of_def)

lemma safe_relative_path_link:
  assumes "safe_relative_path p = Some relative" and "suffix ''/'' p" and "unix_name name" and "is_str name" and "tail \<in> {[], ''/''}"
  shows "safe_relative_path (p @ percent_encode_segment name @ tail)
    = (if CHR 0x5C \<in> set name then None else Some (relative @ [name]))"
proof -
  from assms(1) obtain d where d: "percent_decode p = Some d" "CHR 0x5C \<notin> set d" "CHR 0x00 \<notin> set d" "''..'' \<notin> set (path_of d)"
    "relative = path_of d" by (rule safe_relative_path_SomeE)
  from assms(2) d(1) obtain e where e: "d = e @ ''/''" using percent_decode_slash by (auto simp: suffix_def)
  with path_of_link [OF assms(3,5), of e] d(4,5) have path: "path_of (d @ name @ tail) = relative @ [name]" by (simp add: path_of_slash)
  from assms(3) have name: "CHR 0x00 \<notin> set name" "name \<noteq> ''..''" by (simp_all add: unix_name_def)
  from assms(5) have tail: "CHR 0x5C \<notin> set tail" "CHR 0x00 \<notin> set tail" by auto
  show ?thesis using name tail d(2-5)
    unfolding safe_relative_path_eq percent_decode_link [OF d(1) assms(4,5)] option.case path by simp
qed

text \<open>No text of a listing can open a tag or leave an attribute.\<close>

definition no_markup :: "string \<Rightarrow> bool" where
  "no_markup s \<longleftrightarrow> CHR ''<'' \<notin> set s \<and> CHR ''>'' \<notin> set s \<and> CHR 0x22 \<notin> set s"

lemma replace_by_set: "set (replace_by c t s) = (set s - {c}) \<union> (if c \<in> set s then set t else {})"
  by (auto simp: replace_by_def)

lemma html_escape_no_markup: "no_markup (html_escape s)"
  by (auto simp: no_markup_def html_escape_def replace_by_set)

lemma upper_hex_no_markup: "d < 16 \<Longrightarrow> no_markup [upper_hex d]"
proof -
  have "list_all (\<lambda>d. no_markup [upper_hex d]) [0..<16]" by code_simp
  then show "d < 16 \<Longrightarrow> ?thesis" by (simp add: list_all_iff)
qed

lemma no_markup_concat: "(\<And>x. x \<in> set xs \<Longrightarrow> no_markup (f x)) \<Longrightarrow> no_markup (concat (map f xs))"
  by (auto simp: no_markup_def)

lemma percent_encode_no_markup: "no_markup (percent_encode_segment s)"
proof -
  have "no_markup (if is_unreserved c then [c] else [CHR ''%'', upper_hex (of_char c div 16), upper_hex (of_char c mod 16)])" for c
  proof (cases "is_unreserved c")
    case True
    then show ?thesis by (auto simp: no_markup_def is_unreserved_def is_ascii_alphanumeric_def is_ascii_uppercase_def)
  next
    case False
    have "(of_char c :: nat) div 16 < 16" "(of_char c :: nat) mod 16 < 16"
      using of_char_less_256 [of c] by (simp_all add: less_mult_imp_div_less)
    with False upper_hex_no_markup show ?thesis by (simp add: no_markup_def)
  qed
  then show ?thesis unfolding percent_encode_segment_def by (rule no_markup_concat)
qed

lemma list_names_set: "list_names n entries = Some names \<Longrightarrow> (Some name, d) \<in> set entries \<Longrightarrow> (name, d) \<in> set names"
  by (induction n entries arbitrary: names rule: list_names.induct) (auto split: if_splits)

lemma concat_map_split: "x \<in> set xs \<Longrightarrow> \<exists>a b. concat (map f xs) = a @ f x @ b"
  by (induction xs) (auto, metis append.assoc)

section \<open>What is served\<close>

lemmas response_defs = plain_response_def response_with_header_def

lemma serve_content_ok:
  "mr_status (serve_content fs p) = 200 \<Longrightarrow> fs_read fs p = Some (mr_body (serve_content fs p))"
  by (auto simp: serve_content_def response_defs split: option.splits if_splits)

lemma serve_path_ok:
  assumes "mr_status (serve_path fs request p) = 200"
  shows "\<exists>i. fs_metadata fs p = Some i
    \<and> (if fi_dir i then fs_read fs (p @ [''index.html'']) = Some (mr_body (serve_path fs request p))
          \<or> serve_path fs request p = directory_listing fs p (fq_path request)
       else fs_read fs p = Some (mr_body (serve_path fs request p)))"
proof (cases "fs_metadata fs p")
  case (Some i)
  show ?thesis
  proof (cases "fi_dir i")
    case True
    show ?thesis
    proof (cases "case fs_metadata fs (p @ [''index.html'']) of Some i \<Rightarrow> fi_file i | None \<Rightarrow> False")
      case index: True
      with assms Some True show ?thesis
        by (auto simp: serve_path_def response_with_header_def plain_response_def dest: serve_content_ok split: if_splits)
    next
      case False
      with assms Some True show ?thesis
        by (auto simp: serve_path_def response_with_header_def plain_response_def split: if_splits)
    qed
  qed (use assms Some in \<open>auto simp: serve_path_def dest: serve_content_ok\<close>)
qed (use assms in \<open>simp add: serve_path_def plain_response_def\<close>)

text \<open>C32: The masquerade serves nothing from outside of its directory by the path of a request. A successful response belongs to a path whose names
  are plain: none is empty, a dot or two dots, or has a slash, a backslash or NUL, also behind percent signs. The
  canonical form of that path under the root lies below the canonical root, and the body is its content, the content of
  \<open>index.html\<close> in it, or its listing.
\<close>

theorem masquerade_stays_in_root:
  assumes "serve_file fs root cell request = (response, cell')" and "mr_status response = 200"
  shows "\<exists>relative canonical_root p i. safe_relative_path (fq_path request) = Some relative \<and> list_all name_safe relative
    \<and> (cell = Some canonical_root \<or> cell = None \<and> fs_canonicalize fs root = Some canonical_root) \<and> cell' = Some canonical_root
    \<and> fs_canonicalize fs (root @ relative) = Some p \<and> prefix canonical_root p \<and> fs_metadata fs p = Some i
    \<and> (if fi_dir i then fs_read fs (p @ [''index.html'']) = Some (mr_body response) \<or> response = directory_listing fs p (fq_path request)
       else fs_read fs p = Some (mr_body response))"
proof -
  note [simp] = plain_response_def response_with_header_def
  from assms obtain relative where relative: "safe_relative_path (fq_path request) = Some relative"
    by (auto simp: serve_file_def split: option.splits if_splits)
  with assms obtain canonical_root where root: "(case cell of Some c \<Rightarrow> Some c | None \<Rightarrow> fs_canonicalize fs root) = Some canonical_root"
    by (auto simp: serve_file_def split: option.splits if_splits)
  with assms relative have response: "cell' = Some canonical_root" "response = (case fs_canonicalize fs (root @ relative) of
      None \<Rightarrow> plain_response 404 [] | Some p \<Rightarrow> if prefix canonical_root p then serve_path fs request p else plain_response 404 [])"
    by (auto simp: serve_file_def split: if_splits)
  with assms(2) obtain p where p: "fs_canonicalize fs (root @ relative) = Some p" "prefix canonical_root p" "response = serve_path fs request p"
    by (auto split: option.splits if_splits)
  from serve_path_ok [of fs request p] assms(2) p(3) obtain i where "fs_metadata fs p = Some i"
    "if fi_dir i then fs_read fs (p @ [''index.html'']) = Some (mr_body response) \<or> response = directory_listing fs p (fq_path request)
     else fs_read fs p = Some (mr_body response)" by auto
  moreover have "cell = Some canonical_root \<or> cell = None \<and> fs_canonicalize fs root = Some canonical_root"
    using root by (cases cell) simp_all
  ultimately show ?thesis using relative safe_relative_path_names [OF relative] response(1) p(1,2) by blast
qed

text \<open>A file system with one directory, \<open>/w\<close>, and one file in it, \<open>/w/a\<close>.\<close>

definition one_file :: files where
  "one_file = \<lparr>fs_canonicalize = Some,
     fs_metadata = [[''w''] \<mapsto> \<lparr>fi_dir = True, fi_file = False, fi_len = 0\<rparr>, [''w'', ''a''] \<mapsto> \<lparr>fi_dir = False, fi_file = True, fi_len = 1\<rparr>],
     fs_read = [[''w'', ''a''] \<mapsto> [7]], fs_list = [[''w''] \<mapsto> [(Some ''a'', False)]]\<rparr>"

lemma one_path: "safe_relative_path ''/a'' = Some [''a'']" "safe_relative_path ''/'' = Some []"
proof -
  have "percent_decode s = Some s" if "s = ''/a'' \<or> s = ''/''" for s
    using that by (auto simp: percent_decode_iff as_bytes_def intro: is_ascii_is_str)
  then show "safe_relative_path ''/a'' = Some [''a'']" "safe_relative_path ''/'' = Some []"
    by (simp_all add: safe_relative_path_eq path_of_def)
qed

theorem masquerade_stays_in_root_witness:
  "\<exists>request response. serve_file one_file [''w''] None request = (response, Some [''w'']) \<and> mr_body response = [7]
    \<and> (\<exists>p. fs_canonicalize one_file ([''w''] @ [''a'']) = Some p \<and> prefix [''w''] p \<and> fs_read one_file p = Some [7])"
proof -
  let ?request = "\<lparr>fq_method = ''GET'', fq_path = ''/a'', fq_query = None\<rparr>"
  let ?response = "\<lparr>mr_status = 200, mr_headers = [(''content-type'', content_type [''w'', ''a''])], mr_body = [7]\<rparr>"
  have serve: "serve_file one_file [''w''] None ?request = (?response, Some [''w''])"
    by (simp add: serve_file_def one_path one_file_def serve_path_def serve_content_def plain_response_def MAX_MASQUERADE_RESPONSE_SIZE_def)
  note out = masquerade_stays_in_root [OF serve, unfolded file_request.select_convs masq_response.select_convs, OF refl]
  then obtain relative p i where "safe_relative_path ''/a'' = Some relative" and p: "fs_canonicalize one_file ([''w''] @ relative) = Some p"
    "fs_metadata one_file p = Some i" "if fi_dir i then fs_read one_file (p @ [''index.html'']) = Some [7]
      \<or> ?response = directory_listing one_file p ''/a'' else fs_read one_file p = Some [7]" and "prefix [''w''] p"
    by (elim exE conjE) (metis option.inject)
  then have relative: "relative = [''a'']" by (simp add: one_path)
  with p(1,2) have "p = [''w'', ''a'']" "\<not> fi_dir i" by (auto simp: one_file_def)
  with p relative \<open>prefix [''w''] p\<close>
  have "fs_canonicalize one_file ([''w''] @ [''a'']) = Some p \<and> prefix [''w''] p \<and> fs_read one_file p = Some [7]" by simp
  with serve show ?thesis by (intro exI [of _ ?request] exI [of _ ?response]) auto
qed

text \<open>C33: The link of an entry in a listing leads to the entry, unless its name has a backslash. In a listing that is served, every entry
  whose name is text has a line with a link, and neither the link nor the text beside it can open a tag or leave its attribute. The
  link followed from the path of the listing is the path of the entry in the directory, whatever legal name it has, except
  that the path of an entry with a backslash in its name, which the listing shows like the others, is refused.
\<close>

theorem masquerade_listing_links:
  assumes "mr_status (directory_listing fs p path) = 200" and "fs_list fs p = Some entries" and "(Some name, d) \<in> set entries"
    and "safe_relative_path path = Some relative" and "suffix ''/'' path" and "is_str name" and "unix_name name"
  shows "\<exists>before link shown after.
    mr_body (directory_listing fs p path)
      = as_bytes (before @ ''<a href='' @ [CHR 0x22] @ link @ [CHR 0x22, CHR ''>''] @ shown @ ''</a>'' @ [CHR 0x0A] @ after)
    \<and> safe_relative_path (path @ link) = (if CHR 0x5C \<in> set name then None else Some (relative @ [name])) \<and> no_markup link \<and> no_markup shown"
proof -
  from assms(1,2) obtain names where names: "list_names 0 entries = Some names"
    "mr_body (directory_listing fs p path) = as_bytes (listing_html path (sort_key fst names))"
    by (auto simp: directory_listing_def plain_response_def Let_def split: option.splits if_splits)
  from list_names_set [OF names(1) assms(3)] have "(name, d) \<in> set (sort_key fst names)" by simp
  then obtain a b where "concat (map listing_link (sort_key fst names)) = a @ listing_link (name, d) @ b"
    using concat_map_split [of "(name, d)" _ listing_link] by blast
  then obtain before after where html: "listing_html path (sort_key fst names) = before @ listing_link (name, d) @ after"
    unfolding listing_html_def Let_def by (metis append.assoc)
  let ?slash = "if d then ''/'' else []"
  have "listing_link (name, d) = ''<a href='' @ [CHR 0x22] @ (percent_encode_segment name @ ?slash) @ [CHR 0x22, CHR ''>'']
      @ (html_escape name @ ?slash) @ ''</a>'' @ [CHR 0x0A]" by (simp add: listing_link_def)
  moreover have "no_markup (percent_encode_segment name @ ?slash)" "no_markup (html_escape name @ ?slash)"
    using percent_encode_no_markup [of name] html_escape_no_markup [of name] by (auto simp: no_markup_def)
  moreover have "safe_relative_path (path @ percent_encode_segment name @ ?slash)
      = (if CHR 0x5C \<in> set name then None else Some (relative @ [name]))"
    by (rule safe_relative_path_link [OF assms(4,5,7,6)]) simp
  ultimately show ?thesis unfolding names(2) html
    by (intro exI [of _ before] exI [of _ "percent_encode_segment name @ ?slash"] exI [of _ "html_escape name @ ?slash"] exI [of _ after]) simp
qed

text \<open>A listing of two files, one of which has a backslash in its name.\<close>

theorem masquerade_listing_links_witness:
  "\<exists>before link shown after before' link' shown' after' fs. fs_list fs [''w''] = Some [(Some ''a'', False), (Some [CHR 0x5C], False)]
    \<and> mr_body (directory_listing fs [''w''] ''/'')
      = as_bytes (before @ ''<a href='' @ [CHR 0x22] @ link @ [CHR 0x22, CHR ''>''] @ shown @ ''</a>'' @ [CHR 0x0A] @ after)
    \<and> safe_relative_path (''/'' @ link) = Some [''a'']
    \<and> mr_body (directory_listing fs [''w''] ''/'')
      = as_bytes (before' @ ''<a href='' @ [CHR 0x22] @ link' @ [CHR 0x22, CHR ''>''] @ shown' @ ''</a>'' @ [CHR 0x0A] @ after')
    \<and> safe_relative_path (''/'' @ link') = None"
proof -
  let ?fs = "one_file\<lparr>fs_list := \<lambda>_. Some [(Some ''a'', False), (Some [CHR 0x5C], False)]\<rparr>"
  have sorted: "sort_key fst [(''a'', False), ([CHR 0x5C], False)] = [([CHR 0x5C], False), (''a'', False)]" by code_simp
  have "length (listing_html ''/'' [([CHR 0x5C], False), (''a'', False)]) \<le> 1000"
    by (simp add: listing_html_def listing_link_def html_escape_def replace_by_def percent_encode_segment_def is_unreserved_def
        is_ascii_alphanumeric_def)
  then have status: "mr_status (directory_listing ?fs [''w''] ''/'') = 200"
    by (simp add: directory_listing_def MAX_MASQUERADE_RESPONSE_SIZE_def plain_response_def sorted)
  have str: "is_str ''a''" "is_str [CHR 0x5C]" by (auto intro: is_ascii_is_str)
  have list: "fs_list ?fs [''w''] = Some [(Some ''a'', False), (Some [CHR 0x5C], False)]" by simp
  have name: "unix_name ''a''" "unix_name [CHR 0x5C]" by (simp_all add: unix_name_def)
  have mem: "(Some ''a'', False) \<in> set [(Some ''a'', False), (Some [CHR 0x5C], False)]"
    "(Some [CHR 0x5C], False) \<in> set [(Some ''a'', False), (Some [CHR 0x5C], False)]" by simp_all
  have slash: "suffix ''/'' ''/''" by simp
  from masquerade_listing_links [OF status list mem(1) one_path(2) slash str(1) name(1)] obtain b1 l1 s1 a1 where
    one: "mr_body (directory_listing ?fs [''w''] ''/'')
      = as_bytes (b1 @ ''<a href='' @ [CHR 0x22] @ l1 @ [CHR 0x22, CHR ''>''] @ s1 @ ''</a>'' @ [CHR 0x0A] @ a1)"
      "safe_relative_path (''/'' @ l1) = (if CHR 0x5C \<in> set ''a'' then None else Some ([] @ [''a'']))" by blast
  from masquerade_listing_links [OF status list mem(2) one_path(2) slash str(2) name(2)] obtain b2 l2 s2 a2 where
    two: "mr_body (directory_listing ?fs [''w''] ''/'')
      = as_bytes (b2 @ ''<a href='' @ [CHR 0x22] @ l2 @ [CHR 0x22, CHR ''>''] @ s2 @ ''</a>'' @ [CHR 0x0A] @ a2)"
      "safe_relative_path (''/'' @ l2) = (if CHR 0x5C \<in> set [CHR 0x5C] then None else Some ([] @ [[CHR 0x5C]]))" by blast
  have "CHR 0x5C \<notin> set ''a''" "CHR 0x5C \<in> set [CHR 0x5C]" by simp_all
  with one(2) two(2) have "safe_relative_path (''/'' @ l1) = Some [''a'']" "safe_relative_path (''/'' @ l2) = None" by simp_all
  with list one(1) two(1) show ?thesis by blast
qed

text \<open>C40: The index of a directory escapes the masquerade. A path that leads out of the root by a symbolic link is refused, but
  \<open>index.html\<close> is joined to the path after the check: when it is such a link, the request for its directory is answered with the
  content outside of the root that the request for the file itself is refused.
\<close>

theorem masquerade_index_escapes:
  assumes "fs_canonicalize fs root = Some root" and "fs_metadata fs root = Some i" and "fi_dir i"
    and "fs_canonicalize fs (root @ [''index.html'']) = Some outside" and "\<not> prefix root outside"
    and "fs_metadata fs (root @ [''index.html'']) = Some j" and "fi_file j" and "fi_len j \<le> MAX_MASQUERADE_RESPONSE_SIZE"
    and "fs_read fs (root @ [''index.html'']) = Some secret"
  shows "mr_status (fst (serve_file fs root None \<lparr>fq_method = ''GET'', fq_path = ''/index.html'', fq_query = None\<rparr>)) = 404
    \<and> mr_status (fst (serve_file fs root None \<lparr>fq_method = ''GET'', fq_path = ''/'', fq_query = None\<rparr>)) = 200
    \<and> mr_body (fst (serve_file fs root None \<lparr>fq_method = ''GET'', fq_path = ''/'', fq_query = None\<rparr>)) = secret"
proof -
  have "percent_decode ''/index.html'' = Some ''/index.html''" by (auto simp: percent_decode_iff as_bytes_def intro: is_ascii_is_str)
  then have "safe_relative_path ''/index.html'' = Some [''index.html'']" by (simp add: safe_relative_path_eq path_of_def)
  with assms show ?thesis by (simp add: serve_file_def one_path serve_path_def serve_content_def plain_response_def)
qed

theorem masquerade_index_escapes_witness:
  "\<exists>fs. fs_canonicalize fs [''w'', ''index.html''] = Some [''secret'']
    \<and> mr_status (fst (serve_file fs [''w''] None \<lparr>fq_method = ''GET'', fq_path = ''/index.html'', fq_query = None\<rparr>)) = 404
    \<and> mr_body (fst (serve_file fs [''w''] None \<lparr>fq_method = ''GET'', fq_path = ''/'', fq_query = None\<rparr>)) = [7]"
proof -
  let ?dir = "\<lparr>fi_dir = True, fi_file = False, fi_len = 0\<rparr>" and ?file = "\<lparr>fi_dir = False, fi_file = True, fi_len = 1\<rparr>"
  let ?fs = "\<lparr>fs_canonicalize = [[''w''] \<mapsto> [''w''], [''w'', ''index.html''] \<mapsto> [''secret'']],
    fs_metadata = [[''w''] \<mapsto> ?dir, [''w'', ''index.html''] \<mapsto> ?file], fs_read = [[''w'', ''index.html''] \<mapsto> [7]], fs_list = \<lambda>_. None\<rparr>"
  have "1 \<le> MAX_MASQUERADE_RESPONSE_SIZE" by (simp add: MAX_MASQUERADE_RESPONSE_SIZE_def)
  with masquerade_index_escapes [of ?fs "[''w'']" ?dir "[''secret'']" ?file "[7]"] show ?thesis by (intro exI [of _ ?fs]) simp
qed

end
