(* ===== verification/Masquerade_Proxy.thy ===== *)
theory Masquerade_Proxy
  imports Masquerade_Files Api_Core
begin

text \<open>
  The masquerade of the Hysteria2 inbound that passes requests on to a web server, and the one with a fixed answer
  (\<open>masquerade.rs\<close>): the target of a URL, the request that is written, the response that is read, the headers that stay
  between two hops, and the options. A header map is the list of its fields with names in lower case, in the order of the
  iteration. URIs are a library: \<open>parse_uri\<close> yields what the methods of \<open>http::Uri\<close> return. \<open>exchange\<close> is the
  connection, with TLS when the target asks for it: what comes back for the bytes that are sent.
\<close>

section \<open>The target\<close>

record masq_uri =
  mu_scheme :: "string option"
  mu_authority :: "(string \<times> string \<times> u16 option) option"
  mu_path :: string
  mu_query :: "string option"

record proxy_target =
  pt_https :: bool
  pt_host :: string
  pt_port :: u16
  pt_authority :: string
  pt_base_path :: string
  pt_base_query :: "string option"

datatype proxy_error =
    BadTargetUrl | NoScheme | BadScheme | NoHost | HasUserinfo | BadAddress | Exchange | BadForwarded | ResponseTooBig
  | NoHeadEnd | HeadNotUtf8 | BadVersion | NoStatus | BadStatus | BadLine | BadName | BadValue | BadLength | ShortBody
  | NoChunkLine | ChunkNotUtf8 | BadChunkLength | ChunkPanics | ShortChunk | BadChunkEnd

text \<open>The parts of an authority: its text, its host and its port.\<close>

definition parse_target :: "(string \<Rightarrow> masq_uri option) \<Rightarrow> string \<Rightarrow> proxy_error + proxy_target" where
  "parse_target parse_uri value =
     and_then (ok_or BadTargetUrl (parse_uri value)) (\<lambda>uri.
     and_then (ok_or NoScheme (mu_scheme uri)) (\<lambda>scheme.
     and_then (ensure (scheme \<in> {''http'', ''https''}) BadScheme) (\<lambda>_.
     and_then (ok_or NoHost (mu_authority uri)) (\<lambda>(authority, h, p).
     and_then (ensure (CHR ''@'' \<notin> set authority) HasUserinfo) (\<lambda>_.
     Inr \<lparr>pt_https = (scheme = ''https''), pt_host = h,
       pt_port = (case p of Some n \<Rightarrow> n | None \<Rightarrow> if scheme = ''https'' then 443 else 80),
       pt_authority = authority, pt_base_path = (if mu_path uri = [] then ''/'' else mu_path uri), pt_base_query = mu_query uri\<rparr>)))))"

definition join_url_path :: "string \<Rightarrow> string \<Rightarrow> string" where
  "join_url_path base request =
     (if suffix ''/'' base \<and> prefix ''/'' request then base @ drop 1 request
      else if \<not> suffix ''/'' base \<and> \<not> prefix ''/'' request then base @ ''/'' @ request
      else base @ request)"

definition request_target :: "proxy_target \<Rightarrow> string \<Rightarrow> string option \<Rightarrow> string" where
  "request_target target p query =
     (let joined = join_url_path (pt_base_path target) p in
      case (pt_base_query target, query) of
        (None, None) \<Rightarrow> joined
      | (Some base, None) \<Rightarrow> joined @ ''?'' @ base
      | (None, Some q) \<Rightarrow> joined @ ''?'' @ q
      | (Some base, Some q) \<Rightarrow> joined @ ''?'' @ base @ ''&'' @ q)"

section \<open>Headers of one hop\<close>

text \<open>\<open>HeaderName::from_bytes\<close>: the characters of a token, in lower case.\<close>

definition header_name :: "string \<Rightarrow> string option" where
  "header_name n =
     (if n \<noteq> [] \<and> length n \<le> 65535 \<and> list_all (\<lambda>c. is_ascii_alphanumeric c \<or> c \<in> set ''!#$%&*+-.^_|~'' \<union> {CHR 0x27, CHR 0x60}) n
      then Some (to_ascii_lowercase n) else None)"

definition HOP_BY_HOP :: "string list" where
  "HOP_BY_HOP = [''connection'', ''proxy-authenticate'', ''proxy-authorization'', ''te'', ''trailer'', ''transfer-encoding'', ''upgrade'',
     ''keep-alive'']"

definition remove_header :: "string \<Rightarrow> header_list \<Rightarrow> header_list" where
  "remove_header name hs = filter (\<lambda>h. fst h \<noteq> name) hs"

definition connection_headers :: "header_list \<Rightarrow> string list" where
  "connection_headers hs =
     List.map_filter (\<lambda>n. header_name (trim n))
       (concat (map (\<lambda>h. split_on (CHR '','') (snd h)) (filter (\<lambda>h. fst h = ''connection'' \<and> header_value_ok (snd h)) hs)))"

definition remove_hop_by_hop_headers :: "header_list \<Rightarrow> header_list" where
  "remove_hop_by_hop_headers hs = fold remove_header (connection_headers hs @ HOP_BY_HOP) hs"

text \<open>\<open>HeaderMap::insert\<close>: the value takes the place of all that the name had.\<close>

fun insert_field :: "string \<Rightarrow> string \<Rightarrow> header_list \<Rightarrow> header_list" where
  "insert_field name v [] = [(name, v)]"
| "insert_field name v (h # hs) = (if fst h = name then (name, v) # remove_header name hs else h # insert_field name v hs)"

section \<open>The request\<close>

record proxy_request =
  pr_method :: string
  pr_authority :: "string option"
  pr_path :: string
  pr_query :: "string option"
  pr_headers :: header_list
  pr_body :: bytes

definition forwarded_for :: "ip_addr \<Rightarrow> header_list \<Rightarrow> string" where
  "forwarded_for source hs =
     (case find (\<lambda>h. fst h = ''x-forwarded-for'') hs of
        Some (_, existing) \<Rightarrow> if header_value_ok existing \<and> existing \<noteq> [] then existing @ '', '' @ show_ip source else show_ip source
      | None \<Rightarrow> show_ip source)"

definition proxy_headers :: "ip_addr \<Rightarrow> header_list \<Rightarrow> proxy_error + header_list" where
  "proxy_headers source hs =
     (let hs = remove_header ''content-length'' (remove_header ''host'' (remove_hop_by_hop_headers hs));
          forwarded = forwarded_for source hs in
      and_then (ensure (header_value_ok forwarded) BadForwarded) (\<lambda>_. Inr (insert_field ''x-forwarded-for'' forwarded hs)))"

definition proxy_head :: "proxy_target \<Rightarrow> bool \<Rightarrow> proxy_request \<Rightarrow> header_list \<Rightarrow> string" where
  "proxy_head target rewrite_host request hs =
     (let h = (if rewrite_host then pt_authority target
               else case pr_authority request of Some a \<Rightarrow> a | None \<Rightarrow> pt_authority target) in
      pr_method request @ '' '' @ request_target target (pr_path request) (pr_query request) @ '' HTTP/1.1'' @ crlf
      @ ''Host: '' @ h @ crlf
      @ concat (map (\<lambda>(name, v). name @ '': '' @ v @ crlf) hs)
      @ (if pr_body request \<noteq> [] \<or> pr_method request \<in> {''POST'', ''PUT'', ''PATCH''}
         then ''Content-Length: '' @ show_nat (length (pr_body request)) @ crlf else [])
      @ ''Connection: close'' @ crlf @ crlf)"

definition encode_proxy_request :: "proxy_target \<Rightarrow> bool \<Rightarrow> ip_addr \<Rightarrow> proxy_request \<Rightarrow> proxy_error + bytes" where
  "encode_proxy_request target rewrite_host source request =
     and_then (proxy_headers source (pr_headers request)) (\<lambda>hs.
     Inr (as_bytes (proxy_head target rewrite_host request hs) @ pr_body request))"

section \<open>The response\<close>

text \<open>\<open>decode_chunked\<close>; \<open>size + 2\<close> is an addition of \<open>usize\<close> and panics where it overflows.\<close>

function decode_chunked_from :: "bytes \<Rightarrow> bytes \<Rightarrow> proxy_error + bytes" where
  "decode_chunked_from decoded bs =
     (case find_sub CRLF bs of
        None \<Rightarrow> Inl NoChunkLine
      | Some line_end \<Rightarrow>
          and_then (from_utf8 ChunkNotUtf8 (take line_end bs)) (\<lambda>line.
          and_then (ok_or BadChunkLength (parse_uint 16 USIZE_MAX (trim (hd (split_on (CHR '';'') line))))) (\<lambda>n.
          let rest = drop (line_end + 2) bs in
          if n = 0 then Inr decoded
          else if USIZE_MAX < n + 2 then Inl ChunkPanics
          else and_then (ensure (n + 2 \<le> length rest) ShortChunk) (\<lambda>_.
               and_then (ensure (take 2 (drop n rest) = CRLF) BadChunkEnd) (\<lambda>_.
               decode_chunked_from (decoded @ take n rest) (drop (n + 2) rest))))))"
  by pat_completeness auto
termination
proof (relation "measure (\<lambda>(_, r). length r)")
  fix decoded bs :: bytes and line_end line n rest u v
  assume "find_sub CRLF bs = Some line_end" and "rest = drop (line_end + 2) bs"
  with find_sub_shrinks [of CRLF bs line_end]
  show "((decoded @ take n rest, drop (n + 2) rest), decoded, bs) \<in> measure (\<lambda>(_, r). length r)" by simp
qed simp

declare decode_chunked_from.simps [simp del]

text \<open>The loop over the lines behind the status line.\<close>

definition proxy_field :: "string \<Rightarrow> proxy_error + (string \<times> string)" where
  "proxy_field line =
     and_then (ok_or BadLine (split_once (CHR '':'') line)) (\<lambda>(name, v).
     and_then (ok_or BadName (header_name name)) (\<lambda>name.
     and_then (ensure (header_value_ok (trim v)) BadValue) (\<lambda>_. Inr (name, trim v))))"

definition proxy_status :: "string \<Rightarrow> proxy_error + nat" where
  "proxy_status line =
     (let parts = split_on (CHR '' '') line in
      and_then (ensure (hd parts = ''HTTP/1.0'' \<or> hd parts = ''HTTP/1.1'') BadVersion) (\<lambda>_.
      and_then (ok_or NoStatus (case tl parts of [] \<Rightarrow> None | p # _ \<Rightarrow> Some p)) (\<lambda>p.
      and_then (ok_or BadStatus (parse_uint 10 65535 p)) (\<lambda>status.
      and_then (ensure (100 \<le> status \<and> status \<le> 999) BadStatus) (\<lambda>_. Inr status)))))"

definition proxy_body :: "bool \<Rightarrow> nat \<Rightarrow> header_list \<Rightarrow> bytes \<Rightarrow> proxy_error + bytes" where
  "proxy_body is_head status hs raw =
     (if is_head \<or> status = 204 \<or> status = 304 then Inr []
      else if list_ex (\<lambda>h. fst h = ''transfer-encoding'' \<and> header_value_ok (snd h)
                \<and> list_ex (\<lambda>e. eq_ignore_ascii_case (trim e) ''chunked'') (split_on (CHR '','') (snd h))) hs
      then decode_chunked_from [] raw
      else case find (\<lambda>h. fst h = ''content-length'') hs of
        Some (_, v) \<Rightarrow>
          if header_value_ok v
          then and_then (ok_or BadLength (parse_uint 10 USIZE_MAX v)) (\<lambda>n.
               and_then (ensure (n \<le> length raw) ShortBody) (\<lambda>_. Inr (take n raw)))
          else Inr raw
      | None \<Rightarrow> Inr raw)"

definition parse_proxy_response :: "bytes \<Rightarrow> bool \<Rightarrow> proxy_error + masq_response" where
  "parse_proxy_response bs is_head =
     and_then (ok_or NoHeadEnd (find_sub (CRLF @ CRLF) bs)) (\<lambda>header_end.
     and_then (from_utf8 HeadNotUtf8 (take header_end bs)) (\<lambda>head.
     let lines = split_crlf head in
     and_then (proxy_status (hd lines)) (\<lambda>status.
     and_then (try_map proxy_field (tl lines)) (\<lambda>hs.
     and_then (proxy_body is_head status hs (drop (header_end + 4) bs)) (\<lambda>body.
     let hs = remove_hop_by_hop_headers hs in
     Inr \<lparr>mr_status = status, mr_headers = (if is_head then hs else remove_header ''content-length'' hs), mr_body = body\<rparr>)))))"

text \<open>\<open>proxy_request\<close>; at most one byte more than a response may have is read.\<close>

definition proxy_exchange ::
    "(bool \<Rightarrow> address \<Rightarrow> bytes \<Rightarrow> bytes option) \<Rightarrow> proxy_target \<Rightarrow> bool \<Rightarrow> ip_addr \<Rightarrow> proxy_request \<Rightarrow> proxy_error + masq_response" where
  "proxy_exchange exchange target rewrite_host source request =
     and_then (map_err (\<lambda>_. BadAddress) (new_address (pt_host target) (pt_port target))) (\<lambda>destination.
     and_then (encode_proxy_request target rewrite_host source request) (\<lambda>sent.
     and_then (ok_or Exchange (exchange (pt_https target) destination sent)) (\<lambda>received.
     let response = take (MAX_MASQUERADE_RESPONSE_SIZE + 1) received in
     and_then (ensure (length response \<le> MAX_MASQUERADE_RESPONSE_SIZE) ResponseTooBig) (\<lambda>_.
     parse_proxy_response response (pr_method request = ''HEAD'')))))"

section \<open>Options\<close>

text \<open>\<open>FixedHandler\<close>: the response of its options; \<open>headers\<close> are in the order of the iteration over the hash map.\<close>

definition fixed_field :: "string \<times> string list \<Rightarrow> masq_error + header_list" where
  "fixed_field field =
     and_then (ok_or BadHeaderName (header_name (fst field))) (\<lambda>name.
     try_map (\<lambda>v. and_then (ensure (header_value_ok v) BadHeaderValue) (\<lambda>_. Inr (name, v))) (snd field))"

definition fixed_response :: "u16 \<Rightarrow> (string \<times> string list) list \<Rightarrow> string \<Rightarrow> masq_error + masq_response" where
  "fixed_response status_code headers content =
     (let status = (if status_code = 0 then 200 else unat status_code) in
      and_then (ensure (100 \<le> status \<and> status \<le> 999) BadStatusCode) (\<lambda>_.
      and_then (ensure (\<not> (100 \<le> status \<and> status \<le> 199)) InformationalStatus) (\<lambda>_.
      and_then (try_map fixed_field headers) (\<lambda>fields.
      and_then (ensure (length content \<le> MAX_MASQUERADE_RESPONSE_SIZE) ContentTooLarge) (\<lambda>_.
      Inr \<lparr>mr_status = status, mr_headers = concat fields, mr_body = as_bytes content\<rparr>)))))"

datatype masquerade_options =
    MasqueradeUrl string
  | MasqueradeFile string
  | MasqueradeProxy string bool
  | MasqueradeString u16 "(string \<times> string list) list" string

datatype masquerade_handler = FileHandler path | ProxyHandler proxy_target bool | FixedHandler masq_response

text \<open>\<open>build\<close>; the error of the URL of a proxy is passed on.\<close>

definition build_masquerade ::
    "files \<Rightarrow> path option \<Rightarrow> (string \<Rightarrow> masq_uri option) \<Rightarrow> masquerade_options option
      \<Rightarrow> (masq_error + proxy_error) + masquerade_handler option" where
  "build_masquerade fs current_dir parse_uri options =
     (case options of
        None \<Rightarrow> Inr None
      | Some (MasqueradeUrl url) \<Rightarrow>
          if prefix ''file:'' url
          then map_err Inl (and_then (parse_file_url url) (\<lambda>directory.
               and_then (file_root fs current_dir directory) (\<lambda>root. Inr (Some (FileHandler root)))))
          else map_err Inr (and_then (parse_target parse_uri url) (\<lambda>target. Inr (Some (ProxyHandler target False))))
      | Some (MasqueradeFile directory) \<Rightarrow>
          map_err Inl (and_then (file_root fs current_dir directory) (\<lambda>root. Inr (Some (FileHandler root))))
      | Some (MasqueradeProxy url rewrite_host) \<Rightarrow>
          map_err Inr (and_then (parse_target parse_uri url) (\<lambda>target. Inr (Some (ProxyHandler target rewrite_host))))
      | Some (MasqueradeString status_code headers content) \<Rightarrow>
          map_err Inl (and_then (fixed_response status_code headers content) (\<lambda>response. Inr (Some (FixedHandler response)))))"

text \<open>
  \<open>handle\<close> of the three handlers: an error of the proxy is a bad gateway; \<open>in_time\<close> says whether the proxy was
  done within 60 seconds.
\<close>

definition masquerade_handle ::
    "files \<Rightarrow> (bool \<Rightarrow> address \<Rightarrow> bytes \<Rightarrow> bytes option) \<Rightarrow> bool \<Rightarrow> masquerade_handler \<Rightarrow> path option \<Rightarrow> ip_addr \<Rightarrow> proxy_request
      \<Rightarrow> masq_response \<times> path option" where
  "masquerade_handle fs exchange in_time handler cell source request =
     (case handler of
        FileHandler root \<Rightarrow>
          serve_file fs root cell \<lparr>fq_method = pr_method request, fq_path = pr_path request, fq_query = pr_query request\<rparr>
      | ProxyHandler target rewrite_host \<Rightarrow>
          (if \<not> in_time then plain_response 504 []
           else case proxy_exchange exchange target rewrite_host source request of
             Inr response \<Rightarrow> response
           | Inl _ \<Rightarrow> plain_response 502 [], cell)
      | FixedHandler response \<Rightarrow> (response, cell))"

section \<open>What passes from one hop to the next\<close>

lemma fold_remove_header: "set (fold remove_header names hs) = {h \<in> set hs. fst h \<notin> set names}"
  by (induction names arbitrary: hs) (auto simp: remove_header_def)

lemma remove_hop_by_hop_set:
  "set (remove_hop_by_hop_headers hs) = {h \<in> set hs. fst h \<notin> set (connection_headers hs) \<union> set HOP_BY_HOP}"
  by (auto simp: remove_hop_by_hop_headers_def fold_remove_header)

lemma insert_field_set: "set (insert_field name v hs) = insert (name, v) {h \<in> set hs. fst h \<noteq> name}"
  by (induction hs) (auto simp: remove_header_def)

lemma insert_field_one: "filter (\<lambda>h. fst h = name) (insert_field name v hs) = [(name, v)]"
proof (induction hs)
  case (Cons h hs)
  have "filter (\<lambda>h. fst h = name) (remove_header name hs) = []" by (simp add: remove_header_def filter_empty_conv)
  with Cons show ?case by simp
qed simp

lemma header_value_no_crlf: "header_value_ok v \<Longrightarrow> no_crlf v"
  by (fastforce simp: header_value_ok_def no_crlf_def list_all_iff)

lemma forwarded_for_suffix: "suffix (show_ip source) (forwarded_for source hs)"
  by (auto simp: forwarded_for_def suffix_def split: option.split)

text \<open>What the HTTP library guarantees of a request and of a URI: no part of them breaks a line.\<close>

definition proxy_request_wf :: "proxy_target \<Rightarrow> proxy_request \<Rightarrow> bool" where
  "proxy_request_wf target request \<longleftrightarrow>
     list_all no_crlf [pr_method request, pr_path request, pt_authority target, pt_base_path target]
     \<and> pred_option no_crlf (pr_authority request) \<and> pred_option no_crlf (pr_query request) \<and> pred_option no_crlf (pt_base_query target)
     \<and> list_all (\<lambda>h. no_crlf (fst h) \<and> no_crlf (snd h)) (pr_headers request)"

definition proxy_lines :: "proxy_target \<Rightarrow> bool \<Rightarrow> proxy_request \<Rightarrow> header_list \<Rightarrow> string list" where
  "proxy_lines target rewrite_host request hs =
     [pr_method request @ '' '' @ request_target target (pr_path request) (pr_query request) @ '' HTTP/1.1'',
      ''Host: '' @ (if rewrite_host then pt_authority target
        else case pr_authority request of Some a \<Rightarrow> a | None \<Rightarrow> pt_authority target)]
     @ map header_line hs
     @ (if pr_body request \<noteq> [] \<or> pr_method request \<in> {''POST'', ''PUT'', ''PATCH''}
        then [''Content-Length: '' @ show_nat (length (pr_body request))] else [])
     @ [''Connection: close'']"

text \<open>A header of the client that may go on, and one of the server that may go back.\<close>

definition end_to_end :: "header_list \<Rightarrow> string set \<Rightarrow> string \<times> string \<Rightarrow> bool" where
  "end_to_end hs own h \<longleftrightarrow> h \<in> set hs \<and> fst h \<notin> set HOP_BY_HOP \<and> fst h \<notin> set (connection_headers hs) \<and> fst h \<notin> own"

lemma no_crlf_simps [simp]: "no_crlf (s @ t) \<longleftrightarrow> no_crlf s \<and> no_crlf t" "no_crlf []"
  "no_crlf (c # s) \<longleftrightarrow> c \<noteq> CHR 0x0D \<and> c \<noteq> CHR 0x0A \<and> no_crlf s"
  by (auto simp: no_crlf_def)

lemma no_crlf_drop: "no_crlf s \<Longrightarrow> no_crlf (drop n s)"
  by (auto simp: no_crlf_def list_all_iff dest: in_set_dropD)

lemma no_crlf_target:
  assumes "proxy_request_wf target request"
  shows "no_crlf (request_target target (pr_path request) (pr_query request))"
proof -
  have "no_crlf (join_url_path (pt_base_path target) (pr_path request))"
    using assms by (auto simp: join_url_path_def proxy_request_wf_def no_crlf_drop)
  with assms show ?thesis by (auto simp: request_target_def proxy_request_wf_def Let_def split: option.split)
qed

lemma no_crlf_show_nat: "no_crlf (show_nat n)"
  using show_nat_no_char [of "CHR 0x0D" n] show_nat_no_char [of "CHR 0x0A" n] by (auto simp: no_crlf_def list_all_iff)

lemma proxy_head_lines:
  "proxy_head target rewrite_host request hs = concat (map (\<lambda>l. l @ crlf) (proxy_lines target rewrite_host request hs @ [[]]))"
proof -
  have "concat (map (\<lambda>(name, v). name @ '': '' @ v @ crlf) hs) = concat (map (\<lambda>l. l @ crlf) (map header_line hs))"
    by (induction hs) (auto simp: header_line_def)
  then show ?thesis by (cases "pr_body request \<noteq> [] \<or> pr_method request \<in> {''POST'', ''PUT'', ''PATCH''}")
    (simp_all only: proxy_head_def Let_def proxy_lines_def if_True if_False, simp_all)
qed

lemma encode_proxy_request_lines:
  assumes "encode_proxy_request target rewrite_host source request = Inr sent" and "proxy_request_wf target request"
  shows "\<exists>hs. sent = as_bytes (concat (map (\<lambda>l. l @ crlf) (proxy_lines target rewrite_host request hs @ [[]]))) @ pr_body request
    \<and> list_all (\<lambda>l. l \<noteq> [] \<and> no_crlf l) (proxy_lines target rewrite_host request hs)
    \<and> (\<exists>v. filter (\<lambda>h. fst h = ''x-forwarded-for'') hs = [(''x-forwarded-for'', v)] \<and> suffix (show_ip source) v)
    \<and> (\<forall>h \<in> set hs. fst h = ''x-forwarded-for'' \<or> end_to_end (pr_headers request) {''host'', ''content-length''} h)"
proof -
  let ?kept = "remove_header ''content-length'' (remove_header ''host'' (remove_hop_by_hop_headers (pr_headers request)))"
  let ?v = "forwarded_for source ?kept"
  let ?hs = "insert_field ''x-forwarded-for'' ?v ?kept"
  from assms(1) have v: "header_value_ok ?v" and sent: "sent = as_bytes (concat (map (\<lambda>l. l @ crlf)
      (proxy_lines target rewrite_host request ?hs @ [[]]))) @ pr_body request"
    by (auto simp: encode_proxy_request_def proxy_headers_def Let_def proxy_head_lines)
  have kept: "end_to_end (pr_headers request) {''host'', ''content-length''} h" if "h \<in> set ?kept" for h
    using that by (auto simp: end_to_end_def remove_header_def remove_hop_by_hop_set)
  have fields: "no_crlf (fst h) \<and> no_crlf (snd h)" if "h \<in> set ?hs" for h
  proof -
    from that consider "h = (''x-forwarded-for'', ?v)" | "h \<in> set ?kept" by (auto simp: insert_field_set)
    then show ?thesis
    proof cases
      case 2
      then have "h \<in> set (pr_headers request)" using kept by (simp add: end_to_end_def)
      then show ?thesis using assms(2) by (simp add: proxy_request_wf_def list_all_iff)
    qed (simp add: header_value_no_crlf [OF v])
  qed
  then have "list_all (\<lambda>l. l \<noteq> [] \<and> no_crlf l) (proxy_lines target rewrite_host request ?hs)"
    using assms(2) no_crlf_target [OF assms(2)]
    by (auto simp: proxy_lines_def list_all_iff header_line_def case_prod_beta no_crlf_show_nat proxy_request_wf_def split: option.split)
  moreover have "fst h = ''x-forwarded-for'' \<or> end_to_end (pr_headers request) {''host'', ''content-length''} h" if "h \<in> set ?hs" for h
    using that kept [of h] by (auto simp: insert_field_set)
  ultimately show ?thesis using sent insert_field_one forwarded_for_suffix by blast
qed

lemma parse_proxy_response_clean:
  assumes "parse_proxy_response bs is_head = Inr response" and "h \<in> set (mr_headers response)"
  shows "fst h \<notin> set HOP_BY_HOP \<and> (fst h = ''content-length'' \<longrightarrow> is_head)"
proof -
  from assms(1) obtain hs where "mr_headers response
      = (if is_head then remove_hop_by_hop_headers hs else remove_header ''content-length'' (remove_hop_by_hop_headers hs))"
    by (auto simp: parse_proxy_response_def Let_def)
  with assms(2) show ?thesis by (cases is_head) (auto simp: remove_header_def remove_hop_by_hop_set)
qed

text \<open>C34: The masquerade passes on exactly one request and keeps the headers of a hop to itself. When a request is answered, what was sent
  to the target is one request: lines that nothing breaks, and the body; of the headers of the client none belongs to its hop or
  is named by \<open>Connection\<close>, \<open>Host\<close> or \<open>Content-Length\<close>, and one \<open>X-Forwarded-For\<close> ends with the client's address. The answer is what
  came back, of at most 16 MiB, without the headers of that hop.
\<close>

theorem masquerade_proxy_hops:
  assumes "proxy_exchange exchange target rewrite_host source request = Inr response" and "proxy_request_wf target request"
  shows "\<exists>hs v destination received. host destination = pt_host target \<and> port destination = pt_port target
    \<and> exchange (pt_https target) destination
        (as_bytes (concat (map (\<lambda>l. l @ crlf) (proxy_lines target rewrite_host request hs @ [[]]))) @ pr_body request) = Some received
    \<and> list_all (\<lambda>l. l \<noteq> [] \<and> no_crlf l) (proxy_lines target rewrite_host request hs)
    \<and> (\<forall>h \<in> set hs. fst h = ''x-forwarded-for'' \<or> end_to_end (pr_headers request) {''host'', ''content-length''} h)
    \<and> filter (\<lambda>h. fst h = ''x-forwarded-for'') hs = [(''x-forwarded-for'', v)] \<and> suffix (show_ip source) v
    \<and> length received \<le> MAX_MASQUERADE_RESPONSE_SIZE \<and> parse_proxy_response received (pr_method request = ''HEAD'') = Inr response
    \<and> (\<forall>h \<in> set (mr_headers response). fst h \<notin> set HOP_BY_HOP \<and> (fst h = ''content-length'' \<longrightarrow> pr_method request = ''HEAD''))"
proof -
  from assms(1) obtain destination sent received where d: "new_address (pt_host target) (pt_port target) = Inr destination"
    and sent: "encode_proxy_request target rewrite_host source request = Inr sent"
    and received: "exchange (pt_https target) destination sent = Some received"
      "length (take (MAX_MASQUERADE_RESPONSE_SIZE + 1) received) \<le> MAX_MASQUERADE_RESPONSE_SIZE"
      "parse_proxy_response (take (MAX_MASQUERADE_RESPONSE_SIZE + 1) received) (pr_method request = ''HEAD'') = Inr response"
    by (auto simp: proxy_exchange_def Let_def)
  from received(2) have len: "length received \<le> MAX_MASQUERADE_RESPONSE_SIZE" by simp
  with received(3) have answer: "parse_proxy_response received (pr_method request = ''HEAD'') = Inr response" by simp
  note clean = parse_proxy_response_clean [OF answer]
  from d have "host destination = pt_host target" "port destination = pt_port target"
    by (auto simp: new_address_def split: if_splits)
  moreover from encode_proxy_request_lines [OF sent assms(2)] obtain hs v where
    "sent = as_bytes (concat (map (\<lambda>l. l @ crlf) (proxy_lines target rewrite_host request hs @ [[]]))) @ pr_body request"
    "list_all (\<lambda>l. l \<noteq> [] \<and> no_crlf l) (proxy_lines target rewrite_host request hs)"
    "filter (\<lambda>h. fst h = ''x-forwarded-for'') hs = [(''x-forwarded-for'', v)]" "suffix (show_ip source) v"
    "\<forall>h \<in> set hs. fst h = ''x-forwarded-for'' \<or> end_to_end (pr_headers request) {''host'', ''content-length''} h" by blast
  ultimately show ?thesis using received(1) len answer clean by blast
qed

text \<open>A target that answers every request with one header and no content.\<close>

theorem masquerade_proxy_hops_witness:
  "\<exists>exchange target request response hs v. proxy_exchange exchange target False (IpV4 1) request = Inr response \<and> mr_body response = []
    \<and> (''te'', ''trailers'') \<in> set (pr_headers request) \<and> (''te'', ''trailers'') \<notin> set hs
    \<and> exchange False \<lparr>host = ''x'', port = 80\<rparr>
        (as_bytes (concat (map (\<lambda>l. l @ crlf) (proxy_lines target False request hs @ [[]]))) @ pr_body request) \<noteq> None
    \<and> filter (\<lambda>h. fst h = ''x-forwarded-for'') hs = [(''x-forwarded-for'', v)] \<and> suffix (show_ip (IpV4 1)) v"
proof -
  let ?target = "\<lparr>pt_https = False, pt_host = ''x'', pt_port = 80, pt_authority = ''x'', pt_base_path = ''/'', pt_base_query = None\<rparr>"
  let ?request = "\<lparr>pr_method = ''GET'', pr_authority = None, pr_path = ''/a'', pr_query = None, pr_headers = [(''te'', ''trailers'')], pr_body = []\<rparr>"
  let ?answer = "as_bytes (''HTTP/1.1 204'' @ crlf @ crlf)"
  let ?exchange = "\<lambda>(tls :: bool) (a :: address) (b :: bytes). Some ?answer"
  let ?response = "\<lparr>mr_status = 204, mr_headers = [], mr_body = []\<rparr>"
  have "digit_char 1 = CHR ''1''" by code_simp
  then have ip: "show_ip (IpV4 1) = ''0.0.0.1''"
    by (simp add: show_ipv4_def octet_def show_nat.simps digit_char_0)
  have headers: "proxy_headers (IpV4 1) [(''te'', ''trailers'')] = Inr [(''x-forwarded-for'', ''0.0.0.1'')]"
    by (simp add: proxy_headers_def Let_def forwarded_for_def ip remove_hop_by_hop_headers_def connection_headers_def remove_header_def
        HOP_BY_HOP_def header_value_ok_def del: show_ip.simps)
  have bytes: "?answer = as_bytes ''HTTP/1.1 204'' @ (CRLF @ CRLF) @ []" by (simp only: as_bytes_append CRLF_as_bytes append_Nil2)
  have "hd (CRLF @ CRLF) \<notin> set (as_bytes ''HTTP/1.1 204'')" by (simp add: CRLF_def as_bytes_def)
  then have split: "find_sub (CRLF @ CRLF) ?answer = Some 12" unfolding bytes by (subst find_sub_append) simp_all
  have "is_str ''HTTP/1.1 204''" by (rule is_ascii_is_str) simp
  then have head: "from_utf8 HeadNotUtf8 (take 12 ?answer) = Inr ''HTTP/1.1 204''" unfolding bytes by simp
  have status: "proxy_status ''HTTP/1.1 204'' = Inr 204"
    by (simp add: proxy_status_def parse_uint_def to_digit_def)
  have "parse_proxy_response a False = Inr ?response"
    if "find_sub (CRLF @ CRLF) a = Some 12" "from_utf8 HeadNotUtf8 (take 12 a) = Inr ''HTTP/1.1 204''" for a
    using that by (simp add: parse_proxy_response_def status split_crlf_last proxy_body_def remove_hop_by_hop_headers_def
        connection_headers_def remove_header_def HOP_BY_HOP_def)
  from this [OF split head] have answer: "parse_proxy_response ?answer False = Inr ?response" .
  have "proxy_exchange (\<lambda>_ _ _. Some a) ?target False (IpV4 1) ?request = Inr ?response"
    if "parse_proxy_response a False = Inr ?response" "length a \<le> MAX_MASQUERADE_RESPONSE_SIZE" for a
    using that by (simp add: proxy_exchange_def new_address_def encode_proxy_request_def headers)
  from this [OF answer] have exchange: "proxy_exchange ?exchange ?target False (IpV4 1) ?request = Inr ?response"
    unfolding bytes by (simp add: MAX_MASQUERADE_RESPONSE_SIZE_def)
  have "proxy_request_wf ?target ?request" by (simp add: proxy_request_wf_def)
  from masquerade_proxy_hops [OF exchange this] obtain hs v where hs:
    "\<forall>h \<in> set hs. fst h = ''x-forwarded-for'' \<or> end_to_end [(''te'', ''trailers'')] {''host'', ''content-length''} h"
    "filter (\<lambda>h. fst h = ''x-forwarded-for'') hs = [(''x-forwarded-for'', v)]" "suffix (show_ip (IpV4 1)) v"
    by (auto simp del: show_ip.simps)
  have "(''te'', ''trailers'') \<notin> set hs" using hs(1) by (auto simp: end_to_end_def HOP_BY_HOP_def)
  with exchange hs(2,3) show ?thesis
    by (intro exI [of _ ?exchange] exI [of _ ?target] exI [of _ ?request] exI [of _ ?response] exI [of _ hs] exI [of _ v])
      (simp del: show_ip.simps)
qed

end
