(* ===== verification/Spec2Isabelle.thy ===== *)
theory Spec2Isabelle
  imports Engine Router Socks Direct Listen Connection_Tasks Buffer_Pool Ntp Registry
    Config_Loader Http_Fetch Anytls_Safety Vless_Tunnel Cf_Datagram Cf_Http2
    Masquerade_Proxy
begin

text \<open>
  sing-box-rs is a rule-based network proxy: inbounds accept connections, a router chooses an
  outbound for each, and the outbound dials the destination. This development models its core crate
  (\<open>crates/sing-box-core\<close>), two parts of its command line (\<open>crates/sing-box-cli\<close>), the AnyTLS,
  VLESS and Cloudflared protocols (\<open>crates/sing-box-protocol-anytls\<close>, \<open>crates/sing-box-protocol-vless\<close>,
  \<open>crates/sing-box-protocol-cloudflared\<close>) and the masquerade of Hysteria2 (\<open>crates/sing-box-protocol-hysteria2\<close>),
  and proves what makes them correct.

  How the program is put together, and where each part is modelled.

    \<^item> Start. \<open>config_loader.rs\<close> reads the command line and merges JSON files into one value
      (\<open>Config_Loader\<close>); \<open>json.rs\<close> strips comments first (\<open>Json_Ext\<close>); the typed configuration of
      \<open>config.rs\<close> is \<open>Config_Types\<close>. \<open>Engine::new_with_services\<close> of \<open>engine.rs\<close> builds the
      certificate providers, the outbounds, the router and the inbounds from it with the factories of
      \<open>registry.rs\<close> (\<open>Engine\<close>, \<open>Registry\<close>).
    \<^item> Components. \<open>manager.rs\<close> and \<open>certificate.rs\<close> register them by tag and start and close them in
      order (\<open>Managers\<close>); \<open>OutboundManager::ordered\<close> sorts the outbounds by their dependencies
      (\<open>Outbound_Order\<close>). A component is its tag, its dependencies and the outcomes of its start and
      close; the calls made on it are recorded as events.
    \<^item> Routing. \<open>router.rs\<close>: CIDR blocks, ports and private ranges (\<open>Cidr\<close>), the conditions of rules
      (\<open>Rule_Matcher\<close>), the loading and updating of rule-sets (\<open>Rule_Set\<close>, \<open>Duration\<close>), building the
      router, selecting an outbound and connecting (\<open>Router\<close>). The binary rule-set format of
      \<open>srs.rs\<close> is \<open>Srs_Reader\<close> (integers and collections), \<open>Srs_Ipset\<close> (address ranges),
      \<open>Srs_Domain\<close> (the succinct trie of domains) and \<open>Srs\<close> (items, rules, the file); \<open>Srs_Trie\<close> has a writer of
      such tries. Files and fetches are asked at instants: a preparation that reads a file and then takes its
      fingerprint sees two of them, and the file may change in between.
    \<^item> Remote rule-sets. \<open>rule_set_fetcher.rs\<close> of the command line is an HTTP/1.1 client:
      \<open>Http_Message\<close> (requests, responses, chunked bodies) and \<open>Http_Fetch\<close> (URLs, redirects, entity
      tags). The router calls it through the field \<open>fetch\<close> of \<open>outside\<close> in \<open>Rule_Set\<close>.
    \<^item> Connections. \<open>api.rs\<close> has the addresses, sessions and the system dialer (\<open>Api_Core\<close>), \<open>buffer.rs\<close>
      and the packets of \<open>api.rs\<close> the pool of buffers (\<open>Buffer_Pool\<close>), \<open>tasks.rs\<close> the group of connection
      tasks (\<open>Connection_Tasks\<close>), \<open>listen.rs\<close> the listeners (\<open>Listen\<close>), \<open>socks.rs\<close> the SOCKS5
      inbound (\<open>Socks\<close>), \<open>direct.rs\<close> and \<open>block.rs\<close> the built-in outbounds (\<open>Direct\<close>), \<open>ntp.rs\<close> the
      clock correction (\<open>Ntp\<close>).
    \<^item> AnyTLS, all in \<open>lib.rs\<close> of its crate: frames, padding schemes and the padded writer
      (\<open>Anytls_Frame\<close>), the digest of a scheme (\<open>Md5\<close>), authentication, settings, stream addresses and
      UDP over a stream (\<open>Anytls_Auth\<close>), the server's multiplexer, the client session and the pool of
      sessions as step relations (\<open>Anytls_Session\<close>), and what holds of their interleavings
      (\<open>Anytls_Safety\<close>).
    \<^item> VLESS over WebSocket, all in \<open>lib.rs\<close> of its crate: UUIDs, SHA-1, base64 and the request header
      (\<open>Vless_Codec\<close>), the stream \<open>WebSocketStream\<close> with its poll functions (\<open>Vless_Ws\<close>), the HTTP upgrade on
      both sides and the options (\<open>Vless_Http\<close>), the handler of an inbound connection and \<open>connect\<close> of the
      outbound (\<open>Vless_Tunnel\<close>). What a stream keeps of the frames it reads and writes is in \<open>Vless_Ws_Safety\<close>,
      what holds of all its runs in \<open>Vless_Ws_Run\<close>, what one side of the upgrade makes of the text of the other in
      \<open>Vless_Handshake\<close>.
    \<^item> Cloudflared, a tunnel that serves requests of Cloudflare's edge. \<open>discovery.rs\<close> finds the edges with
      DNS messages of its own (\<open>Cf_Discovery\<close>); the token of \<open>lib.rs\<close> is \<open>Cf_Token\<close>; the connect messages of
      \<open>protocol.rs\<close>, their frames on a QUIC stream and the registration of \<open>registration.rs\<close> are in
      \<open>Cf_Protocol\<close>. \<open>inbound.rs\<close>: the remote configuration, its ingress rules and the addresses (\<open>Cf_Ingress\<close>), the request written to an
      HTTP origin (\<open>Cf_Origin\<close>), its response and the serving of a request over both transports, with \<open>H2Writer\<close> of \<open>transport.rs\<close>
      for the body over HTTP/2 (\<open>Cf_Response\<close>), the
      options, the start and the supervisor of each connection with the loops of \<open>quic.rs\<close> and \<open>transport.rs\<close> that it
      runs (\<open>Cf_Supervisor\<close>). UDP over the datagrams of \<open>quic.rs\<close> is \<open>Cf_Datagram\<close>, the requests that come as streams of
      HTTP/2 to \<open>transport.rs\<close> are \<open>Cf_Http2\<close>.
    \<^item> The masquerade of a Hysteria2 inbound, which answers HTTP clients like a web server, in \<open>masquerade.rs\<close> of its crate: serving
      files and listings (\<open>Masquerade_Files\<close>), passing requests on to another server, the fixed response and the
      options (\<open>Masquerade_Proxy\<close>).

  Below all of them, \<open>Prelude\<close> has results as sums, byte parsers and the two interfaces of a wire
  format, the locales \<open>codec\<close> (what is written is read back, with the rest of the input untouched) and
  \<open>exact_codec\<close> (and nothing else is accepted); they are interpreted on the variable-length integers of
  \<open>Srs_Reader\<close>, the SOCKS addresses, the AnyTLS frames, stream addresses and packets. \<open>Rust_Str\<close>, \<open>Rust_Text\<close>,
  \<open>Net_Addr\<close> and \<open>Net_Roundtrip\<close> are the parts of Rust's library the program uses: strings as their UTF-8
  bytes, integer and address texts. The locale \<open>component_store\<close> of \<open>Managers\<close> is the contract of the
  three registries; all three interpret it.

  What the groups of lemmas show.

    \<^item> Reading and writing agree: CIDR texts, addresses, URLs, HTTP responses, frames, stream requests and
      packets come back as they were written; the padded AnyTLS writer adds only WASTE frames, and
      its records follow the scheme range by range.
    \<^item> Decoders mean what the format says: the blocks of a binary IP set cover exactly the ranges of the
      file, the keys read from a domain trie are exactly the words on its paths, and the recursion over
      untrusted depths and counts ends (each \<open>termination\<close> is proved).
    \<^item> Selection is the first rule that decides, with the destination as earlier route options left it;
      rules compile to conditions that mean what their configuration says.
    \<^item> The outbounds start in an order in which dependencies come first, and the two errors are reported
      exactly when there is none; a failed start rolls everything back, a successful one runs every
      stage of every component in order.
    \<^item> Interleavings: rule-set services keep the published rules consistent; the task group loses no
      wake-up; an AnyTLS server hands over the bytes of each stream in its table in order, a client session carries
      one stream at a time. These are invariants of \<open>inductive\<close> step relations, proved by rule induction.
    \<^item> A VLESS tunnel works end to end: the inbound understands and serves what the outbound sends, whatever the
      pieces, with no errors but those of the transport and of the random generator, and serves only known users whatever a peer sends; the WebSocket stream delivers the payload of its peer in order, writes only whole legal
      frames, and two connected ends deliver to each other.
    \<^item> A Cloudflared tunnel connects only where the newest configuration it was sent says, writes exactly one request to
      its origin whatever the edge asks for, relays the response exactly over QUIC and over HTTP/2 as far as the library gives capacity, keeps
      UDP flows apart, and tries its edges and transports in the order the configuration asks for.
    \<^item> The masquerade serves only what lies below its root by its path, its listings link to their entries, but for names with a backslash, and cannot be injected
      with markup, and its proxy sends exactly one request and keeps the headers of a hop to itself.
    \<^item> Defects are theorems too: a change of a rule-set file during loading that is never noticed
      (\<open>local_load_race\<close>), data lost by the FIN frame of its stream (\<open>fin_discards_queue\<close>), a pool that closes more
      idle sessions than it should (\<open>idle_sweep_undershoots\<close>), an overflow in the size of a chunk
      (\<open>chunk_size_overflow\<close>), data accepted behind a close frame (\<open>ws_half_close_discards\<close>), a path with
      a query that no request matches (\<open>query_path_never_matches\<close>), a refusal for good that does not stop a
      tunnel (\<open>permanent_refusal_over_http2\<close>), UDP of version 2 that blocks inside of the runtime
      (\<open>v2_opens_no_flow\<close>), a flow that is confirmed and not served (\<open>registration_without_flow\<close>), an
      index of a directory that leads out of the root (\<open>masquerade_index_escapes\<close>), an entry that is listed and refused
      (\<open>masquerade_listing_links\<close>), a body over HTTP/2 that waits for a capacity nobody reserved (\<open>origin_response_relayed\<close>).

  Bounds and fuel. No definition uses fuel: loops recurse on a measure of the state (remaining bytes,
  unresolved outbounds, redirects left, distance of an address to the end of its range, depth of a logical
  rule). The transport below a WebSocket stream is a script of its coming answers (bytes, an end, an error or not
  ready), so that the loops of the poll functions end with it and a future that is polled again and again is a run
  over one script; the theorems hold for every script. The bounds are those of the code: 64 levels of logical rules, 4000000 entries of a collection, five redirects, 65535
  bytes of frame data, 32 chunks in a channel. Machine integers are words where they wrap (addresses, MD5,
  stream identifiers) and integers with their bound stated where the code checks it.

  Parameters. What is not in the repository is an argument of the definitions that use it: the decompressor
  and the iteration order of hash sets (\<open>Srs\<close>), the JSON and typed decoders, floating point
  numbers (\<open>Duration\<close>), files, sockets, clocks and the resolver, one HTTP exchange over TCP or TLS, random
  numbers, SHA-256, Cap'n Proto, the parser of URIs, what the HTTP/2 library accepts as a response and the capacity it gives for a body (\<open>Cf_Protocol\<close>,
  \<open>Cf_Ingress\<close>, \<open>Cf_Response\<close>), and what an origin answers. A law one of them has to obey is a hypothesis of the theorem, and its witness shows a
  function that does.

  Not modelled. The typed decoding of \<open>config.rs\<close> by serde; the byte copying loops of \<open>router.rs\<close> and the
  accept loops of the inbounds, which are loops of the tokio runtime around the modelled handlers; \<open>main.rs\<close>,
  \<open>logging.rs\<close>, \<open>dns_adapter.rs\<close> and \<open>acme.rs\<close> of the command line, which call libraries; the TLS,
  JLS and Reality handshakes, with \<open>build_vless_client_config\<close> of the VLESS crate; the ShadowQUIC, SunnyQUIC and Snell crates and
  \<open>lib.rs\<close> of the Hysteria2 crate;
  of the Cloudflared crate the set-up of TLS, QUIC and HTTP/2, the RPC calls of Cap'n Proto with its generated code, the poll
  functions that read from the streams of those libraries, and its threads and their cancellation.
\<close>

end
